(* ===== verification/Prelude.thy ===== *)
theory Prelude
  imports
    Main
    "HOL-Library.Word"
    "HOL-Library.Char_ord"
    "HOL-Library.List_Lexorder"
    "HOL-Library.AList"
begin

text \<open>
  What the components share: Rust's machine integers with their saturating and checked
  operations, its \<^verbatim>\<open>Result\<close> type, the two map types of the standard library
  (\<^verbatim>\<open>BTreeMap\<close> as a key-sorted association list, \<^verbatim>\<open>HashMap\<close> as an association list
  whose order nothing relies on), and the string operations the code uses on ids, paths and
  addresses (\<^verbatim>\<open>format!\<close> of an integer, \<^verbatim>\<open>str::parse\<close>, \<^verbatim>\<open>split_once\<close>, \<^verbatim>\<open>strip_prefix\<close>,
  \<^verbatim>\<open>Ipv4Addr::from_str\<close>). A Rust \<^verbatim>\<open>String\<close> is the list of its UTF-8 bytes, so
  \<^term>\<open>length\<close> is \<^verbatim>\<open>str::len\<close>. The target is 64-bit: \<^verbatim>\<open>usize\<close> is \<^typ>\<open>64 word\<close>.
\<close>

unbundle bit_operations_syntax

named_theorems map_simps \<open>lookup equations of the two map types\<close>
named_theorems sat_simps \<open>saturating and checked arithmetic read as naturals\<close>
named_theorems str_simps \<open>decimal printing, parsing and splitting of strings\<close>

type_synonym u8 = "8 word"
type_synonym u16 = "16 word"
type_synonym u32 = "32 word"
type_synonym u64 = "64 word"
type_synonym bytes = "u8 list"

subsection \<open>Results\<close>

datatype ('e, 'a) result = Err 'e | Ok 'a

fun bind_result :: "('e, 'a) result \<Rightarrow> ('a \<Rightarrow> ('e, 'b) result) \<Rightarrow> ('e, 'b) result" where
  "bind_result (Err e) f = Err e"
| "bind_result (Ok a) f = f a"

fun map_err :: "('e \<Rightarrow> 'f) \<Rightarrow> ('e, 'a) result \<Rightarrow> ('f, 'a) result" where
  "map_err f (Err e) = Err (f e)"
| "map_err f (Ok a) = Ok a"

definition ok_or :: "'e \<Rightarrow> 'a option \<Rightarrow> ('e, 'a) result" where
  "ok_or e x = (case x of None \<Rightarrow> Err e | Some a \<Rightarrow> Ok a)"

fun is_ok :: "('e, 'a) result \<Rightarrow> bool" where
  "is_ok (Err e) = False"
| "is_ok (Ok a) = True"

lemma ok_or_simps [simp]: "ok_or e None = Err e" "ok_or e (Some a) = Ok a"
  by (simp_all add: ok_or_def)

lemma ok_or_eq_Ok [simp]: "ok_or e x = Ok a \<longleftrightarrow> x = Some a"
  by (cases x) simp_all

lemma bind_result_eq_Ok: "bind_result r f = Ok b \<longleftrightarrow> (\<exists>a. r = Ok a \<and> f a = Ok b)"
  by (cases r) simp_all

lemma is_ok_iff: "is_ok r \<longleftrightarrow> (\<exists>a. r = Ok a)"
  by (cases r) simp_all

lemma map_err_eq_Ok [simp]: "map_err f r = Ok a \<longleftrightarrow> r = Ok a"
  by (cases r) simp_all

text \<open>The \<^verbatim>\<open>?\<close> operator on a pair of a state and a result; the state reached is kept on an error.\<close>

fun and_then :: "'s \<times> ('e, 'a) result \<Rightarrow> ('s \<Rightarrow> 'a \<Rightarrow> 's \<times> ('e, 'b) result) \<Rightarrow> 's \<times> ('e, 'b) result" where
  "and_then (s, Err e) f = (s, Err e)"
| "and_then (s, Ok a) f = f s a"

lemma and_then_eq_Ok:
  "and_then p f = (s', Ok b) \<longleftrightarrow> (\<exists>s a. p = (s, Ok a) \<and> f s a = (s', Ok b))"
  by (cases p; cases "snd p") auto

lemma and_then_eq_Err:
  "and_then p f = (s', Err e) \<longleftrightarrow> p = (s', Err e) \<or> (\<exists>s a. p = (s, Ok a) \<and> f s a = (s', Err e))"
  by (cases p; cases "snd p") auto

subsection \<open>Machine integers\<close>

definition saturating_add :: "'l::len word \<Rightarrow> 'l word \<Rightarrow> 'l word" where
  "saturating_add a b = (if unat a + unat b < 2 ^ LENGTH('l) then a + b else - 1)"

definition saturating_sub :: "'l::len word \<Rightarrow> 'l word \<Rightarrow> 'l word" where
  "saturating_sub a b = (if b \<le> a then a - b else 0)"

definition saturating_mul :: "'l::len word \<Rightarrow> 'l word \<Rightarrow> 'l word" where
  "saturating_mul a b = (if unat a * unat b < 2 ^ LENGTH('l) then a * b else - 1)"

definition checked_add :: "'l::len word \<Rightarrow> 'l word \<Rightarrow> 'l word option" where
  "checked_add a b = (if unat a + unat b < 2 ^ LENGTH('l) then Some (a + b) else None)"

text \<open>The largest value of the width, Rust's \<^verbatim>\<open>MAX\<close>.\<close>

lemma unat_max: "unat (- 1 :: 'l::len word) = 2 ^ LENGTH('l) - 1"
  by (simp add: unsigned_minus_1_eq_mask mask_eq_exp_minus_1)

lemma unat_add_small:
  "unat a + unat b < 2 ^ LENGTH('l) \<Longrightarrow> unat (a + b) = unat a + unat (b :: 'l::len word)"
  by (simp add: unat_word_ariths)

lemma unat_sub_small: "b \<le> a \<Longrightarrow> unat (a - b) = unat a - unat (b :: 'l::len word)"
  by (simp add: unat_sub)

lemma unat_lt_size: "unat (a :: 'l::len word) < 2 ^ LENGTH('l)"
  by (rule unsigned_less)

lemma unat_saturating_add [sat_simps]:
  "unat (saturating_add a b) = min (unat a + unat b) (2 ^ LENGTH('l) - 1)" for a :: "'l::len word"
  using unat_lt_size [of a] by (auto simp: saturating_add_def unat_add_small unat_max)

lemma unat_saturating_sub [sat_simps]:
  "unat (saturating_sub a b) = unat a - unat (b :: 'l::len word)"
  by (auto simp: saturating_sub_def unat_sub_small word_le_nat_alt)

lemma unat_saturating_mul [sat_simps]:
  "unat (saturating_mul a b) = min (unat a * unat b) (2 ^ LENGTH('l) - 1)" for a :: "'l::len word"
  by (auto simp: saturating_mul_def unat_max unat_word_ariths)

lemma checked_add_Some [sat_simps]:
  "checked_add a b = Some c \<longleftrightarrow> unat a + unat b < 2 ^ LENGTH('l) \<and> c = a + b"
  for a :: "'l::len word"
  by (auto simp: checked_add_def)

lemma unat_checked_add:
  "checked_add a b = Some c \<Longrightarrow> unat c = unat a + unat b"
  by (auto simp: checked_add_def unat_add_small split: if_splits)

lemma saturating_add_ge: "a \<le> saturating_add a b"
  using unat_lt_size [of a] by (simp add: word_le_nat_alt sat_simps less_eq_Suc_le Suc_leI)

lemma le_saturating_add: "c \<le> n \<Longrightarrow> c \<le> saturating_add n k"
  using saturating_add_ge order_trans by blast

lemma saturating_sub_le: "saturating_sub a b \<le> a"
  by (simp add: word_le_nat_alt sat_simps)

lemma saturating_add_sub_cancel:
  assumes "unat a + unat b < 2 ^ LENGTH('l)"
  shows "saturating_sub (saturating_add a b) b = (a :: 'l::len word)"
  using assms by (simp add: word_unat_eq_iff sat_simps)

lemma saturating_add_zero [simp]: "saturating_add a 0 = a"
  using unat_lt_size [of a] by (simp add: saturating_add_def)

lemma saturating_sub_zero [simp]: "saturating_sub a 0 = a"
  by (simp add: saturating_sub_def)

lemma next_gt:
  assumes "n \<noteq> - 1"
  shows "n < saturating_add n (1 :: 'l::len word)"
proof -
  have "unat n \<noteq> 2 ^ LENGTH('l) - 1" using assms by (metis unat_max word_unat_eq_iff)
  moreover have "unat n < 2 ^ LENGTH('l)" by (rule unat_lt_size)
  ultimately have "unat n + 1 \<le> 2 ^ LENGTH('l) - 1" by linarith
  then show ?thesis by (simp add: word_less_nat_alt sat_simps min_def)
qed

lemma unat_next: "unat n \<le> k \<Longrightarrow> unat (saturating_add n 1) \<le> Suc k"
  by (simp add: sat_simps)

lemma unat_next0: "unat (saturating_add (0 :: 'l::len word) 1) \<le> Suc k"
  by (simp add: sat_simps)

lemma not_max: "unat n \<le> k \<Longrightarrow> k + 1 < 2 ^ LENGTH('l) \<Longrightarrow> (n :: 'l::len word) \<noteq> - 1"
  using unat_max [where 'l = 'l] by fastforce

end
