(* ===== verification/Assoc_Maps.thy ===== *)
theory Assoc_Maps
  imports Prelude
begin

text \<open>
  The two map types of the Rust standard library. A \<^verbatim>\<open>BTreeMap\<close> iterates in key order and is
  a list of entries strictly sorted by key; a \<^verbatim>\<open>HashMap\<close> iterates in no fixed order and is a
  list of entries with distinct keys, in whatever order it happens to have. Both are instances
  of one interface, the locale \<open>assoc_map\<close>: looking a key up after an insertion or a removal,
  the invariant every operation keeps, and what iterating over the entries yields.
\<close>

subsection \<open>Operations\<close>

fun bt_insert :: "'k::linorder \<Rightarrow> 'v \<Rightarrow> ('k \<times> 'v) list \<Rightarrow> ('k \<times> 'v) list" where
  "bt_insert k v [] = [(k, v)]"
| "bt_insert k v (e # m) =
     (if k < fst e then (k, v) # e # m
      else if k = fst e then (k, v) # m
      else e # bt_insert k v m)"

definition bt_remove :: "'k::linorder \<Rightarrow> ('k \<times> 'v) list \<Rightarrow> ('k \<times> 'v) list" where
  "bt_remove k m = filter (\<lambda>e. fst e \<noteq> k) m"

definition bt_retain :: "('k \<Rightarrow> 'v \<Rightarrow> bool) \<Rightarrow> ('k::linorder \<times> 'v) list \<Rightarrow> ('k \<times> 'v) list" where
  "bt_retain P m = filter (\<lambda>e. P (fst e) (snd e)) m"

definition bt_wf :: "('k::linorder \<times> 'v) list \<Rightarrow> bool" where
  "bt_wf m \<longleftrightarrow> sorted_wrt (<) (map fst m)"

definition hm_wf :: "('k \<times> 'v) list \<Rightarrow> bool" where
  "hm_wf m \<longleftrightarrow> distinct (map fst m)"

definition map_values :: "('k \<times> 'v) list \<Rightarrow> 'v list" where
  "map_values m = map snd m"

subsection \<open>The interface of a map\<close>

locale assoc_map =
  fixes ins :: "'k \<Rightarrow> 'v \<Rightarrow> ('k \<times> 'v) list \<Rightarrow> ('k \<times> 'v) list"
    and del :: "'k \<Rightarrow> ('k \<times> 'v) list \<Rightarrow> ('k \<times> 'v) list"
    and wf :: "('k \<times> 'v) list \<Rightarrow> bool"
  assumes get_ins: "map_of (ins k v m) = (map_of m)(k \<mapsto> v)"
    and get_del: "map_of (del k m) = (map_of m)(k := None)"
    and wf_empty: "wf []"
    and wf_ins: "wf m \<Longrightarrow> wf (ins k v m)"
    and wf_del: "wf m \<Longrightarrow> wf (del k m)"
    and wf_keys: "wf m \<Longrightarrow> distinct (map fst m)"
begin

lemma entry_iff: "wf m \<Longrightarrow> (k, v) \<in> set m \<longleftrightarrow> map_of m k = Some v"
  by (simp add: wf_keys)

lemma value_iff: "wf m \<Longrightarrow> v \<in> set (map_values m) \<longleftrightarrow> (\<exists>k. map_of m k = Some v)"
  by (force simp: map_values_def wf_keys simp flip: entry_iff)

lemma size_dom: "wf m \<Longrightarrow> length m = card (dom (map_of m))"
  using wf_keys [of m] distinct_card [of "map fst m"] by (simp add: dom_map_of_conv_image_fst)

lemma size_ins:
  assumes "wf m"
  shows "length (ins k v m) = (if map_of m k = None then Suc (length m) else length m)"
  using assms by (auto simp: size_dom wf_ins get_ins finite_dom_map_of insert_absorb domIff)

lemma size_del_le: assumes "wf m" shows "length (del k m) \<le> length m"
proof -
  have "dom (map_of (del k m)) \<subseteq> dom (map_of m)" by (auto simp: get_del split: if_splits)
  then show ?thesis
    using assms by (simp add: size_dom wf_del card_mono finite_dom_map_of)
qed

end

subsection \<open>Sorted lists implement it\<close>

lemma map_of_bt_insert: "map_of (bt_insert k v m) = (map_of m)(k \<mapsto> v)"
  by (induction m) (auto simp: fun_eq_iff)

lemma map_of_filter_fst: "map_of (filter (\<lambda>e. fst e \<noteq> k) m) = (map_of m)(k := None)"
  by (induction m) auto

lemma set_bt_insert_subset: "set (bt_insert k v m) \<subseteq> insert (k, v) (set m)"
  by (induction m) auto

lemma bt_wf_Cons [simp]: "bt_wf (e # m) \<longleftrightarrow> (\<forall>x \<in> set m. fst e < fst x) \<and> bt_wf m"
  by (auto simp: bt_wf_def)

lemma bt_wf_Nil [simp]: "bt_wf []"
  by (simp add: bt_wf_def)

lemma bt_wf_insert: "bt_wf m \<Longrightarrow> bt_wf (bt_insert k v m)"
proof (induction m)
  case (Cons e m)
  then show ?case using set_bt_insert_subset [of k v m] by fastforce
qed simp

lemma bt_wf_filter: "bt_wf m \<Longrightarrow> bt_wf (filter P m)"
  by (induction m) auto

lemma bt_wf_distinct: "bt_wf m \<Longrightarrow> distinct (map fst m)"
  by (simp add: bt_wf_def strict_sorted_iff)

interpretation bt: assoc_map bt_insert bt_remove bt_wf
  by unfold_locales
     (simp_all add: map_of_bt_insert bt_remove_def map_of_filter_fst bt_wf_insert bt_wf_filter bt_wf_distinct)

lemma bt_wf_retain: "bt_wf m \<Longrightarrow> bt_wf (bt_retain P m)"
  by (simp add: bt_retain_def bt_wf_filter)

lemma map_of_bt_retain:
  "bt_wf m \<Longrightarrow> map_of (bt_retain P m) k =
     (case map_of m k of None \<Rightarrow> None | Some v \<Rightarrow> if P k v then Some v else None)"
proof (induction m)
  case (Cons e m)
  from Cons.prems have "map_of m (fst e) = None"
    by (auto simp: map_of_eq_None_iff)
  with Cons show ?case by (cases e) (auto simp: bt_retain_def split: option.splits)
qed (simp add: bt_retain_def)

subsection \<open>Unordered lists implement it\<close>

interpretation hm: assoc_map AList.update AList.delete hm_wf
  by unfold_locales
     (simp_all add: hm_wf_def AList.update_conv' AList.delete_conv' AList.distinct_update AList.distinct_delete)

lemmas map_laws [map_simps] =
  bt.get_ins bt.get_del hm.get_ins hm.get_del

lemmas map_wf_laws [simp, intro] =
  bt.wf_ins bt.wf_del bt_wf_retain hm.wf_empty hm.wf_ins hm.wf_del

text \<open>An entry modified in place, as \<^verbatim>\<open>get_mut\<close> does: the other entries and the order stay.\<close>

definition map_update_with :: "'k \<Rightarrow> ('v \<Rightarrow> 'v) \<Rightarrow> ('k \<times> 'v) list \<Rightarrow> ('k \<times> 'v) list" where
  "map_update_with k f m = map (\<lambda>e. if fst e = k then (fst e, f (snd e)) else e) m"

lemma map_of_update_with [map_simps]:
  "map_of (map_update_with k f m) = (map_of m)(k := map_option f (map_of m k))"
  by (induction m) (auto simp: map_update_with_def fun_eq_iff)

lemma keys_update_with [simp]: "map fst (map_update_with k f m) = map fst m"
  by (induction m) (auto simp: map_update_with_def)

lemma wf_update_with [simp]:
  "bt_wf (map_update_with k f m) \<longleftrightarrow> bt_wf m"
  "hm_wf (map_update_with k f m) \<longleftrightarrow> hm_wf m"
  by (simp_all add: bt_wf_def hm_wf_def)

lemma length_update_with [simp]: "length (map_update_with k f m) = length m"
  by (simp add: map_update_with_def)

end
