(* ===== verification/Text_Format.thy ===== *)
theory Text_Format
  imports Prelude
begin

text \<open>
  The string operations the code applies to ids, paths and addresses: an integer's decimal
  form (\<^verbatim>\<open>format!("{n}")\<close>), \<^verbatim>\<open>str::parse\<close> into an unsigned integer, \<^verbatim>\<open>split_once\<close>,
  \<^verbatim>\<open>split\<close>, \<^verbatim>\<open>strip_prefix\<close>, and \<^verbatim>\<open>Ipv4Addr\<close>'s \<^verbatim>\<open>from_str\<close> and \<^verbatim>\<open>Display\<close>. The lemmas are
  the round trips and the injectivity of generated ids the components rely on.
\<close>

subsection \<open>Decimal integers\<close>

definition digit_char :: "nat \<Rightarrow> char" where
  "digit_char d = char_of (48 + d)"

definition is_digit_char :: "char \<Rightarrow> bool" where
  "is_digit_char c \<longleftrightarrow> 48 \<le> (of_char c :: nat) \<and> (of_char c :: nat) \<le> 57"

definition digit_val :: "char \<Rightarrow> nat" where
  "digit_val c = of_char c - 48"

fun show_nat :: "nat \<Rightarrow> string" where
  "show_nat n = (if n < 10 then [digit_char n] else show_nat (n div 10) @ [digit_char (n mod 10)])"

declare show_nat.simps [simp del]

text \<open>
  \<^verbatim>\<open>str::parse::<uN>()\<close>: an optional \<^verbatim>\<open>+\<close>, then at least one digit; every step is checked
  against the type's largest value.
\<close>

fun parse_digits :: "nat \<Rightarrow> nat \<Rightarrow> string \<Rightarrow> nat option" where
  "parse_digits mx acc [] = Some acc"
| "parse_digits mx acc (c # cs) =
     (if \<not> is_digit_char c then None
      else if mx < acc * 10 + digit_val c then None
      else parse_digits mx (acc * 10 + digit_val c) cs)"

definition parse_uint :: "nat \<Rightarrow> string \<Rightarrow> nat option" where
  "parse_uint mx s =
     (case s of
        [] \<Rightarrow> None
      | c # cs \<Rightarrow>
          if c = CHR ''+'' then (if cs = [] then None else parse_digits mx 0 cs)
          else parse_digits mx 0 s)"

definition parse_u8 :: "string \<Rightarrow> u8 option" where
  "parse_u8 s = map_option of_nat (parse_uint 255 s)"

definition parse_u32 :: "string \<Rightarrow> u32 option" where
  "parse_u32 s = map_option of_nat (parse_uint (2 ^ 32 - 1) s)"

definition parse_u64 :: "string \<Rightarrow> u64 option" where
  "parse_u64 s = map_option of_nat (parse_uint (2 ^ 64 - 1) s)"

definition show_word :: "'l::len word \<Rightarrow> string" where
  "show_word w = show_nat (unat w)"

subsection \<open>Splitting\<close>

fun split_once :: "char \<Rightarrow> string \<Rightarrow> (string \<times> string) option" where
  "split_once c [] = None"
| "split_once c (x # xs) =
     (if x = c then Some ([], xs)
      else map_option (\<lambda>(a, b). (x # a, b)) (split_once c xs))"

fun split_on :: "char \<Rightarrow> string \<Rightarrow> string list" where
  "split_on c [] = [[]]"
| "split_on c (x # xs) =
     (if x = c then [] # split_on c xs
      else (case split_on c xs of [] \<Rightarrow> [[x]] | p # ps \<Rightarrow> (x # p) # ps))"

definition strip_prefix :: "string \<Rightarrow> string \<Rightarrow> string option" where
  "strip_prefix p s = (if take (length p) s = p then Some (drop (length p) s) else None)"

text \<open>
  \<^verbatim>\<open>str::trim\<close>: the UTF-8 encodings of the characters with the \<^verbatim>\<open>White_Space\<close> property are
  removed from both ends.
\<close>

definition white_space :: "string list" where
  "white_space =
     [[CHR 0x09], [CHR 0x0A], [CHR 0x0B], [CHR 0x0C], [CHR 0x0D], [CHR 0x20],
      [CHR 0xC2, CHR 0x85], [CHR 0xC2, CHR 0xA0], [CHR 0xE1, CHR 0x9A, CHR 0x80],
      [CHR 0xE2, CHR 0x80, CHR 0x80], [CHR 0xE2, CHR 0x80, CHR 0x81], [CHR 0xE2, CHR 0x80, CHR 0x82],
      [CHR 0xE2, CHR 0x80, CHR 0x83], [CHR 0xE2, CHR 0x80, CHR 0x84], [CHR 0xE2, CHR 0x80, CHR 0x85],
      [CHR 0xE2, CHR 0x80, CHR 0x86], [CHR 0xE2, CHR 0x80, CHR 0x87], [CHR 0xE2, CHR 0x80, CHR 0x88],
      [CHR 0xE2, CHR 0x80, CHR 0x89], [CHR 0xE2, CHR 0x80, CHR 0x8A], [CHR 0xE2, CHR 0x80, CHR 0xA8],
      [CHR 0xE2, CHR 0x80, CHR 0xA9], [CHR 0xE2, CHR 0x80, CHR 0xAF], [CHR 0xE2, CHR 0x81, CHR 0x9F],
      [CHR 0xE3, CHR 0x80, CHR 0x80]]"

fun strip_any :: "string list \<Rightarrow> string \<Rightarrow> string" where
  "strip_any ws s =
     (case List.find (\<lambda>w. w \<noteq> [] \<and> take (length w) s = w) ws of
        None \<Rightarrow> s
      | Some w \<Rightarrow> if length (drop (length w) s) < length s then strip_any ws (drop (length w) s) else s)"

declare strip_any.simps [simp del]

definition str_trim :: "string \<Rightarrow> string" where
  "str_trim s = rev (strip_any (map rev white_space) (rev (strip_any white_space s)))"

text \<open>Nothing is trimmed when the first and the last byte are visible ASCII.\<close>

definition visible :: "char \<Rightarrow> bool" where
  "visible c \<longleftrightarrow> 32 < (of_char c :: nat) \<and> (of_char c :: nat) < 128"

lemma strip_any_stop:
  assumes "\<And>w. w \<in> set ws \<Longrightarrow> w \<noteq> [] \<and> \<not> visible (hd w)" "s \<noteq> []" "visible (hd s)"
  shows "strip_any ws s = s"
proof -
  have "\<not> (w \<noteq> [] \<and> take (length w) s = w)" if "w \<in> set ws" for w
    using assms(1) [OF that] assms(2,3) by (cases w; cases s) auto
  then have "List.find (\<lambda>w. w \<noteq> [] \<and> take (length w) s = w) ws = None" by (auto simp: find_None_iff)
  then show ?thesis by (simp add: strip_any.simps)
qed

lemma white_space_invisible:
  "list_all (\<lambda>w. w \<noteq> [] \<and> \<not> visible (hd w)) white_space"
  "list_all (\<lambda>w. w \<noteq> [] \<and> \<not> visible (hd w)) (map rev white_space)"
  by (simp_all add: white_space_def visible_def)

lemma str_trim_visible: "s \<noteq> [] \<Longrightarrow> visible (hd s) \<Longrightarrow> visible (last s) \<Longrightarrow> str_trim s = s"
proof -
  assume s: "s \<noteq> []" "visible (hd s)" "visible (last s)"
  have "strip_any white_space s = s"
    using white_space_invisible(1) s by (intro strip_any_stop) (auto simp: list_all_iff)
  moreover have "strip_any (map rev white_space) (rev s) = rev s"
    using white_space_invisible(2) s by (intro strip_any_stop) (auto simp: list_all_iff hd_rev)
  ultimately show ?thesis by (simp add: str_trim_def)
qed

subsection \<open>IPv4 addresses\<close>

text \<open>An \<^verbatim>\<open>Ipv4Addr\<close> is the 32-bit number its octets spell, most significant first.\<close>

definition parse_octet :: "string \<Rightarrow> nat option" where
  "parse_octet s =
     (if s = [] \<or> 3 < length s \<or> \<not> list_all is_digit_char s then None
      else if 1 < length s \<and> hd s = CHR ''0'' then None
      else parse_digits 255 0 s)"

definition parse_ipv4 :: "string \<Rightarrow> u32 option" where
  "parse_ipv4 s =
     (case map parse_octet (split_on (CHR ''.'') s) of
        [Some a, Some b, Some c, Some d] \<Rightarrow>
          Some (of_nat (a * 2 ^ 24 + b * 2 ^ 16 + c * 2 ^ 8 + d))
      | _ \<Rightarrow> None)"

definition show_ipv4 :: "u32 \<Rightarrow> string" where
  "show_ipv4 ip =
     show_nat (unat ip div 2 ^ 24) @ ''.'' @ show_nat (unat ip div 2 ^ 16 mod 256) @ ''.'' @
     show_nat (unat ip div 2 ^ 8 mod 256) @ ''.'' @ show_nat (unat ip mod 256)"

subsection \<open>Digits\<close>

lemma of_char_digit: "d < 10 \<Longrightarrow> of_char (digit_char d) = 48 + d"
  by (simp add: digit_char_def)

lemma digit_char_simps [str_simps]:
  "digit_char 0 = CHR ''0''" "digit_char 1 = CHR ''1''" "digit_char (Suc 0) = CHR ''1''"
  "digit_char 2 = CHR ''2''"
  "digit_char 3 = CHR ''3''" "digit_char 4 = CHR ''4''" "digit_char 5 = CHR ''5''"
  "digit_char 6 = CHR ''6''" "digit_char 7 = CHR ''7''" "digit_char 8 = CHR ''8''"
  "digit_char 9 = CHR ''9''"
  by (simp_all add: digit_char_def char_of_def bit_Suc_0_iff)

lemma show_nat_1: "n < 10 \<Longrightarrow> show_nat n = [digit_char n]"
  by (simp add: show_nat.simps)

lemma digit_char_props:
  assumes "d < 10"
  shows "is_digit_char (digit_char d)" "digit_val (digit_char d) = d"
  using of_char_digit [OF assms] assms by (simp_all add: is_digit_char_def digit_val_def)

lemma show_nat_digits: "list_all is_digit_char (show_nat n)"
proof (induction n rule: show_nat.induct)
  case (1 n)
  then show ?case by (subst show_nat.simps) (auto simp: digit_char_props)
qed

lemma show_nat_not_Nil [simp]: "show_nat n \<noteq> []"
  by (subst show_nat.simps) simp

lemma show_nat_notin: "\<not> is_digit_char c \<Longrightarrow> c \<notin> set (show_nat n)"
  using show_nat_digits [of n] by (auto simp: list_all_iff)

lemma not_digit_chars [simp]:
  "\<not> is_digit_char (CHR ''/'')" "\<not> is_digit_char (CHR ''.'')" "\<not> is_digit_char (CHR ''@'')"
  "\<not> is_digit_char (CHR ''+'')" "\<not> is_digit_char (CHR ''v'')" "\<not> is_digit_char (CHR ''s'')"
  "\<not> is_digit_char (CHR ''n'')" "\<not> is_digit_char (CHR ''c'')" "\<not> is_digit_char (CHR ''g'')"
  "\<not> is_digit_char (CHR ''b'')"
  by (simp_all add: is_digit_char_def)

lemma parse_digits_append:
  "parse_digits mx acc (xs @ ys) = Option.bind (parse_digits mx acc xs) (\<lambda>a. parse_digits mx a ys)"
  by (induction xs arbitrary: acc) auto

lemma parse_digits_show: "n \<le> mx \<Longrightarrow> parse_digits mx 0 (show_nat n) = Some n"
proof (induction n rule: show_nat.induct)
  case (1 n)
  show ?case
  proof (cases "n < 10")
    case True
    with "1.prems" show ?thesis by (subst show_nat.simps) (simp add: digit_char_props)
  next
    case False
    with "1" have "parse_digits mx 0 (show_nat (n div 10)) = Some (n div 10)" by simp
    with False "1.prems" show ?thesis
      by (subst show_nat.simps) (simp add: parse_digits_append digit_char_props)
  qed
qed

lemma parse_uint_show [str_simps]: "n \<le> mx \<Longrightarrow> parse_uint mx (show_nat n) = Some n"
  using parse_digits_show [of n mx] show_nat_notin [of "CHR ''+''" n]
  by (auto simp: parse_uint_def split: list.splits)

lemma parse_digits_le: "acc \<le> mx \<Longrightarrow> parse_digits mx acc s = Some n \<Longrightarrow> n \<le> mx"
  by (induction s arbitrary: acc) (auto simp: not_less split: if_splits)

lemma parse_uint_le: "parse_uint mx s = Some n \<Longrightarrow> n \<le> mx"
  by (auto simp: parse_uint_def split: list.splits if_splits dest: parse_digits_le [rotated])

lemma show_nat_inj: "show_nat m = show_nat n \<Longrightarrow> m = n"
  by (metis parse_digits_show max.cobounded1 max.cobounded2 option.inject)

lemma parse_show_word [str_simps]:
  "parse_u8 (show_word a) = Some a" "parse_u32 (show_word b) = Some b" "parse_u64 (show_word c) = Some c"
  using unat_lt_size [of a] unat_lt_size [of b] unat_lt_size [of c]
  by (simp_all add: parse_u8_def parse_u32_def parse_u64_def show_word_def parse_uint_show)

lemma show_word_inj: "show_word a = show_word b \<Longrightarrow> a = b"
  by (simp add: show_word_def show_nat_inj word_unat_eq_iff)

lemma show_word_notin: "\<not> is_digit_char c \<Longrightarrow> c \<notin> set (show_word w)"
  by (simp add: show_word_def show_nat_notin)

subsection \<open>Ids built from a prefix, a separator and a counter\<close>

lemma append_sep_inject:
  assumes "a @ c # xs = b @ c # ys" "c \<notin> set xs" "c \<notin> set ys"
  shows "a = b \<and> xs = ys"
proof -
  from assms have "rev xs @ c # rev a = rev ys @ c # rev b"
    by (metis rev.simps(2) rev_append append.assoc append_Cons append_Nil)
  moreover have "takeWhile (\<lambda>x. x \<noteq> c) (rev xs @ c # rev a) = rev xs"
    using assms by (subst takeWhile_append2) auto
  moreover have "takeWhile (\<lambda>x. x \<noteq> c) (rev ys @ c # rev b) = rev ys"
    using assms by (subst takeWhile_append2) auto
  ultimately have "rev xs = rev ys" by metis
  with assms show ?thesis by simp
qed

lemma counter_id_inject:
  assumes "a @ p @ c # show_word m = b @ p @ c # show_word n" "\<not> is_digit_char c"
  shows "a = b \<and> m = n"
proof -
  from assms(1) have "(a @ p) @ c # show_word m = (b @ p) @ c # show_word n" by simp
  then have "a @ p = b @ p \<and> show_word m = show_word n"
    by (rule append_sep_inject) (rule show_word_notin [OF assms(2)])+
  then show ?thesis by (auto dest: show_word_inj)
qed

lemma split_once_append [str_simps]: "c \<notin> set a \<Longrightarrow> split_once c (a @ c # b) = Some (a, b)"
  by (induction a) auto

lemma split_once_None: "c \<notin> set s \<Longrightarrow> split_once c s = None"
  by (induction s) auto

lemma split_once_SomeD: "split_once c s = Some (a, b) \<Longrightarrow> s = a @ c # b \<and> c \<notin> set a"
  by (induction s arbitrary: a) (auto split: if_splits)

lemma strip_prefix_append [str_simps]: "strip_prefix p (p @ s) = Some s"
  by (simp add: strip_prefix_def)

lemma strip_prefix_SomeD: "strip_prefix p s = Some r \<Longrightarrow> s = p @ r"
  by (auto simp: strip_prefix_def split: if_splits) (metis append_take_drop_id)

lemma split_on_notin: "c \<notin> set a \<Longrightarrow> split_on c a = [a]"
  by (induction a) auto

lemma split_on_append [str_simps]: "c \<notin> set a \<Longrightarrow> split_on c (a @ c # b) = a # split_on c b"
  by (induction a) auto

subsection \<open>Addresses round-trip\<close>

lemma hd_show_nat: "0 < n \<Longrightarrow> hd (show_nat n) \<noteq> CHR ''0''"
proof (induction n rule: show_nat.induct)
  case (1 n)
  show ?case
  proof (cases "n < 10")
    case True
    have "of_char (digit_char n) \<noteq> (of_char (CHR ''0'') :: nat)"
      using True "1.prems" by (simp add: of_char_digit)
    then have "digit_char n \<noteq> CHR ''0''" by auto
    with True show ?thesis by (subst show_nat.simps) simp
  next
    case False
    with "1" have "hd (show_nat (n div 10)) \<noteq> CHR ''0''" by simp
    with False show ?thesis by (subst show_nat.simps) simp
  qed
qed

lemma length_show_nat_1: "n < 10 \<Longrightarrow> length (show_nat n) = 1"
  by (subst show_nat.simps) simp

lemma length_show_nat_2: "n < 100 \<Longrightarrow> length (show_nat n) \<le> 2"
  by (subst show_nat.simps) (simp add: length_show_nat_1)

lemma length_show_nat_3: "n < 1000 \<Longrightarrow> length (show_nat n) \<le> 3"
  using length_show_nat_2 [of "n div 10"] by (subst show_nat.simps) simp

lemma parse_octet_show: "n < 256 \<Longrightarrow> parse_octet (show_nat n) = Some n"
proof -
  assume n: "n < 256"
  have "length (show_nat n) \<le> 3" using n by (simp add: length_show_nat_3)
  moreover have "\<not> (1 < length (show_nat n) \<and> hd (show_nat n) = CHR ''0'')"
    using hd_show_nat [of n] length_show_nat_1 [of 0] by (cases "n = 0") auto
  ultimately show ?thesis
    using n show_nat_digits [of n] by (auto simp: parse_octet_def parse_digits_show)
qed

lemma radix_compose:
  fixes k :: nat
  assumes "a * 256 + r0 = k" "b * 256 + r1 = a" "c * 256 + r2 = b"
  shows "c * 16777216 + r2 * 65536 + r1 * 256 + r0 = k"
  by (simp flip: assms)

lemma octets_compose:
  fixes k :: nat
  shows "k div 16777216 * 16777216 + k div 65536 mod 256 * 65536 + k div 256 mod 256 * 256 + k mod 256 = k"
  by (rule radix_compose [of "k div 256" _ _ "k div 65536"]) (simp_all add: div_mult2_eq [of k 256 256, simplified]
    div_mult2_eq [of k 65536 256, simplified])

lemma parse_show_ipv4 [str_simps]: "parse_ipv4 (show_ipv4 ip) = Some ip"
proof -
  have dot: "CHR ''.'' \<notin> set (show_nat n)" for n by (simp add: show_nat_notin)
  have "unat ip < 2 ^ 32" using unat_lt_size [of ip] by simp
  then have top: "unat ip div 2 ^ 24 < 256" by simp
  have "map parse_octet (split_on (CHR ''.'') (show_ipv4 ip)) =
      [Some (unat ip div 2 ^ 24), Some (unat ip div 2 ^ 16 mod 256),
       Some (unat ip div 2 ^ 8 mod 256), Some (unat ip mod 256)]"
    using top by (simp add: show_ipv4_def split_on_append dot split_on_notin parse_octet_show)
  then show ?thesis
    by (simp add: parse_ipv4_def octets_compose del: of_nat_add of_nat_mult)
qed

lemma show_ipv4_no_slash: "CHR ''/'' \<notin> set (show_ipv4 ip)"
  by (simp add: show_ipv4_def show_nat_notin)

end
