(* ===== verification/Common.thy ===== *)
theory Common
  imports Assoc_Maps Text_Format
begin

text \<open>
  The error taxonomy every crate shares (\<^verbatim>\<open>celcommon/src/error.rs\<close>): the variants of
  \<^verbatim>\<open>CelError\<close>, the metrics code of each, its \<^verbatim>\<open>Display\<close> form (the \<^verbatim>\<open>#[error(...)]\<close> attributes)
  and its derived \<^verbatim>\<open>Debug\<close> form, which hosts put on the wire.
\<close>

datatype cel_error =
    CapabilityDenied string
  | Exhausted string
  | Invalid string
  | Hardware string
  | Io string
  | Timeout string
  | Storage string
  | Internal string

type_synonym 'a cel_result = "(cel_error, 'a) result"

fun error_code :: "cel_error \<Rightarrow> string" where
  "error_code (CapabilityDenied _) = ''cap_denied''"
| "error_code (Exhausted _) = ''exhausted''"
| "error_code (Invalid _) = ''invalid''"
| "error_code (Hardware _) = ''hardware''"
| "error_code (Io _) = ''io''"
| "error_code (Timeout _) = ''timeout''"
| "error_code (Storage _) = ''storage''"
| "error_code (Internal _) = ''internal''"

fun display_error :: "cel_error \<Rightarrow> string" where
  "display_error (CapabilityDenied m) = ''capability denied: '' @ m"
| "display_error (Exhausted m) = ''resource exhausted: '' @ m"
| "display_error (Invalid m) = ''invalid input: '' @ m"
| "display_error (Hardware m) = ''hardware error: '' @ m"
| "display_error (Io m) = ''i/o error: '' @ m"
| "display_error (Timeout m) = ''timeout: '' @ m"
| "display_error (Storage m) = ''storage: '' @ m"
| "display_error (Internal m) = ''internal: '' @ m"

text \<open>
  The \<^verbatim>\<open>Debug\<close> form quotes the message. The messages the modelled hosts format this way are
  printable ASCII literals without double quotes or backslashes, which \<^verbatim>\<open>Debug\<close> copies unchanged.
\<close>

definition debug_str :: "string \<Rightarrow> string" where
  "debug_str m = [CHR 0x22] @ m @ [CHR 0x22]"

fun debug_error :: "cel_error \<Rightarrow> string" where
  "debug_error (CapabilityDenied m) = ''CapabilityDenied('' @ debug_str m @ '')''"
| "debug_error (Exhausted m) = ''Exhausted('' @ debug_str m @ '')''"
| "debug_error (Invalid m) = ''Invalid('' @ debug_str m @ '')''"
| "debug_error (Hardware m) = ''Hardware('' @ debug_str m @ '')''"
| "debug_error (Io m) = ''Io('' @ debug_str m @ '')''"
| "debug_error (Timeout m) = ''Timeout('' @ debug_str m @ '')''"
| "debug_error (Storage m) = ''Storage('' @ debug_str m @ '')''"
| "debug_error (Internal m) = ''Internal('' @ debug_str m @ '')''"

end
