(* ===== verification/Volumes.thy ===== *)
theory Volumes
  imports Common
begin

text \<open>
  The persistent volume layer, \<^verbatim>\<open>celvault/src/lib.rs\<close>: volume and snapshot metadata, the
  in-memory store \<^verbatim>\<open>MemVolumeStore\<close> (its \<^verbatim>\<open>MemInner\<close> record and every operation of the
  \<^verbatim>\<open>VolumeStore\<close> trait), and the trait's default \<^verbatim>\<open>stats\<close> and \<^verbatim>\<open>integrity_check\<close>. The lock
  makes each operation atomic, so an operation is a function from the locked state to the next
  state and the result. Lengths of buffers (\<^verbatim>\<open>usize\<close>) are natural numbers; the overflow check
  of \<^verbatim>\<open>offset + len\<close> is kept. \<^verbatim>\<open>usize::try_from(offset)\<close> cannot fail on a 64-bit target.
\<close>

subsection \<open>Records\<close>

type_synonym volume_id = string
type_synonym snapshot_id = string

record volume_meta =
  vol_id :: volume_id
  vol_owner :: string
  vol_name :: string
  vol_size :: u64

record snapshot_meta =
  snap_id :: snapshot_id
  snap_volume :: volume_id
  snap_name :: string
  snap_size :: u64

record volume_attachment =
  att_volume_id :: volume_id
  att_mount_name :: string

record volume_stats =
  st_id :: volume_id
  st_size :: u64
  st_snapshot_count :: u32
  st_total_snapshot_bytes :: u64

record integrity_report =
  volumes_checked :: u32
  snapshots_checked :: u32
  report_errors :: "string list"

record mem_volume =
  mv_meta :: volume_meta
  mv_body :: bytes

record mem_snapshot =
  ms_meta :: snapshot_meta
  ms_body :: bytes

record mem_inner =
  mi_next :: u64
  mi_rows :: "(volume_id \<times> mem_volume) list"
  mi_next_snap :: "(volume_id \<times> u64) list"
  mi_snaps :: "(snapshot_id \<times> mem_snapshot) list"

definition MAX_NAME :: nat where "MAX_NAME = 64"

definition MAX_MOUNT :: nat where "MAX_MOUNT = 32"

definition MAX_VOLUME_BYTES :: u64 where "MAX_VOLUME_BYTES = 64 * 1024 * 1024"

definition mem_volume_store_new :: mem_inner where
  "mem_volume_store_new = \<lparr>mi_next = 0, mi_rows = [], mi_next_snap = [], mi_snaps = []\<rparr>"

text \<open>\<^verbatim>\<open>SnapshotId::split\<close>: the part before the first \<^verbatim>\<open>@\<close>, and the counter after \<^verbatim>\<open>s\<close>.\<close>

definition snapshot_id_split :: "snapshot_id \<Rightarrow> (volume_id \<times> u64) option" where
  "snapshot_id_split s =
     (case split_once (CHR ''@'') s of
        None \<Rightarrow> None
      | Some (vol, tail) \<Rightarrow>
          (case strip_prefix ''s'' tail of
             None \<Rightarrow> None
           | Some digits \<Rightarrow> map_option (\<lambda>n. (vol, n)) (parse_u64 digits)))"

definition is_clean :: "integrity_report \<Rightarrow> bool" where
  "is_clean r \<longleftrightarrow> report_errors r = []"

subsection \<open>Operations\<close>

definition validate_volume_name :: "string \<Rightarrow> unit cel_result" where
  "validate_volume_name name =
     (if name = [] then Err (Invalid ''volume name: empty'')
      else if MAX_NAME < length name then Err (Invalid ''volume name: too long'')
      else Ok ())"

definition vs_create :: "mem_inner \<Rightarrow> string \<Rightarrow> string \<Rightarrow> u64 \<Rightarrow> mem_inner \<times> volume_meta cel_result" where
  "vs_create g owner name size_bytes =
     (case validate_volume_name name of
        Err e \<Rightarrow> (g, Err e)
      | Ok _ \<Rightarrow>
          if size_bytes = 0 then (g, Err (Invalid ''volume size: must be > 0''))
          else if MAX_VOLUME_BYTES < size_bytes
            then (g, Err (Invalid ''volume size: exceeds MAX_VOLUME_BYTES''))
          else
            (let next = saturating_add (mi_next g) 1;
                 vid = owner @ ''/v'' @ show_word next;
                 meta = \<lparr>vol_id = vid, vol_owner = owner, vol_name = name, vol_size = size_bytes\<rparr>;
                 body = replicate (unat size_bytes) 0
             in (g\<lparr>mi_next := next,
                   mi_rows := bt_insert vid \<lparr>mv_meta = meta, mv_body = body\<rparr> (mi_rows g)\<rparr>,
                 Ok meta)))"

definition vs_delete :: "mem_inner \<Rightarrow> volume_id \<Rightarrow> mem_inner \<times> unit cel_result" where
  "vs_delete g vid =
     (g\<lparr>mi_rows := bt_remove vid (mi_rows g),
        mi_next_snap := bt_remove vid (mi_next_snap g),
        mi_snaps := bt_retain (\<lambda>_ s. snap_volume (ms_meta s) \<noteq> vid) (mi_snaps g)\<rparr>,
      Ok ())"

definition vs_list :: "mem_inner \<Rightarrow> volume_meta list" where
  "vs_list g = map mv_meta (map_values (mi_rows g))"

definition vs_get :: "mem_inner \<Rightarrow> volume_id \<Rightarrow> volume_meta option" where
  "vs_get g vid = map_option mv_meta (map_of (mi_rows g) vid)"

definition vs_read :: "mem_inner \<Rightarrow> volume_id \<Rightarrow> u64 \<Rightarrow> nat \<Rightarrow> bytes cel_result" where
  "vs_read g vid offset len =
     (case map_of (mi_rows g) vid of
        None \<Rightarrow> Err (Invalid ''volume: unknown id'')
      | Some v \<Rightarrow>
          if 2 ^ 64 \<le> unat offset + len then Err (Invalid ''volume: read range overflow'')
          else if length (mv_body v) < unat offset + len then Err (Invalid ''volume: read past end'')
          else Ok (take len (drop (unat offset) (mv_body v))))"

text \<open>\<^verbatim>\<open>body[off..end].copy_from_slice(data)\<close>.\<close>

definition splice :: "nat \<Rightarrow> 'a list \<Rightarrow> 'a list \<Rightarrow> 'a list" where
  "splice off data body = take off body @ data @ drop (off + length data) body"

definition vs_write :: "mem_inner \<Rightarrow> volume_id \<Rightarrow> u64 \<Rightarrow> bytes \<Rightarrow> mem_inner \<times> unit cel_result" where
  "vs_write g vid offset data =
     (case map_of (mi_rows g) vid of
        None \<Rightarrow> (g, Err (Invalid ''volume: unknown id''))
      | Some v \<Rightarrow>
          if 2 ^ 64 \<le> unat offset + length data
            then (g, Err (Invalid ''volume: write range overflow''))
          else if length (mv_body v) < unat offset + length data
            then (g, Err (Invalid ''volume: write past end''))
          else (g\<lparr>mi_rows := map_update_with vid
                     (mv_body_update (\<lambda>b. splice (unat offset) data b)) (mi_rows g)\<rparr>,
                Ok ()))"

definition vs_create_snapshot :: "mem_inner \<Rightarrow> volume_id \<Rightarrow> string \<Rightarrow> mem_inner \<times> snapshot_meta cel_result" where
  "vs_create_snapshot g vid name =
     (case validate_volume_name name of
        Err e \<Rightarrow> (g, Err e)
      | Ok _ \<Rightarrow>
          (case map_of (mi_rows g) vid of
             None \<Rightarrow> (g, Err (Invalid ''snapshot: unknown volume''))
           | Some v \<Rightarrow>
               (let body = mv_body v;
                    prev = (case map_of (mi_next_snap g) vid of None \<Rightarrow> 0 | Some n \<Rightarrow> n);
                    counter = saturating_add prev 1;
                    sid = vid @ ''@s'' @ show_word counter;
                    meta = \<lparr>snap_id = sid, snap_volume = vid, snap_name = name,
                            snap_size = of_nat (length body)\<rparr>
                in (g\<lparr>mi_next_snap := bt_insert vid counter (mi_next_snap g),
                      mi_snaps := bt_insert sid \<lparr>ms_meta = meta, ms_body = body\<rparr> (mi_snaps g)\<rparr>,
                    Ok meta))))"

definition vs_list_snapshots :: "mem_inner \<Rightarrow> volume_id option \<Rightarrow> snapshot_meta list" where
  "vs_list_snapshots g volume =
     map ms_meta
       (filter (\<lambda>s. case volume of None \<Rightarrow> True | Some v \<Rightarrow> snap_volume (ms_meta s) = v)
          (map_values (mi_snaps g)))"

definition vs_delete_snapshot :: "mem_inner \<Rightarrow> snapshot_id \<Rightarrow> mem_inner \<times> unit cel_result" where
  "vs_delete_snapshot g sid = (g\<lparr>mi_snaps := bt_remove sid (mi_snaps g)\<rparr>, Ok ())"

definition vs_restore_snapshot :: "mem_inner \<Rightarrow> snapshot_id \<Rightarrow> mem_inner \<times> unit cel_result" where
  "vs_restore_snapshot g sid =
     (case map_of (mi_snaps g) sid of
        None \<Rightarrow> (g, Err (Invalid ''restore: unknown snapshot''))
      | Some s \<Rightarrow>
          (case snapshot_id_split sid of
             None \<Rightarrow> (g, Err (Invalid ''restore: malformed snapshot id''))
           | Some (vol, _) \<Rightarrow>
               (case map_of (mi_rows g) vol of
                  None \<Rightarrow> (g, Err (Invalid ''restore: volume gone''))
                | Some v \<Rightarrow>
                    if length (mv_body v) \<noteq> length (ms_body s)
                      then (g, Err (Invalid ''restore: volume size changed''))
                    else (g\<lparr>mi_rows := map_update_with vol (mv_body_update (\<lambda>_. ms_body s)) (mi_rows g)\<rparr>,
                          Ok ()))))"

subsection \<open>The trait's default methods\<close>

definition vs_stats :: "mem_inner \<Rightarrow> volume_id \<Rightarrow> volume_stats cel_result" where
  "vs_stats g vid =
     (case vs_get g vid of
        None \<Rightarrow> Err (Invalid ''stats: unknown volume'')
      | Some meta \<Rightarrow>
          (let snaps = vs_list_snapshots g (Some vid);
               total = fold (\<lambda>s acc. saturating_add acc (snap_size s)) snaps 0;
               n = length snaps
           in Ok \<lparr>st_id = vol_id meta, st_size = vol_size meta,
                  st_snapshot_count = (if n < 2 ^ 32 then of_nat n else - 1),
                  st_total_snapshot_bytes = total\<rparr>))"

definition check_volume :: "mem_inner \<Rightarrow> volume_meta \<Rightarrow> integrity_report \<Rightarrow> integrity_report" where
  "check_volume g v rep =
     (let rep = rep\<lparr>volumes_checked := saturating_add (volumes_checked rep) 1\<rparr>
      in if 0 < vol_size v then
           (case vs_read g (vol_id v) (vol_size v - 1) 1 of
              Err e \<Rightarrow> rep\<lparr>report_errors := report_errors rep @
                         [''volume '' @ vol_id v @ '': '' @ display_error e]\<rparr>
            | Ok _ \<Rightarrow> rep)
         else rep)"

definition check_snapshot :: "mem_inner \<Rightarrow> snapshot_meta \<Rightarrow> integrity_report \<Rightarrow> integrity_report" where
  "check_snapshot g s rep =
     (let rep = rep\<lparr>snapshots_checked := saturating_add (snapshots_checked rep) 1\<rparr>
      in (case vs_get g (snap_volume s) of
            None \<Rightarrow> rep\<lparr>report_errors := report_errors rep @
                       [''snapshot '' @ snap_id s @ '': parent volume '' @ snap_volume s @ '' missing'']\<rparr>
          | Some parent \<Rightarrow>
              if vol_size parent \<noteq> snap_size s
                then rep\<lparr>report_errors := report_errors rep @
                       [''snapshot '' @ snap_id s @ '': size '' @ show_word (snap_size s) @ '' != parent '' @
                        snap_volume s @ '' ('' @ show_word (vol_size parent) @ '')'']\<rparr>
              else rep))"

definition vs_integrity_check :: "mem_inner \<Rightarrow> integrity_report" where
  "vs_integrity_check g =
     fold (check_snapshot g) (vs_list_snapshots g None)
       (fold (check_volume g) (vs_list g)
          \<lparr>volumes_checked = 0, snapshots_checked = 0, report_errors = []\<rparr>)"

subsection \<open>The contract of a volume store\<close>

text \<open>
  What every \<^verbatim>\<open>VolumeStore\<close> promises about bytes: a read is a slice of the volume's body or one of
  three errors, a write replaces exactly the written range, a snapshot captures the body, and a
  restore puts it back. Clients rely on this contract, whichever store provides it.
\<close>

fun read_spec :: "bytes option \<Rightarrow> u64 \<Rightarrow> nat \<Rightarrow> bytes cel_result" where
  "read_spec None off len = Err (Invalid ''volume: unknown id'')"
| "read_spec (Some b) off len =
     (if 2 ^ 64 \<le> unat off + len then Err (Invalid ''volume: read range overflow'')
      else if length b < unat off + len then Err (Invalid ''volume: read past end'')
      else Ok (take len (drop (unat off) b)))"

fun write_spec :: "bytes option \<Rightarrow> u64 \<Rightarrow> bytes \<Rightarrow> bytes cel_result" where
  "write_spec None off d = Err (Invalid ''volume: unknown id'')"
| "write_spec (Some b) off d =
     (if 2 ^ 64 \<le> unat off + length d then Err (Invalid ''volume: write range overflow'')
      else if length b < unat off + length d then Err (Invalid ''volume: write past end'')
      else Ok (splice (unat off) d b))"

lemma length_splice [simp]: "off + length d \<le> length b \<Longrightarrow> length (splice off d b) = length b"
  by (simp add: splice_def)

lemma splice_same: "off + length d \<le> length b \<Longrightarrow> take (length d) (drop off (splice off d b)) = d"
  by (simp add: splice_def)

lemma nth_splice:
  assumes "off + length d \<le> length b" "i < length b"
  shows "splice off d b ! i = (if off \<le> i \<and> i < off + length d then d ! (i - off) else b ! i)"
  using assms by (auto simp: splice_def nth_append min_def)

lemma splice_disjoint:
  assumes "off + length d \<le> length b" "o' + len \<le> off \<or> off + length d \<le> o'" "o' + len \<le> length b"
  shows "take len (drop o' (splice off d b)) = take len (drop o' b)"
  using assms by (intro nth_equalityI) (auto simp: nth_splice)

locale volume_store =
  fixes rd :: "'s \<Rightarrow> volume_id \<Rightarrow> u64 \<Rightarrow> nat \<Rightarrow> bytes cel_result"
    and wr :: "'s \<Rightarrow> volume_id \<Rightarrow> u64 \<Rightarrow> bytes \<Rightarrow> 's \<times> unit cel_result"
    and snapshot :: "'s \<Rightarrow> volume_id \<Rightarrow> string \<Rightarrow> 's \<times> snapshot_meta cel_result"
    and restore :: "'s \<Rightarrow> snapshot_id \<Rightarrow> 's \<times> unit cel_result"
    and body :: "'s \<Rightarrow> volume_id \<Rightarrow> bytes option"
    and snap :: "'s \<Rightarrow> snapshot_id \<Rightarrow> (volume_id \<times> bytes) option"
    and inv :: "'s \<Rightarrow> bool"
  assumes read_law: "inv s \<Longrightarrow> rd s v off len = read_spec (body s v) off len"
    and write_err: "inv s \<Longrightarrow> write_spec (body s v) off d = Err e \<Longrightarrow> wr s v off d = (s, Err e)"
    and write_ok: "inv s \<Longrightarrow> write_spec (body s v) off d = Ok b \<Longrightarrow>
      \<exists>s'. wr s v off d = (s', Ok ()) \<and> inv s' \<and> body s' = (body s)(v \<mapsto> b) \<and> snap s' = snap s"
    and snapshot_ok: "inv s \<Longrightarrow> snapshot s v name = (s', Ok m) \<Longrightarrow>
      \<exists>b. body s v = Some b \<and> inv s' \<and> body s' = body s \<and> snap s' = (snap s)(snap_id m \<mapsto> (v, b))"
    and restore_ok: "inv s \<Longrightarrow> snap s sid = Some (v, b) \<Longrightarrow> CHR ''@'' \<notin> set v \<Longrightarrow>
      \<exists>s'. restore s sid = (s', Ok ()) \<and> inv s' \<and> body s' = (body s)(v \<mapsto> b) \<and> snap s' = snap s"
begin

lemma write_cases:
  assumes "inv s" "wr s v off d = (s', r)"
  obtains (ok) b where "r = Ok ()" "write_spec (body s v) off d = Ok b" "inv s'"
      "body s' = (body s)(v \<mapsto> b)" "snap s' = snap s"
    | (err) e where "r = Err e" "s' = s" "write_spec (body s v) off d = Err e"
proof (cases "write_spec (body s v) off d")
  case (Err e)
  with write_err [OF assms(1) Err] assms(2) show ?thesis by (auto intro: err)
next
  case (Ok b)
  with write_ok [OF assms(1) Ok] assms(2) show ?thesis by (auto intro: ok)
qed

lemma read_after_write:
  assumes "inv s" "wr s v off d = (s', Ok ())"
  shows "rd s' v off (length d) = Ok d"
  using assms
proof (cases rule: write_cases)
  case (ok b)
  then show ?thesis
    by (cases "body s v") (auto simp: read_law splice_same split: if_splits)
qed simp

lemma read_elsewhere:
  assumes "inv s" "wr s v off d = (s', r)"
    and "w \<noteq> v \<or> unat o' + len \<le> unat off \<or> unat off + length d \<le> unat o'"
  shows "rd s' w o' len = rd s w o' len"
  using assms(1,2)
proof (cases rule: write_cases)
  case (ok b)
  with assms(1,3) show ?thesis
    by (cases "body s v") (auto simp: read_law splice_disjoint split: if_splits)
qed simp

fun writes :: "'s \<Rightarrow> (volume_id \<times> u64 \<times> bytes) list \<Rightarrow> 's" where
  "writes s [] = s"
| "writes s ((v, off, d) # ws) = writes (fst (wr s v off d)) ws"

lemma writes_keep: "inv s \<Longrightarrow> inv (writes s ws) \<and> snap (writes s ws) = snap s"
proof (induction s ws rule: writes.induct)
  case (2 s v off d ws)
  obtain s' r where w: "wr s v off d = (s', r)" by fastforce
  have "inv s' \<and> snap s' = snap s"
    by (rule write_cases [OF "2.prems" w]) (use "2.prems" in auto)
  with "2.IH" w show ?case by simp
qed simp

lemma restore_after_writes:
  assumes "inv s" "snapshot s v name = (s1, Ok m)" "CHR ''@'' \<notin> set v"
  shows "\<exists>s2. restore (writes s1 ws) (snap_id m) = (s2, Ok ()) \<and> body s2 v = body s v"
proof -
  from snapshot_ok [OF assms(1,2)] obtain b where
    b: "body s v = Some b" "inv s1" "snap s1 = (snap s)(snap_id m \<mapsto> (v, b))" by blast
  then have "inv (writes s1 ws)" "snap (writes s1 ws) (snap_id m) = Some (v, b)"
    using writes_keep [of s1 ws] by simp_all
  from restore_ok [OF this assms(3)] b(1) show ?thesis by auto
qed

end

subsection \<open>The invariant of the in-memory store\<close>

definition row_ok :: "mem_inner \<Rightarrow> volume_id \<Rightarrow> mem_volume \<Rightarrow> bool" where
  "row_ok g k v \<longleftrightarrow> vol_id (mv_meta v) = k \<and> length (mv_body v) = unat (vol_size (mv_meta v)) \<and>
     0 < vol_size (mv_meta v) \<and> vol_size (mv_meta v) \<le> MAX_VOLUME_BYTES \<and>
     (\<exists>c. k = vol_owner (mv_meta v) @ ''/v'' @ show_word c \<and> c \<le> mi_next g)"

definition snap_ok :: "mem_inner \<Rightarrow> snapshot_id \<Rightarrow> mem_snapshot \<Rightarrow> bool" where
  "snap_ok g k s \<longleftrightarrow> snap_id (ms_meta s) = k \<and>
     (\<exists>v. map_of (mi_rows g) (snap_volume (ms_meta s)) = Some v \<and>
        length (ms_body s) = length (mv_body v) \<and> snap_size (ms_meta s) = vol_size (mv_meta v)) \<and>
     (\<exists>c n. k = snap_volume (ms_meta s) @ ''@s'' @ show_word c \<and>
        map_of (mi_next_snap g) (snap_volume (ms_meta s)) = Some n \<and> c \<le> n)"

definition vault_inv :: "mem_inner \<Rightarrow> bool" where
  "vault_inv g \<longleftrightarrow> bt_wf (mi_rows g) \<and> bt_wf (mi_next_snap g) \<and> bt_wf (mi_snaps g) \<and>
     (\<forall>k v. map_of (mi_rows g) k = Some v \<longrightarrow> row_ok g k v) \<and>
     (\<forall>k s. map_of (mi_snaps g) k = Some s \<longrightarrow> snap_ok g k s)"

definition vs_body :: "mem_inner \<Rightarrow> volume_id \<Rightarrow> bytes option" where
  "vs_body g v = map_option mv_body (map_of (mi_rows g) v)"

definition vs_snap :: "mem_inner \<Rightarrow> snapshot_id \<Rightarrow> (volume_id \<times> bytes) option" where
  "vs_snap g s = map_option (\<lambda>x. (snap_volume (ms_meta x), ms_body x)) (map_of (mi_snaps g) s)"

lemma vault_invD:
  assumes "vault_inv g"
  shows "bt_wf (mi_rows g)" "bt_wf (mi_next_snap g)" "bt_wf (mi_snaps g)"
    "map_of (mi_rows g) k = Some v \<Longrightarrow> row_ok g k v"
    "map_of (mi_snaps g) j = Some s \<Longrightarrow> snap_ok g j s"
  using assms by (simp_all add: vault_inv_def)

lemma vault_inv_new: "vault_inv mem_volume_store_new"
  by (simp add: vault_inv_def mem_volume_store_new_def)

text \<open>Below the counter's maximum the next id is not in use.\<close>

lemma create_fresh:
  assumes "vault_inv g" "mi_next g \<noteq> - 1"
  shows "map_of (mi_rows g) (owner @ ''/v'' @ show_word (saturating_add (mi_next g) 1)) = None"
proof (rule ccontr)
  assume "\<not> ?thesis"
  then obtain v where "row_ok g (owner @ ''/v'' @ show_word (saturating_add (mi_next g) 1)) v"
    using assms(1) by (auto simp: vault_inv_def)
  then obtain c where c: "c \<le> mi_next g"
    "owner @ ''/'' @ CHR ''v'' # show_word (saturating_add (mi_next g) 1) =
     vol_owner (mv_meta v) @ ''/'' @ CHR ''v'' # show_word c"
    by (auto simp: row_ok_def)
  then have "saturating_add (mi_next g) 1 = c" using counter_id_inject [OF c(2)] by simp
  with c(1) next_gt [OF assms(2)] show False by simp
qed

text \<open>
  A command of a client, and the state after it: every operation of the trait that changes the
  store. A run is a sequence of commands from the empty store.
\<close>

datatype vault_cmd =
    VCreate string string u64
  | VDelete volume_id
  | VWrite volume_id u64 bytes
  | VSnapshot volume_id string
  | VDeleteSnapshot snapshot_id
  | VRestore snapshot_id

fun vault_exec :: "mem_inner \<Rightarrow> vault_cmd \<Rightarrow> mem_inner" where
  "vault_exec g (VCreate owner name sz) = fst (vs_create g owner name sz)"
| "vault_exec g (VDelete v) = fst (vs_delete g v)"
| "vault_exec g (VWrite v off d) = fst (vs_write g v off d)"
| "vault_exec g (VSnapshot v name) = fst (vs_create_snapshot g v name)"
| "vault_exec g (VDeleteSnapshot sid) = fst (vs_delete_snapshot g sid)"
| "vault_exec g (VRestore sid) = fst (vs_restore_snapshot g sid)"

fun vault_run :: "mem_inner \<Rightarrow> vault_cmd list \<Rightarrow> mem_inner" where
  "vault_run g [] = g"
| "vault_run g (c # cs) = vault_run (vault_exec g c) cs"

lemmas vault_op_defs = vs_create_def vs_delete_def vs_write_def vs_create_snapshot_def
  vs_delete_snapshot_def vs_restore_snapshot_def Let_def

lemma row_ok_mono: "row_ok g k v \<Longrightarrow> mi_next g \<le> mi_next g' \<Longrightarrow> row_ok g' k v"
  by (auto simp: row_ok_def intro: order_trans)

lemma snap_ok_mono:
  assumes "snap_ok g k s"
    and "\<And>v x. map_of (mi_rows g) v = Some x \<Longrightarrow> \<exists>x'. map_of (mi_rows g') v = Some x' \<and>
      length (mv_body x') = length (mv_body x) \<and> vol_size (mv_meta x') = vol_size (mv_meta x)"
    and "\<And>v n. map_of (mi_next_snap g) v = Some n \<Longrightarrow> \<exists>n'. map_of (mi_next_snap g') v = Some n' \<and> n \<le> n'"
  shows "snap_ok g' k s"
proof -
  from assms(1) obtain v x c n where "snap_id (ms_meta s) = k" "v = snap_volume (ms_meta s)"
    "map_of (mi_rows g) v = Some x" "length (ms_body s) = length (mv_body x)"
    "snap_size (ms_meta s) = vol_size (mv_meta x)" "k = v @ ''@s'' @ show_word c"
    "map_of (mi_next_snap g) v = Some n" "c \<le> n"
    by (auto simp: snap_ok_def)
  moreover from assms(2) calculation(3) obtain x' where "map_of (mi_rows g') v = Some x'"
    "length (mv_body x') = length (mv_body x)" "vol_size (mv_meta x') = vol_size (mv_meta x)" by blast
  moreover from assms(3) calculation(7) obtain n' where "map_of (mi_next_snap g') v = Some n'" "n \<le> n'"
    by blast
  ultimately show ?thesis by (auto simp: snap_ok_def intro: order_trans)
qed

lemma vs_create_inv:
  assumes inv: "vault_inv g" and room: "mi_next g \<noteq> - 1"
  shows "vault_inv (fst (vs_create g owner name sz))"
proof (cases "snd (vs_create g owner name sz)")
  case (Err e)
  then have "fst (vs_create g owner name sz) = g"
    by (auto simp: vs_create_def Let_def split: result.splits if_splits)
  with inv show ?thesis by simp
next
  case (Ok meta)
  define n where "n = saturating_add (mi_next g) 1"
  define k where "k = owner @ ''/v'' @ show_word n"
  define x where "x = \<lparr>mv_meta = \<lparr>vol_id = k, vol_owner = owner, vol_name = name, vol_size = sz\<rparr>,
    mv_body = replicate (unat sz) 0\<rparr>"
  define g' where "g' = g\<lparr>mi_next := n, mi_rows := bt_insert k x (mi_rows g)\<rparr>"
  from Ok have sz: "0 < sz" "sz \<le> MAX_VOLUME_BYTES" and eq: "fst (vs_create g owner name sz) = g'"
    by (auto simp: vs_create_def Let_def g'_def x_def k_def n_def word_gt_0 split: result.splits if_splits)
  have fresh: "map_of (mi_rows g) k = None"
    unfolding k_def n_def by (rule create_fresh [OF inv room])
  have le: "mi_next g \<le> mi_next g'" by (simp add: g'_def n_def saturating_add_ge)
  have "row_ok g' j y" if "map_of (mi_rows g') j = Some y" for j y
    using that sz vault_invD(4) [OF inv, of j y] row_ok_mono [OF _ le]
    by (auto simp: g'_def map_simps row_ok_def x_def k_def split: if_splits)
  moreover have "snap_ok g' j y" if "map_of (mi_snaps g') j = Some y" for j y
    using that fresh by (intro snap_ok_mono [OF vault_invD(5) [OF inv]]) (auto simp: g'_def map_simps)
  ultimately show ?thesis using inv by (auto simp: eq vault_inv_def g'_def)
qed

lemma vs_delete_inv: "vault_inv g \<Longrightarrow> vault_inv (fst (vs_delete g v))"
  by (auto simp: vs_delete_def vault_inv_def row_ok_def snap_ok_def map_simps map_of_bt_retain
      split: option.splits if_splits)

lemma body_update_inv:
  assumes "vault_inv g" "\<And>x. map_of (mi_rows g) v = Some x \<Longrightarrow> length (f (mv_body x)) = length (mv_body x)"
  shows "vault_inv (g\<lparr>mi_rows := map_update_with v (mv_body_update f) (mi_rows g)\<rparr>)"
proof -
  have row: "row_ok (g\<lparr>mi_rows := map_update_with v (mv_body_update f) (mi_rows g)\<rparr>) k y"
    if "map_of (map_update_with v (mv_body_update f) (mi_rows g)) k = Some y" for k y
    using that assms vault_invD(4) [OF assms(1), of k]
    by (auto simp: map_simps row_ok_def split: if_splits)
  have snap: "snap_ok (g\<lparr>mi_rows := map_update_with v (mv_body_update f) (mi_rows g)\<rparr>) k y"
    if "map_of (mi_snaps g) k = Some y" for k y
    using vault_invD(5) [OF assms(1) that] assms(2) by (auto simp: map_simps snap_ok_def)
  from assms(1) row snap show ?thesis by (simp add: vault_inv_def)
qed

lemma vs_write_inv: "vault_inv g \<Longrightarrow> vault_inv (fst (vs_write g v off d))"
  by (auto simp: vs_write_def intro: body_update_inv split: option.splits)

lemma vs_restore_inv: "vault_inv g \<Longrightarrow> vault_inv (fst (vs_restore_snapshot g sid))"
  by (auto simp: vs_restore_snapshot_def intro: body_update_inv split: option.splits)

lemma vs_delete_snapshot_inv: "vault_inv g \<Longrightarrow> vault_inv (fst (vs_delete_snapshot g sid))"
  by (auto simp: vs_delete_snapshot_def vault_inv_def row_ok_def snap_ok_def map_simps split: if_splits)

lemma row_size: "row_ok g k v \<Longrightarrow> of_nat (length (mv_body v)) = vol_size (mv_meta v)"
  by (simp add: row_ok_def)

lemma vs_create_snapshot_inv:
  assumes inv: "vault_inv g"
  shows "vault_inv (fst (vs_create_snapshot g v name))"
proof (cases "snd (vs_create_snapshot g v name)")
  case (Err e)
  then have "fst (vs_create_snapshot g v name) = g"
    by (auto simp: vs_create_snapshot_def Let_def split: result.splits option.splits)
  with inv show ?thesis by simp
next
  case (Ok meta)
  define c where "c = saturating_add (case map_of (mi_next_snap g) v of None \<Rightarrow> 0 | Some n \<Rightarrow> n) 1"
  define k where "k = v @ ''@s'' @ show_word c"
  from Ok obtain r where r: "map_of (mi_rows g) v = Some r"
    by (auto simp: vs_create_snapshot_def Let_def split: result.splits option.splits)
  define x where "x = \<lparr>ms_meta = \<lparr>snap_id = k, snap_volume = v, snap_name = name,
    snap_size = of_nat (length (mv_body r))\<rparr>, ms_body = mv_body r\<rparr>"
  define g' where "g' = g\<lparr>mi_next_snap := bt_insert v c (mi_next_snap g),
    mi_snaps := bt_insert k x (mi_snaps g)\<rparr>"
  have eq: "fst (vs_create_snapshot g v name) = g'"
    using Ok r by (auto simp: vs_create_snapshot_def Let_def g'_def x_def k_def c_def split: result.splits)
  have "row_ok g' j y" if "map_of (mi_rows g') j = Some y" for j y
    using that row_ok_mono [OF vault_invD(4) [OF inv]] by (simp add: g'_def)
  moreover have "snap_ok g' j y" if "map_of (mi_snaps g') j = Some y" "j \<noteq> k" for j y
    using that by (intro snap_ok_mono [OF vault_invD(5) [OF inv]])
      (auto simp: g'_def map_simps c_def saturating_add_ge)
  moreover have "snap_ok g' k x"
    using r row_size [OF vault_invD(4) [OF inv r]]
    by (auto simp: snap_ok_def g'_def map_simps x_def k_def)
  ultimately show ?thesis using inv by (auto simp: eq vault_inv_def g'_def map_simps)
qed

subsection \<open>The in-memory store keeps the contract\<close>

lemma vs_body_update:
  "vs_body (g\<lparr>mi_rows := map_update_with v (mv_body_update f) (mi_rows g)\<rparr>) =
     (vs_body g)(v := map_option f (vs_body g v))"
  by (auto simp: vs_body_def map_simps fun_eq_iff option.map_comp comp_def)

lemma vs_write_eq:
  "vs_write g v off d =
     (case write_spec (vs_body g v) off d of
        Err e \<Rightarrow> (g, Err e)
      | Ok b \<Rightarrow> (g\<lparr>mi_rows := map_update_with v
                   (mv_body_update (splice (unat off) d)) (mi_rows g)\<rparr>, Ok ()))"
  by (auto simp: vs_write_def vs_body_def split: option.splits)

lemma vs_create_snapshot_Ok:
  assumes "vs_create_snapshot g v name = (g', Ok m)"
  obtains r c where "map_of (mi_rows g) v = Some r"
    "c = saturating_add (case map_of (mi_next_snap g) v of None \<Rightarrow> 0 | Some n \<Rightarrow> n) 1"
    "snap_id m = v @ ''@s'' @ show_word c" "snap_volume m = v" "mi_rows g' = mi_rows g" "mi_next g' = mi_next g"
    "mi_next_snap g' = bt_insert v c (mi_next_snap g)"
    "mi_snaps g' = bt_insert (snap_id m) \<lparr>ms_meta = m, ms_body = mv_body r\<rparr> (mi_snaps g)"
  using assms by (auto simp: vs_create_snapshot_def Let_def split: result.splits option.splits)

lemma snapshot_split:
  "CHR ''@'' \<notin> set v \<Longrightarrow> snapshot_id_split (v @ ''@s'' @ show_word c) = Some (v, c)"
  using strip_prefix_append [of "''s''" "show_word c"]
  by (simp add: snapshot_id_split_def split_once_append parse_show_word)

lemma vs_restore_ok:
  assumes "vault_inv g" "vs_snap g sid = Some (v, b)" "CHR ''@'' \<notin> set v"
  shows "vs_restore_snapshot g sid =
    (g\<lparr>mi_rows := map_update_with v (mv_body_update (\<lambda>_. b)) (mi_rows g)\<rparr>, Ok ())"
    and "vs_body g v \<noteq> None"
proof -
  from assms(2) obtain s where s: "map_of (mi_snaps g) sid = Some s" "v = snap_volume (ms_meta s)" "b = ms_body s"
    by (auto simp: vs_snap_def)
  from vault_invD(5) [OF assms(1) s(1)] obtain x and c :: u64 where
    "map_of (mi_rows g) v = Some x" "length b = length (mv_body x)" "sid = v @ ''@s'' @ show_word c"
    using s by (auto simp: snap_ok_def)
  with s assms(3) show "vs_restore_snapshot g sid =
      (g\<lparr>mi_rows := map_update_with v (mv_body_update (\<lambda>_. b)) (mi_rows g)\<rparr>, Ok ())"
    "vs_body g v \<noteq> None"
    using snapshot_split [of v c] by (simp_all add: vs_restore_snapshot_def vs_body_def)
qed

interpretation mem_vault: volume_store vs_read vs_write vs_create_snapshot vs_restore_snapshot
  vs_body vs_snap vault_inv
proof (unfold_locales, goal_cases)
  case (1 g v off len)
  then show ?case by (auto simp: vs_read_def vs_body_def split: option.splits)
next
  case (2 g v off d e)
  then show ?case by (simp add: vs_write_eq)
next
  case (3 g v off d b)
  then show ?case
    using vs_write_inv [OF 3(1), of v off d]
    by (cases "vs_body g v") (auto simp: vs_write_eq vs_body_update vs_snap_def fun_eq_iff split: if_splits)
next
  case (4 g v name g' m)
  from vs_create_snapshot_inv [OF 4(1), of v name] 4(2) have "vault_inv g'" by simp
  with 4(2) show ?case
    by (elim vs_create_snapshot_Ok) (auto simp: vs_body_def vs_snap_def map_simps fun_eq_iff)
next
  case (5 g sid v b)
  note r = vs_restore_ok [OF 5]
  with vs_restore_inv [OF 5(1), of sid] show ?case
    by (auto simp: vs_body_update vs_snap_def fun_eq_iff)
qed

subsection \<open>Runs\<close>

definition counters_le :: "mem_inner \<Rightarrow> nat \<Rightarrow> bool" where
  "counters_le g k \<longleftrightarrow> unat (mi_next g) \<le> k \<and>
     (\<forall>v n. map_of (mi_next_snap g) v = Some n \<longrightarrow> unat n \<le> k)"

lemma vault_exec_counters: "counters_le g k \<Longrightarrow> counters_le (vault_exec g c) (Suc k)"
  by (cases c) (auto simp: counters_le_def vault_op_defs map_simps unat_next unat_next0 le_SucI
      split: result.splits option.splits if_splits)

lemma vault_exec_inv:
  assumes "vault_inv g" "counters_le g k" "k + 1 < 2 ^ 64"
  shows "vault_inv (vault_exec g c)"
proof -
  have "mi_next g \<noteq> - 1" using assms(2,3) not_max [of "mi_next g" k] by (simp add: counters_le_def)
  with assms(1) show ?thesis
    by (cases c) (simp_all add: vs_create_inv vs_delete_inv vs_write_inv vs_create_snapshot_inv
        vs_delete_snapshot_inv vs_restore_inv)
qed

lemma vault_run_inv:
  assumes "vault_inv g" "counters_le g k" "k + length cs < 2 ^ 64"
  shows "vault_inv (vault_run g cs) \<and> counters_le (vault_run g cs) (k + length cs)"
  using assms
proof (induction cs arbitrary: g k)
  case (Cons c cs)
  then have "vault_inv (vault_exec g c)" "counters_le (vault_exec g c) (Suc k)"
    using vault_exec_inv [of g k c] vault_exec_counters by simp_all
  from Cons.IH [OF this] Cons.prems(3) show ?case by simp
qed simp

lemma new_counters: "counters_le mem_volume_store_new 0"
  by (simp add: counters_le_def mem_volume_store_new_def)

text \<open>A command that deletes neither the volume nor the snapshot keeps the captured bytes.\<close>

lemma vault_exec_keeps_snapshot:
  assumes "vault_inv g" "counters_le g k" "k + 1 < 2 ^ 64" "vs_snap g sid = Some (v, b)"
    and "c \<noteq> VDelete v" "c \<noteq> VDeleteSnapshot sid"
  shows "vs_snap (vault_exec g c) sid = Some (v, b)"
proof (cases c)
  case (VSnapshot w name)
  show ?thesis
  proof (cases "snd (vs_create_snapshot g w name)")
    case (Err e)
    with VSnapshot assms(4) show ?thesis
      by (auto simp: vs_create_snapshot_def Let_def split: result.splits option.splits)
  next
    case (Ok m)
    then obtain g' where g': "vs_create_snapshot g w name = (g', Ok m)" by (metis prod.collapse)
    then obtain r :: mem_volume and d where d: "snap_id m = w @ ''@s'' @ show_word d"
      "d = saturating_add (case map_of (mi_next_snap g) w of None \<Rightarrow> 0 | Some n \<Rightarrow> n) 1"
      "mi_snaps g' = bt_insert (snap_id m) \<lparr>ms_meta = m, ms_body = mv_body r\<rparr> (mi_snaps g)"
      by (rule vs_create_snapshot_Ok) blast
    from assms(4) obtain s where s: "map_of (mi_snaps g) sid = Some s" by (auto simp: vs_snap_def)
    from vault_invD(5) [OF assms(1) s] obtain x n e where
      e: "sid = x @ ''@s'' @ show_word e" "map_of (mi_next_snap g) x = Some n" "e \<le> n"
      by (auto simp: snap_ok_def)
    have "sid \<noteq> snap_id m"
    proof
      assume "sid = snap_id m"
      then have "x = w \<and> e = d" using d(1) e(1) counter_id_inject [of x "''@''" "CHR ''s''" e w d] by simp
      moreover have "n \<noteq> - 1" using assms(2,3) e(2) not_max [of n k] by (simp add: counters_le_def)
      ultimately show False using d(2) e(2,3) next_gt [of n] by simp
    qed
    with g' VSnapshot d(3) assms(4) show ?thesis by (simp add: vs_snap_def map_simps)
  qed
next
  case (VDelete w)
  with assms show ?thesis
    by (auto simp: vs_delete_def vs_snap_def map_of_bt_retain [OF vault_invD(3)] split: option.splits)
qed (use assms in \<open>auto simp: vault_op_defs vs_snap_def map_simps split: result.splits option.splits\<close>)

lemma vault_run_keeps_snapshot:
  assumes "vault_inv g" "counters_le g k" "k + length cs < 2 ^ 64" "vs_snap g sid = Some (v, b)"
    and "VDelete v \<notin> set cs" "VDeleteSnapshot sid \<notin> set cs"
  shows "vs_snap (vault_run g cs) sid = Some (v, b)"
  using assms
proof (induction cs arbitrary: g k)
  case (Cons c cs)
  then have "vault_inv (vault_exec g c)" "counters_le (vault_exec g c) (Suc k)"
    "vs_snap (vault_exec g c) sid = Some (v, b)"
    using vault_exec_inv [of g k c] vault_exec_counters vault_exec_keeps_snapshot [of g k sid v b c] by auto
  from Cons.IH [OF this(1,2) _ this(3)] Cons.prems show ?case by simp
qed simp

subsection \<open>Properties\<close>

lemma fold_check_volume:
  assumes "\<And>v. v \<in> set vs \<Longrightarrow> is_ok (vs_read g (vol_id v) (vol_size v - 1) 1)"
  shows "report_errors (fold (check_volume g) vs rep) = report_errors rep"
  using assms
proof (induction vs arbitrary: rep)
  case (Cons v vs)
  have "report_errors (check_volume g v rep) = report_errors rep"
    using Cons.prems [of v] by (auto simp: check_volume_def Let_def split: result.splits)
  with Cons show ?case by simp
qed simp

lemma fold_check_snapshot:
  assumes "\<And>s. s \<in> set ss \<Longrightarrow> \<exists>p. vs_get g (snap_volume s) = Some p \<and> vol_size p = snap_size s"
  shows "report_errors (fold (check_snapshot g) ss rep) = report_errors rep"
  using assms
proof (induction ss arbitrary: rep)
  case (Cons s ss)
  have "report_errors (check_snapshot g s rep) = report_errors rep"
    using Cons.prems [of s] by (auto simp: check_snapshot_def Let_def)
  with Cons show ?case by simp
qed simp

lemma last_byte_readable:
  assumes "row_ok g k v" "map_of (mi_rows g) k = Some v"
  shows "is_ok (vs_read g k (vol_size (mv_meta v) - 1) 1)"
proof -
  define m where "m = vol_size (mv_meta v)"
  from assms(1) have m: "0 < unat m" "length (mv_body v) = unat m"
    by (auto simp: row_ok_def m_def unat_gt_0)
  then have "unat (m - 1) = unat m - 1" by (intro unat_minus_one) auto
  with m assms(2) unat_lt_size [of m] show ?thesis by (simp add: vs_read_def m_def [symmetric])
qed

lemma vault_inv_clean:
  assumes "vault_inv g"
  shows "is_clean (vs_integrity_check g)"
proof -
  have "is_ok (vs_read g (vol_id v) (vol_size v - 1) 1)" if "v \<in> set (vs_list g)" for v
  proof -
    from that obtain k x where x: "map_of (mi_rows g) k = Some x" "v = mv_meta x"
      by (auto simp: vs_list_def bt.value_iff [OF vault_invD(1) [OF assms]])
    with vault_invD(4) [OF assms x(1)] last_byte_readable show ?thesis by (auto simp: row_ok_def)
  qed
  moreover have "\<exists>p. vs_get g (snap_volume s) = Some p \<and> vol_size p = snap_size s"
    if "s \<in> set (vs_list_snapshots g None)" for s
  proof -
    from that obtain k x where x: "map_of (mi_snaps g) k = Some x" "s = ms_meta x"
      by (auto simp: vs_list_snapshots_def bt.value_iff [OF vault_invD(3) [OF assms]])
    with vault_invD(5) [OF assms x(1)] show ?thesis by (auto simp: snap_ok_def vs_get_def)
  qed
  ultimately show ?thesis
    by (simp add: is_clean_def vs_integrity_check_def fold_check_volume fold_check_snapshot)
qed

text \<open>
  However a client creates, deletes, writes, snapshots and restores volumes, the integrity
  check of the resulting store reports no error: every volume's last byte is readable and every
  snapshot has a parent of its own size. (The id counter is 64-bit and saturates, so the run is
  shorter than its range.)
\<close>

lemma vault_always_clean:
  assumes "length cmds < 2 ^ 64"
  shows "is_clean (vs_integrity_check (vault_run mem_volume_store_new cmds))"
  using vault_run_inv [OF vault_inv_new new_counters] assms by (simp add: vault_inv_clean)


text \<open>The equations that evaluate the store on a concrete input.\<close>

lemmas vault_eval = vault_op_defs validate_volume_name_def MAX_NAME_def MAX_VOLUME_BYTES_def
  show_word_def show_nat_1 str_simps saturating_add_def mem_volume_store_new_def
  snapshot_id_split_def vs_read_def map_update_with_def splice_def


text \<open>
  Reading back what was written. After a successful write the written range reads as the data;
  whatever the outcome of the write, every read of another volume or of a range disjoint from the
  written one gives what it gave before, errors included; and the store's invariant is kept.
\<close>

lemma volume_write_read:
  assumes "vault_inv g" "vs_write g v off d = (g', r)"
  shows "(r = Ok () \<longrightarrow> vs_read g' v off (length d) = Ok d) \<and>
    (w \<noteq> v \<or> unat o' + len \<le> unat off \<or> unat off + length d \<le> unat o' \<longrightarrow>
       vs_read g' w o' len = vs_read g w o' len) \<and> vault_inv g'"
  using assms mem_vault.read_after_write [OF assms(1)] mem_vault.read_elsewhere [OF assms]
    vs_write_inv [OF assms(1), of v off d] by simp

lemma parse_digits_at: "CHR ''@'' \<in> set s \<Longrightarrow> parse_digits mx acc s = None"
  by (induction s arbitrary: acc) auto

lemma parse_uint_at: "CHR ''@'' \<in> set s \<Longrightarrow> parse_uint mx s = None"
  by (auto simp: parse_uint_def parse_digits_at split: list.splits)

text \<open>
  A snapshot of a volume whose id contains an \<^verbatim>\<open>@\<close> - a node id such as \<^verbatim>\<open>n@dc1\<close> - is taken
  without error but can never be restored from the in-memory store: the snapshot id is split at
  its first \<^verbatim>\<open>@\<close>, the rest is no counter, and the restore answers "malformed snapshot id".
\<close>

lemma at_sign_snapshot_unrestorable:
  assumes "vs_create_snapshot g v name = (g', Ok m)" "CHR ''@'' \<in> set v"
  shows "vs_restore_snapshot g' (snap_id m) = (g', Err (Invalid ''restore: malformed snapshot id''))"
proof -
  obtain c :: u64 and x :: mem_snapshot where
    m: "snap_id m = v @ ''@s'' @ show_word c" "map_of (mi_snaps g') (snap_id m) = Some x"
    using assms(1) by (elim vs_create_snapshot_Ok) (auto simp: map_simps)
  obtain p q where v: "v = p @ CHR ''@'' # q" "CHR ''@'' \<notin> set p"
    using assms(2) by (meson split_list_first)
  have "CHR ''@'' \<in> set r" if "strip_prefix ''s'' (q @ ''@s'' @ show_word c) = Some r" for r
  proof -
    have "CHR ''@'' \<in> set (q @ ''@s'' @ show_word c)" by simp
    then have "CHR ''@'' \<in> set (''s'' @ r)" unfolding strip_prefix_SomeD [OF that] .
    then show ?thesis by simp
  qed
  moreover have "split_once (CHR ''@'') (snap_id m) = Some (p, q @ ''@s'' @ show_word c)"
    using split_once_append [OF v(2), of "q @ ''@s'' @ show_word c"] by (simp add: m(1) v(1))
  ultimately have "snapshot_id_split (snap_id m) = None"
    by (simp add: snapshot_id_split_def parse_u64_def parse_uint_at split: option.splits)
  with m(2) show ?thesis by (simp add: vs_restore_snapshot_def)
qed

end
