(* ===== verification/Networks.thy ===== *)
theory Networks
  imports Common
begin

text \<open>
  The networking control plane, \<^verbatim>\<open>celvault/src/network.rs\<close>: CIDR blocks and their host
  addresses, virtual networks, NICs with the linear address allocator, security groups, load
  balancers with their dispatch function, and the in-memory store \<^verbatim>\<open>MemNetworkStore\<close> with
  every operation of the \<^verbatim>\<open>NetworkStore\<close> trait. An \<^verbatim>\<open>Ipv4Addr\<close> is its 32-bit value, whose
  order is the order of the octets.
\<close>

subsection \<open>CIDR blocks\<close>

record cidr4 =
  cidr_base :: u32
  cidr_prefix_len :: u8

definition cidr_mask :: "u8 \<Rightarrow> u32" where
  "cidr_mask p = push_bit (32 - unat p) (NOT 0)"

definition cidr_parse :: "string \<Rightarrow> cidr4 cel_result" where
  "cidr_parse s =
     (case split_once (CHR ''/'') s of
        None \<Rightarrow> Err (Invalid (''cidr: missing '' @ [CHR 0x27] @ ''/'' @ [CHR 0x27]))
      | Some (ip_str, p_str) \<Rightarrow>
          (case parse_ipv4 ip_str of
             None \<Rightarrow> Err (Invalid ''cidr: bad ipv4'')
           | Some ip \<Rightarrow>
               (case parse_u8 p_str of
                  None \<Rightarrow> Err (Invalid ''cidr: bad prefix'')
                | Some prefix_len \<Rightarrow>
                    if prefix_len = 0 \<or> 32 \<le> prefix_len
                      then Err (Invalid ''cidr: prefix must be in 1..32'')
                    else Ok \<lparr>cidr_base = ip AND cidr_mask prefix_len, cidr_prefix_len = prefix_len\<rparr>)))"

definition cidr_capacity :: "cidr4 \<Rightarrow> u32" where
  "cidr_capacity c = saturating_sub (push_bit (32 - unat (cidr_prefix_len c)) 1) 2"

definition cidr_nth_host :: "cidr4 \<Rightarrow> u32 \<Rightarrow> u32 option" where
  "cidr_nth_host c n = (if n = 0 \<or> cidr_capacity c < n then None else Some (cidr_base c + n))"

definition cidr_contains :: "cidr4 \<Rightarrow> u32 \<Rightarrow> bool" where
  "cidr_contains c addr \<longleftrightarrow>
     addr AND (if cidr_prefix_len c = 0 then 0 else cidr_mask (cidr_prefix_len c)) = cidr_base c"

definition cidr_display :: "cidr4 \<Rightarrow> string" where
  "cidr_display c = show_ipv4 (cidr_base c) @ ''/'' @ show_word (cidr_prefix_len c)"

subsection \<open>Records\<close>

type_synonym network_id = string
type_synonym nic_id = string
type_synonym sg_id = string
type_synonym lb_id = string

definition NET_MAX_NAME :: nat where "NET_MAX_NAME = 64"
definition MAX_NICS_PER_NETWORK :: nat where "MAX_NICS_PER_NETWORK = 256"
definition MAX_RULES_PER_GROUP :: nat where "MAX_RULES_PER_GROUP = 32"
definition MAX_BACKENDS_PER_LB :: nat where "MAX_BACKENDS_PER_LB = 32"

record virtual_network =
  net_id :: network_id
  net_owner :: string
  net_name :: string
  net_cidr :: cidr4

record nic =
  nic_ident :: nic_id
  nic_network_id :: network_id
  nic_vm_id :: u32
  nic_ip :: u32
  nic_mac :: "u8 list"

datatype direction = Ingress | Egress

datatype l4proto = Tcp | Udp | Icmp | AnyProto

record security_rule =
  rule_direction :: direction
  rule_proto :: l4proto
  port_min :: u16
  port_max :: u16
  rule_cidr :: cidr4
  rule_allow :: bool

record security_group =
  sg_ident :: sg_id
  sg_owner :: string
  sg_name :: string
  sg_rules :: "security_rule list"

datatype lb_algo = RoundRobin | LeastConn

record lb_backend =
  be_vm_id :: u32
  be_ip :: u32
  be_port :: u16

record load_balancer =
  lb_ident :: lb_id
  lb_owner :: string
  lb_name :: string
  lb_network_id :: network_id
  lb_vip :: u32
  lb_frontend_port :: u16
  lb_algorithm :: lb_algo
  lb_backends :: "lb_backend list"

text \<open>
  \<^verbatim>\<open>LoadBalancer::pick\<close>. The least-connection loop carries the best index and count so far;
  a backend without a supplied count has none.
\<close>

definition conn_count :: "u32 list \<Rightarrow> nat \<Rightarrow> u32" where
  "conn_count counts i = (if i < length counts then counts ! i else 0)"

fun least_conn_loop :: "u32 list \<Rightarrow> nat \<Rightarrow> nat \<Rightarrow> nat \<times> u32 \<Rightarrow> nat" where
  "least_conn_loop counts 0 i (best, best_n) = best"
| "least_conn_loop counts (Suc k) i (best, best_n) =
     (let n = conn_count counts i
      in least_conn_loop counts k (Suc i) (if n < best_n then (i, n) else (best, best_n)))"

definition lb_pick :: "load_balancer \<Rightarrow> u64 \<Rightarrow> u32 list \<Rightarrow> nat option" where
  "lb_pick lb tick least_conn =
     (if lb_backends lb = [] then None
      else (case lb_algorithm lb of
              RoundRobin \<Rightarrow> Some (unat tick mod length (lb_backends lb))
            | LeastConn \<Rightarrow> Some (least_conn_loop least_conn (length (lb_backends lb)) 0 (0, - 1))))"

subsection \<open>The store\<close>

record mem_nets =
  next_net :: u64
  next_sg :: u64
  next_lb :: u64
  next_nic :: "(network_id \<times> u32) list"
  used_ips :: "(network_id \<times> (u32 \<times> nic_id) list) list"
  nets_networks :: "(network_id \<times> virtual_network) list"
  nets_nics :: "(nic_id \<times> nic) list"
  nets_sgs :: "(sg_id \<times> security_group) list"
  nets_lbs :: "(lb_id \<times> load_balancer) list"

definition mem_network_store_new :: mem_nets where
  "mem_network_store_new = \<lparr>next_net = 0, next_sg = 0, next_lb = 0, next_nic = [], used_ips = [],
     nets_networks = [], nets_nics = [], nets_sgs = [], nets_lbs = []\<rparr>"

definition validate_net_name :: "string \<Rightarrow> unit cel_result" where
  "validate_net_name name =
     (if name = [] then Err (Invalid ''name: empty'')
      else if NET_MAX_NAME < length name then Err (Invalid ''name: too long'')
      else Ok ())"

definition fnv_step :: "u64 \<Rightarrow> u64 \<Rightarrow> u64" where
  "fnv_step h b = (h XOR b) * 0x100000001b3"

definition make_mac :: "network_id \<Rightarrow> u32 \<Rightarrow> u8 list" where
  "make_mac network idx =
     (let h = fold (\<lambda>b h. fnv_step h (of_nat (of_char b))) network 0xcbf29ce484222325;
          h = fnv_step h (ucast idx)
      in [0x02, ucast (drop_bit 32 h AND 0xff), ucast (drop_bit 24 h AND 0xff),
          ucast (drop_bit 16 h AND 0xff), ucast (drop_bit 8 h AND 0xff), ucast (h AND 0xff)])"

definition ns_create_network :: "mem_nets \<Rightarrow> string \<Rightarrow> string \<Rightarrow> cidr4 \<Rightarrow> mem_nets \<times> virtual_network cel_result" where
  "ns_create_network g owner name cidr =
     (case validate_net_name name of
        Err e \<Rightarrow> (g, Err e)
      | Ok _ \<Rightarrow>
          (let n = saturating_add (next_net g) 1;
               nid = owner @ ''/n'' @ show_word n;
               net = \<lparr>net_id = nid, net_owner = owner, net_name = name, net_cidr = cidr\<rparr>
           in (g\<lparr>next_net := n,
                 nets_networks := bt_insert nid net (nets_networks g),
                 next_nic := bt_insert nid 0 (next_nic g),
                 used_ips := bt_insert nid [] (used_ips g)\<rparr>,
               Ok net)))"

definition ns_delete_network :: "mem_nets \<Rightarrow> network_id \<Rightarrow> mem_nets \<times> unit cel_result" where
  "ns_delete_network g nid =
     (if (case map_of (used_ips g) nid of None \<Rightarrow> False | Some used \<Rightarrow> used \<noteq> [])
        then (g, Err (Invalid ''network: NICs still attached''))
      else (g\<lparr>nets_networks := bt_remove nid (nets_networks g),
              next_nic := bt_remove nid (next_nic g),
              used_ips := bt_remove nid (used_ips g),
              nets_lbs := bt_retain (\<lambda>_ lb. lb_network_id lb \<noteq> nid) (nets_lbs g)\<rparr>,
            Ok ()))"

definition ns_list_networks :: "mem_nets \<Rightarrow> virtual_network list" where
  "ns_list_networks g = map_values (nets_networks g)"

definition ns_get_network :: "mem_nets \<Rightarrow> network_id \<Rightarrow> virtual_network option" where
  "ns_get_network g nid = map_of (nets_networks g) nid"

text \<open>The loop \<^verbatim>\<open>for n in 1..=capacity\<close>: \<open>k\<close> values of \<open>n\<close> are left.\<close>

fun scan_hosts :: "cidr4 \<Rightarrow> (u32 \<times> nic_id) list \<Rightarrow> nat \<Rightarrow> nat \<Rightarrow> u32 option" where
  "scan_hosts c used k n =
     (if k = 0 then None
      else (case cidr_nth_host c (of_nat n) of
              None \<Rightarrow> scan_hosts c used (k - 1) (n + 1)
            | Some addr \<Rightarrow>
                if map_of used addr = None then Some addr
                else scan_hosts c used (k - 1) (n + 1)))"

declare scan_hosts.simps [simp del]

definition choose_ip :: "mem_nets \<Rightarrow> virtual_network \<Rightarrow> network_id \<Rightarrow> u32 option \<Rightarrow> u32 cel_result" where
  "choose_ip g net nid ip =
     (let used = (case map_of (used_ips g) nid of None \<Rightarrow> [] | Some m \<Rightarrow> m)
      in (case ip of
            Some req \<Rightarrow>
              if \<not> cidr_contains (net_cidr net) req then Err (Invalid ''attach_nic: ip outside network'')
              else if map_of used req \<noteq> None then Err (Invalid ''attach_nic: ip already in use'')
              else Ok req
          | None \<Rightarrow>
              ok_or (Exhausted ''attach_nic: CIDR exhausted'')
                (scan_hosts (net_cidr net) used (unat (cidr_capacity (net_cidr net))) 1)))"

definition ns_attach_nic :: "mem_nets \<Rightarrow> network_id \<Rightarrow> u32 \<Rightarrow> u32 option \<Rightarrow> mem_nets \<times> nic cel_result" where
  "ns_attach_nic g nid vm_id ip =
     (case map_of (nets_networks g) nid of
        None \<Rightarrow> (g, Err (Invalid ''attach_nic: unknown network''))
      | Some net \<Rightarrow>
          (let used = (case map_of (used_ips g) nid of None \<Rightarrow> [] | Some m \<Rightarrow> m)
           in if MAX_NICS_PER_NETWORK \<le> length used
                then (g, Err (Exhausted ''attach_nic: per-network NIC cap''))
              else (case choose_ip g net nid ip of
                      Err e \<Rightarrow> (g, Err e)
                    | Ok chosen \<Rightarrow>
                        (let counter = saturating_add
                               (case map_of (next_nic g) nid of None \<Rightarrow> 0 | Some c \<Rightarrow> c) 1;
                             kid = nid @ ''/nic'' @ show_word counter;
                             n = \<lparr>nic_ident = kid, nic_network_id = nid, nic_vm_id = vm_id,
                                  nic_ip = chosen, nic_mac = make_mac nid counter\<rparr>
                         in (g\<lparr>next_nic := bt_insert nid counter (next_nic g),
                               used_ips := bt_insert nid (bt_insert chosen kid used) (used_ips g),
                               nets_nics := bt_insert kid n (nets_nics g)\<rparr>,
                             Ok n)))))"

definition ns_detach_nic :: "mem_nets \<Rightarrow> nic_id \<Rightarrow> mem_nets \<times> unit cel_result" where
  "ns_detach_nic g kid =
     (case map_of (nets_nics g) kid of
        None \<Rightarrow> (g, Ok ())
      | Some n \<Rightarrow>
          (g\<lparr>nets_nics := bt_remove kid (nets_nics g),
             used_ips := map_update_with (nic_network_id n) (bt_remove (nic_ip n)) (used_ips g)\<rparr>,
           Ok ()))"

definition ns_list_nics :: "mem_nets \<Rightarrow> nic list" where
  "ns_list_nics g = map_values (nets_nics g)"

definition ns_create_security_group ::
  "mem_nets \<Rightarrow> string \<Rightarrow> string \<Rightarrow> security_rule list \<Rightarrow> mem_nets \<times> security_group cel_result" where
  "ns_create_security_group g owner name rules =
     (case validate_net_name name of
        Err e \<Rightarrow> (g, Err e)
      | Ok _ \<Rightarrow>
          if MAX_RULES_PER_GROUP < length rules then (g, Err (Invalid ''sg: too many rules''))
          else if list_ex (\<lambda>r. port_max r < port_min r) rules
            then (g, Err (Invalid ''sg: port_min > port_max''))
          else
            (let n = saturating_add (next_sg g) 1;
                 sid = owner @ ''/sg'' @ show_word n;
                 sg = \<lparr>sg_ident = sid, sg_owner = owner, sg_name = name, sg_rules = rules\<rparr>
             in (g\<lparr>next_sg := n, nets_sgs := bt_insert sid sg (nets_sgs g)\<rparr>, Ok sg)))"

definition ns_delete_security_group :: "mem_nets \<Rightarrow> sg_id \<Rightarrow> mem_nets \<times> unit cel_result" where
  "ns_delete_security_group g sid = (g\<lparr>nets_sgs := bt_remove sid (nets_sgs g)\<rparr>, Ok ())"

definition ns_list_security_groups :: "mem_nets \<Rightarrow> security_group list" where
  "ns_list_security_groups g = map_values (nets_sgs g)"

definition ns_create_load_balancer ::
  "mem_nets \<Rightarrow> string \<Rightarrow> string \<Rightarrow> network_id \<Rightarrow> u32 \<Rightarrow> u16 \<Rightarrow> lb_algo \<Rightarrow> lb_backend list \<Rightarrow>
   mem_nets \<times> load_balancer cel_result" where
  "ns_create_load_balancer g owner name nid vip frontend_port algo backends =
     (case validate_net_name name of
        Err e \<Rightarrow> (g, Err e)
      | Ok _ \<Rightarrow>
          if MAX_BACKENDS_PER_LB < length backends then (g, Err (Invalid ''lb: too many backends''))
          else
            (case map_of (nets_networks g) nid of
               None \<Rightarrow> (g, Err (Invalid ''lb: unknown network''))
             | Some net \<Rightarrow>
                 if \<not> cidr_contains (net_cidr net) vip
                   then (g, Err (Invalid ''lb: vip outside network''))
                 else if list_ex (\<lambda>b. \<not> cidr_contains (net_cidr net) (be_ip b)) backends
                   then (g, Err (Invalid ''lb: backend ip outside network''))
                 else
                   (let n = saturating_add (next_lb g) 1;
                        lid = owner @ ''/lb'' @ show_word n;
                        lb = \<lparr>lb_ident = lid, lb_owner = owner, lb_name = name, lb_network_id = nid,
                              lb_vip = vip, lb_frontend_port = frontend_port, lb_algorithm = algo,
                              lb_backends = backends\<rparr>
                    in (g\<lparr>next_lb := n, nets_lbs := bt_insert lid lb (nets_lbs g)\<rparr>, Ok lb))))"

definition ns_delete_load_balancer :: "mem_nets \<Rightarrow> lb_id \<Rightarrow> mem_nets \<times> unit cel_result" where
  "ns_delete_load_balancer g lid = (g\<lparr>nets_lbs := bt_remove lid (nets_lbs g)\<rparr>, Ok ())"

definition ns_list_load_balancers :: "mem_nets \<Rightarrow> load_balancer list" where
  "ns_list_load_balancers g = map_values (nets_lbs g)"

subsection \<open>Addresses of a block\<close>

definition cidr_wf :: "cidr4 \<Rightarrow> bool" where
  "cidr_wf c \<longleftrightarrow> 0 < cidr_prefix_len c \<and> cidr_prefix_len c < 32 \<and>
     cidr_base c AND cidr_mask (cidr_prefix_len c) = cidr_base c"

definition host_bits :: "cidr4 \<Rightarrow> nat" where
  "host_bits c = 32 - unat (cidr_prefix_len c)"

lemma contains_iff:
  "cidr_wf c \<Longrightarrow> cidr_contains c a \<longleftrightarrow> a AND cidr_mask (cidr_prefix_len c) = cidr_base c"
  by (auto simp: cidr_wf_def cidr_contains_def word_gt_0)

lemma host_bits_range: "cidr_wf c \<Longrightarrow> 0 < host_bits c \<and> host_bits c < 32"
  by (auto simp: cidr_wf_def host_bits_def word_less_nat_alt)

lemma bit_cidr_mask: "bit (cidr_mask p) i \<longleftrightarrow> 32 - unat p \<le> i \<and> i < 32"
  by (auto simp: cidr_mask_def bit_push_bit_iff bit_not_iff bit_simps)

lemma high_bit_clear: "unat n < 2 ^ h \<Longrightarrow> h \<le> i \<Longrightarrow> \<not> bit (n :: u32) i"
proof -
  assume a: "unat n < 2 ^ h" "h \<le> i"
  then have "take_bit h (unat n) = unat n" by (simp add: take_bit_nat_eq_self_iff)
  then have "\<not> bit (unat n) i" using a(2) by (metis bit_take_bit_iff not_le)
  then show ?thesis by (simp add: bit_unsigned_iff)
qed

lemma base_bit_clear:
  assumes "cidr_wf c" "i < host_bits c"
  shows "\<not> bit (cidr_base c) i"
proof -
  have "bit (cidr_base c AND cidr_mask (cidr_prefix_len c)) i = bit (cidr_base c) i"
    using assms(1) by (simp add: cidr_wf_def)
  with assms(2) show ?thesis by (auto simp: bit_and_iff bit_cidr_mask host_bits_def)
qed

lemma host_bits_disjoint:
  assumes "cidr_wf c" "unat n < 2 ^ host_bits c"
  shows "cidr_base c AND n = 0"
  using base_bit_clear [OF assms(1)] high_bit_clear [OF assms(2)]
  by (intro bit_eqI) (metis bit_0_eq bit_and_iff bot_apply bot_bool_def not_le)

lemma host_disjoint:
  assumes "cidr_wf c" "unat n < 2 ^ host_bits c"
  shows "cidr_base c + n = cidr_base c OR n"
  using host_bits_disjoint [OF assms] by (rule disjunctive_add_eq_or)

lemma host_contained:
  assumes "cidr_wf c" "unat n < 2 ^ host_bits c"
  shows "cidr_contains c (cidr_base c + n)"
proof -
  have "bit ((cidr_base c OR n) AND cidr_mask (cidr_prefix_len c)) i = bit (cidr_base c) i" if "i < 32" for i
    using base_bit_clear [OF assms(1), of i] high_bit_clear [OF assms(2), of i] that
    by (cases "i < host_bits c") (simp_all add: bit_and_iff bit_or_iff bit_cidr_mask flip: host_bits_def)
  then have "(cidr_base c OR n) AND cidr_mask (cidr_prefix_len c) = cidr_base c"
    by (intro bit_eqI) simp
  then show ?thesis
    by (simp add: contains_iff [OF assms(1)] host_disjoint [OF assms])
qed

lemma base_room:
  assumes "cidr_wf c" "unat n < 2 ^ host_bits c"
  shows "unat (cidr_base c + n) = unat (cidr_base c) + unat n"
proof -
  have "unat (cidr_base c) AND unat n = 0"
    using host_bits_disjoint [OF assms] by (metis unsigned_0 unsigned_and_eq)
  then have "unat (cidr_base c) + unat n = unat (cidr_base c) OR unat n"
    by (rule disjunctive_add_eq_or)
  then show ?thesis by (simp add: host_disjoint [OF assms] unsigned_or_eq)
qed

lemma unat_power_two: "h < 32 \<Longrightarrow> unat (2 ^ h :: u32) = 2 ^ h"
  using unat_of_nat [of "2 ^ h", where 'a = 32] power_strict_increasing [of h 32 "2 :: nat"] by simp

lemma unat_capacity: "cidr_wf c \<Longrightarrow> unat (cidr_capacity c) = 2 ^ host_bits c - 2"
  using host_bits_range [of c]
  by (simp add: cidr_capacity_def sat_simps unat_power_two flip: host_bits_def)

lemma capacity_lt: "cidr_wf c \<Longrightarrow> unat (cidr_capacity c) < 2 ^ host_bits c"
  by (simp add: unat_capacity)

lemma nth_host_Some:
  assumes "cidr_wf c" "cidr_nth_host c n = Some a"
  shows "cidr_contains c a \<and> unat a = unat (cidr_base c) + unat n \<and> 0 < unat n \<and> unat n < 2 ^ host_bits c - 1"
proof -
  have n: "a = cidr_base c + n" "0 < unat n" "unat n \<le> unat (cidr_capacity c)"
    using assms(2) by (auto simp: cidr_nth_host_def unat_gt_0 word_le_nat_alt not_less split: if_splits)
  then have "unat n < 2 ^ host_bits c - 1" by (simp add: unat_capacity [OF assms(1)])
  then show ?thesis using n host_contained [OF assms(1), of n] base_room [OF assms(1), of n] by simp
qed

lemma cidr_parse_wf:
  assumes "cidr_parse s = Ok c"
  shows "cidr_wf c"
  using assms
  by (auto simp: cidr_parse_def cidr_wf_def word_gt_0 and.assoc not_le split: option.splits prod.splits if_splits)

subsection \<open>Choosing a backend\<close>

definition least_index :: "u32 list \<Rightarrow> nat \<Rightarrow> nat \<Rightarrow> bool" where
  "least_index counts m b \<longleftrightarrow> b < m \<and>
     (\<forall>j < m. conn_count counts b \<le> conn_count counts j) \<and>
     (\<forall>j < b. conn_count counts b < conn_count counts j)"

lemma least_index_step:
  assumes "least_index counts i b"
  shows "least_index counts (Suc i) (if conn_count counts i < conn_count counts b then i else b)"
  using assms by (auto simp: least_index_def less_Suc_eq dest: less_le_trans)

lemma least_conn_loop_inv:
  "least_index counts i b \<Longrightarrow>
   least_index counts (i + k) (least_conn_loop counts k i (b, conn_count counts b))"
proof (induction k arbitrary: i b)
  case (Suc k)
  show ?case
    using Suc.IH [OF least_index_step [OF Suc.prems]]
    by (cases "conn_count counts i < conn_count counts b") (simp_all add: Let_def)
qed simp

lemma least_conn_loop_least:
  assumes "0 < m"
  shows "least_index counts m (least_conn_loop counts m 0 (0, - 1))"
proof -
  from assms obtain k where m: "m = Suc k" using gr0_implies_Suc by blast
  have "conn_count counts 0 = - 1" if "\<not> conn_count counts 0 < - 1"
    using that word_order.not_eq_extremum by blast
  then have "(if conn_count counts 0 < - 1 then (0, conn_count counts 0) else (0, - 1)) = (0 :: nat, conn_count counts 0)"
    by (cases "conn_count counts 0 < - 1") simp_all
  then have "least_conn_loop counts m 0 (0, - 1) = least_conn_loop counts k 1 (0, conn_count counts 0)"
    by (simp only: m least_conn_loop.simps Let_def One_nat_def)
  then show ?thesis using least_conn_loop_inv [of counts 1 0 k] by (simp add: least_index_def m)
qed

subsection \<open>The allocator\<close>

text \<open>The usable addresses of a block: inside it, and neither its first nor its last address.\<close>

definition cidr_broadcast :: "cidr4 \<Rightarrow> u32" where
  "cidr_broadcast c = cidr_base c OR NOT (cidr_mask (cidr_prefix_len c))"

definition usable_host :: "cidr4 \<Rightarrow> u32 \<Rightarrow> bool" where
  "usable_host c a \<longleftrightarrow> cidr_contains c a \<and> a \<noteq> cidr_base c \<and> a \<noteq> cidr_broadcast c"

lemma not_cidr_mask: "NOT (cidr_mask (cidr_prefix_len c)) = mask (host_bits c)"
  by (rule bit_eqI) (auto simp: bit_not_iff bit_cidr_mask bit_mask_iff host_bits_def)

lemma unat_mask_host: "cidr_wf c \<Longrightarrow> unat (mask (host_bits c) :: u32) = 2 ^ host_bits c - 1"
  using host_bits_range [of c] unat_sub_small [of 1 "2 ^ host_bits c :: u32"]
  by (simp add: mask_eq_exp_minus_1 unat_power_two word_le_nat_alt)

lemma unat_broadcast:
  assumes "cidr_wf c"
  shows "unat (cidr_broadcast c) = unat (cidr_base c) + (2 ^ host_bits c - 1)"
proof -
  have m: "unat (mask (host_bits c) :: u32) < 2 ^ host_bits c" by (simp add: unat_mask_host [OF assms])
  show ?thesis
    using base_room [OF assms m] by (simp add: cidr_broadcast_def not_cidr_mask host_disjoint [OF assms m]
        unat_mask_host [OF assms])
qed

lemma contains_split:
  assumes "cidr_wf c" "cidr_contains c a"
  shows "a = cidr_base c + take_bit (host_bits c) a" "unat (take_bit (host_bits c) a) < 2 ^ host_bits c"
proof -
  show lt: "unat (take_bit (host_bits c) a) < 2 ^ host_bits c"
    by (simp add: unsigned_take_bit_eq take_bit_nat_less_exp)
  have "a = (a AND cidr_mask (cidr_prefix_len c)) OR (a AND NOT (cidr_mask (cidr_prefix_len c)))"
    by (metis bit.conj_disj_distrib bit.disj_cancel_right word_and_max)
  also have "a AND cidr_mask (cidr_prefix_len c) = cidr_base c"
    using assms by (simp add: contains_iff)
  finally show "a = cidr_base c + take_bit (host_bits c) a"
    using host_disjoint [OF assms(1) lt] by (simp add: take_bit_eq_mask not_cidr_mask)
qed

lemma usable_host_iff:
  assumes "cidr_wf c"
  shows "usable_host c a \<longleftrightarrow> (\<exists>n. cidr_nth_host c n = Some a)"
proof
  assume "\<exists>n. cidr_nth_host c n = Some a"
  then obtain n where n: "cidr_nth_host c n = Some a" ..
  note h = nth_host_Some [OF assms n]
  from h have "unat a \<noteq> unat (cidr_base c)" "unat a \<noteq> unat (cidr_broadcast c)"
    by (auto simp: unat_broadcast [OF assms])
  with h show "usable_host c a" by (auto simp: usable_host_def)
next
  assume u: "usable_host c a"
  define n where "n = take_bit (host_bits c) a"
  from contains_split [OF assms, of a] u
  have n: "a = cidr_base c + n" "unat n < 2 ^ host_bits c" by (simp_all add: n_def usable_host_def)
  have "n \<noteq> 0" using n(1) u by (auto simp: usable_host_def)
  moreover have "unat n \<noteq> 2 ^ host_bits c - 1"
  proof
    assume "unat n = 2 ^ host_bits c - 1"
    then have "unat a = unat (cidr_broadcast c)"
      using base_room [OF assms n(2)] by (simp add: n(1) unat_broadcast [OF assms])
    with u show False by (simp add: usable_host_def word_unat_eq_iff [symmetric])
  qed
  ultimately have "cidr_nth_host c n = Some a"
    using n by (simp add: cidr_nth_host_def word_less_nat_alt unat_capacity [OF assms])
  then show "\<exists>n. cidr_nth_host c n = Some a" ..
qed

lemma scan_hosts_0 [simp]: "scan_hosts c used 0 n = None"
  by (simp add: scan_hosts.simps)

lemma scan_hosts_Suc:
  "scan_hosts c used (Suc k) n =
     (case cidr_nth_host c (of_nat n) of
        None \<Rightarrow> scan_hosts c used k (Suc n)
      | Some a \<Rightarrow> if map_of used a = None then Some a else scan_hosts c used k (Suc n))"
  by (subst scan_hosts.simps) (simp cong: option.case_cong if_cong)

lemma scan_hosts_None:
  "scan_hosts c used k n = None \<longleftrightarrow>
     (\<forall>j. n \<le> j \<and> j < n + k \<longrightarrow> (\<forall>a. cidr_nth_host c (of_nat j) = Some a \<longrightarrow> map_of used a \<noteq> None))"
proof (induction k arbitrary: n)
  case (Suc k)
  have split: "(n \<le> j \<and> j < n + Suc k) \<longleftrightarrow> (j = n \<or> Suc n \<le> j \<and> j < Suc n + k)" for j by auto
  show ?case unfolding split by (auto simp: scan_hosts_Suc Suc.IH split: option.splits)
qed auto

lemma scan_hosts_Some:
  assumes "scan_hosts c used k n = Some a"
  shows "\<exists>j. n \<le> j \<and> j < n + k \<and> cidr_nth_host c (of_nat j) = Some a \<and> map_of used a = None \<and>
    scan_hosts c used (j - n) n = None"
  using assms
proof (induction k arbitrary: n)
  case (Suc k)
  show ?case
  proof (cases "\<exists>b. cidr_nth_host c (of_nat n) = Some b \<and> map_of used b = None")
    case True
    with Suc.prems show ?thesis by (intro exI [of _ n]) (auto simp: scan_hosts_Suc)
  next
    case False
    with Suc.prems have "scan_hosts c used k (Suc n) = Some a"
      by (auto simp: scan_hosts_Suc split: option.splits)
    from Suc.IH [OF this] obtain j where j: "Suc n \<le> j" "j < Suc n + k" "cidr_nth_host c (of_nat j) = Some a"
      "map_of used a = None" "scan_hosts c used (j - Suc n) (Suc n) = None" by blast
    from j(1) have "j - n = Suc (j - Suc n)" by simp
    with j(5) False have "scan_hosts c used (j - n) n = None"
      by (auto simp: scan_hosts_Suc split: option.splits)
    with j show ?thesis by (intro exI [of _ j]) simp
  qed
qed simp

lemma host_index:
  assumes "cidr_wf c" "m \<le> Suc (unat (cidr_capacity c))"
  shows "(\<exists>j. 1 \<le> j \<and> j < m \<and> cidr_nth_host c (of_nat j) = Some a) \<longleftrightarrow>
    usable_host c a \<and> unat a < unat (cidr_base c) + m"
proof -
  have cap: "unat (cidr_capacity c) < 2 ^ 32" using unat_lt_size [of "cidr_capacity c"] by simp
  have "\<exists>j. 1 \<le> j \<and> j < m \<and> cidr_nth_host c (of_nat j) = Some a"
    if "cidr_nth_host c n = Some a" "unat a < unat (cidr_base c) + m" for n
    using nth_host_Some [OF assms(1) that(1)] that by (intro exI [of _ "unat n"]) simp
  moreover have "unat a < unat (cidr_base c) + m"
    if "1 \<le> j" "j < m" "cidr_nth_host c (of_nat j) = Some a" for j
    using nth_host_Some [OF assms(1) that(3)] that assms(2) cap by (simp add: unat_of_nat)
  ultimately show ?thesis by (auto simp: usable_host_iff [OF assms(1)])
qed

lemma scan_all_None:
  assumes "cidr_wf c" "k \<le> unat (cidr_capacity c)"
  shows "scan_hosts c used k 1 = None \<longleftrightarrow>
    (\<forall>a. usable_host c a \<and> unat a < unat (cidr_base c) + Suc k \<longrightarrow> map_of used a \<noteq> None)"
  using host_index [OF assms(1), of "Suc k"] assms(2) by (auto simp: scan_hosts_None)

lemma usable_host_below:
  assumes "cidr_wf c" "usable_host c a"
  shows "unat a < unat (cidr_base c) + Suc (unat (cidr_capacity c))"
proof -
  from assms obtain n where "cidr_nth_host c n = Some a" by (auto simp: usable_host_iff)
  from nth_host_Some [OF assms(1) this] show ?thesis by (simp add: unat_capacity [OF assms(1)]) linarith
qed

abbreviation used_of :: "mem_nets \<Rightarrow> network_id \<Rightarrow> (u32 \<times> nic_id) list" where
  "used_of g nid \<equiv> (case map_of (used_ips g) nid of None \<Rightarrow> [] | Some m \<Rightarrow> m)"

text \<open>
  Automatic address allocation is first-fit over exactly the usable hosts of the network: it
  returns an address if and only if that is the lowest usable address (inside the block, neither
  the network nor the broadcast address) no NIC holds, and it reports exhaustion if and only if
  every usable address is held. It has no other outcome.
\<close>

lemma auto_ip_first_fit:
  assumes "cidr_wf (net_cidr net)"
  shows "(choose_ip g net nid None = Ok a \<longleftrightarrow>
      usable_host (net_cidr net) a \<and> map_of (used_of g nid) a = None \<and>
      (\<forall>b < a. usable_host (net_cidr net) b \<longrightarrow> map_of (used_of g nid) b \<noteq> None)) \<and>
    (choose_ip g net nid None = Err (Exhausted ''attach_nic: CIDR exhausted'') \<longleftrightarrow>
      (\<forall>b. usable_host (net_cidr net) b \<longrightarrow> map_of (used_of g nid) b \<noteq> None)) \<and>
    (choose_ip g net nid None = Err e \<longrightarrow> e = Exhausted ''attach_nic: CIDR exhausted'')"
proof -
  define c used cap where "c = net_cidr net" and "used = used_of g nid" and "cap = unat (cidr_capacity c)"
  define first where "first b \<longleftrightarrow> usable_host c b \<and> map_of used b = None \<and>
    (\<forall>x < b. usable_host c x \<longrightarrow> map_of used x \<noteq> None)" for b
  have wf: "cidr_wf c" using assms by (simp add: c_def)
  have found: "first b" if scan: "scan_hosts c used cap 1 = Some b" for b
  proof -
    from scan_hosts_Some [OF scan] obtain j where j: "1 \<le> j" "j < 1 + cap"
      "cidr_nth_host c (of_nat j) = Some b" "map_of used b = None" "scan_hosts c used (j - 1) 1 = None" by blast
    have "j < 2 ^ 32" using j(2) unat_lt_size [of "cidr_capacity c"] by (simp add: cap_def)
    then have b: "unat b = unat (cidr_base c) + j"
      using nth_host_Some [OF wf j(3)] by (simp add: unat_of_nat)
    moreover have "usable_host c b" using j(3) by (auto simp: usable_host_iff [OF wf])
    ultimately show ?thesis
      using j scan_all_None [OF wf, of "j - 1" used] by (auto simp: first_def word_less_nat_alt cap_def)
  qed
  have none: "scan_hosts c used cap 1 = None \<longleftrightarrow> (\<forall>b. usable_host c b \<longrightarrow> map_of used b \<noteq> None)"
    using scan_all_None [OF wf, of cap used] usable_host_below [OF wf] by (auto simp: cap_def)
  have unique: "x = y" if "first x" "first y" for x y
    using that by (metis first_def linorder_less_linear)
  have "scan_hosts c used cap 1 = Some a \<longleftrightarrow> first a"
    using found unique none by (cases "scan_hosts c used cap 1") (auto simp: first_def)
  moreover have "choose_ip g net nid None =
      ok_or (Exhausted ''attach_nic: CIDR exhausted'') (scan_hosts c used cap 1)"
    by (simp add: choose_ip_def c_def used_def cap_def)
  ultimately show ?thesis
    using none by (cases "scan_hosts c used cap 1") (auto simp: first_def c_def used_def)
qed

subsection \<open>Invariant\<close>

definition network_ok :: "mem_nets \<Rightarrow> network_id \<Rightarrow> virtual_network \<Rightarrow> bool" where
  "network_ok g nid net \<longleftrightarrow> net_id net = nid \<and> cidr_wf (net_cidr net) \<and>
     (\<exists>c. nid = net_owner net @ ''/n'' @ show_word c \<and> c \<le> next_net g)"

definition used_ok :: "mem_nets \<Rightarrow> network_id \<Rightarrow> (u32 \<times> nic_id) list \<Rightarrow> bool" where
  "used_ok g nid m \<longleftrightarrow> bt_wf m \<and> length m \<le> MAX_NICS_PER_NETWORK \<and>
     (\<forall>ip kid. map_of m ip = Some kid \<longrightarrow>
        (\<exists>n. map_of (nets_nics g) kid = Some n \<and> nic_network_id n = nid \<and> nic_ip n = ip))"

definition nic_ok :: "mem_nets \<Rightarrow> nic_id \<Rightarrow> nic \<Rightarrow> bool" where
  "nic_ok g kid n \<longleftrightarrow> nic_ident n = kid \<and>
     (\<exists>net m cnt c. map_of (nets_networks g) (nic_network_id n) = Some net \<and>
        cidr_contains (net_cidr net) (nic_ip n) \<and>
        map_of (used_ips g) (nic_network_id n) = Some m \<and> map_of m (nic_ip n) = Some kid \<and>
        map_of (next_nic g) (nic_network_id n) = Some cnt \<and>
        kid = nic_network_id n @ ''/nic'' @ show_word c \<and> c \<le> cnt)"

definition sg_ok :: "security_group \<Rightarrow> bool" where
  "sg_ok sg \<longleftrightarrow> length (sg_rules sg) \<le> MAX_RULES_PER_GROUP \<and> (\<forall>r \<in> set (sg_rules sg). port_min r \<le> port_max r)"

definition lb_ok :: "mem_nets \<Rightarrow> load_balancer \<Rightarrow> bool" where
  "lb_ok g lb \<longleftrightarrow> length (lb_backends lb) \<le> MAX_BACKENDS_PER_LB \<and>
     (\<exists>net. map_of (nets_networks g) (lb_network_id lb) = Some net \<and> cidr_contains (net_cidr net) (lb_vip lb) \<and>
        (\<forall>b \<in> set (lb_backends lb). cidr_contains (net_cidr net) (be_ip b)))"

definition nets_wf :: "mem_nets \<Rightarrow> bool" where
  "nets_wf g \<longleftrightarrow> bt_wf (nets_networks g) \<and> bt_wf (nets_nics g) \<and> bt_wf (used_ips g) \<and> bt_wf (next_nic g) \<and>
     bt_wf (nets_lbs g) \<and> bt_wf (nets_sgs g) \<and>
     dom (map_of (used_ips g)) = dom (map_of (nets_networks g)) \<and>
     dom (map_of (next_nic g)) = dom (map_of (nets_networks g))"

definition net_inv :: "mem_nets \<Rightarrow> bool" where
  "net_inv g \<longleftrightarrow> nets_wf g \<and>
     (\<forall>nid net. map_of (nets_networks g) nid = Some net \<longrightarrow> network_ok g nid net) \<and>
     (\<forall>nid m. map_of (used_ips g) nid = Some m \<longrightarrow> used_ok g nid m) \<and>
     (\<forall>kid n. map_of (nets_nics g) kid = Some n \<longrightarrow> nic_ok g kid n) \<and>
     (\<forall>sid sg. map_of (nets_sgs g) sid = Some sg \<longrightarrow> sg_ok sg) \<and>
     (\<forall>lid lb. map_of (nets_lbs g) lid = Some lb \<longrightarrow> lb_ok g lb)"

lemma net_invI:
  assumes "nets_wf g"
    and "\<And>nid net. map_of (nets_networks g) nid = Some net \<Longrightarrow> network_ok g nid net"
    and "\<And>nid m. map_of (used_ips g) nid = Some m \<Longrightarrow> used_ok g nid m"
    and "\<And>kid n. map_of (nets_nics g) kid = Some n \<Longrightarrow> nic_ok g kid n"
    and "\<And>sid sg. map_of (nets_sgs g) sid = Some sg \<Longrightarrow> sg_ok sg"
    and "\<And>lid lb. map_of (nets_lbs g) lid = Some lb \<Longrightarrow> lb_ok g lb"
  shows "net_inv g"
  using assms by (simp add: net_inv_def)

lemma net_invD:
  assumes "net_inv g"
  shows "nets_wf g"
    and "map_of (nets_networks g) nid = Some net \<Longrightarrow> network_ok g nid net"
    and "map_of (used_ips g) nid = Some m \<Longrightarrow> used_ok g nid m"
    and "map_of (nets_nics g) kid = Some n \<Longrightarrow> nic_ok g kid n"
    and "map_of (nets_sgs g) sid = Some sg \<Longrightarrow> sg_ok sg"
    and "map_of (nets_lbs g) lid = Some lb \<Longrightarrow> lb_ok g lb"
  using assms by (simp_all add: net_inv_def)

lemma net_inv_new: "net_inv mem_network_store_new"
  by (rule net_invI) (simp_all add: mem_network_store_new_def nets_wf_def)

text \<open>The operations on groups and balancers touch nothing the other rows depend on.\<close>

lemma net_inv_counters [simp]:
  "net_inv (g\<lparr>next_sg := a\<rparr>) = net_inv g" "net_inv (g\<lparr>next_lb := a\<rparr>) = net_inv g"
  by (simp_all add: net_inv_def nets_wf_def network_ok_def used_ok_def nic_ok_def lb_ok_def)

lemma net_inv_set_sgs:
  assumes "net_inv g" "bt_wf sgs" "\<And>sid sg. map_of sgs sid = Some sg \<Longrightarrow> sg_ok sg"
  shows "net_inv (g\<lparr>nets_sgs := sgs\<rparr>)"
  using assms by (simp add: net_inv_def nets_wf_def network_ok_def used_ok_def nic_ok_def lb_ok_def)

lemma net_inv_set_lbs:
  assumes "net_inv g" "bt_wf lbs" "\<And>lid lb. map_of lbs lid = Some lb \<Longrightarrow> lb_ok g lb"
  shows "net_inv (g\<lparr>nets_lbs := lbs\<rparr>)"
  using assms by (simp add: net_inv_def nets_wf_def network_ok_def used_ok_def nic_ok_def lb_ok_def)

lemma ns_sg_inv:
  assumes "net_inv g"
  shows "net_inv (fst (ns_create_security_group g owner name rules))"
    and "net_inv (fst (ns_delete_security_group g sid))"
proof -
  have wf: "bt_wf (nets_sgs g)" using net_invD(1) [OF assms] by (simp add: nets_wf_def)
  have ins: "net_inv (g\<lparr>next_sg := a, nets_sgs := bt_insert k sg (nets_sgs g)\<rparr>)" if "sg_ok sg" for a k sg
    by (rule net_inv_set_sgs) (use assms wf that net_invD(5) [OF assms] in \<open>auto simp: map_simps split: if_splits\<close>)
  then show "net_inv (fst (ns_create_security_group g owner name rules))"
    using assms
    by (simp add: ns_create_security_group_def Let_def sg_ok_def not_less list_ex_iff split: result.split)
  show "net_inv (fst (ns_delete_security_group g sid))"
    unfolding ns_delete_security_group_def fst_conv
    by (rule net_inv_set_sgs) (use assms wf net_invD(5) [OF assms] in \<open>auto simp: map_simps split: if_splits\<close>)
qed

lemma ns_lb_inv:
  assumes "net_inv g"
  shows "net_inv (fst (ns_create_load_balancer g owner name nid vip port algo backends))"
    and "net_inv (fst (ns_delete_load_balancer g lid))"
proof -
  have wf: "bt_wf (nets_lbs g)" using net_invD(1) [OF assms] by (simp add: nets_wf_def)
  have ok: "lb_ok (g\<lparr>next_lb := a\<rparr>) lb = lb_ok g lb" for a lb by (simp add: lb_ok_def)
  have ins: "net_inv (g\<lparr>next_lb := a, nets_lbs := bt_insert k lb (nets_lbs g)\<rparr>)" if "lb_ok g lb" for a k lb
    by (rule net_inv_set_lbs) (use assms wf that net_invD(6) [OF assms] in \<open>auto simp: ok map_simps split: if_splits\<close>)
  then show "net_inv (fst (ns_create_load_balancer g owner name nid vip port algo backends))"
    using assms
    by (simp add: ns_create_load_balancer_def Let_def lb_ok_def not_less list_ex_iff split: result.split option.split)
  show "net_inv (fst (ns_delete_load_balancer g lid))"
    unfolding ns_delete_load_balancer_def fst_conv
    by (rule net_inv_set_lbs) (use assms wf net_invD(6) [OF assms] in \<open>auto simp: map_simps split: if_splits\<close>)
qed

lemma ns_create_network_inv:
  assumes "net_inv g" "cidr_wf cidr" "next_net g \<noteq> - 1"
  shows "net_inv (fst (ns_create_network g owner name cidr))"
proof (cases "validate_net_name name")
  case (Ok u)
  define n where "n = saturating_add (next_net g) 1"
  define nid where "nid = owner @ ''/n'' @ show_word n"
  define g' where "g' = fst (ns_create_network g owner name cidr)"
  note inv = net_invD [OF assms(1)]
  have g': "next_net g' = n" "nets_nics g' = nets_nics g" "nets_lbs g' = nets_lbs g" "nets_sgs g' = nets_sgs g"
    "nets_networks g' = bt_insert nid \<lparr>net_id = nid, net_owner = owner, net_name = name, net_cidr = cidr\<rparr> (nets_networks g)"
    "next_nic g' = bt_insert nid 0 (next_nic g)" "used_ips g' = bt_insert nid [] (used_ips g)"
    using Ok by (simp_all add: g'_def ns_create_network_def n_def nid_def Let_def)
  have fresh: "map_of (nets_networks g) nid = None"
  proof (rule ccontr)
    assume "map_of (nets_networks g) nid \<noteq> None"
    then obtain net where "map_of (nets_networks g) nid = Some net" by blast
    then obtain c o' where "nid = o' @ ''/n'' @ show_word c" "c \<le> next_net g"
      using inv(2) [of nid net] unfolding network_ok_def by blast
    with counter_id_inject [of owner "''/''" "CHR ''n''" n o' c] next_gt [OF assms(3)]
    show False by (simp add: nid_def n_def)
  qed
  have mono: "lb_ok g lb \<Longrightarrow> lb_ok g' lb" "nic_ok g kid k \<Longrightarrow> nic_ok g' kid k" "used_ok g x m \<Longrightarrow> used_ok g' x m"
    "network_ok g x net \<Longrightarrow> network_ok g' x net" for lb kid k x m net
    using fresh le_saturating_add [of _ "next_net g" 1]
    by (auto simp: lb_ok_def nic_ok_def used_ok_def network_ok_def g' map_simps n_def)
  show ?thesis unfolding g'_def [symmetric]
  proof (rule net_invI)
    show "nets_wf g'" using inv(1) by (simp add: nets_wf_def g' map_simps)
    fix x y assume "map_of (nets_networks g') x = Some y"
    with inv(2) mono(4) have "x \<noteq> nid \<Longrightarrow> network_ok g' x y" by (simp add: g' map_simps)
    moreover have "x = nid \<Longrightarrow> network_ok g' x y"
      using \<open>map_of (nets_networks g') x = Some y\<close> assms(2) by (auto simp: g' map_simps network_ok_def nid_def)
    ultimately show "network_ok g' x y" by blast
  next
    fix x m assume "map_of (used_ips g') x = Some m"
    with inv(3) mono(3) show "used_ok g' x m"
      by (cases "x = nid") (auto simp: g' map_simps used_ok_def)
  qed (use inv(4-6) mono(1,2) in \<open>auto simp: g'\<close>)
qed (use assms in \<open>simp add: ns_create_network_def\<close>)

lemma ns_delete_network_inv:
  assumes "net_inv g"
  shows "net_inv (fst (ns_delete_network g nid))"
proof (cases "used_of g nid = []")
  case True
  define g' where "g' = fst (ns_delete_network g nid)"
  note inv = net_invD [OF assms]
  have g': "next_net g' = next_net g" "nets_nics g' = nets_nics g" "nets_sgs g' = nets_sgs g"
    "nets_networks g' = bt_remove nid (nets_networks g)" "next_nic g' = bt_remove nid (next_nic g)"
    "used_ips g' = bt_remove nid (used_ips g)"
    "nets_lbs g' = bt_retain (\<lambda>_ lb. lb_network_id lb \<noteq> nid) (nets_lbs g)"
    using True by (simp_all add: g'_def ns_delete_network_def split: option.splits)
  have lbs: "bt_wf (nets_lbs g)" using inv(1) by (simp add: nets_wf_def)
  have "nic_ok g' k n" if "map_of (nets_nics g) k = Some n" for k n
  proof -
    have "nic_network_id n \<noteq> nid" using inv(4) [OF that] True by (auto simp: nic_ok_def)
    with inv(4) [OF that] show ?thesis by (simp add: nic_ok_def g' map_simps)
  qed
  moreover have "lb_ok g' lb" if "map_of (nets_lbs g') l = Some lb" for l lb
    using that inv(6) [of l lb] by (auto simp: g' map_of_bt_retain [OF lbs] lb_ok_def map_simps split: option.splits if_splits)
  ultimately show ?thesis unfolding g'_def [symmetric]
    by (intro net_invI) (use inv in \<open>auto simp: g' nets_wf_def network_ok_def used_ok_def map_simps split: if_splits\<close>)
next
  case False
  then show ?thesis using assms by (auto simp: ns_delete_network_def split: option.splits)
qed

lemma choose_ip_Ok:
  assumes "choose_ip g net nid ip = Ok a" "cidr_wf (net_cidr net)"
  shows "cidr_contains (net_cidr net) a \<and> map_of (used_of g nid) a = None"
proof (cases ip)
  case None
  with assms(1) have "scan_hosts (net_cidr net) (used_of g nid) (unat (cidr_capacity (net_cidr net))) 1 = Some a"
    by (simp add: choose_ip_def)
  from scan_hosts_Some [OF this] nth_host_Some [OF assms(2)] show ?thesis by blast
next
  case (Some req)
  with assms(1) show ?thesis by (auto simp: choose_ip_def Let_def split: if_splits)
qed

lemma ns_attach_nic_Ok:
  assumes "ns_attach_nic g nid vm ip = (g', Ok n)"
  obtains net a c where "map_of (nets_networks g) nid = Some net" "choose_ip g net nid ip = Ok a"
    "length (used_of g nid) < MAX_NICS_PER_NETWORK"
    "c = saturating_add (case map_of (next_nic g) nid of None \<Rightarrow> 0 | Some c \<Rightarrow> c) 1"
    "n = \<lparr>nic_ident = nid @ ''/nic'' @ show_word c, nic_network_id = nid, nic_vm_id = vm, nic_ip = a, nic_mac = make_mac nid c\<rparr>"
    "g' = g\<lparr>next_nic := bt_insert nid c (next_nic g),
            used_ips := bt_insert nid (bt_insert a (nic_ident n) (used_of g nid)) (used_ips g),
            nets_nics := bt_insert (nic_ident n) n (nets_nics g)\<rparr>"
  using assms by (auto simp: ns_attach_nic_def Let_def not_le split: option.splits result.splits if_splits)

lemma ns_attach_nic_Err: "ns_attach_nic g nid vm ip = (g', Err e) \<Longrightarrow> g' = g"
  by (auto simp: ns_attach_nic_def Let_def split: option.splits result.splits if_splits)

lemma nic_id_fresh:
  assumes "net_inv g" "map_of (next_nic g) nid = Some cnt" "cnt \<noteq> - 1"
  shows "map_of (nets_nics g) (nid @ ''/nic'' @ show_word (saturating_add cnt 1)) = None"
proof (rule ccontr)
  assume "map_of (nets_nics g) (nid @ ''/nic'' @ show_word (saturating_add cnt 1)) \<noteq> None"
  then obtain n where "map_of (nets_nics g) (nid @ ''/nic'' @ show_word (saturating_add cnt 1)) = Some n" by blast
  from net_invD(4) [OF assms(1) this] obtain c d where
    "nid @ ''/nic'' @ show_word (saturating_add cnt 1) = nic_network_id n @ ''/nic'' @ show_word c"
    "map_of (next_nic g) (nic_network_id n) = Some d" "c \<le> d"
    unfolding nic_ok_def by blast
  with counter_id_inject [of nid "''/ni''" "CHR ''c''" "saturating_add cnt 1" "nic_network_id n" c]
    next_gt [OF assms(3)] assms(2) show False by simp
qed

text \<open>The state after a NIC is entered, and what it keeps of the other rows.\<close>

definition add_nic :: "mem_nets \<Rightarrow> u32 \<Rightarrow> (u32 \<times> nic_id) list \<Rightarrow> nic \<Rightarrow> mem_nets" where
  "add_nic g c m n = g\<lparr>next_nic := bt_insert (nic_network_id n) c (next_nic g),
     used_ips := bt_insert (nic_network_id n) (bt_insert (nic_ip n) (nic_ident n) m) (used_ips g),
     nets_nics := bt_insert (nic_ident n) n (nets_nics g)\<rparr>"

lemma add_nic_keeps_nic:
  assumes "nic_ok g k x" "map_of (used_ips g) (nic_network_id n) = Some m" "map_of m (nic_ip n) = None"
    and "map_of (next_nic g) (nic_network_id n) = Some cnt" "cnt \<le> c"
  shows "nic_ok (add_nic g c m n) k x"
proof -
  from assms(1) obtain y w d e where
    "nic_ident x = k" "map_of (nets_networks g) (nic_network_id x) = Some y" "cidr_contains (net_cidr y) (nic_ip x)"
    "map_of (used_ips g) (nic_network_id x) = Some w" "map_of w (nic_ip x) = Some k"
    "map_of (next_nic g) (nic_network_id x) = Some d" "k = nic_network_id x @ ''/nic'' @ show_word e" "e \<le> d"
    unfolding nic_ok_def by blast
  with assms show ?thesis
    by (cases "nic_network_id x = nic_network_id n") (auto simp: nic_ok_def add_nic_def map_simps)
qed

lemma add_nic_keeps_used:
  assumes "used_ok g x w" "map_of (nets_nics g) (nic_ident n) = None"
  shows "used_ok (add_nic g c m n) x w"
  using assms by (force simp: used_ok_def add_nic_def map_simps)

lemma add_nic_used:
  assumes "used_ok g (nic_network_id n) m" "map_of (nets_nics g) (nic_ident n) = None"
    and "length m < MAX_NICS_PER_NETWORK"
  shows "used_ok (add_nic g c m n) (nic_network_id n) (bt_insert (nic_ip n) (nic_ident n) m)"
  using assms by (fastforce simp: used_ok_def add_nic_def map_simps bt.size_ins)

lemma add_nic_inv:
  assumes inv: "net_inv g" and net: "map_of (nets_networks g) (nic_network_id n) = Some net"
    and m: "map_of (used_ips g) (nic_network_id n) = Some m" "map_of m (nic_ip n) = None" "length m < MAX_NICS_PER_NETWORK"
    and cnt: "map_of (next_nic g) (nic_network_id n) = Some cnt" "cnt \<le> c"
    and fresh: "map_of (nets_nics g) (nic_ident n) = None"
    and ident: "nic_ident n = nic_network_id n @ ''/nic'' @ show_word c"
    and inside: "cidr_contains (net_cidr net) (nic_ip n)"
  shows "net_inv (add_nic g c m n)"
proof (rule net_invI)
  note d = net_invD [OF inv]
  let ?g = "add_nic g c m n"
  show "nets_wf ?g" using d(1) net by (auto simp: add_nic_def nets_wf_def map_simps)
  show "network_ok ?g x y" if "map_of (nets_networks ?g) x = Some y" for x y
    using that d(2) by (simp add: add_nic_def network_ok_def)
  show "sg_ok sg" if "map_of (nets_sgs ?g) x = Some sg" for x sg using that d(5) by (simp add: add_nic_def)
  show "lb_ok ?g lb" if "map_of (nets_lbs ?g) x = Some lb" for x lb using that d(6) by (simp add: add_nic_def lb_ok_def)
  have new: "nic_ok ?g (nic_ident n) n"
    using net inside ident by (auto simp: nic_ok_def add_nic_def map_simps)
  show "nic_ok ?g k x" if "map_of (nets_nics ?g) k = Some x" for k x
    using that new add_nic_keeps_nic [OF d(4) m(1,2) cnt, of k x]
    by (cases "k = nic_ident n") (auto simp: add_nic_def map_simps)
  show "used_ok ?g x w" if "map_of (used_ips ?g) x = Some w" for x w
    using that add_nic_used [OF d(3) [OF m(1)] fresh m(3)] add_nic_keeps_used [OF d(3) fresh, of x w]
    by (cases "x = nic_network_id n") (auto simp: add_nic_def map_simps)
qed

lemma ns_attach_nic_inv:
  assumes "net_inv g" "\<And>c. map_of (next_nic g) nid = Some c \<Longrightarrow> c \<noteq> - 1"
  shows "net_inv (fst (ns_attach_nic g nid vm ip))"
proof (cases "snd (ns_attach_nic g nid vm ip)")
  case (Err e)
  then have "ns_attach_nic g nid vm ip = (fst (ns_attach_nic g nid vm ip), Err e)" by (metis prod.collapse)
  from ns_attach_nic_Err [OF this] assms(1) show ?thesis by simp
next
  case (Ok n)
  define g' where "g' = fst (ns_attach_nic g nid vm ip)"
  from Ok have "ns_attach_nic g nid vm ip = (g', Ok n)" unfolding g'_def by (metis prod.collapse)
  then obtain net a c where net: "map_of (nets_networks g) nid = Some net" and a: "choose_ip g net nid ip = Ok a"
    and len: "length (used_of g nid) < MAX_NICS_PER_NETWORK"
    and c: "c = saturating_add (case map_of (next_nic g) nid of None \<Rightarrow> 0 | Some c \<Rightarrow> c) 1"
    and n: "n = \<lparr>nic_ident = nid @ ''/nic'' @ show_word c, nic_network_id = nid, nic_vm_id = vm, nic_ip = a, nic_mac = make_mac nid c\<rparr>"
    and g': "g' = g\<lparr>next_nic := bt_insert nid c (next_nic g),
          used_ips := bt_insert nid (bt_insert a (nic_ident n) (used_of g nid)) (used_ips g),
          nets_nics := bt_insert (nic_ident n) n (nets_nics g)\<rparr>"
    by (rule ns_attach_nic_Ok) blast
  obtain cnt m where cnt: "map_of (next_nic g) nid = Some cnt" and m: "map_of (used_ips g) nid = Some m"
    using net_invD(1) [OF assms(1)] net by (fastforce simp: nets_wf_def)
  have "cidr_wf (net_cidr net)" using net_invD(2) [OF assms(1) net] by (simp add: network_ok_def)
  from choose_ip_Ok [OF a this] m have "cidr_contains (net_cidr net) a" "map_of m a = None" by simp_all
  moreover have "map_of (nets_nics g) (nic_ident n) = None"
    using nic_id_fresh [OF assms(1) cnt] assms(2) [OF cnt] c cnt by (simp add: n)
  moreover have "g' = add_nic g c m n" using g' m by (simp add: n add_nic_def)
  ultimately show ?thesis
    using add_nic_inv [OF assms(1), of n net m cnt c] net len m c cnt
    by (simp add: n saturating_add_ge flip: g'_def)
qed

lemma ns_detach_nic_inv:
  assumes "net_inv g"
  shows "net_inv (fst (ns_detach_nic g kid))"
proof (cases "map_of (nets_nics g) kid")
  case (Some n)
  define g' where "g' = fst (ns_detach_nic g kid)"
  note inv = net_invD [OF assms]
  have g': "g' = g\<lparr>nets_nics := bt_remove kid (nets_nics g),
     used_ips := map_update_with (nic_network_id n) (bt_remove (nic_ip n)) (used_ips g)\<rparr>"
    using Some by (simp add: g'_def ns_detach_nic_def)
  from inv(4) [OF Some] obtain m where m: "map_of (used_ips g) (nic_network_id n) = Some m" "map_of m (nic_ip n) = Some kid"
    unfolding nic_ok_def by blast
  have m_ok: "used_ok g (nic_network_id n) m" using inv(3) [OF m(1)] .
  show ?thesis unfolding g'_def [symmetric]
  proof (rule net_invI)
    show "nets_wf g'" using inv(1) m by (auto simp: g' nets_wf_def map_simps)
    show "nic_ok g' k x" if "map_of (nets_nics g') k = Some x" for k x
    proof -
      from that have k: "k \<noteq> kid" "map_of (nets_nics g) k = Some x" by (auto simp: g' map_simps split: if_splits)
      from inv(4) [OF k(2)] k(1) m show ?thesis
        by (cases "nic_network_id x = nic_network_id n"; cases "nic_ip x = nic_ip n")
           (auto simp: nic_ok_def g' map_simps)
    qed
    show "used_ok g' x w" if "map_of (used_ips g') x = Some w" for x w
    proof (cases "x = nic_network_id n")
      case True
      with that m have "w = bt_remove (nic_ip n) m" by (simp add: g' map_simps)
      with m_ok True Some bt.size_del_le [of m "nic_ip n"] show ?thesis
        by (force simp: used_ok_def g' map_simps split: if_splits)
    next
      case False
      with that inv(3) have "used_ok g x w" by (simp add: g' map_simps)
      with False Some show ?thesis by (force simp: used_ok_def g' map_simps)
    qed
  qed (use inv(2,5,6) in \<open>auto simp: g' network_ok_def lb_ok_def\<close>)
qed (use assms in \<open>simp add: ns_detach_nic_def\<close>)

subsection \<open>Runs\<close>

text \<open>
  The state-changing calls. A network is created from the text of a block, as the host does it
  (\<^verbatim>\<open>Cidr4::parse\<close> is the only constructor used outside this file).
\<close>

datatype net_cmd =
    NCreateNetwork string string string
  | NDeleteNetwork network_id
  | NAttach network_id u32 "u32 option"
  | NDetach nic_id
  | NCreateSg string string "security_rule list"
  | NDeleteSg sg_id
  | NCreateLb string string network_id u32 u16 lb_algo "lb_backend list"
  | NDeleteLb lb_id

fun net_exec :: "mem_nets \<Rightarrow> net_cmd \<Rightarrow> mem_nets" where
  "net_exec g (NCreateNetwork owner name cidr) =
     (case cidr_parse cidr of Err _ \<Rightarrow> g | Ok c \<Rightarrow> fst (ns_create_network g owner name c))"
| "net_exec g (NDeleteNetwork nid) = fst (ns_delete_network g nid)"
| "net_exec g (NAttach nid vm ip) = fst (ns_attach_nic g nid vm ip)"
| "net_exec g (NDetach kid) = fst (ns_detach_nic g kid)"
| "net_exec g (NCreateSg owner name rules) = fst (ns_create_security_group g owner name rules)"
| "net_exec g (NDeleteSg sid) = fst (ns_delete_security_group g sid)"
| "net_exec g (NCreateLb owner name nid vip port algo backends) =
     fst (ns_create_load_balancer g owner name nid vip port algo backends)"
| "net_exec g (NDeleteLb lid) = fst (ns_delete_load_balancer g lid)"

definition net_run :: "mem_nets \<Rightarrow> net_cmd list \<Rightarrow> mem_nets" where
  "net_run g cmds = foldl net_exec g cmds"

definition net_counters_le :: "mem_nets \<Rightarrow> nat \<Rightarrow> bool" where
  "net_counters_le g k \<longleftrightarrow> unat (next_net g) \<le> k \<and>
     (\<forall>nid c. map_of (next_nic g) nid = Some c \<longrightarrow> unat c \<le> k)"

lemmas net_op_defs = ns_create_network_def ns_delete_network_def ns_attach_nic_def ns_detach_nic_def
  ns_create_security_group_def ns_delete_security_group_def ns_create_load_balancer_def
  ns_delete_load_balancer_def Let_def

lemma net_exec_counters: "net_counters_le g k \<Longrightarrow> net_counters_le (net_exec g c) (Suc k)"
  by (cases c) (auto simp: net_counters_le_def net_op_defs map_simps unat_next unat_next0 le_SucI
      split: result.splits option.splits if_splits)

lemma net_exec_inv:
  assumes "net_inv g" "net_counters_le g k" "k + 1 < 2 ^ 32"
  shows "net_inv (net_exec g c)"
proof -
  have "next_net g \<noteq> - 1" using assms(2,3) not_max [of "next_net g" k] by (simp add: net_counters_le_def)
  moreover have "\<And>nid x. map_of (next_nic g) nid = Some x \<Longrightarrow> x \<noteq> - 1"
    using assms(2,3) not_max [of _ k, where 'l = 32] by (simp add: net_counters_le_def)
  ultimately show ?thesis
    using assms(1)
    by (cases c) (simp_all add: ns_create_network_inv ns_delete_network_inv ns_attach_nic_inv ns_detach_nic_inv
        ns_sg_inv ns_lb_inv cidr_parse_wf split: result.split)
qed

lemma net_run_inv:
  assumes "net_inv g" "net_counters_le g k" "k + length cs < 2 ^ 32"
  shows "net_inv (net_run g cs)"
  using assms
proof (induction cs arbitrary: g k)
  case (Cons c cs)
  then have "net_inv (net_exec g c)" "net_counters_le (net_exec g c) (Suc k)"
    using net_exec_inv [of g k c] net_exec_counters by simp_all
  from Cons.IH [OF this] Cons.prems(3) show ?case by (simp add: net_run_def)
qed (simp add: net_run_def)

lemma net_run_new:
  assumes "length cs < 2 ^ 32"
  shows "net_inv (net_run mem_network_store_new cs)"
  by (rule net_run_inv [OF net_inv_new, of 0])
     (use assms in \<open>simp_all add: net_counters_le_def mem_network_store_new_def\<close>)

subsection \<open>Properties\<close>

lemma listed_nic:
  assumes "net_inv g"
  shows "n \<in> set (ns_list_nics g) \<longleftrightarrow> map_of (nets_nics g) (nic_ident n) = Some n"
proof -
  have wf: "bt_wf (nets_nics g)" using net_invD(1) [OF assms] by (simp add: nets_wf_def)
  show ?thesis
    using net_invD(4) [OF assms] by (auto simp: ns_list_nics_def bt.value_iff [OF wf] nic_ok_def)
qed

lemma nic_ip_unique:
  assumes "net_inv g" "n \<in> set (ns_list_nics g)" "m \<in> set (ns_list_nics g)"
    and "nic_network_id n = nic_network_id m" "nic_ip n = nic_ip m"
  shows "n = m"
proof -
  have "nic_ok g (nic_ident n) n" "nic_ok g (nic_ident m) m"
    using assms(1-3) net_invD(4) by (auto simp: listed_nic)
  then have "nic_ident n = nic_ident m" using assms(4,5) by (auto simp: nic_ok_def)
  with assms(1-3) show ?thesis by (simp add: listed_nic)
qed

lemma distinct_nics: "net_inv g \<Longrightarrow> distinct (ns_list_nics g)"
proof -
  assume inv: "net_inv g"
  have wf: "bt_wf (nets_nics g)" using net_invD(1) [OF inv] by (simp add: nets_wf_def)
  have "fst e = nic_ident (snd e)" if "e \<in> set (nets_nics g)" for e
  proof -
    obtain k n where e: "e = (k, n)" by (cases e)
    with that have "map_of (nets_nics g) k = Some n" by (simp add: bt.entry_iff [OF wf])
    from net_invD(4) [OF inv this] e show ?thesis by (simp add: nic_ok_def)
  qed
  then have "map fst (nets_nics g) = map nic_ident (map snd (nets_nics g))" by simp
  with bt_wf_distinct [OF wf] have "distinct (map nic_ident (map snd (nets_nics g)))" by (simp only:)
  then show ?thesis unfolding ns_list_nics_def map_values_def by (simp only: distinct_map)
qed

lemma nics_of_network_bounded:
  assumes "net_inv g"
  shows "length (filter (\<lambda>n. nic_network_id n = nid) (ns_list_nics g)) \<le> MAX_NICS_PER_NETWORK"
proof (cases "map_of (used_ips g) nid")
  case None
  then have "nic_network_id n \<noteq> nid" if "n \<in> set (ns_list_nics g)" for n
    using that assms net_invD(4) [OF assms, of "nic_ident n" n] by (auto simp: listed_nic nic_ok_def)
  then show ?thesis by (simp add: filter_empty_conv)
next
  case (Some m)
  let ?ns = "filter (\<lambda>n. nic_network_id n = nid) (ns_list_nics g)"
  have "distinct (map nic_ip ?ns)"
    using distinct_nics [OF assms] nic_ip_unique [OF assms] by (auto simp: distinct_map inj_on_def)
  then have "length ?ns = card (set (map nic_ip ?ns))" by (metis distinct_card length_map)
  also have "set (map nic_ip ?ns) \<subseteq> dom (map_of m)"
    using net_invD(4) [OF assms] Some by (force simp: listed_nic [OF assms] nic_ok_def)
  then have "card (set (map nic_ip ?ns)) \<le> length m"
    using net_invD(3) [OF assms Some] by (simp add: card_mono finite_dom_map_of bt.size_dom used_ok_def)
  finally show ?thesis using net_invD(3) [OF assms Some] by (simp add: used_ok_def)
qed

text \<open>
  C6. Addresses are never shared. After any sequence of calls, two listed NICs of one network with
  the same address are the same NIC, every NIC's network exists and its block contains the
  address, and no network has more than \<^verbatim>\<open>MAX_NICS_PER_NETWORK\<close> NICs. (The NIC counter is
  32-bit and saturates, so the run is shorter than its range.)
\<close>

theorem nic_addresses_unique:
  assumes "length cmds < 2 ^ 32"
  defines "g \<equiv> net_run mem_network_store_new cmds"
  shows "(\<forall>n \<in> set (ns_list_nics g). \<forall>m \<in> set (ns_list_nics g).
      nic_network_id n = nic_network_id m \<and> nic_ip n = nic_ip m \<longrightarrow> n = m) \<and>
    (\<forall>n \<in> set (ns_list_nics g). \<exists>net. ns_get_network g (nic_network_id n) = Some net \<and>
      cidr_contains (net_cidr net) (nic_ip n)) \<and>
    (\<forall>nid. length (filter (\<lambda>n. nic_network_id n = nid) (ns_list_nics g)) \<le> MAX_NICS_PER_NETWORK)"
proof -
  have inv: "net_inv g" using net_run_new [OF assms(1)] by (simp add: g_def)
  have "\<exists>net. ns_get_network g (nic_network_id n) = Some net \<and> cidr_contains (net_cidr net) (nic_ip n)"
    if "n \<in> set (ns_list_nics g)" for n
    using that net_invD(4) [OF inv, of "nic_ident n" n] by (auto simp: listed_nic [OF inv] nic_ok_def ns_get_network_def)
  then show ?thesis using nic_ip_unique [OF inv] nics_of_network_bounded [OF inv] by blast
qed

theorem nic_addresses_unique_witness:
  "length (filter (\<lambda>n. nic_network_id n = ''n/n1'') (ns_list_nics (net_run mem_network_store_new
     [NCreateNetwork ''n'' ''a'' ''10.0.0.0/24'', NAttach ''n/n1'' 1 None, NAttach ''n/n1'' 2 (Some 0x0A000001)])))
   \<le> MAX_NICS_PER_NETWORK"
proof -
  define cmds where "cmds = [NCreateNetwork ''n'' ''a'' ''10.0.0.0/24'', NAttach ''n/n1'' 1 None,
    NAttach ''n/n1'' 2 (Some 0x0A000001)]"
  have "length cmds < 2 ^ 32" by (simp add: cmds_def)
  from nic_addresses_unique [OF this] show ?thesis by (simp add: cmds_def)
qed

lemma lb_pick_bound:
  "(lb_pick lb tick counts = None \<longleftrightarrow> lb_backends lb = []) \<and>
   (lb_pick lb tick counts = Some i \<longrightarrow> i < length (lb_backends lb))"
  using least_conn_loop_least [of "length (lb_backends lb)" counts]
  by (auto simp: lb_pick_def least_index_def split: lb_algo.splits)

text \<open>
  Load balancers point into existing networks. After any sequence of calls, every listed
  balancer belongs to a network that exists, its virtual address and all its backends (at most
  \<^verbatim>\<open>MAX_BACKENDS_PER_LB\<close>) lie in that network's block, and dispatch over its backends never
  indexes outside them: it picks nothing if and only if there is no backend.
\<close>

lemma load_balancers_inside:
  assumes "length cmds < 2 ^ 32" "lb \<in> set (ns_list_load_balancers (net_run mem_network_store_new cmds))"
  shows "(\<exists>net. ns_get_network (net_run mem_network_store_new cmds) (lb_network_id lb) = Some net \<and>
      cidr_contains (net_cidr net) (lb_vip lb) \<and>
      (\<forall>b \<in> set (lb_backends lb). cidr_contains (net_cidr net) (be_ip b))) \<and>
    length (lb_backends lb) \<le> MAX_BACKENDS_PER_LB \<and>
    (lb_pick lb tick counts = None \<longleftrightarrow> lb_backends lb = []) \<and>
    (lb_pick lb tick counts = Some i \<longrightarrow> i < length (lb_backends lb))"
proof -
  have inv: "net_inv (net_run mem_network_store_new cmds)" using net_run_new [OF assms(1)] .
  then have "bt_wf (nets_lbs (net_run mem_network_store_new cmds))" using net_invD(1) by (simp add: nets_wf_def)
  from bt.value_iff [OF this] assms(2) net_invD(6) [OF inv] lb_pick_bound show ?thesis
    by (auto simp: ns_list_load_balancers_def lb_ok_def ns_get_network_def)
qed

text \<open>
  Least-connections dispatch is exact: for a balancer with that algorithm and at least one
  backend, the picked index is the first one whose connection count (zero where none was
  supplied) is minimal, even when every count is the largest 32-bit value. Round-robin walks the
  backends cyclically with the tick.
\<close>

lemma lb_pick_correct:
  assumes "lb_backends lb \<noteq> []"
  shows "(lb_algorithm lb = LeastConn \<longrightarrow> (\<exists>i. lb_pick lb tick counts = Some i \<and>
      i < length (lb_backends lb) \<and>
      (\<forall>j < length (lb_backends lb). conn_count counts i \<le> conn_count counts j) \<and>
      (\<forall>j < i. conn_count counts i < conn_count counts j))) \<and>
    (lb_algorithm lb = RoundRobin \<longrightarrow>
      lb_pick lb tick counts = Some (unat tick mod length (lb_backends lb)))"
  using assms least_conn_loop_least [of "length (lb_backends lb)" counts]
  by (auto simp: lb_pick_def least_index_def)

text \<open>
  Blocks round-trip through their text, and the arithmetic on hosts never leaves the block: for
  every block a parse can produce, printing and parsing gives the block back, and the n-th host
  is the base plus n without wrap-around, inside the block, strictly between the network and the
  broadcast address; there are \<open>2 ^ (32 - prefix) - 2\<close> of them.
\<close>

lemma cidr_hosts_roundtrip:
  assumes "cidr_parse s = Ok c"
  shows "cidr_parse (cidr_display c) = Ok c \<and>
    unat (cidr_capacity c) = 2 ^ (32 - unat (cidr_prefix_len c)) - 2 \<and>
    (cidr_nth_host c n = None \<longleftrightarrow> n = 0 \<or> cidr_capacity c < n) \<and>
    (cidr_nth_host c n = Some a \<longrightarrow> cidr_contains c a \<and> unat a = unat (cidr_base c) + unat n \<and>
       cidr_base c < a \<and> a < cidr_broadcast c)"
proof -
  have wf: "cidr_wf c" using cidr_parse_wf [OF assms] .
  have "cidr_parse (cidr_display c) = Ok c"
    using wf split_once_append [OF show_ipv4_no_slash, of "cidr_base c" "show_word (cidr_prefix_len c)"]
    by (auto simp: cidr_parse_def cidr_display_def str_simps cidr_wf_def not_le)
  moreover have "cidr_contains c a \<and> unat a = unat (cidr_base c) + unat n \<and>
       cidr_base c < a \<and> a < cidr_broadcast c" if "cidr_nth_host c n = Some a"
    using nth_host_Some [OF wf that] by (auto simp: word_less_nat_alt unat_broadcast [OF wf])
  ultimately show ?thesis
    using unat_capacity [OF wf] by (auto simp: host_bits_def cidr_nth_host_def)
qed

text \<open>
  A network is deleted only when no NIC is left on it: in every reachable state the deletion
  succeeds if and only if no listed NIC is on that network; then exactly that network and the
  balancers on it are gone; a refusal leaves the state as it was.
\<close>

lemma delete_network_guarded:
  assumes "length cmds < 2 ^ 32"
  defines "g \<equiv> net_run mem_network_store_new cmds"
  assumes "ns_delete_network g nid = (g', r)"
  shows "(r = Ok () \<longleftrightarrow> (\<forall>n \<in> set (ns_list_nics g). nic_network_id n \<noteq> nid)) \<and>
    (r = Ok () \<longrightarrow> (\<forall>x. ns_get_network g' x = (if x = nid then None else ns_get_network g x)) \<and>
       set (ns_list_load_balancers g') = {lb \<in> set (ns_list_load_balancers g). lb_network_id lb \<noteq> nid} \<and>
       ns_list_nics g' = ns_list_nics g) \<and>
    (r \<noteq> Ok () \<longrightarrow> g' = g)"
proof -
  have inv: "net_inv g" using net_run_new [OF assms(1)] by (simp add: g_def)
  have "used_of g nid \<noteq> [] \<longleftrightarrow> (\<exists>n \<in> set (ns_list_nics g). nic_network_id n = nid)" (is "?l \<longleftrightarrow> ?r")
  proof
    assume ?l
    then obtain m where "map_of (used_ips g) nid = Some m" "m \<noteq> []" by (auto split: option.splits)
    then obtain m e where m: "map_of (used_ips g) nid = Some m" "e \<in> set m" using hd_in_set by blast
    have ok: "used_ok g nid m" using net_invD(3) [OF inv m(1)] .
    then have "map_of m (fst e) = Some (snd e)" using m(2) by (simp add: used_ok_def flip: bt.entry_iff)
    with ok obtain n where "map_of (nets_nics g) (snd e) = Some n" "nic_network_id n = nid" by (auto simp: used_ok_def)
    with net_invD(4) [OF inv, of "snd e" n] show ?r by (auto simp: listed_nic [OF inv] nic_ok_def intro!: bexI [of _ n])
  next
    assume ?r
    then obtain n where "map_of (nets_nics g) (nic_ident n) = Some n" "nic_network_id n = nid"
      by (auto simp: listed_nic [OF inv])
    with net_invD(4) [OF inv, of "nic_ident n" n] show ?l by (auto simp: nic_ok_def)
  qed
  moreover have "bt_wf (nets_lbs g)" using net_invD(1) [OF inv] by (simp add: nets_wf_def)
  ultimately show ?thesis using assms(3)
    by (auto simp: ns_delete_network_def ns_get_network_def ns_list_nics_def ns_list_load_balancers_def map_simps
        bt_retain_def map_values_def split: option.splits if_splits)
qed

lemmas net_eval = net_op_defs net_run_def cidr_parse_def parse_ipv4_def parse_octet_def parse_u8_def parse_uint_def
  cidr_mask_def mask_eq_exp_minus_1 validate_net_name_def NET_MAX_NAME_def mem_network_store_new_def
  show_word_def show_nat_1 str_simps saturating_add_def is_digit_char_def digit_val_def

end
