(* ===== verification/Proto.thy ===== *)
theory Proto
  imports Volumes Networks
begin

text \<open>
  The data that travels between nodes, \<^verbatim>\<open>celmesh/src/proto.rs\<close> with the rows of
  \<^verbatim>\<open>membership.rs\<close> and \<^verbatim>\<open>federation.rs\<close>: node and VM rows, the 28 VM operations and their
  replies, the payloads and the envelope. The JSON codec is a parameter of \<open>envelope_decode\<close>,
  whose own checks (size, magic, version) are modelled.
\<close>

subsection \<open>Rows\<close>

type_synonym node_id = string

datatype node_status = NodeAlive | NodeSuspect | NodeDead | NodeLeft

record node_info =
  ni_id :: node_id
  ni_addr :: string
  ni_epoch :: u64
  ni_hlc :: u64
  ni_status :: node_status

datatype restart_policy = RestartNever | RestartAlways

record remote_vm =
  rv_owner :: node_id
  rv_vm_id :: u32
  rv_label :: string
  rv_state :: string
  rv_last_exit :: "u32 option"
  rv_epoch :: u64
  rv_hlc :: u64
  rv_owner_alive :: bool
  rv_restart_policy :: restart_policy
  rv_volumes :: "volume_attachment list"
  rv_image_path :: "string option"
  rv_cpu_count :: "u32 option"
  rv_memory_mib :: "u64 option"
  rv_boot_blob_crc32c :: "u32 option"

definition remote_vm_path :: "remote_vm \<Rightarrow> string" where
  "remote_vm_path r = ''/cluster/'' @ rv_owner r @ ''/vms/'' @ show_word (rv_vm_id r)"

definition remote_vm_key :: "remote_vm \<Rightarrow> node_id \<times> u32" where
  "remote_vm_key r = (rv_owner r, rv_vm_id r)"

subsection \<open>Operations and replies\<close>

datatype vm_op =
    VmCreate string restart_policy "string option" "u32 option" "u64 option" "u32 option"
  | VmStart u32
  | VmStop u32
  | VmDelete u32
  | VmList
  | CreateVolume string u64
  | DeleteVolume volume_id
  | ListVolumes
  | AttachVolume u32 volume_id string
  | DetachVolume u32 volume_id
  | ReadVolume volume_id u64 u64
  | WriteVolume volume_id u64 bytes
  | CreateSnapshot volume_id string
  | ListSnapshots "volume_id option"
  | DeleteSnapshot snapshot_id
  | RestoreSnapshot snapshot_id
  | CreateNetwork string string
  | DeleteNetwork network_id
  | ListNetworks
  | AttachNic network_id u32 "string option"
  | DetachNic nic_id
  | ListNics
  | CreateSecurityGroup string "security_rule list"
  | DeleteSecurityGroup sg_id
  | ListSecurityGroups
  | CreateLoadBalancer string network_id string u16 lb_algo "lb_backend list"
  | DeleteLoadBalancer lb_id
  | ListLoadBalancers

datatype vm_op_reply =
    Created u32
  | StateIs u32 string
  | Deleted u32
  | Listed "remote_vm list"
  | VolumeCreated volume_meta
  | VolumeDeleted volume_id
  | VolumesListed "volume_meta list"
  | Attachments u32 "volume_attachment list"
  | VolumeData volume_id bytes
  | VolumeWritten volume_id u64
  | SnapshotCreated snapshot_meta
  | SnapshotsListed "snapshot_meta list"
  | SnapshotDeleted snapshot_id
  | SnapshotRestored snapshot_id
  | NetworkCreated virtual_network
  | NetworkDeleted network_id
  | NetworksListed "virtual_network list"
  | NicAttached nic
  | NicDetached nic_id
  | NicsListed "nic list"
  | SecurityGroupCreated security_group
  | SecurityGroupDeleted sg_id
  | SecurityGroupsListed "security_group list"
  | LoadBalancerCreated load_balancer
  | LoadBalancerDeleted lb_id
  | LoadBalancersListed "load_balancer list"

text \<open>\<^verbatim>\<open>HostResult\<close> and the wire form \<^verbatim>\<open>VmOpResult\<close>: a reply or an error string.\<close>

type_synonym host_result = "(string, vm_op_reply) result"

subsection \<open>Frames\<close>

datatype payload =
    Hello node_info
  | Sync "node_info list" "remote_vm list"
  | Goodbye
  | Request u64 string vm_op
  | Response u64 host_result

record envelope =
  env_magic :: string
  env_version :: u32
  env_from :: string
  env_cluster :: string
  env_hlc :: u64
  env_payload :: payload

definition PROTO_VERSION :: u32 where "PROTO_VERSION = 1"

definition PROTO_MAGIC :: string where "PROTO_MAGIC = ''celmesh/1''"

definition MAX_FRAME_BYTES :: nat where "MAX_FRAME_BYTES = 64 * 1024"

datatype decode_error = TooLarge | Malformed | BadMagic | VersionMismatch

definition envelope_decode ::
  "(bytes \<Rightarrow> envelope option) \<Rightarrow> bytes \<Rightarrow> (decode_error, envelope) result" where
  "envelope_decode from_slice bs =
     (if MAX_FRAME_BYTES < length bs then Err TooLarge
      else (case from_slice bs of
              None \<Rightarrow> Err Malformed
            | Some env \<Rightarrow>
                if env_magic env \<noteq> PROTO_MAGIC then Err BadMagic
                else if env_version env \<noteq> PROTO_VERSION then Err VersionMismatch
                else Ok env))"

end
