(* ===== verification/Mesh_Caps.thy ===== *)
theory Mesh_Caps
  imports Proto
begin

text \<open>
  The capability set of a host, \<^verbatim>\<open>celmesh/src/capabilities.rs\<close>: a 32-bit set of thirteen bits,
  the one bit each operation requires, and the operation's tag.
\<close>

type_synonym capabilities = u32

definition CAP_NONE :: capabilities where "CAP_NONE = 0"
definition VM_LIFECYCLE_READ :: capabilities where "VM_LIFECYCLE_READ = push_bit 0 1"
definition VM_LIFECYCLE_WRITE :: capabilities where "VM_LIFECYCLE_WRITE = push_bit 1 1"
definition VOLUME_READ :: capabilities where "VOLUME_READ = push_bit 2 1"
definition VOLUME_WRITE :: capabilities where "VOLUME_WRITE = push_bit 3 1"
definition VOLUME_ATTACH :: capabilities where "VOLUME_ATTACH = push_bit 4 1"
definition SNAPSHOT_READ :: capabilities where "SNAPSHOT_READ = push_bit 5 1"
definition SNAPSHOT_WRITE :: capabilities where "SNAPSHOT_WRITE = push_bit 6 1"
definition NETWORK_READ :: capabilities where "NETWORK_READ = push_bit 7 1"
definition NETWORK_WRITE :: capabilities where "NETWORK_WRITE = push_bit 8 1"
definition SECGROUP_READ :: capabilities where "SECGROUP_READ = push_bit 9 1"
definition SECGROUP_WRITE :: capabilities where "SECGROUP_WRITE = push_bit 10 1"
definition LB_READ :: capabilities where "LB_READ = push_bit 11 1"
definition LB_WRITE :: capabilities where "LB_WRITE = push_bit 12 1"

definition CAP_ALL :: capabilities where
  "CAP_ALL = VM_LIFECYCLE_READ OR VM_LIFECYCLE_WRITE OR VOLUME_READ OR VOLUME_WRITE OR VOLUME_ATTACH OR
     SNAPSHOT_READ OR SNAPSHOT_WRITE OR NETWORK_READ OR NETWORK_WRITE OR SECGROUP_READ OR SECGROUP_WRITE OR
     LB_READ OR LB_WRITE"

definition cap_contains :: "capabilities \<Rightarrow> capabilities \<Rightarrow> bool" where
  "cap_contains s c \<longleftrightarrow> s AND c = c"

definition cap_grant :: "capabilities \<Rightarrow> capabilities \<Rightarrow> capabilities" where
  "cap_grant s c = s OR c"

definition cap_revoke :: "capabilities \<Rightarrow> capabilities \<Rightarrow> capabilities" where
  "cap_revoke s c = s AND NOT c"

fun cap_required :: "vm_op \<Rightarrow> capabilities" where
  "cap_required (VmCreate _ _ _ _ _ _) = VM_LIFECYCLE_WRITE"
| "cap_required (VmStart _) = VM_LIFECYCLE_WRITE"
| "cap_required (VmStop _) = VM_LIFECYCLE_WRITE"
| "cap_required (VmDelete _) = VM_LIFECYCLE_WRITE"
| "cap_required VmList = VM_LIFECYCLE_READ"
| "cap_required (CreateVolume _ _) = VOLUME_WRITE"
| "cap_required (DeleteVolume _) = VOLUME_WRITE"
| "cap_required (WriteVolume _ _ _) = VOLUME_WRITE"
| "cap_required ListVolumes = VOLUME_READ"
| "cap_required (ReadVolume _ _ _) = VOLUME_READ"
| "cap_required (AttachVolume _ _ _) = VOLUME_ATTACH"
| "cap_required (DetachVolume _ _) = VOLUME_ATTACH"
| "cap_required (CreateSnapshot _ _) = SNAPSHOT_WRITE"
| "cap_required (DeleteSnapshot _) = SNAPSHOT_WRITE"
| "cap_required (RestoreSnapshot _) = SNAPSHOT_WRITE"
| "cap_required (ListSnapshots _) = SNAPSHOT_READ"
| "cap_required (CreateNetwork _ _) = NETWORK_WRITE"
| "cap_required (DeleteNetwork _) = NETWORK_WRITE"
| "cap_required (AttachNic _ _ _) = NETWORK_WRITE"
| "cap_required (DetachNic _) = NETWORK_WRITE"
| "cap_required ListNetworks = NETWORK_READ"
| "cap_required ListNics = NETWORK_READ"
| "cap_required (CreateSecurityGroup _ _) = SECGROUP_WRITE"
| "cap_required (DeleteSecurityGroup _) = SECGROUP_WRITE"
| "cap_required ListSecurityGroups = SECGROUP_READ"
| "cap_required (CreateLoadBalancer _ _ _ _ _ _) = LB_WRITE"
| "cap_required (DeleteLoadBalancer _) = LB_WRITE"
| "cap_required ListLoadBalancers = LB_READ"

fun op_tag :: "vm_op \<Rightarrow> string" where
  "op_tag (VmCreate _ _ _ _ _ _) = ''vm.create''"
| "op_tag (VmStart _) = ''vm.start''"
| "op_tag (VmStop _) = ''vm.stop''"
| "op_tag (VmDelete _) = ''vm.delete''"
| "op_tag VmList = ''vm.list''"
| "op_tag (CreateVolume _ _) = ''vol.create''"
| "op_tag (DeleteVolume _) = ''vol.delete''"
| "op_tag ListVolumes = ''vol.list''"
| "op_tag (ReadVolume _ _ _) = ''vol.read''"
| "op_tag (WriteVolume _ _ _) = ''vol.write''"
| "op_tag (AttachVolume _ _ _) = ''vol.attach''"
| "op_tag (DetachVolume _ _) = ''vol.detach''"
| "op_tag (CreateSnapshot _ _) = ''snap.create''"
| "op_tag (ListSnapshots _) = ''snap.list''"
| "op_tag (DeleteSnapshot _) = ''snap.delete''"
| "op_tag (RestoreSnapshot _) = ''snap.restore''"
| "op_tag (CreateNetwork _ _) = ''net.create''"
| "op_tag (DeleteNetwork _) = ''net.delete''"
| "op_tag ListNetworks = ''net.list''"
| "op_tag (AttachNic _ _ _) = ''net.nic.attach''"
| "op_tag (DetachNic _) = ''net.nic.detach''"
| "op_tag ListNics = ''net.nic.list''"
| "op_tag (CreateSecurityGroup _ _) = ''sg.create''"
| "op_tag (DeleteSecurityGroup _) = ''sg.delete''"
| "op_tag ListSecurityGroups = ''sg.list''"
| "op_tag (CreateLoadBalancer _ _ _ _ _ _) = ''lb.create''"
| "op_tag (DeleteLoadBalancer _) = ''lb.delete''"
| "op_tag ListLoadBalancers = ''lb.list''"

lemmas cap_bit_defs = CAP_NONE_def VM_LIFECYCLE_READ_def VM_LIFECYCLE_WRITE_def VOLUME_READ_def VOLUME_WRITE_def
  VOLUME_ATTACH_def SNAPSHOT_READ_def SNAPSHOT_WRITE_def NETWORK_READ_def NETWORK_WRITE_def SECGROUP_READ_def
  SECGROUP_WRITE_def LB_READ_def LB_WRITE_def

subsection \<open>The set laws\<close>

lemma cap_contains_bits: "cap_contains s c \<longleftrightarrow> (\<forall>i. bit c i \<longrightarrow> bit s i)"
proof -
  have "bit c i \<Longrightarrow> i < 32" for i using bit_imp_le_length [of c i] by simp
  then show ?thesis by (auto simp: cap_contains_def bit_eq_iff bit_and_iff)
qed

lemma cap_contains_refl [simp]: "cap_contains s s"
  by (simp add: cap_contains_bits)

lemma cap_contains_trans: "cap_contains a b \<Longrightarrow> cap_contains b c \<Longrightarrow> cap_contains a c"
  by (auto simp: cap_contains_bits)

lemma cap_contains_none [simp]: "cap_contains s CAP_NONE"
  by (simp add: cap_contains_bits CAP_NONE_def)

text \<open>Every operation requires exactly one bit.\<close>

lemma cap_required_single: "\<exists>i < 32. cap_required op = 2 ^ i"
proof -
  let ?is = "[0, 1, 2, 3, 4, 5, 6, 7, 8, 9, 10, 11, 12] :: nat list"
  have "cap_required op \<in> set (map (\<lambda>i. 2 ^ i) ?is)"
    by (cases op) (simp_all add: cap_bit_defs)
  then have "\<exists>i \<in> set ?is. cap_required op = 2 ^ i" unfolding set_map by blast
  moreover have "\<forall>i \<in> set ?is. i < 32" by simp
  ultimately show ?thesis by blast
qed

lemma contains_required: "cap_contains s (cap_required op) \<longleftrightarrow> s AND cap_required op \<noteq> 0"
proof -
  obtain i where i: "i < 32" "cap_required op = 2 ^ i" using cap_required_single by blast
  have single: "bit (cap_required op) j \<longleftrightarrow> j = i" for j using i by (auto simp: bit_exp_iff)
  have "s AND cap_required op \<noteq> 0 \<longleftrightarrow> (\<exists>j. bit (s AND cap_required op) j)"
    by (metis bit_0_eq bit_eqI bot_apply bot_bool_def)
  then show ?thesis using single by (simp add: cap_contains_bits bit_and_iff)
qed

end
