(* ===== verification/Tenant_Caps.thy ===== *)
theory Tenant_Caps
  imports Mesh_Caps
begin

text \<open>
  The tenancy layer's capability set, \<^verbatim>\<open>celtenancy/src/caps.rs\<close>: its own thirteen bits, the tag
  parser and printer, attenuation, and the projection onto the mesh's capability set.
\<close>

subsection \<open>Definitions\<close>

type_synonym tenant_caps = u32

definition TC_NONE :: tenant_caps where "TC_NONE = 0"
definition TC_VM_LIFECYCLE_READ :: tenant_caps where "TC_VM_LIFECYCLE_READ = push_bit 0 1"
definition TC_VM_LIFECYCLE_WRITE :: tenant_caps where "TC_VM_LIFECYCLE_WRITE = push_bit 1 1"
definition TC_VOLUME_READ :: tenant_caps where "TC_VOLUME_READ = push_bit 2 1"
definition TC_VOLUME_WRITE :: tenant_caps where "TC_VOLUME_WRITE = push_bit 3 1"
definition TC_VOLUME_ATTACH :: tenant_caps where "TC_VOLUME_ATTACH = push_bit 4 1"
definition TC_SNAPSHOT_READ :: tenant_caps where "TC_SNAPSHOT_READ = push_bit 5 1"
definition TC_SNAPSHOT_WRITE :: tenant_caps where "TC_SNAPSHOT_WRITE = push_bit 6 1"
definition TC_NETWORK_READ :: tenant_caps where "TC_NETWORK_READ = push_bit 7 1"
definition TC_NETWORK_WRITE :: tenant_caps where "TC_NETWORK_WRITE = push_bit 8 1"
definition TC_SECGROUP_READ :: tenant_caps where "TC_SECGROUP_READ = push_bit 9 1"
definition TC_SECGROUP_WRITE :: tenant_caps where "TC_SECGROUP_WRITE = push_bit 10 1"
definition TC_LB_READ :: tenant_caps where "TC_LB_READ = push_bit 11 1"
definition TC_LB_WRITE :: tenant_caps where "TC_LB_WRITE = push_bit 12 1"

definition TC_ALL :: tenant_caps where
  "TC_ALL = TC_VM_LIFECYCLE_READ OR TC_VM_LIFECYCLE_WRITE OR TC_VOLUME_READ OR TC_VOLUME_WRITE OR
     TC_VOLUME_ATTACH OR TC_SNAPSHOT_READ OR TC_SNAPSHOT_WRITE OR TC_NETWORK_READ OR TC_NETWORK_WRITE OR
     TC_SECGROUP_READ OR TC_SECGROUP_WRITE OR TC_LB_READ OR TC_LB_WRITE"

definition tc_from_bits_truncate :: "u32 \<Rightarrow> tenant_caps" where
  "tc_from_bits_truncate bits = bits AND TC_ALL"

definition tc_contains :: "tenant_caps \<Rightarrow> tenant_caps \<Rightarrow> bool" where
  "tc_contains s c \<longleftrightarrow> s AND c = c"

definition tc_grant :: "tenant_caps \<Rightarrow> tenant_caps \<Rightarrow> tenant_caps" where
  "tc_grant s c = s OR c"

definition tc_revoke :: "tenant_caps \<Rightarrow> tenant_caps \<Rightarrow> tenant_caps" where
  "tc_revoke s c = s AND NOT c"

text \<open>The thirteen bits with their tags, in bit order.\<close>

definition tc_entries :: "(tenant_caps \<times> string) list" where
  "tc_entries =
     [(TC_VM_LIFECYCLE_READ, ''vm.read''), (TC_VM_LIFECYCLE_WRITE, ''vm.write''),
      (TC_VOLUME_READ, ''vol.read''), (TC_VOLUME_WRITE, ''vol.write''), (TC_VOLUME_ATTACH, ''vol.attach''),
      (TC_SNAPSHOT_READ, ''snap.read''), (TC_SNAPSHOT_WRITE, ''snap.write''),
      (TC_NETWORK_READ, ''net.read''), (TC_NETWORK_WRITE, ''net.write''),
      (TC_SECGROUP_READ, ''sg.read''), (TC_SECGROUP_WRITE, ''sg.write''),
      (TC_LB_READ, ''lb.read''), (TC_LB_WRITE, ''lb.write'')]"

definition tag_bit :: "string \<Rightarrow> tenant_caps option" where
  "tag_bit tag =
     (if tag = ''none'' then Some TC_NONE
      else if tag = ''all'' then Some TC_ALL
      else if tag = ''vm.read'' then Some TC_VM_LIFECYCLE_READ
      else if tag = ''vm.write'' then Some TC_VM_LIFECYCLE_WRITE
      else if tag = ''vol.read'' then Some TC_VOLUME_READ
      else if tag = ''vol.write'' then Some TC_VOLUME_WRITE
      else if tag = ''vol.attach'' then Some TC_VOLUME_ATTACH
      else if tag = ''snap.read'' then Some TC_SNAPSHOT_READ
      else if tag = ''snap.write'' then Some TC_SNAPSHOT_WRITE
      else if tag = ''net.read'' then Some TC_NETWORK_READ
      else if tag = ''net.write'' then Some TC_NETWORK_WRITE
      else if tag = ''sg.read'' then Some TC_SECGROUP_READ
      else if tag = ''sg.write'' then Some TC_SECGROUP_WRITE
      else if tag = ''lb.read'' then Some TC_LB_READ
      else if tag = ''lb.write'' then Some TC_LB_WRITE
      else None)"

fun parse_tags_loop :: "tenant_caps \<Rightarrow> string list \<Rightarrow> tenant_caps cel_result" where
  "parse_tags_loop acc [] = Ok acc"
| "parse_tags_loop acc (raw # raws) =
     (let tag = str_trim raw
      in if tag = [] then parse_tags_loop acc raws
         else (case tag_bit (case strip_prefix ''tenant.'' tag of None \<Rightarrow> tag | Some t \<Rightarrow> t) of
                 None \<Rightarrow> Err (Invalid ''tenant cap tag'')
               | Some b \<Rightarrow> parse_tags_loop (tc_grant acc b) raws))"

definition parse_tags :: "string \<Rightarrow> tenant_caps cel_result" where
  "parse_tags s = parse_tags_loop TC_NONE (split_on (CHR '','') s)"

fun push_tags :: "tenant_caps \<Rightarrow> (tenant_caps \<times> string) list \<Rightarrow> string \<Rightarrow> string" where
  "push_tags caps [] out = out"
| "push_tags caps ((b, tag) # es) out =
     push_tags caps es
       (if tc_contains caps b then (if out \<noteq> [] then out @ '','' else out) @ tag else out)"

definition to_tags :: "tenant_caps \<Rightarrow> string" where
  "to_tags caps =
     (if caps = TC_NONE then ''none''
      else if caps = TC_ALL then ''all''
      else push_tags caps tc_entries [])"

text \<open>One \<^verbatim>\<open>if self.contains(..) { c |= .. }\<close> of the projection; the first statement is innermost.\<close>

definition grant_if :: "bool \<Rightarrow> capabilities \<Rightarrow> capabilities \<Rightarrow> capabilities" where
  "grant_if p b c = (if p then c OR b else c)"

definition to_mesh_capabilities :: "tenant_caps \<Rightarrow> capabilities" where
  "to_mesh_capabilities s =
     (grant_if (tc_contains s TC_LB_WRITE) LB_WRITE
     (grant_if (tc_contains s TC_LB_READ) LB_READ
     (grant_if (tc_contains s TC_SECGROUP_WRITE) SECGROUP_WRITE
     (grant_if (tc_contains s TC_SECGROUP_READ) SECGROUP_READ
     (grant_if (tc_contains s TC_NETWORK_WRITE) NETWORK_WRITE
     (grant_if (tc_contains s TC_NETWORK_READ) NETWORK_READ
     (grant_if (tc_contains s TC_SNAPSHOT_WRITE) SNAPSHOT_WRITE
     (grant_if (tc_contains s TC_SNAPSHOT_READ) SNAPSHOT_READ
     (grant_if (tc_contains s TC_VOLUME_ATTACH) VOLUME_ATTACH
     (grant_if (tc_contains s TC_VOLUME_WRITE) VOLUME_WRITE
     (grant_if (tc_contains s TC_VOLUME_READ) VOLUME_READ
     (grant_if (tc_contains s TC_VM_LIFECYCLE_WRITE) VM_LIFECYCLE_WRITE
     (grant_if (tc_contains s TC_VM_LIFECYCLE_READ) VM_LIFECYCLE_READ
        CAP_NONE)))))))))))))"

definition attenuate :: "tenant_caps \<Rightarrow> tenant_caps \<Rightarrow> tenant_caps cel_result" where
  "attenuate root requested =
     (if \<not> tc_contains root requested then Err (CapabilityDenied ''tenant.user.attenuate'')
      else Ok requested)"

subsection \<open>Set laws\<close>

lemmas tc_bit_defs = TC_NONE_def TC_VM_LIFECYCLE_READ_def TC_VM_LIFECYCLE_WRITE_def TC_VOLUME_READ_def
  TC_VOLUME_WRITE_def TC_VOLUME_ATTACH_def TC_SNAPSHOT_READ_def TC_SNAPSHOT_WRITE_def TC_NETWORK_READ_def
  TC_NETWORK_WRITE_def TC_SECGROUP_READ_def TC_SECGROUP_WRITE_def TC_LB_READ_def TC_LB_WRITE_def

lemma tc_contains_cap: "tc_contains = cap_contains"
  by (simp add: fun_eq_iff tc_contains_def cap_contains_def)

lemma tc_contains_refl [simp]: "tc_contains s s"
  by (simp add: tc_contains_cap)

lemma tc_contains_trans: "tc_contains a b \<Longrightarrow> tc_contains b c \<Longrightarrow> tc_contains a c"
  unfolding tc_contains_cap by (rule cap_contains_trans)

lemma tc_contains_and: "tc_contains a (a AND b)" "tc_contains b (a AND b)"
  by (simp_all add: tc_contains_def flip: and.assoc) (simp add: and.commute and.left_commute)

lemma tc_contains_truncate: "tc_contains a b \<Longrightarrow> tc_contains a (tc_from_bits_truncate b)"
  unfolding tc_from_bits_truncate_def by (rule tc_contains_trans [OF _ tc_contains_and(1)])

subsection \<open>Printing and parsing tags\<close>

lemma entry_tags:
  "list_all (\<lambda>(b, t). str_trim t = t \<and> t \<noteq> [] \<and> strip_prefix ''tenant.'' t = None \<and> tag_bit t = Some b \<and>
     CHR '','' \<notin> set t) tc_entries"
  by (simp add: tc_entries_def tag_bit_def strip_prefix_def str_trim_visible visible_def)

fun join_tags :: "string list \<Rightarrow> string" where
  "join_tags [] = []"
| "join_tags [t] = t"
| "join_tags (t # ts) = t @ '','' @ join_tags ts"

lemma join_tags_snoc: "ts \<noteq> [] \<Longrightarrow> join_tags (ts @ [t]) = join_tags ts @ '','' @ t"
  by (induction ts rule: join_tags.induct) auto

lemma join_tags_nonempty: "ts \<noteq> [] \<Longrightarrow> [] \<notin> set ts \<Longrightarrow> join_tags ts \<noteq> []"
  by (induction ts rule: join_tags.induct) auto

lemma push_tags_join:
  assumes "[] \<notin> snd ` set es" "[] \<notin> set ts"
  shows "push_tags caps es (join_tags ts) = join_tags (ts @ map snd (filter (\<lambda>e. tc_contains caps (fst e)) es))"
  using assms
proof (induction es arbitrary: ts)
  case (Cons e es)
  obtain b t where e: "e = (b, t)" by (cases e)
  show ?case
  proof (cases "tc_contains caps b")
    case True
    have "(if join_tags ts \<noteq> [] then join_tags ts @ '','' else join_tags ts) @ t = join_tags (ts @ [t])"
      using Cons.prems join_tags_nonempty [of ts] by (cases "ts = []") (auto simp: join_tags_snoc)
    then show ?thesis using Cons.IH [of "ts @ [t]"] Cons.prems True by (auto simp: e)
  next
    case False
    then show ?thesis using Cons by (auto simp: e)
  qed
qed simp

lemma split_join_tags:
  "ts \<noteq> [] \<Longrightarrow> (\<And>t. t \<in> set ts \<Longrightarrow> CHR '','' \<notin> set t) \<Longrightarrow> split_on (CHR '','') (join_tags ts) = ts"
  by (induction ts rule: join_tags.induct) (auto simp: split_on_notin split_on_append)

lemma parse_tags_loop_entries:
  assumes "list_all (\<lambda>(b, t). str_trim t = t \<and> t \<noteq> [] \<and> strip_prefix ''tenant.'' t = None \<and> tag_bit t = Some b \<and>
     CHR '','' \<notin> set t) es"
  shows "parse_tags_loop acc (map snd es) = Ok (fold (\<lambda>e a. a OR fst e) es acc)"
  using assms by (induction es arbitrary: acc) (auto simp: tc_grant_def)

lemma bit_fold_or: "bit (fold (\<lambda>e a. a OR fst e) es acc) i \<longleftrightarrow> bit acc i \<or> (\<exists>e \<in> set es. bit (fst e) i)"
  by (induction es arbitrary: acc) (auto simp: bit_or_iff)

lemma bit_TC_ALL: "bit TC_ALL i \<longleftrightarrow> (\<exists>e \<in> set tc_entries. bit (fst e) i)"
  by (auto simp: TC_ALL_def tc_entries_def bit_or_iff)

lemma entries_single: "list_all (\<lambda>e. \<exists>i < 32. fst e = 2 ^ i) tc_entries"
proof -
  have "map fst tc_entries = map (\<lambda>i. 2 ^ i) [0, 1, 2, 3, 4, 5, 6, 7, 8, 9, 10, 11, 12]"
    by (simp add: tc_entries_def tc_bit_defs)
  then have "fst ` set tc_entries = (\<lambda>i. 2 ^ i) ` set [0, 1, 2, 3, 4, 5, 6, 7, 8, 9, 10, 11, 12]"
    by (metis set_map)
  moreover have "\<forall>i \<in> set [0, 1, 2, 3, 4, 5, 6, 7, 8, 9, 10, 11, 12 :: nat]. i < 32" by simp
  ultimately show ?thesis unfolding list_all_iff by blast
qed

lemma contains_entry_bit:
  assumes "e \<in> set tc_entries" "bit (fst e) i"
  shows "tc_contains c (fst e) \<longleftrightarrow> bit c i"
proof -
  obtain j where "j < 32" "fst e = 2 ^ j" using entries_single assms(1) by (auto simp: list_all_iff)
  then have "bit (fst e) k \<longleftrightarrow> k = j" for k by (auto simp: bit_exp_iff)
  with assms(2) show ?thesis by (auto simp: tc_contains_cap cap_contains_bits)
qed

lemma granted_entries:
  assumes "tc_contains TC_ALL c"
  shows "fold (\<lambda>e a. a OR fst e) (filter (\<lambda>e. tc_contains c (fst e)) tc_entries) TC_NONE = c"
proof (rule bit_eqI)
  fix i
  have "bit (fold (\<lambda>e a. a OR fst e) (filter (\<lambda>e. tc_contains c (fst e)) tc_entries) TC_NONE) i \<longleftrightarrow>
      (\<exists>e \<in> set tc_entries. bit (fst e) i \<and> tc_contains c (fst e))"
    by (force simp: bit_fold_or TC_NONE_def)
  also have "\<dots> \<longleftrightarrow> bit TC_ALL i \<and> bit c i"
    using contains_entry_bit by (auto simp: bit_TC_ALL)
  also have "\<dots> \<longleftrightarrow> bit c i" using assms by (auto simp: tc_contains_cap cap_contains_bits)
  finally show "bit (fold (\<lambda>e a. a OR fst e) (filter (\<lambda>e. tc_contains c (fst e)) tc_entries) TC_NONE) i = bit c i" .
qed

lemma fold_filter_step:
  "fold (\<lambda>e a. a OR fst e) (filter P (e # es)) a = fold (\<lambda>e a. a OR fst e) (filter P es) (grant_if (P e) (fst e) a)"
  "fold (\<lambda>e a. a OR fst e) (filter P []) a = a"
  by (simp_all add: grant_if_def)

lemma mesh_bits:
  "CAP_NONE = TC_NONE" "VM_LIFECYCLE_READ = TC_VM_LIFECYCLE_READ" "VM_LIFECYCLE_WRITE = TC_VM_LIFECYCLE_WRITE"
  "VOLUME_READ = TC_VOLUME_READ" "VOLUME_WRITE = TC_VOLUME_WRITE" "VOLUME_ATTACH = TC_VOLUME_ATTACH"
  "SNAPSHOT_READ = TC_SNAPSHOT_READ" "SNAPSHOT_WRITE = TC_SNAPSHOT_WRITE" "NETWORK_READ = TC_NETWORK_READ"
  "NETWORK_WRITE = TC_NETWORK_WRITE" "SECGROUP_READ = TC_SECGROUP_READ" "SECGROUP_WRITE = TC_SECGROUP_WRITE"
  "LB_READ = TC_LB_READ" "LB_WRITE = TC_LB_WRITE"
  by (simp_all add: tc_bit_defs cap_bit_defs)

lemma to_mesh_fold:
  "to_mesh_capabilities c = fold (\<lambda>e a. a OR fst e) (filter (\<lambda>e. tc_contains c (fst e)) tc_entries) TC_NONE"
  by (simp only: to_mesh_capabilities_def tc_entries_def fold_filter_step fst_conv mesh_bits)

lemma parse_keywords: "parse_tags ''none'' = Ok TC_NONE" "parse_tags ''all'' = Ok TC_ALL"
  by (simp_all add: parse_tags_def str_trim_visible visible_def strip_prefix_def tag_bit_def
      tc_grant_def TC_NONE_def)

text \<open>
  Capability tags round-trip: every set the store can hold (no unknown bit) is printed as a tag
  list that parses back to it, and projecting it onto the mesh's capabilities keeps exactly its
  bits, so an operation the projected host admits is one whose bit the tenant was given.
\<close>

lemma tenant_caps_roundtrip:
  assumes "tc_contains TC_ALL c"
  shows "parse_tags (to_tags c) = Ok c \<and> to_mesh_capabilities c = c"
proof
  show "parse_tags (to_tags c) = Ok c"
  proof (cases "c = TC_NONE \<or> c = TC_ALL")
    case True
    then show ?thesis using parse_keywords by (auto simp: to_tags_def)
  next
    case False
    let ?es = "filter (\<lambda>e. tc_contains c (fst e)) tc_entries"
    have tags: "list_all (\<lambda>(b, t). str_trim t = t \<and> t \<noteq> [] \<and> strip_prefix ''tenant.'' t = None \<and>
      tag_bit t = Some b \<and> CHR '','' \<notin> set t) ?es" using entry_tags by (auto simp: list_all_iff)
    have "?es \<noteq> []" using granted_entries [OF assms] False by force
    then have "split_on (CHR '','') (join_tags (map snd ?es)) = map snd ?es"
      using tags by (intro split_join_tags) (auto simp: list_all_iff)
    moreover have "[] \<notin> snd ` set tc_entries" by (simp add: tc_entries_def)
    then have "to_tags c = join_tags (map snd ?es)"
      using False push_tags_join [of tc_entries "[]" c] by (simp add: to_tags_def)
    ultimately show ?thesis
      using parse_tags_loop_entries [OF tags] granted_entries [OF assms] by (simp add: parse_tags_def)
  qed
  show "to_mesh_capabilities c = c"
    by (simp only: to_mesh_fold granted_entries [OF assms])
qed

end
