(* ===== verification/Tenants.thy ===== *)
theory Tenants
  imports Tenant_Caps
begin

text \<open>
  Quotas, names, tenants, users and sessions: \<^verbatim>\<open>celtenancy/src/quota.rs\<close>, \<^verbatim>\<open>namespace.rs\<close>,
  \<^verbatim>\<open>tenant.rs\<close>, \<^verbatim>\<open>user.rs\<close> and the session part of \<^verbatim>\<open>auth.rs\<close>. Password hashing (\<^verbatim>\<open>argon2\<close>),
  SHA-256 and the random generator are code of other crates: they are arguments of the functions
  that call them.
\<close>

subsection \<open>Quotas\<close>

record tenant_quotas =
  max_vcpus :: u32
  max_memory_mib :: u64
  max_storage_bytes :: u64
  max_network_mbps :: u32
  max_iops :: u32

definition quotas_unlimited :: tenant_quotas where
  "quotas_unlimited = \<lparr>max_vcpus = - 1, max_memory_mib = - 1, max_storage_bytes = - 1,
     max_network_mbps = - 1, max_iops = - 1\<rparr>"

record quota_usage =
  qu_vcpus :: u32
  qu_memory_mib :: u64
  qu_storage_bytes :: u64
  qu_network_mbps :: u32
  qu_iops :: u32

record quota_charge =
  qc_vcpus :: u32
  qc_memory_mib :: u64
  qc_storage_bytes :: u64
  qc_network_mbps :: u32
  qc_iops :: u32

definition usage_default :: quota_usage where
  "usage_default = \<lparr>qu_vcpus = 0, qu_memory_mib = 0, qu_storage_bytes = 0, qu_network_mbps = 0, qu_iops = 0\<rparr>"

definition charge_default :: quota_charge where
  "charge_default = \<lparr>qc_vcpus = 0, qc_memory_mib = 0, qc_storage_bytes = 0, qc_network_mbps = 0, qc_iops = 0\<rparr>"

definition charge_quota :: "quota_usage \<Rightarrow> tenant_quotas \<Rightarrow> quota_charge \<Rightarrow> quota_usage cel_result" where
  "charge_quota usage quotas charge =
     (let new_vcpus = saturating_add (qu_vcpus usage) (qc_vcpus charge);
          new_memory = saturating_add (qu_memory_mib usage) (qc_memory_mib charge);
          new_storage = saturating_add (qu_storage_bytes usage) (qc_storage_bytes charge);
          new_network = saturating_add (qu_network_mbps usage) (qc_network_mbps charge);
          new_iops = saturating_add (qu_iops usage) (qc_iops charge)
      in if max_vcpus quotas < new_vcpus then Err (Exhausted ''quota.vcpus'')
         else if max_memory_mib quotas < new_memory then Err (Exhausted ''quota.memory'')
         else if max_storage_bytes quotas < new_storage then Err (Exhausted ''quota.storage'')
         else if max_network_mbps quotas < new_network then Err (Exhausted ''quota.network'')
         else if max_iops quotas < new_iops then Err (Exhausted ''quota.iops'')
         else Ok \<lparr>qu_vcpus = new_vcpus, qu_memory_mib = new_memory, qu_storage_bytes = new_storage,
                  qu_network_mbps = new_network, qu_iops = new_iops\<rparr>)"

definition release_quota :: "quota_usage \<Rightarrow> quota_charge \<Rightarrow> quota_usage" where
  "release_quota usage charge =
     \<lparr>qu_vcpus = saturating_sub (qu_vcpus usage) (qc_vcpus charge),
      qu_memory_mib = saturating_sub (qu_memory_mib usage) (qc_memory_mib charge),
      qu_storage_bytes = saturating_sub (qu_storage_bytes usage) (qc_storage_bytes charge),
      qu_network_mbps = saturating_sub (qu_network_mbps usage) (qc_network_mbps charge),
      qu_iops = saturating_sub (qu_iops usage) (qc_iops charge)\<rparr>"

subsection \<open>Names and paths\<close>

definition is_segment_byte :: "char \<Rightarrow> bool" where
  "is_segment_byte c \<longleftrightarrow>
     (let b = (of_char c :: nat) in (48 \<le> b \<and> b \<le> 57) \<or> (65 \<le> b \<and> b \<le> 90) \<or> (97 \<le> b \<and> b \<le> 122)) \<or>
     c = CHR ''-'' \<or> c = CHR ''_''"

definition validate_segment :: "string \<Rightarrow> unit cel_result" where
  "validate_segment s =
     (if s = [] then Err (Invalid ''tenancy: name empty'')
      else if 64 < length s then Err (Invalid ''tenancy: name longer than 64 bytes'')
      else if \<not> list_all is_segment_byte s then Err (Invalid ''tenancy: name must match [A-Za-z0-9_-]+'')
      else Ok ())"

definition tenant_namespace_new :: "string \<Rightarrow> string cel_result" where
  "tenant_namespace_new tenant_name =
     bind_result (validate_segment tenant_name) (\<lambda>_. Ok (''/tenants/'' @ tenant_name))"

definition ns_user_path :: "string \<Rightarrow> string \<Rightarrow> string cel_result" where
  "ns_user_path root user_name =
     bind_result (validate_segment user_name) (\<lambda>_. Ok (root @ ''/users/'' @ user_name))"

definition ns_vms :: "string \<Rightarrow> string" where "ns_vms root = root @ ''/vms''"
definition ns_volumes :: "string \<Rightarrow> string" where "ns_volumes root = root @ ''/volumes''"
definition ns_networks :: "string \<Rightarrow> string" where "ns_networks root = root @ ''/networks''"
definition ns_users :: "string \<Rightarrow> string" where "ns_users root = root @ ''/users''"
definition ns_quotas :: "string \<Rightarrow> string" where "ns_quotas root = root @ ''/quotas''"

subsection \<open>Tenants, users, sessions\<close>

type_synonym tenant_id = u64
type_synonym user_id = u64
type_synonym password_hash = string
type_synonym session_token = string
type_synonym token_hash = bytes

record user =
  us_id :: user_id
  us_name :: string
  us_caps :: tenant_caps
  us_password_hash :: "password_hash option"

record tenant_spec =
  sp_name :: string
  sp_quotas :: tenant_quotas
  sp_parent :: "tenant_id option"

definition tenant_spec_new :: "string \<Rightarrow> tenant_quotas \<Rightarrow> tenant_spec cel_result" where
  "tenant_spec_new name quotas =
     bind_result (validate_segment name)
       (\<lambda>_. Ok \<lparr>sp_name = name, sp_quotas = quotas, sp_parent = None\<rparr>)"

definition spec_with_parent :: "tenant_id \<Rightarrow> tenant_spec \<Rightarrow> tenant_spec" where
  "spec_with_parent p spec = spec\<lparr>sp_parent := Some p\<rparr>"

record tenant =
  tn_id :: tenant_id
  tn_name :: string
  tn_namespace :: string
  tn_root_caps :: tenant_caps
  tn_users :: "user list"
  tn_quotas :: tenant_quotas
  tn_usage :: quota_usage
  tn_parent :: "tenant_id option"

record session =
  ss_token_hash :: token_hash
  ss_tenant :: tenant_id
  ss_user :: user_id
  ss_user_name :: string
  ss_caps :: tenant_caps
  ss_created_ms :: u64
  ss_expires_ms :: u64

definition is_expired_at :: "session \<Rightarrow> u64 \<Rightarrow> bool" where
  "is_expired_at s now \<longleftrightarrow> ss_expires_ms s \<le> now"

definition DEFAULT_SESSION_TTL_SECS :: u64 where "DEFAULT_SESSION_TTL_SECS = 12 * 60 * 60"

definition TOKEN_HEX_LEN :: nat where "TOKEN_HEX_LEN = 64"

subsection \<open>Passwords and tokens\<close>

definition hash_password :: "(string \<Rightarrow> password_hash option) \<Rightarrow> string \<Rightarrow> password_hash cel_result" where
  "hash_password argon plain =
     (if plain = [] then Err (Invalid ''password must not be empty'')
      else ok_or (Internal ''argon2 hash_password failed'') (argon plain))"

definition verify_password :: "(string \<Rightarrow> password_hash \<Rightarrow> bool) \<Rightarrow> string \<Rightarrow> password_hash \<Rightarrow> unit cel_result" where
  "verify_password argon_ok plain stored =
     (if argon_ok plain stored then Ok () else Err (CapabilityDenied ''auth.credentials''))"

definition is_hexdigit :: "char \<Rightarrow> bool" where
  "is_hexdigit c \<longleftrightarrow>
     (let b = (of_char c :: nat) in (48 \<le> b \<and> b \<le> 57) \<or> (65 \<le> b \<and> b \<le> 70) \<or> (97 \<le> b \<and> b \<le> 102))"

definition to_ascii_lower :: "char \<Rightarrow> char" where
  "to_ascii_lower c =
     (let b = (of_char c :: nat) in if 65 \<le> b \<and> b \<le> 90 then char_of (b + 32) else c)"

definition token_from_hex :: "string \<Rightarrow> session_token cel_result" where
  "token_from_hex s =
     (if length s \<noteq> TOKEN_HEX_LEN \<or> \<not> list_all is_hexdigit s then Err (Invalid ''token format'')
      else Ok (map to_ascii_lower s))"

definition hex_digit :: "nat \<Rightarrow> char" where
  "hex_digit n = ''0123456789abcdef'' ! n"

definition hex_byte :: "u8 \<Rightarrow> string" where
  "hex_byte b = [hex_digit (unat (drop_bit 4 b)), hex_digit (unat (b AND 0x0f))]"

definition mint_token :: "(session_token \<Rightarrow> token_hash) \<Rightarrow> bytes \<Rightarrow> session_token \<times> token_hash" where
  "mint_token hash_token raw =
     (let token = concat (map hex_byte raw) in (token, hash_token token))"

subsection \<open>Accounting laws\<close>

text \<open>Usage within the ceilings, and a charge the counters can hold exactly.\<close>

definition within :: "quota_usage \<Rightarrow> tenant_quotas \<Rightarrow> bool" where
  "within u q \<longleftrightarrow> qu_vcpus u \<le> max_vcpus q \<and> qu_memory_mib u \<le> max_memory_mib q \<and>
     qu_storage_bytes u \<le> max_storage_bytes q \<and> qu_network_mbps u \<le> max_network_mbps q \<and> qu_iops u \<le> max_iops q"

definition quotas_le :: "tenant_quotas \<Rightarrow> tenant_quotas \<Rightarrow> bool" where
  "quotas_le q p \<longleftrightarrow> max_vcpus q \<le> max_vcpus p \<and> max_memory_mib q \<le> max_memory_mib p \<and>
     max_storage_bytes q \<le> max_storage_bytes p \<and> max_network_mbps q \<le> max_network_mbps p \<and> max_iops q \<le> max_iops p"

definition fits :: "quota_usage \<Rightarrow> quota_charge \<Rightarrow> bool" where
  "fits u c \<longleftrightarrow> unat (qu_vcpus u) + unat (qc_vcpus c) < 2 ^ 32 \<and>
     unat (qu_memory_mib u) + unat (qc_memory_mib c) < 2 ^ 64 \<and>
     unat (qu_storage_bytes u) + unat (qc_storage_bytes c) < 2 ^ 64 \<and>
     unat (qu_network_mbps u) + unat (qc_network_mbps c) < 2 ^ 32 \<and>
     unat (qu_iops u) + unat (qc_iops c) < 2 ^ 32"

definition add_usage :: "quota_usage \<Rightarrow> quota_charge \<Rightarrow> quota_usage" where
  "add_usage u c = \<lparr>qu_vcpus = saturating_add (qu_vcpus u) (qc_vcpus c),
     qu_memory_mib = saturating_add (qu_memory_mib u) (qc_memory_mib c),
     qu_storage_bytes = saturating_add (qu_storage_bytes u) (qc_storage_bytes c),
     qu_network_mbps = saturating_add (qu_network_mbps u) (qc_network_mbps c),
     qu_iops = saturating_add (qu_iops u) (qc_iops c)\<rparr>"

lemma charge_quota_Ok:
  "charge_quota u q c = Ok u' \<longleftrightarrow> u' = add_usage u c \<and> within (add_usage u c) q"
  by (auto simp: charge_quota_def add_usage_def within_def Let_def not_less)

lemma charge_quota_cases:
  "charge_quota u q c = (if within (add_usage u c) q then Ok (add_usage u c) else charge_quota u q c)"
  by (simp add: charge_quota_Ok)

lemma charge_quota_Err: "charge_quota u q c = Err e \<Longrightarrow> \<not> within (add_usage u c) q"
  using charge_quota_Ok [of u q c "add_usage u c"] by auto

lemma add_default [simp]: "add_usage u charge_default = u"
  by (simp add: add_usage_def charge_default_def)

lemma release_default [simp]: "release_quota u charge_default = u"
  by (simp add: release_quota_def charge_default_def)

lemma release_add: "fits u c \<Longrightarrow> release_quota (add_usage u c) c = u"
  by (simp add: release_quota_def add_usage_def fits_def saturating_add_sub_cancel)

lemma within_release: "within u q \<Longrightarrow> within (release_quota u c) q"
  using saturating_sub_le order_trans unfolding within_def release_quota_def
  by (auto intro: order_trans [OF saturating_sub_le])

text \<open>A ceiling below the largest value keeps every accepted charge exact.\<close>

definition quotas_finite :: "tenant_quotas \<Rightarrow> bool" where
  "quotas_finite q \<longleftrightarrow> max_vcpus q \<noteq> - 1 \<and> max_memory_mib q \<noteq> - 1 \<and> max_storage_bytes q \<noteq> - 1 \<and>
     max_network_mbps q \<noteq> - 1 \<and> max_iops q \<noteq> - 1"

lemma saturating_add_below:
  assumes "saturating_add a b \<le> m" "m \<noteq> (- 1 :: 'l::len word)"
  shows "unat a + unat b < 2 ^ LENGTH('l)"
proof (rule ccontr)
  assume "\<not> unat a + unat b < 2 ^ LENGTH('l)"
  then have "saturating_add a b = - 1" by (simp add: saturating_add_def)
  with assms show False by (metis word_order.extremum_unique)
qed

lemma within_fits: "within (add_usage u c) q \<Longrightarrow> quotas_finite q \<Longrightarrow> fits u c"
  using saturating_add_below [where 'l = 32] saturating_add_below [where 'l = 64]
  by (auto simp: within_def add_usage_def quotas_finite_def fits_def)

end
