(* ===== verification/Tenant_Store.thy ===== *)
theory Tenant_Store
  imports Tenants
begin

text \<open>
  The tenant store, \<^verbatim>\<open>celtenancy/src/store.rs\<close>: \<^verbatim>\<open>StoreState\<close> and every operation on it -
  creating and deleting (nested) tenants, users, quota charges along the ancestor chain, passwords,
  sessions, capability rotation and recursive deletion. \<^verbatim>\<open>MemTenantStore\<close> runs each under its
  mutex, so an operation is a function from the locked state to the next state and the result. The
  clock, the random bytes of a token and the hash functions are arguments.
\<close>

subsection \<open>State\<close>

record store_state =
  next_tenant_id :: u64
  next_user_id :: u64
  st_tenants :: "(tenant_id \<times> tenant) list"
  by_name :: "(string \<times> tenant_id) list"
  st_sessions :: "session list"

definition store_state_default :: store_state where
  "store_state_default = \<lparr>next_tenant_id = 0, next_user_id = 0, st_tenants = [], by_name = [], st_sessions = []\<rparr>"

record rotate_report =
  rr_tenant :: tenant_id
  rr_tenant_name :: string
  rr_old_caps :: tenant_caps
  rr_new_caps :: tenant_caps
  rr_attenuated_users :: nat
  rr_revoked_sessions :: nat

record delete_report =
  dr_deleted_tenants :: "(tenant_id \<times> string) list"
  dr_revoked_sessions :: nat
  dr_dropped_users :: nat

definition unknown_tenant :: cel_error where
  "unknown_tenant = Invalid ''tenant id unknown''"

subsection \<open>Tenants and users\<close>

definition subtenant_check :: "store_state \<Rightarrow> tenant_spec \<Rightarrow> tenant_caps \<Rightarrow> unit cel_result" where
  "subtenant_check st spec root_caps =
     (case sp_parent spec of
        None \<Rightarrow> Ok ()
      | Some parent_id \<Rightarrow>
          (case map_of (st_tenants st) parent_id of
             None \<Rightarrow> Err (Invalid ''parent tenant id unknown'')
           | Some parent \<Rightarrow>
               if \<not> tc_contains (tn_root_caps parent) root_caps
                 then Err (CapabilityDenied ''subtenant caps exceed parent'')
               else
                 (let q = sp_quotas spec; pq = tn_quotas parent
                  in if max_vcpus pq < max_vcpus q \<or> max_memory_mib pq < max_memory_mib q \<or>
                        max_storage_bytes pq < max_storage_bytes q \<or>
                        max_network_mbps pq < max_network_mbps q \<or> max_iops pq < max_iops q
                       then Err (Invalid ''subtenant quotas exceed parent quotas'')
                     else Ok ())))"

definition st_create :: "store_state \<Rightarrow> tenant_spec \<Rightarrow> tenant_caps \<Rightarrow> store_state \<times> tenant cel_result" where
  "st_create st spec root_caps =
     (if map_of (by_name st) (sp_name spec) \<noteq> None
        then (st, Err (Storage (''tenant already exists: '' @ sp_name spec)))
      else (case subtenant_check st spec root_caps of
              Err e \<Rightarrow> (st, Err e)
            | Ok _ \<Rightarrow>
                (case checked_add (next_tenant_id st) 1 of
                   None \<Rightarrow> (st, Err (Internal ''tenant id overflow''))
                 | Some id_raw \<Rightarrow>
                     (let st = st\<lparr>next_tenant_id := id_raw\<rparr>
                      in (case tenant_namespace_new (sp_name spec) of
                            Err e \<Rightarrow> (st, Err e)
                          | Ok ns \<Rightarrow>
                              (let t = \<lparr>tn_id = id_raw, tn_name = sp_name spec, tn_namespace = ns,
                                        tn_root_caps = root_caps, tn_users = [], tn_quotas = sp_quotas spec,
                                        tn_usage = usage_default, tn_parent = sp_parent spec\<rparr>
                               in (st\<lparr>by_name := AList.update (sp_name spec) id_raw (by_name st),
                                      st_tenants := AList.update id_raw t (st_tenants st)\<rparr>,
                                   Ok t)))))))"

definition st_create_subtenant ::
  "store_state \<Rightarrow> tenant_id \<Rightarrow> tenant_spec \<Rightarrow> tenant_caps \<Rightarrow> store_state \<times> tenant cel_result" where
  "st_create_subtenant st parent spec root_caps = st_create st (spec_with_parent parent spec) root_caps"

definition st_delete :: "store_state \<Rightarrow> tenant_id \<Rightarrow> store_state \<times> unit cel_result" where
  "st_delete st tid =
     (case map_of (st_tenants st) tid of
        None \<Rightarrow> (st, Err unknown_tenant)
      | Some t \<Rightarrow>
          if list_ex (\<lambda>child. tn_parent child = Some tid) (map_values (st_tenants st))
            then (st, Err (Invalid ''tenant has subtenants''))
          else if tn_usage t \<noteq> usage_default then (st, Err (Invalid ''tenant in use''))
          else (st\<lparr>st_tenants := AList.delete tid (st_tenants st),
                   by_name := AList.delete (tn_name t) (by_name st)\<rparr>,
                Ok ()))"

definition st_add_user :: "store_state \<Rightarrow> tenant_id \<Rightarrow> string \<Rightarrow> tenant_caps \<Rightarrow> store_state \<times> user cel_result" where
  "st_add_user st tid user_name requested =
     (case validate_segment user_name of
        Err e \<Rightarrow> (st, Err e)
      | Ok _ \<Rightarrow>
          (case map_of (st_tenants st) tid of
             None \<Rightarrow> (st, Err unknown_tenant)
           | Some t \<Rightarrow>
               if list_ex (\<lambda>u. us_name u = user_name) (tn_users t)
                 then (st, Err (Storage (''user already exists: '' @ user_name)))
               else (case attenuate (tn_root_caps t) requested of
                       Err e \<Rightarrow> (st, Err e)
                     | Ok caps \<Rightarrow>
                         (case checked_add (next_user_id st) 1 of
                            None \<Rightarrow> (st, Err (Internal ''user id overflow''))
                          | Some id_raw \<Rightarrow>
                              (let u = \<lparr>us_id = id_raw, us_name = user_name, us_caps = caps, us_password_hash = None\<rparr>
                               in (st\<lparr>next_user_id := id_raw,
                                      st_tenants := map_update_with tid
                                        (tn_users_update (\<lambda>us. us @ [u])) (st_tenants st)\<rparr>,
                                   Ok u))))))"

definition drop_user_sessions :: "tenant_id \<Rightarrow> user_id \<Rightarrow> session list \<Rightarrow> session list" where
  "drop_user_sessions tid uid ss = filter (\<lambda>s. \<not> (ss_tenant s = tid \<and> ss_user s = uid)) ss"

definition drop_tenant_sessions :: "tenant_id \<Rightarrow> session list \<Rightarrow> session list" where
  "drop_tenant_sessions tid ss = filter (\<lambda>s. ss_tenant s \<noteq> tid) ss"

definition st_remove_user :: "store_state \<Rightarrow> tenant_id \<Rightarrow> user_id \<Rightarrow> store_state \<times> unit cel_result" where
  "st_remove_user st tid uid =
     (case map_of (st_tenants st) tid of
        None \<Rightarrow> (st, Err unknown_tenant)
      | Some t \<Rightarrow>
          (st\<lparr>st_tenants := map_update_with tid (tn_users_update (filter (\<lambda>u. us_id u \<noteq> uid))) (st_tenants st),
              st_sessions := drop_user_sessions tid uid (st_sessions st)\<rparr>,
           Ok ()))"

definition st_get :: "store_state \<Rightarrow> tenant_id \<Rightarrow> tenant cel_result" where
  "st_get st tid = ok_or unknown_tenant (map_of (st_tenants st) tid)"

definition st_get_by_name :: "store_state \<Rightarrow> string \<Rightarrow> tenant cel_result" where
  "st_get_by_name st name =
     bind_result (ok_or (Invalid ''tenant name unknown'') (map_of (by_name st) name))
       (\<lambda>tid. ok_or (Internal ''tenant index out of sync'') (map_of (st_tenants st) tid))"

definition st_list :: "store_state \<Rightarrow> tenant list" where
  "st_list st = sort_key tn_id (map_values (st_tenants st))"

definition st_children :: "store_state \<Rightarrow> tenant_id \<Rightarrow> tenant list" where
  "st_children st parent = filter (\<lambda>t. tn_parent t = Some parent) (st_list st)"

subsection \<open>Quotas along the ancestor chain\<close>

text \<open>The loops that climb the hierarchy refuse to go on at depth 65.\<close>

function chain_loop :: "(tenant_id \<times> tenant) list \<Rightarrow> tenant_id option \<Rightarrow> nat \<Rightarrow> tenant_id list cel_result" where
  "chain_loop ts None depth = Ok []"
| "chain_loop ts (Some tid) depth =
     (if 64 < depth then Err (Internal ''tenant hierarchy too deep'')
      else (case map_of ts tid of
              None \<Rightarrow> Err unknown_tenant
            | Some t \<Rightarrow> bind_result (chain_loop ts (tn_parent t) (depth + 1)) (\<lambda>out. Ok (tid # out))))"
  by pat_completeness auto
termination by (relation "measure (\<lambda>(_, _, depth). 65 - depth)") auto

definition chain_from :: "store_state \<Rightarrow> tenant_id \<Rightarrow> tenant_id list cel_result" where
  "chain_from st tid = chain_loop (st_tenants st) (Some tid) 0"

function ancestors_loop :: "(tenant_id \<times> tenant) list \<Rightarrow> tenant_id option \<Rightarrow> nat \<Rightarrow> tenant list cel_result" where
  "ancestors_loop ts None depth = Ok []"
| "ancestors_loop ts (Some p) depth =
     (if 64 < depth then Err (Internal ''tenant hierarchy too deep'')
      else (case map_of ts p of
              None \<Rightarrow> Err unknown_tenant
            | Some t \<Rightarrow> bind_result (ancestors_loop ts (tn_parent t) (depth + 1)) (\<lambda>out. Ok (t # out))))"
  by pat_completeness auto
termination by (relation "measure (\<lambda>(_, _, depth). 65 - depth)") auto

definition st_ancestors :: "store_state \<Rightarrow> tenant_id \<Rightarrow> tenant list cel_result" where
  "st_ancestors st tid =
     bind_result (st_get st tid) (\<lambda>t. ancestors_loop (st_tenants st) (tn_parent t) 0)"

text \<open>Pass one: every tenant of the chain must accept the charge.\<close>

fun charge_check :: "(tenant_id \<times> tenant) list \<Rightarrow> quota_charge \<Rightarrow> tenant_id list \<Rightarrow> unit cel_result" where
  "charge_check ts c [] = Ok ()"
| "charge_check ts c (tid # chain) =
     (case map_of ts tid of
        None \<Rightarrow> Err (Internal ''tenant disappeared mid-charge'')
      | Some t \<Rightarrow>
          (case charge_quota (tn_usage t) (tn_quotas t) c of
             Err e \<Rightarrow> Err e
           | Ok _ \<Rightarrow> charge_check ts c chain))"

text \<open>Pass two: the charge is applied from the tenant upwards.\<close>

fun charge_apply ::
  "(tenant_id \<times> tenant) list \<Rightarrow> quota_charge \<Rightarrow> tenant_id list \<Rightarrow> (tenant_id \<times> tenant) list \<times> unit cel_result" where
  "charge_apply ts c [] = (ts, Ok ())"
| "charge_apply ts c (tid # chain) =
     (case map_of ts tid of
        None \<Rightarrow> (ts, Err (Internal ''tenant disappeared mid-charge''))
      | Some t \<Rightarrow>
          (case charge_quota (tn_usage t) (tn_quotas t) c of
             Err _ \<Rightarrow> (ts, Err (Internal ''quota validation race''))
           | Ok new \<Rightarrow> charge_apply (map_update_with tid (tn_usage_update (\<lambda>_. new)) ts) c chain))"

definition usage_of :: "(tenant_id \<times> tenant) list \<Rightarrow> tenant_id \<Rightarrow> quota_usage" where
  "usage_of ts tid = (case map_of ts tid of None \<Rightarrow> usage_default | Some t \<Rightarrow> tn_usage t)"

definition st_charge :: "store_state \<Rightarrow> tenant_id \<Rightarrow> quota_charge \<Rightarrow> store_state \<times> quota_usage cel_result" where
  "st_charge st tid c =
     (case chain_from st tid of
        Err e \<Rightarrow> (st, Err e)
      | Ok chain \<Rightarrow>
          (case charge_check (st_tenants st) c chain of
             Err e \<Rightarrow> (st, Err e)
           | Ok _ \<Rightarrow>
               (case charge_apply (st_tenants st) c chain of
                  (ts, Err e) \<Rightarrow> (st\<lparr>st_tenants := ts\<rparr>, Err e)
                | (ts, Ok _) \<Rightarrow> (st\<lparr>st_tenants := ts\<rparr>, Ok (usage_of ts tid)))))"

fun release_apply ::
  "(tenant_id \<times> tenant) list \<Rightarrow> quota_charge \<Rightarrow> tenant_id list \<Rightarrow> (tenant_id \<times> tenant) list \<times> unit cel_result" where
  "release_apply ts c [] = (ts, Ok ())"
| "release_apply ts c (tid # chain) =
     (case map_of ts tid of
        None \<Rightarrow> (ts, Err (Internal ''tenant disappeared mid-release''))
      | Some t \<Rightarrow>
          release_apply (map_update_with tid (\<lambda>t. t\<lparr>tn_usage := release_quota (tn_usage t) c\<rparr>) ts) c chain)"

definition st_release :: "store_state \<Rightarrow> tenant_id \<Rightarrow> quota_charge \<Rightarrow> store_state \<times> quota_usage cel_result" where
  "st_release st tid c =
     (case chain_from st tid of
        Err e \<Rightarrow> (st, Err e)
      | Ok chain \<Rightarrow>
          (case release_apply (st_tenants st) c chain of
             (ts, Err e) \<Rightarrow> (st\<lparr>st_tenants := ts\<rparr>, Err e)
           | (ts, Ok _) \<Rightarrow> (st\<lparr>st_tenants := ts\<rparr>, Ok (usage_of ts tid))))"

subsection \<open>Passwords and sessions\<close>

definition find_user :: "(user \<Rightarrow> bool) \<Rightarrow> tenant \<Rightarrow> user option" where
  "find_user P t = List.find P (tn_users t)"

text \<open>\<^verbatim>\<open>iter_mut().find(..)\<close>: the first user that matches is modified.\<close>

fun update_first :: "('a \<Rightarrow> bool) \<Rightarrow> ('a \<Rightarrow> 'a) \<Rightarrow> 'a list \<Rightarrow> 'a list" where
  "update_first P f [] = []"
| "update_first P f (x # xs) = (if P x then f x # xs else x # update_first P f xs)"

definition st_set_password ::
  "(string \<Rightarrow> password_hash option) \<Rightarrow> store_state \<Rightarrow> tenant_id \<Rightarrow> user_id \<Rightarrow> string \<Rightarrow> store_state \<times> unit cel_result" where
  "st_set_password argon st tid uid plain =
     (case hash_password argon plain of
        Err e \<Rightarrow> (st, Err e)
      | Ok h \<Rightarrow>
          (case map_of (st_tenants st) tid of
             None \<Rightarrow> (st, Err unknown_tenant)
           | Some t \<Rightarrow>
               (case find_user (\<lambda>u. us_id u = uid) t of
                  None \<Rightarrow> (st, Err (Invalid ''user id unknown''))
                | Some _ \<Rightarrow>
                    (st\<lparr>st_tenants := map_update_with tid
                          (tn_users_update (update_first (\<lambda>u. us_id u = uid) (us_password_hash_update (\<lambda>_. Some h))))
                          (st_tenants st),
                        st_sessions := drop_user_sessions tid uid (st_sessions st)\<rparr>,
                     Ok ()))))"

definition st_authenticate ::
  "(string \<Rightarrow> password_hash \<Rightarrow> bool) \<Rightarrow> store_state \<Rightarrow> string \<Rightarrow> string \<Rightarrow> string \<Rightarrow>
   (tenant_id \<times> user_id \<times> tenant_caps) cel_result" where
  "st_authenticate argon_ok st tenant_name user_name password =
     (let denied = CapabilityDenied ''auth.credentials''
      in bind_result (ok_or denied (map_of (by_name st) tenant_name)) (\<lambda>tid.
         bind_result (ok_or denied (map_of (st_tenants st) tid)) (\<lambda>t.
         bind_result (ok_or denied (find_user (\<lambda>u. us_name u = user_name) t)) (\<lambda>u.
         bind_result (ok_or denied (us_password_hash u)) (\<lambda>h.
         bind_result (map_err (\<lambda>_. denied) (verify_password argon_ok password h)) (\<lambda>_.
         Ok (tid, us_id u, us_caps u)))))))"

definition st_create_session ::
  "(session_token \<Rightarrow> token_hash) \<Rightarrow> bytes \<Rightarrow> u64 \<Rightarrow> store_state \<Rightarrow> tenant_id \<Rightarrow> user_id \<Rightarrow> tenant_caps \<Rightarrow> u64 option \<Rightarrow>
   store_state \<times> (session_token \<times> session) cel_result" where
  "st_create_session hash_token raw now st tid uid requested ttl_secs =
     (case map_of (st_tenants st) tid of
        None \<Rightarrow> (st, Err unknown_tenant)
      | Some t \<Rightarrow>
          (case find_user (\<lambda>u. us_id u = uid) t of
             None \<Rightarrow> (st, Err (Invalid ''user id unknown''))
           | Some u \<Rightarrow>
               (let caps = tc_from_bits_truncate (us_caps u AND requested);
                    (token, th) = mint_token hash_token raw;
                    ttl_ms = saturating_mul (case ttl_secs of None \<Rightarrow> DEFAULT_SESSION_TTL_SECS | Some x \<Rightarrow> x) 1000;
                    s = \<lparr>ss_token_hash = th, ss_tenant = tid, ss_user = uid, ss_user_name = us_name u,
                         ss_caps = caps, ss_created_ms = now, ss_expires_ms = saturating_add now ttl_ms\<rparr>
                in (st\<lparr>st_sessions := filter (\<lambda>x. ss_token_hash x \<noteq> th) (st_sessions st) @ [s]\<rparr>,
                    Ok (token, s)))))"

definition st_validate_token ::
  "(session_token \<Rightarrow> token_hash) \<Rightarrow> u64 \<Rightarrow> store_state \<Rightarrow> session_token \<Rightarrow> session cel_result" where
  "st_validate_token hash_token now st token =
     (case List.find (\<lambda>s. ss_token_hash s = hash_token token) (st_sessions st) of
        None \<Rightarrow> Err (CapabilityDenied ''auth.session'')
      | Some s \<Rightarrow> if is_expired_at s now then Err (CapabilityDenied ''auth.session'') else Ok s)"

definition st_revoke_token ::
  "(session_token \<Rightarrow> token_hash) \<Rightarrow> store_state \<Rightarrow> session_token \<Rightarrow> store_state \<times> unit cel_result" where
  "st_revoke_token hash_token st token =
     (st\<lparr>st_sessions := filter (\<lambda>s. ss_token_hash s \<noteq> hash_token token) (st_sessions st)\<rparr>, Ok ())"

definition st_purge_expired_sessions :: "u64 \<Rightarrow> store_state \<Rightarrow> store_state \<times> nat" where
  "st_purge_expired_sessions now st =
     (let ss = filter (\<lambda>s. \<not> is_expired_at s now) (st_sessions st)
      in (st\<lparr>st_sessions := ss\<rparr>, length (st_sessions st) - length ss))"

subsection \<open>Revocation, rotation, recursive deletion\<close>

definition st_revoke_user_sessions :: "store_state \<Rightarrow> tenant_id \<Rightarrow> user_id \<Rightarrow> store_state \<times> nat cel_result" where
  "st_revoke_user_sessions st tid uid =
     (if map_of (st_tenants st) tid = None then (st, Err unknown_tenant)
      else (let ss = drop_user_sessions tid uid (st_sessions st)
            in (st\<lparr>st_sessions := ss\<rparr>, Ok (length (st_sessions st) - length ss))))"

definition st_revoke_tenant_sessions :: "store_state \<Rightarrow> tenant_id \<Rightarrow> store_state \<times> nat cel_result" where
  "st_revoke_tenant_sessions st tid =
     (if map_of (st_tenants st) tid = None then (st, Err unknown_tenant)
      else (let ss = drop_tenant_sessions tid (st_sessions st)
            in (st\<lparr>st_sessions := ss\<rparr>, Ok (length (st_sessions st) - length ss))))"

definition narrow_user :: "tenant_caps \<Rightarrow> user \<Rightarrow> user" where
  "narrow_user new_caps u = u\<lparr>us_caps := tc_from_bits_truncate (us_caps u AND new_caps)\<rparr>"

definition st_rotate_root_caps :: "store_state \<Rightarrow> tenant_id \<Rightarrow> tenant_caps \<Rightarrow> store_state \<times> rotate_report cel_result" where
  "st_rotate_root_caps st tid new_caps =
     (case map_of (st_tenants st) tid of
        None \<Rightarrow> (st, Err unknown_tenant)
      | Some t \<Rightarrow>
          (case (case tn_parent t of
                   None \<Rightarrow> Ok ()
                 | Some p \<Rightarrow>
                     (case map_of (st_tenants st) p of
                        None \<Rightarrow> Err (Internal ''parent tenant disappeared'')
                      | Some pt \<Rightarrow>
                          if \<not> tc_contains (tn_root_caps pt) new_caps
                            then Err (CapabilityDenied ''rotated caps exceed parent'')
                          else Ok ())) of
             Err e \<Rightarrow> (st, Err e)
           | Ok _ \<Rightarrow>
               (let ss = drop_tenant_sessions tid (st_sessions st)
                in (st\<lparr>st_tenants := map_update_with tid
                          (\<lambda>t. t\<lparr>tn_root_caps := new_caps, tn_users := map (narrow_user new_caps) (tn_users t)\<rparr>)
                          (st_tenants st),
                       st_sessions := ss\<rparr>,
                    Ok \<lparr>rr_tenant = tid, rr_tenant_name = tn_name t, rr_old_caps = tn_root_caps t,
                        rr_new_caps = new_caps,
                        rr_attenuated_users =
                          length (filter (\<lambda>u. us_caps (narrow_user new_caps u) \<noteq> us_caps u) (tn_users t)),
                        rr_revoked_sessions = length (st_sessions st) - length ss\<rparr>))))"

fun collect_walks :: "(tenant_id \<Rightarrow> tenant_id list cel_result) \<Rightarrow> tenant_id list \<Rightarrow> tenant_id list cel_result" where
  "collect_walks f [] = Ok []"
| "collect_walks f (k # ks) = bind_result (f k) (\<lambda>a. bind_result (collect_walks f ks) (\<lambda>b. Ok (a @ b)))"

text \<open>\<open>fuel\<close> is 65 minus the recursion depth: no call is made at a depth above 64.\<close>

primrec walk_subtree :: "nat \<Rightarrow> (tenant_id \<times> tenant) list \<Rightarrow> tenant_id \<Rightarrow> tenant_id list cel_result" where
  "walk_subtree 0 ts root = Err (Internal ''tenant hierarchy too deep'')"
| "walk_subtree (Suc fuel) ts root =
     bind_result
       (collect_walks (walk_subtree fuel ts)
          (map tn_id (filter (\<lambda>t. tn_parent t = Some root) (map_values ts))))
       (\<lambda>out. Ok (out @ [root]))"

fun check_unused :: "(tenant_id \<times> tenant) list \<Rightarrow> tenant_id list \<Rightarrow> unit cel_result" where
  "check_unused ts [] = Ok ()"
| "check_unused ts (tid # tids) =
     (case map_of ts tid of
        None \<Rightarrow> Err (Internal ''subtree node vanished'')
      | Some t \<Rightarrow> if tn_usage t \<noteq> usage_default then Err (Invalid ''tenant in use'') else check_unused ts tids)"

fun delete_all :: "store_state \<Rightarrow> tenant_id list \<Rightarrow> delete_report \<Rightarrow> store_state \<times> delete_report cel_result" where
  "delete_all st [] report = (st, Ok report)"
| "delete_all st (tid # tids) report =
     (let ss = drop_tenant_sessions tid (st_sessions st);
          revoked = length (st_sessions st) - length ss;
          st = st\<lparr>st_sessions := ss\<rparr>
      in (case map_of (st_tenants st) tid of
            None \<Rightarrow> (st, Err (Internal ''subtree node vanished''))
          | Some t \<Rightarrow>
              delete_all
                (st\<lparr>st_tenants := AList.delete tid (st_tenants st),
                    by_name := AList.delete (tn_name t) (by_name st)\<rparr>)
                tids
                \<lparr>dr_deleted_tenants = dr_deleted_tenants report @ [(tid, tn_name t)],
                 dr_revoked_sessions = dr_revoked_sessions report + revoked,
                 dr_dropped_users = dr_dropped_users report + length (tn_users t)\<rparr>))"

definition st_delete_tenant_recursive :: "store_state \<Rightarrow> tenant_id \<Rightarrow> store_state \<times> delete_report cel_result" where
  "st_delete_tenant_recursive st tid =
     (if map_of (st_tenants st) tid = None then (st, Err unknown_tenant)
      else (case walk_subtree 65 (st_tenants st) tid of
              Err e \<Rightarrow> (st, Err e)
            | Ok subtree \<Rightarrow>
                (case check_unused (st_tenants st) subtree of
                   Err e \<Rightarrow> (st, Err e)
                 | Ok _ \<Rightarrow> delete_all st subtree
                     \<lparr>dr_deleted_tenants = [], dr_revoked_sessions = 0, dr_dropped_users = 0\<rparr>)))"

subsection \<open>Invariant\<close>

definition user_ok :: "store_state \<Rightarrow> tenant \<Rightarrow> user \<Rightarrow> bool" where
  "user_ok st t u \<longleftrightarrow> tc_contains (tn_root_caps t) (us_caps u) \<and> us_id u \<le> next_user_id st \<and>
     validate_segment (us_name u) = Ok ()"

text \<open>What a tenant's record says about itself.\<close>

definition tenant_local :: "store_state \<Rightarrow> tenant \<Rightarrow> bool" where
  "tenant_local st t \<longleftrightarrow> validate_segment (tn_name t) = Ok () \<and> tn_namespace t = ''/tenants/'' @ tn_name t \<and>
     within (tn_usage t) (tn_quotas t) \<and> distinct (map us_id (tn_users t)) \<and> distinct (map us_name (tn_users t)) \<and>
     (\<forall>u \<in> set (tn_users t). user_ok st t u)"

text \<open>How it fits into the store: its key, its name, and its parent, which was created before it.\<close>

definition tenant_placed :: "store_state \<Rightarrow> tenant_id \<Rightarrow> tenant \<Rightarrow> bool" where
  "tenant_placed st k t \<longleftrightarrow> tn_id t = k \<and> k \<le> next_tenant_id st \<and> map_of (by_name st) (tn_name t) = Some k \<and>
     (\<forall>p. tn_parent t = Some p \<longrightarrow> p < k \<and>
        (\<exists>pt. map_of (st_tenants st) p = Some pt \<and> quotas_le (tn_quotas t) (tn_quotas pt)))"

definition session_ok :: "store_state \<Rightarrow> session \<Rightarrow> bool" where
  "session_ok st s \<longleftrightarrow> ss_tenant s \<le> next_tenant_id st \<and>
     (\<forall>t. map_of (st_tenants st) (ss_tenant s) = Some t \<longrightarrow>
        (\<exists>u \<in> set (tn_users t). us_id u = ss_user s \<and> us_name u = ss_user_name s \<and> tc_contains (us_caps u) (ss_caps s)))"

definition store_inv :: "store_state \<Rightarrow> bool" where
  "store_inv st \<longleftrightarrow> hm_wf (st_tenants st) \<and> hm_wf (by_name st) \<and>
     (\<forall>k t. map_of (st_tenants st) k = Some t \<longrightarrow> tenant_local st t \<and> tenant_placed st k t) \<and>
     (\<forall>n k. map_of (by_name st) n = Some k \<longrightarrow> (\<exists>t. map_of (st_tenants st) k = Some t \<and> tn_name t = n)) \<and>
     distinct (map ss_token_hash (st_sessions st)) \<and> (\<forall>s \<in> set (st_sessions st). session_ok st s)"

lemma store_invI:
  assumes "hm_wf (st_tenants st)" "hm_wf (by_name st)"
    and "\<And>k t. map_of (st_tenants st) k = Some t \<Longrightarrow> tenant_local st t \<and> tenant_placed st k t"
    and "\<And>n k. map_of (by_name st) n = Some k \<Longrightarrow> \<exists>t. map_of (st_tenants st) k = Some t \<and> tn_name t = n"
    and "distinct (map ss_token_hash (st_sessions st))"
    and "\<And>s. s \<in> set (st_sessions st) \<Longrightarrow> session_ok st s"
  shows "store_inv st"
  using assms by (simp add: store_inv_def)

lemma store_invD:
  assumes "store_inv st"
  shows "hm_wf (st_tenants st)" "hm_wf (by_name st)"
    and "map_of (st_tenants st) k = Some t \<Longrightarrow> tenant_local st t"
    and "map_of (st_tenants st) k = Some t \<Longrightarrow> tenant_placed st k t"
    and "map_of (by_name st) n = Some k \<Longrightarrow> \<exists>t. map_of (st_tenants st) k = Some t \<and> tn_name t = n"
    and "distinct (map ss_token_hash (st_sessions st))"
    and "s \<in> set (st_sessions st) \<Longrightarrow> session_ok st s"
  using assms by (simp_all add: store_inv_def)

lemma store_inv_default: "store_inv store_state_default"
  by (rule store_invI) (simp_all add: store_state_default_def)

text \<open>
  The workhorse for the operations that rewrite one tenant and drop sessions: the record keeps its
  identity, stays locally well-formed, and keeps the users of the sessions that remain.
\<close>

lemma store_inv_modify:
  assumes "store_inv st" "next_user_id st \<le> nu"
    and f: "\<And>t. map_of (st_tenants st) tid = Some t \<Longrightarrow> tenant_local (st\<lparr>next_user_id := nu\<rparr>) (f t) \<and>
      tn_id (f t) = tn_id t \<and> tn_name (f t) = tn_name t \<and> tn_parent (f t) = tn_parent t \<and> tn_quotas (f t) = tn_quotas t"
    and ss: "distinct (map ss_token_hash ss)" "set ss \<subseteq> set (st_sessions st)"
    and users: "\<And>t s u. map_of (st_tenants st) tid = Some t \<Longrightarrow> s \<in> set ss \<Longrightarrow> ss_tenant s = tid \<Longrightarrow>
      u \<in> set (tn_users t) \<Longrightarrow> us_id u = ss_user s \<Longrightarrow>
      \<exists>v \<in> set (tn_users (f t)). us_id v = us_id u \<and> us_name v = us_name u \<and> us_caps v = us_caps u"
  shows "store_inv (st\<lparr>next_user_id := nu, st_tenants := map_update_with tid f (st_tenants st), st_sessions := ss\<rparr>)"
    (is "store_inv ?st")
proof (rule store_invI)
  note inv = store_invD [OF assms(1)]
  show "hm_wf (st_tenants ?st)" "hm_wf (by_name ?st)" "distinct (map ss_token_hash (st_sessions ?st))"
    using inv(1,2) ss(1) by simp_all
  show "tenant_local ?st t \<and> tenant_placed ?st k t" if t: "map_of (st_tenants ?st) k = Some t" for k t
  proof -
    from t obtain t0 where t0: "map_of (st_tenants st) k = Some t0" "t = (if k = tid then f t0 else t0)"
      by (auto simp: map_simps split: if_splits)
    have "tenant_local ?st t"
      using inv(3) [OF t0(1)] f assms(2) t0 by (cases "k = tid") (auto simp: tenant_local_def user_ok_def intro: order_trans)
    moreover have "tenant_placed ?st k t"
      using inv(4) [OF t0(1)] f t0 by (auto simp: tenant_placed_def map_simps split: if_splits)
    ultimately show ?thesis ..
  qed
  show "\<exists>t. map_of (st_tenants ?st) k = Some t \<and> tn_name t = n" if "map_of (by_name ?st) n = Some k" for n k
    using inv(5) [of n k] that f by (auto simp: map_simps)
  show "session_ok ?st s" if "s \<in> set (st_sessions ?st)" for s
  proof -
    from that ss(2) have "session_ok st s" using inv(7) by auto
    then show ?thesis using users that by (fastforce simp: session_ok_def map_simps split: if_splits)
  qed
qed

subsection \<open>Every operation keeps it\<close>

lemma store_inv_bump: "store_inv st \<Longrightarrow> next_tenant_id st \<le> n \<Longrightarrow> store_inv (st\<lparr>next_tenant_id := n\<rparr>)"
  by (auto simp: store_inv_def tenant_local_def tenant_placed_def session_ok_def user_ok_def intro: order_trans)

lemma subtenant_check_Ok:
  assumes "subtenant_check st spec caps = Ok ()" "sp_parent spec = Some p"
  shows "\<exists>pt. map_of (st_tenants st) p = Some pt \<and> tc_contains (tn_root_caps pt) caps \<and>
    quotas_le (sp_quotas spec) (tn_quotas pt)"
  using assms by (auto simp: subtenant_check_def quotas_le_def Let_def not_less split: option.splits if_splits)

lemma checked_next:
  assumes "checked_add n 1 = Some (m :: u64)"
  shows "n < m"
proof -
  have "unat n + unat (1 :: u64) < 2 ^ 64" "m = n + 1" using assms by (simp_all add: checked_add_Some)
  then show ?thesis using unat_add_small [of n 1] by (simp add: word_less_nat_alt)
qed

lemma tenant_id_fresh:
  assumes "store_inv st" "next_tenant_id st < n"
  shows "map_of (st_tenants st) n = None"
proof (rule ccontr)
  assume "map_of (st_tenants st) n \<noteq> None"
  then obtain t where "map_of (st_tenants st) n = Some t" by blast
  from store_invD(4) [OF assms(1) this] have "n \<le> next_tenant_id st" by (simp add: tenant_placed_def)
  with assms(2) show False by (simp add: leD)
qed

lemma insert_tenant_inv:
  assumes inv: "store_inv st" and n: "next_tenant_id st < n" and t: "tenant_local st t" "tn_id t = n" "tn_users t = []"
    and name: "map_of (by_name st) (tn_name t) = None"
    and parent: "\<And>p. tn_parent t = Some p \<Longrightarrow>
      \<exists>pt. map_of (st_tenants st) p = Some pt \<and> quotas_le (tn_quotas t) (tn_quotas pt)"
  shows "store_inv (st\<lparr>next_tenant_id := n, by_name := AList.update (tn_name t) n (by_name st),
    st_tenants := AList.update n t (st_tenants st)\<rparr>)" (is "store_inv ?st")
proof (rule store_invI)
  note d = store_invD [OF inv]
  have fresh: "map_of (st_tenants st) n = None" using tenant_id_fresh [OF inv n] .
  have below: "map_of (st_tenants st) k = Some x \<Longrightarrow> k \<le> next_tenant_id st" for k x
    using d(4) by (simp add: tenant_placed_def)
  show "hm_wf (st_tenants ?st)" "hm_wf (by_name ?st)" "distinct (map ss_token_hash (st_sessions ?st))"
    using d(1,2,6) by simp_all
  show "tenant_local ?st x \<and> tenant_placed ?st k x" if x: "map_of (st_tenants ?st) k = Some x" for k x
  proof (cases "k = n")
    case True
    with x have "x = t" by (simp add: map_simps)
    moreover have "p < n \<and> map_of (st_tenants st) p \<noteq> None" if "tn_parent t = Some p" for p
      using parent [OF that] below [of p] n by auto
    ultimately show ?thesis
      using t True parent by (fastforce simp: tenant_local_def tenant_placed_def map_simps)
  next
    case False
    then have x0: "map_of (st_tenants st) k = Some x" using x by (simp add: map_simps)
    have "map_of (by_name st) (tn_name x) = Some k" using d(4) [OF x0] by (simp add: tenant_placed_def)
    then have "tn_name x \<noteq> tn_name t" using name by auto
    then show ?thesis
      using d(3,4) [OF x0] n fresh below by (fastforce simp: tenant_local_def tenant_placed_def user_ok_def map_simps)
  qed
  show "\<exists>x. map_of (st_tenants ?st) k = Some x \<and> tn_name x = m" if "map_of (by_name ?st) m = Some k" for m k
    using that d(5) [of m k] fresh by (cases "m = tn_name t") (auto simp: map_simps)
  show "session_ok ?st s" if "s \<in> set (st_sessions ?st)" for s
    using d(7) [of s] that n by (auto simp: session_ok_def map_simps)
qed

lemma st_create_Ok:
  assumes "st_create st spec caps = (st', Ok t)"
  obtains n where "map_of (by_name st) (sp_name spec) = None" "subtenant_check st spec caps = Ok ()"
    "checked_add (next_tenant_id st) 1 = Some n" "validate_segment (sp_name spec) = Ok ()"
    "t = \<lparr>tn_id = n, tn_name = sp_name spec, tn_namespace = ''/tenants/'' @ sp_name spec, tn_root_caps = caps,
         tn_users = [], tn_quotas = sp_quotas spec, tn_usage = usage_default, tn_parent = sp_parent spec\<rparr>"
    "st' = st\<lparr>next_tenant_id := n, by_name := AList.update (sp_name spec) n (by_name st),
              st_tenants := AList.update n t (st_tenants st)\<rparr>"
  using assms
  by (auto simp: st_create_def Let_def tenant_namespace_new_def bind_result_eq_Ok
      split: if_splits result.splits option.splits)

lemma within_default: "within usage_default q"
  by (simp add: within_def usage_default_def)

lemma st_create_inv:
  assumes "store_inv st"
  shows "store_inv (fst (st_create st spec caps))"
proof (cases "snd (st_create st spec caps)")
  case (Ok t)
  then have "st_create st spec caps = (fst (st_create st spec caps), Ok t)" by (metis prod.collapse)
  then obtain n where n: "map_of (by_name st) (sp_name spec) = None" "subtenant_check st spec caps = Ok ()"
    "checked_add (next_tenant_id st) 1 = Some n" "validate_segment (sp_name spec) = Ok ()"
    "t = \<lparr>tn_id = n, tn_name = sp_name spec, tn_namespace = ''/tenants/'' @ sp_name spec, tn_root_caps = caps,
         tn_users = [], tn_quotas = sp_quotas spec, tn_usage = usage_default, tn_parent = sp_parent spec\<rparr>"
    "fst (st_create st spec caps) = st\<lparr>next_tenant_id := n, by_name := AList.update (sp_name spec) n (by_name st),
              st_tenants := AList.update n t (st_tenants st)\<rparr>" by (rule st_create_Ok)
  then show ?thesis
    using insert_tenant_inv [OF assms checked_next [OF n(3)], of t] subtenant_check_Ok [OF n(2)]
    by (force simp: tenant_local_def within_default)
next
  case (Err e)
  have bump: "checked_add (next_tenant_id st) 1 = Some n \<Longrightarrow> store_inv (st\<lparr>next_tenant_id := n\<rparr>)" for n
    using store_inv_bump [OF assms] checked_next less_imp_le by blast
  with Err show ?thesis using assms
    by (auto simp: st_create_def Let_def split: if_splits result.splits option.splits)
qed

text \<open>Removing a tenant nobody depends on.\<close>

lemma remove_tenant_inv:
  assumes inv: "store_inv st" and t: "map_of (st_tenants st) tid = Some t"
    and leaf: "\<And>k c. map_of (st_tenants st) k = Some c \<Longrightarrow> tn_parent c \<noteq> Some tid"
    and ss: "distinct (map ss_token_hash ss)" "set ss \<subseteq> set (st_sessions st)"
  shows "store_inv (st\<lparr>st_sessions := ss, st_tenants := AList.delete tid (st_tenants st),
    by_name := AList.delete (tn_name t) (by_name st)\<rparr>)" (is "store_inv ?st")
proof (rule store_invI)
  note d = store_invD [OF inv]
  have tn: "map_of (by_name st) (tn_name t) = Some tid" using d(4) [OF t] by (simp add: tenant_placed_def)
  show "hm_wf (st_tenants ?st)" "hm_wf (by_name ?st)" "distinct (map ss_token_hash (st_sessions ?st))"
    using d(1,2) ss(1) by simp_all
  show "tenant_local ?st x \<and> tenant_placed ?st k x" if x: "map_of (st_tenants ?st) k = Some x" for k x
  proof -
    from x have x0: "k \<noteq> tid" "map_of (st_tenants st) k = Some x" by (auto simp: map_simps split: if_splits)
    have "map_of (by_name st) (tn_name x) = Some k" using d(4) [OF x0(2)] by (simp add: tenant_placed_def)
    then have "tn_name x \<noteq> tn_name t" using tn x0(1) by auto
    then show ?thesis
      using d(3,4) [OF x0(2)] leaf [OF x0(2)] by (auto simp: tenant_local_def tenant_placed_def user_ok_def map_simps)
  qed
  show "\<exists>x. map_of (st_tenants ?st) k = Some x \<and> tn_name x = m" if "map_of (by_name ?st) m = Some k" for m k
  proof -
    from that have m: "m \<noteq> tn_name t" "map_of (by_name st) m = Some k" by (auto simp: map_simps split: if_splits)
    with d(5) [OF m(2)] t show ?thesis by (auto simp: map_simps)
  qed
  show "session_ok ?st s" if "s \<in> set (st_sessions ?st)" for s
    using that ss(2) d(7) [of s] by (auto simp: session_ok_def map_simps)
qed

lemma st_delete_inv:
  assumes "store_inv st"
  shows "store_inv (fst (st_delete st tid))"
proof (cases "snd (st_delete st tid)")
  case (Ok u)
  then obtain t where t: "map_of (st_tenants st) tid = Some t"
    "\<not> list_ex (\<lambda>child. tn_parent child = Some tid) (map_values (st_tenants st))"
    "fst (st_delete st tid) = st\<lparr>st_sessions := st_sessions st, st_tenants := AList.delete tid (st_tenants st),
      by_name := AList.delete (tn_name t) (by_name st)\<rparr>"
    by (auto simp: st_delete_def split: option.splits if_splits)
  moreover have "tn_parent c \<noteq> Some tid" if "map_of (st_tenants st) k = Some c" for k c
    using that t(2) hm.value_iff [OF store_invD(1) [OF assms], of c] by (auto simp: list_ex_iff)
  ultimately show ?thesis using remove_tenant_inv [OF assms t(1), of "st_sessions st"] store_invD(6) [OF assms] by simp
next
  case (Err e)
  then show ?thesis using assms by (auto simp: st_delete_def split: option.splits if_splits)
qed

lemma distinct_filter_sessions:
  "store_inv st \<Longrightarrow> distinct (map ss_token_hash (filter P (st_sessions st)))"
  using store_invD(6) by (auto simp: distinct_map inj_on_def)

lemma store_inv_drop_sessions:
  assumes "store_inv st"
  shows "store_inv (st\<lparr>st_sessions := filter P (st_sessions st)\<rparr>)"
  using assms distinct_filter_sessions [OF assms, of P]
  by (auto simp: store_inv_def session_ok_def tenant_local_def tenant_placed_def user_ok_def)

lemma st_add_user_inv:
  assumes "store_inv st"
  shows "store_inv (fst (st_add_user st tid name req))"
proof (cases "snd (st_add_user st tid name req)")
  case (Ok u)
  then obtain t caps n where t: "map_of (st_tenants st) tid = Some t" "validate_segment name = Ok ()"
    "\<not> list_ex (\<lambda>u. us_name u = name) (tn_users t)" "attenuate (tn_root_caps t) req = Ok caps"
    "checked_add (next_user_id st) 1 = Some n"
    "fst (st_add_user st tid name req) = st\<lparr>next_user_id := n, st_tenants := map_update_with tid
       (tn_users_update (\<lambda>us. us @ [\<lparr>us_id = n, us_name = name, us_caps = caps, us_password_hash = None\<rparr>])) (st_tenants st),
       st_sessions := st_sessions st\<rparr>"
    by (auto simp: st_add_user_def Let_def split: result.splits option.splits if_splits)
  have lt: "next_user_id st < n" using checked_next [OF t(5)] .
  have loc: "tenant_local st t" using store_invD(3) [OF assms t(1)] .
  then have "n \<notin> set (map us_id (tn_users t))" using lt by (auto simp: tenant_local_def user_ok_def)
  moreover have "tc_contains (tn_root_caps t) caps" using t(4) by (auto simp: attenuate_def split: if_splits)
  ultimately have "tenant_local (st\<lparr>next_user_id := n\<rparr>)
      (tn_users_update (\<lambda>us. us @ [\<lparr>us_id = n, us_name = name, us_caps = caps, us_password_hash = None\<rparr>]) t)"
    using loc t(2,3) lt by (auto simp: tenant_local_def user_ok_def list_ex_iff)
  then show ?thesis
    unfolding t(6) using assms t(1) lt store_invD(6) [OF assms]
    by (intro store_inv_modify) auto
next
  case (Err e)
  then show ?thesis using assms
    by (auto simp: st_add_user_def Let_def split: result.splits option.splits if_splits)
qed

lemma st_remove_user_inv:
  assumes "store_inv st"
  shows "store_inv (fst (st_remove_user st tid uid))"
proof (cases "map_of (st_tenants st) tid")
  case (Some t)
  have eq: "fst (st_remove_user st tid uid) = st\<lparr>next_user_id := next_user_id st,
     st_tenants := map_update_with tid (tn_users_update (filter (\<lambda>u. us_id u \<noteq> uid))) (st_tenants st),
     st_sessions := drop_user_sessions tid uid (st_sessions st)\<rparr>"
    using Some by (simp add: st_remove_user_def)
  have "tenant_local st (tn_users_update (filter (\<lambda>u. us_id u \<noteq> uid)) t)"
    using store_invD(3) [OF assms Some] by (auto simp: tenant_local_def user_ok_def distinct_map inj_on_def)
  then show ?thesis
    unfolding eq drop_user_sessions_def using assms Some distinct_filter_sessions [OF assms]
    by (intro store_inv_modify) auto
qed (use assms in \<open>simp add: st_remove_user_def\<close>)

lemma update_first_map:
  "(\<And>x. g (f x) = g x) \<Longrightarrow> map g (update_first P f xs) = map g xs"
  by (induction xs) auto

lemma update_first_keep: "x \<in> set xs \<Longrightarrow> \<not> P x \<Longrightarrow> x \<in> set (update_first P f xs)"
  by (induction xs) auto

lemma update_first_subset: "y \<in> set (update_first P f xs) \<Longrightarrow> y \<in> set xs \<or> (\<exists>x \<in> set xs. y = f x)"
  by (induction xs) (auto split: if_splits)

lemma st_set_password_inv:
  assumes "store_inv st"
  shows "store_inv (fst (st_set_password argon st tid uid plain))"
proof (cases "snd (st_set_password argon st tid uid plain)")
  case (Ok u)
  then obtain h t where t: "map_of (st_tenants st) tid = Some t"
    "fst (st_set_password argon st tid uid plain) = st\<lparr>next_user_id := next_user_id st,
       st_tenants := map_update_with tid
         (tn_users_update (update_first (\<lambda>u. us_id u = uid) (us_password_hash_update (\<lambda>_. Some h)))) (st_tenants st),
       st_sessions := drop_user_sessions tid uid (st_sessions st)\<rparr>"
    by (auto simp: st_set_password_def split: result.splits option.splits)
  have "tenant_local st (tn_users_update (update_first (\<lambda>u. us_id u = uid) (us_password_hash_update (\<lambda>_. Some h))) t)"
    using store_invD(3) [OF assms t(1)]
    by (auto simp: tenant_local_def user_ok_def update_first_map dest!: update_first_subset)
  then show ?thesis
    unfolding t(2) drop_user_sessions_def using assms t(1) distinct_filter_sessions [OF assms]
    by (intro store_inv_modify) (auto intro!: bexI [OF _ update_first_keep])
next
  case (Err e)
  then show ?thesis using assms by (auto simp: st_set_password_def split: result.splits option.splits)
qed

lemma narrow_user_caps: "tc_contains new (us_caps (narrow_user new u))"
  using tc_contains_and(2) [of new "us_caps u"] by (simp add: narrow_user_def tc_contains_truncate)

lemma st_rotate_inv:
  assumes "store_inv st"
  shows "store_inv (fst (st_rotate_root_caps st tid new))"
proof (cases "snd (st_rotate_root_caps st tid new)")
  case (Ok r)
  then obtain t where t: "map_of (st_tenants st) tid = Some t"
    "fst (st_rotate_root_caps st tid new) = st\<lparr>next_user_id := next_user_id st,
       st_tenants := map_update_with tid
         (\<lambda>t. t\<lparr>tn_root_caps := new, tn_users := map (narrow_user new) (tn_users t)\<rparr>) (st_tenants st),
       st_sessions := drop_tenant_sessions tid (st_sessions st)\<rparr>"
    by (auto simp: st_rotate_root_caps_def Let_def split: result.splits option.splits if_splits)
  have names: "us_id (narrow_user new u) = us_id u" "us_name (narrow_user new u) = us_name u" for u
    by (simp_all add: narrow_user_def)
  have "tenant_local st (t\<lparr>tn_root_caps := new, tn_users := map (narrow_user new) (tn_users t)\<rparr>)"
    using store_invD(3) [OF assms t(1)] narrow_user_caps
    by (auto simp: tenant_local_def user_ok_def names comp_def)
  then show ?thesis
    unfolding t(2) drop_tenant_sessions_def using assms t(1) distinct_filter_sessions [OF assms]
    by (intro store_inv_modify) auto
next
  case (Err e)
  then show ?thesis using assms
    by (auto simp: st_rotate_root_caps_def Let_def split: result.splits option.splits if_splits)
qed

lemma find_user_Some: "find_user P t = Some u \<Longrightarrow> u \<in> set (tn_users t) \<and> P u"
  by (auto simp: find_user_def find_Some_iff)

lemma st_create_session_Ok:
  assumes "st_create_session ht raw now st tid uid req ttl = (st', Ok (tok, s))"
  obtains t u where "map_of (st_tenants st) tid = Some t" "find_user (\<lambda>u. us_id u = uid) t = Some u"
    "tok = concat (map hex_byte raw)" "ss_token_hash s = ht tok" "ss_tenant s = tid" "ss_user s = uid"
    "ss_user_name s = us_name u" "ss_caps s = tc_from_bits_truncate (us_caps u AND req)" "ss_created_ms s = now"
    "ss_expires_ms s = saturating_add now (saturating_mul (case ttl of None \<Rightarrow> DEFAULT_SESSION_TTL_SECS | Some x \<Rightarrow> x) 1000)"
    "st' = st\<lparr>st_sessions := filter (\<lambda>x. ss_token_hash x \<noteq> ht tok) (st_sessions st) @ [s]\<rparr>"
  using assms by (auto simp: st_create_session_def mint_token_def Let_def split: option.splits)

lemma st_create_session_inv:
  assumes "store_inv st"
  shows "store_inv (fst (st_create_session ht raw now st tid uid req ttl))"
proof (cases "snd (st_create_session ht raw now st tid uid req ttl)")
  case (Ok r)
  obtain tok s where r: "r = (tok, s)" by (cases r)
  define st' where "st' = fst (st_create_session ht raw now st tid uid req ttl)"
  have "st_create_session ht raw now st tid uid req ttl = (st', Ok (tok, s))" using Ok r by (simp add: st'_def prod_eq_iff)
  then obtain t u where t: "map_of (st_tenants st) tid = Some t" "find_user (\<lambda>u. us_id u = uid) t = Some u"
    "ss_token_hash s = ht tok" "ss_tenant s = tid" "ss_user s = uid" "ss_user_name s = us_name u"
    "ss_caps s = tc_from_bits_truncate (us_caps u AND req)"
    "st' = st\<lparr>st_sessions := filter (\<lambda>x. ss_token_hash x \<noteq> ht tok) (st_sessions st) @ [s]\<rparr>"
    by (rule st_create_session_Ok)
  have "tid \<le> next_tenant_id st" using store_invD(4) [OF assms t(1)] by (simp add: tenant_placed_def)
  moreover have "u \<in> set (tn_users t)" "us_id u = uid" using find_user_Some [OF t(2)] by auto
  moreover have "tc_contains (us_caps u) (ss_caps s)"
    using tc_contains_and(1) tc_contains_truncate t(7) by simp
  ultimately have "session_ok st s" using t by (auto simp: session_ok_def)
  moreover have "distinct (map ss_token_hash (filter (\<lambda>x. ss_token_hash x \<noteq> ht tok) (st_sessions st) @ [s]))"
    using distinct_filter_sessions [OF assms] t(3) by auto
  ultimately show ?thesis
    using assms t(8) by (auto simp: store_inv_def session_ok_def tenant_local_def tenant_placed_def user_ok_def
        simp flip: st'_def)
next
  case (Err e)
  then show ?thesis using assms
    by (auto simp: st_create_session_def mint_token_def Let_def split: option.splits)
qed

lemma session_drop_inv:
  assumes "store_inv st"
  shows "store_inv (fst (st_revoke_token ht st tok))" "store_inv (fst (st_purge_expired_sessions now st))"
    "store_inv (fst (st_revoke_user_sessions st tid uid))" "store_inv (fst (st_revoke_tenant_sessions st tid))"
  using assms store_inv_drop_sessions [OF assms]
  by (simp_all add: st_revoke_token_def st_purge_expired_sessions_def st_revoke_user_sessions_def
      st_revoke_tenant_sessions_def drop_user_sessions_def drop_tenant_sessions_def Let_def)

subsection \<open>Charging the chain\<close>

text \<open>The chain climbs from the tenant to its root; ids decrease, so it visits no tenant twice.\<close>

definition parents_below :: "(tenant_id \<times> tenant) list \<Rightarrow> bool" where
  "parents_below ts \<longleftrightarrow> (\<forall>k t p. map_of ts k = Some t \<longrightarrow> tn_parent t = Some p \<longrightarrow> p < k)"

lemma store_inv_parents: "store_inv st \<Longrightarrow> parents_below (st_tenants st)"
  using store_invD(4) by (fastforce simp: parents_below_def tenant_placed_def)

lemma chain_loop_sorted:
  assumes "chain_loop ts (Some tid) d = Ok chain" "parents_below ts"
  shows "\<exists>rest. chain = tid # rest \<and> sorted_wrt (>) chain \<and> (\<forall>x \<in> set chain. map_of ts x \<noteq> None)"
  using assms
proof (induction ts "Some tid" d arbitrary: tid chain rule: chain_loop.induct)
  case (2 ts tid d)
  then obtain t out where t: "map_of ts tid = Some t" "\<not> 64 < d" "chain_loop ts (tn_parent t) (d + 1) = Ok out"
    "chain = tid # out" by (auto simp: bind_result_eq_Ok split: option.splits if_splits)
  show ?case
  proof (cases "tn_parent t")
    case (Some p)
    with 2(1) [OF t(2,1) Some] t(3) 2(3) obtain rest where "out = p # rest" "sorted_wrt (>) out" "\<forall>x \<in> set out. map_of ts x \<noteq> None"
      by auto
    moreover have "p < tid" using 2(3) t(1) Some by (simp add: parents_below_def)
    ultimately show ?thesis using t by auto
  qed (use t in simp)
qed

lemma chain_from_distinct:
  assumes "store_inv st" "chain_from st tid = Ok chain"
  shows "distinct chain" "tid \<in> set chain" "\<forall>x \<in> set chain. map_of (st_tenants st) x \<noteq> None"
proof -
  obtain rest where r: "chain = tid # rest" "sorted_wrt (>) chain" "\<forall>x \<in> set chain. map_of (st_tenants st) x \<noteq> None"
    using chain_loop_sorted [OF _ store_inv_parents [OF assms(1)]] assms(2) unfolding chain_from_def by blast
  then show "tid \<in> set chain" "\<forall>x \<in> set chain. map_of (st_tenants st) x \<noteq> None" by auto
  from r(2) have "sorted_wrt (<) (rev chain)" by (simp add: sorted_wrt_rev)
  then show "distinct chain" using strict_sorted_iff [of "rev chain"] by simp
qed

text \<open>Both passes, as one simultaneous update of the chain.\<close>

definition on_chain :: "tenant_id list \<Rightarrow> (tenant \<Rightarrow> tenant) \<Rightarrow> (tenant_id \<times> tenant) list \<Rightarrow> (tenant_id \<times> tenant) list" where
  "on_chain chain f ts = map (\<lambda>(k, t). (k, if k \<in> set chain then f t else t)) ts"

lemma on_chain_Nil [simp]: "on_chain [] f ts = ts"
  by (induction ts) (auto simp: on_chain_def)

lemma on_chain_Cons: "tid \<notin> set chain \<Longrightarrow> on_chain chain f (map_update_with tid f ts) = on_chain (tid # chain) f ts"
  by (auto simp: on_chain_def map_update_with_def)

lemma map_of_on_chain: "map_of (on_chain chain f ts) k = map_option (\<lambda>t. if k \<in> set chain then f t else t) (map_of ts k)"
  by (induction ts) (auto simp: on_chain_def)

lemma charge_check_Ok:
  assumes "charge_check ts c chain = Ok ()" "k \<in> set chain"
  shows "\<exists>t. map_of ts k = Some t \<and> within (add_usage (tn_usage t) c) (tn_quotas t)"
  using assms by (induction ts c chain rule: charge_check.induct) (auto simp: charge_quota_Ok split: option.splits result.splits)

lemma map_update_with_cong:
  assumes "hm_wf m" "map_of m k = Some v" "f v = g v"
  shows "map_update_with k f m = map_update_with k g m"
  unfolding map_update_with_def
  using assms hm.entry_iff [OF assms(1)] by (intro map_cong) force+

lemma charge_apply_on_chain:
  assumes "hm_wf ts" "distinct chain" "\<And>k. k \<in> set chain \<Longrightarrow> \<exists>t. map_of ts k = Some t \<and> within (add_usage (tn_usage t) c) (tn_quotas t)"
  shows "charge_apply ts c chain = (on_chain chain (\<lambda>t. t\<lparr>tn_usage := add_usage (tn_usage t) c\<rparr>) ts, Ok ())"
  using assms
proof (induction ts c chain rule: charge_apply.induct)
  case (2 ts c tid chain)
  then obtain t where t: "map_of ts tid = Some t" "charge_quota (tn_usage t) (tn_quotas t) c = Ok (add_usage (tn_usage t) c)"
    by (force simp: charge_quota_Ok)
  define ts' where "ts' = map_update_with tid (tn_usage_update (\<lambda>_. add_usage (tn_usage t) c)) ts"
  have "charge_apply ts' c chain = (on_chain chain (\<lambda>t. t\<lparr>tn_usage := add_usage (tn_usage t) c\<rparr>) ts', Ok ())"
    unfolding ts'_def by (rule 2(1) [OF t]) (use 2(2-4) in \<open>auto simp: map_simps\<close>)
  moreover have "ts' = map_update_with tid (\<lambda>t. t\<lparr>tn_usage := add_usage (tn_usage t) c\<rparr>) ts"
    unfolding ts'_def by (rule map_update_with_cong [OF 2(2) t(1)]) simp
  ultimately show ?case using t 2(3) by (simp add: ts'_def on_chain_Cons)
qed simp

lemma release_apply_on_chain:
  assumes "distinct chain" "\<And>k. k \<in> set chain \<Longrightarrow> map_of ts k \<noteq> None"
  shows "release_apply ts c chain = (on_chain chain (\<lambda>t. t\<lparr>tn_usage := release_quota (tn_usage t) c\<rparr>) ts, Ok ())"
  using assms
proof (induction ts c chain rule: release_apply.induct)
  case (2 ts c tid chain)
  then obtain t where t: "map_of ts tid = Some t" by force
  have "release_apply (map_update_with tid (\<lambda>t. t\<lparr>tn_usage := release_quota (tn_usage t) c\<rparr>) ts) c chain =
    (on_chain chain (\<lambda>t. t\<lparr>tn_usage := release_quota (tn_usage t) c\<rparr>)
      (map_update_with tid (\<lambda>t. t\<lparr>tn_usage := release_quota (tn_usage t) c\<rparr>) ts), Ok ())"
    by (rule 2(1) [OF t]) (use 2(2,3) in \<open>auto simp: map_simps\<close>)
  then show ?case using t 2(2) by (simp add: on_chain_Cons)
qed simp

text \<open>A usage change along a chain that stays within the ceilings keeps the invariant.\<close>

lemma on_chain_inv:
  assumes "store_inv st" "\<And>k t. map_of (st_tenants st) k = Some t \<Longrightarrow> k \<in> set chain \<Longrightarrow> within (g t) (tn_quotas t)"
  shows "store_inv (st\<lparr>st_tenants := on_chain chain (\<lambda>t. t\<lparr>tn_usage := g t\<rparr>) (st_tenants st)\<rparr>)" (is "store_inv ?st")
proof (rule store_invI)
  note d = store_invD [OF assms(1)]
  have keys: "map fst (on_chain chain f ts) = map fst ts" for f :: "tenant \<Rightarrow> tenant" and ts
    by (induction ts) (auto simp: on_chain_def)
  have quotas: "(\<exists>pt. map_of (on_chain chain (\<lambda>t. t\<lparr>tn_usage := g t\<rparr>) (st_tenants st)) p = Some pt \<and> P (tn_quotas pt)) \<longleftrightarrow>
      (\<exists>pt. map_of (st_tenants st) p = Some pt \<and> P (tn_quotas pt))" for p P
    by (cases "map_of (st_tenants st) p") (simp_all add: map_of_on_chain)
  show "hm_wf (st_tenants ?st)" using d(1) by (simp add: hm_wf_def keys)
  show "hm_wf (by_name ?st)" "distinct (map ss_token_hash (st_sessions ?st))" using d(2,6) by simp_all
  show "tenant_local ?st t \<and> tenant_placed ?st k t" if "map_of (st_tenants ?st) k = Some t" for k t
  proof -
    from that obtain t0 where t0: "map_of (st_tenants st) k = Some t0" "t = (if k \<in> set chain then t0\<lparr>tn_usage := g t0\<rparr> else t0)"
      by (auto simp: map_of_on_chain)
    have "tenant_placed ?st k t0" using d(4) [OF t0(1)] unfolding tenant_placed_def by (auto simp: quotas)
    with t0 d(3) [OF t0(1)] assms(2) [OF t0(1)] show ?thesis
      by (auto simp: tenant_local_def tenant_placed_def user_ok_def)
  qed
  show "\<exists>t. map_of (st_tenants ?st) k = Some t \<and> tn_name t = n" if "map_of (by_name ?st) n = Some k" for n k
    using d(5) [of n k] that by (cases "k \<in> set chain") (auto simp: map_of_on_chain)
  show "session_ok ?st s" if "s \<in> set (st_sessions ?st)" for s
    using d(7) [of s] that by (auto simp: session_ok_def map_of_on_chain)
qed

lemma st_charge_Ok:
  assumes "store_inv st" "st_charge st tid c = (st', Ok u)"
  obtains chain where "chain_from st tid = Ok chain" "charge_check (st_tenants st) c chain = Ok ()"
    "st' = st\<lparr>st_tenants := on_chain chain (\<lambda>t. t\<lparr>tn_usage := add_usage (tn_usage t) c\<rparr>) (st_tenants st)\<rparr>"
    "u = usage_of (st_tenants st') tid"
proof -
  from assms(2) obtain chain where ch: "chain_from st tid = Ok chain" "charge_check (st_tenants st) c chain = Ok ()"
    by (auto simp: st_charge_def split: result.splits)
  have "charge_apply (st_tenants st) c chain =
      (on_chain chain (\<lambda>t. t\<lparr>tn_usage := add_usage (tn_usage t) c\<rparr>) (st_tenants st), Ok ())"
    using charge_apply_on_chain [OF store_invD(1) [OF assms(1)] chain_from_distinct(1) [OF assms(1) ch(1)]]
      charge_check_Ok [OF ch(2)] by blast
  with ch assms(2) show thesis by (intro that [OF ch]) (auto simp: st_charge_def)
qed

lemma st_charge_Err:
  assumes "store_inv st" "st_charge st tid c = (st', Err e)"
  shows "st' = st"
proof (cases "chain_from st tid")
  case (Ok chain)
  show ?thesis
  proof (cases "charge_check (st_tenants st) c chain")
    case ok: (Ok x)
    have "charge_apply (st_tenants st) c chain =
        (on_chain chain (\<lambda>t. t\<lparr>tn_usage := add_usage (tn_usage t) c\<rparr>) (st_tenants st), Ok ())"
      using charge_apply_on_chain [OF store_invD(1) [OF assms(1)] chain_from_distinct(1) [OF assms(1) Ok]]
        charge_check_Ok [of "st_tenants st" c chain] ok by simp
    with Ok ok assms(2) show ?thesis by (simp add: st_charge_def)
  qed (use Ok assms(2) in \<open>simp add: st_charge_def\<close>)
qed (use assms(2) in \<open>simp add: st_charge_def\<close>)

lemma st_release_eq:
  assumes "store_inv st" "chain_from st tid = Ok chain"
  shows "fst (st_release st tid c) =
    st\<lparr>st_tenants := on_chain chain (\<lambda>t. t\<lparr>tn_usage := release_quota (tn_usage t) c\<rparr>) (st_tenants st)\<rparr>"
    and "snd (st_release st tid c) = Ok (usage_of (st_tenants (fst (st_release st tid c))) tid)"
  using release_apply_on_chain [OF chain_from_distinct(1) [OF assms], of "st_tenants st" c] chain_from_distinct(3) [OF assms] assms(2)
  by (auto simp: st_release_def)

lemma st_charge_inv:
  assumes "store_inv st"
  shows "store_inv (fst (st_charge st tid c))"
proof (cases "st_charge st tid c")
  case (Pair st' r)
  show ?thesis
  proof (cases r)
    case (Ok u)
    with Pair have "st_charge st tid c = (st', Ok u)" by simp
    then obtain chain where "charge_check (st_tenants st) c chain = Ok ()"
      "st' = st\<lparr>st_tenants := on_chain chain (\<lambda>t. t\<lparr>tn_usage := add_usage (tn_usage t) c\<rparr>) (st_tenants st)\<rparr>"
      by (rule st_charge_Ok [OF assms])
    with on_chain_inv [OF assms, of chain "\<lambda>t. add_usage (tn_usage t) c"] charge_check_Ok [of "st_tenants st" c chain] Pair
    show ?thesis by force
  qed (use Pair st_charge_Err [OF assms] assms in auto)
qed

lemma st_release_inv:
  assumes "store_inv st"
  shows "store_inv (fst (st_release st tid c))"
proof (cases "chain_from st tid")
  case (Ok chain)
  have "within (release_quota (tn_usage t) c) (tn_quotas t)" if "map_of (st_tenants st) k = Some t" for k t
    using store_invD(3) [OF assms that] by (simp add: tenant_local_def within_release)
  then show ?thesis using on_chain_inv [OF assms, of chain "\<lambda>t. release_quota (tn_usage t) c"] st_release_eq(1) [OF assms Ok] by simp
qed (use assms in \<open>simp add: st_release_def\<close>)

subsection \<open>Deleting a subtree\<close>

inductive descends :: "(tenant_id \<times> tenant) list \<Rightarrow> tenant_id \<Rightarrow> tenant_id \<Rightarrow> bool" for ts root where
  descends_self: "descends ts root root"
| descends_child: "map_of ts k = Some t \<Longrightarrow> tn_parent t = Some p \<Longrightarrow> descends ts root p \<Longrightarrow> descends ts root k"

lemma descends_trans: "descends ts b c \<Longrightarrow> descends ts a b \<Longrightarrow> descends ts a c"
  by (induction rule: descends.induct) (auto intro: descends.intros)

lemma descends_le: "descends ts a x \<Longrightarrow> parents_below ts \<Longrightarrow> a \<le> x"
proof (induction rule: descends.induct)
  case (descends_child k t p)
  then have "a \<le> p" "p < k" by (auto simp: parents_below_def)
  then show ?case by simp
qed simp

lemma descends_linear:
  "descends ts a x \<Longrightarrow> descends ts b x \<Longrightarrow> descends ts a b \<or> descends ts b a"
proof (induction rule: descends.induct)
  case (descends_child k t p)
  from descends_child(5,1,2) show ?case
    by (cases rule: descends.cases) (use descends_child in \<open>auto intro: descends.intros\<close>)
qed simp

lemma descends_split:
  "descends ts root x \<longleftrightarrow> x = root \<or> (\<exists>k t. map_of ts k = Some t \<and> tn_parent t = Some root \<and> descends ts k x)"
proof
  show "descends ts root x \<Longrightarrow> x = root \<or> (\<exists>k t. map_of ts k = Some t \<and> tn_parent t = Some root \<and> descends ts k x)"
    by (induction rule: descends.induct) (auto intro: descends.intros)
qed (auto intro: descends_self descends_trans [OF _ descends_child])

lemma siblings_disjoint:
  assumes "parents_below ts" "map_of ts a = Some t" "tn_parent t = Some r" "map_of ts b = Some u" "tn_parent u = Some r"
    and "descends ts a x" "descends ts b x"
  shows "a = b"
proof (rule ccontr)
  assume "a \<noteq> b"
  have *: False if "descends ts a b" "map_of ts a = Some t" "tn_parent t = Some r" "map_of ts b = Some u" "tn_parent u = Some r" "a \<noteq> b"
    for a b t u
  proof -
    from that(1) have "descends ts a r" by (cases rule: descends.cases) (use that in auto)
    then have "a \<le> r" using descends_le [OF _ assms(1)] by blast
    moreover have "r < a" using assms(1) that(2,3) by (simp add: parents_below_def)
    ultimately show False by simp
  qed
  from descends_linear [OF assms(6,7)] show False
    using * [of a b t u] * [of b a u t] assms(2-5) \<open>a \<noteq> b\<close> by auto
qed

lemma collect_walks_Ok:
  assumes "collect_walks f ks = Ok out" "distinct ks"
    and "\<And>k ys. k \<in> set ks \<Longrightarrow> f k = Ok ys \<Longrightarrow> distinct ys \<and> (\<forall>x. x \<in> set ys \<longleftrightarrow> D k x)"
    and "\<And>k j x. k \<in> set ks \<Longrightarrow> j \<in> set ks \<Longrightarrow> D k x \<Longrightarrow> D j x \<Longrightarrow> k = j"
  shows "distinct out \<and> (\<forall>x. x \<in> set out \<longleftrightarrow> (\<exists>k \<in> set ks. D k x))"
  using assms
proof (induction ks arbitrary: out)
  case (Cons k ks)
  from Cons.prems(1) obtain a b where ab: "f k = Ok a" "collect_walks f ks = Ok b" "out = a @ b"
    by (auto simp: bind_result_eq_Ok)
  have a: "distinct a" "\<And>x. x \<in> set a \<longleftrightarrow> D k x" using Cons.prems(3) [of k a] ab(1) by auto
  have b: "distinct b \<and> (\<forall>x. x \<in> set b \<longleftrightarrow> (\<exists>k \<in> set ks. D k x))"
  proof (rule Cons.IH [OF ab(2)])
    show "distinct ks" using Cons.prems(2) by simp
    show "distinct ys \<and> (\<forall>x. x \<in> set ys \<longleftrightarrow> D j x)" if "j \<in> set ks" "f j = Ok ys" for j ys
      using Cons.prems(3) [of j ys] that by simp
    show "i = j" if "i \<in> set ks" "j \<in> set ks" "D i x" "D j x" for i j x
      using Cons.prems(4) [of i j x] that by simp
  qed
  have "\<not> D j x" if "D k x" "j \<in> set ks" for j x
    using Cons.prems(4) [of k j x] that Cons.prems(2) by auto
  with a b show ?case unfolding ab(3) by (simp add: disjoint_iff)
qed simp

definition kid_ids :: "(tenant_id \<times> tenant) list \<Rightarrow> tenant_id \<Rightarrow> tenant_id list" where
  "kid_ids ts root = map tn_id (filter (\<lambda>t. tn_parent t = Some root) (map_values ts))"

definition keyed :: "(tenant_id \<times> tenant) list \<Rightarrow> bool" where
  "keyed ts \<longleftrightarrow> hm_wf ts \<and> (\<forall>k t. map_of ts k = Some t \<longrightarrow> tn_id t = k)"

lemma kid_ids_iff: "keyed ts \<Longrightarrow> k \<in> set (kid_ids ts root) \<longleftrightarrow> (\<exists>t. map_of ts k = Some t \<and> tn_parent t = Some root)"
  by (force simp: keyed_def kid_ids_def hm.value_iff)

lemma distinct_kid_ids:
  assumes "keyed ts"
  shows "distinct (kid_ids ts root)"
proof -
  have "tn_id (snd e) = fst e" if "e \<in> set ts" for e
    using assms that hm.entry_iff [of ts "fst e" "snd e"] by (simp add: keyed_def)
  then have "map tn_id (map_values ts) = map fst ts" by (simp add: map_values_def)
  then show ?thesis using assms unfolding kid_ids_def
    by (metis distinct_map_filter hm_wf_def keyed_def)
qed

lemma walk_subtree_Ok:
  assumes "walk_subtree fuel ts root = Ok out" "keyed ts" "parents_below ts"
  shows "distinct out \<and> (\<forall>x. x \<in> set out \<longleftrightarrow> descends ts root x)"
  using assms(1)
proof (induction fuel arbitrary: root out)
  case (Suc fuel)
  then obtain below where below: "collect_walks (walk_subtree fuel ts) (kid_ids ts root) = Ok below" "out = below @ [root]"
    by (auto simp: bind_result_eq_Ok kid_ids_def)
  have kid: "k \<in> set (kid_ids ts root) \<longleftrightarrow> (\<exists>t. map_of ts k = Some t \<and> tn_parent t = Some root)" for k
    using kid_ids_iff [OF assms(2)] .
  have b: "distinct below \<and> (\<forall>x. x \<in> set below \<longleftrightarrow> (\<exists>k \<in> set (kid_ids ts root). descends ts k x))"
  proof (rule collect_walks_Ok [OF below(1) distinct_kid_ids [OF assms(2)] Suc.IH])
    fix k j x
    assume "k \<in> set (kid_ids ts root)" "j \<in> set (kid_ids ts root)" "descends ts k x" "descends ts j x"
    then show "k = j" unfolding kid using siblings_disjoint [OF assms(3)] by blast
  qed
  have "root \<notin> set below"
  proof
    assume "root \<in> set below"
    then obtain k t where k: "map_of ts k = Some t" "tn_parent t = Some root" "descends ts k root"
      using b kid by blast
    have "root < k" using k(1,2) assms(3) by (simp add: parents_below_def)
    with descends_le [OF k(3) assms(3)] show False by simp
  qed
  then show ?case using b descends_split [of ts root] kid by (auto simp: below(2))
qed simp

lemma store_inv_keyed: "store_inv st \<Longrightarrow> keyed (st_tenants st)"
  using store_invD(1,4) by (fastforce simp: keyed_def tenant_placed_def)

lemma check_unused_Ok: "check_unused ts tids = Ok () \<Longrightarrow> x \<in> set tids \<Longrightarrow>
  \<exists>t. map_of ts x = Some t \<and> tn_usage t = usage_default"
  by (induction ts tids rule: check_unused.induct) (auto split: option.splits if_splits)

text \<open>What the mutation pass leaves: the subtree's tenants, their names and their sessions are gone.\<close>

definition pruned :: "store_state \<Rightarrow> tenant_id set \<Rightarrow> store_state \<Rightarrow> bool" where
  "pruned st D st' \<longleftrightarrow> next_tenant_id st' = next_tenant_id st \<and> next_user_id st' = next_user_id st \<and>
     hm_wf (st_tenants st') \<and> hm_wf (by_name st') \<and>
     (\<forall>k. map_of (st_tenants st') k = (if k \<in> D then None else map_of (st_tenants st) k)) \<and>
     (\<forall>n. map_of (by_name st') n =
        (if \<exists>k \<in> D. \<exists>t. map_of (st_tenants st) k = Some t \<and> tn_name t = n then None else map_of (by_name st) n)) \<and>
     st_sessions st' = filter (\<lambda>s. ss_tenant s \<notin> D) (st_sessions st)"

lemma pruned_step:
  assumes "map_of (st_tenants st) tid = Some t" "tid \<notin> D"
    and "pruned (st\<lparr>st_sessions := drop_tenant_sessions tid (st_sessions st),
      st_tenants := AList.delete tid (st_tenants st), by_name := AList.delete (tn_name t) (by_name st)\<rparr>) D st'"
  shows "pruned st (insert tid D) st'"
  using assms by (auto simp: pruned_def map_simps drop_tenant_sessions_def intro!: filter_cong)

lemma delete_all_pruned:
  assumes "distinct tids" "\<And>x. x \<in> set tids \<Longrightarrow> map_of (st_tenants st) x \<noteq> None"
    and "hm_wf (st_tenants st)" "hm_wf (by_name st)"
  shows "\<exists>st' rep'. delete_all st tids rep = (st', Ok rep') \<and> pruned st (set tids) st' \<and>
    map fst (dr_deleted_tenants rep') = map fst (dr_deleted_tenants rep) @ tids"
  using assms
proof (induction tids arbitrary: st rep)
  case Nil
  then show ?case by (auto simp: pruned_def)
next
  case (Cons tid tids)
  from Cons.prems(2) obtain t where t: "map_of (st_tenants st) tid = Some t" by force
  let ?st = "st\<lparr>st_sessions := drop_tenant_sessions tid (st_sessions st),
      st_tenants := AList.delete tid (st_tenants st), by_name := AList.delete (tn_name t) (by_name st)\<rparr>"
  let ?rep = "\<lparr>dr_deleted_tenants = dr_deleted_tenants rep @ [(tid, tn_name t)],
      dr_revoked_sessions = dr_revoked_sessions rep +
        (length (st_sessions st) - length (drop_tenant_sessions tid (st_sessions st))),
      dr_dropped_users = dr_dropped_users rep + length (tn_users t)\<rparr>"
  have "\<exists>st' rep'. delete_all ?st tids ?rep = (st', Ok rep') \<and> pruned ?st (set tids) st' \<and>
      map fst (dr_deleted_tenants rep') = map fst (dr_deleted_tenants ?rep) @ tids"
    by (rule Cons.IH) (use Cons.prems in \<open>auto simp: map_simps\<close>)
  then show ?case using t Cons.prems(1) pruned_step [OF t, of "set tids"] by (auto simp: Let_def)
qed

lemma pruned_inv:
  assumes "store_inv st" "pruned st D st'"
    and closed: "\<And>k t p. map_of (st_tenants st) k = Some t \<Longrightarrow> tn_parent t = Some p \<Longrightarrow> p \<in> D \<Longrightarrow> k \<in> D"
  shows "store_inv st'"
proof (rule store_invI)
  note d = store_invD [OF assms(1)]
  note p = assms(2) [unfolded pruned_def]
  show "hm_wf (st_tenants st')" "hm_wf (by_name st')" using p by simp_all
  show "distinct (map ss_token_hash (st_sessions st'))" using p distinct_filter_sessions [OF assms(1)] by simp
  have unique: "k = j" if "map_of (st_tenants st) k = Some t" "map_of (st_tenants st) j = Some u" "tn_name t = tn_name u" for k j t u
    using d(4) [OF that(1)] d(4) [OF that(2)] that(3) by (simp add: tenant_placed_def)
  show "tenant_local st' t \<and> tenant_placed st' k t" if "map_of (st_tenants st') k = Some t" for k t
  proof -
    from that p have k: "k \<notin> D" "map_of (st_tenants st) k = Some t" by (auto split: if_splits)
    have "\<not> (\<exists>j \<in> D. \<exists>u. map_of (st_tenants st) j = Some u \<and> tn_name u = tn_name t)" using unique k by blast
    then have "map_of (by_name st') (tn_name t) = map_of (by_name st) (tn_name t)" using p by presburger
    moreover have "map_of (st_tenants st') q = map_of (st_tenants st) q" if "tn_parent t = Some q" for q
      using closed [OF k(2) that] k(1) p by auto
    ultimately show ?thesis using d(3,4) [OF k(2)] p by (auto simp: tenant_local_def tenant_placed_def user_ok_def)
  qed
  show "\<exists>t. map_of (st_tenants st') k = Some t \<and> tn_name t = n" if "map_of (by_name st') n = Some k" for n k
  proof -
    from that p have n: "map_of (by_name st) n = Some k" "\<not> (\<exists>j \<in> D. \<exists>t. map_of (st_tenants st) j = Some t \<and> tn_name t = n)"
      by (auto split: if_splits)
    from d(5) [OF n(1)] n(2) p show ?thesis by auto
  qed
  show "session_ok st' s" if "s \<in> set (st_sessions st')" for s
    using d(7) [of s] that p by (auto simp: session_ok_def split: if_splits)
qed

lemma st_delete_recursive_Ok:
  assumes "store_inv st" "st_delete_tenant_recursive st tid = (st', Ok rep)"
  shows "pruned st {x. descends (st_tenants st) tid x} st' \<and>
    (\<forall>x t. descends (st_tenants st) tid x \<longrightarrow> map_of (st_tenants st) x = Some t \<longrightarrow> tn_usage t = usage_default) \<and>
    distinct (map fst (dr_deleted_tenants rep)) \<and> set (map fst (dr_deleted_tenants rep)) = {x. descends (st_tenants st) tid x}"
proof -
  from assms(2) obtain tids where w: "walk_subtree 65 (st_tenants st) tid = Ok tids" "check_unused (st_tenants st) tids = Ok ()"
    "delete_all st tids \<lparr>dr_deleted_tenants = [], dr_revoked_sessions = 0, dr_dropped_users = 0\<rparr> = (st', Ok rep)"
    by (auto simp: st_delete_tenant_recursive_def split: if_splits result.splits)
  from walk_subtree_Ok [OF w(1) store_inv_keyed [OF assms(1)] store_inv_parents [OF assms(1)]]
  have tids: "distinct tids" "set tids = {x. descends (st_tenants st) tid x}" by auto
  have used: "\<exists>t. map_of (st_tenants st) x = Some t \<and> tn_usage t = usage_default" if "x \<in> set tids" for x
    using check_unused_Ok [OF w(2) that] .
  then have ne: "map_of (st_tenants st) x \<noteq> None" if "x \<in> set tids" for x using that by auto
  have "pruned st (set tids) st'" "map fst (dr_deleted_tenants rep) = tids"
    using delete_all_pruned [OF tids(1) _ store_invD(1,2) [OF assms(1)],
        of "\<lparr>dr_deleted_tenants = [], dr_revoked_sessions = 0, dr_dropped_users = 0\<rparr>"] ne w(3) by auto
  moreover have "tn_usage t = usage_default" if "descends (st_tenants st) tid x" "map_of (st_tenants st) x = Some t" for x t
    using used [of x] tids(2) that by auto
  ultimately show ?thesis using tids by auto
qed

lemma st_delete_recursive_Err:
  assumes "store_inv st" "st_delete_tenant_recursive st tid = (st', Err e)"
  shows "st' = st"
proof (rule ccontr)
  assume "st' \<noteq> st"
  with assms(2) obtain tids where w: "walk_subtree 65 (st_tenants st) tid = Ok tids" "check_unused (st_tenants st) tids = Ok ()"
    "delete_all st tids \<lparr>dr_deleted_tenants = [], dr_revoked_sessions = 0, dr_dropped_users = 0\<rparr> = (st', Err e)"
    by (auto simp: st_delete_tenant_recursive_def split: if_splits result.splits)
  from walk_subtree_Ok [OF w(1) store_inv_keyed [OF assms(1)] store_inv_parents [OF assms(1)]]
  have "distinct tids" by simp
  moreover have "map_of (st_tenants st) x \<noteq> None" if "x \<in> set tids" for x using check_unused_Ok [OF w(2) that] by auto
  ultimately show False
    using delete_all_pruned [OF _ _ store_invD(1,2) [OF assms(1)], of tids
        "\<lparr>dr_deleted_tenants = [], dr_revoked_sessions = 0, dr_dropped_users = 0\<rparr>"] w(3) by auto
qed

lemma st_delete_recursive_inv:
  assumes "store_inv st"
  shows "store_inv (fst (st_delete_tenant_recursive st tid))"
proof (cases "st_delete_tenant_recursive st tid")
  case (Pair st' r)
  show ?thesis
  proof (cases r)
    case (Ok rep)
    with Pair st_delete_recursive_Ok [OF assms] have "pruned st {x. descends (st_tenants st) tid x} st'" by blast
    from pruned_inv [OF assms this] Pair show ?thesis by (auto intro: descends_child)
  next
    case (Err e)
    with Pair have "st' = st" by (intro st_delete_recursive_Err [OF assms]) simp
    with Pair assms show ?thesis by simp
  qed
qed

text \<open>The chain of a tenant is the set of its ancestors and itself.\<close>

lemma chain_loop_ancestors:
  "chain_loop ts (Some tid) d = Ok chain \<Longrightarrow> k \<in> set chain \<longleftrightarrow> descends ts k tid"
proof (induction ts "Some tid" d arbitrary: tid chain rule: chain_loop.induct)
  case (2 ts tid d)
  then obtain t out where t: "map_of ts tid = Some t" "\<not> 64 < d" "chain_loop ts (tn_parent t) (d + 1) = Ok out"
    "chain = tid # out" by (auto simp: bind_result_eq_Ok split: option.splits if_splits)
  have step: "descends ts k tid \<longleftrightarrow> k = tid \<or> (\<exists>p. tn_parent t = Some p \<and> descends ts k p)"
    using t(1) by (subst descends.simps) auto
  show ?case
  proof (cases "tn_parent t")
    case None
    then show ?thesis using t step by simp
  next
    case (Some p)
    with 2(1) [OF t(2,1) Some] t(3) have "k \<in> set out \<longleftrightarrow> descends ts k p" by simp
    then show ?thesis using t(4) step Some by auto
  qed
qed

lemma chain_from_ancestors: "chain_from st tid = Ok chain \<Longrightarrow> set chain = {k. descends (st_tenants st) k tid}"
  unfolding chain_from_def using chain_loop_ancestors by blast

declare chain_loop.simps [simp del]

end
