(* ===== verification/Tenant_Runs.thy ===== *)
theory Tenant_Runs
  imports Tenant_Store
begin

text \<open>
  Sequences of calls on a tenant store and what they guarantee: the authority of sessions, the
  accounting of nested tenants, deletion and revocation. Every theorem holds for every clock, token
  generator, token hash and password hash.
\<close>

subsection \<open>Runs\<close>

datatype store_cmd =
    TCreate tenant_spec tenant_caps
  | TDelete tenant_id
  | TAddUser tenant_id string tenant_caps
  | TRemoveUser tenant_id user_id
  | TCharge tenant_id quota_charge
  | TRelease tenant_id quota_charge
  | TSetPassword tenant_id user_id string
  | TCreateSession bytes u64 tenant_id user_id tenant_caps "u64 option"
  | TRevokeToken session_token
  | TPurge u64
  | TRevokeUser tenant_id user_id
  | TRevokeTenant tenant_id
  | TRotate tenant_id tenant_caps
  | TDeleteRecursive tenant_id

fun store_exec ::
  "(string \<Rightarrow> password_hash option) \<Rightarrow> (session_token \<Rightarrow> token_hash) \<Rightarrow> store_state \<Rightarrow> store_cmd \<Rightarrow> store_state" where
  "store_exec argon ht st (TCreate spec caps) = fst (st_create st spec caps)"
| "store_exec argon ht st (TDelete tid) = fst (st_delete st tid)"
| "store_exec argon ht st (TAddUser tid name caps) = fst (st_add_user st tid name caps)"
| "store_exec argon ht st (TRemoveUser tid uid) = fst (st_remove_user st tid uid)"
| "store_exec argon ht st (TCharge tid c) = fst (st_charge st tid c)"
| "store_exec argon ht st (TRelease tid c) = fst (st_release st tid c)"
| "store_exec argon ht st (TSetPassword tid uid plain) = fst (st_set_password argon st tid uid plain)"
| "store_exec argon ht st (TCreateSession raw now tid uid req ttl) =
     fst (st_create_session ht raw now st tid uid req ttl)"
| "store_exec argon ht st (TRevokeToken tok) = fst (st_revoke_token ht st tok)"
| "store_exec argon ht st (TPurge now) = fst (st_purge_expired_sessions now st)"
| "store_exec argon ht st (TRevokeUser tid uid) = fst (st_revoke_user_sessions st tid uid)"
| "store_exec argon ht st (TRevokeTenant tid) = fst (st_revoke_tenant_sessions st tid)"
| "store_exec argon ht st (TRotate tid caps) = fst (st_rotate_root_caps st tid caps)"
| "store_exec argon ht st (TDeleteRecursive tid) = fst (st_delete_tenant_recursive st tid)"

definition store_run ::
  "(string \<Rightarrow> password_hash option) \<Rightarrow> (session_token \<Rightarrow> token_hash) \<Rightarrow> store_cmd list \<Rightarrow> store_state" where
  "store_run argon ht cmds = foldl (store_exec argon ht) store_state_default cmds"

lemma store_exec_inv: "store_inv st \<Longrightarrow> store_inv (store_exec argon ht st c)"
  by (cases c) (simp_all add: st_create_inv st_delete_inv st_add_user_inv st_remove_user_inv st_charge_inv
      st_release_inv st_set_password_inv st_create_session_inv session_drop_inv st_rotate_inv st_delete_recursive_inv)

lemma store_run_inv: "store_inv (store_run argon ht cmds)"
proof -
  have "store_inv st \<Longrightarrow> store_inv (foldl (store_exec argon ht) st cmds)" for st
    by (induction cmds arbitrary: st) (auto intro: store_exec_inv)
  then show ?thesis by (simp add: store_run_def store_inv_default)
qed

lemma st_get_Ok: "st_get st tid = Ok t \<longleftrightarrow> map_of (st_tenants st) tid = Some t"
  by (auto simp: st_get_def)

lemma validate_Ok:
  "st_validate_token ht now st tok = Ok s \<Longrightarrow> s \<in> set (st_sessions st) \<and> ss_token_hash s = ht tok \<and> now < ss_expires_ms s"
  by (auto simp: st_validate_token_def find_Some_iff is_expired_at_def not_le split: option.splits if_splits)

subsection \<open>Properties\<close>

text \<open>
  C1. Authority only shrinks on the way to a token. In every run of the store, a token that
  validates has not expired, and if its tenant still exists then the session's user is still a
  user of that tenant, under the cached name, the session's capabilities are a subset of the
  user's current ones, and those a subset of the tenant's current root capabilities - whatever
  users were removed, passwords changed and capability sets rotated in between.
\<close>

theorem session_authority_bounded:
  assumes "st_validate_token ht now (store_run argon ht cmds) tok = Ok s"
    and "st_get (store_run argon ht cmds) (ss_tenant s) = Ok t"
  shows "now < ss_expires_ms s \<and> (\<exists>u \<in> set (tn_users t). us_id u = ss_user s \<and> us_name u = ss_user_name s \<and>
    tc_contains (us_caps u) (ss_caps s) \<and> tc_contains (tn_root_caps t) (us_caps u))"
proof -
  define st where "st = store_run argon ht cmds"
  have inv: "store_inv st" by (simp add: st_def store_run_inv)
  have s: "s \<in> set (st_sessions st)" "now < ss_expires_ms s" using validate_Ok [OF assms(1)] by (simp_all add: st_def)
  have t: "map_of (st_tenants st) (ss_tenant s) = Some t" using assms(2) by (simp add: st_get_Ok st_def)
  from store_invD(7) [OF inv s(1)] t obtain u where "u \<in> set (tn_users t)" "us_id u = ss_user s"
    "us_name u = ss_user_name s" "tc_contains (us_caps u) (ss_caps s)" by (auto simp: session_ok_def)
  with store_invD(3) [OF inv t] s(2) show ?thesis by (auto simp: tenant_local_def user_ok_def)
qed

text \<open>
  C23. In every run of the store, the tenants form a consistent hierarchy: a listed tenant is found
  under its id and under its name, its usage is within its quotas in all five dimensions, its users
  have distinct ids and names and no capability beyond the tenant's, and a subtenant's parent
  exists, is older (so there is no cycle), and has quotas at least as large in every dimension.
\<close>

theorem tenants_consistent:
  assumes "t \<in> set (st_list (store_run argon ht cmds))"
  shows "st_get (store_run argon ht cmds) (tn_id t) = Ok t \<and>
    st_get_by_name (store_run argon ht cmds) (tn_name t) = Ok t \<and>
    within (tn_usage t) (tn_quotas t) \<and>
    distinct (map us_id (tn_users t)) \<and> distinct (map us_name (tn_users t)) \<and>
    (\<forall>u \<in> set (tn_users t). tc_contains (tn_root_caps t) (us_caps u)) \<and>
    (\<forall>p. tn_parent t = Some p \<longrightarrow> p < tn_id t \<and>
       (\<exists>pt. st_get (store_run argon ht cmds) p = Ok pt \<and> quotas_le (tn_quotas t) (tn_quotas pt)))"
proof -
  define st where "st = store_run argon ht cmds"
  have inv: "store_inv st" by (simp add: st_def store_run_inv)
  from assms obtain k where t: "map_of (st_tenants st) k = Some t"
    by (auto simp: st_list_def hm.value_iff [OF store_invD(1) [OF inv]] simp flip: st_def)
  with store_invD(3,4) [OF inv t] show ?thesis
    by (auto simp: tenant_local_def tenant_placed_def user_ok_def st_get_Ok st_get_by_name_def simp flip: st_def)
qed

text \<open>
  C2. Charging a nested tenant is all or nothing. In every reachable store, a charge that fails
  leaves the store as it was; a charge that succeeds raises the usage of the tenant and of all its
  ancestors by the charge, each staying within its own quotas, and of no other tenant.
\<close>

theorem charge_all_or_nothing:
  assumes "st_charge (store_run argon ht cmds) tid c = (st', r)"
  shows "(\<forall>e. r = Err e \<longrightarrow> st' = store_run argon ht cmds) \<and>
    (\<forall>u. r = Ok u \<longrightarrow> u = usage_of (st_tenants st') tid \<and>
      (\<forall>k t. st_get (store_run argon ht cmds) k = Ok t \<longrightarrow>
        (\<exists>t'. st_get st' k = Ok t' \<and> within (tn_usage t') (tn_quotas t') \<and>
          tn_usage t' = (if descends (st_tenants (store_run argon ht cmds)) k tid
                         then add_usage (tn_usage t) c else tn_usage t))))"
proof -
  define st where "st = store_run argon ht cmds"
  have inv: "store_inv st" by (simp add: st_def store_run_inv)
  have ch: "st_charge st tid c = (st', r)" using assms by (simp add: st_def)
  have "u = usage_of (st_tenants st') tid \<and> (\<forall>k t. st_get st k = Ok t \<longrightarrow>
      (\<exists>t'. st_get st' k = Ok t' \<and> within (tn_usage t') (tn_quotas t') \<and>
        tn_usage t' = (if descends (st_tenants st) k tid then add_usage (tn_usage t) c else tn_usage t)))"
    if "r = Ok u" for u
  proof -
    from st_charge_Ok [OF inv] ch that obtain chain where chain: "chain_from st tid = Ok chain"
      "charge_check (st_tenants st) c chain = Ok ()" "u = usage_of (st_tenants st') tid"
      "st' = st\<lparr>st_tenants := on_chain chain (\<lambda>t. t\<lparr>tn_usage := add_usage (tn_usage t) c\<rparr>) (st_tenants st)\<rparr>" by blast
    have "within (tn_usage t) (tn_quotas t)" if "map_of (st_tenants st) k = Some t" for k t
      using store_invD(3) [OF inv that] by (simp add: tenant_local_def)
    with charge_check_Ok [OF chain(2)] chain_from_ancestors [OF chain(1)] show ?thesis
      by (force simp: st_get_Ok map_of_on_chain chain(3,4))
  qed
  with st_charge_Err [OF inv] ch show ?thesis by (auto simp flip: st_def)
qed

text \<open>The equations that evaluate the store on concrete calls.\<close>

definition demo_quotas :: tenant_quotas where
  "demo_quotas = \<lparr>max_vcpus = 8, max_memory_mib = 1024, max_storage_bytes = 4096, max_network_mbps = 10, max_iops = 10\<rparr>"

definition demo_spec :: tenant_spec where
  "demo_spec = \<lparr>sp_name = ''a'', sp_quotas = demo_quotas, sp_parent = None\<rparr>"

definition demo_setup :: "store_cmd list" where
  "demo_setup = [TCreate demo_spec TC_ALL, TAddUser 1 ''u'' TC_VM_LIFECYCLE_READ,
     TCreateSession [] 0 1 1 TC_ALL (Some 60)]"

lemmas store_eval = demo_setup_def demo_spec_def demo_quotas_def store_run_def store_state_default_def st_create_def
  subtenant_check_def checked_add_def tenant_namespace_new_def validate_segment_def is_segment_byte_def
  st_add_user_def attenuate_def tc_contains_def TC_ALL_def tc_bit_defs st_create_session_def find_user_def mint_token_def
  tc_from_bits_truncate_def saturating_mul_def saturating_add_def map_update_with_def st_get_def
  st_validate_token_def is_expired_at_def Let_def

lemma demo_session:
  "\<exists>s t. st_validate_token ht 2 (store_run argon ht demo_setup) [] = Ok s \<and>
     st_get (store_run argon ht demo_setup) (ss_tenant s) = Ok t"
  by (simp add: store_eval)

theorem session_authority_bounded_witness:
  "\<exists>s. st_validate_token (\<lambda>_. []) 2 (store_run (\<lambda>_. None) (\<lambda>_. []) demo_setup) [] = Ok s \<and> 2 < ss_expires_ms s"
proof -
  obtain s t where "st_validate_token (\<lambda>_. []) 2 (store_run (\<lambda>_. None) (\<lambda>_. []) demo_setup) [] = Ok s"
    "st_get (store_run (\<lambda>_. None) (\<lambda>_. []) demo_setup) (ss_tenant s) = Ok t" using demo_session by blast
  with session_authority_bounded [OF this] show ?thesis by blast
qed

theorem tenants_consistent_witness:
  "\<exists>t \<in> set (st_list (store_run (\<lambda>_. None) (\<lambda>_. []) demo_setup)). within (tn_usage t) (tn_quotas t)"
proof -
  obtain t where "t \<in> set (st_list (store_run (\<lambda>_. None) (\<lambda>_. []) demo_setup))"
    by (simp add: store_eval st_list_def map_values_def)
  with tenants_consistent [OF this] show ?thesis by blast
qed

definition demo_charge :: quota_charge where
  "demo_charge = \<lparr>qc_vcpus = 2, qc_memory_mib = 64, qc_storage_bytes = 0, qc_network_mbps = 0, qc_iops = 0\<rparr>"

lemmas charge_eval = st_charge_def st_release_def chain_from_def chain_loop.simps charge_quota_def release_quota_def demo_charge_def
  usage_default_def usage_of_def saturating_sub_def

lemma demo_charged:
  "\<exists>st' u. st_charge (store_run argon ht demo_setup) 1 demo_charge = (st', Ok u)"
  by (simp add: store_eval charge_eval)

theorem charge_all_or_nothing_witness:
  "\<exists>st' u. st_charge (store_run (\<lambda>_. None) (\<lambda>_. []) demo_setup) 1 demo_charge = (st', Ok u) \<and>
     u = usage_of (st_tenants st') 1"
proof -
  obtain st' u where c: "st_charge (store_run (\<lambda>_. None) (\<lambda>_. []) demo_setup) 1 demo_charge = (st', Ok u)"
    using demo_charged by blast
  with charge_all_or_nothing [OF c] show ?thesis by simp
qed

lemma on_chain_cancel:
  assumes "\<And>k t. map_of ts k = Some t \<Longrightarrow> k \<in> set chain \<Longrightarrow> f (g t) = t" "hm_wf ts"
  shows "on_chain chain f (on_chain chain g ts) = ts"
proof -
  have "(\<lambda>(k, t). (k, if k \<in> set chain then f t else t)) ((\<lambda>(k, t). (k, if k \<in> set chain then g t else t)) e) = e"
    if "e \<in> set ts" for e
  proof -
    obtain k t where e: "e = (k, t)" by (cases e)
    then have "map_of ts k = Some t" using that by (simp add: hm.entry_iff [OF assms(2)])
    then show ?thesis using assms(1) [of k t] by (simp add: e)
  qed
  then show ?thesis by (simp add: on_chain_def map_idI)
qed

lemma chain_from_usage:
  "chain_from (st\<lparr>st_tenants := on_chain chain (\<lambda>t. t\<lparr>tn_usage := g t\<rparr>) (st_tenants st)\<rparr>) tid = chain_from st tid"
proof -
  have "chain_loop (on_chain ks (\<lambda>t. t\<lparr>tn_usage := g t\<rparr>) ts) o' d = chain_loop ts o' d" for ks ts o' d
    by (induction ts o' d rule: chain_loop.induct) (auto simp: map_of_on_chain chain_loop.simps split: option.splits)
  then show ?thesis by (simp add: chain_from_def)
qed

lemma charge_release_cancel:
  assumes "store_inv st" "st_charge st tid c = (st', Ok u)"
    and "\<And>k t. map_of (st_tenants st) k = Some t \<Longrightarrow> quotas_finite (tn_quotas t)"
  shows "fst (st_release st' tid c) = st"
proof -
  let ?f = "\<lambda>t. t\<lparr>tn_usage := add_usage (tn_usage t) c\<rparr>"
  let ?g = "\<lambda>t. t\<lparr>tn_usage := release_quota (tn_usage t) c\<rparr>"
  from st_charge_Ok [OF assms(1,2)] obtain chain where chain: "chain_from st tid = Ok chain"
    "charge_check (st_tenants st) c chain = Ok ()" "st' = st\<lparr>st_tenants := on_chain chain ?f (st_tenants st)\<rparr>" by blast
  have inv': "store_inv st'" using st_charge_inv [OF assms(1), of tid c] assms(2) by simp
  have chain': "chain_from st' tid = Ok chain" using chain(1) by (simp add: chain(3) chain_from_usage)
  have cancel: "?g (?f t) = t" if "map_of (st_tenants st) k = Some t" "k \<in> set chain" for k t
    using charge_check_Ok [OF chain(2) that(2)] that(1) within_fits [OF _ assms(3) [OF that(1)]] release_add by simp
  have "on_chain chain ?g (on_chain chain ?f (st_tenants st)) = st_tenants st"
    by (rule on_chain_cancel) (rule cancel, assumption+, rule store_invD(1) [OF assms(1)])
  then show ?thesis unfolding st_release_eq(1) [OF inv' chain'] by (simp add: chain(3))
qed

text \<open>
  C34. Releasing what was charged restores the books exactly. In a reachable store whose quotas are
  all below the largest integer (none unlimited), a successful charge followed by the release of
  the same charge gives back the very same store, at every level of the hierarchy.
\<close>

theorem charge_release_roundtrip:
  assumes "st_charge (store_run argon ht cmds) tid c = (st', Ok u)"
    and "\<And>t. t \<in> set (st_list (store_run argon ht cmds)) \<Longrightarrow> quotas_finite (tn_quotas t)"
  shows "fst (st_release st' tid c) = store_run argon ht cmds"
  using assms(2) hm.value_iff [OF store_invD(1) [OF store_run_inv [of argon ht cmds]]]
  by (intro charge_release_cancel [OF store_run_inv assms(1)]) (auto simp: st_list_def)

theorem charge_release_roundtrip_witness:
  "\<exists>st' u. st_charge (store_run (\<lambda>_. None) (\<lambda>_. []) demo_setup) 1 demo_charge = (st', Ok u) \<and>
     fst (st_release st' 1 demo_charge) = store_run (\<lambda>_. None) (\<lambda>_. []) demo_setup"
proof -
  obtain st' u where c: "st_charge (store_run (\<lambda>_. None) (\<lambda>_. []) demo_setup) 1 demo_charge = (st', Ok u)"
    using demo_charged by blast
  have "quotas_finite (tn_quotas t)" if "t \<in> set (st_list (store_run (\<lambda>_. None) (\<lambda>_. []) demo_setup))" for t
    using that by (simp add: store_eval st_list_def map_values_def quotas_finite_def)
  with charge_release_roundtrip [OF c] c show ?thesis by blast
qed

text \<open>
  C24. Recursive deletion removes exactly the subtree. In every reachable store, when it succeeds no
  tenant of the subtree was using resources; afterwards precisely the tenant and its descendants
  are gone, their sessions no longer validate, everyone else's tenant and sessions are untouched,
  and the report lists each deleted tenant once. When it fails - unknown tenant, resources in use,
  hierarchy too deep - the store is unchanged.
\<close>

theorem recursive_delete_exact:
  assumes "st_delete_tenant_recursive (store_run argon ht cmds) tid = (st', r)"
  defines "st \<equiv> store_run argon ht cmds"
  shows "(\<forall>e. r = Err e \<longrightarrow> st' = st) \<and>
    (\<forall>rep. r = Ok rep \<longrightarrow>
      (\<forall>k. map_of (st_tenants st') k = (if descends (st_tenants st) tid k then None else map_of (st_tenants st) k)) \<and>
      (\<forall>k t. descends (st_tenants st) tid k \<longrightarrow> st_get st k = Ok t \<longrightarrow> tn_usage t = usage_default) \<and>
      st_sessions st' = filter (\<lambda>s. \<not> descends (st_tenants st) tid (ss_tenant s)) (st_sessions st) \<and>
      distinct (map fst (dr_deleted_tenants rep)) \<and>
      set (map fst (dr_deleted_tenants rep)) = {k. descends (st_tenants st) tid k})"
proof -
  have inv: "store_inv st" by (simp add: st_def store_run_inv)
  show ?thesis
    using st_delete_recursive_Ok [OF inv, of tid st'] st_delete_recursive_Err [OF inv, of tid st'] assms(1)
    by (auto simp: pruned_def st_get_Ok simp flip: st_def)
qed

lemma walk_65:
  "walk_subtree 65 ts root =
     bind_result (collect_walks (walk_subtree 64 ts) (map tn_id (filter (\<lambda>t. tn_parent t = Some root) (map_values ts))))
       (\<lambda>out. Ok (out @ [root]))"
  using walk_subtree.simps(2) [of 64 ts root] by simp

theorem recursive_delete_exact_witness:
  "\<exists>st' rep. st_delete_tenant_recursive (store_run (\<lambda>_. None) (\<lambda>_. []) demo_setup) 1 = (st', Ok rep) \<and>
     map_of (st_tenants st') 1 = None"
proof -
  obtain st' rep where d: "st_delete_tenant_recursive (store_run (\<lambda>_. None) (\<lambda>_. []) demo_setup) 1 = (st', Ok rep)"
    by (simp add: store_eval st_delete_tenant_recursive_def walk_65 map_values_def usage_default_def)
  have "descends (st_tenants (store_run (\<lambda>_. None) (\<lambda>_. []) demo_setup)) 1 1" by (rule descends_self)
  with recursive_delete_exact [OF d] have "map_of (st_tenants st') 1 = None" by simp
  with d show ?thesis by blast
qed

lemma validate_filter:
  assumes "distinct (map ss_token_hash ss)"
  shows "List.find (\<lambda>s. ss_token_hash s = h) (filter P ss) =
    (case List.find (\<lambda>s. ss_token_hash s = h) ss of None \<Rightarrow> None | Some s \<Rightarrow> if P s then Some s else None)"
  using assms
proof (induction ss)
  case (Cons a ss)
  show ?case
  proof (cases "ss_token_hash a = h")
    case True
    then have "List.find (\<lambda>s. ss_token_hash s = h) ss = None" using Cons.prems by (force simp: find_None_iff image_iff)
    then show ?thesis using Cons True by auto
  next
    case False
    then show ?thesis using Cons by simp
  qed
qed simp

text \<open>
  C28. Revocation is complete. In every reachable store, after a successful password change or user
  removal no token validates for that user of that tenant, and after a successful rotation of a
  tenant's root capabilities no token validates for that tenant at all, while tokens of other
  tenants validate exactly as before.
\<close>

theorem revocation_complete:
  assumes st_def: "st = store_run argon ht cmds"
  shows "(snd (st_set_password argon st tid uid plain) = Ok () \<longrightarrow>
      st_validate_token ht now (fst (st_set_password argon st tid uid plain)) tok = Ok s \<longrightarrow>
      \<not> (ss_tenant s = tid \<and> ss_user s = uid)) \<and>
    (snd (st_remove_user st tid uid) = Ok () \<longrightarrow>
      st_validate_token ht now (fst (st_remove_user st tid uid)) tok = Ok s \<longrightarrow>
      \<not> (ss_tenant s = tid \<and> ss_user s = uid)) \<and>
    (snd (st_rotate_root_caps st tid new) = Ok r \<longrightarrow>
      (st_validate_token ht now (fst (st_rotate_root_caps st tid new)) tok = Ok s \<longleftrightarrow>
       st_validate_token ht now st tok = Ok s \<and> ss_tenant s \<noteq> tid))"
proof -
  have inv: "store_inv st" by (simp add: st_def store_run_inv)
  have "st_sessions (fst (st_set_password argon st tid uid plain)) = drop_user_sessions tid uid (st_sessions st)"
    if "snd (st_set_password argon st tid uid plain) = Ok ()"
    using that by (auto simp: st_set_password_def split: result.splits option.splits)
  moreover have "st_sessions (fst (st_remove_user st tid uid)) = drop_user_sessions tid uid (st_sessions st)"
    if "snd (st_remove_user st tid uid) = Ok ()"
    using that by (auto simp: st_remove_user_def split: option.splits)
  moreover have "st_sessions (fst (st_rotate_root_caps st tid new)) = drop_tenant_sessions tid (st_sessions st)"
    if "snd (st_rotate_root_caps st tid new) = Ok r"
    using that by (auto simp: st_rotate_root_caps_def Let_def split: result.splits option.splits if_splits)
  ultimately show ?thesis
    using validate_filter [OF store_invD(6) [OF inv]]
    by (auto simp: st_validate_token_def drop_user_sessions_def drop_tenant_sessions_def split: option.splits if_splits)
qed

theorem revocation_complete_witness:
  "\<exists>r. snd (st_rotate_root_caps (store_run (\<lambda>_. None) (\<lambda>_. []) demo_setup) 1 TC_NONE) = Ok r \<and>
     (\<nexists>s. st_validate_token (\<lambda>_. []) 2 (fst (st_rotate_root_caps (store_run (\<lambda>_. None) (\<lambda>_. []) demo_setup) 1 TC_NONE)) [] = Ok s \<and>
        ss_tenant s = 1)"
proof -
  obtain r where r: "snd (st_rotate_root_caps (store_run (\<lambda>_. None) (\<lambda>_. []) demo_setup) 1 TC_NONE) = Ok r"
    by (simp add: store_eval st_rotate_root_caps_def)
  with revocation_complete [OF refl, of "\<lambda>_. None" "\<lambda>_. []" demo_setup 1] show ?thesis by blast
qed



lemma find_unique:
  assumes "x \<in> set xs" "P x" "\<And>y. y \<in> set xs \<Longrightarrow> P y \<Longrightarrow> y = x"
  shows "List.find P xs = Some x"
proof (cases "List.find P xs")
  case (Some y)
  then have "y \<in> set xs" "P y" by (auto simp: find_Some_iff)
  with Some assms(3) show ?thesis by blast
qed (use assms(1,2) in \<open>auto simp: find_None_iff\<close>)

lemma distinct_key: "distinct (map f xs) \<Longrightarrow> x \<in> set xs \<Longrightarrow> y \<in> set xs \<Longrightarrow> f x = f y \<Longrightarrow> x = y"
  by (simp add: distinct_map inj_on_def)

lemma update_first_hit: "x \<in> set xs \<Longrightarrow> P x \<Longrightarrow> \<exists>y \<in> set xs. P y \<and> f y \<in> set (update_first P f xs)"
  by (induction xs) auto

text \<open>
  Logging in works with the password that was set, and fails uniformly. In every reachable
  store, after a password is set for a user, authenticating with the tenant's and the user's name
  succeeds for every password the hash function accepts for the stored hash, and yields that tenant,
  that user and the user's capabilities; any authentication that fails, for whatever reason, fails
  with the one error \<^verbatim>\<open>auth.credentials\<close>.
\<close>

lemma login_after_set_password:
  assumes "snd (st_set_password argon (store_run argon ht cmds) tid uid plain) = Ok ()"
    and "argon plain = Some h" "argon_ok attempt h"
    and "st_get (store_run argon ht cmds) tid = Ok t" "u \<in> set (tn_users t)" "us_id u = uid"
  shows "st_authenticate argon_ok (fst (st_set_password argon (store_run argon ht cmds) tid uid plain))
      (tn_name t) (us_name u) attempt = Ok (tid, uid, us_caps u) \<and>
    (st_authenticate argon_ok st tn un pw = Err e \<longrightarrow> e = CapabilityDenied ''auth.credentials'')"
proof
  define st where "st = store_run argon ht cmds"
  have inv: "store_inv st" by (simp add: st_def store_run_inv)
  have t: "map_of (st_tenants st) tid = Some t" using assms(4) by (simp add: st_get_Ok st_def)
  let ?f = "us_password_hash_update (\<lambda>_. Some h)"
  let ?us = "update_first (\<lambda>u. us_id u = uid) ?f (tn_users t)"
  have st': "st_tenants (fst (st_set_password argon st tid uid plain)) =
      map_update_with tid (tn_users_update (update_first (\<lambda>u. us_id u = uid) ?f)) (st_tenants st)"
    "by_name (fst (st_set_password argon st tid uid plain)) = by_name st"
    using assms(1,2) by (auto simp: st_set_password_def hash_password_def st_def split: result.splits option.splits if_splits)
  have ids: "distinct (map us_id (tn_users t))" and names: "distinct (map us_name ?us)"
    using store_invD(3) [OF inv t] by (simp_all add: tenant_local_def update_first_map)
  from update_first_hit [OF assms(5), of "\<lambda>u. us_id u = uid" ?f] assms(6) distinct_key [OF ids] assms(5)
  have "?f u \<in> set ?us" by auto
  then have "find_user (\<lambda>x. us_name x = us_name u) (tn_users_update (\<lambda>_. ?us) t) = Some (?f u)"
    unfolding find_user_def by (intro find_unique) (use distinct_key [OF names] in auto)
  moreover have "map_of (by_name st) (tn_name t) = Some tid"
    using store_invD(4) [OF inv t] by (simp add: tenant_placed_def)
  ultimately show "st_authenticate argon_ok (fst (st_set_password argon (store_run argon ht cmds) tid uid plain))
      (tn_name t) (us_name u) attempt = Ok (tid, uid, us_caps u)"
    using t assms(3,6)
    by (simp add: st_authenticate_def st' map_simps verify_password_def find_user_def flip: st_def)
  show "st_authenticate argon_ok st tn un pw = Err e \<longrightarrow> e = CapabilityDenied ''auth.credentials''" for st
    by (auto simp: st_authenticate_def Let_def ok_or_def verify_password_def split: option.splits if_splits)
qed

text \<open>
  Deleting a single tenant does not end its sessions: whenever the deletion succeeds, every
  token that validated before still validates, also the tokens of the tenant that is gone (only
  the recursive deletion revokes).
\<close>

lemma delete_keeps_sessions:
  assumes "st_delete st tid = (st', Ok ())" "st_validate_token ht now st tok = Ok s"
  shows "st_get st' tid = Err unknown_tenant \<and> st_validate_token ht now st' tok = Ok s"
  using assms by (auto simp: st_delete_def st_validate_token_def st_get_def map_simps split: option.splits if_splits)

text \<open>
  Rotating a parent's root capabilities narrows the parent's users and sessions but not its
  subtenants: every other tenant keeps its root capabilities and users, so a subtenant holding a
  capability the parent just lost keeps it, although creating it with that capability would now be
  refused.
\<close>

lemma rotation_spares_subtenants:
  assumes "st_rotate_root_caps st tid new = (st', Ok r)" "st_get st k = Ok t" "tn_parent t = Some tid" "k \<noteq> tid"
    and "\<not> tc_contains new (tn_root_caps t)"
  shows "st_get st' k = Ok t \<and> (\<exists>p. st_get st' tid = Ok p \<and> \<not> tc_contains (tn_root_caps p) (tn_root_caps t)) \<and>
    subtenant_check st' \<lparr>sp_name = n, sp_quotas = q, sp_parent = Some tid\<rparr> (tn_root_caps t) =
      Err (CapabilityDenied ''subtenant caps exceed parent'')"
  using assms
  by (auto simp: st_rotate_root_caps_def st_get_Ok subtenant_check_def map_simps Let_def
      split: option.splits result.splits if_splits)

end
