(* ===== verification/Lww_Table.thy ===== *)
theory Lww_Table
  imports Assoc_Maps "HOL-Library.Product_Lexorder"
begin

text \<open>
  The contract of a last-writer-wins table, shared by the membership table and the federated VM
  namespace: rows have a key and a stamp (the owner's epoch and clock, compared
  lexicographically), a row the node itself owns is refused, and another row replaces the recorded
  one only when its stamp is strictly larger. From the one law of a merge follow, once for both
  tables: stamps never go back, the recorded stamp is the largest one merged, and tables that
  merged the same rows in any order and any number of times agree.
\<close>

text \<open>Modifying every value of a table in place, as \<^verbatim>\<open>values_mut\<close> and \<^verbatim>\<open>iter_mut\<close> do.\<close>

lemma map_of_map_values: "map_of (map (\<lambda>(k, r). (k, f k r)) m) k = map_option (f k) (map_of m k)"
  by (induction m) auto

lemma bt_wf_map_values: "bt_wf (map (\<lambda>(k, r). (k, f k r)) m) \<longleftrightarrow> bt_wf m"
  by (simp add: bt_wf_def case_prod_beta comp_def)

text \<open>The stamp order is the order of Rust pairs: the epoch first, then the clock.\<close>

type_synonym stamp = "u64 \<times> u64"

definition newest :: "('r \<Rightarrow> stamp) \<Rightarrow> 'r list \<Rightarrow> stamp option" where
  "newest stamp rs = (if rs = [] then None else Some (Max (set (map stamp rs))))"

definition single_writer :: "('r \<Rightarrow> 'k) \<Rightarrow> ('r \<Rightarrow> stamp) \<Rightarrow> 'r set \<Rightarrow> bool" where
  "single_writer key stamp R \<longleftrightarrow> (\<forall>r \<in> R. \<forall>s \<in> R. key r = key s \<and> stamp r = stamp s \<longrightarrow> r = s)"

lemma newest_Nil [simp]: "newest st [] = None"
  by (simp add: newest_def)

lemma newest_snoc:
  "newest st (rs @ [r]) = (case newest st rs of None \<Rightarrow> Some (st r) | Some s \<Rightarrow> Some (max s (st r)))"
  by (auto simp: newest_def max.commute)

lemma newest_set: "set rs = set rs' \<Longrightarrow> newest st rs = newest st rs'"
  by (auto simp: newest_def)

lemma newest_Some_in: "newest st rs = Some s \<Longrightarrow> s \<in> st ` set rs"
  by (auto simp: newest_def split: if_splits intro: Max_in)

locale lww_table =
  fixes merge_row :: "('k \<times> 'r) list \<Rightarrow> 'r \<Rightarrow> ('k \<times> 'r) list"
    and key :: "'r \<Rightarrow> 'k"
    and stamp :: "'r \<Rightarrow> stamp"
    and stored :: "'r \<Rightarrow> 'r"
    and own :: "'k \<Rightarrow> bool"
  assumes get_merge: "map_of (merge_row m r) k =
      (if \<not> own k \<and> key r = k \<and> (\<forall>e. map_of m k = Some e \<longrightarrow> stamp e < stamp r)
       then Some (stored r) else map_of m k)"
    and key_stored: "key (stored r) = key r"
    and stamp_stored: "stamp (stored r) = stamp r"
begin

definition merge_all :: "('k \<times> 'r) list \<Rightarrow> 'r list \<Rightarrow> ('k \<times> 'r) list" where
  "merge_all m rs = foldl merge_row m rs"

lemma merge_all_simps [simp]:
  "merge_all m [] = m" "merge_all m (rs @ [r]) = merge_row (merge_all m rs) r"
  by (simp_all add: merge_all_def)

lemma own_kept: "own k \<Longrightarrow> map_of (merge_all m rs) k = map_of m k"
  by (induction rs rule: rev_induct) (simp_all add: get_merge)

lemma stamp_grows:
  assumes "map_of m k = Some e"
  shows "\<exists>e'. map_of (merge_row m r) k = Some e' \<and> stamp e \<le> stamp e'"
  using assms by (auto simp: get_merge stamp_stored)

lemma stamp_step:
  "map_option stamp (map_of (merge_row m r) k) =
     (if \<not> own k \<and> key r = k
      then Some (case map_option stamp (map_of m k) of None \<Rightarrow> stamp r | Some s \<Rightarrow> max s (stamp r))
      else map_option stamp (map_of m k))"
  by (cases "map_of m k") (auto simp: get_merge stamp_stored max_def)

text \<open>The recorded stamp of a peer's row is the largest one merged for its key.\<close>

lemma stamp_newest:
  assumes "\<not> own k" "map_of m k = None"
  shows "map_option stamp (map_of (merge_all m rs) k) = newest stamp (filter (\<lambda>r. key r = k) rs)"
  by (induction rs rule: rev_induct) (auto simp: assms stamp_step newest_snoc split: option.splits)

text \<open>What is recorded is one of the merged rows.\<close>

lemma row_merged:
  assumes "map_of (merge_all m rs) k = Some e" "map_of m k = None"
  shows "\<exists>r \<in> set rs. e = stored r \<and> key r = k"
  using assms
  by (induction rs rule: rev_induct) (auto simp: get_merge split: if_splits)

text \<open>Replicas that merged the same rows agree, whatever the order and the repetitions.\<close>

lemma converge:
  assumes "set rs = set rs'" "single_writer key stamp (stored ` set rs)" "\<not> own k" "map_of m k = None" "map_of m' k = None"
  shows "map_of (merge_all m rs) k = map_of (merge_all m' rs') k"
proof -
  have "set (filter (\<lambda>r. key r = k) rs) = set (filter (\<lambda>r. key r = k) rs')" using assms(1) by auto
  then have eq: "map_option stamp (map_of (merge_all m rs) k) = map_option stamp (map_of (merge_all m' rs') k)"
    using stamp_newest [OF assms(3)] assms(4,5) newest_set by metis
  show ?thesis
  proof (cases "map_of (merge_all m rs) k")
    case None
    then show ?thesis using eq by (metis option.map_disc_iff)
  next
    case (Some e)
    with eq obtain e' where e': "map_of (merge_all m' rs') k = Some e'" "stamp e = stamp e'" by (auto simp: map_option_case split: option.splits)
    obtain r where r: "r \<in> set rs" "e = stored r" "key r = k" using row_merged [OF Some assms(4)] by blast
    obtain r' where r': "r' \<in> set rs" "e' = stored r'" "key r' = k" using row_merged [OF e'(1) assms(5)] assms(1) by blast
    have "e = e'" using assms(2) r r' e'(2) by (auto simp: single_writer_def key_stored)
    then show ?thesis using Some e'(1) by simp
  qed
qed

text \<open>Hearing the same rows again changes nothing.\<close>

lemma stamp_bound:
  assumes "r \<in> set rs" "\<not> own (key r)"
  shows "\<exists>e. map_of (merge_all m rs) (key r) = Some e \<and> stamp r \<le> stamp e"
  using assms(1)
proof (induction rs rule: rev_induct)
  case (snoc x rs)
  show ?case
  proof (cases "r \<in> set rs")
    case True
    then obtain e where e: "map_of (merge_all m rs) (key r) = Some e" "stamp r \<le> stamp e" using snoc.IH by blast
    from stamp_grows [OF e(1), of x] e(2) show ?thesis by auto
  next
    case False
    then have "x = r" using snoc.prems by simp
    then show ?thesis using assms(2) by (cases "map_of (merge_all m rs) (key r)") (auto simp: get_merge stamp_stored)
  qed
qed simp

lemma merge_known:
  assumes "r \<in> set rs"
  shows "map_of (merge_row (merge_all m rs) r) = map_of (merge_all m rs)"
proof
  fix k
  show "map_of (merge_row (merge_all m rs) r) k = map_of (merge_all m rs) k"
    using stamp_bound [OF assms, of m] by (cases "own k"; cases "key r = k") (auto simp: get_merge)
qed

end

end
