(* ===== verification/Membership.thy ===== *)
theory Membership
  imports Proto Lww_Table
begin

text \<open>
  The membership table of a node, \<^verbatim>\<open>celmesh/src/membership.rs\<close>: one row per known node, merged
  last-writer-wins, with the local time each node was last heard from and the timeout-based failure
  detector. An \<^verbatim>\<open>Instant\<close> and a \<^verbatim>\<open>Duration\<close> are natural numbers of nanoseconds; the clock
  reading of a call (\<^verbatim>\<open>Instant::now()\<close>) is its argument \<open>now\<close>.
\<close>

subsection \<open>Definitions\<close>

type_synonym instant = nat

definition supersedes :: "node_info \<Rightarrow> node_info \<Rightarrow> bool" where
  "supersedes a b \<longleftrightarrow> (ni_epoch b, ni_hlc b) < (ni_epoch a, ni_hlc a)"

record membership =
  mb_self_id :: node_id
  mb_cluster :: string
  mb_rows :: "(node_id \<times> node_info) list"
  mb_locals :: "(node_id \<times> instant) list"
  mb_timeout_suspect :: nat
  mb_timeout_dead :: nat

definition membership_new :: "instant \<Rightarrow> string \<Rightarrow> node_info \<Rightarrow> nat \<Rightarrow> nat \<Rightarrow> membership" where
  "membership_new now cluster self_info timeout_suspect timeout_dead =
     \<lparr>mb_self_id = ni_id self_info, mb_cluster = cluster,
      mb_rows = bt_insert (ni_id self_info) self_info [],
      mb_locals = bt_insert (ni_id self_info) now [],
      mb_timeout_suspect = timeout_suspect, mb_timeout_dead = timeout_dead\<rparr>"

definition mb_snapshot :: "membership \<Rightarrow> node_info list" where
  "mb_snapshot g = map_values (mb_rows g)"

definition mb_alive_count :: "membership \<Rightarrow> nat" where
  "mb_alive_count g = length (filter (\<lambda>r. ni_status r = NodeAlive) (map_values (mb_rows g)))"

definition mb_get :: "membership \<Rightarrow> node_id \<Rightarrow> node_info option" where
  "mb_get g nid = map_of (mb_rows g) nid"

definition mb_bump_self :: "instant \<Rightarrow> membership \<Rightarrow> u64 \<Rightarrow> membership" where
  "mb_bump_self now g hlc =
     g\<lparr>mb_rows := map_update_with (mb_self_id g)
         (\<lambda>r. r\<lparr>ni_hlc := max (ni_hlc r) hlc, ni_status := NodeAlive\<rparr>) (mb_rows g),
       mb_locals := map_update_with (mb_self_id g) (\<lambda>_. now) (mb_locals g)\<rparr>"

definition mb_merge :: "instant \<Rightarrow> membership \<Rightarrow> node_info \<Rightarrow> membership \<times> bool" where
  "mb_merge now g incoming =
     (if ni_id incoming = mb_self_id g then (g, False)
      else
        (let touch = (case map_of (mb_rows g) (ni_id incoming) of
                        Some existing \<Rightarrow> supersedes incoming existing
                      | None \<Rightarrow> True)
         in if touch then
              (g\<lparr>mb_locals := bt_insert (ni_id incoming) now (mb_locals g),
                 mb_rows := bt_insert (ni_id incoming) incoming (mb_rows g)\<rparr>, True)
            else if map_of (mb_rows g) (ni_id incoming) \<noteq> None then
              (g\<lparr>mb_locals := map_update_with (ni_id incoming) (\<lambda>_. now) (mb_locals g)\<rparr>, False)
            else (g, False)))"

definition mb_mark_left :: "membership \<Rightarrow> node_id \<Rightarrow> membership" where
  "mb_mark_left g nid =
     (if nid = mb_self_id g then g
      else g\<lparr>mb_rows := map_update_with nid (\<lambda>r. r\<lparr>ni_status := NodeLeft\<rparr>) (mb_rows g)\<rparr>)"

record tick_delta =
  td_state_changes :: nat
  td_suspect_promotions :: nat
  td_dead_promotions :: nat

definition next_status :: "membership \<Rightarrow> instant \<Rightarrow> node_id \<Rightarrow> node_status" where
  "next_status g now nid =
     (let last = (case map_of (mb_locals g) nid of Some l \<Rightarrow> l | None \<Rightarrow> now);
          elapsed = now - last
      in if mb_timeout_dead g \<le> elapsed then NodeDead
         else if mb_timeout_suspect g \<le> elapsed then NodeSuspect
         else NodeAlive)"

definition tick_row ::
  "membership \<Rightarrow> instant \<Rightarrow> node_id \<times> node_info \<Rightarrow> tick_delta \<Rightarrow> (node_id \<times> node_info) \<times> tick_delta" where
  "tick_row g now e d =
     (let nid = fst e; row = snd e in
      if nid = mb_self_id g then (e, d)
      else if ni_status row = NodeLeft \<or> ni_status row = NodeDead then (e, d)
      else
        (let next_st = next_status g now nid in
         if next_st \<noteq> ni_status row then
           ((nid, row\<lparr>ni_status := next_st\<rparr>),
            \<lparr>td_state_changes = td_state_changes d + 1,
             td_suspect_promotions = td_suspect_promotions d +
               (if ni_status row = NodeAlive \<and> next_st = NodeSuspect then 1 else 0),
             td_dead_promotions = td_dead_promotions d + (if next_st = NodeDead then 1 else 0)\<rparr>)
         else (e, d)))"

fun tick_loop ::
  "membership \<Rightarrow> instant \<Rightarrow> (node_id \<times> node_info) list \<Rightarrow> tick_delta \<Rightarrow> (node_id \<times> node_info) list \<times> tick_delta" where
  "tick_loop g now [] d = ([], d)"
| "tick_loop g now (e # es) d =
     (case tick_row g now e d of
        (e', d') \<Rightarrow> (case tick_loop g now es d' of (es', d'') \<Rightarrow> (e' # es', d'')))"

definition mb_tick :: "membership \<Rightarrow> instant \<Rightarrow> membership \<times> tick_delta" where
  "mb_tick g now =
     (case tick_loop g now (mb_rows g)
             \<lparr>td_state_changes = 0, td_suspect_promotions = 0, td_dead_promotions = 0\<rparr> of
        (rows, d) \<Rightarrow> (g\<lparr>mb_rows := rows\<rparr>, d))"

subsection \<open>The rows are a last-writer-wins table\<close>

definition node_stamp :: "node_info \<Rightarrow> stamp" where
  "node_stamp r = (ni_epoch r, ni_hlc r)"

definition rows_merge :: "node_id \<Rightarrow> (node_id \<times> node_info) list \<Rightarrow> node_info \<Rightarrow> (node_id \<times> node_info) list" where
  "rows_merge self m r =
     (if ni_id r \<noteq> self \<and> (\<forall>e. map_of m (ni_id r) = Some e \<longrightarrow> node_stamp e < node_stamp r)
      then bt_insert (ni_id r) r m else m)"

interpretation member: lww_table "rows_merge self" ni_id node_stamp "\<lambda>r. r" "\<lambda>k. k = self" for self
  by unfold_locales (auto simp: rows_merge_def map_simps)

lemma mb_rows_merge: "mb_rows (fst (mb_merge now g r)) = rows_merge (mb_self_id g) (mb_rows g) r"
  by (auto simp: mb_merge_def rows_merge_def supersedes_def node_stamp_def Let_def split: option.splits)

lemma mb_locals_merge:
  assumes "ni_id r \<noteq> mb_self_id g"
  shows "map_of (mb_locals (fst (mb_merge now g r))) (ni_id r) =
    (if map_of (mb_rows g) (ni_id r) = None \<or> map_of (mb_locals g) (ni_id r) \<noteq> None \<or> snd (mb_merge now g r)
     then Some now else None)"
  and "k \<noteq> ni_id r \<Longrightarrow> map_of (mb_locals (fst (mb_merge now g r))) k = map_of (mb_locals g) k"
  using assms by (auto simp: mb_merge_def Let_def map_simps split: option.splits)

lemma mb_self_merge [simp]:
  "mb_self_id (fst (mb_merge now g r)) = mb_self_id g"
  "mb_timeout_suspect (fst (mb_merge now g r)) = mb_timeout_suspect g"
  "mb_timeout_dead (fst (mb_merge now g r)) = mb_timeout_dead g"
  by (simp_all add: mb_merge_def Let_def)

lemma mb_merge_own: "ni_id r = mb_self_id g \<Longrightarrow> fst (mb_merge now g r) = g"
  by (simp add: mb_merge_def)

subsection \<open>The failure detector\<close>

definition ticked :: "membership \<Rightarrow> instant \<Rightarrow> node_id \<Rightarrow> node_info \<Rightarrow> node_info" where
  "ticked g now nid row =
     (if nid = mb_self_id g \<or> ni_status row = NodeLeft \<or> ni_status row = NodeDead then row
      else row\<lparr>ni_status := next_status g now nid\<rparr>)"

lemma tick_row_row: "fst (tick_row g now (k, r) d) = (k, ticked g now k r)"
  by (auto simp: tick_row_def ticked_def Let_def)

lemma tick_loop_rows: "fst (tick_loop g now es d) = map (\<lambda>(k, r). (k, ticked g now k r)) es"
  by (induction es arbitrary: d) (auto simp: case_prod_beta tick_row_row)

lemma mb_rows_tick: "mb_rows (fst (mb_tick g now)) = map (\<lambda>(k, r). (k, ticked g now k r)) (mb_rows g)"
  using tick_loop_rows [of g now "mb_rows g"] by (auto simp: mb_tick_def split: prod.splits) (metis fst_conv)

lemma mb_tick_fields [simp]:
  "mb_self_id (fst (mb_tick g now)) = mb_self_id g" "mb_locals (fst (mb_tick g now)) = mb_locals g"
  "mb_timeout_suspect (fst (mb_tick g now)) = mb_timeout_suspect g"
  "mb_timeout_dead (fst (mb_tick g now)) = mb_timeout_dead g"
  by (simp_all add: mb_tick_def split: prod.splits)

lemma mb_get_tick: "mb_get (fst (mb_tick g now)) k = map_option (ticked g now k) (mb_get g k)"
  by (simp add: mb_get_def mb_rows_tick map_of_map_values)

lemma tick_row_changes:
  "td_state_changes (snd (tick_row g now (k, r) d)) = td_state_changes d + (if ticked g now k r \<noteq> r then 1 else 0)"
  "td_dead_promotions (snd (tick_row g now (k, r) d)) = td_dead_promotions d +
     (if ticked g now k r \<noteq> r \<and> ni_status (ticked g now k r) = NodeDead then 1 else 0)"
  "td_suspect_promotions (snd (tick_row g now (k, r) d)) = td_suspect_promotions d +
     (if ni_status r = NodeAlive \<and> ni_status (ticked g now k r) = NodeSuspect then 1 else 0)"
  by (cases r; auto simp: tick_row_def ticked_def Let_def)+

definition changed_rows :: "membership \<Rightarrow> instant \<Rightarrow> (node_id \<times> node_info) list \<Rightarrow> (node_info \<Rightarrow> node_info \<Rightarrow> bool) \<Rightarrow> nat" where
  "changed_rows g now es P = length (filter (\<lambda>(k, r). P r (ticked g now k r)) es)"

lemma tick_loop_counts:
  "td_state_changes (snd (tick_loop g now es d)) = td_state_changes d + changed_rows g now es (\<noteq>) \<and>
   td_dead_promotions (snd (tick_loop g now es d)) = td_dead_promotions d +
     changed_rows g now es (\<lambda>r r'. r' \<noteq> r \<and> ni_status r' = NodeDead) \<and>
   td_suspect_promotions (snd (tick_loop g now es d)) = td_suspect_promotions d +
     changed_rows g now es (\<lambda>r r'. ni_status r = NodeAlive \<and> ni_status r' = NodeSuspect)"
proof (induction es arbitrary: d)
  case (Cons e es)
  obtain k r where e: "e = (k, r)" by (cases e)
  show ?case
    using Cons.IH [of "snd (tick_row g now e d)"] tick_row_changes [of g now k r d, folded e]
    by (auto simp: case_prod_beta changed_rows_def e)
qed (simp add: changed_rows_def)

lemma mb_tick_counts:
  "td_state_changes (snd (mb_tick g now)) = changed_rows g now (mb_rows g) (\<noteq>)"
  "td_dead_promotions (snd (mb_tick g now)) =
     changed_rows g now (mb_rows g) (\<lambda>r r'. r' \<noteq> r \<and> ni_status r' = NodeDead)"
  "td_suspect_promotions (snd (mb_tick g now)) =
     changed_rows g now (mb_rows g) (\<lambda>r r'. ni_status r = NodeAlive \<and> ni_status r' = NodeSuspect)"
  using tick_loop_counts [of g now "mb_rows g" "\<lparr>td_state_changes = 0, td_suspect_promotions = 0, td_dead_promotions = 0\<rparr>"]
  by (simp_all add: mb_tick_def case_prod_beta)

subsection \<open>Runs of a membership table\<close>

datatype mb_cmd =
    MMerge instant node_info
  | MTick instant
  | MLeft node_id
  | MBump instant u64

fun mb_exec :: "membership \<Rightarrow> mb_cmd \<Rightarrow> membership" where
  "mb_exec g (MMerge now r) = fst (mb_merge now g r)"
| "mb_exec g (MTick now) = fst (mb_tick g now)"
| "mb_exec g (MLeft nid) = mb_mark_left g nid"
| "mb_exec g (MBump now hlc) = mb_bump_self now g hlc"

definition mb_run :: "membership \<Rightarrow> mb_cmd list \<Rightarrow> membership" where
  "mb_run g cmds = foldl mb_exec g cmds"

text \<open>The rows a run merged, and when it last heard of a node.\<close>

fun merged :: "mb_cmd list \<Rightarrow> node_info list" where
  "merged [] = []"
| "merged (MMerge now r # cmds) = r # merged cmds"
| "merged (_ # cmds) = merged cmds"

fun heard_of :: "node_id \<Rightarrow> mb_cmd \<Rightarrow> instant option" where
  "heard_of k (MMerge now r) = (if ni_id r = k then Some now else None)"
| "heard_of k _ = None"

definition last_heard :: "node_id \<Rightarrow> mb_cmd list \<Rightarrow> instant option" where
  "last_heard k cmds = foldl (\<lambda>acc c. case heard_of k c of None \<Rightarrow> acc | Some t \<Rightarrow> Some t) None cmds"

lemma mb_run_simps [simp]: "mb_run g [] = g" "mb_run g (cmds @ [c]) = mb_exec (mb_run g cmds) c"
  by (simp_all add: mb_run_def)

lemma merged_append [simp]: "merged (xs @ ys) = merged xs @ merged ys"
  by (induction xs rule: merged.induct) simp_all

lemma last_heard_simps [simp]:
  "last_heard k [] = None"
  "last_heard k (cmds @ [c]) = (case heard_of k c of None \<Rightarrow> last_heard k cmds | Some t \<Rightarrow> Some t)"
  unfolding last_heard_def by simp_all

lemma mb_exec_fields [simp]:
  "mb_self_id (mb_exec g c) = mb_self_id g"
  "mb_timeout_suspect (mb_exec g c) = mb_timeout_suspect g"
  "mb_timeout_dead (mb_exec g c) = mb_timeout_dead g"
  by (cases c; simp add: mb_mark_left_def mb_bump_self_def)+

lemma mb_run_fields [simp]:
  "mb_self_id (mb_run g cmds) = mb_self_id g"
  "mb_timeout_suspect (mb_run g cmds) = mb_timeout_suspect g"
  "mb_timeout_dead (mb_run g cmds) = mb_timeout_dead g"
  by (induction cmds rule: rev_induct) simp_all

lemma stamp_status [simp]: "node_stamp (r\<lparr>ni_status := s\<rparr>) = node_stamp r"
  by (simp add: node_stamp_def)

lemma stamp_ticked [simp]: "node_stamp (ticked g now k r) = node_stamp r"
  by (simp add: ticked_def)

text \<open>Only a merge moves the clock recorded for a peer.\<close>

lemma clock_exec:
  assumes "k \<noteq> mb_self_id g"
  shows "map_option node_stamp (mb_get (mb_exec g c) k) =
    (case c of
       MMerge now r \<Rightarrow> if ni_id r = k then Some (case map_option node_stamp (mb_get g k) of
                          None \<Rightarrow> node_stamp r | Some s \<Rightarrow> max s (node_stamp r))
                       else map_option node_stamp (mb_get g k)
     | _ \<Rightarrow> map_option node_stamp (mb_get g k))"
proof (cases c)
  case (MMerge now r)
  then show ?thesis using assms by (simp add: mb_get_def mb_rows_merge member.stamp_step)
next
  case (MTick now)
  then show ?thesis by (simp add: mb_get_tick option.map_comp comp_def)
qed (use assms in \<open>auto simp: mb_get_def mb_mark_left_def mb_bump_self_def map_simps option.map_comp comp_def\<close>)

lemma clock_run:
  assumes "k \<noteq> mb_self_id g" "mb_get g k = None"
  shows "map_option node_stamp (mb_get (mb_run g cmds) k) = newest node_stamp (filter (\<lambda>r. ni_id r = k) (merged cmds))"
proof (induction cmds rule: rev_induct)
  case (snoc c cmds)
  then show ?case
    using assms clock_exec [of k "mb_run g cmds" c]
    by (cases c) (auto simp: newest_snoc split: option.splits)
qed (simp add: assms)

lemma fresh_get: "k \<noteq> ni_id self \<Longrightarrow> mb_get (membership_new t0 cl self ts td) k = None"
  by (simp add: mb_get_def membership_new_def)

lemma fresh_self [simp]: "mb_self_id (membership_new t0 cl self ts td) = ni_id self"
  "mb_timeout_suspect (membership_new t0 cl self ts td) = ts" "mb_timeout_dead (membership_new t0 cl self ts td) = td"
  by (simp_all add: membership_new_def)

text \<open>A peer has a row as soon as it was heard of, and its local time is when that last happened.\<close>

lemma heard_exec:
  assumes "k \<noteq> mb_self_id g" "map_of (mb_locals g) k = h" "mb_get g k = None \<longleftrightarrow> h = None"
  shows "map_of (mb_locals (mb_exec g c)) k = (case heard_of k c of None \<Rightarrow> h | Some t \<Rightarrow> Some t) \<and>
    (mb_get (mb_exec g c) k = None \<longleftrightarrow> (case heard_of k c of None \<Rightarrow> h | Some t \<Rightarrow> Some t) = None)"
proof (cases c)
  case (MMerge now r)
  have "mb_get (mb_exec g c) k = None \<longleftrightarrow> map_option node_stamp (mb_get (mb_exec g c) k) = None" by simp
  also have "\<dots> \<longleftrightarrow> ni_id r \<noteq> k \<and> mb_get g k = None" using assms(1) clock_exec [of k g c] by (simp add: MMerge del: mb_exec.simps option.map_disc_iff)
  finally have rows: "mb_get (mb_exec g c) k = None \<longleftrightarrow> ni_id r \<noteq> k \<and> mb_get g k = None" .
  show ?thesis
  proof (cases "ni_id r = mb_self_id g")
    case True
    then show ?thesis using assms MMerge rows by (auto simp: mb_merge_own)
  next
    case False
    have "map_of (mb_rows g) (ni_id r) = None \<or> map_of (mb_locals g) (ni_id r) \<noteq> None" if "ni_id r = k"
      using assms(2,3) that by (cases h) (simp_all add: mb_get_def)
    then show ?thesis
      using assms MMerge rows mb_locals_merge [OF False] by (cases "ni_id r = k") auto
  qed
next
  case (MTick now)
  then show ?thesis using assms by (simp add: mb_get_tick)
qed (use assms in \<open>auto simp: mb_mark_left_def mb_bump_self_def mb_get_def map_simps\<close>)

lemma heard_run:
  assumes "k \<noteq> ni_id self"
  shows "map_of (mb_locals (mb_run (membership_new t0 cl self ts td) cmds)) k = last_heard k cmds \<and>
    (mb_get (mb_run (membership_new t0 cl self ts td) cmds) k = None \<longleftrightarrow> last_heard k cmds = None)"
proof (induction cmds rule: rev_induct)
  case Nil
  then show ?case using assms by (simp add: membership_new_def mb_get_def)
next
  case (snoc c cmds)
  then show ?case
    using heard_exec [of k "mb_run (membership_new t0 cl self ts td) cmds" "last_heard k cmds" c] assms by simp
qed

text \<open>The node's own row: only its own bumps move it.\<close>

fun bumps :: "mb_cmd list \<Rightarrow> u64 list" where
  "bumps [] = []"
| "bumps (MBump now hlc # cmds) = hlc # bumps cmds"
| "bumps (_ # cmds) = bumps cmds"

lemma bumps_append [simp]: "bumps (xs @ ys) = bumps xs @ bumps ys"
  by (induction xs rule: bumps.induct) simp_all

lemma own_exec:
  assumes "mb_get g (mb_self_id g) = Some r"
  shows "mb_get (mb_exec g c) (mb_self_id g) = Some (case c of
    MBump now hlc \<Rightarrow> r\<lparr>ni_hlc := max (ni_hlc r) hlc, ni_status := NodeAlive\<rparr> | _ \<Rightarrow> r)"
proof (cases c)
  case (MMerge now x)
  then show ?thesis using assms by (simp add: mb_get_def mb_rows_merge member.get_merge)
next
  case (MTick now)
  then show ?thesis using assms by (simp add: mb_get_tick ticked_def)
qed (use assms in \<open>auto simp: mb_mark_left_def mb_bump_self_def mb_get_def map_simps\<close>)

definition bump_row :: "node_info \<Rightarrow> u64 list \<Rightarrow> node_info" where
  "bump_row r hs = (if hs = [] then r else r\<lparr>ni_hlc := foldl max (ni_hlc r) hs, ni_status := NodeAlive\<rparr>)"

lemma bump_row_snoc: "(bump_row r hs)\<lparr>ni_hlc := max (ni_hlc (bump_row r hs)) h, ni_status := NodeAlive\<rparr> = bump_row r (hs @ [h])"
  by (simp add: bump_row_def)

lemma own_run:
  "mb_get (mb_run (membership_new t0 cl self ts td) cmds) (ni_id self) = Some (bump_row self (bumps cmds))"
proof (induction cmds rule: rev_induct)
  case Nil
  then show ?case by (simp add: membership_new_def mb_get_def bump_row_def)
next
  case (snoc c cmds)
  from own_exec [of "mb_run (membership_new t0 cl self ts td) cmds" _ c] snoc show ?case
    by (cases c) (simp_all add: bump_row_snoc)
qed

lemma rows_wf: "bt_wf (mb_rows (mb_run (membership_new t0 cl self ts td) cmds))"
proof (induction cmds rule: rev_induct)
  case Nil
  then show ?case by (simp add: membership_new_def)
next
  case (snoc c cmds)
  then show ?case
    by (cases c) (auto simp: mb_rows_merge rows_merge_def mb_rows_tick bt_wf_map_values mb_mark_left_def mb_bump_self_def)
qed

lemma get_row: "bt_wf (mb_rows g) \<Longrightarrow> (i, x) \<in> set (mb_rows g) \<Longrightarrow> mb_get g i = Some x"
  by (simp add: mb_get_def bt.entry_iff)

subsection \<open>Properties\<close>

text \<open>
  C20. Membership converges. However two nodes of a cluster interleave merges, detector ticks,
  departures and bumps of their own rows, if they merged the same set of rows - in any order, any
  number of times - then for every third node they record the same epoch and clock, namely the
  largest pair merged for it; and a node's own row is never touched by a merge, a tick or a
  departure: it is the initial row with the largest clock the node itself set.
\<close>

theorem membership_converges:
  assumes "set (merged cmds) = set (merged cmds')" "k \<noteq> ni_id self" "k \<noteq> ni_id self'"
  shows "map_option node_stamp (mb_get (mb_run (membership_new t0 cl self ts td) cmds) k) =
      map_option node_stamp (mb_get (mb_run (membership_new t0' cl' self' ts' td') cmds') k) \<and>
    map_option node_stamp (mb_get (mb_run (membership_new t0 cl self ts td) cmds) k) =
      newest node_stamp (filter (\<lambda>r. ni_id r = k) (merged cmds)) \<and>
    mb_get (mb_run (membership_new t0 cl self ts td) cmds) (ni_id self) = Some (bump_row self (bumps cmds))"
proof -
  have "set (filter (\<lambda>r. ni_id r = k) (merged cmds)) = set (filter (\<lambda>r. ni_id r = k) (merged cmds'))"
    using assms(1) by auto
  then have "newest node_stamp (filter (\<lambda>r. ni_id r = k) (merged cmds)) =
      newest node_stamp (filter (\<lambda>r. ni_id r = k) (merged cmds'))" by (rule newest_set)
  then show ?thesis using assms(2,3) by (simp add: clock_run fresh_get own_run)
qed

definition demo_node :: "string \<Rightarrow> u64 \<Rightarrow> node_info" where
  "demo_node nid hlc = \<lparr>ni_id = nid, ni_addr = nid, ni_epoch = 1, ni_hlc = hlc, ni_status = NodeAlive\<rparr>"

theorem membership_converges_witness:
  "map_option node_stamp (mb_get (mb_run (membership_new 0 ''c'' (demo_node ''a'' 0) 500 1500)
      [MMerge 1 (demo_node ''p'' 7), MTick 2000, MMerge 3 (demo_node ''p'' 4)]) ''p'') =
    map_option node_stamp (mb_get (mb_run (membership_new 5 ''c'' (demo_node ''b'' 0) 500 1500)
      [MMerge 9 (demo_node ''p'' 4), MMerge 9 (demo_node ''p'' 4), MMerge 10 (demo_node ''p'' 7), MLeft ''p'']) ''p'')"
  by (rule membership_converges [THEN conjunct1]) (simp_all add: demo_node_def insert_commute)

text \<open>
  C37. The failure detector is exact. In every run, a tick at time \<open>now\<close> leaves the node's own row
  and the departed and dead rows alone, and sets every other row's status by the time since the
  last row of that node was merged: dead from the dead timeout on, suspect from the suspect
  timeout on, else alive - so a silent peer is declared dead by the first tick after the timeout,
  and a tick never declares a peer dead that was heard within it. The reported counts are the
  numbers of rows that changed, that went from alive to suspect, and that became dead.
\<close>

theorem failure_detector:
  assumes "g = mb_run (membership_new t0 cl self ts td) cmds"
    and "mb_tick g now = (g', d)" "k \<noteq> ni_id self" "mb_get g k = Some r"
  shows "(\<exists>t. last_heard k cmds = Some t \<and>
      mb_get g' k = Some (if ni_status r = NodeLeft \<or> ni_status r = NodeDead then r
        else if td \<le> now - t then r\<lparr>ni_status := NodeDead\<rparr>
        else if ts \<le> now - t then r\<lparr>ni_status := NodeSuspect\<rparr>
        else r\<lparr>ni_status := NodeAlive\<rparr>)) \<and>
    mb_get g' (ni_id self) = mb_get g (ni_id self) \<and>
    td_state_changes d = length (filter (\<lambda>(i, x). mb_get g' i \<noteq> Some x) (mb_rows g)) \<and>
    td_dead_promotions d = length (filter (\<lambda>(i, x). mb_get g' i \<noteq> Some x \<and>
      map_option ni_status (mb_get g' i) = Some NodeDead) (mb_rows g)) \<and>
    td_suspect_promotions d = length (filter (\<lambda>(i, x). ni_status x = NodeAlive \<and>
      map_option ni_status (mb_get g' i) = Some NodeSuspect) (mb_rows g))"
proof -
  have g': "g' = fst (mb_tick g now)" and d: "d = snd (mb_tick g now)" using assms(2) by simp_all
  have wf: "bt_wf (mb_rows g)" by (simp add: assms(1) rows_wf)
  have at: "mb_get g' i = Some (ticked g now i x)" if "(i, x) \<in> set (mb_rows g)" for i x
    using get_row [OF wf that] by (simp add: g' mb_get_tick)
  have eq: "changed_rows g now (mb_rows g) P = length (filter (\<lambda>(i, x). Q i x) (mb_rows g))"
    if "\<And>i x. (i, x) \<in> set (mb_rows g) \<Longrightarrow> P x (ticked g now i x) = Q i x" for P Q
    using that by (auto simp: changed_rows_def intro!: arg_cong [where f = length] filter_cong)
  obtain t where t: "last_heard k cmds = Some t" "map_of (mb_locals g) k = Some t"
    using heard_run [OF assms(3), of t0 cl ts td cmds] assms(1,4) by (cases "last_heard k cmds") auto
  have self: "mb_self_id g = ni_id self" "mb_timeout_suspect g = ts" "mb_timeout_dead g = td"
    by (simp_all add: assms(1))
  have "mb_get g' k = Some (ticked g now k r)" by (simp add: g' mb_get_tick assms(4))
  moreover have "mb_get g' (ni_id self) = mb_get g (ni_id self)"
    by (cases "mb_get g (ni_id self)") (simp_all add: g' mb_get_tick ticked_def self)
  moreover have "td_state_changes d = length (filter (\<lambda>(i, x). mb_get g' i \<noteq> Some x) (mb_rows g))"
    unfolding d mb_tick_counts by (rule eq) (auto simp: at)
  moreover have "td_dead_promotions d = length (filter (\<lambda>(i, x). mb_get g' i \<noteq> Some x \<and>
      map_option ni_status (mb_get g' i) = Some NodeDead) (mb_rows g))"
    unfolding d mb_tick_counts by (rule eq) (auto simp: at)
  moreover have "td_suspect_promotions d = length (filter (\<lambda>(i, x). ni_status x = NodeAlive \<and>
      map_option ni_status (mb_get g' i) = Some NodeSuspect) (mb_rows g))"
    unfolding d mb_tick_counts by (rule eq) (auto simp: at)
  ultimately show ?thesis
    using t assms(3) by (auto simp: ticked_def next_status_def self Let_def)
qed

theorem failure_detector_witness:
  "mb_get (fst (mb_tick (mb_run (membership_new 0 ''c'' (demo_node ''a'' 0) 500 1500) [MMerge 1000 (demo_node ''p'' 7)]) 2600)) ''p'' =
     Some ((demo_node ''p'' 7)\<lparr>ni_status := NodeDead\<rparr>)"
proof -
  let ?g = "mb_run (membership_new 0 ''c'' (demo_node ''a'' 0) 500 1500) [MMerge 1000 (demo_node ''p'' 7)]"
  have "mb_get ?g ''p'' = Some (demo_node ''p'' 7)"
    by (simp add: mb_run_def mb_get_def mb_rows_merge rows_merge_def membership_new_def demo_node_def)
  from failure_detector [OF refl prod.collapse [symmetric] _ this, of 2600] show ?thesis
    by (auto simp: demo_node_def last_heard_def)
qed

end
