(* ===== verification/Federation.thy ===== *)
theory Federation
  imports Proto Lww_Table
begin

text \<open>
  The federated VM namespace, \<^verbatim>\<open>celmesh/src/federation.rs\<close>: the union of the VM rows of all nodes,
  keyed by owner and VM id. The node's own rows are replaced wholesale, other nodes' rows are
  merged last-writer-wins, and rows are addressed by paths \<^verbatim>\<open>/cluster/<node>/vms/<n>\<close>.
\<close>

subsection \<open>Definitions\<close>

record federation =
  fd_self_id :: node_id
  fd_rows :: "((node_id \<times> u32) \<times> remote_vm) list"

definition federation_new :: "node_id \<Rightarrow> federation" where
  "federation_new self = \<lparr>fd_self_id = self, fd_rows = []\<rparr>"

definition local_row :: "node_id \<Rightarrow> remote_vm \<Rightarrow> remote_vm" where
  "local_row self row = row\<lparr>rv_owner := self, rv_owner_alive := True\<rparr>"

fun insert_local :: "node_id \<Rightarrow> remote_vm list \<Rightarrow> ((node_id \<times> u32) \<times> remote_vm) list \<Rightarrow> ((node_id \<times> u32) \<times> remote_vm) list" where
  "insert_local self [] m = m"
| "insert_local self (row # rows) m =
     insert_local self rows (bt_insert (remote_vm_key (local_row self row)) (local_row self row) m)"

definition fed_set_local :: "federation \<Rightarrow> remote_vm list \<Rightarrow> federation" where
  "fed_set_local f rows =
     f\<lparr>fd_rows := insert_local (fd_self_id f) rows (bt_retain (\<lambda>k _. fst k \<noteq> fd_self_id f) (fd_rows f))\<rparr>"

definition fed_merge :: "federation \<Rightarrow> remote_vm \<Rightarrow> federation \<times> bool" where
  "fed_merge f incoming =
     (if rv_owner incoming = fd_self_id f then (f, False)
      else
        (let incoming = incoming\<lparr>rv_owner_alive := True\<rparr>;
             key = remote_vm_key incoming
         in (case map_of (fd_rows f) key of
               Some existing \<Rightarrow>
                 if (rv_epoch incoming, rv_hlc incoming) \<le> (rv_epoch existing, rv_hlc existing) then (f, False)
                 else (f\<lparr>fd_rows := bt_insert key incoming (fd_rows f)\<rparr>, True)
             | None \<Rightarrow> (f\<lparr>fd_rows := bt_insert key incoming (fd_rows f)\<rparr>, True))))"

definition fed_refresh_alive :: "federation \<Rightarrow> (node_id \<Rightarrow> bool) \<Rightarrow> federation" where
  "fed_refresh_alive f alive_of =
     f\<lparr>fd_rows := map (\<lambda>(k, row). (k, row\<lparr>rv_owner_alive :=
         (if rv_owner row = fd_self_id f then True else alive_of (rv_owner row))\<rparr>)) (fd_rows f)\<rparr>"

definition fed_list :: "federation \<Rightarrow> remote_vm list" where
  "fed_list f = map_values (fd_rows f)"

definition fed_local_rows :: "federation \<Rightarrow> remote_vm list" where
  "fed_local_rows f = filter (\<lambda>r. rv_owner r = fd_self_id f) (map_values (fd_rows f))"

definition fed_resolve :: "federation \<Rightarrow> string \<Rightarrow> (unit, remote_vm option) result" where
  "fed_resolve f path =
     (case strip_prefix ''/cluster/'' path of
        None \<Rightarrow> Err ()
      | Some suffix \<Rightarrow>
          (case split_once CHR ''/'' suffix of
             None \<Rightarrow> Err ()
           | Some (node, rest) \<Rightarrow>
               (case strip_prefix ''vms/'' rest of
                  None \<Rightarrow> Err ()
                | Some rest \<Rightarrow>
                    if rest = [] \<or> CHR ''/'' \<in> set rest then Err ()
                    else (case parse_u32 rest of
                            None \<Rightarrow> Err ()
                          | Some n \<Rightarrow> Ok (map_of (fd_rows f) (node, n))))))"

subsection \<open>Other nodes' rows are a last-writer-wins table\<close>

definition vm_stamp :: "remote_vm \<Rightarrow> stamp" where
  "vm_stamp r = (rv_epoch r, rv_hlc r)"

definition row_data :: "remote_vm \<Rightarrow> remote_vm" where
  "row_data r = r\<lparr>rv_owner_alive := True\<rparr>"

definition fed_rows_merge ::
  "node_id \<Rightarrow> ((node_id \<times> u32) \<times> remote_vm) list \<Rightarrow> remote_vm \<Rightarrow> ((node_id \<times> u32) \<times> remote_vm) list" where
  "fed_rows_merge self m r =
     (if rv_owner r \<noteq> self \<and> (\<forall>e. map_of m (remote_vm_key r) = Some e \<longrightarrow> vm_stamp e < vm_stamp r)
      then bt_insert (remote_vm_key r) (row_data r) m else m)"

lemma row_data_simps [simp]:
  "remote_vm_key (row_data r) = remote_vm_key r" "vm_stamp (row_data r) = vm_stamp r"
  "row_data (row_data r) = row_data r" "rv_owner (row_data r) = rv_owner r" "rv_vm_id (row_data r) = rv_vm_id r"
  by (simp_all add: row_data_def remote_vm_key_def vm_stamp_def)

lemma row_data_alive [simp]: "row_data (r\<lparr>rv_owner_alive := b\<rparr>) = row_data r"
  by (simp add: row_data_def)

interpretation fed: lww_table "fed_rows_merge self" remote_vm_key vm_stamp row_data "\<lambda>k. fst k = self" for self
  by unfold_locales (auto simp: fed_rows_merge_def map_simps remote_vm_key_def)

lemma fd_rows_merge: "fd_rows (fst (fed_merge f r)) = fed_rows_merge (fd_self_id f) (fd_rows f) r"
  by (auto simp: fed_merge_def fed_rows_merge_def row_data_def remote_vm_key_def vm_stamp_def Let_def not_le
    split: option.splits)

lemma fed_merge_self [simp]: "fd_self_id (fst (fed_merge f r)) = fd_self_id f"
  by (simp add: fed_merge_def Let_def split: option.splits)

subsection \<open>The node's own rows\<close>

lemma insert_local_foreign: "fst k \<noteq> self \<Longrightarrow> map_of (insert_local self rows m) k = map_of m k"
  by (induction rows arbitrary: m) (auto simp: map_simps local_row_def remote_vm_key_def)

lemma insert_local_own:
  "map_of (insert_local self rows m) (self, n) =
     (case map_of (rev (map (\<lambda>r. (rv_vm_id r, local_row self r)) rows)) n of
        None \<Rightarrow> map_of m (self, n) | Some r \<Rightarrow> Some r)"
  by (induction rows arbitrary: m)
     (auto simp: map_simps local_row_def remote_vm_key_def map_add_def split: option.splits)

lemma bt_wf_insert_local: "bt_wf m \<Longrightarrow> bt_wf (insert_local self rows m)"
  by (induction rows arbitrary: m) auto

lemma map_of_retain_key:
  "map_of (bt_retain (\<lambda>k _. P k) m) k = (if P k then map_of m k else None)"
  by (induction m) (auto simp: bt_retain_def)

subsection \<open>Runs\<close>

datatype fed_cmd = FSetLocal "remote_vm list" | FMerge remote_vm | FRefresh "node_id \<Rightarrow> bool"

fun fed_exec :: "federation \<Rightarrow> fed_cmd \<Rightarrow> federation" where
  "fed_exec f (FSetLocal rows) = fed_set_local f rows"
| "fed_exec f (FMerge r) = fst (fed_merge f r)"
| "fed_exec f (FRefresh alive_of) = fed_refresh_alive f alive_of"

definition fed_run :: "federation \<Rightarrow> fed_cmd list \<Rightarrow> federation" where
  "fed_run f cmds = foldl fed_exec f cmds"

fun fed_merged :: "fed_cmd list \<Rightarrow> remote_vm list" where
  "fed_merged [] = []"
| "fed_merged (FMerge r # cmds) = r # fed_merged cmds"
| "fed_merged (_ # cmds) = fed_merged cmds"

definition last_local :: "fed_cmd list \<Rightarrow> remote_vm list" where
  "last_local cmds = foldl (\<lambda>acc c. case c of FSetLocal rows \<Rightarrow> rows | _ \<Rightarrow> acc) [] cmds"

lemma fed_run_simps [simp]: "fed_run f [] = f" "fed_run f (cmds @ [c]) = fed_exec (fed_run f cmds) c"
  by (simp_all add: fed_run_def)

lemma fed_merged_append [simp]: "fed_merged (xs @ ys) = fed_merged xs @ fed_merged ys"
  by (induction xs rule: fed_merged.induct) simp_all

lemma last_local_simps [simp]:
  "last_local [] = []" "last_local (cmds @ [c]) = (case c of FSetLocal rows \<Rightarrow> rows | _ \<Rightarrow> last_local cmds)"
  unfolding last_local_def by simp_all

lemma fed_exec_self [simp]: "fd_self_id (fed_exec f c) = fd_self_id f"
  by (cases c) (simp_all add: fed_set_local_def fed_refresh_alive_def)

lemma fed_run_self [simp]: "fd_self_id (fed_run f cmds) = fd_self_id f"
  by (induction cmds rule: rev_induct) simp_all

lemma map_of_refresh:
  "map_of (fd_rows (fed_refresh_alive f alive_of)) k =
     map_option (\<lambda>row. row\<lparr>rv_owner_alive :=
       (if rv_owner row = fd_self_id f then True else alive_of (rv_owner row))\<rparr>) (map_of (fd_rows f) k)"
  by (simp add: fed_refresh_alive_def map_of_map_values)

text \<open>Every row is stored under its own key, which gives its owner.\<close>

definition fed_keyed :: "federation \<Rightarrow> bool" where
  "fed_keyed f \<longleftrightarrow> bt_wf (fd_rows f) \<and> (\<forall>k r. map_of (fd_rows f) k = Some r \<longrightarrow> remote_vm_key r = k)"

lemma fed_keyed_exec:
  assumes "fed_keyed f"
  shows "fed_keyed (fed_exec f c)"
proof (cases c)
  case (FSetLocal rows)
  have "remote_vm_key r = k" if "map_of (fd_rows (fed_exec f c)) k = Some r" for k r
  proof (cases "fst k = fd_self_id f")
    case True
    then have k: "k = (fd_self_id f, snd k)" by (simp add: prod_eq_iff)
    have "map_of (rev (map (\<lambda>r. (rv_vm_id r, local_row (fd_self_id f) r)) rows)) (snd k) = Some r"
      using that insert_local_own [of "fd_self_id f" rows _ "snd k", folded k] FSetLocal True
      by (simp add: fed_set_local_def map_of_retain_key split: option.splits)
    then have "(snd k, r) \<in> set (rev (map (\<lambda>r. (rv_vm_id r, local_row (fd_self_id f) r)) rows))" by (rule map_of_SomeD)
    then show ?thesis using True by (auto simp: local_row_def remote_vm_key_def prod_eq_iff)
  next
    case False
    then show ?thesis using that assms FSetLocal
      by (cases k) (auto simp: fed_set_local_def insert_local_foreign map_of_retain_key fed_keyed_def)
  qed
  moreover have "bt_wf (fd_rows (fed_exec f c))"
    using assms FSetLocal by (simp add: fed_set_local_def bt_wf_insert_local bt_wf_retain fed_keyed_def)
  ultimately show ?thesis by (simp add: fed_keyed_def)
next
  case (FMerge x)
  then show ?thesis
    using assms by (auto simp: fed_keyed_def fd_rows_merge fed_rows_merge_def map_simps split: if_splits)
next
  case (FRefresh alive_of)
  then show ?thesis
    using assms by (auto simp: fed_keyed_def map_of_refresh remote_vm_key_def)
      (simp add: fed_refresh_alive_def bt_wf_map_values)
qed

lemma fed_new_self [simp]: "fd_self_id (federation_new self) = self"
  by (simp add: federation_new_def)

lemma fed_keyed_run: "fed_keyed (fed_run (federation_new self) cmds)"
  by (induction cmds rule: rev_induct) (simp_all add: fed_keyed_exec, simp add: fed_keyed_def federation_new_def)

text \<open>
  Replacing the own rows and refreshing the liveness flags leave the data of the other nodes' rows
  as the merges made it.
\<close>

lemma fed_exec_foreign:
  assumes "fst k \<noteq> fd_self_id f" "map_of m = (\<lambda>j. map_option row_data (map_of (fd_rows f) j))"
  shows "map_option row_data (map_of (fd_rows (fed_exec f c)) k) =
    (case c of FMerge r \<Rightarrow> map_of (fed_rows_merge (fd_self_id f) m r) k | _ \<Rightarrow> map_of m k)"
proof (cases c)
  case (FMerge r)
  then show ?thesis using assms by (cases "map_of (fd_rows f) k") (auto simp: fd_rows_merge fed.get_merge)
qed (use assms in \<open>auto simp: fed_set_local_def insert_local_foreign map_of_retain_key map_of_refresh option.map_comp comp_def\<close>)

lemma fed_run_foreign:
  assumes "fst k \<noteq> self"
  shows "map_option row_data (map_of (fd_rows (fed_run (federation_new self) cmds)) k) =
    map_of (fed.merge_all self [] (fed_merged cmds)) k"
proof (induction cmds rule: rev_induct)
  case Nil
  then show ?case by (simp add: federation_new_def)
next
  case (snoc c cmds)
  let ?f = "fed_run (federation_new self) cmds"
  define m where "m = map (\<lambda>(k, r). (k, row_data r)) (fd_rows ?f)"
  have m: "map_of m = (\<lambda>j. map_option row_data (map_of (fd_rows ?f) j))"
    by (simp add: m_def map_of_map_values fun_eq_iff)
  have self: "fd_self_id ?f = self" by simp
  have "map_of (fed_rows_merge self m r) k = map_of (fed_rows_merge self (fed.merge_all self [] (fed_merged cmds)) r) k" for r
    using assms snoc m by (auto simp: fed.get_merge)
  with fed_exec_foreign [OF _ m, of k c] assms self snoc m show ?case
    by (cases c) simp_all
qed

lemma fed_run_own:
  "map_of (fd_rows (fed_run (federation_new self) cmds)) (self, n) =
     map_of (rev (map (\<lambda>r. (rv_vm_id r, local_row self r)) (last_local cmds))) n"
proof (induction cmds rule: rev_induct)
  case Nil
  then show ?case by (simp add: federation_new_def)
next
  case (snoc c cmds)
  let ?f = "fed_run (federation_new self) cmds"
  have self: "fd_self_id ?f = self" by simp
  show ?case
  proof (cases c)
    case (FSetLocal rows)
    then show ?thesis by (simp add: fed_set_local_def insert_local_own map_of_retain_key split: option.splits)
  next
    case (FMerge r)
    then show ?thesis using snoc by (simp add: fd_rows_merge fed.get_merge self)
  next
    case (FRefresh alive_of)
    have "r\<lparr>rv_owner_alive := True\<rparr> = r \<and> rv_owner r = self" if "map_of (fd_rows ?f) (self, n) = Some r" for r
      using that snoc map_of_SomeD by (fastforce simp: local_row_def)
    then have "map_of (fd_rows (fed_refresh_alive ?f alive_of)) (self, n) = map_of (fd_rows ?f) (self, n)"
      by (cases "map_of (fd_rows ?f) (self, n)") (simp_all add: map_of_refresh)
    then show ?thesis using snoc FRefresh by simp
  qed
qed

lemma fed_resolve_form:
  assumes "CHR ''/'' \<notin> set node"
  shows "fed_resolve f (''/cluster/'' @ node @ ''/vms/'' @ num) =
    (if num = [] \<or> CHR ''/'' \<in> set num then Err ()
     else (case parse_u32 num of None \<Rightarrow> Err () | Some n \<Rightarrow> Ok (map_of (fd_rows f) (node, n))))"
proof -
  have "split_once CHR ''/'' (node @ ''/vms/'' @ num) = Some (node, ''vms/'' @ num)"
    using split_once_append [OF assms, of "''vms/'' @ num"] by simp
  then show ?thesis
    unfolding fed_resolve_def by (simp only: strip_prefix_append option.case prod.case)
qed

lemma fed_resolve_ok_form:
  assumes "fed_resolve f path = Ok x"
  shows "\<exists>node num n. path = ''/cluster/'' @ node @ ''/vms/'' @ num \<and> CHR ''/'' \<notin> set node \<and>
    num \<noteq> [] \<and> CHR ''/'' \<notin> set num \<and> parse_u32 num = Some n"
proof -
  obtain suffix where s: "strip_prefix ''/cluster/'' path = Some suffix"
    using assms by (auto simp: fed_resolve_def split: option.splits)
  obtain node rest where n: "split_once CHR ''/'' suffix = Some (node, rest)"
    using assms s by (auto simp: fed_resolve_def split: option.splits)
  obtain num where r: "strip_prefix ''vms/'' rest = Some num"
    using assms s n by (auto simp: fed_resolve_def split: option.splits)
  have "num \<noteq> []" "CHR ''/'' \<notin> set num" "\<exists>n. parse_u32 num = Some n"
    using assms s n r by (auto simp: fed_resolve_def split: if_splits option.splits)
  moreover have "path = ''/cluster/'' @ node @ ''/vms/'' @ num" "CHR ''/'' \<notin> set node"
    using strip_prefix_SomeD [OF s] split_once_SomeD [OF n] strip_prefix_SomeD [OF r] by simp_all
  ultimately show ?thesis by blast
qed

lemma fed_resolve_slash:
  assumes "CHR ''/'' \<in> set owner"
  shows "fed_resolve f (''/cluster/'' @ owner @ ''/vms/'' @ num) = Err ()"
proof (rule ccontr)
  assume "fed_resolve f (''/cluster/'' @ owner @ ''/vms/'' @ num) \<noteq> Err ()"
  then obtain x where "fed_resolve f (''/cluster/'' @ owner @ ''/vms/'' @ num) = Ok x"
    by (cases "fed_resolve f (''/cluster/'' @ owner @ ''/vms/'' @ num)") simp_all
  then obtain node num' where p: "''/cluster/'' @ owner @ ''/vms/'' @ num = ''/cluster/'' @ node @ ''/vms/'' @ num'"
    and no: "CHR ''/'' \<notin> set node" "CHR ''/'' \<notin> set num'"
    using fed_resolve_ok_form by metis
  from p have "owner @ ''/vms/'' @ num = node @ ''/vms/'' @ num'" by simp
  then have "count_list (owner @ ''/vms/'' @ num) CHR ''/'' = count_list (node @ ''/vms/'' @ num') CHR ''/''" by (rule arg_cong)
  moreover have "count_list owner CHR ''/'' \<noteq> 0" using assms by (simp add: count_list_0_iff)
  ultimately show False using no by (simp add: count_list_0_iff)
qed

lemma show_word_segment: "show_word n \<noteq> []" "CHR ''/'' \<notin> set (show_word n)"
  by (simp add: show_word_def, rule show_word_notin) simp

subsection \<open>Properties\<close>

text \<open>
  C18. The namespace converges and each node's own rows are its own. If two nodes merged the same VM
  rows, in any order and any number of times, interleaved with republishing their own rows and with
  liveness refreshes, and no two different rows of one VM carry the same epoch and clock, then
  their tables agree on every VM a third node owns (up to the locally computed liveness flag); and
  whatever was merged, a node's own VMs are exactly those it last published, under its own name and
  alive.
\<close>

theorem federation_converges:
  assumes "set (fed_merged cmds) = set (fed_merged cmds')"
    and "single_writer remote_vm_key vm_stamp (row_data ` set (fed_merged cmds))"
    and "fst k \<noteq> self" "fst k \<noteq> self'"
  shows "map_option row_data (map_of (fd_rows (fed_run (federation_new self) cmds)) k) =
      map_option row_data (map_of (fd_rows (fed_run (federation_new self') cmds')) k) \<and>
    map_of (fd_rows (fed_run (federation_new self) cmds)) (self, n) =
      map_of (rev (map (\<lambda>r. (rv_vm_id r, local_row self r)) (last_local cmds))) n"
proof -
  have "map_of (fed.merge_all self [] (fed_merged cmds)) k = map_of (fed.merge_all self [] (fed_merged cmds')) k"
    using assms(1-3) by (intro fed.converge) simp_all
  moreover have "map_of (fed.merge_all self [] rs) k = map_of (fed.merge_all self' [] rs) k" for rs
    by (induction rs rule: rev_induct) (use assms(3,4) in \<open>auto simp: fed.get_merge\<close>)
  ultimately show ?thesis using assms(3,4) by (simp add: fed_run_foreign fed_run_own)
qed

definition demo_vm :: "node_id \<Rightarrow> u32 \<Rightarrow> string \<Rightarrow> u64 \<Rightarrow> remote_vm" where
  "demo_vm owner n state hlc = \<lparr>rv_owner = owner, rv_vm_id = n, rv_label = ''web'', rv_state = state, rv_last_exit = None,
     rv_epoch = 1, rv_hlc = hlc, rv_owner_alive = True, rv_restart_policy = RestartAlways, rv_volumes = [],
     rv_image_path = None, rv_cpu_count = None, rv_memory_mib = None, rv_boot_blob_crc32c = None\<rparr>"

theorem federation_converges_witness:
  "map_option row_data (map_of (fd_rows (fed_run (federation_new ''a'')
      [FMerge (demo_vm ''p'' 0 ''halted'' 9), FSetLocal [demo_vm ''x'' 0 ''created'' 1], FMerge (demo_vm ''p'' 0 ''created'' 4)])) (''p'', 0)) =
    map_option row_data (map_of (fd_rows (fed_run (federation_new ''b'')
      [FMerge (demo_vm ''p'' 0 ''created'' 4), FRefresh (\<lambda>_. False), FMerge (demo_vm ''p'' 0 ''halted'' 9)])) (''p'', 0))"
  by (rule federation_converges [THEN conjunct1])
    (simp_all add: demo_vm_def insert_commute single_writer_def row_data_def vm_stamp_def remote_vm_key_def)

text \<open>
  Paths address rows. In every table a run can produce, the path printed for any listed row
  resolves to that very row when the owner's id has no slash, and is malformed when it has one; and
  resolution is an error exactly for paths not of the form
  \<^verbatim>\<open>/cluster/<node>/vms/<n>\<close> with a slash-free node and a 32-bit number.
\<close>

lemma vm_path_roundtrip:
  assumes "r \<in> set (fed_list (fed_run (federation_new self) cmds))"
  shows "(CHR ''/'' \<notin> set (rv_owner r) \<longrightarrow>
      fed_resolve (fed_run (federation_new self) cmds) (remote_vm_path r) = Ok (Some r)) \<and>
    (CHR ''/'' \<in> set (rv_owner r) \<longrightarrow>
      fed_resolve (fed_run (federation_new self) cmds) (remote_vm_path r) = Err ()) \<and>
    (is_ok (fed_resolve f path) \<longleftrightarrow>
      (\<exists>node num n. path = ''/cluster/'' @ node @ ''/vms/'' @ num \<and> CHR ''/'' \<notin> set node \<and>
         num \<noteq> [] \<and> CHR ''/'' \<notin> set num \<and> parse_u32 num = Some n))"
proof -
  let ?f = "fed_run (federation_new self) cmds"
  obtain k where k: "map_of (fd_rows ?f) k = Some r"
    using assms fed_keyed_run [of self cmds] by (auto simp: fed_list_def fed_keyed_def bt.value_iff)
  then have key: "k = (rv_owner r, rv_vm_id r)"
    using fed_keyed_run [of self cmds] by (cases k) (auto simp: fed_keyed_def remote_vm_key_def)
  have "is_ok (fed_resolve f path)" if "path = ''/cluster/'' @ node @ ''/vms/'' @ num" "CHR ''/'' \<notin> set node"
    "num \<noteq> []" "CHR ''/'' \<notin> set num" "parse_u32 num = Some n" for node num n
    unfolding that(1) fed_resolve_form [OF that(2)] using that(3-5) by simp
  moreover have "fed_resolve ?f (remote_vm_path r) = Ok (Some r)" if "CHR ''/'' \<notin> set (rv_owner r)"
    unfolding remote_vm_path_def fed_resolve_form [OF that] using k key by (simp add: str_simps show_word_segment)
  moreover have "fed_resolve ?f (remote_vm_path r) = Err ()" if "CHR ''/'' \<in> set (rv_owner r)"
    unfolding remote_vm_path_def by (rule fed_resolve_slash [OF that])
  ultimately show ?thesis using fed_resolve_ok_form [of f path] unfolding is_ok_iff by blast
qed

end
