(* ===== verification/Vm_Host.thy ===== *)
theory Vm_Host
  imports Mesh_Caps
begin

text \<open>
  The reference VM host, \<^verbatim>\<open>celmesh/src/host.rs\<close>: \<^verbatim>\<open>MemVmHost\<close> with its four slots, its volume
  vault, its network store, the owner id it learns from \<^verbatim>\<open>snapshot\<close> and its capability set.
  \<open>host_apply\<close> is \<^verbatim>\<open>MemVmHost::apply\<close> with all 28 operations. The vault and the network store
  are the in-memory ones (what \<^verbatim>\<open>MemVmHost::new\<close> builds). \<^verbatim>\<open>AttachVolume\<close> and \<^verbatim>\<open>DeleteVolume\<close>
  run in two critical sections each, so they are split into a check and a commit; running one
  after the other is the whole operation, and the section on interleavings lets other operations
  run in between.
\<close>

subsection \<open>State\<close>

record slot =
  sl_label :: string
  sl_state :: string
  sl_last_exit :: "u32 option"
  sl_restart_policy :: restart_policy
  sl_volumes :: "volume_attachment list"
  sl_image_path :: "string option"
  sl_cpu_count :: "u32 option"
  sl_memory_mib :: "u64 option"
  sl_boot_blob_crc32c :: "u32 option"

record mem_vm_host =
  mh_slots :: "slot option list"
  mh_vault :: mem_inner
  mh_nets :: mem_nets
  mh_owner :: "string option"
  mh_caps :: capabilities

definition MAX_SLOTS :: nat where "MAX_SLOTS = 4"

definition MAX_VOLUME_IO_BYTES :: nat where "MAX_VOLUME_IO_BYTES = 32 * 1024"

definition mem_vm_host_new :: mem_vm_host where
  "mem_vm_host_new = \<lparr>mh_slots = replicate MAX_SLOTS None, mh_vault = mem_volume_store_new,
     mh_nets = mem_network_store_new, mh_owner = None, mh_caps = CAP_ALL\<rparr>"

definition host_with_caps :: "capabilities \<Rightarrow> mem_vm_host \<Rightarrow> mem_vm_host" where
  "host_with_caps caps h = h\<lparr>mh_caps := caps\<rparr>"

definition remember_owner :: "node_id \<Rightarrow> mem_vm_host \<Rightarrow> mem_vm_host" where
  "remember_owner own h = (case mh_owner h of None \<Rightarrow> h\<lparr>mh_owner := Some own\<rparr> | Some _ \<Rightarrow> h)"

definition slot_mut :: "slot option list \<Rightarrow> u32 \<Rightarrow> (string, slot) result" where
  "slot_mut slots vm_id =
     (if MAX_SLOTS \<le> unat vm_id then Err ''vm id out of range''
      else ok_or ''vm not allocated'' (slots ! unat vm_id))"

definition set_slot :: "u32 \<Rightarrow> slot option \<Rightarrow> mem_vm_host \<Rightarrow> mem_vm_host" where
  "set_slot vm_id s h = h\<lparr>mh_slots := (mh_slots h)[unat vm_id := s]\<rparr>"

definition terminal :: "string \<Rightarrow> bool" where
  "terminal st \<longleftrightarrow> st = ''halted'' \<or> st = ''stopped'' \<or> st = ''faulted''"

subsection \<open>VM lifecycle\<close>

fun alloc_slot :: "slot \<Rightarrow> slot option list \<Rightarrow> (slot option list \<times> nat) option" where
  "alloc_slot s [] = None"
| "alloc_slot s (None # rest) = Some (Some s # rest, 0)"
| "alloc_slot s (Some t # rest) = map_option (\<lambda>(ss, i). (Some t # ss, Suc i)) (alloc_slot s rest)"

definition host_create ::
  "mem_vm_host \<Rightarrow> string \<Rightarrow> restart_policy \<Rightarrow> string option \<Rightarrow> u32 option \<Rightarrow> u64 option \<Rightarrow> u32 option \<Rightarrow>
   mem_vm_host \<times> host_result" where
  "host_create h label policy img cpus mem crc =
     (if 32 < length label then (h, Err ''label > 32 chars'')
      else (case alloc_slot \<lparr>sl_label = label, sl_state = ''created'', sl_last_exit = None,
                   sl_restart_policy = policy, sl_volumes = [], sl_image_path = img,
                   sl_cpu_count = cpus, sl_memory_mib = mem, sl_boot_blob_crc32c = crc\<rparr> (mh_slots h) of
              None \<Rightarrow> (h, Err ''vm registry full'')
            | Some (slots, i) \<Rightarrow> (h\<lparr>mh_slots := slots\<rparr>, Ok (Created (of_nat i)))))"

definition host_start :: "mem_vm_host \<Rightarrow> u32 \<Rightarrow> mem_vm_host \<times> host_result" where
  "host_start h vm_id =
     (case slot_mut (mh_slots h) vm_id of
        Err e \<Rightarrow> (h, Err e)
      | Ok s \<Rightarrow>
          if terminal (sl_state s) then (h, Err ''vm already terminal'')
          else if sl_state s = ''running'' then (h, Err ''vm already running'')
          else (set_slot vm_id (Some (s\<lparr>sl_state := ''halted'', sl_last_exit := Some 12\<rparr>)) h,
                Ok (StateIs vm_id ''halted'')))"

definition host_stop :: "mem_vm_host \<Rightarrow> u32 \<Rightarrow> mem_vm_host \<times> host_result" where
  "host_stop h vm_id =
     (case slot_mut (mh_slots h) vm_id of
        Err e \<Rightarrow> (h, Err e)
      | Ok s \<Rightarrow>
          (let s' = (if terminal (sl_state s) then s else s\<lparr>sl_state := ''stopped''\<rparr>)
           in (set_slot vm_id (Some s') h, Ok (StateIs vm_id (sl_state s')))))"

definition host_delete :: "mem_vm_host \<Rightarrow> u32 \<Rightarrow> mem_vm_host \<times> host_result" where
  "host_delete h vm_id =
     (case slot_mut (mh_slots h) vm_id of
        Err e \<Rightarrow> (h, Err e)
      | Ok s \<Rightarrow>
          if \<not> terminal (sl_state s) then (h, Err ''vm not terminal; stop first'')
          else (set_slot vm_id None h, Ok (Deleted vm_id)))"

subsection \<open>Volumes and snapshots\<close>

text \<open>A store's result turned into a reply, with the store's new state put back.\<close>

definition host_vault ::
  "mem_vm_host \<Rightarrow> string \<Rightarrow> mem_inner \<times> 'a cel_result \<Rightarrow> ('a \<Rightarrow> vm_op_reply) \<Rightarrow> mem_vm_host \<times> host_result" where
  "host_vault h what gr k =
     (h\<lparr>mh_vault := fst gr\<rparr>,
      (case snd gr of Err e \<Rightarrow> Err (what @ '': '' @ debug_error e) | Ok a \<Rightarrow> Ok (k a)))"

definition host_nets ::
  "mem_vm_host \<Rightarrow> string \<Rightarrow> mem_nets \<times> 'a cel_result \<Rightarrow> ('a \<Rightarrow> vm_op_reply) \<Rightarrow> mem_vm_host \<times> host_result" where
  "host_nets h what gr k =
     (h\<lparr>mh_nets := fst gr\<rparr>,
      (case snd gr of Err e \<Rightarrow> Err (what @ '': '' @ debug_error e) | Ok a \<Rightarrow> Ok (k a)))"

definition attached_anywhere :: "slot option list \<Rightarrow> volume_id \<Rightarrow> bool" where
  "attached_anywhere slots vid \<longleftrightarrow>
     list_ex (\<lambda>s. case s of None \<Rightarrow> False
                | Some s \<Rightarrow> list_ex (\<lambda>a. att_volume_id a = vid) (sl_volumes s)) slots"

definition delete_volume_check :: "mem_vm_host \<Rightarrow> volume_id \<Rightarrow> string option" where
  "delete_volume_check h vid =
     (if attached_anywhere (mh_slots h) vid then Some ''vault delete: volume still attached'' else None)"

definition delete_volume_commit :: "mem_vm_host \<Rightarrow> volume_id \<Rightarrow> mem_vm_host \<times> host_result" where
  "delete_volume_commit h vid =
     host_vault h ''vault delete'' (vs_delete (mh_vault h) vid) (\<lambda>_. VolumeDeleted vid)"

definition attach_volume_check :: "mem_vm_host \<Rightarrow> volume_id \<Rightarrow> string \<Rightarrow> string option" where
  "attach_volume_check h vid mount_name =
     (if MAX_MOUNT < length mount_name then Some ''attach: mount_name > MAX_MOUNT''
      else if vs_get (mh_vault h) vid = None then Some ''attach: unknown volume''
      else None)"

definition attach_volume_commit :: "mem_vm_host \<Rightarrow> u32 \<Rightarrow> volume_id \<Rightarrow> string \<Rightarrow> mem_vm_host \<times> host_result" where
  "attach_volume_commit h vm_id vid mount_name =
     (case slot_mut (mh_slots h) vm_id of
        Err e \<Rightarrow> (h, Err e)
      | Ok s \<Rightarrow>
          if list_ex (\<lambda>a. att_volume_id a = vid) (sl_volumes s)
            then (h, Err ''attach: volume already attached'')
          else
            (let vols = sl_volumes s @ [\<lparr>att_volume_id = vid, att_mount_name = mount_name\<rparr>]
             in (set_slot vm_id (Some (s\<lparr>sl_volumes := vols\<rparr>)) h, Ok (Attachments vm_id vols))))"

definition host_detach_volume :: "mem_vm_host \<Rightarrow> u32 \<Rightarrow> volume_id \<Rightarrow> mem_vm_host \<times> host_result" where
  "host_detach_volume h vm_id vid =
     (case slot_mut (mh_slots h) vm_id of
        Err e \<Rightarrow> (h, Err e)
      | Ok s \<Rightarrow>
          (let vols = filter (\<lambda>a. att_volume_id a \<noteq> vid) (sl_volumes s)
           in (set_slot vm_id (Some (s\<lparr>sl_volumes := vols\<rparr>)) h, Ok (Attachments vm_id vols))))"

definition host_read_volume :: "mem_vm_host \<Rightarrow> volume_id \<Rightarrow> u64 \<Rightarrow> u64 \<Rightarrow> mem_vm_host \<times> host_result" where
  "host_read_volume h vid offset len =
     (if MAX_VOLUME_IO_BYTES < unat len then (h, Err ''volume io: chunk too large'')
      else host_vault h ''vault read'' (mh_vault h, vs_read (mh_vault h) vid offset (unat len)) (VolumeData vid))"

definition host_write_volume :: "mem_vm_host \<Rightarrow> volume_id \<Rightarrow> u64 \<Rightarrow> bytes \<Rightarrow> mem_vm_host \<times> host_result" where
  "host_write_volume h vid offset bs =
     (if MAX_VOLUME_IO_BYTES < length bs then (h, Err ''volume io: chunk too large'')
      else host_vault h ''vault write'' (vs_write (mh_vault h) vid offset bs)
             (\<lambda>_. VolumeWritten vid (of_nat (length bs))))"

subsection \<open>The dispatcher\<close>

definition host_create_network :: "mem_vm_host \<Rightarrow> string \<Rightarrow> string \<Rightarrow> mem_vm_host \<times> host_result" where
  "host_create_network h name cidr =
     (case mh_owner h of
        None \<Rightarrow> (h, Err ''net: owner not yet known; snapshot first'')
      | Some owner \<Rightarrow>
          (case cidr_parse cidr of
             Err e \<Rightarrow> (h, Err (''net create: '' @ debug_error e))
           | Ok block \<Rightarrow> host_nets h ''net create'' (ns_create_network (mh_nets h) owner name block) NetworkCreated))"

definition host_attach_nic :: "mem_vm_host \<Rightarrow> network_id \<Rightarrow> u32 \<Rightarrow> string option \<Rightarrow> mem_vm_host \<times> host_result" where
  "host_attach_nic h nid vm_id ip =
     (case slot_mut (mh_slots h) vm_id of
        Err e \<Rightarrow> (h, Err e)
      | Ok _ \<Rightarrow>
          (case ip of
             None \<Rightarrow> host_nets h ''net.nic.attach'' (ns_attach_nic (mh_nets h) nid vm_id None) NicAttached
           | Some s \<Rightarrow>
               (case parse_ipv4 s of
                  None \<Rightarrow> (h, Err ''net.nic.attach: bad ip'')
                | Some a \<Rightarrow> host_nets h ''net.nic.attach'' (ns_attach_nic (mh_nets h) nid vm_id (Some a)) NicAttached)))"

fun host_op :: "mem_vm_host \<Rightarrow> vm_op \<Rightarrow> mem_vm_host \<times> host_result" where
  "host_op h (VmCreate label policy img cpus mem crc) = host_create h label policy img cpus mem crc"
| "host_op h (VmStart vm_id) = host_start h vm_id"
| "host_op h (VmStop vm_id) = host_stop h vm_id"
| "host_op h (VmDelete vm_id) = host_delete h vm_id"
| "host_op h VmList = (h, Ok (Listed []))"
| "host_op h (CreateVolume name size_bytes) =
     (case mh_owner h of
        None \<Rightarrow> (h, Err ''vault: owner not yet known; snapshot first'')
      | Some owner \<Rightarrow> host_vault h ''vault create'' (vs_create (mh_vault h) owner name size_bytes) VolumeCreated)"
| "host_op h (DeleteVolume vid) =
     (case delete_volume_check h vid of Some e \<Rightarrow> (h, Err e) | None \<Rightarrow> delete_volume_commit h vid)"
| "host_op h ListVolumes = (h, Ok (VolumesListed (vs_list (mh_vault h))))"
| "host_op h (AttachVolume vm_id vid mount_name) =
     (case attach_volume_check h vid mount_name of
        Some e \<Rightarrow> (h, Err e) | None \<Rightarrow> attach_volume_commit h vm_id vid mount_name)"
| "host_op h (DetachVolume vm_id vid) = host_detach_volume h vm_id vid"
| "host_op h (ReadVolume vid offset len) = host_read_volume h vid offset len"
| "host_op h (WriteVolume vid offset bs) = host_write_volume h vid offset bs"
| "host_op h (CreateSnapshot vid name) =
     host_vault h ''vault snapshot'' (vs_create_snapshot (mh_vault h) vid name) SnapshotCreated"
| "host_op h (ListSnapshots volume) = (h, Ok (SnapshotsListed (vs_list_snapshots (mh_vault h) volume)))"
| "host_op h (DeleteSnapshot sid) =
     host_vault h ''vault snapshot delete'' (vs_delete_snapshot (mh_vault h) sid) (\<lambda>_. SnapshotDeleted sid)"
| "host_op h (RestoreSnapshot sid) =
     host_vault h ''vault snapshot restore'' (vs_restore_snapshot (mh_vault h) sid) (\<lambda>_. SnapshotRestored sid)"
| "host_op h (CreateNetwork name cidr) = host_create_network h name cidr"
| "host_op h (DeleteNetwork nid) =
     host_nets h ''net delete'' (ns_delete_network (mh_nets h) nid) (\<lambda>_. NetworkDeleted nid)"
| "host_op h ListNetworks = (h, Ok (NetworksListed (ns_list_networks (mh_nets h))))"
| "host_op h (AttachNic nid vm_id ip) = host_attach_nic h nid vm_id ip"
| "host_op h (DetachNic kid) =
     host_nets h ''net.nic.detach'' (ns_detach_nic (mh_nets h) kid) (\<lambda>_. NicDetached kid)"
| "host_op h ListNics = (h, Ok (NicsListed (ns_list_nics (mh_nets h))))"
| "host_op h (CreateSecurityGroup name rules) =
     (case mh_owner h of
        None \<Rightarrow> (h, Err ''sg: owner not yet known; snapshot first'')
      | Some owner \<Rightarrow>
          host_nets h ''sg create'' (ns_create_security_group (mh_nets h) owner name rules) SecurityGroupCreated)"
| "host_op h (DeleteSecurityGroup sid) =
     host_nets h ''sg delete'' (ns_delete_security_group (mh_nets h) sid) (\<lambda>_. SecurityGroupDeleted sid)"
| "host_op h ListSecurityGroups = (h, Ok (SecurityGroupsListed (ns_list_security_groups (mh_nets h))))"
| "host_op h (CreateLoadBalancer name nid vip port algo backends) =
     (case mh_owner h of
        None \<Rightarrow> (h, Err ''lb: owner not yet known; snapshot first'')
      | Some owner \<Rightarrow>
          (case parse_ipv4 vip of
             None \<Rightarrow> (h, Err ''lb create: bad vip'')
           | Some v \<Rightarrow>
               host_nets h ''lb create''
                 (ns_create_load_balancer (mh_nets h) owner name nid v port algo backends) LoadBalancerCreated))"
| "host_op h (DeleteLoadBalancer lid) =
     host_nets h ''lb delete'' (ns_delete_load_balancer (mh_nets h) lid) (\<lambda>_. LoadBalancerDeleted lid)"
| "host_op h ListLoadBalancers = (h, Ok (LoadBalancersListed (ns_list_load_balancers (mh_nets h))))"

definition host_apply :: "mem_vm_host \<Rightarrow> vm_op \<Rightarrow> mem_vm_host \<times> host_result" where
  "host_apply h op =
     (if \<not> cap_contains (mh_caps h) (cap_required op)
        then (h, Err (''capability denied: '' @ op_tag op))
      else host_op h op)"

definition host_row :: "node_id \<Rightarrow> nat \<times> slot option \<Rightarrow> remote_vm list" where
  "host_row owner is =
     (case snd is of
        None \<Rightarrow> []
      | Some s \<Rightarrow>
          [\<lparr>rv_owner = owner, rv_vm_id = of_nat (fst is), rv_label = sl_label s, rv_state = sl_state s,
            rv_last_exit = sl_last_exit s, rv_epoch = 0, rv_hlc = 0, rv_owner_alive = True,
            rv_restart_policy = sl_restart_policy s, rv_volumes = sl_volumes s,
            rv_image_path = sl_image_path s, rv_cpu_count = sl_cpu_count s,
            rv_memory_mib = sl_memory_mib s, rv_boot_blob_crc32c = sl_boot_blob_crc32c s\<rparr>])"

definition host_snapshot :: "mem_vm_host \<Rightarrow> node_id \<Rightarrow> mem_vm_host \<times> remote_vm list" where
  "host_snapshot h owner =
     (let h' = remember_owner owner h
      in (h', concat (map (host_row owner) (enumerate 0 (mh_slots h')))))"

definition host_attach_preserved ::
  "mem_vm_host \<Rightarrow> u32 \<Rightarrow> volume_attachment list \<Rightarrow> mem_vm_host \<times> (string, unit) result" where
  "host_attach_preserved h vm_id attachments =
     (case slot_mut (mh_slots h) vm_id of
        Err e \<Rightarrow> (h, Err e)
      | Ok s \<Rightarrow> (set_slot vm_id (Some (s\<lparr>sl_volumes := attachments\<rparr>)) h, Ok ()))"

subsection \<open>What an operation does to the stores\<close>

text \<open>
  The commands an operation sends to the vault and to the network store: at most one each. The
  stores' own theorems about command sequences carry over to the host through these.
\<close>

fun vault_cmds :: "mem_vm_host \<Rightarrow> vm_op \<Rightarrow> vault_cmd list" where
  "vault_cmds h (CreateVolume name n) = (case mh_owner h of None \<Rightarrow> [] | Some own \<Rightarrow> [VCreate own name n])"
| "vault_cmds h (DeleteVolume v) = (if attached_anywhere (mh_slots h) v then [] else [VDelete v])"
| "vault_cmds h (WriteVolume v off bs) = (if MAX_VOLUME_IO_BYTES < length bs then [] else [VWrite v off bs])"
| "vault_cmds h (CreateSnapshot v name) = [VSnapshot v name]"
| "vault_cmds h (DeleteSnapshot sid) = [VDeleteSnapshot sid]"
| "vault_cmds h (RestoreSnapshot sid) = [VRestore sid]"
| "vault_cmds h _ = []"

fun net_cmds :: "mem_vm_host \<Rightarrow> vm_op \<Rightarrow> net_cmd list" where
  "net_cmds h (CreateNetwork name cidr) = (case mh_owner h of None \<Rightarrow> [] | Some own \<Rightarrow> [NCreateNetwork own name cidr])"
| "net_cmds h (DeleteNetwork nid) = [NDeleteNetwork nid]"
| "net_cmds h (AttachNic nid vm ip) =
     (case slot_mut (mh_slots h) vm of
        Err _ \<Rightarrow> []
      | Ok _ \<Rightarrow> (case ip of None \<Rightarrow> [NAttach nid vm None]
                | Some s \<Rightarrow> (case parse_ipv4 s of None \<Rightarrow> [] | Some a \<Rightarrow> [NAttach nid vm (Some a)])))"
| "net_cmds h (DetachNic kid) = [NDetach kid]"
| "net_cmds h (CreateSecurityGroup name rules) = (case mh_owner h of None \<Rightarrow> [] | Some own \<Rightarrow> [NCreateSg own name rules])"
| "net_cmds h (DeleteSecurityGroup sid) = [NDeleteSg sid]"
| "net_cmds h (CreateLoadBalancer name nid vip port algo backends) =
     (case mh_owner h of
        None \<Rightarrow> []
      | Some own \<Rightarrow> (case parse_ipv4 vip of None \<Rightarrow> [] | Some v \<Rightarrow> [NCreateLb own name nid v port algo backends]))"
| "net_cmds h (DeleteLoadBalancer lid) = [NDeleteLb lid]"
| "net_cmds h _ = []"

lemmas host_defs = host_create_def host_start_def host_stop_def host_delete_def host_vault_def host_nets_def
  delete_volume_check_def delete_volume_commit_def attach_volume_check_def attach_volume_commit_def
  host_detach_volume_def host_read_volume_def host_write_volume_def host_create_network_def host_attach_nic_def
  set_slot_def Let_def

lemma host_op_stores:
  "mh_vault (fst (host_op h op)) = vault_run (mh_vault h) (vault_cmds h op)"
  "mh_nets (fst (host_op h op)) = net_run (mh_nets h) (net_cmds h op)"
  by (cases op; simp add: host_defs net_run_def split: option.split result.split prod.split)+

lemma host_op_owner_caps [simp]:
  "mh_owner (fst (host_op h op)) = mh_owner h" "mh_caps (fst (host_op h op)) = mh_caps h"
  by (cases op; simp add: host_defs split: option.split result.split prod.split)+

lemma length_cmds: "length (vault_cmds h op) \<le> 1" "length (net_cmds h op) \<le> 1"
  by (cases op; simp split: option.split result.split)+

text \<open>A failed store operation leaves the store alone, and so a failed host operation the host.\<close>

lemma vault_err_unchanged:
  "snd (vs_create g own n sz) = Err e \<Longrightarrow> fst (vs_create g own n sz) = g"
  "snd (vs_write g v off d) = Err e \<Longrightarrow> fst (vs_write g v off d) = g"
  "snd (vs_create_snapshot g v n) = Err e \<Longrightarrow> fst (vs_create_snapshot g v n) = g"
  "snd (vs_restore_snapshot g sid) = Err e \<Longrightarrow> fst (vs_restore_snapshot g sid) = g"
  by (auto simp: vs_create_def vs_write_def vs_create_snapshot_def vs_restore_snapshot_def Let_def
      split: result.splits option.splits if_splits)

lemma net_err_unchanged:
  "snd (ns_create_network g own n c) = Err e \<Longrightarrow> fst (ns_create_network g own n c) = g"
  "snd (ns_delete_network g nid) = Err e \<Longrightarrow> fst (ns_delete_network g nid) = g"
  "snd (ns_attach_nic g nid vm ip) = Err e \<Longrightarrow> fst (ns_attach_nic g nid vm ip) = g"
  "snd (ns_create_security_group g own n rules) = Err e \<Longrightarrow> fst (ns_create_security_group g own n rules) = g"
  "snd (ns_create_load_balancer g own n nid vip port algo bs) = Err e \<Longrightarrow>
   fst (ns_create_load_balancer g own n nid vip port algo bs) = g"
  by (auto simp: net_op_defs split: result.splits option.splits if_splits)

lemma never_fail:
  "snd (vs_delete g v) = Ok ()" "snd (vs_delete_snapshot g sid) = Ok ()" "snd (ns_detach_nic g' kid) = Ok ()"
  "snd (ns_delete_security_group g' sgid) = Ok ()" "snd (ns_delete_load_balancer g' lid) = Ok ()"
  by (simp_all add: vs_delete_def vs_delete_snapshot_def ns_detach_nic_def ns_delete_security_group_def
      ns_delete_load_balancer_def split: option.split)

lemma host_vault_err:
  "snd (host_vault h w gr k) = Err e \<Longrightarrow> (\<And>e. snd gr = Err e \<Longrightarrow> fst gr = mh_vault h) \<Longrightarrow>
   fst (host_vault h w gr k) = h"
  by (auto simp: host_vault_def split: result.splits)

lemma host_nets_err:
  "snd (host_nets h w gr k) = Err e \<Longrightarrow> (\<And>e. snd gr = Err e \<Longrightarrow> fst gr = mh_nets h) \<Longrightarrow>
   fst (host_nets h w gr k) = h"
  by (auto simp: host_nets_def split: result.splits)

lemma host_op_err: "snd (host_op h op) = Err e \<Longrightarrow> fst (host_op h op) = h"
  by (cases op) (auto simp: host_create_def host_start_def host_stop_def host_delete_def delete_volume_check_def
    delete_volume_commit_def attach_volume_check_def attach_volume_commit_def host_detach_volume_def
    host_read_volume_def host_write_volume_def host_create_network_def host_attach_nic_def Let_def never_fail
    intro!: host_vault_err host_nets_err vault_err_unchanged net_err_unchanged
    split: option.splits result.splits if_splits)

subsection \<open>What an operation does to the slots\<close>

lemma alloc_slot_Some:
  "alloc_slot s slots = Some (slots', i) \<Longrightarrow>
     i < length slots \<and> slots ! i = None \<and> slots' = slots[i := Some s] \<and> (\<forall>j < i. slots ! j \<noteq> None)"
proof (induction s slots arbitrary: slots' i rule: alloc_slot.induct)
  case (3 s t rest)
  then obtain ss j where "alloc_slot s rest = Some (ss, j)" "slots' = Some t # ss" "i = Suc j" by auto
  with 3 show ?case by (auto simp: less_Suc_eq_0_disj)
qed auto

lemma alloc_slot_None: "alloc_slot s slots = None \<longleftrightarrow> None \<notin> set slots"
  by (induction s slots rule: alloc_slot.induct) auto

lemma slot_mut_Ok: "slot_mut slots vm = Ok s \<longleftrightarrow> unat vm < MAX_SLOTS \<and> slots ! unat vm = Some s"
  by (auto simp: slot_mut_def not_le)

text \<open>The lifecycle of a slot, by the state tag it shows (\<open>None\<close> when it is free).\<close>

inductive life_step :: "string option \<Rightarrow> string option \<Rightarrow> bool" where
  life_create: "life_step None (Some ''created'')"
| life_start: "life_step (Some ''created'') (Some ''halted'')"
| life_stop: "life_step (Some ''created'') (Some ''stopped'')"
| life_delete: "terminal st \<Longrightarrow> life_step (Some st) None"

inductive_simps life_step_from [simp]: "life_step (Some st) x"
inductive_simps life_step_fresh [simp]: "life_step None x"

definition life :: "mem_vm_host \<Rightarrow> nat \<Rightarrow> string option" where
  "life h i = map_option sl_state (mh_slots h ! i)"

definition slot_wf :: "slot \<Rightarrow> bool" where
  "slot_wf s \<longleftrightarrow> length (sl_label s) \<le> 32 \<and> (sl_state s = ''created'' \<or> sl_state s = ''halted'' \<or> sl_state s = ''stopped'') \<and>
     (sl_last_exit s = (if sl_state s = ''halted'' then Some 12 else None)) \<and>
     distinct (map att_volume_id (sl_volumes s)) \<and> (\<forall>a \<in> set (sl_volumes s). length (att_mount_name a) \<le> MAX_MOUNT)"

definition slots_wf :: "slot option list \<Rightarrow> bool" where
  "slots_wf slots \<longleftrightarrow> length slots = MAX_SLOTS \<and> (\<forall>i < MAX_SLOTS. \<forall>s. slots ! i = Some s \<longrightarrow> slot_wf s)"

lemma slots_wf_upd:
  "slots_wf slots \<Longrightarrow> (\<And>s. x = Some s \<Longrightarrow> slot_wf s) \<Longrightarrow> slots_wf (slots[i := x])"
  by (cases "i < MAX_SLOTS") (auto simp: slots_wf_def nth_list_update)

text \<open>One slot at most changes, to a well-formed content, by a lifecycle step or not at all.\<close>

definition slot_changed :: "mem_vm_host \<Rightarrow> mem_vm_host \<Rightarrow> bool" where
  "slot_changed h h' \<longleftrightarrow> (\<exists>i x. i < MAX_SLOTS \<and> mh_slots h' = (mh_slots h)[i := x] \<and>
     (\<forall>s. x = Some s \<longrightarrow> slot_wf s) \<and>
     (map_option sl_state x = life h i \<or> life_step (life h i) (map_option sl_state x)))"

lemma slot_wf_simps:
  "slot_wf s \<Longrightarrow> sl_state s = ''created'' \<Longrightarrow> slot_wf (s\<lparr>sl_state := ''halted'', sl_last_exit := Some 12\<rparr>)"
  "slot_wf s \<Longrightarrow> sl_state s = ''created'' \<Longrightarrow> slot_wf (s\<lparr>sl_state := ''stopped''\<rparr>)"
  "slot_wf s \<Longrightarrow> slot_wf (s\<lparr>sl_volumes := filter P (sl_volumes s)\<rparr>)"
  "slot_wf s \<Longrightarrow> \<not> list_ex (\<lambda>a. att_volume_id a = v) (sl_volumes s) \<Longrightarrow> length m \<le> MAX_MOUNT \<Longrightarrow>
   slot_wf (s\<lparr>sl_volumes := sl_volumes s @ [\<lparr>att_volume_id = v, att_mount_name = m\<rparr>]\<rparr>)"
  by (auto simp: slot_wf_def list_ex_iff distinct_map inj_on_def)

lemma slot_wf_state:
  "slot_wf s \<Longrightarrow> terminal (sl_state s) \<longleftrightarrow> sl_state s \<noteq> ''created''"
  "slot_wf s \<Longrightarrow> sl_state s \<noteq> ''running''"
  by (auto simp: slot_wf_def terminal_def)

lemma slot_changed_set:
  assumes "slot_mut (mh_slots h) vm = Ok s" "\<And>t. x = Some t \<Longrightarrow> slot_wf t"
    and "map_option sl_state x = Some (sl_state s) \<or> life_step (Some (sl_state s)) (map_option sl_state x)"
  shows "slot_changed h (set_slot vm x h)"
  unfolding slot_changed_def using assms
  by (intro exI [of _ "unat vm"] exI [of _ x]) (simp add: set_slot_def life_def slot_mut_Ok)

lemma slot_changed_Some:
  "slot_mut (mh_slots h) vm = Ok s \<Longrightarrow> slot_wf t \<Longrightarrow>
   sl_state t = sl_state s \<or> life_step (Some (sl_state s)) (Some (sl_state t)) \<Longrightarrow>
   slot_changed h (set_slot vm (Some t) h)"
  by (rule slot_changed_set) auto

lemma slot_of_wf: "slots_wf (mh_slots h) \<Longrightarrow> slot_mut (mh_slots h) vm = Ok s \<Longrightarrow> slot_wf s"
  by (auto simp: slot_mut_Ok slots_wf_def)

lemma attach_commit_slots:
  assumes "slots_wf (mh_slots h)" "length m \<le> MAX_MOUNT"
  shows "mh_slots (fst (attach_volume_commit h vm v m)) = mh_slots h \<or>
    slot_changed h (fst (attach_volume_commit h vm v m))"
proof (cases "slot_mut (mh_slots h) vm")
  case (Ok s)
  with assms slot_wf_simps(4) [OF slot_of_wf, of h vm s] slot_changed_Some [OF Ok] show ?thesis
    by (simp add: attach_volume_commit_def Let_def)
qed (simp add: attach_volume_commit_def)

lemma host_op_slots:
  assumes "slots_wf (mh_slots h)"
  shows "mh_slots (fst (host_op h op)) = mh_slots h \<or> slot_changed h (fst (host_op h op))"
proof (cases op)
  case (VmCreate label policy img cpus mem crc)
  let ?s = "\<lparr>sl_label = label, sl_state = ''created'', sl_last_exit = None, sl_restart_policy = policy, sl_volumes = [],
    sl_image_path = img, sl_cpu_count = cpus, sl_memory_mib = mem, sl_boot_blob_crc32c = crc\<rparr>"
  show ?thesis
  proof (cases "32 < length label \<or> alloc_slot ?s (mh_slots h) = None")
    case False
    then obtain slots i where i: "alloc_slot ?s (mh_slots h) = Some (slots, i)" "length label \<le> 32" by auto
    with alloc_slot_Some [OF i(1)] assms VmCreate have "slot_changed h (fst (host_op h op))"
      unfolding slot_changed_def
      by (intro exI [of _ i] exI [of _ "Some ?s"]) (simp add: host_create_def life_def slot_wf_def slots_wf_def)
    then show ?thesis ..
  qed (auto simp: VmCreate host_create_def)
next
  case (VmStart vm)
  show ?thesis
  proof (cases "slot_mut (mh_slots h) vm")
    case (Ok s)
    with VmStart slot_of_wf [OF assms Ok] slot_wf_state [of s] slot_wf_simps(1) [of s] slot_changed_Some [OF Ok]
    show ?thesis by (simp add: host_start_def)
  qed (simp add: VmStart host_start_def)
next
  case (VmStop vm)
  show ?thesis
  proof (cases "slot_mut (mh_slots h) vm")
    case (Ok s)
    with VmStop slot_of_wf [OF assms Ok] slot_wf_state [of s] slot_wf_simps(2) [of s] slot_changed_Some [OF Ok]
    show ?thesis by (simp add: host_stop_def Let_def)
  qed (simp add: VmStop host_stop_def)
next
  case (VmDelete vm)
  show ?thesis
  proof (cases "slot_mut (mh_slots h) vm")
    case (Ok s)
    with VmDelete slot_changed_set [OF Ok, of None] show ?thesis by (simp add: host_delete_def)
  qed (simp add: VmDelete host_delete_def)
next
  case (DetachVolume vm v)
  show ?thesis
  proof (cases "slot_mut (mh_slots h) vm")
    case (Ok s)
    with DetachVolume slot_of_wf [OF assms Ok] slot_wf_simps(3) [of s] slot_changed_Some [OF Ok]
    show ?thesis by (simp add: host_detach_volume_def Let_def)
  qed (simp add: DetachVolume host_detach_volume_def)
next
  case (AttachVolume vm v m)
  then show ?thesis using attach_commit_slots [OF assms, of m vm v]
    by (simp add: attach_volume_check_def)
qed (auto simp: host_defs split: option.splits result.splits)

lemma slots_wf_host_op: "slots_wf (mh_slots h) \<Longrightarrow> slots_wf (mh_slots (fst (host_op h op)))"
  using host_op_slots [of h op] by (auto simp: slot_changed_def intro!: slots_wf_upd)

subsection \<open>Attached volumes exist\<close>

definition attached_exist :: "mem_vm_host \<Rightarrow> bool" where
  "attached_exist h \<longleftrightarrow> (\<forall>v. attached_anywhere (mh_slots h) v \<longrightarrow> vs_get (mh_vault h) v \<noteq> None)"

definition in_slot :: "slot option \<Rightarrow> volume_id \<Rightarrow> bool" where
  "in_slot x v \<longleftrightarrow> (case x of None \<Rightarrow> False | Some s \<Rightarrow> v \<in> set (map att_volume_id (sl_volumes s)))"

lemma attached_anywhere_iff: "attached_anywhere slots v \<longleftrightarrow> (\<exists>x \<in> set slots. in_slot x v)"
proof -
  have "(case x of None \<Rightarrow> False | Some s \<Rightarrow> list_ex (\<lambda>a. att_volume_id a = v) (sl_volumes s)) = in_slot x v" for x
    by (cases x) (auto simp: in_slot_def list_ex_iff)
  then show ?thesis by (simp only: attached_anywhere_def list_ex_iff)
qed

lemma attached_upd: "attached_anywhere (slots[i := x]) v \<Longrightarrow> attached_anywhere slots v \<or> in_slot x v"
  using set_update_subset_insert [of slots i x] by (auto simp: attached_anywhere_iff)

lemma attached_set_slot:
  assumes "slot_mut (mh_slots h) vm = Ok s" "slots_wf (mh_slots h)"
    and "attached_anywhere (mh_slots (set_slot vm (Some t) h)) v"
  shows "attached_anywhere (mh_slots h) v \<or> v \<in> set (map att_volume_id (sl_volumes t)) - set (map att_volume_id (sl_volumes s))"
proof -
  have "unat vm < length (mh_slots h)" "mh_slots h ! unat vm = Some s"
    using assms(1,2) by (simp_all add: slot_mut_Ok slots_wf_def)
  then have "Some s \<in> set (mh_slots h)" by (metis nth_mem)
  then have "in_slot (Some s) v \<Longrightarrow> attached_anywhere (mh_slots h) v" unfolding attached_anywhere_iff by blast
  moreover have "attached_anywhere (mh_slots h) v \<or> in_slot (Some t) v"
    using assms(3) attached_upd [of "mh_slots h" "unat vm" "Some t" v] by (simp add: set_slot_def)
  ultimately show ?thesis by (auto simp: in_slot_def)
qed

lemma vault_exec_get:
  assumes "vs_get g v \<noteq> None" "c \<noteq> VDelete v"
  shows "vs_get (vault_exec g c) v \<noteq> None"
  using assms by (cases c) (auto simp: vault_op_defs vs_get_def map_simps split: result.splits option.splits)

lemma attach_commit_attached:
  assumes "attached_anywhere (mh_slots (fst (attach_volume_commit h vm v m))) w" "slots_wf (mh_slots h)"
  shows "attached_anywhere (mh_slots h) w \<or> w = v"
proof (cases "slot_mut (mh_slots h) vm")
  case (Ok s)
  with attached_set_slot [OF Ok assms(2)] assms(1) show ?thesis
    by (fastforce simp: attach_volume_commit_def Let_def split: if_splits)
qed (use assms in \<open>simp add: attach_volume_commit_def\<close>)

lemma host_op_attached:
  assumes "attached_anywhere (mh_slots (fst (host_op h op))) v" "slots_wf (mh_slots h)"
  shows "attached_anywhere (mh_slots h) v \<or> (\<exists>vm m. op = AttachVolume vm v m \<and> attach_volume_check h v m = None)"
proof (cases op)
  case (VmCreate label policy img cpus mem crc)
  with assms(1) show ?thesis
    by (auto simp: host_create_def in_slot_def dest!: alloc_slot_Some attached_upd split: option.splits if_splits)
next
  case (VmStart vm)
  show ?thesis
  proof (cases "slot_mut (mh_slots h) vm")
    case (Ok s)
    with VmStart assms(1) attached_set_slot [OF Ok assms(2)] show ?thesis
      by (fastforce simp: host_start_def split: if_splits)
  qed (use VmStart assms in \<open>simp add: host_start_def\<close>)
next
  case (VmStop vm)
  show ?thesis
  proof (cases "slot_mut (mh_slots h) vm")
    case (Ok s)
    with VmStop assms(1) attached_set_slot [OF Ok assms(2)] show ?thesis
      by (fastforce simp: host_stop_def Let_def split: if_splits)
  qed (use VmStop assms in \<open>simp add: host_stop_def\<close>)
next
  case (VmDelete vm)
  with assms(1) show ?thesis
    by (auto simp: host_delete_def set_slot_def in_slot_def dest!: attached_upd split: result.splits if_splits)
next
  case (DetachVolume vm w)
  show ?thesis
  proof (cases "slot_mut (mh_slots h) vm")
    case (Ok s)
    with DetachVolume assms(1) attached_set_slot [OF Ok assms(2)] show ?thesis
      by (fastforce simp: host_detach_volume_def Let_def)
  qed (use DetachVolume assms in \<open>simp add: host_detach_volume_def\<close>)
next
  case (AttachVolume vm w m)
  with assms attach_commit_attached [of h vm w m v] show ?thesis by (auto split: option.splits)
qed (use assms in \<open>auto simp: host_defs split: option.splits result.splits if_splits\<close>)

lemma host_op_attached_exist:
  assumes "attached_exist h" "slots_wf (mh_slots h)"
  shows "attached_exist (fst (host_op h op))"
  unfolding attached_exist_def
proof (intro allI impI)
  fix v assume v: "attached_anywhere (mh_slots (fst (host_op h op))) v"
  from host_op_attached [OF v assms(2)] have get: "vs_get (mh_vault h) v \<noteq> None"
    using assms(1) by (auto simp: attached_exist_def attach_volume_check_def split: if_splits)
  have del: "vault_cmds h op = [] \<or> (\<exists>c. vault_cmds h op = [c] \<and> c \<noteq> VDelete v)"
  proof (cases op)
    case (DeleteVolume w)
    with host_op_attached [OF v assms(2)] show ?thesis by auto
  qed (auto split: option.splits)
  then show "vs_get (mh_vault (fst (host_op h op))) v \<noteq> None"
    using vault_exec_get [OF get] get by (auto simp: host_op_stores)
qed

subsection \<open>Runs\<close>

datatype host_cmd = HOp vm_op | HSnap node_id

fun host_exec :: "mem_vm_host \<Rightarrow> host_cmd \<Rightarrow> mem_vm_host" where
  "host_exec h (HOp op) = fst (host_apply h op)"
| "host_exec h (HSnap owner) = fst (host_snapshot h owner)"

definition host_run :: "mem_vm_host \<Rightarrow> host_cmd list \<Rightarrow> mem_vm_host" where
  "host_run h cmds = foldl host_exec h cmds"

definition host_inv :: "mem_vm_host \<Rightarrow> bool" where
  "host_inv h \<longleftrightarrow> slots_wf (mh_slots h) \<and> attached_exist h \<and> vault_inv (mh_vault h) \<and> net_inv (mh_nets h)"

definition host_counters_le :: "mem_vm_host \<Rightarrow> nat \<Rightarrow> bool" where
  "host_counters_le h k \<longleftrightarrow> counters_le (mh_vault h) k \<and> net_counters_le (mh_nets h) k"

lemma host_snapshot_state:
  "mh_slots (fst (host_snapshot h own)) = mh_slots h" "mh_vault (fst (host_snapshot h own)) = mh_vault h"
  "mh_nets (fst (host_snapshot h own)) = mh_nets h" "mh_caps (fst (host_snapshot h own)) = mh_caps h"
  by (simp_all add: host_snapshot_def remember_owner_def Let_def split: option.split)

lemma at_most_one: "length xs \<le> 1 \<Longrightarrow> xs = [] \<or> (\<exists>x. xs = [x])"
  by (cases xs) auto

lemma counters_mono:
  "counters_le g k \<Longrightarrow> counters_le g (Suc k)" "net_counters_le n k \<Longrightarrow> net_counters_le n (Suc k)"
  by (auto simp: counters_le_def net_counters_le_def le_SucI)

lemma host_op_inv:
  assumes "host_inv h" "host_counters_le h k" "k + 1 < 2 ^ 32"
  shows "host_inv (fst (host_op h op))" "host_counters_le (fst (host_op h op)) (Suc k)"
proof -
  have k64: "k + 1 < 2 ^ 64" using assms(3) by simp
  note pre = assms(1) [unfolded host_inv_def] assms(2) [unfolded host_counters_le_def]
  from at_most_one [OF length_cmds(1) [of h op]] pre vault_exec_inv [OF _ _ k64, of "mh_vault h"] vault_exec_counters
  have v: "vault_inv (mh_vault (fst (host_op h op)))" "counters_le (mh_vault (fst (host_op h op))) (Suc k)"
    by (auto simp: host_op_stores counters_mono)
  from at_most_one [OF length_cmds(2) [of h op]] pre net_exec_inv [OF _ _ assms(3), of "mh_nets h"] net_exec_counters
  have n: "net_inv (mh_nets (fst (host_op h op)))" "net_counters_le (mh_nets (fst (host_op h op))) (Suc k)"
    by (auto simp: host_op_stores counters_mono net_run_def)
  from v n pre show "host_inv (fst (host_op h op))" "host_counters_le (fst (host_op h op)) (Suc k)"
    by (simp_all add: host_inv_def host_counters_le_def slots_wf_host_op host_op_attached_exist)
qed

lemma host_exec_inv:
  assumes "host_inv h" "host_counters_le h k" "k + 1 < 2 ^ 32"
  shows "host_inv (host_exec h c) \<and> host_counters_le (host_exec h c) (Suc k)"
proof (cases c)
  case (HOp op)
  with host_op_inv [OF assms] assms(1,2) show ?thesis
    by (auto simp: host_apply_def host_counters_le_def counters_mono)
next
  case (HSnap own)
  with assms show ?thesis
    by (simp add: host_inv_def host_counters_le_def attached_exist_def host_snapshot_state counters_mono)
qed

lemma host_run_inv:
  assumes "host_inv h" "host_counters_le h k" "k + length cs < 2 ^ 32"
  shows "host_inv (host_run h cs)"
  using assms
proof (induction cs arbitrary: h k)
  case (Cons c cs)
  then have "host_inv (host_exec h c)" "host_counters_le (host_exec h c) (Suc k)"
    using host_exec_inv [of h k c] by simp_all
  from Cons.IH [OF this] Cons.prems(3) show ?case by (simp add: host_run_def)
qed (simp add: host_run_def)

lemma host_inv_new: "host_inv (host_with_caps caps mem_vm_host_new)"
  by (simp add: host_inv_def host_with_caps_def mem_vm_host_new_def slots_wf_def attached_exist_def
      attached_anywhere_iff in_slot_def vault_inv_new net_inv_new)

lemma host_run_new:
  assumes "length cs < 2 ^ 32"
  shows "host_inv (host_run (host_with_caps caps mem_vm_host_new) cs)"
  by (rule host_run_inv [OF host_inv_new, of _ 0])
     (use assms in \<open>simp_all add: host_counters_le_def host_with_caps_def mem_vm_host_new_def new_counters
       net_counters_le_def mem_network_store_new_def\<close>)

subsection \<open>Interleavings\<close>

text \<open>
  Concurrent calls on one host. An attach or a delete of a volume that has passed its check is
  pending until it commits; every other step is a whole operation.
\<close>

datatype pending = PAttach u32 volume_id string | PDelete volume_id

inductive conc_step :: "mem_vm_host \<times> pending list \<Rightarrow> mem_vm_host \<times> pending list \<Rightarrow> bool" where
  conc_op: "conc_step (h, ps) (fst (host_apply h op), ps)"
| conc_snapshot: "conc_step (h, ps) (fst (host_snapshot h owner), ps)"
| attach_begin: "cap_contains (mh_caps h) VOLUME_ATTACH \<Longrightarrow> attach_volume_check h v m = None \<Longrightarrow>
    conc_step (h, ps) (h, PAttach vm v m # ps)"
| attach_end: "conc_step (h, ps @ PAttach vm v m # qs) (fst (attach_volume_commit h vm v m), ps @ qs)"
| delete_begin: "cap_contains (mh_caps h) VOLUME_WRITE \<Longrightarrow> delete_volume_check h v = None \<Longrightarrow>
    conc_step (h, ps) (h, PDelete v # ps)"
| delete_end: "conc_step (h, ps @ PDelete v # qs) (fst (delete_volume_commit h v), ps @ qs)"

definition pending_ok :: "pending list \<Rightarrow> bool" where
  "pending_ok ps \<longleftrightarrow> (\<forall>vm v m. PAttach vm v m \<in> set ps \<longrightarrow> length m \<le> MAX_MOUNT)"

lemma conc_step_wf:
  assumes "conc_step (h, ps) (h', ps')" "slots_wf (mh_slots h)" "pending_ok ps"
  shows "slots_wf (mh_slots h') \<and> pending_ok ps'"
  using assms
proof (cases rule: conc_step.cases)
  case (attach_end ps1 vm v m qs)
  then have "length m \<le> MAX_MOUNT" using assms(3) by (simp add: pending_ok_def)
  from attach_commit_slots [OF assms(2) this, of vm v] attach_end assms(2,3) show ?thesis
    by (auto simp: slot_changed_def pending_ok_def intro!: slots_wf_upd)
qed (auto simp: host_apply_def slots_wf_host_op host_snapshot_state attach_volume_check_def
    delete_volume_commit_def host_vault_def pending_ok_def split: if_splits)

subsection \<open>Properties\<close>

definition WRITE_CAPS :: capabilities where
  "WRITE_CAPS = VM_LIFECYCLE_WRITE OR VOLUME_WRITE OR VOLUME_ATTACH OR SNAPSHOT_WRITE OR NETWORK_WRITE OR
     SECGROUP_WRITE OR LB_WRITE"

text \<open>
  The capability gate is complete. An operation whose bit the host does not grant is refused
  with its tag and changes nothing, whatever the state; and a host that grants no mutating bit
  (write of VMs, volumes, snapshots, networks, groups or balancers, or attach) keeps its whole
  state under every operation.
\<close>

lemma capability_gate:
  "(\<not> cap_contains (mh_caps h) (cap_required op) \<longrightarrow>
      host_apply h op = (h, Err (''capability denied: '' @ op_tag op))) \<and>
   (mh_caps h AND WRITE_CAPS = 0 \<longrightarrow> fst (host_apply h op) = h)"
proof -
  have "fst (host_apply h op) = h" if "mh_caps h AND WRITE_CAPS = 0"
  proof (cases "WRITE_CAPS AND cap_required op = cap_required op")
    case True
    then have "mh_caps h AND cap_required op = (mh_caps h AND WRITE_CAPS) AND cap_required op" by (simp add: and.assoc)
    then have "mh_caps h AND cap_required op = 0" by (simp add: that)
    then show ?thesis by (simp add: host_apply_def contains_required)
  next
    case False
    then show ?thesis
      by (cases op) (simp_all add: WRITE_CAPS_def cap_bit_defs host_apply_def host_read_volume_def host_vault_def)
  qed
  then show ?thesis by (simp add: host_apply_def)
qed

text \<open>
  C32. Failed operations are atomic: for all 28 operations, when the host answers with an error its
  entire state - slots, vault, networks, owner, capabilities - is the state before the call.
\<close>

theorem host_errors_are_atomic:
  assumes "host_apply h op = (h', Err e)"
  shows "h' = h"
  using assms host_op_err [of h op e] by (auto simp: host_apply_def prod_eq_iff split: if_splits)

theorem host_errors_are_atomic_witness:
  "\<exists>e. host_apply mem_vm_host_new (VmStart 0) = (mem_vm_host_new, Err e)"
proof -
  have "snd (host_apply mem_vm_host_new (VmStart 0)) = Err ''vm not allocated''"
    by (simp add: host_apply_def mem_vm_host_new_def CAP_ALL_def cap_contains_def cap_bit_defs host_start_def
        slot_mut_def MAX_SLOTS_def)
  then obtain h' where h': "host_apply mem_vm_host_new (VmStart 0) = (h', Err ''vm not allocated'')"
    by (metis prod.collapse)
  from host_errors_are_atomic [OF h'] h' show ?thesis by blast
qed


lemma replicate_four: "replicate 4 x = [x, x, x, x]"
  by (simp add: numeral_eq_Suc)

lemmas host_eval = replicate_four host_apply_def mem_vm_host_new_def CAP_ALL_def cap_contains_def cap_bit_defs host_defs
  slot_mut_def MAX_SLOTS_def host_run_def host_snapshot_def remember_owner_def host_with_caps_def
  MAX_VOLUME_IO_BYTES_def MAX_MOUNT_def attached_anywhere_def vs_get_def terminal_def


lemma conc_reachable_wf:
  assumes "rtranclp conc_step c0 c" "c0 = (mem_vm_host_new, [])"
  shows "slots_wf (mh_slots (fst c)) \<and> pending_ok (snd c)"
  using assms
proof (induction rule: rtranclp_induct)
  case base
  then show ?case using host_inv_new [of CAP_ALL] by (simp add: host_inv_def host_with_caps_def mem_vm_host_new_def pending_ok_def)
next
  case (step c d)
  then show ?case using conc_step_wf [of "fst c" "snd c" "fst d" "snd d"] by simp
qed

text \<open>
  Under any interleaving of concurrent calls, including attaches and deletes that other calls
  overtake between their check and their commit, the slot table stays well-formed: four slots,
  states, exit reasons and labels as in a sequential run, and never the same volume attached twice
  to one VM, because the commit looks for it again under the lock.
\<close>

lemma interleaving_slots_wf:
  assumes "rtranclp conc_step (mem_vm_host_new, []) (h, ps)"
  shows "length (mh_slots h) = MAX_SLOTS \<and> (\<forall>i < MAX_SLOTS. \<forall>s. mh_slots h ! i = Some s \<longrightarrow>
    length (sl_label s) \<le> 32 \<and> (sl_state s = ''created'' \<or> sl_state s = ''halted'' \<or> sl_state s = ''stopped'') \<and>
    distinct (map att_volume_id (sl_volumes s)))"
  using conc_reachable_wf [OF assms] by (auto simp: slots_wf_def slot_wf_def)

text \<open>
  The existence of attached volumes does not survive concurrency. \<^verbatim>\<open>AttachVolume\<close> looks the
  volume up before it takes the slot lock, and \<^verbatim>\<open>DeleteVolume\<close> drops the slot lock before it
  deletes: an attach that passed its check, a complete delete, and the attach's commit leave a VM
  whose attached volume is gone, with both calls answered positively.
\<close>

lemma attach_delete_race:
  "\<exists>h v. rtranclp conc_step (mem_vm_host_new, []) (h, []) \<and> attached_anywhere (mh_slots h) v \<and>
     vs_get (mh_vault h) v = None"
proof -
  define h0 where "h0 = host_run mem_vm_host_new
    [HSnap ''n'', HOp (VmCreate ''a'' RestartNever None None None None), HOp (CreateVolume ''d'' 1)]"
  define h1 where "h1 = fst (host_apply h0 (DeleteVolume ''n/v1''))"
  define h2 where "h2 = fst (attach_volume_commit h1 0 ''n/v1'' ''m'')"
  have run: "rtranclp conc_step (h, []) (host_run h cs, [])" for h cs
  proof (induction cs arbitrary: h)
    case (Cons c cs)
    have "conc_step (h, []) (host_exec h c, [])" by (cases c) (auto intro: conc_op conc_snapshot)
    then show ?case using Cons [of "host_exec h c"] by (simp add: host_run_def converse_rtranclp_into_rtranclp)
  qed (simp add: host_run_def)
  have caps: "mh_caps h0 = CAP_ALL" by (simp add: h0_def host_eval vault_eval show_word_def)
  have "attach_volume_check h0 ''n/v1'' ''m'' = None"
    by (simp add: h0_def host_eval vault_eval)
  then have "conc_step (h0, []) (h0, [PAttach 0 ''n/v1'' ''m''])"
    by (intro attach_begin) (simp_all add: caps CAP_ALL_def cap_contains_def cap_bit_defs)
  moreover have "conc_step (h0, [PAttach 0 ''n/v1'' ''m'']) (h1, [PAttach 0 ''n/v1'' ''m''])"
    unfolding h1_def by (rule conc_op)
  moreover have "conc_step (h1, [PAttach 0 ''n/v1'' ''m'']) (h2, [])"
    using attach_end [of h1 "[]" 0 "''n/v1''" "''m''" "[]"] by (simp add: h2_def)
  ultimately have "rtranclp conc_step (mem_vm_host_new, []) (h2, [])"
    using run [of mem_vm_host_new] unfolding h0_def by (meson rtranclp.rtrancl_into_rtrancl)
  moreover have "attached_anywhere (mh_slots h2) ''n/v1'' \<and> vs_get (mh_vault h2) ''n/v1'' = None"
    by (simp add: h2_def h1_def h0_def host_eval vault_eval bt_remove_def)
  ultimately show ?thesis by blast
qed

end
