(* ===== verification/Mesh.thy ===== *)
theory Mesh
  imports Membership Federation Vm_Host
begin

text \<open>
  The gossip engine, \<^verbatim>\<open>celmesh/src/mesh.rs\<close>: a node's clock, membership and federation tables, its
  VM host, the outstanding calls, and the handlers of the receiver, the gossiper, the supervisor and
  the public API. A handler is a function from the node to the node, the frames it sends (address
  and envelope, in order) and its result. The transport is an argument: \<open>ship addr env\<close> is the result
  of a send. The VM host is a \<^verbatim>\<open>dyn VmHost\<close>: a record of the trait's functions over a state of
  any type, instantiated by the in-memory host. A frame is encoded without failing (every field is
  plain data), so frames are envelopes. Handlers hold the node's lock section by section; here each
  runs to its end before the next starts.
\<close>

subsection \<open>The host interface\<close>

record 'h vm_host =
  vh_handle :: "'h \<Rightarrow> vm_op \<Rightarrow> 'h \<times> host_result"
  vh_snapshot :: "'h \<Rightarrow> node_id \<Rightarrow> 'h \<times> remote_vm list"
  vh_attach_preserved :: "'h \<Rightarrow> u32 \<Rightarrow> volume_attachment list \<Rightarrow> 'h \<times> (string, unit) result"

definition mem_vm_host_dyn :: "mem_vm_host vm_host" where
  "mem_vm_host_dyn = \<lparr>vh_handle = host_apply, vh_snapshot = host_snapshot, vh_attach_preserved = host_attach_preserved\<rparr>"

subsection \<open>Metrics\<close>

record mesh_metrics =
  mm_gossip_sent :: u64
  mm_gossip_recv :: u64
  mm_decode_errors :: u64
  mm_foreign_cluster_drops :: u64
  mm_suspect_promotions :: u64
  mm_dead_promotions :: u64
  mm_rpc_in :: u64
  mm_rpc_out :: u64
  mm_rpc_timeouts :: u64
  mm_rpc_errors :: u64
  mm_join_calls :: u64
  mm_supervisor_restarts :: u64

definition mesh_metrics_new :: mesh_metrics where
  "mesh_metrics_new =
     \<lparr>mm_gossip_sent = 0, mm_gossip_recv = 0, mm_decode_errors = 0, mm_foreign_cluster_drops = 0,
      mm_suspect_promotions = 0, mm_dead_promotions = 0, mm_rpc_in = 0, mm_rpc_out = 0,
      mm_rpc_timeouts = 0, mm_rpc_errors = 0, mm_join_calls = 0, mm_supervisor_restarts = 0\<rparr>"

subsection \<open>The node\<close>

record mesh_config =
  mc_cluster :: string
  mc_node_id :: node_id
  mc_advertise_addr :: string
  mc_epoch :: u64
  mc_seeds :: "string list"
  mc_gossip_interval :: nat
  mc_timeout_suspect :: nat
  mc_timeout_dead :: nat
  mc_supervisor_interval :: nat

definition mesh_config_defaults :: "string \<Rightarrow> string \<Rightarrow> mesh_config" where
  "mesh_config_defaults nid addr =
     \<lparr>mc_cluster = ''celium'', mc_node_id = nid, mc_advertise_addr = addr, mc_epoch = 1, mc_seeds = [],
      mc_gossip_interval = 50 * 1000000, mc_timeout_suspect = 500 * 1000000,
      mc_timeout_dead = 1500 * 1000000, mc_supervisor_interval = 0\<rparr>"

record mesh_inner =
  in_config :: mesh_config
  in_membership :: membership
  in_federation :: federation
  in_hlc :: u64
  in_known :: "string list"

record 'h mesh =
  me_inner :: mesh_inner
  me_host :: "'h option"
  me_pending :: "u64 list"
  me_answered :: "(u64 \<times> host_result) list"
  me_next_req :: u64
  me_metrics :: mesh_metrics

text \<open>
  \<open>me_pending\<close> holds the keys of the \<^verbatim>\<open>pending\<close> map; a \<^verbatim>\<open>oneshot\<close> that was sent is an entry of
  \<open>me_answered\<close>, which the waiting caller takes out.
\<close>

type_synonym frames = "(string \<times> envelope) list"

type_synonym transport = "string \<Rightarrow> envelope \<Rightarrow> unit cel_result"

definition tick_hlc :: "mesh_inner \<Rightarrow> mesh_inner" where
  "tick_hlc g = g\<lparr>in_hlc := saturating_add (in_hlc g) 1\<rparr>"

definition self_row :: "mesh_inner \<Rightarrow> node_info" where
  "self_row g =
     (case mb_get (in_membership g) (mb_self_id (in_membership g)) of
        Some r \<Rightarrow> r
      | None \<Rightarrow> \<lparr>ni_id = mc_node_id (in_config g), ni_addr = mc_advertise_addr (in_config g),
                 ni_epoch = mc_epoch (in_config g), ni_hlc = in_hlc g, ni_status = NodeAlive\<rparr>)"

definition frame :: "mesh_inner \<Rightarrow> payload \<Rightarrow> envelope" where
  "frame g p =
     \<lparr>env_magic = PROTO_MAGIC, env_version = PROTO_VERSION, env_from = mc_node_id (in_config g),
      env_cluster = mc_cluster (in_config g), env_hlc = in_hlc g, env_payload = p\<rparr>"

definition count_sent :: "unit cel_result \<Rightarrow> 'h mesh \<Rightarrow> 'h mesh" where
  "count_sent r m =
     (if is_ok r then m\<lparr>me_metrics := (me_metrics m)\<lparr>mm_gossip_sent := mm_gossip_sent (me_metrics m) + 1\<rparr>\<rparr> else m)"

definition send_hello :: "transport \<Rightarrow> 'h mesh \<Rightarrow> string \<Rightarrow> 'h mesh \<times> frames \<times> unit cel_result" where
  "send_hello ship m peer =
     (let g = tick_hlc (me_inner m);
          env = frame g (Hello ((self_row g)\<lparr>ni_hlc := in_hlc g\<rparr>));
          r = ship peer env
      in (count_sent r (m\<lparr>me_inner := g\<rparr>), [(peer, env)], r))"

fun replace_row :: "node_info \<Rightarrow> node_info list \<Rightarrow> node_info list" where
  "replace_row row [] = []"
| "replace_row row (r # rs) = (if ni_id r = ni_id row then row # rs else r # replace_row row rs)"

definition send_sync :: "transport \<Rightarrow> 'h mesh \<Rightarrow> string \<Rightarrow> 'h mesh \<times> frames \<times> unit cel_result" where
  "send_sync ship m peer =
     (let g = tick_hlc (me_inner m);
          row = (self_row g)\<lparr>ni_hlc := in_hlc g\<rparr>;
          nodes = replace_row row (mb_snapshot (in_membership g));
          env = frame g (Sync nodes (fed_local_rows (in_federation g)));
          r = ship peer env
      in (count_sent r (m\<lparr>me_inner := g\<rparr>), [(peer, env)], r))"

fun send_all ::
  "('h mesh \<Rightarrow> string \<Rightarrow> 'h mesh \<times> frames \<times> unit cel_result) \<Rightarrow> 'h mesh \<Rightarrow> string list \<Rightarrow> 'h mesh \<times> frames" where
  "send_all send1 m [] = (m, [])"
| "send_all send1 m (p # ps) =
     (case send1 m p of (m', out, _) \<Rightarrow> (case send_all send1 m' ps of (m'', outs) \<Rightarrow> (m'', out @ outs)))"

definition mesh_start :: "transport \<Rightarrow> instant \<Rightarrow> mesh_config \<Rightarrow> 'h mesh \<times> frames" where
  "mesh_start ship now config =
     (let row = \<lparr>ni_id = mc_node_id config, ni_addr = mc_advertise_addr config, ni_epoch = mc_epoch config,
                 ni_hlc = 0, ni_status = NodeAlive\<rparr>;
          inner = \<lparr>in_config = config,
                   in_membership = membership_new now (mc_cluster config) row (mc_timeout_suspect config) (mc_timeout_dead config),
                   in_federation = federation_new (mc_node_id config), in_hlc = 0,
                   in_known = remdups (mc_seeds config)\<rparr>
      in send_all (send_hello ship)
           \<lparr>me_inner = inner, me_host = None, me_pending = [], me_answered = [], me_next_req = 1,
            me_metrics = mesh_metrics_new\<rparr>
           (mc_seeds config))"

definition mesh_join :: "transport \<Rightarrow> 'h mesh \<Rightarrow> string \<Rightarrow> 'h mesh \<times> frames \<times> unit cel_result" where
  "mesh_join ship m addr =
     (let g = me_inner m
      in send_hello ship
           (m\<lparr>me_inner := g\<lparr>in_known := List.insert addr (in_known g)\<rparr>,
              me_metrics := (me_metrics m)\<lparr>mm_join_calls := mm_join_calls (me_metrics m) + 1\<rparr>\<rparr>) addr)"

definition alive_in :: "membership \<Rightarrow> node_id \<Rightarrow> bool" where
  "alive_in mb nid =
     (case map_of (map (\<lambda>r. (ni_id r, ni_status r = NodeAlive)) (rev (mb_snapshot mb))) nid of
        None \<Rightarrow> False | Some b \<Rightarrow> b)"

definition mesh_list_vms :: "'h mesh \<Rightarrow> 'h mesh \<times> remote_vm list" where
  "mesh_list_vms m =
     (let g = me_inner m;
          f = fed_refresh_alive (in_federation g) (alive_in (in_membership g))
      in (m\<lparr>me_inner := g\<lparr>in_federation := f\<rparr>\<rparr>, fed_list f))"

definition sync_peers :: "membership \<Rightarrow> string list" where
  "sync_peers mb =
     map ni_addr (filter (\<lambda>r. ni_id r \<noteq> mb_self_id mb \<and> ni_status r \<noteq> NodeLeft) (mb_snapshot mb))"

definition publish_local_vms ::
  "transport \<Rightarrow> instant \<Rightarrow> 'h mesh \<Rightarrow> remote_vm list \<Rightarrow> 'h mesh \<times> frames" where
  "publish_local_vms ship now m rows =
     (let g = tick_hlc (me_inner m);
          rows = map (\<lambda>r. r\<lparr>rv_owner := mc_node_id (in_config g), rv_epoch := mc_epoch (in_config g),
                           rv_hlc := in_hlc g, rv_owner_alive := True\<rparr>) rows;
          g = g\<lparr>in_federation := fed_set_local (in_federation g) rows,
                in_membership := mb_bump_self now (in_membership g) (in_hlc g)\<rparr>
      in send_all (send_sync ship) (m\<lparr>me_inner := g\<rparr>) (sync_peers (in_membership g)))"

definition mesh_shutdown :: "'h mesh \<Rightarrow> 'h mesh \<times> frames" where
  "mesh_shutdown m =
     (let g = tick_hlc (me_inner m);
          env = frame g Goodbye;
          peers = map ni_addr (filter (\<lambda>r. ni_id r \<noteq> mb_self_id (in_membership g)) (mb_snapshot (in_membership g)))
      in (m\<lparr>me_inner := g\<rparr>, map (\<lambda>p. (p, env)) peers))"

definition mesh_self_id :: "'h mesh \<Rightarrow> node_id" where
  "mesh_self_id m = mc_node_id (in_config (me_inner m))"

definition mesh_set_host :: "'h vm_host \<Rightarrow> 'h mesh \<Rightarrow> 'h \<Rightarrow> 'h mesh" where
  "mesh_set_host ops m host = m\<lparr>me_host := Some (fst (vh_snapshot ops host (mesh_self_id m)))\<rparr>"

definition republish_after_op ::
  "transport \<Rightarrow> instant \<Rightarrow> 'h vm_host \<Rightarrow> 'h mesh \<Rightarrow> 'h \<Rightarrow> 'h mesh \<times> frames" where
  "republish_after_op ship now ops m host =
     (case vh_snapshot ops host (mesh_self_id m) of
        (host', rows) \<Rightarrow> publish_local_vms ship now (m\<lparr>me_host := Some host'\<rparr>) rows)"

subsection \<open>Calls\<close>

datatype invoke_start = Done "vm_op_reply cel_result" | Waiting u64

definition mesh_invoke ::
  "transport \<Rightarrow> instant \<Rightarrow> 'h vm_host \<Rightarrow> 'h mesh \<Rightarrow> node_id \<Rightarrow> vm_op \<Rightarrow> 'h mesh \<times> frames \<times> invoke_start" where
  "mesh_invoke ship now ops m target op =
     (if mesh_self_id m = target then
        (case me_host m of
           None \<Rightarrow> (m, [], Done (Err (Invalid ''no VmHost registered'')))
         | Some h \<Rightarrow>
             (case vh_handle ops h op of
                (h', Err s) \<Rightarrow> (m\<lparr>me_host := Some h'\<rparr>, [], Done (Err (Io (''host: '' @ s))))
              | (h', Ok r) \<Rightarrow>
                  (case republish_after_op ship now ops m h' of (m', outs) \<Rightarrow> (m', outs, Done (Ok r)))))
      else
        (case mb_get (in_membership (me_inner m)) target of
           None \<Rightarrow> (m, [], Done (Err (Invalid ''unknown target node'')))
         | Some r \<Rightarrow>
             if ni_status r = NodeDead \<or> ni_status r = NodeLeft
               then (m, [], Done (Err (Invalid ''target node not Alive'')))
             else
               (let req_id = me_next_req m;
                    g = tick_hlc (me_inner m);
                    env = frame g (Request req_id target op);
                    m = m\<lparr>me_next_req := req_id + 1, me_inner := g\<rparr>
                in (case ship (ni_addr r) env of
                      Err e \<Rightarrow> (m\<lparr>me_pending := removeAll req_id (me_pending m)\<rparr>, [(ni_addr r, env)], Done (Err e))
                    | Ok _ \<Rightarrow>
                        (m\<lparr>me_pending := List.insert req_id (me_pending m),
                           me_metrics := (me_metrics m)\<lparr>mm_gossip_sent := mm_gossip_sent (me_metrics m) + 1,
                             mm_rpc_out := mm_rpc_out (me_metrics m) + 1\<rparr>\<rparr>,
                         [(ni_addr r, env)], Waiting req_id)))))"

datatype wait_end = Received host_result | SenderDropped | Elapsed

definition mesh_invoke_end :: "'h mesh \<Rightarrow> u64 \<Rightarrow> wait_end \<Rightarrow> 'h mesh \<times> vm_op_reply cel_result" where
  "mesh_invoke_end m req_id w =
     (case w of
        Received (Ok r) \<Rightarrow> (m\<lparr>me_answered := AList.delete req_id (me_answered m)\<rparr>, Ok r)
      | Received (Err s) \<Rightarrow>
          (m\<lparr>me_answered := AList.delete req_id (me_answered m),
             me_metrics := (me_metrics m)\<lparr>mm_rpc_errors := mm_rpc_errors (me_metrics m) + 1\<rparr>\<rparr>,
           Err (Io (''remote host: '' @ s)))
      | SenderDropped \<Rightarrow>
          (m\<lparr>me_metrics := (me_metrics m)\<lparr>mm_rpc_errors := mm_rpc_errors (me_metrics m) + 1\<rparr>\<rparr>,
           Err (Internal ''response channel dropped''))
      | Elapsed \<Rightarrow>
          (m\<lparr>me_pending := removeAll req_id (me_pending m),
             me_metrics := (me_metrics m)\<lparr>mm_rpc_timeouts := mm_rpc_timeouts (me_metrics m) + 1\<rparr>\<rparr>,
           Err (Timeout ''mesh rpc'')))"

definition parse_cluster_path :: "string \<Rightarrow> (node_id \<times> u32) cel_result" where
  "parse_cluster_path path =
     (case strip_prefix ''/cluster/'' path of
        None \<Rightarrow> Err (Invalid ''path: missing /cluster/ prefix'')
      | Some suffix \<Rightarrow>
          (case split_once CHR ''/'' suffix of
             None \<Rightarrow> Err (Invalid ''path: expected /cluster/<node>/vms/<n>'')
           | Some (node, rest) \<Rightarrow>
               if node = [] then Err (Invalid ''path: empty node id'')
               else (case strip_prefix ''vms/'' rest of
                       None \<Rightarrow> Err (Invalid ''path: expected /vms/<n> segment'')
                     | Some rest \<Rightarrow>
                         if rest = [] \<or> CHR ''/'' \<in> set rest
                           then Err (Invalid ''path: expected exactly one VM segment'')
                         else (case parse_u32 rest of
                                 None \<Rightarrow> Err (Invalid ''path: VM id is not a u32'')
                               | Some n \<Rightarrow> Ok (node, n)))))"

fun retarget :: "u32 \<Rightarrow> vm_op \<Rightarrow> vm_op" where
  "retarget n (VmStart _) = VmStart n"
| "retarget n (VmStop _) = VmStop n"
| "retarget n (VmDelete _) = VmDelete n"
| "retarget n (AttachVolume _ v mt) = AttachVolume n v mt"
| "retarget n (DetachVolume _ v) = DetachVolume n v"
| "retarget n (AttachNic nid _ ip) = AttachNic nid n ip"
| "retarget n op = op"

definition mesh_invoke_path ::
  "transport \<Rightarrow> instant \<Rightarrow> 'h vm_host \<Rightarrow> 'h mesh \<Rightarrow> string \<Rightarrow> vm_op \<Rightarrow> 'h mesh \<times> frames \<times> invoke_start" where
  "mesh_invoke_path ship now ops m path op =
     (case parse_cluster_path path of
        Err e \<Rightarrow> (m, [], Done (Err e))
      | Ok (owner, n) \<Rightarrow> mesh_invoke ship now ops m owner (retarget n op))"

subsection \<open>The supervisor\<close>

definition mesh_orphaned_vms :: "'h mesh \<Rightarrow> 'h mesh \<times> remote_vm list" where
  "mesh_orphaned_vms m =
     (case mesh_list_vms m of
        (m', rows) \<Rightarrow> (m', filter (\<lambda>r. \<not> rv_owner_alive r \<and> rv_restart_policy r = RestartAlways) rows))"

definition is_supervisor :: "'h mesh \<Rightarrow> bool" where
  "is_supervisor m =
     (let alive = map ni_id (filter (\<lambda>r. ni_status r = NodeAlive) (mb_snapshot (in_membership (me_inner m))))
      in alive \<noteq> [] \<and> min_list alive = mesh_self_id m)"

text \<open>A \<^verbatim>\<open>String\<close> is its UTF-8 bytes; cutting it inside a character panics.\<close>

definition is_char_boundary :: "string \<Rightarrow> nat \<Rightarrow> bool" where
  "is_char_boundary s i \<longleftrightarrow>
     i = length s \<or> i < length s \<and> \<not> (128 \<le> (of_char (s ! i) :: nat) \<and> (of_char (s ! i) :: nat) < 192)"

definition restart_label :: "remote_vm \<Rightarrow> string option" where
  "restart_label r =
     (let l = rv_label r @ ''@'' @ rv_owner r
      in if 32 < length l then (if is_char_boundary l 32 then Some (take 32 l) else None) else Some l)"

record restarted_vm =
  rs_original_owner :: node_id
  rs_original_vm_id :: u32
  rs_new_vm_id :: u32
  rs_label :: string

datatype step_error = Panicked | Failed cel_error

fun restart_orphans ::
  "'h vm_host \<Rightarrow> string list \<Rightarrow> 'h \<Rightarrow> remote_vm list \<Rightarrow> restarted_vm list \<Rightarrow>
   'h \<times> (step_error, restarted_vm list) result" where
  "restart_orphans ops existing h [] out = (h, Ok out)"
| "restart_orphans ops existing h (r # rs) out =
     (case restart_label r of
        None \<Rightarrow> (h, Err Panicked)
      | Some label \<Rightarrow>
          if label \<in> set existing then restart_orphans ops existing h rs out
          else
            (case vh_handle ops h (VmCreate label RestartNever (rv_image_path r) (rv_cpu_count r)
                                     (rv_memory_mib r) (rv_boot_blob_crc32c r)) of
               (h', Err s) \<Rightarrow> (h', Err (Failed (Io (''supervisor create: '' @ s))))
             | (h', Ok reply) \<Rightarrow>
                 (case reply of
                    Created vm_id \<Rightarrow>
                      restart_orphans ops existing
                        (if rv_volumes r \<noteq> [] then fst (vh_attach_preserved ops h' vm_id (rv_volumes r)) else h')
                        rs
                        (out @ [\<lparr>rs_original_owner = rv_owner r, rs_original_vm_id = rv_vm_id r,
                                 rs_new_vm_id = vm_id, rs_label = label\<rparr>])
                  | _ \<Rightarrow> restart_orphans ops existing h' rs out)))"

definition run_supervisor_step ::
  "transport \<Rightarrow> instant \<Rightarrow> 'h vm_host \<Rightarrow> 'h mesh \<Rightarrow> 'h mesh \<times> frames \<times> (step_error, restarted_vm list) result" where
  "run_supervisor_step ship now ops m =
     (if \<not> is_supervisor m then (m, [], Ok [])
      else
        (case me_host m of
           None \<Rightarrow> (m, [], Err (Failed (Invalid ''no VmHost registered'')))
         | Some h \<Rightarrow>
             (case mesh_orphaned_vms m of
                (m, orphans) \<Rightarrow>
                  if orphans = [] then (m, [], Ok [])
                  else
                    (case vh_snapshot ops h (mesh_self_id m) of
                       (h, rows) \<Rightarrow>
                         (case restart_orphans ops (map rv_label rows) h orphans [] of
                            (h, Err e) \<Rightarrow> (m\<lparr>me_host := Some h\<rparr>, [], Err e)
                          | (h, Ok out) \<Rightarrow>
                              if out = [] then (m\<lparr>me_host := Some h\<rparr>, [], Ok out)
                              else
                                (case republish_after_op ship now ops
                                        (m\<lparr>me_metrics := (me_metrics m)\<lparr>mm_supervisor_restarts :=
                                             mm_supervisor_restarts (me_metrics m) + of_nat (length out)\<rparr>\<rparr>) h of
                                   (m, outs) \<Rightarrow> (m, outs, Ok out)))))))"

subsection \<open>Status\<close>

record cluster_status =
  cs_self_id :: node_id
  cs_cluster :: string
  cs_members :: "node_info list"
  cs_vms :: "remote_vm list"
  cs_alive :: nat
  cs_suspect :: nat
  cs_dead :: nat
  cs_total_vms :: nat
  cs_orphaned_vms :: nat

definition mesh_cluster_status :: "'h mesh \<Rightarrow> cluster_status" where
  "mesh_cluster_status m =
     (let g = me_inner m;
          members = mb_snapshot (in_membership g);
          me = mc_node_id (in_config g);
          vms = map (\<lambda>v. v\<lparr>rv_owner_alive :=
                    (if rv_owner v = me then True else alive_in (in_membership g) (rv_owner v))\<rparr>)
                  (fed_list (in_federation g))
      in \<lparr>cs_self_id = me, cs_cluster = mc_cluster (in_config g), cs_members = members, cs_vms = vms,
          cs_alive = length (filter (\<lambda>r. ni_status r = NodeAlive) members),
          cs_suspect = length (filter (\<lambda>r. ni_status r = NodeSuspect) members),
          cs_dead = length (filter (\<lambda>r. ni_status r = NodeDead \<or> ni_status r = NodeLeft) members),
          cs_total_vms = length vms,
          cs_orphaned_vms = length (filter (\<lambda>r. \<not> rv_owner_alive r) vms)\<rparr>)"

definition show_bool :: "bool \<Rightarrow> string" where
  "show_bool b = (if b then ''true'' else ''false'')"

definition mesh_summary :: "'h mesh \<Rightarrow> string" where
  "mesh_summary m =
     (let s = mesh_cluster_status m; k = me_metrics m
      in ''node='' @ cs_self_id s @ '' cluster='' @ cs_cluster s @ '' alive='' @ show_nat (cs_alive s) @ ''/'' @
         show_nat (length (cs_members s)) @ '' suspect='' @ show_nat (cs_suspect s) @ '' dead='' @ show_nat (cs_dead s) @
         '' vms='' @ show_nat (cs_total_vms s) @ '' orphaned='' @ show_nat (cs_orphaned_vms s) @
         '' degraded='' @ show_bool (cs_alive s \<le> 1) @ '' gossip='' @ show_word (mm_gossip_recv k) @ ''/'' @
         show_word (mm_gossip_sent k) @ '' decode_err='' @ show_word (mm_decode_errors k) @
         '' rpc_err='' @ show_word (mm_rpc_errors k))"

subsection \<open>The receiver and the gossiper\<close>

definition handle_request ::
  "transport \<Rightarrow> instant \<Rightarrow> 'h vm_host \<Rightarrow> 'h mesh \<Rightarrow> node_id \<Rightarrow> u64 \<Rightarrow> vm_op \<Rightarrow> 'h mesh \<times> frames" where
  "handle_request ship now ops m from_id req_id op =
     (let m = m\<lparr>me_metrics := (me_metrics m)\<lparr>mm_rpc_in := mm_rpc_in (me_metrics m) + 1\<rparr>\<rparr>;
          (m, outs, res) =
            (case me_host m of
               None \<Rightarrow> (m, [], Err ''no VmHost registered'')
             | Some h \<Rightarrow>
                 (case vh_handle ops h op of
                    (h', Ok reply) \<Rightarrow>
                      (case republish_after_op ship now ops m h' of (m', outs) \<Rightarrow> (m', outs, Ok reply))
                  | (h', Err s) \<Rightarrow> (m\<lparr>me_host := Some h'\<rparr>, [], Err s)))
      in (case mb_get (in_membership (me_inner m)) from_id of
            None \<Rightarrow> (m, outs)
          | Some r \<Rightarrow>
              (let g = tick_hlc (me_inner m);
                   env = frame g (Response req_id res)
               in (count_sent (ship (ni_addr r) env) (m\<lparr>me_inner := g\<rparr>), outs @ [(ni_addr r, env)]))))"

fun merge_nodes :: "instant \<Rightarrow> membership \<Rightarrow> node_info list \<Rightarrow> membership" where
  "merge_nodes now mb [] = mb"
| "merge_nodes now mb (n # ns) = merge_nodes now (fst (mb_merge now mb n)) ns"

fun merge_vms :: "federation \<Rightarrow> remote_vm list \<Rightarrow> federation" where
  "merge_vms f [] = f"
| "merge_vms f (v # vs) = merge_vms (fst (fed_merge f v)) vs"

definition handle_envelope ::
  "transport \<Rightarrow> instant \<Rightarrow> 'h vm_host \<Rightarrow> 'h mesh \<Rightarrow> envelope \<Rightarrow> string \<Rightarrow> 'h mesh \<times> frames" where
  "handle_envelope ship now ops m env src =
     (let g = me_inner m in
      if env_cluster env \<noteq> mc_cluster (in_config g) then
        (m\<lparr>me_metrics := (me_metrics m)\<lparr>mm_foreign_cluster_drops := mm_foreign_cluster_drops (me_metrics m) + 1\<rparr>\<rparr>, [])
      else
        (let g = g\<lparr>in_known := List.insert src (in_known g)\<rparr>; m = m\<lparr>me_inner := g\<rparr> in
         case env_payload env of
           Hello node \<Rightarrow> (m\<lparr>me_inner := g\<lparr>in_membership := fst (mb_merge now (in_membership g) node)\<rparr>\<rparr>, [])
         | Sync nodes vms \<Rightarrow>
             (m\<lparr>me_inner := g\<lparr>in_membership := merge_nodes now (in_membership g) nodes,
                              in_federation := merge_vms (in_federation g) vms\<rparr>\<rparr>, [])
         | Goodbye \<Rightarrow> (m\<lparr>me_inner := g\<lparr>in_membership := mb_mark_left (in_membership g) (env_from env)\<rparr>\<rparr>, [])
         | Request req_id target op \<Rightarrow>
             if target \<noteq> mesh_self_id m then (m, []) else handle_request ship now ops m (env_from env) req_id op
         | Response req_id res \<Rightarrow>
             if req_id \<in> set (me_pending m)
               then (m\<lparr>me_pending := removeAll req_id (me_pending m),
                       me_answered := AList.update req_id res (me_answered m)\<rparr>, [])
             else (m, [])))"

definition receiver_step ::
  "transport \<Rightarrow> (bytes \<Rightarrow> envelope option) \<Rightarrow> instant \<Rightarrow> 'h vm_host \<Rightarrow> 'h mesh \<Rightarrow> bytes \<Rightarrow> string \<Rightarrow> 'h mesh \<times> frames" where
  "receiver_step ship from_slice now ops m bs src =
     (case envelope_decode from_slice bs of
        Err _ \<Rightarrow> (m\<lparr>me_metrics := (me_metrics m)\<lparr>mm_decode_errors := mm_decode_errors (me_metrics m) + 1\<rparr>\<rparr>, [])
      | Ok env \<Rightarrow>
          handle_envelope ship now ops
            (m\<lparr>me_metrics := (me_metrics m)\<lparr>mm_gossip_recv := mm_gossip_recv (me_metrics m) + 1\<rparr>\<rparr>) env src)"

definition pick_one :: "string list \<Rightarrow> u64 \<Rightarrow> string option" where
  "pick_one xs seed = (if xs = [] then None else Some (xs ! (unat seed mod length xs)))"

definition gossiper_step :: "transport \<Rightarrow> instant \<Rightarrow> 'h mesh \<Rightarrow> 'h mesh \<times> frames" where
  "gossiper_step ship now m =
     (let g = me_inner m in
      case mb_tick (in_membership g) now of
        (mb, d) \<Rightarrow>
          (let m = m\<lparr>me_inner := g\<lparr>in_membership := mb\<rparr>,
                     me_metrics := (me_metrics m)\<lparr>
                       mm_suspect_promotions := mm_suspect_promotions (me_metrics m) + of_nat (td_suspect_promotions d),
                       mm_dead_promotions := mm_dead_promotions (me_metrics m) + of_nat (td_dead_promotions d)\<rparr>\<rparr>
           in (case pick_one (sync_peers mb @ in_known g) (mc_epoch (in_config g) + in_hlc g) of
                 None \<Rightarrow> (m, [])
               | Some peer \<Rightarrow> (case send_sync ship m peer of (m', outs, _) \<Rightarrow> (m', outs)))))"

end
