(* ===== verification/Audit_Log.thy ===== *)
theory Audit_Log
  imports Tenants
begin

text \<open>
  The audit log (\<^verbatim>\<open>celtenancy/src/audit.rs\<close>): the structured event with its builder functions,
  the in-memory sink, and the append-only file sink. The clock reading of \<^verbatim>\<open>AuditEvent::now\<close> is an
  argument, and so is the JSON codec of the file sink (\<^verbatim>\<open>serde_json\<close>). The file is the list of its
  bytes, or \<open>None\<close> when it cannot be read; its content is UTF-8, on which \<^verbatim>\<open>from_utf8_lossy\<close> is the
  identity.
\<close>

subsection \<open>Events\<close>

datatype audit_action = ActCharge | ActRelease | ActDeny | ActExec

record audit_event =
  ae_timestamp_millis :: u64
  ae_tenant :: string
  ae_user :: "string option"
  ae_action :: audit_action
  ae_op_capability_tag :: "string option"
  ae_charge :: "quota_charge option"
  ae_success :: bool
  ae_error :: "string option"
  ae_note :: "string option"

definition audit_now :: "u64 \<Rightarrow> string \<Rightarrow> audit_action \<Rightarrow> audit_event" where
  "audit_now clock tenant action =
     \<lparr>ae_timestamp_millis = clock, ae_tenant = tenant, ae_user = None, ae_action = action,
      ae_op_capability_tag = None, ae_charge = None, ae_success = True, ae_error = None, ae_note = None\<rparr>"

definition with_user :: "string option \<Rightarrow> audit_event \<Rightarrow> audit_event" where
  "with_user u e = e\<lparr>ae_user := u\<rparr>"

definition with_op_tag :: "string \<Rightarrow> audit_event \<Rightarrow> audit_event" where
  "with_op_tag tag e = e\<lparr>ae_op_capability_tag := Some tag\<rparr>"

definition with_charge :: "quota_charge \<Rightarrow> audit_event \<Rightarrow> audit_event" where
  "with_charge c e = e\<lparr>ae_charge := Some c\<rparr>"

definition with_error :: "string \<Rightarrow> audit_event \<Rightarrow> audit_event" where
  "with_error msg e = e\<lparr>ae_success := False, ae_error := Some msg\<rparr>"

definition with_note :: "string \<Rightarrow> audit_event \<Rightarrow> audit_event" where
  "with_note n e = e\<lparr>ae_note := Some n\<rparr>"

lemmas event_defs = audit_now_def with_user_def with_op_tag_def with_charge_def with_error_def with_note_def

subsection \<open>The in-memory sink\<close>

type_synonym mem_audit_sink = "audit_event list"

definition mas_record :: "audit_event \<Rightarrow> mem_audit_sink \<Rightarrow> mem_audit_sink" where
  "mas_record e s = s @ [e]"

subsection \<open>The file sink\<close>

text \<open>
  Appending a line is two writes, the line and its newline, and either may stop short: \<open>reach\<close> is the
  number of bytes that get to the file (enough for the whole line when nothing fails).
\<close>

definition fas_open :: "string option \<Rightarrow> string option" where
  "fas_open file = Some (case file of None \<Rightarrow> [] | Some s \<Rightarrow> s)"

definition fas_record :: "(audit_event \<Rightarrow> string option) \<Rightarrow> nat \<Rightarrow> audit_event \<Rightarrow> string option \<Rightarrow> string option" where
  "fas_record to_json reach e file =
     (case to_json e of
        None \<Rightarrow> file
      | Some line \<Rightarrow> map_option (\<lambda>s. s @ take reach (line @ [CHR 0x0A])) (fas_open file))"

definition strip_cr :: "string \<Rightarrow> string" where
  "strip_cr l = (if l \<noteq> [] \<and> last l = CHR 0x0D then butlast l else l)"

definition str_lines :: "string \<Rightarrow> string list" where
  "str_lines s =
     (let ls = split_on (CHR 0x0A) s
      in map strip_cr (butlast ls) @ (if last ls = [] then [] else [last ls]))"

fun parse_lines :: "(string \<Rightarrow> audit_event option) \<Rightarrow> string list \<Rightarrow> audit_event list" where
  "parse_lines from_json [] = []"
| "parse_lines from_json (l # ls) =
     (let trimmed = str_trim l in
      if trimmed = [] then parse_lines from_json ls
      else (case from_json trimmed of
              Some e \<Rightarrow> e # parse_lines from_json ls
            | None \<Rightarrow> parse_lines from_json ls))"

definition fas_read_all :: "(string \<Rightarrow> audit_event option) \<Rightarrow> string \<Rightarrow> string option \<Rightarrow> audit_event list cel_result" where
  "fas_read_all from_json io_error file =
     (case file of
        None \<Rightarrow> Err (Io io_error)
      | Some s \<Rightarrow> Ok (parse_lines from_json (str_lines s)))"

definition fas_tail :: "(string \<Rightarrow> audit_event option) \<Rightarrow> string \<Rightarrow> nat \<Rightarrow> string option \<Rightarrow> audit_event list cel_result" where
  "fas_tail from_json io_error n file =
     bind_result (fas_read_all from_json io_error file) (\<lambda>all. Ok (drop (length all - n) all))"

definition fas_count :: "(string \<Rightarrow> audit_event option) \<Rightarrow> string \<Rightarrow> string option \<Rightarrow> nat cel_result" where
  "fas_count from_json io_error file = bind_result (fas_read_all from_json io_error file) (\<lambda>all. Ok (length all))"

subsection \<open>Lines of a file\<close>

lemma split_on_not_Nil [simp]: "split_on c s \<noteq> []"
  by (induction s) (auto split: list.split)

text \<open>A file of whole lines: empty or ending in a newline.\<close>

definition closed_file :: "string \<Rightarrow> bool" where
  "closed_file s \<longleftrightarrow> s = [] \<or> last s = CHR 0x0A"

lemma split_on_closed:
  "split_on c (s @ c # t) = split_on c s @ split_on c t"
  by (induction s) (auto split: list.split simp: append_eq_Cons_conv)

lemma split_on_ended: "split_on c (s @ [c]) = split_on c s @ [[]]"
  using split_on_closed [of c s "[]"] by simp

lemma lines_append:
  assumes "closed_file s"
  shows "str_lines (s @ t) = str_lines s @ str_lines t"
proof (cases "s = []")
  case False
  with assms obtain u where s: "s = u @ [CHR 0x0A]" by (metis append_butlast_last_id closed_file_def)
  then show ?thesis
    by (simp add: str_lines_def Let_def split_on_closed butlast_append split_on_ended)
qed (simp add: str_lines_def)

lemma lines_one: "CHR 0x0A \<notin> set l \<Longrightarrow> str_lines (l @ [CHR 0x0A]) = [strip_cr l]"
  using split_on_append [of "CHR 0x0A" l "[]"] by (simp add: str_lines_def)

lemma parse_lines_append: "parse_lines fj (ls @ ms) = parse_lines fj ls @ parse_lines fj ms"
  by (induction ls) (auto simp: Let_def split: option.split)

text \<open>
  What the file sink relies on from \<^verbatim>\<open>serde_json\<close>: an event prints to one line, a JSON object, that
  parses back to it, and an object cut short does not parse.
\<close>

definition json_codec :: "(audit_event \<Rightarrow> string option) \<Rightarrow> (string \<Rightarrow> audit_event option) \<Rightarrow> audit_event set \<Rightarrow> bool" where
  "json_codec to_json from_json es \<longleftrightarrow>
     (\<forall>e \<in> es. \<exists>body. to_json e = Some (''{'' @ body @ ''}'') \<and> CHR 0x0A \<notin> set body \<and>
        from_json (''{'' @ body @ ''}'') = Some e \<and>
        (\<forall>k < length body + 2. from_json (take k (''{'' @ body @ ''}'')) = None))"

lemma strip_any_drop: "\<exists>n. strip_any ws s = drop n s"
proof (induction ws s rule: strip_any.induct)
  case (1 ws s)
  show ?case
  proof (cases "List.find (\<lambda>w. w \<noteq> [] \<and> take (length w) s = w) ws")
    case None
    then show ?thesis by (intro exI [of _ 0]) (simp add: strip_any.simps)
  next
    case (Some w)
    show ?thesis
    proof (cases "length (drop (length w) s) < length s")
      case True
      from 1 [OF Some True] obtain n where "strip_any ws (drop (length w) s) = drop n (drop (length w) s)" by blast
      with Some True show ?thesis by (simp add: strip_any.simps [of ws s] drop_drop del: drop_eq_Nil) blast
    next
      case False
      with Some show ?thesis by (intro exI [of _ 0]) (simp add: strip_any.simps [of ws s])
    qed
  qed
qed

lemma trim_prefix:
  assumes "s \<noteq> []" "visible (hd s)"
  shows "\<exists>n. str_trim s = take n s"
proof -
  have "strip_any white_space s = s"
    using white_space_invisible(1) assms by (intro strip_any_stop) (auto simp: list_all_iff)
  moreover obtain n where "strip_any (map rev white_space) (rev s) = drop n (rev s)" using strip_any_drop by blast
  ultimately show ?thesis by (intro exI [of _ "length s - n"]) (simp add: str_trim_def rev_drop)
qed

lemma record_cases:
  assumes "json_codec tj fj es" "e \<in> es" "closed_file s"
  obtains t where "fas_record tj reach e (Some s) = Some (s @ t)"
    "parse_lines fj (str_lines (s @ t)) = parse_lines fj (str_lines s) @ (if length (the (tj e)) \<le> reach then [e] else [])"
    "length (the (tj e)) < reach \<Longrightarrow> closed_file (s @ t)"
proof -
  from assms(1) obtain body where b: "tj e = Some (''{'' @ body @ ''}'')" "CHR 0x0A \<notin> set body"
    "fj (''{'' @ body @ ''}'') = Some e" "\<forall>k < length body + 2. fj (take k (''{'' @ body @ ''}'')) = None"
    using assms(2) unfolding json_codec_def by blast
  define l where "l = ''{'' @ body @ ''}''"
  have l: "l \<noteq> []" "CHR 0x0A \<notin> set l" "hd l = CHR ''{''" "length l = length body + 2" "strip_cr l = l" "str_trim l = l"
    using b(2) by (simp_all add: l_def strip_cr_def) (rule str_trim_visible, simp_all add: visible_def)
  have fjl: "fj l = Some e" using b(3) by (simp add: l_def)
  have rec: "fas_record tj reach e (Some s) = Some (s @ take reach (l @ [CHR 0x0A]))"
    by (simp add: fas_record_def fas_open_def b(1) l_def)
  have "parse_lines fj (str_lines (take reach (l @ [CHR 0x0A]))) = (if length l \<le> reach then [e] else [])"
  proof (cases "length l < reach")
    case True
    then show ?thesis using lines_one [OF l(2)] l fjl by simp
  next
    case False
    let ?p = "take reach l"
    have p: "split_on (CHR 0x0A) ?p = [?p]" using l(2) by (induction l arbitrary: reach) (auto simp: take_Cons split: nat.split)
    show ?thesis
    proof (cases "reach = length l")
      case True
      then show ?thesis using p l fjl by (simp add: str_lines_def)
    next
      case less: False
      have "fj (str_trim ?p) = None" if ne: "?p \<noteq> []"
      proof -
        obtain n where n: "str_trim ?p = take n ?p" using trim_prefix [OF ne] l(3) ne by (auto simp: visible_def)
        have "min n reach < length body + 2" using False less l(4) by linarith
        with n b(4) show ?thesis by (simp add: l_def take_take)
      qed
      with False less p show ?thesis by (simp add: str_lines_def Let_def)
    qed
  qed
  then show thesis
    using that [OF rec] b(1) by (simp add: lines_append [OF assms(3)] parse_lines_append closed_file_def l_def)
qed

subsection \<open>Properties\<close>

text \<open>Appending the events one by one, each with the number of bytes that reached the file.\<close>

fun fas_records :: "(audit_event \<Rightarrow> string option) \<Rightarrow> (nat \<times> audit_event) list \<Rightarrow> string option \<Rightarrow> string option" where
  "fas_records to_json [] file = file"
| "fas_records to_json ((reach, e) # rs) file = fas_records to_json rs (fas_record to_json reach e file)"

lemma records_read_back:
  assumes "json_codec tj fj es" "snd ` set rs \<subseteq> es" "closed_file s" "\<forall>(n, e) \<in> set rs. length (the (tj e)) < n"
  shows "\<exists>t. fas_records tj rs (Some s) = Some t \<and> closed_file t \<and>
    parse_lines fj (str_lines t) = parse_lines fj (str_lines s) @ map snd rs"
  using assms(2-4)
proof (induction rs arbitrary: s)
  case (Cons r rs)
  obtain n e where r: "r = (n, e)" by (cases r)
  with Cons.prems have n: "length (the (tj e)) < n" "e \<in> es" "snd ` set rs \<subseteq> es" by simp_all
  obtain t where t: "fas_record tj n e (Some s) = Some (s @ t)"
    "parse_lines fj (str_lines (s @ t)) = parse_lines fj (str_lines s) @ [e]" "closed_file (s @ t)"
    using record_cases [OF assms(1) n(2) Cons.prems(2), of n] n(1) by (metis less_imp_le)
  with Cons.IH [OF n(3) t(3)] Cons.prems(3) show ?case by (simp add: r)
qed simp


definition demo_event :: "bool \<Rightarrow> audit_event" where
  "demo_event b = (audit_now 0 ''acme'' ActCharge)\<lparr>ae_success := b\<rparr>"

definition demo_to_json :: "audit_event \<Rightarrow> string option" where
  "demo_to_json e = Some (if ae_success e then ''{y}'' else ''{n}'')"

definition demo_from_json :: "string \<Rightarrow> audit_event option" where
  "demo_from_json s = (if s = ''{y}'' then Some (demo_event True) else if s = ''{n}'' then Some (demo_event False) else None)"


end
