(* ===== verification/Tenant_Runtime.thy ===== *)
theory Tenant_Runtime
  imports Tenant_Runs Mesh Audit_Log
begin

text \<open>
  The metering wrapper of the tenancy layer (\<^verbatim>\<open>celtenancy/src/runtime.rs\<close>): \<^verbatim>\<open>TenantVmHost\<close> bills a
  tenant before a resource is created on the wrapped host, refunds the bill when the host refuses,
  remembers it per VM and per volume, and releases it on deletion. The wrapped host is any
  implementation of the host interface, given as the record of its operations. The store is part
  of the wrapper's state; a failed refund is only logged, as in the code. \<open>clk n\<close> is the clock
  reading of the log's \<open>n\<close>-th event.
\<close>

subsection \<open>The wrapper\<close>

record 'h tenant_vm_host =
  th_tenant :: tenant_id
  th_tenant_name :: string
  th_store :: store_state
  th_inner :: 'h
  th_vm_charges :: "(u32 \<times> quota_charge) list"
  th_volume_charges :: "(volume_id \<times> quota_charge) list"
  th_audit :: "mem_audit_sink option"
  th_audit_user :: "string option"

definition tenant_vm_host_new :: "tenant_id \<Rightarrow> store_state \<Rightarrow> 'h \<Rightarrow> 'h tenant_vm_host" where
  "tenant_vm_host_new tid st inner =
     \<lparr>th_tenant = tid,
      th_tenant_name = (case st_get st tid of Ok t \<Rightarrow> tn_name t | Err _ \<Rightarrow> ''tenant#'' @ show_word tid),
      th_store = st, th_inner = inner, th_vm_charges = [], th_volume_charges = [],
      th_audit = None, th_audit_user = None\<rparr>"

definition th_with_audit :: "mem_audit_sink \<Rightarrow> 'h tenant_vm_host \<Rightarrow> 'h tenant_vm_host" where
  "th_with_audit sink th = th\<lparr>th_audit := Some sink\<rparr>"

definition th_with_audit_user :: "string \<Rightarrow> 'h tenant_vm_host \<Rightarrow> 'h tenant_vm_host" where
  "th_with_audit_user u th = th\<lparr>th_audit_user := Some u\<rparr>"

definition th_emit :: "'h tenant_vm_host \<Rightarrow> audit_event \<Rightarrow> 'h tenant_vm_host" where
  "th_emit th e = th\<lparr>th_audit := map_option (mas_record e) (th_audit th)\<rparr>"

definition event_template :: "(nat \<Rightarrow> u64) \<Rightarrow> 'h tenant_vm_host \<Rightarrow> audit_action \<Rightarrow> audit_event" where
  "event_template clk th action =
     with_user (th_audit_user th)
       (audit_now (clk (case th_audit th of None \<Rightarrow> 0 | Some s \<Rightarrow> length s)) (th_tenant_name th) action)"

fun charge_for :: "vm_op \<Rightarrow> quota_charge option" where
  "charge_for (VmCreate _ _ _ cpu_count memory _) =
     Some (charge_default\<lparr>qc_vcpus := (case cpu_count of None \<Rightarrow> 0 | Some n \<Rightarrow> n),
                          qc_memory_mib := (case memory of None \<Rightarrow> 0 | Some n \<Rightarrow> n)\<rparr>)"
| "charge_for (CreateVolume _ size_bytes) = Some (charge_default\<lparr>qc_storage_bytes := size_bytes\<rparr>)"
| "charge_for _ = None"

fun is_create_vm :: "vm_op \<Rightarrow> bool" where
  "is_create_vm (VmCreate _ _ _ _ _ _) = True"
| "is_create_vm _ = False"

fun is_create_volume :: "vm_op \<Rightarrow> bool" where
  "is_create_volume (CreateVolume _ _) = True"
| "is_create_volume _ = False"

text \<open>Step 1: bill up front.\<close>

definition th_bill :: "(nat \<Rightarrow> u64) \<Rightarrow> 'h tenant_vm_host \<Rightarrow> vm_op \<Rightarrow> 'h tenant_vm_host \<times> (string, unit) result" where
  "th_bill clk th op =
     (case charge_for op of
        None \<Rightarrow> (th, Ok ())
      | Some c \<Rightarrow>
          if c = charge_default then (th, Ok ())
          else
            (case st_charge (th_store th) (th_tenant th) c of
               (st, Err e) \<Rightarrow>
                 (th_emit (th\<lparr>th_store := st\<rparr>)
                    (with_error (''quota: '' @ display_error e) (with_charge c (with_op_tag (op_tag op)
                       (event_template clk th ActDeny)))),
                  Err (''tenant: quota: '' @ display_error e))
             | (st, Ok _) \<Rightarrow>
                 (th_emit (th\<lparr>th_store := st\<rparr>)
                    (with_charge c (with_op_tag (op_tag op) (event_template clk th ActCharge))), Ok ())))"

text \<open>Step 4: remember the charge of a created resource, refund a refused one.\<close>

definition th_reconcile :: "(nat \<Rightarrow> u64) \<Rightarrow> 'h tenant_vm_host \<Rightarrow> vm_op \<Rightarrow> host_result \<Rightarrow> 'h tenant_vm_host" where
  "th_reconcile clk th op reply =
     (case (reply, charge_for op) of
        (Ok (Created vm_id), Some c) \<Rightarrow>
          if is_create_vm op then th\<lparr>th_vm_charges := AList.update vm_id c (th_vm_charges th)\<rparr> else th
      | (Ok (VolumeCreated volume), Some c) \<Rightarrow>
          if is_create_volume op then th\<lparr>th_volume_charges := AList.update (vol_id volume) c (th_volume_charges th)\<rparr> else th
      | (Err err, Some c) \<Rightarrow>
          if c \<noteq> charge_default
          then th_emit (th\<lparr>th_store := fst (st_release (th_store th) (th_tenant th) c)\<rparr>)
                 (with_note ''refunded'' (with_error err (with_charge c (with_op_tag (op_tag op)
                    (event_template clk th ActDeny)))))
          else th
      | _ \<Rightarrow> th)"

text \<open>Step 5: release the remembered charge of a deleted resource.\<close>

definition th_release :: "(nat \<Rightarrow> u64) \<Rightarrow> 'h tenant_vm_host \<Rightarrow> vm_op \<Rightarrow> quota_charge \<Rightarrow> 'h tenant_vm_host" where
  "th_release clk th op c =
     (case st_release (th_store th) (th_tenant th) c of
        (st, Err _) \<Rightarrow> th\<lparr>th_store := st\<rparr>
      | (st, Ok _) \<Rightarrow>
          th_emit (th\<lparr>th_store := st\<rparr>) (with_charge c (with_op_tag (op_tag op) (event_template clk th ActRelease))))"

definition th_refund_deleted :: "(nat \<Rightarrow> u64) \<Rightarrow> 'h tenant_vm_host \<Rightarrow> vm_op \<Rightarrow> host_result \<Rightarrow> 'h tenant_vm_host" where
  "th_refund_deleted clk th op reply =
     (case (reply, op) of
        (Ok (Deleted _), VmDelete vm_id) \<Rightarrow>
          (case map_of (th_vm_charges th) vm_id of
             None \<Rightarrow> th
           | Some c \<Rightarrow> th_release clk (th\<lparr>th_vm_charges := AList.delete vm_id (th_vm_charges th)\<rparr>) op c)
      | (Ok (VolumeDeleted _), DeleteVolume vid) \<Rightarrow>
          (case map_of (th_volume_charges th) vid of
             None \<Rightarrow> th
           | Some c \<Rightarrow> th_release clk (th\<lparr>th_volume_charges := AList.delete vid (th_volume_charges th)\<rparr>) op c)
      | _ \<Rightarrow> th)"

text \<open>The last step: a refusal that was not refunded is logged too.\<close>

definition th_deny :: "(nat \<Rightarrow> u64) \<Rightarrow> 'h tenant_vm_host \<Rightarrow> vm_op \<Rightarrow> host_result \<Rightarrow> 'h tenant_vm_host" where
  "th_deny clk th op reply =
     (case reply of
        Ok _ \<Rightarrow> th
      | Err err \<Rightarrow>
          if (case charge_for op of None \<Rightarrow> True | Some c \<Rightarrow> c = charge_default)
          then th_emit th (with_error err (with_op_tag (op_tag op) (event_template clk th ActDeny)))
          else th)"

definition th_handle ::
  "'h vm_host \<Rightarrow> (nat \<Rightarrow> u64) \<Rightarrow> 'h tenant_vm_host \<Rightarrow> vm_op \<Rightarrow> 'h tenant_vm_host \<times> host_result" where
  "th_handle ops clk th op =
     (case th_bill clk th op of
        (th1, Err e) \<Rightarrow> (th1, Err e)
      | (th1, Ok _) \<Rightarrow>
          (case vh_handle ops (th_inner th1) op of
             (inner, reply) \<Rightarrow>
               (let th2 = th_reconcile clk (th1\<lparr>th_inner := inner\<rparr>) op reply;
                    th3 = th_refund_deleted clk th2 op reply
                in (th_deny clk th3 op reply, reply))))"

definition th_snapshot :: "'h vm_host \<Rightarrow> 'h tenant_vm_host \<Rightarrow> node_id \<Rightarrow> 'h tenant_vm_host \<times> remote_vm list" where
  "th_snapshot ops th owner =
     (case vh_snapshot ops (th_inner th) owner of (inner, rows) \<Rightarrow> (th\<lparr>th_inner := inner\<rparr>, rows))"

definition th_attach_preserved ::
  "'h vm_host \<Rightarrow> 'h tenant_vm_host \<Rightarrow> u32 \<Rightarrow> volume_attachment list \<Rightarrow> 'h tenant_vm_host \<times> (string, unit) result" where
  "th_attach_preserved ops th vm_id atts =
     (case vh_attach_preserved ops (th_inner th) vm_id atts of (inner, r) \<Rightarrow> (th\<lparr>th_inner := inner\<rparr>, r))"

definition tenant_vm_host_dyn :: "'h vm_host \<Rightarrow> (nat \<Rightarrow> u64) \<Rightarrow> 'h tenant_vm_host vm_host" where
  "tenant_vm_host_dyn ops clk =
     \<lparr>vh_handle = th_handle ops clk, vh_snapshot = th_snapshot ops, vh_attach_preserved = th_attach_preserved ops\<rparr>"

subsection \<open>Amounts\<close>

datatype resource = Vcpus | MemoryMib | StorageBytes | NetworkMbps | Iops

fun used :: "quota_usage \<Rightarrow> resource \<Rightarrow> nat" where
  "used u Vcpus = unat (qu_vcpus u)"
| "used u MemoryMib = unat (qu_memory_mib u)"
| "used u StorageBytes = unat (qu_storage_bytes u)"
| "used u NetworkMbps = unat (qu_network_mbps u)"
| "used u Iops = unat (qu_iops u)"

fun charged :: "quota_charge \<Rightarrow> resource \<Rightarrow> nat" where
  "charged c Vcpus = unat (qc_vcpus c)"
| "charged c MemoryMib = unat (qc_memory_mib c)"
| "charged c StorageBytes = unat (qc_storage_bytes c)"
| "charged c NetworkMbps = unat (qc_network_mbps c)"
| "charged c Iops = unat (qc_iops c)"

fun ceiling_of :: "tenant_quotas \<Rightarrow> resource \<Rightarrow> nat" where
  "ceiling_of q Vcpus = unat (max_vcpus q)"
| "ceiling_of q MemoryMib = unat (max_memory_mib q)"
| "ceiling_of q StorageBytes = unat (max_storage_bytes q)"
| "ceiling_of q NetworkMbps = unat (max_network_mbps q)"
| "ceiling_of q Iops = unat (max_iops q)"

lemma used_add: "fits u c \<Longrightarrow> used (add_usage u c) r = used u r + charged c r"
  by (cases r) (simp_all add: fits_def add_usage_def saturating_add_def unat_add_small)

lemma used_release: "used (release_quota u c) r = used u r - charged c r"
  by (cases r) (simp_all add: release_quota_def saturating_sub_def unat_sub word_le_nat_alt)

lemma within_ceiling: "within u q \<Longrightarrow> used u r \<le> ceiling_of q r"
  by (cases r) (simp_all add: within_def word_le_nat_alt)

lemma charged_default [simp]: "charged charge_default r = 0"
  by (cases r) (simp_all add: charge_default_def)

definition total :: "('k \<times> quota_charge) list \<Rightarrow> resource \<Rightarrow> nat" where
  "total xs r = sum_list (map (\<lambda>(k, c). charged c r) xs)"

lemma total_update: "map_of xs k = None \<Longrightarrow> total (AList.update k c xs) r = total xs r + charged c r"
  by (induction xs) (auto simp: total_def split: if_splits)

lemma total_delete:
  assumes "hm_wf xs" "map_of xs k = Some c"
  shows "total xs r = total (AList.delete k xs) r + charged c r"
  using assms
proof (induction xs)
  case (Cons x xs)
  obtain j d where x: "x = (j, d)" by (cases x)
  show ?case
  proof (cases "j = k")
    case True
    with Cons.prems have "k \<notin> fst ` set xs" by (simp add: x hm_wf_def)
    then have "AList.delete k xs = xs" by (induction xs) auto
    with True Cons.prems show ?thesis by (simp add: x total_def)
  next
    case False
    with Cons show ?thesis by (simp add: x total_def hm_wf_def)
  qed
qed simp

subsection \<open>The store's books\<close>

text \<open>Two stores with the same tenants, except that the usage along a chain is higher by the given amounts.\<close>

definition booked :: "store_state \<Rightarrow> tenant_id list \<Rightarrow> (resource \<Rightarrow> nat) \<Rightarrow> store_state \<Rightarrow> bool" where
  "booked st0 chain tot st \<longleftrightarrow>
     (\<forall>k t. map_of (st_tenants st0) k = Some t \<longrightarrow>
        (\<exists>t'. map_of (st_tenants st) k = Some t' \<and>
           (\<forall>r. used (tn_usage t') r = used (tn_usage t) r + (if k \<in> set chain then tot r else 0))))"

definition finite_quotas :: "store_state \<Rightarrow> bool" where
  "finite_quotas st \<longleftrightarrow> (\<forall>k t. map_of (st_tenants st) k = Some t \<longrightarrow> quotas_finite (tn_quotas t))"

definition billable :: "store_state \<Rightarrow> tenant_id \<Rightarrow> tenant_id list \<Rightarrow> bool" where
  "billable st tid chain \<longleftrightarrow> store_inv st \<and> chain_from st tid = Ok chain \<and> finite_quotas st"

lemma finite_quotas_usage:
  "finite_quotas st \<Longrightarrow> finite_quotas (st\<lparr>st_tenants := on_chain chain (\<lambda>t. t\<lparr>tn_usage := g t\<rparr>) (st_tenants st)\<rparr>)"
  by (auto simp: finite_quotas_def map_of_on_chain split: if_splits)

lemma booked_usage:
  assumes "booked st0 chain tot st"
    and "\<And>k t r. map_of (st_tenants st) k = Some t \<Longrightarrow> k \<in> set chain \<Longrightarrow> tot r \<le> used (tn_usage t) r \<Longrightarrow>
      used (g t) r + tot r = used (tn_usage t) r + tot' r"
  shows "booked st0 chain tot' (st\<lparr>st_tenants := on_chain chain (\<lambda>t. t\<lparr>tn_usage := g t\<rparr>) (st_tenants st)\<rparr>)"
  unfolding booked_def
proof (intro allI impI)
  fix k t assume "map_of (st_tenants st0) k = Some t"
  with assms(1) obtain t' where t': "map_of (st_tenants st) k = Some t'"
    "\<And>r. used (tn_usage t') r = used (tn_usage t) r + (if k \<in> set chain then tot r else 0)" by (force simp: booked_def)
  have "used (g t') r = used (tn_usage t) r + tot' r" if "k \<in> set chain" for r
    using assms(2) [OF t'(1) that, of r] t'(2) [of r] that by simp
  with t' show "\<exists>t'. map_of (st_tenants (st\<lparr>st_tenants := on_chain chain (\<lambda>t. t\<lparr>tn_usage := g t\<rparr>) (st_tenants st)\<rparr>)) k = Some t' \<and>
      (\<forall>r. used (tn_usage t') r = used (tn_usage t) r + (if k \<in> set chain then tot' r else 0))"
    by (simp add: map_of_on_chain)
qed

lemma booked_charge:
  assumes "billable st tid chain" "booked st0 chain tot st" "st_charge st tid c = (st', Ok u)"
  shows "billable st' tid chain" "booked st0 chain (\<lambda>r. tot r + charged c r) st'"
proof -
  have inv: "store_inv st" "chain_from st tid = Ok chain" "finite_quotas st" using assms(1) by (simp_all add: billable_def)
  from st_charge_Ok [OF inv(1) assms(3)] inv(2) have st': "charge_check (st_tenants st) c chain = Ok ()"
    "st' = st\<lparr>st_tenants := on_chain chain (\<lambda>t. t\<lparr>tn_usage := add_usage (tn_usage t) c\<rparr>) (st_tenants st)\<rparr>" by auto
  show "billable st' tid chain"
    using inv st_charge_inv [OF inv(1), of tid c] assms(3)
    by (simp add: billable_def st'(2) chain_from_usage finite_quotas_usage)
  have "fits (tn_usage t) c" if "map_of (st_tenants st) k = Some t" "k \<in> set chain" for k t
    using charge_check_Ok [OF st'(1) that(2)] that(1) within_fits inv(3) by (auto simp: finite_quotas_def)
  then show "booked st0 chain (\<lambda>r. tot r + charged c r) st'"
    unfolding st'(2) by (intro booked_usage [OF assms(2)]) (simp add: used_add)
qed

lemma booked_release:
  assumes "billable st tid chain" "booked st0 chain tot st" "\<And>r. charged c r \<le> tot r"
  shows "billable (fst (st_release st tid c)) tid chain" "booked st0 chain (\<lambda>r. tot r - charged c r) (fst (st_release st tid c))"
    "is_ok (snd (st_release st tid c))"
proof -
  have inv: "store_inv st" "chain_from st tid = Ok chain" "finite_quotas st" using assms(1) by (simp_all add: billable_def)
  note rel = st_release_eq [OF inv(1,2), of c]
  show "is_ok (snd (st_release st tid c))" by (simp add: rel(2))
  show "billable (fst (st_release st tid c)) tid chain"
    using inv st_release_inv [OF inv(1), of tid c] by (simp add: billable_def rel(1) chain_from_usage finite_quotas_usage)
  show "booked st0 chain (\<lambda>r. tot r - charged c r) (fst (st_release st tid c))"
    unfolding rel(1)
  proof (rule booked_usage [OF assms(2)])
    fix t r assume "tot r \<le> used (tn_usage t) r"
    with assms(3) [of r] show "used (release_quota (tn_usage t) c) r + tot r = used (tn_usage t) r + (tot r - charged c r)"
      by (simp add: used_release)
  qed
qed

subsection \<open>The log's books\<close>

definition event_amount :: "audit_event \<Rightarrow> resource \<Rightarrow> nat" where
  "event_amount e r = (case ae_charge e of None \<Rightarrow> 0 | Some c \<Rightarrow> charged c r)"

definition billed :: "audit_event list \<Rightarrow> resource \<Rightarrow> nat" where
  "billed log r = (\<Sum>e \<leftarrow> log. if ae_action e = ActCharge then event_amount e r else 0)"

definition credited :: "audit_event list \<Rightarrow> resource \<Rightarrow> nat" where
  "credited log r = (\<Sum>e \<leftarrow> log.
     if ae_action e = ActRelease \<or> ae_action e = ActDeny \<and> ae_note e = Some ''refunded'' then event_amount e r else 0)"

lemma log_snoc:
  "billed (log @ [e]) r = billed log r + (if ae_action e = ActCharge then event_amount e r else 0)"
  "credited (log @ [e]) r = credited log r +
     (if ae_action e = ActRelease \<or> ae_action e = ActDeny \<and> ae_note e = Some ''refunded'' then event_amount e r else 0)"
  by (simp_all add: billed_def credited_def)

subsection \<open>The wrapper's books\<close>

text \<open>
  The books balance: the usage along the tenant's chain is its usage at the start plus the charges
  on record plus one outstanding bill, and so is the difference of what the log billed and credited
  since the start.
\<close>

definition recorded :: "'h tenant_vm_host \<Rightarrow> resource \<Rightarrow> nat" where
  "recorded th r = total (th_vm_charges th) r + total (th_volume_charges th) r"

definition books ::
  "store_state \<Rightarrow> tenant_id list \<Rightarrow> mem_audit_sink \<Rightarrow> quota_charge \<Rightarrow> 'h tenant_vm_host \<Rightarrow> bool" where
  "books st0 chain log0 due th \<longleftrightarrow>
     billable (th_store th) (th_tenant th) chain \<and> hm_wf (th_vm_charges th) \<and> hm_wf (th_volume_charges th) \<and>
     booked st0 chain (\<lambda>r. recorded th r + charged due r) (th_store th) \<and>
     (\<forall>log. th_audit th = Some log \<longrightarrow>
        (\<exists>new. log = log0 @ new \<and> (\<forall>r. billed new r = recorded th r + charged due r + credited new r)))"

lemma emit_fields [simp]:
  "th_store (th_emit th e) = th_store th" "th_tenant (th_emit th e) = th_tenant th"
  "th_tenant_name (th_emit th e) = th_tenant_name th" "th_inner (th_emit th e) = th_inner th"
  "th_vm_charges (th_emit th e) = th_vm_charges th" "th_volume_charges (th_emit th e) = th_volume_charges th"
  "th_audit_user (th_emit th e) = th_audit_user th" "recorded (th_emit th e) = recorded th"
  by (simp_all add: th_emit_def recorded_def fun_eq_iff)

lemma template_fields [simp]:
  "ae_action (event_template clk th a) = a" "ae_charge (event_template clk th a) = None"
  "ae_note (event_template clk th a) = None"
  by (simp_all add: event_template_def event_defs)

lemma event_fields [simp]:
  "ae_action (with_op_tag x e) = ae_action e" "ae_action (with_charge c e) = ae_action e"
  "ae_action (with_error y e) = ae_action e" "ae_action (with_note y e) = ae_action e"
  "ae_charge (with_op_tag x e) = ae_charge e" "ae_charge (with_charge c e) = Some c"
  "ae_charge (with_error y e) = ae_charge e" "ae_charge (with_note y e) = ae_charge e"
  "ae_note (with_op_tag x e) = ae_note e" "ae_note (with_charge c e) = ae_note e"
  "ae_note (with_error y e) = ae_note e" "ae_note (with_note y e) = Some y"
  by (simp_all add: event_defs)

lemma books_emit:
  assumes "books st0 chain log0 due th" "billable st (th_tenant th) chain"
    and "booked st0 chain (\<lambda>r. recorded th r + charged due' r) st"
    and "\<And>r. (if ae_action e = ActCharge then event_amount e r else 0) + charged due r =
      (if ae_action e = ActRelease \<or> ae_action e = ActDeny \<and> ae_note e = Some ''refunded'' then event_amount e r else 0) +
      charged due' r"
  shows "books st0 chain log0 due' (th_emit (th\<lparr>th_store := st\<rparr>) e)"
  unfolding books_def
proof (intro conjI allI impI)
  fix log assume "th_audit (th_emit (th\<lparr>th_store := st\<rparr>) e) = Some log"
  then obtain old where old: "th_audit th = Some old" "log = old @ [e]" by (auto simp: th_emit_def mas_record_def)
  with assms(1) obtain new where new: "old = log0 @ new"
    "\<And>r. billed new r = recorded th r + charged due r + credited new r" by (auto simp: books_def)
  have "billed (new @ [e]) r = recorded th r + charged due' r + credited (new @ [e]) r" for r
    using new(2) [of r] assms(4) [of r] by (simp add: log_snoc)
  then show "\<exists>new. log = log0 @ new \<and> (\<forall>r. billed new r =
      recorded (th_emit (th\<lparr>th_store := st\<rparr>) e) r + charged due' r + credited new r)"
    using old(2) new(1) by (intro exI [of _ "new @ [e]"]) (simp add: recorded_def)
qed (use assms in \<open>simp_all add: books_def recorded_def\<close>)

lemma booksD:
  assumes "books st0 chain log0 due th"
  shows "billable (th_store th) (th_tenant th) chain" "booked st0 chain (\<lambda>r. recorded th r + charged due r) (th_store th)"
    "hm_wf (th_vm_charges th)" "hm_wf (th_volume_charges th)"
  using assms by (simp_all add: books_def)

lemma billable_inv: "billable st tid chain \<Longrightarrow> store_inv st" by (simp add: billable_def)

text \<open>The two ends of a bill.\<close>

lemma bill_books:
  assumes "books st0 chain log0 charge_default th"
  shows "(case snd (th_bill clk th op) of
      Err e \<Rightarrow> books st0 chain log0 charge_default (fst (th_bill clk th op)) \<and>
        (\<exists>ev. fst (th_bill clk th op) = th_emit th ev \<and> ae_action ev = ActDeny \<and> \<not> ae_success ev)
    | Ok _ \<Rightarrow> books st0 chain log0 (case charge_for op of None \<Rightarrow> charge_default | Some c \<Rightarrow> c) (fst (th_bill clk th op)) \<and>
        th_inner (fst (th_bill clk th op)) = th_inner th)"
proof (cases "charge_for op = None \<or> charge_for op = Some charge_default")
  case True
  with assms show ?thesis by (auto simp: th_bill_def)
next
  case False
  then obtain c where c: "charge_for op = Some c" "c \<noteq> charge_default" by auto
  note b = booksD [OF assms]
  obtain st r where ch: "st_charge (th_store th) (th_tenant th) c = (st, r)" by (cases "st_charge (th_store th) (th_tenant th) c")
  show ?thesis
  proof (cases r)
    case (Err e)
    with ch st_charge_Err [OF billable_inv [OF b(1)]] have st: "st = th_store th" by blast
    let ?ev = "with_error (''quota: '' @ display_error e) (with_charge c (with_op_tag (op_tag op) (event_template clk th ActDeny)))"
    have "books st0 chain log0 charge_default (th_emit (th\<lparr>th_store := st\<rparr>) ?ev)"
      by (rule books_emit [OF assms]) (use b in \<open>simp_all add: st\<close>)
    moreover have "th\<lparr>th_store := st\<rparr> = th" by (simp add: st)
    ultimately show ?thesis using c ch Err
      by (auto simp: th_bill_def event_defs intro!: exI [of _ ?ev])
  next
    case (Ok u)
    let ?ev = "with_charge c (with_op_tag (op_tag op) (event_template clk th ActCharge))"
    have "books st0 chain log0 c (th_emit (th\<lparr>th_store := st\<rparr>) ?ev)"
      by (rule books_emit [OF assms])
         (use booked_charge [OF b(1,2), of c st u] ch Ok in \<open>simp_all add: event_amount_def\<close>)
    then show ?thesis using c ch Ok by (simp add: th_bill_def)
  qed
qed

lemma books_inner [simp]: "books st0 chain log0 due (th\<lparr>th_inner := h\<rparr>) = books st0 chain log0 due th"
  by (simp add: books_def recorded_def)

lemma books_cong:
  assumes "books st0 chain log0 due th" "\<And>r. recorded th' r + charged due' r = recorded th r + charged due r"
    and "th_store th' = th_store th" "th_tenant th' = th_tenant th" "th_audit th' = th_audit th"
    and "hm_wf (th_vm_charges th')" "hm_wf (th_volume_charges th')"
  shows "books st0 chain log0 due' th'"
  using assms by (simp add: books_def)

lemma hm_wf_alist: "hm_wf xs \<Longrightarrow> hm_wf (AList.update k v xs)" "hm_wf xs \<Longrightarrow> hm_wf (AList.delete k xs)"
  by (simp_all add: hm_wf_def distinct_update distinct_delete)

lemma books_record:
  assumes "books st0 chain log0 c th"
  shows "map_of (th_vm_charges th) i = None \<Longrightarrow>
      books st0 chain log0 charge_default (th\<lparr>th_vm_charges := AList.update i c (th_vm_charges th)\<rparr>)"
    and "map_of (th_volume_charges th) v = None \<Longrightarrow>
      books st0 chain log0 charge_default (th\<lparr>th_volume_charges := AList.update v c (th_volume_charges th)\<rparr>)"
  using booksD [OF assms] by (auto intro!: books_cong [OF assms] simp: recorded_def total_update hm_wf_alist)

lemma books_forget:
  assumes "books st0 chain log0 charge_default th"
  shows "map_of (th_vm_charges th) i = Some c \<Longrightarrow> books st0 chain log0 c (th\<lparr>th_vm_charges := AList.delete i (th_vm_charges th)\<rparr>)"
    and "map_of (th_volume_charges th) v = Some c \<Longrightarrow> books st0 chain log0 c (th\<lparr>th_volume_charges := AList.delete v (th_volume_charges th)\<rparr>)"
  using booksD [OF assms] total_delete by (fastforce intro!: books_cong [OF assms] simp: recorded_def hm_wf_alist)+

lemma books_settle:
  assumes "books st0 chain log0 c th"
  shows "billable (fst (st_release (th_store th) (th_tenant th) c)) (th_tenant th) chain"
    "booked st0 chain (\<lambda>r. recorded th r + charged charge_default r) (fst (st_release (th_store th) (th_tenant th) c))"
    "is_ok (snd (st_release (th_store th) (th_tenant th) c))"
  using booked_release [OF booksD(1,2) [OF assms], of c] by simp_all

lemma release_books:
  assumes "books st0 chain log0 c th"
  shows "books st0 chain log0 charge_default (th_release clk th op c)"
proof -
  obtain st u where r: "st_release (th_store th) (th_tenant th) c = (st, Ok u)"
    using books_settle(3) [OF assms] by (cases "st_release (th_store th) (th_tenant th) c") (auto simp: is_ok_iff)
  show ?thesis
    unfolding th_release_def r prod.case result.case
    by (rule books_emit [OF assms]) (use books_settle [OF assms] r in \<open>simp_all add: event_amount_def\<close>)
qed

text \<open>After the host answered: the rest of the pipeline.\<close>

definition th_settle :: "(nat \<Rightarrow> u64) \<Rightarrow> 'h tenant_vm_host \<Rightarrow> vm_op \<Rightarrow> host_result \<Rightarrow> 'h tenant_vm_host" where
  "th_settle clk th op reply = th_deny clk (th_refund_deleted clk (th_reconcile clk th op reply) op reply) op reply"

lemma th_handle_eq:
  "th_handle ops clk th op =
     (case th_bill clk th op of
        (th1, Err e) \<Rightarrow> (th1, Err e)
      | (th1, Ok _) \<Rightarrow>
          (th_settle clk (th1\<lparr>th_inner := fst (vh_handle ops (th_inner th1) op)\<rparr>) op (snd (vh_handle ops (th_inner th1) op)),
           snd (vh_handle ops (th_inner th1) op)))"
  by (simp add: th_handle_def th_settle_def Let_def split: prod.split result.split)

lemma settle_refused:
  assumes "books st0 chain log0 (case charge_for op of None \<Rightarrow> charge_default | Some c \<Rightarrow> c) th"
  shows "books st0 chain log0 charge_default (th_settle clk th op (Err e))"
proof (cases "charge_for op = None \<or> charge_for op = Some charge_default")
  case True
  have "books st0 chain log0 charge_default (th_emit (th\<lparr>th_store := th_store th\<rparr>)
      (with_error e (with_op_tag (op_tag op) (event_template clk th ActDeny))))"
    by (rule books_emit [where due = charge_default]) (use True assms booksD [OF assms] in \<open>auto split: option.splits\<close>)
  with True show ?thesis
    by (auto simp: th_settle_def th_reconcile_def th_refund_deleted_def th_deny_def)
next
  case False
  then obtain c where c: "charge_for op = Some c" "c \<noteq> charge_default" by auto
  with assms have b: "books st0 chain log0 c th" by simp
  have "books st0 chain log0 charge_default (th_emit (th\<lparr>th_store := fst (st_release (th_store th) (th_tenant th) c)\<rparr>)
      (with_note ''refunded'' (with_error e (with_charge c (with_op_tag (op_tag op) (event_template clk th ActDeny))))))"
    by (rule books_emit [OF b]) (use books_settle [OF b] in \<open>simp_all add: event_amount_def\<close>)
  with c show ?thesis by (simp add: th_settle_def th_reconcile_def th_refund_deleted_def th_deny_def)
qed

subsection \<open>Metered hosts\<close>

text \<open>
  What the wrapper relies on from a host: the resources of its live VMs and volumes, and how a
  successful operation changes them. Ids of new resources are not in use.
\<close>

fun metered_by ::
  "vm_op \<Rightarrow> vm_op_reply \<Rightarrow> (u32 \<rightharpoonup> quota_charge) \<times> (volume_id \<rightharpoonup> quota_charge) \<Rightarrow>
   (u32 \<rightharpoonup> quota_charge) \<times> (volume_id \<rightharpoonup> quota_charge) \<Rightarrow> bool" where
  "metered_by op rep (vm, vol) (vm', vol') \<longleftrightarrow>
     (case op of
        VmCreate _ _ _ _ _ _ \<Rightarrow> (\<exists>i. rep = Created i \<and> vm i = None \<and> vm' = vm(i := charge_for op) \<and> vol' = vol)
      | VmDelete i \<Rightarrow> (\<exists>j. rep = Deleted j) \<and> vm' = vm(i := None) \<and> vol' = vol
      | CreateVolume _ _ \<Rightarrow>
          (\<exists>v. rep = VolumeCreated v \<and> vol (vol_id v) = None \<and> vol' = vol(vol_id v := charge_for op) \<and> vm' = vm)
      | DeleteVolume v \<Rightarrow> (\<exists>j. rep = VolumeDeleted j) \<and> vol' = vol(v := None) \<and> vm' = vm
      | _ \<Rightarrow> vm' = vm \<and> vol' = vol)"

lemma release_fields [simp]:
  "th_vm_charges (th_release clk th op c) = th_vm_charges th" "th_volume_charges (th_release clk th op c) = th_volume_charges th"
  "th_inner (th_release clk th op c) = th_inner th"
  by (simp_all add: th_release_def split: prod.split result.split)

lemma settle_accepted:
  assumes "books st0 chain log0 (case charge_for op of None \<Rightarrow> charge_default | Some c \<Rightarrow> c) th"
    and "metered_by op rep (map_of (th_vm_charges th), map_of (th_volume_charges th)) (vm', vol')"
  shows "books st0 chain log0 charge_default (th_settle clk th op (Ok rep)) \<and>
    map_of (th_vm_charges (th_settle clk th op (Ok rep))) = vm' \<and>
    map_of (th_volume_charges (th_settle clk th op (Ok rep))) = vol' \<and>
    th_inner (th_settle clk th op (Ok rep)) = th_inner th"
proof -
  note settle = th_settle_def th_reconcile_def th_refund_deleted_def th_deny_def
  show ?thesis
  proof (cases op)
    case (VmCreate l p img cpus mem crc)
    then obtain c where c: "charge_for op = Some c" by simp
    from VmCreate assms(2) obtain i where "rep = Created i" "map_of (th_vm_charges th) i = None"
      "vm' = (map_of (th_vm_charges th))(i \<mapsto> c)" "vol' = map_of (th_volume_charges th)" using c by auto
    with VmCreate c assms(1) books_record(1) [of st0 chain log0 c th i] show ?thesis
      by (simp add: settle update_conv')
  next
    case (CreateVolume n sz)
    then obtain c where c: "charge_for op = Some c" by simp
    from CreateVolume assms(2) obtain v where "rep = VolumeCreated v" "map_of (th_volume_charges th) (vol_id v) = None"
      "vol' = (map_of (th_volume_charges th))(vol_id v \<mapsto> c)" "vm' = map_of (th_vm_charges th)" using c by auto
    with CreateVolume c assms(1) books_record(2) [of st0 chain log0 c th "vol_id v"] show ?thesis
      by (simp add: settle update_conv')
  next
    case (VmDelete i)
    with assms have b: "books st0 chain log0 charge_default th" by simp
    show ?thesis
    proof (cases "map_of (th_vm_charges th) i")
      case None
      with VmDelete assms(2) b show ?thesis by (auto simp: settle)
    next
      case (Some c)
      with VmDelete assms(2) release_books [OF books_forget(1) [OF b Some]] show ?thesis
        by (auto simp: settle delete_conv')
    qed
  next
    case (DeleteVolume v)
    with assms have b: "books st0 chain log0 charge_default th" by simp
    show ?thesis
    proof (cases "map_of (th_volume_charges th) v")
      case None
      with DeleteVolume assms(2) b show ?thesis by (auto simp: settle)
    next
      case (Some c)
      with DeleteVolume assms(2) release_books [OF books_forget(2) [OF b Some]] show ?thesis
        by (auto simp: settle delete_conv')
    qed
  qed (use assms in \<open>auto simp: settle split: vm_op_reply.split\<close>)
qed

lemma settle_refused_fields [simp]:
  "th_vm_charges (th_settle clk th op (Err e)) = th_vm_charges th"
  "th_volume_charges (th_settle clk th op (Err e)) = th_volume_charges th"
  "th_inner (th_settle clk th op (Err e)) = th_inner th"
  by (simp_all add: th_settle_def th_reconcile_def th_refund_deleted_def th_deny_def split: option.split)

lemma bill_fields [simp]:
  "th_vm_charges (fst (th_bill clk th op)) = th_vm_charges th"
  "th_volume_charges (fst (th_bill clk th op)) = th_volume_charges th"
  "th_inner (fst (th_bill clk th op)) = th_inner th"
  by (simp_all add: th_bill_def split: option.split prod.split result.split)

locale metered_host =
  fixes ops :: "'h vm_host" and steps_left :: "nat \<Rightarrow> 'h \<Rightarrow> bool"
    and vm_use :: "'h \<Rightarrow> u32 \<rightharpoonup> quota_charge" and vol_use :: "'h \<Rightarrow> volume_id \<rightharpoonup> quota_charge"
  assumes steps_less: "steps_left (Suc n) h \<Longrightarrow> steps_left n h"
    and steps_handle: "steps_left (Suc n) h \<Longrightarrow> steps_left n (fst (vh_handle ops h op))"
    and steps_other: "steps_left (Suc n) h \<Longrightarrow> steps_left n (fst (vh_snapshot ops h own))"
      "steps_left (Suc n) h \<Longrightarrow> steps_left n (fst (vh_attach_preserved ops h i atts))"
    and refused: "vh_handle ops h op = (h', Err e) \<Longrightarrow> h' = h"
    and metered: "steps_left (Suc n) h \<Longrightarrow> vh_handle ops h op = (h', Ok rep) \<Longrightarrow>
      metered_by op rep (vm_use h, vol_use h) (vm_use h', vol_use h')"
    and other_use: "vm_use (fst (vh_snapshot ops h own)) = vm_use h" "vol_use (fst (vh_snapshot ops h own)) = vol_use h"
      "steps_left n h \<Longrightarrow> vm_use (fst (vh_attach_preserved ops h i atts)) = vm_use h" "vol_use (fst (vh_attach_preserved ops h i atts)) = vol_use h"
begin

text \<open>The charges on record are the resources of the host.\<close>

definition in_step :: "'h tenant_vm_host \<Rightarrow> bool" where
  "in_step th \<longleftrightarrow> map_of (th_vm_charges th) = vm_use (th_inner th) \<and> map_of (th_volume_charges th) = vol_use (th_inner th)"

definition metering :: "nat \<Rightarrow> store_state \<Rightarrow> tenant_id list \<Rightarrow> mem_audit_sink \<Rightarrow> 'h tenant_vm_host \<Rightarrow> bool" where
  "metering n st0 chain log0 th \<longleftrightarrow> steps_left n (th_inner th) \<and> in_step th \<and> books st0 chain log0 charge_default th"

lemma handle_metering:
  assumes "metering (Suc n) st0 chain log0 th"
  shows "metering n st0 chain log0 (fst (th_handle ops clk th op))"
proof -
  have m: "steps_left (Suc n) (th_inner th)" "books st0 chain log0 charge_default th"
    "map_of (th_vm_charges th) = vm_use (th_inner th)" "map_of (th_volume_charges th) = vol_use (th_inner th)"
    using assms by (simp_all add: metering_def in_step_def)
  obtain th1 b where bill: "th_bill clk th op = (th1, b)" by (cases "th_bill clk th op")
  note fields = bill_fields [of clk th op, unfolded bill fst_conv]
  note bb = bill_books [OF m(2), of clk op, unfolded bill fst_conv snd_conv]
  show ?thesis
  proof (cases b)
    case (Err e)
    with bb m steps_less [OF m(1)] show ?thesis by (simp add: th_handle_eq bill metering_def in_step_def fields)
  next
    case (Ok x)
    obtain h rep where h: "vh_handle ops (th_inner th) op = (h, rep)" by (cases "vh_handle ops (th_inner th) op")
    from steps_handle [OF m(1), of op] h have left: "steps_left n h" by simp
    let ?th2 = "th1\<lparr>th_inner := h\<rparr>"
    have eq: "fst (th_handle ops clk th op) = th_settle clk ?th2 op rep" by (simp add: th_handle_eq bill Ok h fields)
    have due: "books st0 chain log0 (case charge_for op of None \<Rightarrow> charge_default | Some c \<Rightarrow> c) ?th2"
      using bb Ok by simp
    show ?thesis
    proof (cases rep)
      case err: (Err e)
      with refused h have "h = th_inner th" by blast
      with settle_refused [OF due, of clk e] left m(3,4) show ?thesis
        by (simp add: eq err metering_def in_step_def fields)
    next
      case ok: (Ok r)
      from metered [OF m(1)] h ok have "metered_by op r (vm_use (th_inner th), vol_use (th_inner th)) (vm_use h, vol_use h)" by blast
      then have "metered_by op r (map_of (th_vm_charges ?th2), map_of (th_volume_charges ?th2)) (vm_use h, vol_use h)"
        by (simp add: fields m(3,4))
      from settle_accepted [OF due this, of clk] left show ?thesis by (simp add: eq ok metering_def in_step_def)
    qed
  qed
qed

lemma other_metering:
  assumes "metering (Suc n) st0 chain log0 th"
  shows "metering n st0 chain log0 (fst (th_snapshot ops th own))"
    "metering n st0 chain log0 (fst (th_attach_preserved ops th i atts))"
  using assms steps_other other_use
  by (simp_all add: metering_def in_step_def th_snapshot_def th_attach_preserved_def split: prod.split) (metis fst_conv)+

end

subsection \<open>Runs\<close>

datatype th_cmd = ThHandle vm_op | ThSnapshot node_id | ThPreserve u32 "volume_attachment list"

fun th_exec :: "'h vm_host \<Rightarrow> (nat \<Rightarrow> u64) \<Rightarrow> 'h tenant_vm_host \<Rightarrow> th_cmd \<Rightarrow> 'h tenant_vm_host" where
  "th_exec ops clk th (ThHandle op) = fst (th_handle ops clk th op)"
| "th_exec ops clk th (ThSnapshot own) = fst (th_snapshot ops th own)"
| "th_exec ops clk th (ThPreserve i atts) = fst (th_attach_preserved ops th i atts)"

definition th_run :: "'h vm_host \<Rightarrow> (nat \<Rightarrow> u64) \<Rightarrow> 'h tenant_vm_host \<Rightarrow> th_cmd list \<Rightarrow> 'h tenant_vm_host" where
  "th_run ops clk th cmds = foldl (th_exec ops clk) th cmds"

context metered_host
begin

lemma run_metering:
  assumes "metering (n + length cmds) st0 chain log0 th"
  shows "metering n st0 chain log0 (th_run ops clk th cmds)"
  using assms
proof (induction cmds arbitrary: th)
  case (Cons c cmds)
  then have "metering (n + length cmds) st0 chain log0 (th_exec ops clk th c)"
    by (cases c) (simp_all add: handle_metering other_metering)
  from Cons.IH [OF this] show ?case by (simp add: th_run_def)
qed (simp add: th_run_def)

end

subsection \<open>The in-memory host is metered\<close>

definition slot_charge :: "slot \<Rightarrow> quota_charge" where
  "slot_charge s = charge_default\<lparr>qc_vcpus := (case sl_cpu_count s of None \<Rightarrow> 0 | Some n \<Rightarrow> n),
     qc_memory_mib := (case sl_memory_mib s of None \<Rightarrow> 0 | Some n \<Rightarrow> n)\<rparr>"

definition volume_charge :: "volume_meta \<Rightarrow> quota_charge" where
  "volume_charge m = charge_default\<lparr>qc_storage_bytes := vol_size m\<rparr>"

definition host_vm_use :: "mem_vm_host \<Rightarrow> u32 \<rightharpoonup> quota_charge" where
  "host_vm_use h i = (if unat i < MAX_SLOTS then map_option slot_charge (mh_slots h ! unat i) else None)"

definition host_vol_use :: "mem_vm_host \<Rightarrow> volume_id \<rightharpoonup> quota_charge" where
  "host_vol_use h v = map_option volume_charge (vs_get (mh_vault h) v)"

definition host_steps_left :: "nat \<Rightarrow> mem_vm_host \<Rightarrow> bool" where
  "host_steps_left n h \<longleftrightarrow> length (mh_slots h) = MAX_SLOTS \<and> vault_inv (mh_vault h) \<and>
     (\<exists>k. counters_le (mh_vault h) k \<and> k + n < 2 ^ 64)"

text \<open>The resources a host is using, counted from its slots and its vault.\<close>

definition host_uses :: "mem_vm_host \<Rightarrow> resource \<Rightarrow> nat" where
  "host_uses h r =
     (\<Sum>x \<leftarrow> mh_slots h. case x of None \<Rightarrow> 0 | Some s \<Rightarrow> charged (slot_charge s) r) +
     (\<Sum>m \<leftarrow> vs_list (mh_vault h). charged (volume_charge m) r)"

lemma total_distinct: "hm_wf xs \<Longrightarrow> total xs r = (\<Sum>(k, c) \<in> set xs. charged c r)"
  by (simp add: total_def hm_wf_def distinct_map sum_list_distinct_conv_sum_set)

lemma total_eq:
  assumes "hm_wf xs" "hm_wf ys" "map_of xs = map_of ys"
  shows "total xs r = total ys r"
proof -
  have "set xs = set ys" using assms by (metis hm_wf_def map_of_inject_set)
  with assms show ?thesis by (simp add: total_distinct)
qed

fun slot_rows :: "nat \<Rightarrow> slot option list \<Rightarrow> (u32 \<times> quota_charge) list" where
  "slot_rows n [] = []"
| "slot_rows n (None # ss) = slot_rows (Suc n) ss"
| "slot_rows n (Some s # ss) = (of_nat n, slot_charge s) # slot_rows (Suc n) ss"

lemma total_slot_rows: "total (slot_rows n ss) r = (\<Sum>x \<leftarrow> ss. case x of None \<Rightarrow> 0 | Some s \<Rightarrow> charged (slot_charge s) r)"
  by (induction n ss rule: slot_rows.induct) (simp_all add: total_def)

lemma unat_u32: "n < 2 ^ 32 \<Longrightarrow> unat (of_nat n :: u32) = n"
  by (simp add: unsigned_of_nat take_bit_nat_eq_self)

lemma slot_rows_keys: "k \<in> fst ` set (slot_rows n ss) \<Longrightarrow> n + length ss < 2 ^ 32 \<Longrightarrow> n \<le> unat k \<and> unat k < n + length ss"
  by (induction n ss rule: slot_rows.induct) (force simp: unat_u32)+

lemma slot_rows_wf: "n + length ss < 2 ^ 32 \<Longrightarrow> hm_wf (slot_rows n ss)"
proof (induction n ss rule: slot_rows.induct)
  case (3 n s ss)
  with slot_rows_keys [of "of_nat n" "Suc n" ss] show ?case by (auto simp: hm_wf_def unat_u32)
qed (auto simp: hm_wf_def)

lemma map_of_slot_rows:
  "n + length ss < 2 ^ 32 \<Longrightarrow> map_of (slot_rows n ss) k =
     (if n \<le> unat k \<and> unat k < n + length ss then map_option slot_charge (ss ! (unat k - n)) else None)"
proof (induction n ss rule: slot_rows.induct)
  case (2 n ss)
  then show ?case by (cases "unat k = n") (auto simp: nth_Cons')
next
  case (3 n s ss)
  have "k = of_nat n \<longleftrightarrow> unat k = n" using 3(2) by (metis unat_u32 add_lessD1 word_unat_eq_iff)
  with 3 show ?case by (auto simp: nth_Cons')
qed auto

lemma vault_metas:
  "vs_get (fst (vs_write g v off d)) = vs_get g" "vs_get (fst (vs_create_snapshot g v n)) = vs_get g"
  "vs_get (fst (vs_delete_snapshot g sid)) = vs_get g" "vs_get (fst (vs_restore_snapshot g sid)) = vs_get g"
  by (auto simp: vault_op_defs vs_get_def fun_eq_iff map_simps option.map_comp comp_def split: result.splits option.splits)

lemma host_vm_use_set:
  "unat i < MAX_SLOTS \<Longrightarrow> length (mh_slots h) = MAX_SLOTS \<Longrightarrow>
   host_vm_use (h\<lparr>mh_slots := (mh_slots h)[unat i := x]\<rparr>) = (host_vm_use h)(i := map_option slot_charge x)"
  by (auto simp: host_vm_use_def fun_eq_iff nth_list_update word_unat_eq_iff)

lemma host_vm_use_same:
  assumes "length (mh_slots h) = MAX_SLOTS" "slot_mut (mh_slots h) i = Ok s" "slot_charge t = slot_charge s"
  shows "host_vm_use (set_slot i (Some t) h) = host_vm_use h"
  using assms by (simp add: slot_mut_Ok set_slot_def host_vm_use_set) (auto simp: host_vm_use_def fun_eq_iff)

lemma host_op_vm_use:
  assumes "length (mh_slots h) = MAX_SLOTS" "\<not> is_create_vm op" "\<And>i. op \<noteq> VmDelete i"
  shows "host_vm_use (fst (host_op h op)) = host_vm_use h"
proof -
  have stores [simp]: "host_vm_use (h\<lparr>mh_vault := x\<rparr>) = host_vm_use h" "host_vm_use (h\<lparr>mh_nets := y\<rparr>) = host_vm_use h" for x y
    by (simp_all add: host_vm_use_def fun_eq_iff)
  show ?thesis
    using assms(2,3) by (cases op) (auto simp: host_start_def host_stop_def host_vault_def host_nets_def
      delete_volume_check_def delete_volume_commit_def attach_volume_check_def attach_volume_commit_def
      host_detach_volume_def host_read_volume_def host_write_volume_def host_create_network_def host_attach_nic_def
      Let_def slot_charge_def intro!: host_vm_use_same [OF assms(1)] split: option.split result.split)
qed

lemma host_metered:
  assumes "host_steps_left (Suc n) h" "host_op h op = (h', Ok rep)"
  shows "metered_by op rep (host_vm_use h, host_vol_use h) (host_vm_use h', host_vol_use h')"
proof -
  from assms(1) obtain k where k: "unat (mi_next (mh_vault h)) \<le> k" "k + Suc n < 2 ^ 64"
    and len: "length (mh_slots h) = MAX_SLOTS" and v: "vault_inv (mh_vault h)"
    by (auto simp: host_steps_left_def counters_le_def)
  have inv: "vault_inv (mh_vault h)" "mi_next (mh_vault h) \<noteq> - 1" using v not_max [OF k(1)] k(2) by simp_all
  have h': "h' = fst (host_op h op)" using assms(2) by simp
  have vault: "mh_vault h' = vault_run (mh_vault h) (vault_cmds h op)" by (simp add: h' host_op_stores)
  have vol: "host_vol_use h' = host_vol_use h" if "\<not> is_create_volume op" "\<And>v. op \<noteq> DeleteVolume v"
    unfolding host_vol_use_def vault
    using that by (cases op) (auto simp: vault_metas split: option.split)
  show ?thesis
  proof (cases op)
    case (VmCreate l p img cpus mem crc)
    then obtain slots i where al: "alloc_slot \<lparr>sl_label = l, sl_state = ''created'', sl_last_exit = None,
        sl_restart_policy = p, sl_volumes = [], sl_image_path = img, sl_cpu_count = cpus, sl_memory_mib = mem,
        sl_boot_blob_crc32c = crc\<rparr> (mh_slots h) = Some (slots, i)" "rep = Created (of_nat i)" "h' = h\<lparr>mh_slots := slots\<rparr>"
      using assms(2) by (auto simp: host_create_def split: if_splits option.splits)
    note s = alloc_slot_Some [OF al(1)]
    have i: "i < MAX_SLOTS" using s len by simp
    then have u: "unat (of_nat i :: u32) = i" by (intro unat_u32) (simp add: MAX_SLOTS_def)
    have "host_vm_use h (of_nat i) = None" using s i u by (simp add: host_vm_use_def)
    moreover have "host_vm_use h' = (host_vm_use h)(of_nat i := charge_for op)"
      using host_vm_use_set [of "of_nat i" h] u i len s al(3) by (simp add: VmCreate slot_charge_def)
    ultimately show ?thesis using vol al(2) by (simp add: VmCreate)
  next
    case (VmDelete i)
    then obtain s where "slot_mut (mh_slots h) i = Ok s" "h' = set_slot i None h" "rep = Deleted i"
      using assms(2) by (auto simp: host_delete_def split: result.splits if_splits)
    then show ?thesis using vol len by (simp add: VmDelete slot_mut_Ok set_slot_def host_vm_use_set)
  next
    case (CreateVolume name sz)
    with assms(2) host_op_vm_use [OF len, of op] create_fresh [OF inv] show ?thesis
      by (auto simp: h' host_vault_def vs_create_def host_vol_use_def vs_get_def map_simps fun_eq_iff Let_def volume_charge_def
          split: option.splits result.splits if_splits)
  next
    case (DeleteVolume v)
    with assms(2) host_op_vm_use [OF len, of op] inv(1) show ?thesis
      by (auto simp: h' host_vault_def delete_volume_commit_def vs_delete_def host_vol_use_def vs_get_def map_simps fun_eq_iff
          vault_inv_def split: option.splits result.splits if_splits)
  qed (use host_op_vm_use [OF len, of op] vol in \<open>simp_all add: h'\<close>)
qed

lemma host_steps_run:
  assumes "host_steps_left (Suc n) h" "length (mh_slots h') = MAX_SLOTS" "mh_vault h' = vault_run (mh_vault h) cs" "length cs \<le> 1"
  shows "host_steps_left n h'"
proof -
  from assms(1) obtain k where k: "vault_inv (mh_vault h)" "counters_le (mh_vault h) k" "k + Suc n < 2 ^ 64"
    by (auto simp: host_steps_left_def)
  from vault_run_inv [OF k(1,2), of cs] k(3) assms(4) have "vault_inv (mh_vault h')" "counters_le (mh_vault h') (k + length cs)"
    by (simp_all add: assms(3))
  then show ?thesis using assms(2,4) k(3) by (auto simp: host_steps_left_def intro!: exI [of _ "k + length cs"])
qed

lemma host_op_length: "length (mh_slots (fst (host_op h op))) = length (mh_slots h)"
  by (cases op) (auto simp: host_defs dest: alloc_slot_Some split: option.splits result.splits)

interpretation metered_mem: metered_host mem_vm_host_dyn host_steps_left host_vm_use host_vol_use
proof
  fix n h op
  assume n: "host_steps_left (Suc n) h"
  then have len: "length (mh_slots h) = MAX_SLOTS" by (simp add: host_steps_left_def)
  show "host_steps_left n h" using host_steps_run [OF n len, of "[]"] by simp
  then show "host_steps_left n (fst (vh_handle mem_vm_host_dyn h op))"
    using host_steps_run [OF n _ host_op_stores(1) length_cmds(1), of op] len
    by (simp add: mem_vm_host_dyn_def host_apply_def host_op_length)
  show "host_steps_left n (fst (vh_snapshot mem_vm_host_dyn h own))" for own
    using host_steps_run [OF n, of "fst (host_snapshot h own)" "[]"] len
    by (simp add: mem_vm_host_dyn_def host_snapshot_state)
  show "host_steps_left n (fst (vh_attach_preserved mem_vm_host_dyn h i atts))" for i atts
    using host_steps_run [OF n, of "fst (host_attach_preserved h i atts)" "[]"] len
    by (simp add: mem_vm_host_dyn_def host_attach_preserved_def set_slot_def split: result.split)
next
  fix h op h' e
  assume "vh_handle mem_vm_host_dyn h op = (h', Err e)"
  then show "h' = h" using host_op_err [of h op e] by (auto simp: mem_vm_host_dyn_def host_apply_def split: if_splits)
next
  fix n h op h' rep
  assume "host_steps_left (Suc n) h" "vh_handle mem_vm_host_dyn h op = (h', Ok rep)"
  then show "metered_by op rep (host_vm_use h, host_vol_use h) (host_vm_use h', host_vol_use h')"
    by (intro host_metered) (auto simp: mem_vm_host_dyn_def host_apply_def split: if_splits)
next
  fix h own i atts
  show "host_vm_use (fst (vh_snapshot mem_vm_host_dyn h own)) = host_vm_use h"
    "host_vol_use (fst (vh_snapshot mem_vm_host_dyn h own)) = host_vol_use h"
    by (simp_all add: mem_vm_host_dyn_def host_vm_use_def host_vol_use_def host_snapshot_state fun_eq_iff)
  show "host_vol_use (fst (vh_attach_preserved mem_vm_host_dyn h i atts)) = host_vol_use h"
    by (simp add: mem_vm_host_dyn_def host_vol_use_def host_attach_preserved_def set_slot_def fun_eq_iff split: result.split)
next
  fix n h i atts
  assume "host_steps_left n h"
  then show "host_vm_use (fst (vh_attach_preserved mem_vm_host_dyn h i atts)) = host_vm_use h"
    by (auto simp: mem_vm_host_dyn_def host_attach_preserved_def host_steps_left_def slot_charge_def
        intro!: host_vm_use_same split: result.split)
qed

lemma recorded_host:
  assumes "metered_mem.in_step th" "books st0 chain log0 due th" "host_steps_left n (th_inner th)"
  shows "recorded th r = host_uses (th_inner th) r"
proof -
  let ?h = "th_inner th"
  let ?rows = "map (\<lambda>(k, v). (k, volume_charge (mv_meta v))) (mi_rows (mh_vault ?h))"
  have len: "length (mh_slots ?h) = MAX_SLOTS" and v: "bt_wf (mi_rows (mh_vault ?h))"
    using assms(3) by (simp_all add: host_steps_left_def vault_inv_def)
  have short: "0 + length (mh_slots ?h) < 2 ^ 32" by (simp add: len MAX_SLOTS_def)
  have "map_of (th_vm_charges th) = map_of (slot_rows 0 (mh_slots ?h))"
    using assms(1) map_of_slot_rows [OF short] by (simp add: metered_mem.in_step_def host_vm_use_def fun_eq_iff len)
  then have vm: "total (th_vm_charges th) r = total (slot_rows 0 (mh_slots ?h)) r"
    using booksD(3) [OF assms(2)] slot_rows_wf [OF short] by (intro total_eq)
  have "distinct (map fst (mi_rows (mh_vault ?h)))" using v by (simp add: bt_wf_def strict_sorted_iff)
  then have wf: "hm_wf ?rows" by (simp add: hm_wf_def comp_def case_prod_beta)
  have "map_of (th_volume_charges th) = map_of ?rows"
    using assms(1) by (simp add: metered_mem.in_step_def host_vol_use_def vs_get_def map_of_map option.map_comp comp_def fun_eq_iff)
  then have "total (th_volume_charges th) r = total ?rows r"
    using booksD(4) [OF assms(2)] wf by (intro total_eq)
  then show ?thesis using vm
    by (simp add: recorded_def total_slot_rows host_uses_def vs_list_def map_values_def)
       (simp add: total_def comp_def case_prod_beta)
qed

text \<open>A wrapper fresh from its constructor, over an empty host.\<close>

lemma metering_new:
  assumes "store_inv st" "chain_from st tid = Ok chain" "finite_quotas st" "n < 2 ^ 64" "\<And>l. a = Some l \<Longrightarrow> l = log"
  shows "metered_mem.metering n st chain log
    ((tenant_vm_host_new tid st (host_with_caps caps mem_vm_host_new))\<lparr>th_audit := a, th_audit_user := u\<rparr>)"
proof -
  have "host_steps_left n (host_with_caps caps mem_vm_host_new)"
    using assms(4) new_counters by (auto simp: host_steps_left_def host_with_caps_def mem_vm_host_new_def vault_inv_new
      intro!: exI [of _ 0])
  then show ?thesis
    using assms(1-3,5)
    by (auto simp: metered_mem.metering_def metered_mem.in_step_def books_def billable_def booked_def recorded_def total_def
        tenant_vm_host_new_def hm_wf_def billed_def credited_def host_vm_use_def host_vol_use_def host_with_caps_def
        mem_vm_host_new_def vs_get_def mem_volume_store_new_def fun_eq_iff)
qed

definition metered_run ::
  "(nat \<Rightarrow> u64) \<Rightarrow> capabilities \<Rightarrow> mem_audit_sink option \<Rightarrow> string option \<Rightarrow> tenant_id \<Rightarrow> store_state \<Rightarrow> th_cmd list \<Rightarrow>
   mem_vm_host tenant_vm_host" where
  "metered_run clk caps a u tid st cmds = th_run mem_vm_host_dyn clk
     ((tenant_vm_host_new tid st (host_with_caps caps mem_vm_host_new))\<lparr>th_audit := a, th_audit_user := u\<rparr>) cmds"

lemma metered_run_metering:
  assumes "chain_from (store_run argon ht setup) tid = Ok chain"
    and "\<And>t. t \<in> set (st_list (store_run argon ht setup)) \<Longrightarrow> quotas_finite (tn_quotas t)"
    and "length cmds < 2 ^ 64" "\<And>l. a = Some l \<Longrightarrow> l = log"
  shows "metered_mem.metering 0 (store_run argon ht setup) chain log (metered_run clk caps a u tid (store_run argon ht setup) cmds)"
proof -
  have inv: "store_inv (store_run argon ht setup)" by (rule store_run_inv)
  have "finite_quotas (store_run argon ht setup)"
    using assms(2) hm.value_iff [OF store_invD(1) [OF inv]] by (auto simp: finite_quotas_def st_list_def)
  from metering_new [OF inv assms(1) this, of "0 + length cmds" a log] assms(3,4) metered_mem.run_metering
  show ?thesis by (simp add: metered_run_def)
qed

lemma handle_refused:
  assumes "books st0 chain log0 charge_default th" "th_handle ops clk th op = (th', Err e)"
    and "\<And>h'. vh_handle ops (th_inner th) op = (h', Err e) \<Longrightarrow> h' = th_inner th"
  shows "\<exists>evs. th' = th\<lparr>th_audit := map_option (\<lambda>l. l @ evs) (th_audit th)\<rparr> \<and> evs \<noteq> [] \<and>
    ae_action (last evs) = ActDeny \<and> \<not> ae_success (last evs)"
proof -
  obtain th1 b where bill: "th_bill clk th op = (th1, b)" by (cases "th_bill clk th op")
  note bb = bill_books [OF assms(1), of clk op, unfolded bill fst_conv snd_conv]
  have emit: "th_emit t ev = t\<lparr>th_audit := map_option (\<lambda>l. l @ [ev]) (th_audit t)\<rparr>" for t :: "'a tenant_vm_host" and ev
    by (simp add: th_emit_def mas_record_def [abs_def])
  show ?thesis
  proof (cases b)
    case (Err x)
    with bb assms(2) obtain ev where "th' = th_emit th ev" "ae_action ev = ActDeny" "\<not> ae_success ev"
      by (auto simp: th_handle_eq bill)
    then show ?thesis by (intro exI [of _ "[ev]"]) (simp add: emit)
  next
    case (Ok x)
    obtain h rep where h: "vh_handle ops (th_inner th1) op = (h, rep)" by (cases "vh_handle ops (th_inner th1) op")
    have in1: "th_inner th1 = th_inner th" using bill_fields(3) [of clk th op] by (simp add: bill)
    from assms(2) have rep: "rep = Err e" and th': "th' = th_settle clk (th1\<lparr>th_inner := h\<rparr>) op rep"
      by (auto simp: th_handle_eq bill Ok h)
    have same: "th1\<lparr>th_inner := h\<rparr> = th1" using assms(3) h rep in1 by simp
    show ?thesis
    proof (cases "charge_for op = None \<or> charge_for op = Some charge_default")
      case True
      with bill have "th1 = th" by (auto simp: th_bill_def)
      with True same th' rep show ?thesis
        by (auto simp: th_settle_def th_reconcile_def th_refund_deleted_def th_deny_def emit event_defs event_template_def)
    next
      case False
      then obtain c where c: "charge_for op = Some c" "c \<noteq> charge_default" by auto
      obtain st y where ch: "st_charge (th_store th) (th_tenant th) c = (st, y)" by (cases "st_charge (th_store th) (th_tenant th) c")
      with bill Ok c obtain u' where u': "y = Ok u'" and th1: "th1 = th_emit (th\<lparr>th_store := st\<rparr>)
          (with_charge c (with_op_tag (op_tag op) (event_template clk th ActCharge)))"
        by (cases y) (auto simp: th_bill_def)
      have "store_inv (th_store th)" "finite_quotas (th_store th)"
        using booksD(1) [OF assms(1)] by (simp_all add: billable_def)
      then have "fst (st_release st (th_tenant th) c) = th_store th"
        using ch u' by (intro charge_release_cancel) (auto simp: finite_quotas_def)
      then show ?thesis
        unfolding th' same rep using c
        by (simp add: th_settle_def th_reconcile_def th_refund_deleted_def th_deny_def th1 emit option.map_comp comp_def)
           (intro exI conjI, rule refl, simp_all add: event_defs)
    qed
  qed
qed


subsection \<open>Properties\<close>

lemma metering_books:
  assumes "metered_mem.metering n st0 chain log0 th"
  shows "books st0 chain log0 charge_default th" "recorded th r = host_uses (th_inner th) r"
  using assms recorded_host unfolding metered_mem.metering_def by blast+


definition demo_ops :: "th_cmd list" where
  "demo_ops = [ThSnapshot ''n'', ThHandle (VmCreate ''web'' RestartNever None (Some 2) (Some 64) None),
     ThHandle (CreateVolume ''d'' 16), ThHandle (VmCreate ''big'' RestartNever None (Some 9) None None)]"

lemmas runtime_eval = metered_run_def th_run_def tenant_vm_host_new_def th_snapshot_def th_handle_def th_bill_def th_reconcile_def
  th_refund_deleted_def th_deny_def th_release_def th_emit_def mas_record_def event_template_def event_defs mem_vm_host_dyn_def charge_default_def

lemma demo_uses:
  "host_uses (th_inner (metered_run clk CAP_ALL a u 1 (store_run argon ht demo_setup) demo_ops)) Vcpus = 2"
  by (simp add: demo_ops_def runtime_eval store_eval charge_eval host_eval vault_eval host_snapshot_def remember_owner_def host_with_caps_def
     host_uses_def slot_charge_def volume_charge_def vs_list_def map_values_def)





end
