(* ===== verification/Tenant_Exec.thy ===== *)
theory Tenant_Exec
  imports Tenant_Runtime
begin

text \<open>
  One-shot execution of an operation on behalf of a tenant (\<^verbatim>\<open>celtenancy/src/exec.rs\<close>): an empty
  host with the tenant's or user's capabilities, wrapped for metering, serves one operation; the
  charge stays in the real store unless a dry run gives it back. The derived \<^verbatim>\<open>Debug\<close> form of the
  replies that \<^verbatim>\<open>reply_summary\<close> does not name is an argument; state tags are plain ASCII words, which
  \<^verbatim>\<open>Debug\<close> only quotes.
\<close>

subsection \<open>Options and report\<close>

record exec_options =
  xo_release_after_create :: bool
  xo_node :: "string option"
  xo_audit :: "mem_audit_sink option"

record exec_audit =
  xa_tenant :: string
  xa_user :: "string option"
  xa_op :: string
  xa_op_capability_tag :: string
  xa_effective_caps :: string
  xa_planned_charge :: "quota_charge option"
  xa_dispatch_succeeded :: bool
  xa_error :: "string option"
  xa_reply :: "string option"
  xa_usage_before :: quota_usage
  xa_usage_after :: quota_usage

definition xa_ok :: "exec_audit \<Rightarrow> bool" where
  "xa_ok a \<longleftrightarrow> xa_dispatch_succeeded a \<and> xa_error a = None"

definition vm_create_op :: "string \<Rightarrow> u32 \<Rightarrow> u64 \<Rightarrow> vm_op" where
  "vm_create_op label cpu_count memory = VmCreate label RestartNever None (Some cpu_count) (Some memory) None"

definition volume_create_op :: "string \<Rightarrow> u64 \<Rightarrow> vm_op" where
  "volume_create_op name size_bytes = CreateVolume name size_bytes"

definition reply_summary :: "(vm_op_reply \<Rightarrow> string) \<Rightarrow> vm_op_reply \<Rightarrow> string" where
  "reply_summary debug r =
     (case r of
        Created vm_id \<Rightarrow> ''Created vm_id='' @ show_word vm_id
      | Deleted vm_id \<Rightarrow> ''Deleted vm_id='' @ show_word vm_id
      | StateIs vm_id st \<Rightarrow> ''State vm_id='' @ show_word vm_id @ '' state='' @ debug_str st
      | Listed rows \<Rightarrow> ''Listed rows='' @ show_nat (length rows)
      | VolumeCreated v \<Rightarrow> ''VolumeCreated id='' @ vol_id v @ '' size='' @ show_word (vol_size v)
      | VolumeDeleted v \<Rightarrow> ''VolumeDeleted id='' @ v
      | VolumesListed vs \<Rightarrow> ''VolumesListed n='' @ show_nat (length vs)
      | NetworkCreated n \<Rightarrow> ''NetworkCreated id='' @ net_id n
      | NetworksListed ns \<Rightarrow> ''NetworksListed n='' @ show_nat (length ns)
      | other \<Rightarrow> debug other)"

fun op_summary :: "vm_op \<Rightarrow> string" where
  "op_summary (VmCreate _ _ _ _ _ _) = ''Create''"
| "op_summary (VmStart _) = ''Start''"
| "op_summary (VmStop _) = ''Stop''"
| "op_summary (VmDelete _) = ''Delete''"
| "op_summary VmList = ''List''"
| "op_summary (CreateVolume _ _) = ''CreateVolume''"
| "op_summary (DeleteVolume _) = ''DeleteVolume''"
| "op_summary ListVolumes = ''ListVolumes''"
| "op_summary (CreateNetwork _ _) = ''CreateNetwork''"
| "op_summary ListNetworks = ''ListNetworks''"
| "op_summary _ = ''Other''"

fun refund_for :: "vm_op \<Rightarrow> quota_charge option" where
  "refund_for (VmCreate _ _ _ cpu_count memory _) =
     Some (charge_default\<lparr>qc_vcpus := (case cpu_count of None \<Rightarrow> 0 | Some n \<Rightarrow> n),
                          qc_memory_mib := (case memory of None \<Rightarrow> 0 | Some n \<Rightarrow> n)\<rparr>)"
| "refund_for (CreateVolume _ size_bytes) = Some (charge_default\<lparr>qc_storage_bytes := size_bytes\<rparr>)"
| "refund_for _ = None"

definition effective_caps_for :: "tenant \<Rightarrow> string option \<Rightarrow> (capabilities \<times> string) cel_result" where
  "effective_caps_for t user =
     bind_result
       (case user of
          None \<Rightarrow> Ok (tn_root_caps t)
        | Some name \<Rightarrow> ok_or (Invalid ''tenancy: user unknown'') (map_option us_caps (List.find (\<lambda>u. us_name u = name) (tn_users t))))
       (\<lambda>caps. Ok (to_mesh_capabilities caps, to_tags caps))"

subsection \<open>The call\<close>

text \<open>The event that closes a trip, and the refund of a dry run.\<close>

definition log_event :: "audit_event \<Rightarrow> mem_audit_sink option \<Rightarrow> mem_audit_sink option" where
  "log_event e sink = map_option (mas_record e) sink"

definition clock_at :: "(nat \<Rightarrow> u64) \<Rightarrow> mem_audit_sink option \<Rightarrow> u64" where
  "clock_at clk sink = clk (case sink of None \<Rightarrow> 0 | Some s \<Rightarrow> length s)"

definition dry_run_refund ::
  "(nat \<Rightarrow> u64) \<Rightarrow> exec_options \<Rightarrow> bool \<Rightarrow> vm_op \<Rightarrow> tenant \<Rightarrow> string option \<Rightarrow> store_state \<Rightarrow> mem_audit_sink option \<Rightarrow>
   store_state \<times> mem_audit_sink option \<times> bool" where
  "dry_run_refund clk opts succeeded op t user st sink =
     (if xo_release_after_create opts \<and> succeeded then
        (case refund_for op of
           None \<Rightarrow> (st, sink, False)
         | Some c \<Rightarrow>
             if c = charge_default then (st, sink, False)
             else
               (case st_release st (tn_id t) c of
                  (st', Ok _) \<Rightarrow>
                    (st', log_event (with_note ''dry-run'' (with_charge c (with_op_tag (op_tag op) (with_user user
                            (audit_now (clock_at clk sink) (tn_name t) ActRelease))))) sink, True)
                | (st', Err _) \<Rightarrow> (st', sink, False)))
      else (st, sink, False))"

definition exec_event ::
  "u64 \<Rightarrow> tenant \<Rightarrow> string option \<Rightarrow> vm_op \<Rightarrow> string option \<Rightarrow> bool \<Rightarrow> string option \<Rightarrow> audit_event" where
  "exec_event clock t user op err released reply =
     (let ev = with_op_tag (op_tag op) (with_user user (audit_now clock (tn_name t) ActExec));
          ev = (case refund_for op of None \<Rightarrow> ev | Some c \<Rightarrow> with_charge c ev);
          ev = (case err of None \<Rightarrow> ev | Some m \<Rightarrow> with_error m ev);
          note = ''op='' @ op_summary op @ (if released then '' released=true'' else []) @
                 (case reply of None \<Rightarrow> [] | Some r \<Rightarrow> '' reply='' @ r)
      in with_note note ev)"

definition tenant_exec ::
  "(vm_op_reply \<Rightarrow> string) \<Rightarrow> (nat \<Rightarrow> u64) \<Rightarrow> store_state \<Rightarrow> string \<Rightarrow> string option \<Rightarrow> vm_op \<Rightarrow> exec_options \<Rightarrow>
   store_state \<times> mem_audit_sink option \<times> exec_audit cel_result" where
  "tenant_exec debug clk st tenant_name user op opts =
     (case st_get_by_name st tenant_name of
        Err e \<Rightarrow> (st, xo_audit opts, Err e)
      | Ok t \<Rightarrow>
     (case effective_caps_for t user of
        Err e \<Rightarrow> (st, xo_audit opts, Err e)
      | Ok (caps, cap_tags) \<Rightarrow>
     (case st_get st (tn_id t) of
        Err e \<Rightarrow> (st, xo_audit opts, Err e)
      | Ok t0 \<Rightarrow>
     (let host = tenant_vm_host_new (tn_id t) st (host_with_caps caps mem_vm_host_new);
          host = host\<lparr>th_audit := xo_audit opts,
                      th_audit_user := (if xo_audit opts = None then None else user)\<rparr>;
          host = fst (th_snapshot mem_vm_host_dyn host (case xo_node opts of None \<Rightarrow> ''tenant-exec'' | Some n \<Rightarrow> n));
          (host', result) = th_handle mem_vm_host_dyn clk host op;
          reply = (case result of Ok r \<Rightarrow> Some (reply_summary debug r) | Err _ \<Rightarrow> None);
          err = (case result of Ok _ \<Rightarrow> None | Err m \<Rightarrow> Some m);
          (st', sink, released) = dry_run_refund clk opts (is_ok result) op t user (th_store host') (th_audit host')
      in case st_get st' (tn_id t) of
           Err e \<Rightarrow> (st', sink, Err e)
         | Ok t1 \<Rightarrow>
             (st', log_event (exec_event (clock_at clk sink) t user op err released reply) sink,
              Ok \<lparr>xa_tenant = tn_name t, xa_user = user, xa_op = op_summary op, xa_op_capability_tag = op_tag op,
                  xa_effective_caps = cap_tags, xa_planned_charge = refund_for op, xa_dispatch_succeeded = is_ok result,
                  xa_error = err, xa_reply = reply, xa_usage_before = tn_usage t0, xa_usage_after = tn_usage t1\<rparr>)))))"

subsection \<open>What a trip does to the store\<close>

lemma refund_is_charge: "refund_for op = charge_for op"
  by (cases op) simp_all

lemma emit_store_only: "th_store (th_deny clk th op rep) = th_store th"
  by (simp add: th_deny_def split: result.split)

lemma fresh_accepted:
  assumes "th_vm_charges th = []" "th_volume_charges th = []" "th_handle ops clk th op = (th', Ok rep)"
  shows "th_store th' = th_store th \<and> (charge_for op = None \<or> charge_for op = Some charge_default) \<or>
    (\<exists>c u. charge_for op = Some c \<and> c \<noteq> charge_default \<and> st_charge (th_store th) (th_tenant th) c = (th_store th', Ok u))"
proof -
  obtain th1 b where bill: "th_bill clk th op = (th1, b)" by (cases "th_bill clk th op")
  with assms(3) obtain x where b: "b = Ok x" by (cases b) (simp_all add: th_handle_eq)
  define th2 where "th2 = th1\<lparr>th_inner := fst (vh_handle ops (th_inner th1) op)\<rparr>"
  have th': "th' = th_settle clk th2 op (Ok rep)"
    using assms(3) by (auto simp: th_handle_eq bill b th2_def)
  have "th_vm_charges th2 = []" "th_volume_charges th2 = []"
    using bill_fields(1,2) [of clk th op] assms(1,2) by (simp_all add: th2_def bill)
  then have "th_store th' = th_store th1"
    by (cases op) (simp_all add: th' th_settle_def emit_store_only th_reconcile_def th_refund_deleted_def th2_def
        split: vm_op_reply.split)
  with bill b show ?thesis
    by (auto simp: th_bill_def split: option.splits if_splits prod.splits result.splits)
qed

text \<open>The wrapper a trip starts from.\<close>

definition exec_host :: "store_state \<Rightarrow> tenant \<Rightarrow> capabilities \<Rightarrow> string option \<Rightarrow> exec_options \<Rightarrow> mem_vm_host tenant_vm_host" where
  "exec_host st t caps user opts = fst (th_snapshot mem_vm_host_dyn
     ((tenant_vm_host_new (tn_id t) st (host_with_caps caps mem_vm_host_new))
        \<lparr>th_audit := xo_audit opts, th_audit_user := (if xo_audit opts = None then None else user)\<rparr>)
     (case xo_node opts of None \<Rightarrow> ''tenant-exec'' | Some n \<Rightarrow> n))"

lemma exec_host_fields [simp]:
  "th_vm_charges (exec_host st t caps user opts) = []" "th_volume_charges (exec_host st t caps user opts) = []"
  "th_store (exec_host st t caps user opts) = st" "th_tenant (exec_host st t caps user opts) = tn_id t"
  "mh_caps (th_inner (exec_host st t caps user opts)) = caps"
  by (simp_all add: exec_host_def th_snapshot_def tenant_vm_host_new_def mem_vm_host_dyn_def host_with_caps_def
      host_snapshot_def remember_owner_def mem_vm_host_new_def Let_def)

lemma fresh_refused:
  assumes "store_inv (th_store th)" "finite_quotas (th_store th)" "th_handle ops clk th op = (th', Err e)"
  shows "th_store th' = th_store th"
proof -
  obtain th1 b where bill: "th_bill clk th op = (th1, b)" by (cases "th_bill clk th op")
  show ?thesis
  proof (cases "charge_for op = None \<or> charge_for op = Some charge_default")
    case True
    with bill have "th1 = th" "b = Ok ()" by (auto simp: th_bill_def)
    with True assms(3) show ?thesis
      by (auto simp: th_handle_eq bill th_settle_def emit_store_only th_reconcile_def th_refund_deleted_def)
  next
    case False
    then obtain c where c: "charge_for op = Some c" "c \<noteq> charge_default" by auto
    obtain st y where ch: "st_charge (th_store th) (th_tenant th) c = (st, y)" by (cases "st_charge (th_store th) (th_tenant th) c")
    show ?thesis
    proof (cases y)
      case (Err z)
      with st_charge_Err [OF assms(1)] ch have "st = th_store th" by blast
      with c ch Err assms(3) show ?thesis by (auto simp: th_handle_eq th_bill_def)
    next
      case (Ok u)
      with ch assms(1,2) have "fst (st_release st (th_tenant th) c) = th_store th"
        by (intro charge_release_cancel) (auto simp: finite_quotas_def)
      with c ch Ok assms(3) show ?thesis
        by (auto simp: th_handle_eq th_bill_def th_settle_def emit_store_only th_reconcile_def th_refund_deleted_def)
    qed
  qed
qed

lemma accepted_capability:
  "th_handle mem_vm_host_dyn clk th op = (th', Ok rep) \<Longrightarrow> cap_contains (mh_caps (th_inner th)) (cap_required op)"
  by (cases "th_bill clk th op"; use bill_fields(3) [of clk th op] in
      \<open>auto simp: th_handle_eq mem_vm_host_dyn_def host_apply_def split: result.splits if_splits\<close>)

lemma charge_usage:
  assumes "store_inv st" "st_charge st tid c = (st', Ok u)" "st_get st' tid = Ok t"
  shows "u = tn_usage t"
  by (rule st_charge_Ok [OF assms(1,2)]) (use assms(3) in \<open>simp add: usage_of_def st_get_Ok\<close>)

text \<open>The store after the operation, and after the dry-run refund.\<close>

definition trip :: "store_state \<Rightarrow> tenant_id \<Rightarrow> vm_op \<Rightarrow> bool \<Rightarrow> bool \<Rightarrow> store_state \<Rightarrow> bool" where
  "trip st tid op succeeded dry st' \<longleftrightarrow>
     (if \<not> succeeded \<or> dry \<or> charge_for op = None \<or> charge_for op = Some charge_default then st' = st
      else \<exists>u. st_charge st tid (the (charge_for op)) = (st', Ok u))"

lemma exec_trip:
  assumes "store_inv st" "finite_quotas st"
    and "th_handle mem_vm_host_dyn clk (exec_host st t caps user opts) op = (host', rep)"
    and "dry_run_refund clk opts (is_ok rep) op t user (th_store host') (th_audit host') = (st', sink, rel)"
  shows "trip st (tn_id t) op (is_ok rep) (xo_release_after_create opts) st'"
proof (cases rep)
  case (Err e)
  with fresh_refused [of "exec_host st t caps user opts"] assms show ?thesis by (simp add: trip_def dry_run_refund_def)
next
  case (Ok r)
  note acc = fresh_accepted [of "exec_host st t caps user opts", simplified, OF assms(3) [unfolded Ok]]
  show ?thesis
  proof (cases "charge_for op = None \<or> charge_for op = Some charge_default")
    case True
    with acc Ok assms(4) show ?thesis
      by (auto simp: trip_def dry_run_refund_def refund_is_charge split: if_splits)
  next
    case False
    with acc obtain c u where c: "charge_for op = Some c" "c \<noteq> charge_default"
      "st_charge st (tn_id t) c = (th_store host', Ok u)" by auto
    have rel: "fst (st_release (th_store host') (tn_id t) c) = st"
      using assms(1,2) c(3) by (intro charge_release_cancel) (auto simp: finite_quotas_def)
    with c Ok assms(4) show ?thesis
      by (auto simp: trip_def dry_run_refund_def refund_is_charge split: if_splits prod.splits result.splits)
  qed
qed

lemma trip_tenants:
  assumes "store_inv st" "trip st tid op s d st'" "st_get st tid = Ok t"
  shows "\<exists>t'. st_get st' tid = Ok t'"
proof -
  have "\<exists>t'. st_get st' tid = Ok t'" if "st_charge st tid c = (st', Ok u)" for c u
    by (rule st_charge_Ok [OF assms(1) that]) (use assms(3) in \<open>simp add: st_get_Ok map_of_on_chain\<close>)
  with assms(2,3) show ?thesis by (auto simp: trip_def split: if_splits)
qed

lemma tenant_exec_eq:
  assumes "st_get_by_name st name = Ok t" "effective_caps_for t user = Ok (caps, tags)" "st_get st (tn_id t) = Ok t0"
    and "th_handle mem_vm_host_dyn clk (exec_host st t caps user opts) op = (host', rep)"
    and "dry_run_refund clk opts (is_ok rep) op t user (th_store host') (th_audit host') = (st', sink, rel)"
    and "st_get st' (tn_id t) = Ok t1"
  shows "\<exists>sink' a. tenant_exec debug clk st name user op opts = (st', sink', Ok a) \<and> xa_dispatch_succeeded a = is_ok rep \<and>
    xa_planned_charge a = refund_for op \<and> xa_usage_before a = tn_usage t0 \<and> xa_usage_after a = tn_usage t1 \<and>
    xa_effective_caps a = tags"
  using assms(4) unfolding exec_host_def
  by (simp add: tenant_exec_def assms(1-3,5,6) Let_def)

lemma exec_account:
  assumes "store_inv st" "finite_quotas st" "tenant_exec debug clk st name user op opts = (st', sink, r)"
  shows "(\<forall>e. r = Err e \<longrightarrow> st' = st \<and>
      (st_get_by_name st name = Err e \<or>
       (\<exists>t. st_get_by_name st name = Ok t \<and> effective_caps_for t user = Err e))) \<and>
    (\<forall>a. r = Ok a \<longrightarrow> (\<exists>t t' caps. st_get_by_name st name = Ok t \<and>
      effective_caps_for t user = Ok (caps, xa_effective_caps a) \<and>
      (xa_dispatch_succeeded a \<longrightarrow> cap_contains caps (cap_required op)) \<and>
      xa_usage_before a = tn_usage t \<and> st_get st' (tn_id t) = Ok t' \<and> xa_usage_after a = tn_usage t' \<and>
      trip st (tn_id t) op (xa_dispatch_succeeded a) (xo_release_after_create opts) st'))"
proof (cases "st_get_by_name st name")
  case (Err e)
  with assms(3) show ?thesis by (auto simp: tenant_exec_def)
next
  case t: (Ok t)
  then have get: "st_get st (tn_id t) = Ok t"
    using store_inv_keyed [OF assms(1)] by (auto simp: st_get_by_name_def bind_result_eq_Ok st_get_Ok keyed_def)
  show ?thesis
  proof (cases "effective_caps_for t user")
    case (Err e)
    with t assms(3) show ?thesis by (auto simp: tenant_exec_def)
  next
    case (Ok ct)
    obtain caps tags where ct: "ct = (caps, tags)" by (cases ct)
    obtain host' rep where h: "th_handle mem_vm_host_dyn clk (exec_host st t caps user opts) op = (host', rep)"
      by (cases "th_handle mem_vm_host_dyn clk (exec_host st t caps user opts) op")
    obtain st2 sink2 rel where d: "dry_run_refund clk opts (is_ok rep) op t user (th_store host') (th_audit host') = (st2, sink2, rel)"
      by (cases "dry_run_refund clk opts (is_ok rep) op t user (th_store host') (th_audit host')")
    note tr = exec_trip [OF assms(1,2) h d]
    from trip_tenants [OF assms(1) tr get] obtain t1 where t1: "st_get st2 (tn_id t) = Ok t1" by blast
    have "is_ok rep \<Longrightarrow> cap_contains caps (cap_required op)"
      using accepted_capability [of clk "exec_host st t caps user opts" op host'] h by (auto simp: is_ok_iff)
    with tenant_exec_eq [OF t Ok [unfolded ct] get h d t1, of debug] assms(3) t t1 Ok ct tr show ?thesis by auto
  qed
qed

subsection \<open>Property\<close>


lemma mesh_all: "to_mesh_capabilities TC_ALL = CAP_ALL"
  by (simp add: to_mesh_capabilities_def grant_if_def cap_grant_def tc_contains_def TC_ALL_def tc_bit_defs CAP_ALL_def cap_bit_defs CAP_NONE_def)

lemma demo_exec:
  fixes argon ht
  defines "st \<equiv> store_run argon ht demo_setup"
  obtains t where "st_get_by_name st ''a'' = Ok t" "st_get st (tn_id t) = Ok t" "tn_id t = 1" "tn_root_caps t = TC_ALL"
  by (simp add: st_def st_get_by_name_def store_eval)

lemma demo_handle:
  assumes "tn_id t = 1" "tn_root_caps t = TC_ALL"
  shows "\<exists>h'. th_handle mem_vm_host_dyn clk (exec_host (store_run argon ht demo_setup) t CAP_ALL None
      \<lparr>xo_release_after_create = d, xo_node = None, xo_audit = None\<rparr>) (vm_create_op ''v'' 2 64) = (h', Ok (Created 0))"
  by (simp add: exec_host_def vm_create_op_def assms runtime_eval store_eval charge_eval host_eval vault_eval host_snapshot_def
      remember_owner_def host_with_caps_def)

end
