(* ===== verification/Mesh_Runs.thy ===== *)
theory Mesh_Runs
  imports Mesh
begin

text \<open>
  Runs of mesh nodes: sequences of handler calls on one node, and clusters of nodes that exchange
  frames over a network that may lose, duplicate, delay and reorder them. Shown here: a node's
  bookkeeping invariant, that VM rows are written by their owner alone and never twice under one
  stamp, and that the supervisor's recovery pass is complete and idempotent.
\<close>

subsection \<open>Commands of a node\<close>

datatype 'h mesh_cmd =
    CGossip
  | CJoin string
  | CListVms
  | CPublish "remote_vm list"
  | CInvoke node_id vm_op
  | CInvokePath string vm_op
  | CInvokeEnd u64 wait_end
  | CSupervise
  | CShutdown
  | CSetHost 'h
  | CDeliver envelope string

fun mesh_exec :: "transport \<Rightarrow> instant \<Rightarrow> 'h vm_host \<Rightarrow> 'h mesh \<Rightarrow> 'h mesh_cmd \<Rightarrow> 'h mesh \<times> frames" where
  "mesh_exec ship now ops m CGossip = gossiper_step ship now m"
| "mesh_exec ship now ops m (CJoin addr) = (case mesh_join ship m addr of (m', outs, _) \<Rightarrow> (m', outs))"
| "mesh_exec ship now ops m CListVms = (fst (mesh_list_vms m), [])"
| "mesh_exec ship now ops m (CPublish rows) = publish_local_vms ship now m rows"
| "mesh_exec ship now ops m (CInvoke target op) = (case mesh_invoke ship now ops m target op of (m', outs, _) \<Rightarrow> (m', outs))"
| "mesh_exec ship now ops m (CInvokePath path op) =
     (case mesh_invoke_path ship now ops m path op of (m', outs, _) \<Rightarrow> (m', outs))"
| "mesh_exec ship now ops m (CInvokeEnd req w) = (fst (mesh_invoke_end m req w), [])"
| "mesh_exec ship now ops m CSupervise = (case run_supervisor_step ship now ops m of (m', outs, _) \<Rightarrow> (m', outs))"
| "mesh_exec ship now ops m CShutdown = mesh_shutdown m"
| "mesh_exec ship now ops m (CSetHost h) = (mesh_set_host ops m h, [])"
| "mesh_exec ship now ops m (CDeliver env src) = handle_envelope ship now ops m env src"

subsection \<open>What a handler does to the VM rows\<close>

text \<open>
  \<open>mesh_ok\<close> ties the parts of a node together: all three name the same node, every table is keyed
  by what its rows say, and the node's own row is there.
\<close>

definition member_ok :: "node_id \<Rightarrow> membership \<Rightarrow> bool" where
  "member_ok self mb \<longleftrightarrow>
     mb_self_id mb = self \<and> bt_wf (mb_rows mb) \<and> (\<forall>k r. mb_get mb k = Some r \<longrightarrow> ni_id r = k) \<and>
     (\<exists>r. mb_get mb self = Some r \<and> ni_status r = NodeAlive)"

definition mesh_ok :: "'h mesh \<Rightarrow> bool" where
  "mesh_ok m \<longleftrightarrow>
     fd_self_id (in_federation (me_inner m)) = mesh_self_id m \<and> fed_keyed (in_federation (me_inner m)) \<and>
     member_ok (mesh_self_id m) (in_membership (me_inner m))"

lemma member_ok_exec:
  assumes "member_ok self mb"
  shows "member_ok self (mb_exec mb c)"
proof -
  obtain r where r: "mb_get mb (mb_self_id mb) = Some r" "ni_status r = NodeAlive" and self: "mb_self_id mb = self"
    using assms by (auto simp: member_ok_def)
  have "\<exists>r. mb_get (mb_exec mb c) self = Some r \<and> ni_status r = NodeAlive"
    using own_exec [OF r(1), of c] r(2) self by (cases c) auto
  moreover have "bt_wf (mb_rows (mb_exec mb c))"
    using assms by (cases c) (auto simp: member_ok_def mb_rows_merge rows_merge_def mb_rows_tick bt_wf_map_values
      mb_mark_left_def mb_bump_self_def)
  moreover have "ni_id x = k" if "mb_get (mb_exec mb c) k = Some x" for k x
  proof (cases c)
    case (MTick now)
    then show ?thesis using that assms by (auto simp: mb_get_tick member_ok_def ticked_def)
  qed (use that assms in \<open>auto simp: member_ok_def mb_get_def mb_rows_merge rows_merge_def map_simps
      mb_mark_left_def mb_bump_self_def split: if_splits\<close>)
  ultimately show ?thesis using assms by (simp add: member_ok_def)
qed

lemma member_ok_merge_nodes: "member_ok self mb \<Longrightarrow> member_ok self (merge_nodes now mb ns)"
proof (induction ns arbitrary: mb)
  case (Cons n ns)
  then show ?case using member_ok_exec [of self mb "MMerge now n"] by simp
qed simp

definition stored_rows :: "'h mesh \<Rightarrow> remote_vm set" where
  "stored_rows m = row_data ` {r. \<exists>k. map_of (fd_rows (in_federation (me_inner m))) k = Some r}"

fun payload_rows :: "payload \<Rightarrow> remote_vm set" where
  "payload_rows (Sync nodes vms) = row_data ` set vms"
| "payload_rows _ = {}"

definition frame_rows :: "frames \<Rightarrow> remote_vm set" where
  "frame_rows outs = (\<Union>f \<in> set outs. payload_rows (env_payload (snd f)))"

definition mesh_stamp :: "'h mesh \<Rightarrow> stamp" where
  "mesh_stamp m = (mc_epoch (in_config (me_inner m)), in_hlc (me_inner m))"

text \<open>
  \<open>evolves I m m' outs\<close>: from \<open>m\<close> to \<open>m'\<close>, with frames \<open>outs\<close> sent and rows \<open>I\<close> received, every row
  now stored or sent was there before, was received, or is new - and a new row is the node's own,
  with a stamp between the old and the new clock, one row per VM and stamp.
\<close>

definition evolves :: "remote_vm set \<Rightarrow> 'h mesh \<Rightarrow> 'h mesh \<Rightarrow> frames \<Rightarrow> bool" where
  "evolves I m m' outs \<longleftrightarrow>
     mesh_ok m' \<and> in_config (me_inner m') = in_config (me_inner m) \<and> in_hlc (me_inner m) \<le> in_hlc (me_inner m') \<and>
     (in_hlc (me_inner m') \<noteq> - 1 \<longrightarrow>
        (\<exists>N. stored_rows m' \<union> frame_rows outs \<subseteq> stored_rows m \<union> I \<union> N \<and>
           (\<forall>r \<in> N. rv_owner r = mesh_self_id m \<and> mesh_stamp m < vm_stamp r \<and> vm_stamp r \<le> mesh_stamp m') \<and>
           single_writer remote_vm_key vm_stamp N))"

lemma frame_rows_simps [simp]:
  "frame_rows [] = {}" "frame_rows (xs @ ys) = frame_rows xs \<union> frame_rows ys"
  "frame_rows (f # fs) = payload_rows (env_payload (snd f)) \<union> frame_rows fs"
  by (auto simp: frame_rows_def)

lemma hlc_max: "h \<noteq> - 1" if "h \<le> h'" "h' \<noteq> (- 1 :: u64)"
  using that by (metis word_order.extremum_unique)

lemma single_writer_union:
  assumes "single_writer key st A" "single_writer key st B"
    and "\<And>a b. a \<in> A \<Longrightarrow> b \<in> B \<Longrightarrow> key a = key b \<Longrightarrow> st a = st b \<Longrightarrow> a = b"
  shows "single_writer key st (A \<union> B)"
  using assms unfolding single_writer_def by (metis Un_iff)

lemma single_writer_mono: "single_writer key st B \<Longrightarrow> A \<subseteq> B \<Longrightarrow> single_writer key st A"
  by (auto simp: single_writer_def)

lemma evolves_trans:
  assumes "evolves I m m1 o1" "evolves I m1 m2 o2"
  shows "evolves I m m2 (o1 @ o2)"
proof -
  note a = assms(1)[unfolded evolves_def] and b = assms(2)[unfolded evolves_def]
  have self: "mesh_self_id m1 = mesh_self_id m" using a by (simp add: mesh_self_id_def)
  have le: "mesh_stamp m \<le> mesh_stamp m1" "mesh_stamp m1 \<le> mesh_stamp m2"
    using a b by (auto simp: mesh_stamp_def less_eq_prod_def)
  have "\<exists>N. stored_rows m2 \<union> frame_rows (o1 @ o2) \<subseteq> stored_rows m \<union> I \<union> N \<and>
      (\<forall>r \<in> N. rv_owner r = mesh_self_id m \<and> mesh_stamp m < vm_stamp r \<and> vm_stamp r \<le> mesh_stamp m2) \<and>
      single_writer remote_vm_key vm_stamp N" if mx: "in_hlc (me_inner m2) \<noteq> - 1"
  proof -
    have "in_hlc (me_inner m1) \<noteq> - 1" using hlc_max b mx by blast
    then obtain N1 where N1: "stored_rows m1 \<union> frame_rows o1 \<subseteq> stored_rows m \<union> I \<union> N1"
      "\<And>r. r \<in> N1 \<Longrightarrow> rv_owner r = mesh_self_id m \<and> mesh_stamp m < vm_stamp r \<and> vm_stamp r \<le> mesh_stamp m1"
      "single_writer remote_vm_key vm_stamp N1" using a by blast
    obtain N2 where N2: "stored_rows m2 \<union> frame_rows o2 \<subseteq> stored_rows m1 \<union> I \<union> N2"
      "\<And>r. r \<in> N2 \<Longrightarrow> rv_owner r = mesh_self_id m1 \<and> mesh_stamp m1 < vm_stamp r \<and> vm_stamp r \<le> mesh_stamp m2"
      "single_writer remote_vm_key vm_stamp N2" using b mx by blast
    have "vm_stamp x \<noteq> vm_stamp y" if "x \<in> N1" "y \<in> N2" for x y
      using N1(2) [OF that(1)] N2(2) [OF that(2)] by auto
    then have "single_writer remote_vm_key vm_stamp (N1 \<union> N2)"
      using N1(3) N2(3) by (intro single_writer_union) auto
    moreover have "rv_owner r = mesh_self_id m \<and> mesh_stamp m < vm_stamp r \<and> vm_stamp r \<le> mesh_stamp m2"
      if "r \<in> N1 \<union> N2" for r
    proof (cases "r \<in> N1")
      case True
      then show ?thesis using N1(2) [OF True] order_trans [OF _ le(2), of "vm_stamp r"] by simp
    next
      case False
      then have "r \<in> N2" using that by simp
      then show ?thesis using N2(2) [of r] self le_less_trans [OF le(1), of "vm_stamp r"] by simp
    qed
    ultimately show ?thesis using N1(1) N2(1) by (intro exI [of _ "N1 \<union> N2"]) auto
  qed
  moreover have "in_hlc (me_inner m) \<le> in_hlc (me_inner m2)"
    using a b order_trans [of "in_hlc (me_inner m)" "in_hlc (me_inner m1)" "in_hlc (me_inner m2)"] by simp
  ultimately show ?thesis using a b unfolding evolves_def by simp
qed

lemma evolves_plain:
  assumes "mesh_ok m'" "in_config (me_inner m') = in_config (me_inner m)" "in_hlc (me_inner m) \<le> in_hlc (me_inner m')"
    and "stored_rows m' \<subseteq> stored_rows m \<union> I" "frame_rows outs \<subseteq> stored_rows m \<union> I"
  shows "evolves I m m' outs"
  using assms unfolding evolves_def by (intro conjI impI exI [of _ "{}"]) (auto simp: single_writer_def)

text \<open>Changing only the clock upwards, the known addresses, the host, the calls or the metrics.\<close>

definition same_tables :: "'h mesh \<Rightarrow> 'h mesh \<Rightarrow> bool" where
  "same_tables m m' \<longleftrightarrow>
     in_config (me_inner m') = in_config (me_inner m) \<and> in_membership (me_inner m') = in_membership (me_inner m) \<and>
     in_federation (me_inner m') = in_federation (me_inner m) \<and> in_hlc (me_inner m) \<le> in_hlc (me_inner m')"

lemma same_tables_ok: "same_tables m m' \<Longrightarrow> mesh_ok m' = mesh_ok m \<and> stored_rows m' = stored_rows m"
  by (simp add: same_tables_def mesh_ok_def stored_rows_def mesh_self_id_def)

lemma evolves_same_tables:
  "mesh_ok m \<Longrightarrow> same_tables m m' \<Longrightarrow> frame_rows outs \<subseteq> stored_rows m \<Longrightarrow> evolves I m m' outs"
  by (rule evolves_plain) (use same_tables_ok [of m m'] in \<open>auto simp: same_tables_def\<close>)

lemma tick_hlc_simps [simp]:
  "in_config (tick_hlc g) = in_config g" "in_membership (tick_hlc g) = in_membership g"
  "in_federation (tick_hlc g) = in_federation g" "in_known (tick_hlc g) = in_known g" "in_hlc g \<le> in_hlc (tick_hlc g)"
  by (simp_all add: tick_hlc_def saturating_add_ge)

lemma count_sent_inner [simp]: "me_inner (count_sent r m) = me_inner m"
  by (simp add: count_sent_def)

lemma local_rows_stored: "row_data ` set (fed_local_rows (in_federation (me_inner m))) \<subseteq> stored_rows m" if "mesh_ok m"
  using that by (auto simp: fed_local_rows_def stored_rows_def mesh_ok_def fed_keyed_def bt.value_iff)

lemma send_hello_evolves:
  assumes "mesh_ok m" "send_hello ship m p = (m', outs, r)"
  shows "evolves I m m' outs"
  using assms by (intro evolves_same_tables)
    (auto simp: send_hello_def same_tables_def frame_def Let_def)

lemma send_sync_evolves:
  assumes "mesh_ok m" "send_sync ship m p = (m', outs, r)"
  shows "evolves I m m' outs"
  using assms local_rows_stored [OF assms(1)] by (intro evolves_same_tables)
    (auto simp: send_sync_def same_tables_def frame_def Let_def)

lemma evolves_ok: "evolves I m m' outs \<Longrightarrow> mesh_ok m'"
  by (simp add: evolves_def)

lemma send_all_evolves:
  assumes "\<And>m p m' outs r. mesh_ok m \<Longrightarrow> send1 m p = (m', outs, r) \<Longrightarrow> evolves I m m' outs"
    and "mesh_ok m" "send_all send1 m ps = (m', outs)"
  shows "evolves I m m' outs"
  using assms(2,3)
proof (induction ps arbitrary: m outs)
  case Nil
  then show ?case by (auto intro: evolves_same_tables simp: same_tables_def)
next
  case (Cons p ps)
  obtain m1 o1 r where s: "send1 m p = (m1, o1, r)" using prod_cases3 by blast
  obtain o2 where t: "send_all send1 m1 ps = (m', o2)" "outs = o1 @ o2"
    using Cons.prems(2) s by (auto split: prod.splits)
  have e: "evolves I m m1 o1" using assms(1) Cons.prems(1) s by blast
  from evolves_trans [OF e Cons.IH [OF evolves_ok [OF e] t(1)]] show ?case by (simp add: t(2))
qed

lemma mesh_ok_member:
  assumes "mesh_ok m" "member_ok (mesh_self_id m) mb" "in_config g = in_config (me_inner m)" "in_membership g = mb"
    and "in_federation g = in_federation (me_inner m)"
  shows "mesh_ok (m\<lparr>me_inner := g\<rparr>)" "stored_rows (m\<lparr>me_inner := g\<rparr>) = stored_rows m"
  using assms by (simp_all add: mesh_ok_def mesh_self_id_def stored_rows_def)

text \<open>Publishing stamps the node's rows with a clock no row has had before.\<close>

definition publish_core :: "instant \<Rightarrow> 'h mesh \<Rightarrow> remote_vm list \<Rightarrow> 'h mesh" where
  "publish_core now m rows =
     (let g = tick_hlc (me_inner m);
          rows = map (\<lambda>r. r\<lparr>rv_owner := mc_node_id (in_config g), rv_epoch := mc_epoch (in_config g),
                           rv_hlc := in_hlc g, rv_owner_alive := True\<rparr>) rows
      in m\<lparr>me_inner := g\<lparr>in_federation := fed_set_local (in_federation g) rows,
                         in_membership := mb_bump_self now (in_membership g) (in_hlc g)\<rparr>\<rparr>)"

lemma publish_local_vms_core:
  "publish_local_vms ship now m rows =
     send_all (send_sync ship) (publish_core now m rows) (sync_peers (in_membership (me_inner (publish_core now m rows))))"
  by (simp add: publish_local_vms_def publish_core_def Let_def)

lemma publish_core_ok:
  assumes "mesh_ok m"
  shows "mesh_ok (publish_core now m rows)"
  using assms member_ok_exec [of "mesh_self_id m" "in_membership (me_inner m)" "MBump now (in_hlc (tick_hlc (me_inner m)))"]
    fed_keyed_exec [of "in_federation (me_inner m)" "FSetLocal _"]
  by (simp add: mesh_ok_def publish_core_def mesh_self_id_def Let_def fed_set_local_def)

lemma publish_core_row:
  assumes "mesh_ok m" "map_of (fd_rows (in_federation (me_inner (publish_core now m rows)))) k = Some r"
  shows "(fst k \<noteq> mesh_self_id m \<and> map_of (fd_rows (in_federation (me_inner m))) k = Some r) \<or>
    (fst k = mesh_self_id m \<and> rv_owner r = mesh_self_id m \<and> vm_stamp r = mesh_stamp (publish_core now m rows))"
proof (cases "fst k = mesh_self_id m")
  case True
  then have k: "k = (mesh_self_id m, snd k)" by (simp add: prod_eq_iff)
  have fs: "fd_self_id (in_federation (me_inner m)) = mesh_self_id m" using assms(1) by (simp add: mesh_ok_def)
  let ?rows = "map (\<lambda>r. r\<lparr>rv_owner := mc_node_id (in_config (me_inner m)), rv_epoch := mc_epoch (in_config (me_inner m)),
    rv_hlc := in_hlc (tick_hlc (me_inner m)), rv_owner_alive := True\<rparr>) rows"
  have "map_of (rev (map (\<lambda>r. (rv_vm_id r, local_row (mesh_self_id m) r)) ?rows)) (snd k) = Some r"
    using assms(2) insert_local_own [of "mesh_self_id m" ?rows _ "snd k", folded k] True fs
    by (simp add: publish_core_def Let_def fed_set_local_def map_of_retain_key split: option.splits)
  then have "(snd k, r) \<in> set (rev (map (\<lambda>r. (rv_vm_id r, local_row (mesh_self_id m) r)) ?rows))" by (rule map_of_SomeD)
  then show ?thesis using True
    by (auto simp: local_row_def vm_stamp_def mesh_stamp_def publish_core_def Let_def)
next
  case False
  then show ?thesis using assms
    by (auto simp: publish_core_def Let_def fed_set_local_def insert_local_foreign map_of_retain_key mesh_ok_def)
qed

lemma publish_core_evolves:
  assumes "mesh_ok m"
  shows "evolves I m (publish_core now m rows) []"
proof -
  let ?m = "publish_core now m rows"
  define N where "N = row_data ` {r. \<exists>k. map_of (fd_rows (in_federation (me_inner ?m))) k = Some r \<and> fst k = mesh_self_id m}"
  have ok: "mesh_ok ?m" by (rule publish_core_ok [OF assms])
  have cfg: "in_config (me_inner ?m) = in_config (me_inner m)" "in_hlc (me_inner ?m) = saturating_add (in_hlc (me_inner m)) 1"
    by (simp_all add: publish_core_def Let_def tick_hlc_def)
  have sub: "stored_rows ?m \<subseteq> stored_rows m \<union> N"
    using publish_core_row [OF assms] by (fastforce simp: stored_rows_def N_def)
  have new: "rv_owner r = mesh_self_id m \<and> vm_stamp r = mesh_stamp ?m" if "r \<in> N" for r
    using that publish_core_row [OF assms] by (fastforce simp: N_def)
  have "mesh_stamp m < mesh_stamp ?m" if "in_hlc (me_inner ?m) \<noteq> - 1"
    using that next_gt [of "in_hlc (me_inner m)"] hlc_max [of "in_hlc (me_inner m)" "in_hlc (me_inner ?m)"]
    by (simp add: mesh_stamp_def cfg saturating_add_ge)
  moreover have "single_writer remote_vm_key vm_stamp N"
    using ok unfolding N_def single_writer_def mesh_ok_def fed_keyed_def by (auto simp del: split_paired_All split_paired_Ex)
  ultimately have "\<exists>N. stored_rows ?m \<union> frame_rows [] \<subseteq> stored_rows m \<union> I \<union> N \<and>
      (\<forall>r \<in> N. rv_owner r = mesh_self_id m \<and> mesh_stamp m < vm_stamp r \<and> vm_stamp r \<le> mesh_stamp ?m) \<and>
      single_writer remote_vm_key vm_stamp N" if "in_hlc (me_inner ?m) \<noteq> - 1"
    using that sub new by (intro exI [of _ N]) auto
  then show ?thesis unfolding evolves_def using ok cfg by (simp add: saturating_add_ge)
qed

lemma publish_evolves:
  assumes "mesh_ok m" "publish_local_vms ship now m rows = (m', outs)"
  shows "evolves I m m' outs"
proof -
  have e: "evolves I m (publish_core now m rows) []" by (rule publish_core_evolves [OF assms(1)])
  have "evolves I (publish_core now m rows) m' outs"
    using assms(2) unfolding publish_local_vms_core by (rule send_all_evolves [rotated 2]) (use evolves_ok [OF e] send_sync_evolves in blast)+
  from evolves_trans [OF e this] show ?thesis by simp
qed

lemma evolves_pre:
  assumes "mesh_ok m" "same_tables m m1" "mesh_ok m1 \<Longrightarrow> evolves I m1 m2 outs"
  shows "evolves I m m2 outs"
proof -
  have e: "evolves I m m1 []" by (rule evolves_same_tables [OF assms(1,2)]) simp
  from evolves_trans [OF e assms(3) [OF evolves_ok [OF e]]] show ?thesis by simp
qed

lemma republish_evolves:
  assumes "mesh_ok m" "republish_after_op ship now ops m h = (m', outs)"
  shows "evolves I m m' outs"
proof -
  obtain h' rows where h: "vh_snapshot ops h (mesh_self_id m) = (h', rows)" by fastforce
  with assms(2) have p: "publish_local_vms ship now (m\<lparr>me_host := Some h'\<rparr>) rows = (m', outs)"
    by (simp add: republish_after_op_def)
  show ?thesis
    by (rule evolves_pre [OF assms(1) _ publish_evolves [OF _ p]]) (simp_all add: same_tables_def)
qed

lemma refresh_evolves:
  assumes "mesh_ok m"
  shows "evolves I m (fst (mesh_list_vms m)) []"
proof -
  let ?f = "in_federation (me_inner m)" and ?al = "alive_in (in_membership (me_inner m))"
  have "mesh_ok (fst (mesh_list_vms m))"
    using assms fed_keyed_exec [of ?f "FRefresh ?al"]
    by (simp add: mesh_ok_def mesh_list_vms_def mesh_self_id_def Let_def fed_refresh_alive_def)
  moreover have "stored_rows (fst (mesh_list_vms m)) \<subseteq> stored_rows m"
    by (force simp: stored_rows_def mesh_list_vms_def Let_def map_of_refresh simp del: split_paired_Ex)
  ultimately show ?thesis by (intro evolves_plain) (auto simp: mesh_list_vms_def Let_def)
qed

lemma member_evolves:
  assumes "mesh_ok m" "me_inner m' = (me_inner m)\<lparr>in_membership := mb, in_known := kn\<rparr>" "member_ok (mesh_self_id m) mb"
  shows "evolves I m m' []"
proof (rule evolves_plain)
  show "mesh_ok m'" using assms by (simp add: mesh_ok_def mesh_self_id_def)
qed (use assms in \<open>auto simp: stored_rows_def\<close>)

lemma gossiper_evolves:
  assumes "mesh_ok m" "gossiper_step ship now m = (m', outs)"
  shows "evolves I m m' outs"
proof -
  obtain mb d where t: "mb_tick (in_membership (me_inner m)) now = (mb, d)" by fastforce
  have mb: "member_ok (mesh_self_id m) mb"
    using member_ok_exec [of "mesh_self_id m" "in_membership (me_inner m)" "MTick now"] assms(1) t by (simp add: mesh_ok_def)
  define m1 where "m1 = m\<lparr>me_inner := (me_inner m)\<lparr>in_membership := mb\<rparr>,
     me_metrics := (me_metrics m)\<lparr>
       mm_suspect_promotions := mm_suspect_promotions (me_metrics m) + of_nat (td_suspect_promotions d),
       mm_dead_promotions := mm_dead_promotions (me_metrics m) + of_nat (td_dead_promotions d)\<rparr>\<rparr>"
  have e: "evolves I m m1 []"
    by (rule member_evolves [OF assms(1) _ mb, of _ "in_known (me_inner m)"]) (simp add: m1_def)
  have "(m', outs) = (m1, []) \<or> (\<exists>peer r. send_sync ship m1 peer = (m', outs, r))"
    using assms(2) unfolding gossiper_step_def Let_def t prod.case m1_def [symmetric]
    by (auto split: option.splits prod.splits)
  then show ?thesis
    using e evolves_trans [OF e send_sync_evolves [OF evolves_ok [OF e]]] by auto
qed

lemma mesh_invoke_evolves:
  assumes "mesh_ok m" "mesh_invoke ship now ops m target op = (m', outs, r)"
  shows "evolves I m m' outs"
proof (cases "mesh_self_id m = target")
  case True
  then show ?thesis
    using assms republish_evolves [OF assms(1)]
    by (auto simp: mesh_invoke_def same_tables_def intro!: evolves_same_tables
      split: option.splits prod.splits result.splits)
next
  case False
  then show ?thesis
    using assms by (intro evolves_same_tables)
      (auto simp: mesh_invoke_def same_tables_def frame_def Let_def split: option.splits if_splits result.splits)
qed

lemma supervisor_evolves:
  assumes "mesh_ok m" "run_supervisor_step ship now ops m = (m', outs, r)"
  shows "evolves I m m' outs"
proof (cases "is_supervisor m \<and> me_host m \<noteq> None")
  case False
  then show ?thesis using assms
    by (auto simp: run_supervisor_step_def same_tables_def intro!: evolves_same_tables split: option.splits if_splits)
next
  case True
  then obtain h where h: "me_host m = Some h" by blast
  obtain m1 orphans where o: "mesh_orphaned_vms m = (m1, orphans)" by fastforce
  have e: "evolves I m m1 []" using refresh_evolves [OF assms(1)] o
    by (auto simp: mesh_orphaned_vms_def split: prod.splits)
  have ok: "mesh_ok m1" by (rule evolves_ok [OF e])
  obtain h1 rows where sn: "vh_snapshot ops h (mesh_self_id m1) = (h1, rows)" by fastforce
  obtain h2 res where rs: "restart_orphans ops (map rv_label rows) h1 orphans [] = (h2, res)" by fastforce
  have "evolves I m1 m' outs"
  proof (cases "orphans = [] \<or> (\<exists>e. res = Err e) \<or> res = Ok []")
    case True
    then show ?thesis using assms(2) h o sn rs ok \<open>is_supervisor m \<and> me_host m \<noteq> None\<close>
      by (auto simp: run_supervisor_step_def same_tables_def intro!: evolves_same_tables split: if_splits)
  next
    case False
    then obtain out where out: "orphans \<noteq> []" "res = Ok out" "out \<noteq> []" by (cases res) auto
    let ?m = "m1\<lparr>me_metrics := (me_metrics m1)\<lparr>mm_supervisor_restarts :=
      mm_supervisor_restarts (me_metrics m1) + of_nat (length out)\<rparr>\<rparr>"
    have "republish_after_op ship now ops ?m h2 = (m', outs)"
      using assms(2) h o sn rs out \<open>is_supervisor m \<and> me_host m \<noteq> None\<close>
      by (simp add: run_supervisor_step_def split: prod.splits)
    then show ?thesis
      by (intro evolves_pre [OF ok _ republish_evolves]) (simp_all add: same_tables_def)
  qed
  from evolves_trans [OF e this] show ?thesis by simp
qed

lemma merge_vms_fed:
  assumes "fed_keyed f"
  shows "fed_keyed (merge_vms f vs) \<and> fd_self_id (merge_vms f vs) = fd_self_id f"
  using assms
proof (induction vs arbitrary: f)
  case (Cons v vs)
  then show ?case using fed_keyed_exec [of f "FMerge v"] by simp
qed simp

lemma merge_vms_rows:
  "map_of (fd_rows (merge_vms f vs)) k = Some r \<Longrightarrow>
     map_of (fd_rows f) k = Some r \<or> r \<in> row_data ` set vs"
proof (induction vs arbitrary: f)
  case (Cons v vs)
  from Cons.IH [OF Cons.prems [simplified]] show ?case
    by (auto simp: fd_rows_merge fed.get_merge split: if_splits)
qed simp

lemma sync_evolves:
  assumes "mesh_ok m" "me_inner m' = (me_inner m)\<lparr>in_known := kn, in_membership := merge_nodes now (in_membership (me_inner m)) ns,
      in_federation := merge_vms (in_federation (me_inner m)) vs\<rparr>"
  shows "evolves (row_data ` set vs) m m' []"
proof (rule evolves_plain)
  show "mesh_ok m'"
    using assms merge_vms_fed [of "in_federation (me_inner m)" vs] member_ok_merge_nodes
    by (simp add: mesh_ok_def mesh_self_id_def)
  show "stored_rows m' \<subseteq> stored_rows m \<union> row_data ` set vs"
  proof
    fix x assume "x \<in> stored_rows m'"
    then obtain k r where "x = row_data r" "map_of (fd_rows (merge_vms (in_federation (me_inner m)) vs)) k = Some r"
      by (auto simp: stored_rows_def assms(2))
    with merge_vms_rows [OF this(2)] show "x \<in> stored_rows m \<union> row_data ` set vs"
      by (force simp: stored_rows_def simp del: split_paired_Ex)
  qed
qed (simp_all add: assms(2))

lemma handle_request_evolves:
  assumes "mesh_ok m" "handle_request ship now ops m from_id req_id op = (m', outs)"
  shows "evolves I m m' outs"
proof -
  let ?m = "m\<lparr>me_metrics := (me_metrics m)\<lparr>mm_rpc_in := mm_rpc_in (me_metrics m) + 1\<rparr>\<rparr>"
  define call where "call =
            (case me_host ?m of
               None \<Rightarrow> (?m, [], Err ''no VmHost registered'')
             | Some h \<Rightarrow>
                 (case vh_handle ops h op of
                    (h', Ok reply) \<Rightarrow>
                      (case republish_after_op ship now ops ?m h' of (m', outs) \<Rightarrow> (m', outs, Ok reply))
                  | (h', Err s) \<Rightarrow> (?m\<lparr>me_host := Some h'\<rparr>, [], Err s)))"
  obtain m1 o1 res where c: "call = (m1, o1, res)" by (cases call)
  have "same_tables m ?m" by (simp add: same_tables_def)
  then have ok: "mesh_ok ?m" using same_tables_ok assms(1) by blast
  have "evolves I ?m m1 o1"
    using c ok republish_evolves [OF ok] unfolding call_def
    by (auto simp: same_tables_def intro!: evolves_same_tables split: option.splits prod.splits result.splits)
  then have e: "evolves I m m1 o1" using evolves_pre [OF assms(1) \<open>same_tables m ?m\<close>] by blast
  have h: "handle_request ship now ops m from_id req_id op =
      (case mb_get (in_membership (me_inner m1)) from_id of
            None \<Rightarrow> (m1, o1)
          | Some r \<Rightarrow>
              (let g = tick_hlc (me_inner m1);
                   env = frame g (Response req_id res)
               in (count_sent (ship (ni_addr r) env) (m1\<lparr>me_inner := g\<rparr>), o1 @ [(ni_addr r, env)])))"
    using c unfolding handle_request_def Let_def call_def by simp
  show ?thesis
  proof (cases "mb_get (in_membership (me_inner m1)) from_id")
    case None
    then show ?thesis using e h assms(2) by simp
  next
    case (Some r)
    let ?g = "tick_hlc (me_inner m1)"
    let ?env = "frame ?g (Response req_id res)"
    have "evolves I m1 (count_sent (ship (ni_addr r) ?env) (m1\<lparr>me_inner := ?g\<rparr>)) [(ni_addr r, ?env)]"
      using evolves_ok [OF e] by (rule evolves_same_tables) (simp_all add: same_tables_def frame_def)
    from evolves_trans [OF e this] show ?thesis using Some h assms(2) by (simp add: Let_def)
  qed
qed

lemma handle_envelope_evolves:
  assumes "mesh_ok m" "handle_envelope ship now ops m env src = (m', outs)"
  shows "evolves (payload_rows (env_payload env)) m m' outs"
proof (cases "env_cluster env = mc_cluster (in_config (me_inner m))")
  case False
  then show ?thesis using assms
    by (auto simp: handle_envelope_def same_tables_def intro!: evolves_same_tables)
next
  case True
  note c = assms(2) [unfolded handle_envelope_def Let_def]
  let ?m = "m\<lparr>me_inner := (me_inner m)\<lparr>in_known := List.insert src (in_known (me_inner m))\<rparr>\<rparr>"
  have same: "same_tables m ?m" by (simp add: same_tables_def)
  show ?thesis
  proof (cases "env_payload env")
    case (Hello node)
    then have o: "outs = []" and inner: "me_inner m' = (me_inner m)\<lparr>in_membership := fst (mb_merge now (in_membership (me_inner m)) node),
        in_known := List.insert src (in_known (me_inner m))\<rparr>"
      using c True by auto
    have "member_ok (mesh_self_id m) (fst (mb_merge now (in_membership (me_inner m)) node))"
      using member_ok_exec [of "mesh_self_id m" "in_membership (me_inner m)" "MMerge now node"] assms(1) by (simp add: mesh_ok_def)
    from member_evolves [OF assms(1) inner this] show ?thesis by (simp add: o)
  next
    case (Sync ns vs)
    then have o: "outs = []" and inner: "me_inner m' = (me_inner m)\<lparr>in_known := List.insert src (in_known (me_inner m)),
        in_membership := merge_nodes now (in_membership (me_inner m)) ns, in_federation := merge_vms (in_federation (me_inner m)) vs\<rparr>"
      using c True by auto
    from sync_evolves [OF assms(1) inner] show ?thesis by (simp add: o Sync)
  next
    case Goodbye
    then have o: "outs = []" and inner: "me_inner m' = (me_inner m)\<lparr>in_membership := mb_mark_left (in_membership (me_inner m)) (env_from env),
        in_known := List.insert src (in_known (me_inner m))\<rparr>"
      using c True by auto
    have "member_ok (mesh_self_id m) (mb_mark_left (in_membership (me_inner m)) (env_from env))"
      using member_ok_exec [of "mesh_self_id m" "in_membership (me_inner m)" "MLeft (env_from env)"] assms(1) by (simp add: mesh_ok_def)
    from member_evolves [OF assms(1) inner this] show ?thesis by (simp add: o)
  next
    case (Request req_id target op)
    then have "(m', outs) = (?m, []) \<or> handle_request ship now ops ?m (env_from env) req_id op = (m', outs)"
      using c True by (auto split: if_splits)
    then show ?thesis
      using evolves_same_tables [OF assms(1) same, of "[]"] evolves_pre [OF assms(1) same handle_request_evolves] by auto
  next
    case (Response req_id res)
    then show ?thesis using c True assms(1)
      by (auto simp: same_tables_def intro!: evolves_same_tables split: if_splits)
  qed
qed

fun cmd_rows :: "'h mesh_cmd \<Rightarrow> remote_vm set" where
  "cmd_rows (CDeliver env src) = payload_rows (env_payload env)"
| "cmd_rows _ = {}"

lemma mesh_exec_evolves:
  assumes "mesh_ok m" "mesh_exec ship now ops m c = (m', outs)"
  shows "evolves (cmd_rows c) m m' outs"
proof (cases c)
  case (CJoin addr)
  have "same_tables m (m\<lparr>me_inner := (me_inner m)\<lparr>in_known := List.insert addr (in_known (me_inner m))\<rparr>,
      me_metrics := (me_metrics m)\<lparr>mm_join_calls := mm_join_calls (me_metrics m) + 1\<rparr>\<rparr>)" by (simp add: same_tables_def)
  from evolves_pre [OF assms(1) this send_hello_evolves] show ?thesis
    using assms(2) CJoin by (auto simp: mesh_join_def Let_def split: prod.splits)
next
  case (CInvokePath path op)
  then show ?thesis using assms mesh_invoke_evolves [OF assms(1)]
    by (auto simp: mesh_invoke_path_def same_tables_def intro!: evolves_same_tables split: result.splits prod.splits)
next
  case (CInvokeEnd req w)
  then show ?thesis using assms
    by (auto simp: mesh_invoke_end_def same_tables_def intro!: evolves_same_tables split: wait_end.splits result.splits)
next
  case CShutdown
  then show ?thesis using assms
    by (auto simp: mesh_shutdown_def same_tables_def frame_rows_def frame_def Let_def intro!: evolves_same_tables)
next
  case (CSetHost h)
  then show ?thesis using assms
    by (auto simp: mesh_set_host_def same_tables_def intro!: evolves_same_tables)
qed (use assms gossiper_evolves [OF assms(1)] refresh_evolves [OF assms(1)] publish_evolves [OF assms(1)]
       mesh_invoke_evolves [OF assms(1)] supervisor_evolves [OF assms(1)] handle_envelope_evolves [OF assms(1)]
     in \<open>auto split: prod.splits\<close>)

subsection \<open>Clusters\<close>

text \<open>
  A cluster maps ids to running nodes; the network is the set of all frames ever sent, any of which
  may be delivered any number of times, in any order, or never. A node may be restarted with a
  larger epoch. No clock is at its last value (\<^verbatim>\<open>u64::MAX\<close>, where the counter would stop).
\<close>

type_synonym 'h cluster = "(node_id \<Rightarrow> 'h mesh option) \<times> envelope set"

inductive cluster_step :: "'h vm_host \<Rightarrow> 'h cluster \<Rightarrow> 'h cluster \<Rightarrow> bool" for ops :: "'h vm_host" where
  act: "c n = Some m \<Longrightarrow> mesh_exec ship now ops m cmd = (m', outs) \<Longrightarrow>
    (\<And>env src. cmd = CDeliver env src \<Longrightarrow> env \<in> net) \<Longrightarrow> in_hlc (me_inner m') \<noteq> - 1 \<Longrightarrow>
    cluster_step ops (c, net) (c(n \<mapsto> m'), net \<union> snd ` set outs)"
| boot: "mc_node_id cfg = n \<Longrightarrow> (\<And>m. c n = Some m \<Longrightarrow> mc_epoch (in_config (me_inner m)) < mc_epoch cfg) \<Longrightarrow>
    mesh_start ship now cfg = (m', outs) \<Longrightarrow> in_hlc (me_inner m') \<noteq> - 1 \<Longrightarrow>
    cluster_step ops (c, net) (c(n \<mapsto> m'), net \<union> snd ` set outs)"

definition cluster_rows :: "(node_id \<Rightarrow> 'h mesh option) \<Rightarrow> envelope set \<Rightarrow> remote_vm set" where
  "cluster_rows c net = (\<Union>m \<in> {m. \<exists>n. c n = Some m}. stored_rows m) \<union> (\<Union>env \<in> net. payload_rows (env_payload env))"

definition cluster_inv :: "'h cluster \<Rightarrow> bool" where
  "cluster_inv cn \<longleftrightarrow> (case cn of (c, net) \<Rightarrow>
     (\<forall>n m. c n = Some m \<longrightarrow> mesh_ok m \<and> mesh_self_id m = n) \<and>
     (\<forall>r \<in> cluster_rows c net. \<exists>m. c (rv_owner r) = Some m \<and> vm_stamp r \<le> mesh_stamp m) \<and>
     single_writer remote_vm_key vm_stamp (cluster_rows c net))"

lemma frame_rows_net: "(\<Union>env \<in> snd ` set outs. payload_rows (env_payload env)) = frame_rows outs"
  by (auto simp: frame_rows_def)

lemma cluster_rows_upd:
  "cluster_rows (c(n \<mapsto> m')) (net \<union> snd ` set outs) \<subseteq> cluster_rows c net \<union> stored_rows m' \<union> frame_rows outs"
  by (auto simp: cluster_rows_def frame_rows_def split: if_splits)

lemma mesh_start_ok:
  assumes "mesh_start ship now cfg = (m', outs)"
  shows "mesh_ok m' \<and> mesh_self_id m' = mc_node_id cfg \<and> mc_epoch (in_config (me_inner m')) = mc_epoch cfg \<and>
    stored_rows m' \<union> frame_rows outs = {}"
proof -
  define m0 :: "'a mesh" where "m0 = \<lparr>me_inner = \<lparr>in_config = cfg,
       in_membership = membership_new now (mc_cluster cfg) \<lparr>ni_id = mc_node_id cfg, ni_addr = mc_advertise_addr cfg,
         ni_epoch = mc_epoch cfg, ni_hlc = 0, ni_status = NodeAlive\<rparr> (mc_timeout_suspect cfg) (mc_timeout_dead cfg),
       in_federation = federation_new (mc_node_id cfg), in_hlc = 0, in_known = remdups (mc_seeds cfg)\<rparr>,
     me_host = None, me_pending = [], me_answered = [], me_next_req = 1, me_metrics = mesh_metrics_new\<rparr>"
  have ok: "mesh_ok m0"
    by (simp add: m0_def mesh_ok_def member_ok_def mesh_self_id_def fed_keyed_def federation_new_def membership_new_def mb_get_def)
  have none: "stored_rows m0 = {}" by (simp add: m0_def stored_rows_def federation_new_def)
  have s: "send_all (send_hello ship) m0 (mc_seeds cfg) = (m', outs)"
    using assms by (simp add: mesh_start_def Let_def m0_def)
  have plain: "mesh_ok m2 \<and> stored_rows m2 \<union> frame_rows os = {} \<and> in_config (me_inner m2) = in_config (me_inner m1)"
    if "mesh_ok m1" "stored_rows m1 = {}" "send_all (send_hello ship) m1 ps = (m2, os)" for m1 m2 :: "'a mesh" and ps os
    using that
  proof (induction ps arbitrary: m1 os)
    case (Cons p ps)
    obtain m3 o1 r where h: "send_hello ship m1 p = (m3, o1, r)" using prod_cases3 by blast
    obtain o2 where t: "send_all (send_hello ship) m3 ps = (m2, o2)" "os = o1 @ o2"
      using Cons.prems(3) h by (auto split: prod.splits)
    have "same_tables m1 m3 \<and> frame_rows o1 = {}" using h by (auto simp: send_hello_def same_tables_def frame_def Let_def)
    then have "mesh_ok m3" "stored_rows m3 = {}" "in_config (me_inner m3) = in_config (me_inner m1)" "frame_rows o1 = {}"
      using same_tables_ok [of m1 m3] Cons.prems by (auto simp: same_tables_def)
    with Cons.IH [OF this(1,2) t(1)] show ?case by (simp add: t(2))
  qed simp
  from plain [OF ok none s] show ?thesis by (simp add: m0_def mesh_self_id_def)
qed

text \<open>One lemma serves both steps: the node at \<open>n\<close> is replaced, its new rows are its own and newer.\<close>

lemma cluster_inv_replace:
  assumes inv: "cluster_inv (c, net)" and ok: "mesh_ok m'" "mesh_self_id m' = n"
    and sub: "stored_rows m' \<union> frame_rows outs \<subseteq> cluster_rows c net \<union> N"
    and new: "\<And>r. r \<in> N \<Longrightarrow> rv_owner r = n \<and> vm_stamp r \<le> mesh_stamp m'"
    and old: "\<And>m. c n = Some m \<Longrightarrow> mesh_stamp m \<le> mesh_stamp m' \<and> (\<forall>r \<in> N. mesh_stamp m < vm_stamp r)"
    and sw: "single_writer remote_vm_key vm_stamp N"
  shows "cluster_inv (c(n \<mapsto> m'), net \<union> snd ` set outs)"
proof -
  let ?R = "cluster_rows c net" and ?R' = "cluster_rows (c(n \<mapsto> m')) (net \<union> snd ` set outs)"
  have R': "?R' \<subseteq> ?R \<union> N" using sub cluster_rows_upd [of c n m' net outs] by blast
  have bound: "\<exists>m. c (rv_owner r) = Some m \<and> vm_stamp r \<le> mesh_stamp m" if "r \<in> ?R" for r
    using inv that by (simp add: cluster_inv_def)
  have "x = y" if xy: "x \<in> ?R" "y \<in> N" "remote_vm_key x = remote_vm_key y" "vm_stamp x = vm_stamp y" for x y
  proof -
    have "rv_owner x = n" using new [OF xy(2)] xy(3) by (simp add: remote_vm_key_def)
    then obtain m where "c n = Some m" "vm_stamp x \<le> mesh_stamp m" using bound [OF xy(1)] by auto
    then have False using old [of m] xy(2,4) by auto
    then show ?thesis by simp
  qed
  then have "single_writer remote_vm_key vm_stamp (?R \<union> N)"
    using inv sw by (intro single_writer_union) (auto simp: cluster_inv_def)
  then have "single_writer remote_vm_key vm_stamp ?R'" using R' by (rule single_writer_mono)
  moreover have "\<exists>m. (c(n \<mapsto> m')) (rv_owner r) = Some m \<and> vm_stamp r \<le> mesh_stamp m" if "r \<in> ?R'" for r
  proof (cases "r \<in> N")
    case True
    then show ?thesis using new [OF True] by simp
  next
    case False
    then have "r \<in> ?R" using R' that by blast
    then obtain m where m: "c (rv_owner r) = Some m" "vm_stamp r \<le> mesh_stamp m" using bound by blast
    then show ?thesis
      using old [of m] order_trans [of "vm_stamp r" "mesh_stamp m" "mesh_stamp m'"] by (cases "rv_owner r = n") auto
  qed
  ultimately show ?thesis using inv ok unfolding cluster_inv_def by auto
qed

lemma cluster_step_inv:
  assumes "cluster_step ops cn cn'" "cluster_inv cn"
  shows "cluster_inv cn'"
  using assms
proof cases
  case (act c n m ship now cmd m' outs net)
  have m: "mesh_ok m" "mesh_self_id m = n" using act assms(2) by (auto simp: cluster_inv_def)
  have e: "evolves (cmd_rows cmd) m m' outs" by (rule mesh_exec_evolves [OF m(1) act(4)])
  then obtain N where N: "stored_rows m' \<union> frame_rows outs \<subseteq> stored_rows m \<union> cmd_rows cmd \<union> N"
    "\<And>r. r \<in> N \<Longrightarrow> rv_owner r = mesh_self_id m \<and> mesh_stamp m < vm_stamp r \<and> vm_stamp r \<le> mesh_stamp m'"
    "single_writer remote_vm_key vm_stamp N" using act(6) unfolding evolves_def by blast
  have "cmd_rows cmd \<subseteq> cluster_rows c net" using act(5) by (cases cmd) (auto simp: cluster_rows_def)
  moreover have "stored_rows m \<subseteq> cluster_rows c net" using act(3) by (auto simp: cluster_rows_def)
  ultimately have sub: "stored_rows m' \<union> frame_rows outs \<subseteq> cluster_rows c net \<union> N" using N(1) by blast
  have st: "mesh_stamp m \<le> mesh_stamp m'" "mesh_self_id m' = n"
    using e m(2) by (simp_all add: evolves_def mesh_stamp_def mesh_self_id_def)
  show ?thesis unfolding act(2)
    by (rule cluster_inv_replace [OF _ evolves_ok [OF e] st(2) sub _ _ N(3)])
      (use act assms(2) N(2) m st in auto)
next
  case (boot cfg n c ship now m' outs net)
  note s = mesh_start_ok [OF boot(5)]
  have "mesh_stamp m \<le> mesh_stamp m'" if "c n = Some m" for m
    using boot(4) [OF that] s by (simp add: mesh_stamp_def less_eq_prod_def)
  then show ?thesis unfolding boot(2)
    by (intro cluster_inv_replace [where N = "{}"]) (use boot s assms(2) in \<open>auto simp: single_writer_def\<close>)
qed

lemma cluster_reachable_inv: "rtranclp (cluster_step ops) (Map.empty, {}) cn \<Longrightarrow> cluster_inv cn"
  by (induction rule: rtranclp_induct)
    (auto simp: cluster_step_inv, simp add: cluster_inv_def cluster_rows_def single_writer_def)

subsection \<open>A cluster that recovers a VM\<close>

text \<open>
  Node \<open>p\<close> publishes a VM and gossips it to \<open>a\<close>; two seconds later \<open>a\<close>'s failure detector declares
  \<open>p\<close> dead, and \<open>a\<close> is the supervisor with one orphan.
\<close>

definition demo_mesh :: "mem_vm_host mesh" where
  "demo_mesh = fst (mesh_start (\<lambda>_ _. Ok ()) 0 (mesh_config_defaults ''a'' ''x''))"

lemma demo_mesh_eval: "in_hlc (me_inner demo_mesh) = 0" "mesh_self_id demo_mesh = ''a''"
  by (simp_all add: demo_mesh_def mesh_start_def mesh_config_defaults_def mesh_self_id_def Let_def)

lemmas mesh_eval = mesh_start_def mesh_config_defaults_def mesh_self_id_def Let_def federation_new_def membership_new_def
  publish_local_vms_core publish_core_def sync_peers_def mb_snapshot_def mb_bump_self_def map_values_def map_update_with_def
  tick_hlc_def saturating_add_def mesh_metrics_new_def send_hello_def send_sync_def frame_def self_row_def count_sent_def
  gossiper_step_def mb_tick_def tick_row_def next_status_def pick_one_def fed_set_local_def bt_retain_def local_row_def
  remote_vm_key_def fed_local_rows_def mb_get_def mesh_set_host_def handle_envelope_def mb_merge_def fed_merge_def
  mem_vm_host_dyn_def host_snapshot_def remember_owner_def mem_vm_host_new_def supersedes_def

definition demo_ship :: transport where
  "demo_ship = (\<lambda>_ _. Ok ())"

definition demo_p0 :: "mem_vm_host mesh" where
  "demo_p0 = fst (mesh_start demo_ship 0 ((mesh_config_defaults ''p'' ''q'')\<lparr>mc_seeds := [''x'']\<rparr>))"

definition demo_p :: "mem_vm_host mesh" where
  "demo_p = fst (mesh_exec demo_ship 2 mem_vm_host_dyn demo_p0 (CPublish [demo_vm ''p'' 0 ''created'' 0]))"

definition demo_sync :: envelope where
  "demo_sync = snd (hd (snd (mesh_exec demo_ship 3 mem_vm_host_dyn demo_p CGossip)))"

definition demo_a1 :: "mem_vm_host mesh" where
  "demo_a1 = fst (mesh_exec demo_ship 2 mem_vm_host_dyn demo_mesh (CSetHost mem_vm_host_new))"

definition demo_a2 :: "mem_vm_host mesh" where
  "demo_a2 = fst (mesh_exec demo_ship 4 mem_vm_host_dyn demo_a1 (CDeliver demo_sync ''q''))"

definition demo_a :: "mem_vm_host mesh" where
  "demo_a = fst (mesh_exec demo_ship 2000000000 mem_vm_host_dyn demo_a2 CGossip)"

lemma demo_sync_eval: "demo_sync = 
  \<lparr>env_magic = PROTO_MAGIC, env_version = PROTO_VERSION, env_from = ''p'', env_cluster = ''celium'', env_hlc = 3,
   env_payload = Sync [\<lparr>ni_id = ''p'', ni_addr = ''q'', ni_epoch = 1, ni_hlc = 3, ni_status = NodeAlive\<rparr>]
     [(demo_vm ''p'' 0 ''created'' 2)]\<rparr>"
  "snd (mesh_exec demo_ship 3 mem_vm_host_dyn demo_p CGossip) = [(''x'', demo_sync)]"
  "in_hlc (me_inner (fst (mesh_exec demo_ship 3 mem_vm_host_dyn demo_p CGossip))) = 3"
  "in_hlc (me_inner demo_p) = 2" "in_hlc (me_inner demo_p0) = 1"
  by (simp_all add: demo_sync_def demo_p_def demo_p0_def mesh_eval demo_vm_def demo_ship_def)

lemma demo_a_eval: "in_membership (me_inner demo_a) =
     \<lparr>mb_self_id = ''a'', mb_cluster = ''celium'',
      mb_rows = [(''a'', \<lparr>ni_id = ''a'', ni_addr = ''x'', ni_epoch = 1, ni_hlc = 0, ni_status = NodeAlive\<rparr>),
                 (''p'', \<lparr>ni_id = ''p'', ni_addr = ''q'', ni_epoch = 1, ni_hlc = 3, ni_status = NodeDead\<rparr>)],
      mb_locals = [(''a'', 0), (''p'', 4)], mb_timeout_suspect = 500000000, mb_timeout_dead = 1500000000\<rparr>"
  "in_federation (me_inner demo_a) = \<lparr>fd_self_id = ''a'', fd_rows = [((''p'', 0), demo_vm ''p'' 0 ''created'' 2)]\<rparr>"
  "in_hlc (me_inner demo_a) = 1" "in_hlc (me_inner demo_a1) = 0" "in_hlc (me_inner demo_a2) = 0"
  "me_host demo_a = Some (mem_vm_host_new\<lparr>mh_owner := Some ''a''\<rparr>)" "mesh_self_id demo_a = ''a''"
  by (simp_all add: demo_a_def demo_a2_def demo_a1_def demo_mesh_def demo_sync_eval mesh_eval demo_ship_def demo_vm_def)

lemma demo_supervisor: "is_supervisor demo_a"
  by (simp add: is_supervisor_def demo_a_eval mb_snapshot_def map_values_def)

lemma demo_step: "snd (snd (run_supervisor_step demo_ship 3000000000 mem_vm_host_dyn demo_a)) =
   Ok [\<lparr>rs_original_owner = ''p'', rs_original_vm_id = 0, rs_new_vm_id = 0, rs_label = ''web@p''\<rparr>]"
  by (simp add: run_supervisor_step_def demo_supervisor demo_a_eval mesh_orphaned_vms_def mesh_list_vms_def Let_def
    fed_refresh_alive_def fed_list_def map_values_def alive_in_def mb_snapshot_def demo_vm_def mesh_self_id_def
    mem_vm_host_dyn_def restart_label_def host_eval host_row_def case_prod_beta)

lemma demo_run:
  "\<exists>c net. rtranclp (cluster_step mem_vm_host_dyn) (Map.empty, {}) (c, net) \<and> c ''a'' = Some demo_a \<and> c ''p'' \<noteq> None"
proof -
  let ?R = "rtranclp (cluster_step mem_vm_host_dyn) (Map.empty, {})"
  have step: "?R (c(n \<mapsto> m'), net \<union> snd ` set (snd (mesh_exec demo_ship now mem_vm_host_dyn m cmd)))"
    if "?R (c, net)" "c n = Some m" "m' = fst (mesh_exec demo_ship now mem_vm_host_dyn m cmd)" "in_hlc (me_inner m') \<noteq> - 1"
      "\<And>env src. cmd = CDeliver env src \<Longrightarrow> env \<in> net" for c net n m m' cmd now
  proof -
    have "cluster_step mem_vm_host_dyn (c, net) (c(n \<mapsto> m'), net \<union> snd ` set (snd (mesh_exec demo_ship now mem_vm_host_dyn m cmd)))"
      by (rule act [where ship = demo_ship and now = now and cmd = cmd]) (use that in auto)
    with that(1) show ?thesis by (rule rtranclp.rtrancl_into_rtrancl)
  qed
  have start: "?R (c(mc_node_id cfg \<mapsto> m'), net \<union> snd ` set (snd (mesh_start demo_ship 0 cfg :: mem_vm_host mesh \<times> frames)))"
    if "?R (c, net)" "c (mc_node_id cfg) = None" "m' = fst (mesh_start demo_ship 0 cfg)" "in_hlc (me_inner m') \<noteq> - 1" for c net cfg m'
  proof -
    have "cluster_step mem_vm_host_dyn (c, net)
        (c(mc_node_id cfg \<mapsto> m'), net \<union> snd ` set (snd (mesh_start demo_ship 0 cfg :: mem_vm_host mesh \<times> frames)))"
      by (rule boot [where ship = demo_ship and now = 0 and cfg = cfg]) (use that in auto)
    with that(1) show ?thesis by (rule rtranclp.rtrancl_into_rtrancl)
  qed
  have ids: "mc_node_id (mesh_config_defaults ''a'' ''x'') = ''a''"
    "mc_node_id ((mesh_config_defaults ''p'' ''q'')\<lparr>mc_seeds := [''x'']\<rparr>) = ''p''"
    "demo_mesh = fst (mesh_start demo_ship 0 (mesh_config_defaults ''a'' ''x''))"
    by (simp_all add: mesh_config_defaults_def demo_mesh_def demo_ship_def)
  obtain n1 where 1: "?R ([''a'' \<mapsto> demo_mesh], n1)"
    using start [of Map.empty "{}" "mesh_config_defaults ''a'' ''x''" demo_mesh] ids demo_mesh_eval by auto
  obtain n2 where 2: "?R ([''a'' \<mapsto> demo_mesh, ''p'' \<mapsto> demo_p0], n2)"
    using start [OF 1, of "(mesh_config_defaults ''p'' ''q'')\<lparr>mc_seeds := [''x'']\<rparr>" demo_p0] ids
    by (auto simp: demo_p0_def [symmetric] demo_sync_eval)
  obtain n3 where 3: "?R ([''a'' \<mapsto> demo_mesh, ''p'' \<mapsto> demo_p], n3)"
    using step [OF 2, of "''p''" demo_p0 demo_p 2 "CPublish [demo_vm ''p'' 0 ''created'' 0]"]
    by (auto simp: demo_p_def [symmetric] demo_sync_eval simp del: mesh_exec.simps)
  define p4 where "p4 = fst (mesh_exec demo_ship 3 mem_vm_host_dyn demo_p CGossip)"
  obtain n4 where 4: "?R ([''a'' \<mapsto> demo_mesh, ''p'' \<mapsto> p4], n4)" "demo_sync \<in> n4"
    using step [OF 3, of "''p''" demo_p p4 3 CGossip] demo_sync_eval(2,3)
    by (auto simp: p4_def simp del: mesh_exec.simps)
  obtain n5 where 5: "?R ([''a'' \<mapsto> demo_a1, ''p'' \<mapsto> p4], n5)" "demo_sync \<in> n5"
    using step [OF 4(1), of "''a''" demo_mesh demo_a1 2 "CSetHost mem_vm_host_new"] 4(2)
    by (auto simp: demo_a1_def [symmetric] demo_a_eval fun_upd_twist simp del: mesh_exec.simps)
  obtain n6 where 6: "?R ([''a'' \<mapsto> demo_a2, ''p'' \<mapsto> p4], n6)"
    using step [OF 5(1), of "''a''" demo_a1 demo_a2 4 "CDeliver demo_sync ''q''"] 5(2)
    by (auto simp: demo_a2_def [symmetric] demo_a_eval fun_upd_twist simp del: mesh_exec.simps)
  obtain n7 where "?R ([''a'' \<mapsto> demo_a, ''p'' \<mapsto> p4], n7)"
    using step [OF 6, of "''a''" demo_a2 demo_a 2000000000 CGossip]
    by (auto simp: demo_a_def [symmetric] demo_a_eval fun_upd_twist simp del: mesh_exec.simps)
  then show ?thesis by (intro exI [of _ "[''a'' \<mapsto> demo_a, ''p'' \<mapsto> p4]"] exI [of _ n7]) simp
qed

subsection \<open>Rows are written by their owner\<close>

text \<open>
  C15. Every VM row in a cluster was written by its owner, once per stamp. In any cluster that boots,
  restarts (with a larger epoch), gossips, serves and issues calls and supervises over a network
  that loses, duplicates and reorders frames, two rows for the same VM with the same epoch and clock
  - stored at any nodes or in flight - carry the same data, and no row is newer than its owner's
  clock. So the condition under which replicas converge always holds.
\<close>

theorem rows_single_writer:
  assumes "rtranclp (cluster_step ops) (Map.empty, {}) (c, net)"
  shows "single_writer remote_vm_key vm_stamp (cluster_rows c net) \<and>
    (\<forall>r \<in> cluster_rows c net. \<exists>m. c (rv_owner r) = Some m \<and> vm_stamp r \<le> mesh_stamp m)"
  using cluster_reachable_inv [OF assms] by (simp add: cluster_inv_def)

theorem rows_single_writer_witness:
  "\<exists>c net. rtranclp (cluster_step mem_vm_host_dyn) (Map.empty, {}) (c, net) \<and> c ''a'' = Some demo_a \<and> c ''p'' \<noteq> None \<and>
     single_writer remote_vm_key vm_stamp (cluster_rows c net)"
  using demo_run rows_single_writer by metis

subsection \<open>The supervisor\<close>

lemma snapshot_iff:
  assumes "member_ok self mb"
  shows "r \<in> set (mb_snapshot mb) \<longleftrightarrow> mb_get mb (ni_id r) = Some r"
proof -
  have wf: "bt_wf (mb_rows mb)" using assms by (simp add: member_ok_def)
  have "r \<in> set (mb_snapshot mb) \<longleftrightarrow> (\<exists>k. mb_get mb k = Some r)"
    by (simp add: mb_snapshot_def mb_get_def bt.value_iff [OF wf])
  then show ?thesis using assms by (auto simp: member_ok_def)
qed

lemma snapshot_ids_distinct:
  assumes "member_ok self mb"
  shows "distinct (map ni_id (mb_snapshot mb))"
proof -
  have wf: "bt_wf (mb_rows mb)" using assms by (simp add: member_ok_def)
  have "ni_id r = k" if "(k, r) \<in> set (mb_rows mb)" for k r
    using get_row [OF wf that] assms by (simp add: member_ok_def)
  then have "map ni_id (mb_snapshot mb) = map fst (mb_rows mb)" by (auto simp: mb_snapshot_def map_values_def)
  then show ?thesis using bt_wf_distinct [OF wf] by simp
qed

lemma alive_in_iff:
  assumes "member_ok self mb"
  shows "alive_in mb k \<longleftrightarrow> (\<exists>r. mb_get mb k = Some r \<and> ni_status r = NodeAlive)"
proof -
  have d: "distinct (map fst (map (\<lambda>r. (ni_id r, ni_status r = NodeAlive)) (rev (mb_snapshot mb))))"
    using snapshot_ids_distinct [OF assms] by (simp add: comp_def rev_map [symmetric])
  have "alive_in mb k \<longleftrightarrow> (k, True) \<in> set (map (\<lambda>r. (ni_id r, ni_status r = NodeAlive)) (rev (mb_snapshot mb)))"
    using map_of_eq_Some_iff [OF d, of k True] by (auto simp: alive_in_def split: option.splits)
  also have "\<dots> \<longleftrightarrow> (\<exists>r. r \<in> set (mb_snapshot mb) \<and> ni_id r = k \<and> ni_status r = NodeAlive)" by auto
  also have "\<dots> \<longleftrightarrow> (\<exists>r. mb_get mb k = Some r \<and> ni_status r = NodeAlive)"
    using assms unfolding snapshot_iff [OF assms] by (auto simp: member_ok_def)
  finally show ?thesis .
qed

lemma is_supervisor_iff:
  assumes "mesh_ok m"
  shows "is_supervisor m \<longleftrightarrow> (\<forall>k. alive_in (in_membership (me_inner m)) k \<longrightarrow> mesh_self_id m \<le> k)"
proof -
  let ?mb = "in_membership (me_inner m)"
  define ids where "ids = map ni_id (filter (\<lambda>r. ni_status r = NodeAlive) (mb_snapshot ?mb))"
  have mb: "member_ok (mesh_self_id m) ?mb" using assms by (simp add: mesh_ok_def)
  have "k \<in> set ids \<longleftrightarrow> (\<exists>r. r \<in> set (mb_snapshot ?mb) \<and> ni_id r = k \<and> ni_status r = NodeAlive)" for k
    by (auto simp: ids_def)
  moreover have key: "ni_id r = k" if "mb_get ?mb k = Some r" for k r using mb that by (simp add: member_ok_def)
  ultimately have ids: "k \<in> set ids \<longleftrightarrow> alive_in ?mb k" for k
    unfolding alive_in_iff [OF mb] snapshot_iff [OF mb] by (metis key)
  have self: "mesh_self_id m \<in> set ids" using mb unfolding ids alive_in_iff [OF mb] by (auto simp: member_ok_def)
  then have ne: "ids \<noteq> []" by force
  have "is_supervisor m \<longleftrightarrow> ids \<noteq> [] \<and> min_list ids = mesh_self_id m"
    by (simp add: is_supervisor_def ids_def)
  also have "\<dots> \<longleftrightarrow> Min (set ids) = mesh_self_id m" using ne by (simp add: min_list_Min)
  also have "\<dots> \<longleftrightarrow> (\<forall>k \<in> set ids. mesh_self_id m \<le> k)"
    using self ne by (auto simp: Min_eq_iff)
  finally show ?thesis using ids by blast
qed

lemma send_sync_keeps:
  "send_sync ship m p = (m', outs, r) \<Longrightarrow> me_host m' = me_host m \<and> same_tables m m'"
  by (auto simp: send_sync_def count_sent_def same_tables_def Let_def)

lemma send_all_sync_keeps:
  assumes "send_all (send_sync ship) m ps = (m', outs)"
  shows "me_host m' = me_host m \<and> same_tables m m'"
  using assms
proof (induction ps arbitrary: m outs)
  case (Cons p ps)
  obtain m1 o1 r where s: "send_sync ship m p = (m1, o1, r)" using prod_cases3 by blast
  obtain o2 where "send_all (send_sync ship) m1 ps = (m', o2)" using Cons.prems s by (auto split: prod.splits)
  from Cons.IH [OF this] send_sync_keeps [OF s] show ?case by (auto simp: same_tables_def)
qed (simp add: same_tables_def)

lemma orphans_iff:
  assumes "mesh_ok m"
  shows "r \<in> set (snd (mesh_orphaned_vms m)) \<longleftrightarrow>
    (\<exists>k r0. map_of (fd_rows (in_federation (me_inner m))) k = Some r0 \<and> r = r0\<lparr>rv_owner_alive := False\<rparr> \<and>
       rv_owner r0 \<noteq> mesh_self_id m \<and> \<not> alive_in (in_membership (me_inner m)) (rv_owner r0) \<and>
       rv_restart_policy r0 = RestartAlways)"
proof -
  let ?f = "in_federation (me_inner m)" and ?al = "alive_in (in_membership (me_inner m))"
  have wf: "bt_wf (fd_rows (fed_refresh_alive ?f ?al))"
    using assms fed_keyed_exec [of ?f "FRefresh ?al"] by (simp add: mesh_ok_def fed_keyed_def)
  have self: "fd_self_id ?f = mesh_self_id m" using assms by (simp add: mesh_ok_def)
  define al where "al r0 = (if rv_owner r0 = mesh_self_id m then True else ?al (rv_owner r0))" for r0 :: remote_vm
  have "r \<in> set (snd (mesh_orphaned_vms m)) \<longleftrightarrow> \<not> rv_owner_alive r \<and> rv_restart_policy r = RestartAlways \<and>
      r \<in> set (map_values (fd_rows (fed_refresh_alive ?f ?al)))"
    by (auto simp: mesh_orphaned_vms_def mesh_list_vms_def Let_def fed_list_def)
  also have "\<dots> \<longleftrightarrow> \<not> rv_owner_alive r \<and> rv_restart_policy r = RestartAlways \<and>
      (\<exists>k r0. map_of (fd_rows ?f) k = Some r0 \<and> r = r0\<lparr>rv_owner_alive := al r0\<rparr>)"
    unfolding bt.value_iff [OF wf] map_of_refresh map_option_eq_Some self al_def by blast
  also have "\<dots> \<longleftrightarrow> (\<exists>k r0. map_of (fd_rows ?f) k = Some r0 \<and> r = r0\<lparr>rv_owner_alive := False\<rparr> \<and>
       rv_owner r0 \<noteq> mesh_self_id m \<and> \<not> ?al (rv_owner r0) \<and> rv_restart_policy r0 = RestartAlways)"
  proof -
    have "\<not> rv_owner_alive r \<and> rv_restart_policy r = RestartAlways \<and> r = r0\<lparr>rv_owner_alive := al r0\<rparr> \<longleftrightarrow>
        r = r0\<lparr>rv_owner_alive := False\<rparr> \<and> rv_owner r0 \<noteq> mesh_self_id m \<and> \<not> ?al (rv_owner r0) \<and>
        rv_restart_policy r0 = RestartAlways" for r0
      by (auto simp: al_def)
    then show ?thesis by blast
  qed
  finally show ?thesis .
qed

lemma restart_label_data: "restart_label (r\<lparr>rv_owner_alive := b\<rparr>) = restart_label r"
  by (simp add: restart_label_def)

text \<open>Republishing adds no orphan and does not change the election.\<close>

lemma publish_orphans:
  assumes "mesh_ok m" "publish_local_vms ship now m rows = (m', outs)"
  shows "is_supervisor m' = is_supervisor m \<and> me_host m' = me_host m \<and> mesh_self_id m' = mesh_self_id m \<and>
    set (snd (mesh_orphaned_vms m')) \<subseteq> set (snd (mesh_orphaned_vms m))"
proof -
  let ?c = "publish_core now m rows"
  have keeps: "me_host m' = me_host ?c" "same_tables ?c m'"
    using send_all_sync_keeps assms(2) unfolding publish_local_vms_core by blast+
  have ok: "mesh_ok ?c" "mesh_ok m'" using publish_core_ok [OF assms(1)] same_tables_ok [OF keeps(2)] by auto
  have self: "mesh_self_id m' = mesh_self_id m"
    using keeps(2) by (simp add: same_tables_def mesh_self_id_def publish_core_def Let_def)
  have mem: "member_ok (mesh_self_id m) (in_membership (me_inner m))" "member_ok (mesh_self_id m) (in_membership (me_inner m'))"
    using assms(1) ok(2) self by (auto simp: mesh_ok_def)
  have own: "mb_self_id (in_membership (me_inner m)) = mesh_self_id m" using mem by (simp add: member_ok_def)
  have bump: "in_membership (me_inner m') = mb_bump_self now (in_membership (me_inner m)) (in_hlc (me_inner ?c))"
    using keeps(2) by (simp add: same_tables_def publish_core_def Let_def)
  have alive: "alive_in (in_membership (me_inner m')) k = alive_in (in_membership (me_inner m)) k" for k
  proof (cases "k = mesh_self_id m")
    case True
    then show ?thesis using mem unfolding alive_in_iff [OF mem(1)] alive_in_iff [OF mem(2)] by (auto simp: member_ok_def)
  next
    case False
    then show ?thesis unfolding alive_in_iff [OF mem(1)] alive_in_iff [OF mem(2)]
      by (simp add: bump mb_bump_self_def mb_get_def map_simps own)
  qed
  have fed: "in_federation (me_inner m') = in_federation (me_inner ?c)" using keeps(2) by (simp add: same_tables_def)
  have old: "map_of (fd_rows (in_federation (me_inner m))) k = Some r"
    if "map_of (fd_rows (in_federation (me_inner m'))) k = Some r" "rv_owner r \<noteq> mesh_self_id m" for k r
    using publish_core_row [OF assms(1), of now rows k r] that fed by auto
  have "set (snd (mesh_orphaned_vms m')) \<subseteq> set (snd (mesh_orphaned_vms m))"
    unfolding subset_eq Ball_def orphans_iff [OF ok(2)] orphans_iff [OF assms(1)] alive self using old by blast
  moreover have "is_supervisor m' = is_supervisor m"
    unfolding is_supervisor_iff [OF ok(2)] is_supervisor_iff [OF assms(1)] alive self ..
  moreover have "me_host m' = me_host m" using keeps(1) by (simp add: publish_core_def Let_def)
  ultimately show ?thesis using self by blast
qed

text \<open>
  What the supervisor needs of a host, whichever it is: a snapshot lists the labels, a created VM
  gets its label, and installing preserved attachments keeps them.
\<close>

locale vm_host_labels =
  fixes ops :: "'h vm_host" and labels :: "'h \<Rightarrow> string set"
  assumes snapshot_labels: "vh_snapshot ops h nid = (h', rows) \<Longrightarrow> rv_label ` set rows = labels h \<and> labels h' = labels h"
    and create_label: "vh_handle ops h (VmCreate l p i c mm b) = (h', Ok reply) \<Longrightarrow>
      (\<exists>n. reply = Created n) \<and> labels h' = insert l (labels h)"
    and preserved_labels: "labels (fst (vh_attach_preserved ops h n vs)) = labels h"
begin

lemma restart_complete:
  assumes "restart_orphans ops ex h rs out = (h', Ok out')"
  shows "labels h \<subseteq> labels h' \<and> (\<forall>r \<in> set rs. \<exists>l. restart_label r = Some l \<and> (l \<in> set ex \<or> l \<in> labels h'))"
  using assms
proof (induction rs arbitrary: h out)
  case (Cons r rs)
  obtain l where l: "restart_label r = Some l" using Cons.prems by (cases "restart_label r") auto
  show ?case
  proof (cases "l \<in> set ex")
    case True
    then show ?thesis using Cons.IH [of h out] Cons.prems l by simp
  next
    case False
    obtain h1 rep where c: "vh_handle ops h (VmCreate l RestartNever (rv_image_path r) (rv_cpu_count r)
        (rv_memory_mib r) (rv_boot_blob_crc32c r)) = (h1, Ok rep)"
      using Cons.prems l False by (auto split: prod.splits result.splits)
    from create_label [OF c] obtain n where n: "rep = Created n" "labels h1 = insert l (labels h)" by blast
    define h2 where "h2 = (if rv_volumes r \<noteq> [] then fst (vh_attach_preserved ops h1 n (rv_volumes r)) else h1)"
    have "labels h2 = insert l (labels h)" by (simp add: h2_def preserved_labels n(2))
    moreover have "\<exists>o2. restart_orphans ops ex h2 rs o2 = (h', Ok out')"
      using Cons.prems l False by (auto simp: c n(1) h2_def)
    ultimately show ?thesis using Cons.IH [of h2] l by auto
  qed
qed simp

lemma restart_noop:
  assumes "\<forall>r \<in> set rs. \<exists>l. restart_label r = Some l \<and> l \<in> set ex"
  shows "restart_orphans ops ex h rs out = (h, Ok out)"
  using assms by (induction rs) auto

text \<open>A node is covered when every orphan it sees already has its replacement on the host.\<close>

definition covered :: "'h mesh \<Rightarrow> bool" where
  "covered m \<longleftrightarrow> (\<exists>h. me_host m = Some h \<and>
     (\<forall>r \<in> set (snd (mesh_orphaned_vms m)). \<exists>l. restart_label r = Some l \<and> l \<in> labels h))"

lemma covered_pass:
  assumes "covered m"
  shows "\<exists>m'. run_supervisor_step ship now ops m = (m', [], Ok [])"
proof (cases "is_supervisor m")
  case True
  obtain h where h: "me_host m = Some h" "\<forall>r \<in> set (snd (mesh_orphaned_vms m)). \<exists>l. restart_label r = Some l \<and> l \<in> labels h"
    using assms by (auto simp: covered_def)
  obtain m1 orphans where o: "mesh_orphaned_vms m = (m1, orphans)" by fastforce
  obtain h1 rows where sn: "vh_snapshot ops h (mesh_self_id m1) = (h1, rows)" by fastforce
  have "set (map rv_label rows) = labels h" using snapshot_labels [OF sn] by simp
  then have "restart_orphans ops (map rv_label rows) h1 orphans [] = (h1, Ok [])"
    using h(2) o by (intro restart_noop) (simp del: set_map)
  then show ?thesis using True h(1) o sn by (simp add: run_supervisor_step_def)
qed (simp add: run_supervisor_step_def)

lemma refresh_keeps:
  assumes "mesh_ok m" "mesh_orphaned_vms m = (m1, orphans)"
  shows "mesh_ok m1 \<and> is_supervisor m1 = is_supervisor m \<and> me_host m1 = me_host m \<and> mesh_self_id m1 = mesh_self_id m \<and>
    set (snd (mesh_orphaned_vms m1)) \<subseteq> set orphans"
proof -
  have m1: "m1 = fst (mesh_list_vms m)" "orphans = snd (mesh_orphaned_vms m)"
    using assms(2) by (auto simp: mesh_orphaned_vms_def split: prod.splits)
  have ok: "mesh_ok m1" using refresh_evolves [OF assms(1)] evolves_ok m1 by blast
  have same: "in_membership (me_inner m1) = in_membership (me_inner m)" "mesh_self_id m1 = mesh_self_id m" "me_host m1 = me_host m"
    by (simp_all add: m1 mesh_list_vms_def mesh_self_id_def Let_def)
  have "in_federation (me_inner m1) = fed_refresh_alive (in_federation (me_inner m)) (alive_in (in_membership (me_inner m)))"
    by (simp add: m1 mesh_list_vms_def Let_def)
  then have "\<exists>r0. map_of (fd_rows (in_federation (me_inner m))) k = Some r0 \<and> r0\<lparr>rv_owner_alive := False\<rparr> = r\<lparr>rv_owner_alive := False\<rparr> \<and>
      rv_owner r0 = rv_owner r \<and> rv_restart_policy r0 = rv_restart_policy r"
    if "map_of (fd_rows (in_federation (me_inner m1))) k = Some r" for k r
    using that by (auto simp: map_of_refresh)
  then have "set (snd (mesh_orphaned_vms m1)) \<subseteq> set orphans"
    unfolding m1(2) subset_eq Ball_def orphans_iff [OF ok] orphans_iff [OF assms(1)] same by metis
  moreover have "is_supervisor m1 = is_supervisor m" by (simp add: is_supervisor_def same)
  ultimately show ?thesis using ok same by simp
qed

lemma pass_covers:
  assumes "mesh_ok m" "is_supervisor m" "run_supervisor_step ship now ops m = (m', outs, Ok out)"
  shows "covered m'"
proof -
  obtain h where h: "me_host m = Some h" using assms(2,3) by (cases "me_host m") (auto simp: run_supervisor_step_def)
  obtain m1 orphans where o: "mesh_orphaned_vms m = (m1, orphans)" by fastforce
  note k = refresh_keeps [OF assms(1) o]
  obtain h1 rows where sn: "vh_snapshot ops h (mesh_self_id m1) = (h1, rows)" by fastforce
  obtain h2 res where rs: "restart_orphans ops (map rv_label rows) h1 orphans [] = (h2, res)" by fastforce
  show ?thesis
  proof (cases "orphans = []")
    case True
    then have "m' = m1" using assms(2,3) h o by (simp add: run_supervisor_step_def)
    then show ?thesis using k h True by (simp add: covered_def)
  next
    case False
    have out: "res = Ok out" using assms(2,3) h o sn rs False
      by (auto simp: run_supervisor_step_def split: result.splits if_splits prod.splits)
    have lab: "labels h1 = labels h" "set (map rv_label rows) = labels h" using snapshot_labels [OF sn] by auto
    have fin: "\<exists>l. restart_label r = Some l \<and> l \<in> labels h2" if "r \<in> set orphans" for r
      using restart_complete [OF rs [unfolded out]] that unfolding lab by blast
    show ?thesis
    proof (cases "out = []")
      case True
      then have "m' = m1\<lparr>me_host := Some h2\<rparr>" using assms(2,3) h o sn rs False out by (simp add: run_supervisor_step_def)
      moreover have "snd (mesh_orphaned_vms (m1\<lparr>me_host := Some h2\<rparr>)) = snd (mesh_orphaned_vms m1)"
        by (simp add: mesh_orphaned_vms_def mesh_list_vms_def Let_def)
      ultimately show ?thesis using k fin by (auto simp: covered_def)
    next
      case False
      let ?m = "m1\<lparr>me_metrics := (me_metrics m1)\<lparr>mm_supervisor_restarts :=
        mm_supervisor_restarts (me_metrics m1) + of_nat (length out)\<rparr>\<rparr>"
      obtain h3 rows3 where s3: "vh_snapshot ops h2 (mesh_self_id m1) = (h3, rows3)" by fastforce
      have p: "publish_local_vms ship now (?m\<lparr>me_host := Some h3\<rparr>) rows3 = (m', outs)"
        using assms(2,3) h o sn rs \<open>orphans \<noteq> []\<close> out False s3
        by (simp add: run_supervisor_step_def republish_after_op_def mesh_self_id_def split: prod.splits)
      have ok: "mesh_ok (?m\<lparr>me_host := Some h3\<rparr>)"
        using k same_tables_ok [of m1 "?m\<lparr>me_host := Some h3\<rparr>"] by (simp add: same_tables_def)
      have same: "snd (mesh_orphaned_vms (?m\<lparr>me_host := Some h3\<rparr>)) = snd (mesh_orphaned_vms m1)"
        by (simp add: mesh_orphaned_vms_def mesh_list_vms_def Let_def)
      have "labels h3 = labels h2" using snapshot_labels [OF s3] by simp
      moreover have "me_host m' = Some h3" "set (snd (mesh_orphaned_vms m')) \<subseteq> set orphans"
        using publish_orphans [OF ok p] k unfolding same by auto
      ultimately show ?thesis using fin by (auto simp: covered_def)
    qed
  qed
qed

end

definition host_labels :: "mem_vm_host \<Rightarrow> string set" where
  "host_labels h = {l. Some l \<in> set (map (map_option sl_label) (mh_slots h))}"

lemma host_labelsD: "l \<in> host_labels h \<Longrightarrow> \<exists>s. Some s \<in> set (mh_slots h) \<and> sl_label s = l"
  by (auto simp: host_labels_def image_iff eq_commute [of "Some l"])

lemma alloc_slot_labels:
  "alloc_slot s slots = Some (ss, i) \<Longrightarrow>
     Some l \<in> set (map (map_option sl_label) ss) \<longleftrightarrow> l = sl_label s \<or> Some l \<in> set (map (map_option sl_label) slots)"
  by (induction s slots arbitrary: ss i rule: alloc_slot.induct) auto

lemma host_row_labels:
  "l \<in> rv_label ` set (concat (map (host_row nid) (enumerate n slots))) \<longleftrightarrow> Some l \<in> set (map (map_option sl_label) slots)"
proof (induction slots arbitrary: n)
  case (Cons s slots)
  have "l \<in> rv_label ` set (host_row nid (n, s)) \<longleftrightarrow> Some l = map_option sl_label s"
    by (cases s) (auto simp: host_row_def)
  with Cons.IH [of "Suc n"] show ?case by (simp add: image_Un)
qed simp

lemma update_slot_labels:
  assumes "slots ! i = Some s" "sl_label s' = sl_label s"
  shows "map (map_option sl_label) (slots[i := Some s']) = map (map_option sl_label) slots"
proof (cases "i < length slots")
  case True
  then have "(map (map_option sl_label) slots) ! i = Some (sl_label s)" using assms(1) by simp
  then show ?thesis using assms(2) by (simp add: map_update) (metis list_update_id)
qed (simp add: not_less list_update_beyond)

interpretation mem_host: vm_host_labels mem_vm_host_dyn host_labels
proof
  fix h h' :: mem_vm_host and nid rows
  assume s: "vh_snapshot mem_vm_host_dyn h nid = (h', rows)"
  then have slots: "mh_slots h' = mh_slots h"
    by (auto simp: mem_vm_host_dyn_def host_snapshot_def remember_owner_def Let_def split: option.splits)
  have "rows = concat (map (host_row nid) (enumerate 0 (mh_slots h)))"
    using s slots by (auto simp: mem_vm_host_dyn_def host_snapshot_def Let_def)
  then have "rv_label ` set rows = host_labels h"
    using host_row_labels [of _ nid 0 "mh_slots h"] by (simp add: host_labels_def set_eq_iff)
  then show "rv_label ` set rows = host_labels h \<and> host_labels h' = host_labels h" by (simp add: host_labels_def slots)
next
  fix h h' :: mem_vm_host and l p i c mm b reply
  assume "vh_handle mem_vm_host_dyn h (VmCreate l p i c mm b) = (h', Ok reply)"
  then have "host_create h l p i c mm b = (h', Ok reply)"
    by (simp add: mem_vm_host_dyn_def host_apply_def split: if_splits)
  then show "(\<exists>n. reply = Created n) \<and> host_labels h' = insert l (host_labels h)"
    by (auto simp: host_create_def host_labels_def alloc_slot_labels simp del: set_map split: if_splits option.splits)
next
  fix h :: mem_vm_host and n vs
  show "host_labels (fst (vh_attach_preserved mem_vm_host_dyn h n vs)) = host_labels h"
    by (auto simp: mem_vm_host_dyn_def host_attach_preserved_def host_labels_def set_slot_def slot_mut_def update_slot_labels
      simp del: set_map split: result.splits if_splits)
qed

lemma node_ok:
  assumes "rtranclp (cluster_step ops) (Map.empty, {}) (c, net)" "c n = Some m"
  shows "mesh_ok m" "mesh_self_id m = n"
  using cluster_reachable_inv [OF assms(1)] assms(2) by (auto simp: cluster_inv_def)

text \<open>
  The derived label is cut at 32 bytes; when that falls inside a multi-byte character of the owner's
  id the pass panics, before any later orphan is looked at. A label within its limit and an id with
  one accented letter are enough.
\<close>

lemma supervisor_panics:
  "\<exists>r. length (rv_label r) = 30 \<and> rv_owner r = [CHR 0xC3, CHR 0xA9] \<and>
     restart_orphans ops ex h (r # rs) out = (h, Err Panicked)"
proof -
  let ?r = "(demo_vm [CHR 0xC3, CHR 0xA9] 0 ''created'' 1)\<lparr>rv_label := ''aaaaaaaaaaaaaaaaaaaaaaaaaaaaaa''\<rparr>"
  have "restart_label ?r = None"
    by (simp add: restart_label_def demo_vm_def is_char_boundary_def)
  then show ?thesis by (intro exI [of _ ?r]) (simp add: demo_vm_def)
qed



text \<open>
  The election is a function of the view: a node is the supervisor if and only if its id is the
  smallest among the nodes it sees alive (itself included), so two nodes that see the same nodes
  alive never both act.
\<close>

lemma supervisor_election:
  assumes "rtranclp (cluster_step ops) (Map.empty, {}) (c, net)" "c n = Some m" "c n' = Some m'"
  shows "(is_supervisor m \<longleftrightarrow> (\<forall>k. alive_in (in_membership (me_inner m)) k \<longrightarrow> n \<le> k)) \<and>
    (is_supervisor m \<and> is_supervisor m' \<and>
     (\<forall>k. alive_in (in_membership (me_inner m)) k = alive_in (in_membership (me_inner m')) k) \<longrightarrow> n = n')"
proof -
  note m = node_ok [OF assms(1,2)] and m' = node_ok [OF assms(1,3)]
  have mem: "member_ok n (in_membership (me_inner m))" "member_ok n' (in_membership (me_inner m'))"
    using m m' by (auto simp: mesh_ok_def)
  have alive: "alive_in (in_membership (me_inner m)) n" "alive_in (in_membership (me_inner m')) n'"
    using mem by (simp_all add: alive_in_iff [OF mem(1)] alive_in_iff [OF mem(2)]) (simp_all add: member_ok_def)
  note iff = is_supervisor_iff [OF m(1), unfolded m(2)] is_supervisor_iff [OF m'(1), unfolded m'(2)]
  have "n = n'" if "is_supervisor m" "is_supervisor m'"
    "\<And>k. alive_in (in_membership (me_inner m)) k = alive_in (in_membership (me_inner m')) k"
  proof (rule antisym)
    show "n \<le> n'" using that(1) alive(2) that(3) iff(1) by blast
    show "n' \<le> n" using that(2) alive(1) that(3) iff(2) by blast
  qed
  then show ?thesis using iff(1) by blast
qed

end
