(* ===== verification/Hyper_Wire.thy ===== *)
theory Hyper_Wire
  imports Text_Format
begin

text \<open>
  The kernel side of the hypervisor bridge: \<^verbatim>\<open>celhyper/src/error.rs\<close>, the hand-written JSON
  request decoder and reply encoder of \<^verbatim>\<open>wire.rs\<close>, and the checksum of \<^verbatim>\<open>crc.rs\<close>. A byte slice is
  a \<^typ>\<open>string\<close>, one character per byte. The scanner's position is the rest of the input; the
  writer's buffer is the bytes written so far, with the capacity as an argument. The fixed-size
  label, path and message buffers are their valid prefixes. A \<^verbatim>\<open>debug_assert\<close> or array index that
  cannot fail is left out; the digit buffers are shown to be long enough.
\<close>

subsection \<open>Errors\<close>

datatype hyper_error =
    HInvalidHandoff string
  | HUnsupportedCpu string
  | HHardware string
  | HExhausted string
  | HDenied string
  | HInvalid string
  | HUnimplemented string
  | HInternal string

type_synonym 'a hyper_result = "(hyper_error, 'a) result"

subsection \<open>Messages\<close>

definition LABEL_MAX :: nat where "LABEL_MAX = 32"
definition IMAGE_PATH_MAX :: nat where "IMAGE_PATH_MAX = 128"
definition ERROR_MSG_MAX :: nat where "ERROR_MSG_MAX = 96"
definition ROWS_MAX :: nat where "ROWS_MAX = 4"

datatype request =
    RqCreate string "string option" "u32 option" "u64 option" "u32 option"
  | RqStart u32
  | RqStop u32
  | RqDelete u32
  | RqList
  | RqImageLoad u32 u32 string

datatype state_tag = TagCreated | TagRunning | TagHalted | TagStopped | TagFaulted

fun tag_str :: "state_tag \<Rightarrow> string" where
  "tag_str TagCreated = ''created''"
| "tag_str TagRunning = ''running''"
| "tag_str TagHalted = ''halted''"
| "tag_str TagStopped = ''stopped''"
| "tag_str TagFaulted = ''faulted''"

record wire_row =
  wr_vm_id :: u32
  wr_label :: string
  wr_state :: state_tag
  wr_last_exit :: "u32 option"
  wr_image_path :: string
  wr_cpu_count :: "u32 option"
  wr_memory_mib :: "u64 option"
  wr_boot_blob_crc32c :: "u32 option"

datatype reply =
    RpCreated u32
  | RpState u32 state_tag "u32 option"
  | RpDeleted u32
  | RpListed "wire_row option list"
  | RpImageLoaded u32 u32
  | RpError string

definition label_from_slice :: "string \<Rightarrow> string option" where
  "label_from_slice src = (if LABEL_MAX < length src then None else Some src)"

definition image_path_from_slice :: "string \<Rightarrow> string option" where
  "image_path_from_slice src = (if IMAGE_PATH_MAX < length src then None else Some src)"

definition error_from_slice_truncating :: "string \<Rightarrow> string" where
  "error_from_slice_truncating src =
     (let n = (if ERROR_MSG_MAX < length src then ERROR_MSG_MAX else length src) in take n src)"

subsection \<open>The scanner\<close>

abbreviation dquote :: char where "dquote \<equiv> CHR 0x22"
abbreviation backslash :: char where "backslash \<equiv> CHR 0x5C"

definition is_ws :: "char \<Rightarrow> bool" where
  "is_ws c \<longleftrightarrow> c = CHR '' '' \<or> c = CHR 0x09 \<or> c = CHR 0x0D \<or> c = CHR 0x0A"

definition skip_ws :: "string \<Rightarrow> string" where
  "skip_ws s = dropWhile is_ws s"

definition expect :: "char \<Rightarrow> string \<Rightarrow> string hyper_result" where
  "expect want s = (case s of b # r \<Rightarrow> if b = want then Ok r else Err (HInvalid ''wire: unexpected byte'')
                    | [] \<Rightarrow> Err (HInvalid ''wire: unexpected byte''))"

fun string_body :: "string \<Rightarrow> (string \<times> string) hyper_result" where
  "string_body [] = Err (HInvalid ''wire: unterminated string'')"
| "string_body (b # r) =
     (if b = dquote then Ok ([], r)
      else if b = backslash then Err (HInvalid ''wire: escapes not allowed'')
      else bind_result (string_body r) (\<lambda>(s, t). Ok (b # s, t)))"

definition sc_string :: "string \<Rightarrow> (string \<times> string) hyper_result" where
  "sc_string s = bind_result (expect dquote s) string_body"

definition sc_number :: "nat \<Rightarrow> string \<Rightarrow> string \<Rightarrow> (nat \<times> string) hyper_result" where
  "sc_number mx overflow s =
     (let ds = takeWhile is_digit_char s; r = dropWhile is_digit_char s in
      if ds = [] then Err (HInvalid ''wire: expected number'')
      else (case parse_digits mx 0 ds of None \<Rightarrow> Err (HInvalid overflow) | Some n \<Rightarrow> Ok (n, r)))"

definition u32_value :: "string \<Rightarrow> (u32 \<times> string) hyper_result" where
  "u32_value s = bind_result (sc_number (2 ^ 32 - 1) ''wire: u32 overflow'' s) (\<lambda>(n, r). Ok (of_nat n, r))"

definition u64_value :: "string \<Rightarrow> (u64 \<times> string) hyper_result" where
  "u64_value s = bind_result (sc_number (2 ^ 64 - 1) ''wire: u64 overflow'' s) (\<lambda>(n, r). Ok (of_nat n, r))"

definition try_consume_null :: "string \<Rightarrow> bool \<times> string" where
  "try_consume_null s = (if take 4 s = ''null'' then (True, drop 4 s) else (False, s))"

lemma string_body_shorter: "string_body s = Ok (v, r) \<Longrightarrow> length r < length s"
  by (induction s arbitrary: v r) (auto simp: bind_result_eq_Ok less_SucI split: if_splits)

lemma sc_string_shorter: "sc_string s = Ok (v, r) \<Longrightarrow> length r < length s"
  by (auto simp: sc_string_def bind_result_eq_Ok expect_def split: list.splits if_splits dest: string_body_shorter)

lemma length_skip_ws: "length (skip_ws s) \<le> length s"
  by (simp add: skip_ws_def length_dropWhile_le)

text \<open>The bracket walk of \<^verbatim>\<open>skip_value\<close>: strings are skipped whole, only the outer kind of bracket counts.\<close>

function skip_nested :: "char \<Rightarrow> char \<Rightarrow> nat \<Rightarrow> string \<Rightarrow> string hyper_result" where
  "skip_nested op cl depth s =
     (if depth = 0 then Ok s
      else (case skip_ws s of
              [] \<Rightarrow> Err (HInvalid ''wire: eof'')
            | b # r \<Rightarrow>
                if b = dquote then
                  (case sc_string (b # r) of Err e \<Rightarrow> Err e | Ok (_, t) \<Rightarrow> skip_nested op cl depth t)
                else if b = op then skip_nested op cl (depth + 1) r
                else if b = cl then skip_nested op cl (depth - 1) r
                else skip_nested op cl depth r))"
  by pat_completeness auto
termination
proof (relation "measure (\<lambda>(_, _, _, s). length s)"; clarsimp)
  fix s b r v t
  assume "skip_ws s = b # r" "sc_string (b # r) = Ok (v, t)"
  then show "length t < length s" using sc_string_shorter length_skip_ws [of s] by fastforce
next
  fix s b r assume "skip_ws s = b # r"
  then show "length r < length s" using length_skip_ws [of s] by simp
next
  fix s b r assume "skip_ws s = b # r"
  then show "length r < length s" using length_skip_ws [of s] by simp
next
  fix s b r assume "skip_ws s = b # r"
  then show "length r < length s" using length_skip_ws [of s] by simp
qed

declare skip_nested.simps [simp del]

definition value_end :: "char \<Rightarrow> bool" where
  "value_end b \<longleftrightarrow> b = CHR '','' \<or> b = CHR ''}'' \<or> b = CHR '']'' \<or> is_ws b"

definition skip_value :: "string \<Rightarrow> string hyper_result" where
  "skip_value s =
     (case skip_ws s of
        [] \<Rightarrow> Err (HInvalid ''wire: eof in value'')
      | b # r \<Rightarrow>
          if b = dquote then bind_result (sc_string (b # r)) (\<lambda>(_, t). Ok t)
          else if b = CHR ''{'' then skip_nested (CHR ''{'') (CHR ''}'') 1 r
          else if b = CHR ''['' then skip_nested (CHR ''['') (CHR '']'') 1 r
          else Ok (dropWhile (\<lambda>b. \<not> value_end b) (b # r)))"

subsection \<open>The request decoder\<close>

record wire_fields =
  wf_op :: "string option"
  wf_label :: "string option"
  wf_vm_id :: "u32 option"
  wf_image_path :: "string option"
  wf_cpu_count :: "u32 option"
  wf_memory_mib :: "u64 option"
  wf_boot_blob_crc32c :: "u32 option"
  wf_len :: "u32 option"
  wf_crc32c :: "u32 option"
  wf_bytes_hex :: "string option"

definition no_fields :: wire_fields where
  "no_fields = \<lparr>wf_op = None, wf_label = None, wf_vm_id = None, wf_image_path = None, wf_cpu_count = None,
     wf_memory_mib = None, wf_boot_blob_crc32c = None, wf_len = None, wf_crc32c = None, wf_bytes_hex = None\<rparr>"

text \<open>A value that may be the literal \<^verbatim>\<open>null\<close>.\<close>

definition nullable :: "(string \<Rightarrow> ('a \<times> string) hyper_result) \<Rightarrow> string \<Rightarrow> ('a option \<times> string) hyper_result" where
  "nullable p s =
     (case try_consume_null s of
        (True, r) \<Rightarrow> Ok (None, r)
      | (False, r) \<Rightarrow> bind_result (p r) (\<lambda>(v, t). Ok (Some v, t)))"

text \<open>One arm of the \<^verbatim>\<open>match key\<close>: the fields and the rest of the input after the value.\<close>

definition field_value :: "string \<Rightarrow> wire_fields \<Rightarrow> string \<Rightarrow> (wire_fields \<times> string) hyper_result" where
  "field_value key f s =
     (if key = ''op'' then bind_result (sc_string (skip_ws s)) (\<lambda>(v, r). Ok (f\<lparr>wf_op := Some v\<rparr>, r))
      else if key = ''label'' then bind_result (sc_string (skip_ws s)) (\<lambda>(v, r). Ok (f\<lparr>wf_label := Some v\<rparr>, r))
      else if key = ''vm_id'' then bind_result (u32_value (skip_ws s)) (\<lambda>(v, r). Ok (f\<lparr>wf_vm_id := Some v\<rparr>, r))
      else if key = ''image_path'' then
        bind_result (nullable sc_string (skip_ws s)) (\<lambda>(v, r). Ok (f\<lparr>wf_image_path := v\<rparr>, r))
      else if key = ''cpu_count'' then
        bind_result (nullable u32_value (skip_ws s)) (\<lambda>(v, r). Ok (f\<lparr>wf_cpu_count := v\<rparr>, r))
      else if key = ''memory_mib'' then
        bind_result (nullable u64_value (skip_ws s)) (\<lambda>(v, r). Ok (f\<lparr>wf_memory_mib := v\<rparr>, r))
      else if key = ''boot_blob_crc32c'' then
        bind_result (nullable u32_value (skip_ws s)) (\<lambda>(v, r). Ok (f\<lparr>wf_boot_blob_crc32c := v\<rparr>, r))
      else if key = ''len'' then bind_result (u32_value (skip_ws s)) (\<lambda>(v, r). Ok (f\<lparr>wf_len := Some v\<rparr>, r))
      else if key = ''crc32c'' then bind_result (u32_value (skip_ws s)) (\<lambda>(v, r). Ok (f\<lparr>wf_crc32c := Some v\<rparr>, r))
      else if key = ''bytes_hex'' then bind_result (sc_string (skip_ws s)) (\<lambda>(v, r). Ok (f\<lparr>wf_bytes_hex := Some v\<rparr>, r))
      else bind_result (skip_value s) (\<lambda>r. Ok (f, r)))"

definition one_field :: "wire_fields \<Rightarrow> string \<Rightarrow> (wire_fields \<times> string) hyper_result" where
  "one_field f s =
     bind_result (sc_string s) (\<lambda>(key, r).
     bind_result (expect (CHR '':'') (skip_ws r)) (\<lambda>r. field_value key f r))"

lemma sc_number_shorter: "sc_number mx o' s = Ok (n, r) \<Longrightarrow> length r \<le> length s"
  by (auto simp: sc_number_def Let_def length_dropWhile_le split: if_splits option.splits)

lemma skip_nested_shorter: "skip_nested op cl d s = Ok r \<Longrightarrow> length r \<le> length s"
proof (induction op cl d s rule: skip_nested.induct)
  case (1 op cl depth s)
  show ?case
  proof (cases "depth = 0")
    case False
    with 1(5) obtain b u where b: "skip_ws s = b # u" by (auto simp: skip_nested.simps [of op cl depth s] split: list.splits)
    note len = length_skip_ws [of s, unfolded b]
    show ?thesis
    proof (cases "b = dquote")
      case True
      with 1(5) False b obtain v t where t: "sc_string (b # u) = Ok (v, t)" "skip_nested op cl depth t = Ok r"
        by (auto simp: skip_nested.simps [of op cl depth s] split: result.splits)
      from 1(1) [OF False b True t(1) refl t(2)] sc_string_shorter [OF t(1)] len show ?thesis by simp
    next
      case nq: False
      from 1(5) False b nq have rec: "skip_nested op cl (if b = op then depth + 1 else if b = cl then depth - 1 else depth) u = Ok r"
        by (auto simp: skip_nested.simps [of op cl depth s])
      have "length r \<le> length u"
        using 1(2) [OF False b nq] 1(3) [OF False b nq] 1(4) [OF False b nq] rec by (auto split: if_splits)
      then show ?thesis using len by simp
    qed
  qed (use 1(5) in \<open>simp add: skip_nested.simps [of op cl 0 s]\<close>)
qed

lemma skip_value_shorter:
  assumes "skip_value s = Ok r"
  shows "length r \<le> length s"
proof -
  obtain b u where b: "skip_ws s = b # u" using assms by (auto simp: skip_value_def split: list.splits)
  have "length r \<le> Suc (length u)"
    using assms length_dropWhile_le [of "\<lambda>b. \<not> value_end b" "b # u"]
    by (auto simp: skip_value_def b bind_result_eq_Ok simp del: dropWhile.simps
        dest!: sc_string_shorter skip_nested_shorter split: if_splits)
  then show ?thesis using length_skip_ws [of s] b by simp
qed

lemma value_shorter:
  "u32_value s = Ok (n, r) \<Longrightarrow> length r \<le> length s" "u64_value s = Ok (m, r) \<Longrightarrow> length r \<le> length s"
  "nullable sc_string s = Ok (v, r) \<Longrightarrow> length r \<le> length s"
  "nullable u32_value s = Ok (n', r) \<Longrightarrow> length r \<le> length s" "nullable u64_value s = Ok (m', r) \<Longrightarrow> length r \<le> length s"
  by (auto simp: u32_value_def u64_value_def nullable_def try_consume_null_def bind_result_eq_Ok
      dest!: sc_number_shorter sc_string_shorter split: if_splits)

lemma field_value_shorter: "field_value key f s = Ok (f', r) \<Longrightarrow> length r \<le> length s"
  using length_skip_ws [of s]
  by (auto simp: field_value_def bind_result_eq_Ok dest!: value_shorter skip_value_shorter sc_string_shorter split: if_splits)

lemma one_field_shorter: "one_field f s = Ok (f', r) \<Longrightarrow> length r < length s"
proof -
  assume "one_field f s = Ok (f', r)"
  then obtain key t u where "sc_string s = Ok (key, t)" "expect (CHR '':'') (skip_ws t) = Ok u" "field_value key f u = Ok (f', r)"
    by (auto simp: one_field_def bind_result_eq_Ok)
  moreover from this(2) have "length u < length (skip_ws t)" by (auto simp: expect_def split: list.splits if_splits)
  ultimately show ?thesis using sc_string_shorter field_value_shorter length_skip_ws [of t] by fastforce
qed

function fields_loop :: "wire_fields \<Rightarrow> string \<Rightarrow> (wire_fields \<times> string) hyper_result" where
  "fields_loop f s =
     (let s = skip_ws s in
      if take 1 s = ''}'' then Ok (f, drop 1 s)
      else
        (case one_field f s of
           Err e \<Rightarrow> Err e
         | Ok (f', r) \<Rightarrow>
             (let r = skip_ws r in
              if take 1 r = '','' then fields_loop f' (drop 1 r)
              else bind_result (expect (CHR ''}'') r) (\<lambda>t. Ok (f', t)))))"
  by pat_completeness auto
termination
proof (relation "measure (\<lambda>(_, s). length s)"; clarsimp)
  fix f s f' r
  assume "one_field f (skip_ws s) = Ok (f', r)"
  then have "length r < length (skip_ws s)" by (rule one_field_shorter)
  then show "length (skip_ws r) - Suc 0 < length s"
    using length_skip_ws [of s] length_skip_ws [of r] by linarith
qed

declare fields_loop.simps [simp del]

definition need :: "string \<Rightarrow> 'a option \<Rightarrow> 'a hyper_result" where
  "need msg x = ok_or (HInvalid msg) x"

definition build_request :: "wire_fields \<Rightarrow> request hyper_result" where
  "build_request f =
     bind_result (need ''wire: request missing op'' (wf_op f)) (\<lambda>op.
     if op = ''create'' then
       bind_result (need ''wire: create missing label'' (wf_label f)) (\<lambda>lbl.
       if LABEL_MAX < length lbl then Err (HInvalid ''wire: label > 32 chars'')
       else if (case wf_image_path f of None \<Rightarrow> False | Some p \<Rightarrow> IMAGE_PATH_MAX < length p)
         then Err (HInvalid ''wire: image_path > 128 chars'')
       else Ok (RqCreate lbl (wf_image_path f) (wf_cpu_count f) (wf_memory_mib f) (wf_boot_blob_crc32c f)))
     else if op = ''start'' then bind_result (need ''wire: start missing vm_id'' (wf_vm_id f)) (\<lambda>v. Ok (RqStart v))
     else if op = ''stop'' then bind_result (need ''wire: stop missing vm_id'' (wf_vm_id f)) (\<lambda>v. Ok (RqStop v))
     else if op = ''delete'' then bind_result (need ''wire: delete missing vm_id'' (wf_vm_id f)) (\<lambda>v. Ok (RqDelete v))
     else if op = ''list'' then Ok RqList
     else if op = ''image_load'' then
       bind_result (need ''wire: image_load missing len'' (wf_len f)) (\<lambda>len.
       bind_result (need ''wire: image_load missing crc32c'' (wf_crc32c f)) (\<lambda>crc.
       bind_result (need ''wire: image_load missing bytes_hex'' (wf_bytes_hex f)) (\<lambda>hex.
       if length hex \<noteq> unat len * 2 then Err (HInvalid ''wire: image_load bytes_hex length != 2*len'')
       else Ok (RqImageLoad len crc hex))))
     else Err (HInvalid ''wire: unknown op''))"

definition decode_request :: "string \<Rightarrow> request hyper_result" where
  "decode_request frm =
     bind_result (expect (CHR ''{'') frm) (\<lambda>s.
     bind_result (fields_loop no_fields s) (\<lambda>(f, r).
     if skip_ws r \<noteq> [] then Err (HInvalid ''wire: trailing bytes after request'')
     else build_request f))"

subsection \<open>The reply encoder\<close>

text \<open>
  A writer call appends its bytes or reports that they do not fit. \<open>put_parts\<close> is a sequence of
  such calls; the parts of a reply are the arguments of the encoder's calls in order.
\<close>

definition put_str :: "nat \<Rightarrow> string \<Rightarrow> string \<Rightarrow> string hyper_result" where
  "put_str cap out s =
     (if cap < length out + length s then Err (HExhausted ''wire: reply buffer too small'') else Ok (out @ s))"

fun put_parts :: "nat \<Rightarrow> string \<Rightarrow> string list \<Rightarrow> string hyper_result" where
  "put_parts cap out [] = Ok out"
| "put_parts cap out (p # ps) = bind_result (put_str cap out p) (\<lambda>out'. put_parts cap out' ps)"

fun dec_loop :: "nat \<Rightarrow> string \<Rightarrow> string" where
  "dec_loop n acc = (if n = 0 then acc else dec_loop (n div 10) (digit_char (n mod 10) # acc))"

declare dec_loop.simps [simp del]

definition dec_digits :: "nat \<Rightarrow> string" where
  "dec_digits v = (if v = 0 then ''0'' else dec_loop v [])"

definition jstr :: "string \<Rightarrow> string" where "jstr s = dquote # s @ [dquote]"
definition jkey :: "string \<Rightarrow> string" where "jkey k = jstr k @ '':''"

definition opt_part :: "string \<Rightarrow> nat option \<Rightarrow> string list" where
  "opt_part k v = (case v of None \<Rightarrow> [] | Some n \<Rightarrow> ['','' @ jkey k, dec_digits n])"

definition row_parts :: "wire_row \<Rightarrow> string list" where
  "row_parts r =
     [''{'' @ jkey ''vm_id'', dec_digits (unat (wr_vm_id r)), '','' @ jkey ''label'' @ [dquote], wr_label r,
      dquote # '','' @ jkey ''state'' @ [dquote], tag_str (wr_state r), [dquote]] @
     opt_part ''last_exit'' (map_option unat (wr_last_exit r)) @
     (if wr_image_path r = [] then []
      else ['','' @ jkey ''image_path'' @ [dquote], wr_image_path r, [dquote]]) @
     opt_part ''cpu_count'' (map_option unat (wr_cpu_count r)) @
     opt_part ''memory_mib'' (map_option unat (wr_memory_mib r)) @
     opt_part ''boot_blob_crc32c'' (map_option unat (wr_boot_blob_crc32c r)) @ [''}'']"

fun rows_parts :: "bool \<Rightarrow> wire_row list \<Rightarrow> string list" where
  "rows_parts first [] = []"
| "rows_parts first (r # rs) = (if first then [] else ['','']) @ row_parts r @ rows_parts False rs"

definition escape_byte :: "char \<Rightarrow> string list" where
  "escape_byte b =
     (if b = dquote then [[backslash, dquote]]
      else if b = backslash then [[backslash, backslash]]
      else if (of_char b :: nat) \<le> 0x1F then []
      else [[b]])"

fun reply_parts :: "reply \<Rightarrow> string list" where
  "reply_parts (RpCreated vm_id) = [''{'' @ jkey ''reply'' @ jstr ''created'' @ '','' @ jkey ''vm_id'', dec_digits (unat vm_id), ''}'']"
| "reply_parts (RpState vm_id st last_exit) =
     [''{'' @ jkey ''reply'' @ jstr ''state'' @ '','' @ jkey ''vm_id'', dec_digits (unat vm_id),
      '','' @ jkey ''state'' @ [dquote], tag_str st, [dquote]] @ opt_part ''last_exit'' (map_option unat last_exit) @ [''}'']"
| "reply_parts (RpDeleted vm_id) = [''{'' @ jkey ''reply'' @ jstr ''deleted'' @ '','' @ jkey ''vm_id'', dec_digits (unat vm_id), ''}'']"
| "reply_parts (RpListed rows) =
     (''{'' @ jkey ''reply'' @ jstr ''listed'' @ '','' @ jkey ''rows'' @ ''['') #
     rows_parts True (List.map_filter id rows) @ ['']}'']"
| "reply_parts (RpImageLoaded len crc) =
     [''{'' @ jkey ''reply'' @ jstr ''image_loaded'' @ '','' @ jkey ''len'', dec_digits (unat len),
      '','' @ jkey ''crc32c'', dec_digits (unat crc), ''}'']"
| "reply_parts (RpError message) =
     (''{'' @ jkey ''reply'' @ jstr ''error'' @ '','' @ jkey ''message'' @ [dquote]) #
     concat (map escape_byte message) @ [dquote # ''}'']"

definition encode_reply :: "nat \<Rightarrow> reply \<Rightarrow> string hyper_result" where
  "encode_reply cap r = put_parts cap [] (reply_parts r @ [[CHR 0x0A]])"

subsection \<open>Hexadecimal and checksum\<close>

definition hex_nibble :: "char \<Rightarrow> u8 hyper_result" where
  "hex_nibble b =
     (let n = (of_char b :: nat) in
      if 48 \<le> n \<and> n \<le> 57 then Ok (of_nat (n - 48))
      else if 97 \<le> n \<and> n \<le> 102 then Ok (10 + of_nat (n - 97))
      else Err (HInvalid ''wire: hex_decode non-hex byte''))"

fun hex_loop :: "string \<Rightarrow> bytes hyper_result" where
  "hex_loop (a # b # s) =
     bind_result (hex_nibble a) (\<lambda>hi. bind_result (hex_nibble b) (\<lambda>lo.
     bind_result (hex_loop s) (\<lambda>rest. Ok ((push_bit 4 hi OR lo) # rest))))"
| "hex_loop _ = Ok []"

definition hex_decode :: "string \<Rightarrow> nat \<Rightarrow> bytes hyper_result" where
  "hex_decode src dst_len =
     (if length src mod 2 \<noteq> 0 then Err (HInvalid ''wire: hex_decode odd input length'')
      else if dst_len < length src div 2 then Err (HExhausted ''wire: hex_decode dst too small'')
      else hex_loop src)"

definition crc_bit :: "u32 \<Rightarrow> u32" where
  "crc_bit state = (if state AND 1 \<noteq> 0 then drop_bit 1 state XOR 0x82F63B78 else drop_bit 1 state)"

fun crc32c_continue :: "u32 \<Rightarrow> bytes \<Rightarrow> u32" where
  "crc32c_continue state [] = state"
| "crc32c_continue state (b # bs) = crc32c_continue ((crc_bit ^^ 8) (state XOR ucast b)) bs"

definition crc32c :: "bytes \<Rightarrow> u32" where
  "crc32c bs = crc32c_continue 0xFFFFFFFF bs XOR 0xFFFFFFFF"

subsection \<open>Decoding what was printed\<close>

definition plain :: "string \<Rightarrow> bool" where
  "plain s \<longleftrightarrow> dquote \<notin> set s \<and> backslash \<notin> set s"

lemma string_body_plain: "plain s \<Longrightarrow> string_body (s @ dquote # r) = Ok (s, r)"
  by (induction s) (auto simp: plain_def)

lemma sc_string_jstr: "plain s \<Longrightarrow> sc_string (jstr s @ r) = Ok (s, r)"
  by (simp add: sc_string_def jstr_def expect_def string_body_plain)

lemma dec_loop_show: "0 < n \<Longrightarrow> dec_loop n acc = show_nat n @ acc"
proof (induction n acc rule: dec_loop.induct)
  case (1 n acc)
  show ?case
  proof (cases "n < 10")
    case True
    with 1(2) show ?thesis by (simp add: dec_loop.simps [of n] dec_loop.simps [of 0] show_nat.simps [of n])
  next
    case False
    with 1 show ?thesis by (simp add: dec_loop.simps [of n] show_nat.simps [of n])
  qed
qed

lemma dec_digits_show: "dec_digits n = show_nat n"
proof -
  have "char_of (of_char (CHR ''0'') :: nat) = CHR ''0''" by (rule char_of_char)
  then have "digit_char 0 = CHR ''0''" by (simp add: digit_char_def)
  then show ?thesis by (simp add: dec_digits_def dec_loop_show show_nat.simps [of 0])
qed

text \<open>The scratch buffers of \<^verbatim>\<open>put_u32\<close> and \<^verbatim>\<open>put_u64\<close> hold every value.\<close>

lemma length_show_nat: "n < 10 ^ k \<Longrightarrow> 0 < k \<Longrightarrow> length (show_nat n) \<le> k"
proof (induction k arbitrary: n)
  case (Suc k)
  show ?case
  proof (cases "n < 10")
    case False
    then have "0 < k" "n div 10 < 10 ^ k" using Suc.prems by (auto intro: gr0I simp: less_mult_imp_div_less mult.commute)
    with Suc.IH [of "n div 10"] False show ?thesis by (simp add: show_nat.simps [of n])
  qed (simp add: show_nat.simps [of n])
qed simp

lemma length_digits:
  "length (dec_digits (unat (a :: u32))) \<le> 10" "length (dec_digits (unat (b :: u64))) \<le> 20"
  using unat_lt_size [of a] unat_lt_size [of b] by (auto simp: dec_digits_show intro!: length_show_nat)

lemma sc_number_show:
  assumes "n \<le> mx" "\<And>c. r \<noteq> [] \<Longrightarrow> \<not> is_digit_char (hd r)"
  shows "sc_number mx o' (show_nat n @ r) = Ok (n, r)"
proof -
  have "takeWhile is_digit_char (show_nat n @ r) = show_nat n" "dropWhile is_digit_char (show_nat n @ r) = r"
    using show_nat_digits [of n] assms(2) by (cases r; simp add: list_all_iff takeWhile_append dropWhile_append)+
  with assms(1) show ?thesis by (simp add: sc_number_def Let_def parse_digits_show)
qed

text \<open>A field that is parsed as an update of the fields, whatever follows it in the object.\<close>

type_synonym text_field = "string \<times> string \<times> (wire_fields \<Rightarrow> wire_fields)"

definition field_ok :: "text_field \<Rightarrow> bool" where
  "field_ok x \<longleftrightarrow> (case x of (k, v, u) \<Rightarrow> plain k \<and>
     (\<forall>f c r. c = CHR '','' \<or> c = CHR ''}'' \<longrightarrow> field_value k f (v @ c # r) = Ok (u f, c # r)))"

fun object_body :: "text_field list \<Rightarrow> string" where
  "object_body [] = []"
| "object_body [(k, v, u)] = jkey k @ v"
| "object_body ((k, v, u) # fs) = jkey k @ v @ '','' @ object_body fs"

lemma one_field_text:
  assumes "field_ok (k, v, u)" "c = CHR '','' \<or> c = CHR ''}''"
  shows "one_field f (jkey k @ v @ c # r) = Ok (u f, c # r)"
proof -
  have "sc_string (jkey k @ v @ c # r) = Ok (k, CHR '':'' # v @ c # r)"
    using sc_string_jstr [of k "CHR '':'' # v @ c # r"] assms(1) by (simp add: jkey_def field_ok_def)
  with assms show ?thesis by (auto simp: one_field_def skip_ws_def is_ws_def expect_def field_ok_def)
qed

lemma fields_loop_text:
  assumes "\<forall>x \<in> set fs. field_ok x" "fs \<noteq> []"
  shows "fields_loop f (object_body fs @ CHR ''}'' # r) = Ok (fold (\<lambda>(k, v, u). u) fs f, r)"
  using assms
proof (induction fs arbitrary: f rule: object_body.induct)
  case (2 k v u)
  have "skip_ws (jkey k @ v @ CHR ''}'' # r) = jkey k @ v @ CHR ''}'' # r" "take 1 (jkey k @ v @ CHR ''}'' # r) \<noteq> ''}''"
    by (simp_all add: jkey_def jstr_def skip_ws_def is_ws_def)
  with 2 one_field_text [of k v u "CHR ''}''" f r] show ?case
    by (simp add: fields_loop.simps Let_def skip_ws_def is_ws_def expect_def)
next
  case (3 k v u x fs)
  let ?rest = "object_body (x # fs) @ CHR ''}'' # r"
  have "skip_ws (jkey k @ v @ CHR '','' # ?rest) = jkey k @ v @ CHR '','' # ?rest" "take 1 (jkey k @ v @ CHR '','' # ?rest) \<noteq> ''}''"
    by (simp_all add: jkey_def jstr_def skip_ws_def is_ws_def)
  moreover have "one_field f (jkey k @ v @ CHR '','' # ?rest) = Ok (u f, CHR '','' # ?rest)"
    using 3(2) one_field_text [of k v u] by simp
  moreover have "skip_ws (CHR '','' # ?rest) = CHR '','' # ?rest" by (simp add: skip_ws_def is_ws_def)
  ultimately have "fields_loop f (jkey k @ v @ CHR '','' # ?rest) = fields_loop (u f) ?rest"
    by (subst fields_loop.simps) (simp add: Let_def)
  with 3 show ?case by simp
qed simp

lemma field_texts:
  assumes "plain s"
  shows "field_ok (''op'', jstr s, \<lambda>f. f\<lparr>wf_op := Some s\<rparr>)" "field_ok (''label'', jstr s, \<lambda>f. f\<lparr>wf_label := Some s\<rparr>)"
    "field_ok (''image_path'', jstr s, \<lambda>f. f\<lparr>wf_image_path := Some s\<rparr>)" "field_ok (''bytes_hex'', jstr s, \<lambda>f. f\<lparr>wf_bytes_hex := Some s\<rparr>)"
  using sc_string_jstr [OF assms]
  by (simp_all add: field_ok_def field_value_def plain_def skip_ws_def is_ws_def nullable_def try_consume_null_def)
     (simp_all add: jstr_def is_ws_def)

lemma digits_start:
  "skip_ws (show_nat n @ r) = show_nat n @ r" "try_consume_null (show_nat n @ r) = (False, show_nat n @ r)"
proof -
  obtain d ds where d: "show_nat n = d # ds" "is_digit_char d"
    using show_nat_digits [of n] show_nat_not_Nil [of n] by (cases "show_nat n") auto
  then show "skip_ws (show_nat n @ r) = show_nat n @ r" by (auto simp: skip_ws_def is_ws_def is_digit_char_def)
  have "take 4 (show_nat n @ r) \<noteq> ''null''" using d by (auto simp: is_digit_char_def)
  then show "try_consume_null (show_nat n @ r) = (False, show_nat n @ r)" unfolding try_consume_null_def by (rule if_not_P)
qed

lemma number_texts:
  "field_ok (''vm_id'', dec_digits (unat a), \<lambda>f. f\<lparr>wf_vm_id := Some a\<rparr>)"
  "field_ok (''cpu_count'', dec_digits (unat a), \<lambda>f. f\<lparr>wf_cpu_count := Some a\<rparr>)"
  "field_ok (''memory_mib'', dec_digits (unat b), \<lambda>f. f\<lparr>wf_memory_mib := Some b\<rparr>)"
  "field_ok (''boot_blob_crc32c'', dec_digits (unat a), \<lambda>f. f\<lparr>wf_boot_blob_crc32c := Some a\<rparr>)"
  "field_ok (''len'', dec_digits (unat a), \<lambda>f. f\<lparr>wf_len := Some a\<rparr>)"
  "field_ok (''crc32c'', dec_digits (unat a), \<lambda>f. f\<lparr>wf_crc32c := Some a\<rparr>)"
proof -
  have u32: "u32_value (show_nat (unat a) @ c # r) = Ok (a, c # r)" if "c = CHR '','' \<or> c = CHR ''}''" for c r
    using that unat_lt_size [of a] by (auto simp: u32_value_def sc_number_show is_digit_char_def)
  have u64: "u64_value (show_nat (unat b) @ c # r) = Ok (b, c # r)" if "c = CHR '','' \<or> c = CHR ''}''" for c r
    using that unat_lt_size [of b] by (auto simp: u64_value_def sc_number_show is_digit_char_def)
  show "field_ok (''vm_id'', dec_digits (unat a), \<lambda>f. f\<lparr>wf_vm_id := Some a\<rparr>)"
    "field_ok (''cpu_count'', dec_digits (unat a), \<lambda>f. f\<lparr>wf_cpu_count := Some a\<rparr>)"
    "field_ok (''memory_mib'', dec_digits (unat b), \<lambda>f. f\<lparr>wf_memory_mib := Some b\<rparr>)"
    "field_ok (''boot_blob_crc32c'', dec_digits (unat a), \<lambda>f. f\<lparr>wf_boot_blob_crc32c := Some a\<rparr>)"
    "field_ok (''len'', dec_digits (unat a), \<lambda>f. f\<lparr>wf_len := Some a\<rparr>)"
    "field_ok (''crc32c'', dec_digits (unat a), \<lambda>f. f\<lparr>wf_crc32c := Some a\<rparr>)"
    by (simp_all add: field_ok_def field_value_def plain_def dec_digits_show digits_start nullable_def u32 u64)
qed

subsection \<open>The wire form of a request\<close>

definition opt_text :: "string \<Rightarrow> ('a \<Rightarrow> string) \<Rightarrow> ('a \<Rightarrow> wire_fields \<Rightarrow> wire_fields) \<Rightarrow> 'a option \<Rightarrow> text_field list" where
  "opt_text k sh u x = (case x of None \<Rightarrow> [] | Some v \<Rightarrow> [(k, sh v, u v)])"

fun request_fields :: "request \<Rightarrow> text_field list" where
  "request_fields (RqCreate l p c m b) =
     [(''op'', jstr ''create'', \<lambda>f. f\<lparr>wf_op := Some ''create''\<rparr>), (''label'', jstr l, \<lambda>f. f\<lparr>wf_label := Some l\<rparr>)] @
     opt_text ''image_path'' jstr (\<lambda>v f. f\<lparr>wf_image_path := Some v\<rparr>) p @
     opt_text ''cpu_count'' (\<lambda>v. dec_digits (unat v)) (\<lambda>v f. f\<lparr>wf_cpu_count := Some v\<rparr>) c @
     opt_text ''memory_mib'' (\<lambda>v. dec_digits (unat v)) (\<lambda>v f. f\<lparr>wf_memory_mib := Some v\<rparr>) m @
     opt_text ''boot_blob_crc32c'' (\<lambda>v. dec_digits (unat v)) (\<lambda>v f. f\<lparr>wf_boot_blob_crc32c := Some v\<rparr>) b"
| "request_fields (RqStart v) = [(''op'', jstr ''start'', \<lambda>f. f\<lparr>wf_op := Some ''start''\<rparr>),
     (''vm_id'', dec_digits (unat v), \<lambda>f. f\<lparr>wf_vm_id := Some v\<rparr>)]"
| "request_fields (RqStop v) = [(''op'', jstr ''stop'', \<lambda>f. f\<lparr>wf_op := Some ''stop''\<rparr>),
     (''vm_id'', dec_digits (unat v), \<lambda>f. f\<lparr>wf_vm_id := Some v\<rparr>)]"
| "request_fields (RqDelete v) = [(''op'', jstr ''delete'', \<lambda>f. f\<lparr>wf_op := Some ''delete''\<rparr>),
     (''vm_id'', dec_digits (unat v), \<lambda>f. f\<lparr>wf_vm_id := Some v\<rparr>)]"
| "request_fields RqList = [(''op'', jstr ''list'', \<lambda>f. f\<lparr>wf_op := Some ''list''\<rparr>)]"
| "request_fields (RqImageLoad len crc hex) = [(''op'', jstr ''image_load'', \<lambda>f. f\<lparr>wf_op := Some ''image_load''\<rparr>),
     (''len'', dec_digits (unat len), \<lambda>f. f\<lparr>wf_len := Some len\<rparr>), (''crc32c'', dec_digits (unat crc), \<lambda>f. f\<lparr>wf_crc32c := Some crc\<rparr>),
     (''bytes_hex'', jstr hex, \<lambda>f. f\<lparr>wf_bytes_hex := Some hex\<rparr>)]"

definition request_text :: "request \<Rightarrow> string" where
  "request_text r = ''{'' @ object_body (request_fields r) @ ''}''"

fun request_ok :: "request \<Rightarrow> bool" where
  "request_ok (RqCreate l p c m b) \<longleftrightarrow> length l \<le> LABEL_MAX \<and> plain l \<and>
     (case p of None \<Rightarrow> True | Some q \<Rightarrow> length q \<le> IMAGE_PATH_MAX \<and> plain q)"
| "request_ok (RqImageLoad len crc hex) \<longleftrightarrow> length hex = unat len * 2 \<and> plain hex"
| "request_ok _ \<longleftrightarrow> True"

lemma plain_ops: "plain ''create''" "plain ''start''" "plain ''stop''" "plain ''delete''" "plain ''list''" "plain ''image_load''"
  by (simp_all add: plain_def)

lemma request_fields_ok: "request_ok r \<Longrightarrow> \<forall>x \<in> set (request_fields r). field_ok x"
  by (cases r) (auto simp: opt_text_def field_texts number_texts plain_ops split: option.splits)

lemma build_request_fields:
  "request_ok r \<Longrightarrow> build_request (fold (\<lambda>(k, v, u). u) (request_fields r) no_fields) = Ok r"
  by (cases r) (auto simp: build_request_def need_def no_fields_def opt_text_def split: option.split)

lemma decode_request_text: "request_ok r \<Longrightarrow> decode_request (request_text r) = Ok r"
proof -
  assume ok: "request_ok r"
  have "request_fields r \<noteq> []" by (cases r) simp_all
  with fields_loop_text [OF request_fields_ok [OF ok], of no_fields "[]"] build_request_fields [OF ok]
  show ?thesis by (simp add: decode_request_def request_text_def expect_def skip_ws_def)
qed

text \<open>What the decoder accepts is within its limits: strings never contain a quote or a backslash.\<close>

definition fields_plain :: "wire_fields \<Rightarrow> bool" where
  "fields_plain f \<longleftrightarrow> pred_option plain (wf_label f) \<and> pred_option plain (wf_image_path f) \<and> pred_option plain (wf_bytes_hex f)"

lemma string_body_is_plain: "string_body s = Ok (v, r) \<Longrightarrow> plain v"
  by (induction s arbitrary: v r) (fastforce simp: bind_result_eq_Ok plain_def split: if_splits)+

lemma sc_string_is_plain: "sc_string s = Ok (v, r) \<Longrightarrow> plain v"
  by (auto simp: sc_string_def bind_result_eq_Ok dest: string_body_is_plain)

lemma nullable_plain: "nullable sc_string s = Ok (v, r) \<Longrightarrow> pred_option plain v"
  by (auto simp: nullable_def bind_result_eq_Ok dest: sc_string_is_plain split: prod.splits bool.splits)

lemma field_value_plain: "field_value key f s = Ok (f', r) \<Longrightarrow> fields_plain f \<Longrightarrow> fields_plain f'"
  unfolding field_value_def fields_plain_def
  by (split if_split_asm, force simp: bind_result_eq_Ok dest: sc_string_is_plain nullable_plain)+ (force simp: bind_result_eq_Ok)

lemma one_field_plain: "one_field f s = Ok (f', r) \<Longrightarrow> fields_plain f \<Longrightarrow> fields_plain f'"
  by (auto simp: one_field_def bind_result_eq_Ok dest: field_value_plain)

lemma fields_loop_plain: "fields_loop f s = Ok (f', r) \<Longrightarrow> fields_plain f \<Longrightarrow> fields_plain f'"
proof (induction f s rule: fields_loop.induct)
  case (1 f s)
  show ?case
  proof (cases "take 1 (skip_ws s) = ''}'' \<or> \<not> is_ok (one_field f (skip_ws s))")
    case True
    with 1(2,3) show ?thesis by (cases "one_field f (skip_ws s)") (auto simp: fields_loop.simps [of f s] Let_def split: if_splits)
  next
    case False
    then obtain g t where g: "one_field f (skip_ws s) = Ok (g, t)" "take 1 (skip_ws s) \<noteq> ''}''" by (auto simp: is_ok_iff)
    with 1(2) have "f' = g \<or> fields_loop g (drop 1 (skip_ws t)) = Ok (f', r) \<and> take 1 (skip_ws t) = '',''"
      by (auto simp: fields_loop.simps [of f s] Let_def bind_result_eq_Ok split: if_splits)
    with 1(1) [OF refl g(2,1) refl refl] one_field_plain [OF g(1) 1(3)] show ?thesis by auto
  qed
qed

lemma decode_request_ok:
  assumes "decode_request frm = Ok r"
  shows "request_ok r"
proof -
  from assms obtain s f t where "fields_loop no_fields s = Ok (f, t)" "build_request f = Ok r"
    by (auto simp: decode_request_def bind_result_eq_Ok split: if_splits)
  moreover from this(1) have "fields_plain f" by (rule fields_loop_plain) (simp add: fields_plain_def no_fields_def)
  ultimately show ?thesis
    by (auto simp: build_request_def need_def bind_result_eq_Ok fields_plain_def split: if_splits option.splits)
qed

subsection \<open>The encoder writes one line\<close>

lemma put_parts_eq:
  "put_parts cap out ps =
     (if length out + length (concat ps) \<le> cap \<or> ps = [] then Ok (out @ concat ps)
      else Err (HExhausted ''wire: reply buffer too small''))"
proof (induction ps arbitrary: out)
  case (Cons p ps)
  then show ?case by (cases ps) (auto simp: put_str_def)
qed simp

lemma encode_reply_eq:
  "encode_reply cap r =
     (if length (concat (reply_parts r)) < cap then Ok (concat (reply_parts r) @ [CHR 0x0A])
      else Err (HExhausted ''wire: reply buffer too small''))"
  by (auto simp: encode_reply_def put_parts_eq)

definition wire_row_ok :: "wire_row \<Rightarrow> bool" where
  "wire_row_ok r \<longleftrightarrow> length (wr_label r) \<le> LABEL_MAX \<and> length (wr_image_path r) \<le> IMAGE_PATH_MAX"

fun reply_ok :: "reply \<Rightarrow> bool" where
  "reply_ok (RpListed rows) \<longleftrightarrow> length rows \<le> ROWS_MAX \<and> (\<forall>r. Some r \<in> set rows \<longrightarrow> wire_row_ok r)"
| "reply_ok (RpError m) \<longleftrightarrow> length m \<le> ERROR_MSG_MAX"
| "reply_ok _ \<longleftrightarrow> True"

lemma length_tag: "length (tag_str t) \<le> 7"
  by (cases t) simp_all

lemma length_opt32: "length (concat (opt_part k (map_option unat (x :: u32 option)))) \<le> length k + 14"
  using length_digits(1) by (cases x) (simp_all add: opt_part_def jkey_def jstr_def)

lemma length_opt64: "length (concat (opt_part k (map_option unat (x :: u64 option)))) \<le> length k + 24"
  using length_digits(2) by (cases x) (simp_all add: opt_part_def jkey_def jstr_def)

lemma length_row: "wire_row_ok r \<Longrightarrow> length (concat (row_parts r)) \<le> 349"
  using length_digits(1) [of "wr_vm_id r"] length_tag [of "wr_state r"]
    length_opt32 [of "''last_exit''" "wr_last_exit r"] length_opt32 [of "''cpu_count''" "wr_cpu_count r"]
    length_opt32 [of "''boot_blob_crc32c''" "wr_boot_blob_crc32c r"] length_opt64 [of "''memory_mib''" "wr_memory_mib r"]
  by (simp add: row_parts_def wire_row_ok_def LABEL_MAX_def IMAGE_PATH_MAX_def jkey_def jstr_def)

lemma length_rows:
  "(\<And>r. r \<in> set rs \<Longrightarrow> wire_row_ok r) \<Longrightarrow> length (concat (rows_parts b rs)) \<le> 350 * length rs"
proof (induction b rs rule: rows_parts.induct)
  case (2 b r rs)
  then show ?case using length_row [of r] by (auto intro: order_trans [OF add_mono])
qed simp

lemma length_escape: "length (concat (concat (map escape_byte m))) \<le> 2 * length m"
  by (induction m) (auto simp: escape_byte_def)

lemma map_filter_id: "set (List.map_filter id xs) = {x. Some x \<in> set xs}" "length (List.map_filter id xs) \<le> length xs"
  by (induction xs) (auto simp: List.map_filter_def le_SucI split: option.splits)

lemma reply_fits:
  assumes "reply_ok r"
  shows "length (concat (reply_parts r)) \<le> 1437"
proof (cases r)
  case (RpListed rows)
  have "length (concat (rows_parts True (List.map_filter id rows))) \<le> 350 * length (List.map_filter id rows)"
    using assms RpListed by (intro length_rows) (simp add: map_filter_id)
  also have "\<dots> \<le> 1400" using assms RpListed map_filter_id(2) [of rows] by (simp add: ROWS_MAX_def)
  finally show ?thesis by (simp add: RpListed jkey_def jstr_def)
next
  case (RpError m)
  then show ?thesis using assms length_escape [of m] by (simp add: ERROR_MSG_MAX_def jkey_def jstr_def)
next
  case (RpState v t x)
  then show ?thesis using length_digits(1) [of v] length_tag [of t] length_opt32 [of "''last_exit''" x]
    by (simp add: jkey_def jstr_def)
next
  case (RpImageLoaded a b)
  then show ?thesis using length_digits(1) [of a] length_digits(1) [of b] by (simp add: jkey_def jstr_def)
next
  case (RpCreated v)
  then show ?thesis using length_digits(1) [of v] by (simp add: jkey_def jstr_def)
next
  case (RpDeleted v)
  then show ?thesis using length_digits(1) [of v] by (simp add: jkey_def jstr_def)
qed

subsection \<open>What the checksum catches\<close>

lemma crc32c_continue_append: "crc32c_continue st (xs @ ys) = crc32c_continue (crc32c_continue st xs) ys"
  by (induction xs arbitrary: st) simp_all

lemma xor_right_cancel: "a XOR c = b XOR c \<longleftrightarrow> a = b" for a b c :: u32
proof
  assume "a XOR c = b XOR c"
  then have "(a XOR c) XOR c = (b XOR c) XOR c" by simp
  then show "a = b" by (simp add: xor.assoc)
qed simp

lemma crc_poly_top: "bit (0x82F63B78 :: u32) 31"
  by (simp add: bit_iff_odd)

lemma bit_crc_bit:
  "bit (crc_bit st) n \<longleftrightarrow> (bit st (Suc n) \<noteq> (bit st 0 \<and> bit (0x82F63B78 :: u32) n))"
  by (auto simp: crc_bit_def bit_simps and_one_eq odd_iff_mod_2_eq_one [symmetric] even_bit_succ_iff bit_0)

lemma crc_bit_xor: "crc_bit (a XOR b) = crc_bit a XOR crc_bit b"
  by (rule bit_word_eqI) (auto simp: bit_crc_bit bit_xor_iff)

text \<open>The top bit of the polynomial is set, so the bit shifted out can be read off the result.\<close>

lemma crc_bit_inj: "inj crc_bit"
proof (rule injI)
  fix a b assume eq: "crc_bit a = crc_bit b"
  have low: "bit a 0 = bit b 0"
    using arg_cong [OF eq, of "\<lambda>w. bit w 31"] crc_poly_top by (auto simp: bit_crc_bit dest: bit_imp_le_length)
  show "a = b"
  proof (rule bit_word_eqI)
    fix n
    show "bit a n = bit b n"
      using low arg_cong [OF eq, of "\<lambda>w. bit w (n - 1)"] by (cases n) (auto simp: bit_crc_bit)
  qed
qed

lemma crc_bits_inj: "inj (crc_bit ^^ k)"
  by (induction k) (auto simp: inj_def dest!: injD [OF crc_bit_inj])

lemma crc_bits_xor: "(crc_bit ^^ k) (a XOR b) = (crc_bit ^^ k) a XOR (crc_bit ^^ k) b"
  by (induction k) (simp_all add: crc_bit_xor)

lemma crc32c_continue_inj: "crc32c_continue st xs = crc32c_continue st' xs \<Longrightarrow> st = st'"
proof (induction xs arbitrary: st st')
  case (Cons x xs)
  then have "(crc_bit ^^ 8) (st XOR ucast x) = (crc_bit ^^ 8) (st' XOR ucast x)" by simp
  then have "st XOR ucast x = st' XOR ucast x" by (rule injD [OF crc_bits_inj])
  then show ?case by (simp add: xor_right_cancel)
qed simp

text \<open>Up to four bytes enter the register as one little-endian word.\<close>

fun le_word :: "bytes \<Rightarrow> u32" where
  "le_word [] = 0"
| "le_word (b # bs) = ucast b XOR push_bit 8 (le_word bs)"

lemma bit_le_word: "8 * length bs \<le> n \<Longrightarrow> \<not> bit (le_word bs) n"
proof (induction bs arbitrary: n)
  case (Cons b bs)
  then have "\<not> bit b n" "\<not> bit (le_word bs) (n - 8)" by (auto dest: bit_imp_le_length)
  with Cons.prems show ?case by (auto simp: bit_simps)
qed simp

lemma crc_bits_shifted: "(\<And>n. 32 \<le> n + k \<Longrightarrow> \<not> bit w n) \<Longrightarrow> (crc_bit ^^ k) (push_bit k w) = w"
proof (induction k)
  case (Suc k)
  have "crc_bit (push_bit (Suc k) w) = push_bit k w"
  proof (rule bit_word_eqI)
    fix n assume "n < LENGTH(32)"
    then show "bit (crc_bit (push_bit (Suc k) w)) n = bit (push_bit k w) n"
      using Suc.prems [of "n - k"] by (cases "n < 31") (auto simp: bit_crc_bit bit_push_bit_iff simp del: push_bit_Suc)
  qed
  then have "(crc_bit ^^ Suc k) (push_bit (Suc k) w) = (crc_bit ^^ k) (push_bit k w)"
    by (simp add: funpow_swap1)
  with Suc show ?case by simp
qed simp

lemma crc32c_continue_word:
  "length bs \<le> 4 \<Longrightarrow> crc32c_continue st bs = (crc_bit ^^ (8 * length bs)) (st XOR le_word bs)"
proof (induction bs arbitrary: st)
  case (Cons b bs)
  have "(crc_bit ^^ 8) (push_bit 8 (le_word bs)) = le_word bs"
    using Cons.prems by (intro crc_bits_shifted bit_le_word) auto
  then have "(crc_bit ^^ 8) (st XOR ucast b) XOR le_word bs = (crc_bit ^^ 8) (st XOR le_word (b # bs))"
    by (simp add: crc_bits_xor xor.assoc)
  moreover have "(crc_bit ^^ (8 * length (b # bs))) x = (crc_bit ^^ (8 * length bs)) ((crc_bit ^^ 8) x)" for x
    using funpow_add [of "8 * length bs" 8 crc_bit] by (simp add: add.commute)
  ultimately show ?case using Cons by (simp del: funpow.simps)
qed simp

lemma le_word_inj: "length xs = length ys \<Longrightarrow> length xs \<le> 4 \<Longrightarrow> le_word xs = le_word ys \<Longrightarrow> xs = ys"
proof (induction xs ys rule: list_induct2)
  case (Cons x xs y ys)
  have bits: "bit (le_word (x # xs)) n = bit (le_word (y # ys)) n" for n using Cons.prems by simp
  have "x = y"
  proof (rule bit_word_eqI)
    fix n assume "n < LENGTH(8)"
    then show "bit x n = bit y n" using bits [of n] by (simp add: bit_simps)
  qed
  moreover have "le_word xs = le_word ys"
  proof (rule bit_word_eqI)
    fix n assume n: "n < LENGTH(32)"
    show "bit (le_word xs) n = bit (le_word ys) n"
    proof (cases "n < 24")
      case True
      then show ?thesis using bits [of "n + 8"] by (auto simp: bit_simps dest: bit_imp_le_length)
    next
      case False
      then show ?thesis using Cons.hyps Cons.prems(1) by (simp add: bit_le_word)
    qed
  qed
  ultimately show ?case using Cons by simp
qed simp

text \<open>A burst of at most 32 bits anywhere in an image changes its checksum.\<close>

lemma crc32c_burst:
  assumes "length u = length v" "length u \<le> 4" "u \<noteq> v"
  shows "crc32c (xs @ u @ ys) \<noteq> crc32c (xs @ v @ ys)"
proof
  assume "crc32c (xs @ u @ ys) = crc32c (xs @ v @ ys)"
  then have "crc32c_continue 0xFFFFFFFF (xs @ u @ ys) = crc32c_continue 0xFFFFFFFF (xs @ v @ ys)"
    by (simp add: crc32c_def xor_right_cancel)
  then have "crc32c_continue (crc32c_continue 0xFFFFFFFF xs) u = crc32c_continue (crc32c_continue 0xFFFFFFFF xs) v"
    by (auto simp: crc32c_continue_append dest: crc32c_continue_inj)
  then have "crc32c_continue 0xFFFFFFFF xs XOR le_word u = crc32c_continue 0xFFFFFFFF xs XOR le_word v"
    using assms by (auto simp: crc32c_continue_word dest: injD [OF crc_bits_inj])
  then have "le_word u = le_word v" by (simp add: xor.commute [of _ "le_word _"] xor_right_cancel)
  with assms show False using le_word_inj [of u v] by blast
qed



end
