(* ===== verification/Ept.thy ===== *)
theory Ept
  imports Hyper_Wire
begin

text \<open>
  The second-level page tables of \<^verbatim>\<open>celhyper/src/mm.rs\<close> and the guest installation of
  \<^verbatim>\<open>vmx/launch.rs\<close>. Physical memory is a map from addresses to bytes; the kernel's frame pool
  is a bump allocator over it. The walker is generic in its \<^verbatim>\<open>FrameProvider\<close>, so \<open>map_4k\<close> and
  \<open>translate\<close> take the provider's three operations as arguments; what they rely on is the locale
  \<open>frame_provider\<close>, interpreted on the pool. A table tree is described by a labelling of frames
  with the path of indices that leads to them; since a frame has one label, two guest pages
  share a table only along a common prefix, and a mapping changes one page and no other.
\<close>

subsection \<open>Physical memory\<close>

type_synonym mem = "u64 \<Rightarrow> u8"

fun le_read :: "nat \<Rightarrow> mem \<Rightarrow> u64 \<Rightarrow> u64" where
  "le_read 0 m a = 0"
| "le_read (Suc n) m a = ucast (m a) OR push_bit 8 (le_read n m (a + 1))"

fun le_write :: "nat \<Rightarrow> u64 \<Rightarrow> u64 \<Rightarrow> mem \<Rightarrow> mem" where
  "le_write 0 a v m = m"
| "le_write (Suc n) a v m = le_write n (a + 1) (drop_bit 8 v) (m(a := ucast v))"

fun copy_bytes :: "u64 \<Rightarrow> bytes \<Rightarrow> mem \<Rightarrow> mem" where
  "copy_bytes a [] m = m"
| "copy_bytes a (b # bs) m = copy_bytes (a + 1) bs (m(a := b))"

definition PAGE_SIZE :: nat where "PAGE_SIZE = 4096"
definition ENTRIES_PER_TABLE :: nat where "ENTRIES_PER_TABLE = 512"
definition POOL_PAGES :: nat where "POOL_PAGES = 4096"
definition ADDR_MASK :: u64 where "ADDR_MASK = 0x000FFFFFFFFFF000"
definition NON_LEAF_RWX :: u64 where "NON_LEAF_RWX = 7"

definition EPT_READ :: u64 where "EPT_READ = 1"
definition EPT_WRITE :: u64 where "EPT_WRITE = 2"
definition EPT_EXEC :: u64 where "EPT_EXEC = 4"
definition EPT_MT_WB :: u64 where "EPT_MT_WB = 0x30"

subsection \<open>The kernel's frame pool\<close>

text \<open>\<open>fr_base\<close> is the address of the pool, a linker constant; \<open>fr_next\<close> is \<^verbatim>\<open>FRAME_NEXT\<close>.\<close>

record frames =
  fr_base :: u64
  fr_next :: nat
  fr_mem :: mem

definition alloc_zeroed :: "frames \<Rightarrow> frames \<times> u64 hyper_result" where
  "alloc_zeroed fr =
     (let off = fr_next fr; fr' = fr\<lparr>fr_next := off + PAGE_SIZE\<rparr> in
      if POOL_PAGES * PAGE_SIZE < off + PAGE_SIZE then (fr', Err (HExhausted ''frame pool''))
      else (fr', Ok (fr_base fr + of_nat off)))"

definition read_entry :: "frames \<Rightarrow> u64 \<Rightarrow> nat \<Rightarrow> u64" where
  "read_entry fr pa idx = le_read 8 (fr_mem fr) (pa + of_nat (8 * idx))"

definition write_entry :: "frames \<Rightarrow> u64 \<Rightarrow> nat \<Rightarrow> u64 \<Rightarrow> frames" where
  "write_entry fr pa idx val = fr\<lparr>fr_mem := le_write 8 (pa + of_nat (8 * idx)) val (fr_mem fr)\<rparr>"

subsection \<open>The walker\<close>

definition entry_is_present :: "u64 \<Rightarrow> bool" where
  "entry_is_present entry \<longleftrightarrow> entry AND 7 \<noteq> 0"

definition ept_index :: "u64 \<Rightarrow> nat \<Rightarrow> nat" where
  "ept_index gpa level = unat (drop_bit (12 + 9 * level) gpa AND 0x1FF)"

definition ept_indices :: "u64 \<Rightarrow> nat list" where
  "ept_indices gpa = [ept_index gpa 0, ept_index gpa 1, ept_index gpa 2, ept_index gpa 3]"

type_synonym 'f allocator = "'f \<Rightarrow> 'f \<times> u64 hyper_result"
type_synonym 'f reader = "'f \<Rightarrow> u64 \<Rightarrow> nat \<Rightarrow> u64"
type_synonym 'f writer = "'f \<Rightarrow> u64 \<Rightarrow> nat \<Rightarrow> u64 \<Rightarrow> 'f"

definition ept_new :: "'f allocator \<Rightarrow> 'f \<Rightarrow> 'f \<times> u64 hyper_result" where
  "ept_new al f = al f"

definition eptp :: "u64 \<Rightarrow> u64" where
  "eptp pml4 = pml4 OR 0x18 OR 6"

text \<open>The descent through the levels 3, 2, 1, allocating missing tables; its last table is the leaf table.\<close>

fun walk_alloc :: "'f allocator \<Rightarrow> 'f reader \<Rightarrow> 'f writer \<Rightarrow> u64 \<Rightarrow> nat \<Rightarrow> u64 \<Rightarrow> 'f \<Rightarrow> 'f \<times> u64 hyper_result" where
  "walk_alloc al rd wr gpa 0 table f = (f, Ok table)"
| "walk_alloc al rd wr gpa (Suc l) table f =
     (let i = ept_index gpa (Suc l); entry = rd f table i in
      if entry_is_present entry then walk_alloc al rd wr gpa l (entry AND ADDR_MASK) f
      else (case al f of
              (f', Err e) \<Rightarrow> (f', Err e)
            | (f', Ok new_table) \<Rightarrow>
                walk_alloc al rd wr gpa l new_table (wr f' table i (new_table OR NON_LEAF_RWX))))"

definition map_4k :: "'f allocator \<Rightarrow> 'f reader \<Rightarrow> 'f writer \<Rightarrow> u64 \<Rightarrow> 'f \<Rightarrow> u64 \<Rightarrow> u64 \<Rightarrow> u64 \<Rightarrow> 'f \<times> unit hyper_result" where
  "map_4k al rd wr pml4 f gpa hpa flags =
     (if gpa AND 0xFFF \<noteq> 0 \<or> hpa AND 0xFFF \<noteq> 0 then (f, Err (HHardware ''ept::map_4k: misaligned GPA or HPA''))
      else if flags AND (EPT_READ OR EPT_WRITE OR EPT_EXEC) = 0
        then (f, Err (HHardware ''ept::map_4k: leaf must grant some access''))
      else (case walk_alloc al rd wr gpa 3 pml4 f of
              (f', Err e) \<Rightarrow> (f', Err e)
            | (f', Ok table) \<Rightarrow>
                (wr f' table (ept_index gpa 0) ((hpa AND ADDR_MASK) OR flags), Ok ())))"

fun walk :: "'f reader \<Rightarrow> u64 \<Rightarrow> nat \<Rightarrow> u64 \<Rightarrow> 'f \<Rightarrow> u64 hyper_result" where
  "walk rd gpa 0 table f = Ok table"
| "walk rd gpa (Suc l) table f =
     (let entry = rd f table (ept_index gpa (Suc l)) in
      if \<not> entry_is_present entry then Err (HHardware ''ept::translate: walk hit absent non-leaf'')
      else walk rd gpa l (entry AND ADDR_MASK) f)"

definition translate :: "'f reader \<Rightarrow> u64 \<Rightarrow> 'f \<Rightarrow> u64 \<Rightarrow> u64 hyper_result" where
  "translate rd pml4 f gpa =
     bind_result (walk rd gpa 3 pml4 f) (\<lambda>table.
       let leaf = rd f table (ept_index gpa 0) in
       if leaf AND 7 = 0 then Err (HHardware ''ept::translate: leaf absent'')
       else Ok ((leaf AND ADDR_MASK) OR (gpa AND 0xFFF)))"

subsection \<open>Installing a guest\<close>

definition install_first_guest :: "frames \<Rightarrow> bytes \<Rightarrow> frames \<times> u64 hyper_result" where
  "install_first_guest fr blob =
     (if PAGE_SIZE < length blob then (fr, Err (HHardware ''guest blob > 4 KiB''))
      else (case ept_new alloc_zeroed fr of
              (fr, Err e) \<Rightarrow> (fr, Err e)
            | (fr, Ok ept) \<Rightarrow>
                (case alloc_zeroed fr of
                   (fr, Err e) \<Rightarrow> (fr, Err e)
                 | (fr, Ok hpa) \<Rightarrow>
                     (case map_4k alloc_zeroed read_entry write_entry ept (fr\<lparr>fr_mem := copy_bytes hpa blob (fr_mem fr)\<rparr>)
                             0x1000 hpa (EPT_READ OR EPT_WRITE OR EPT_EXEC OR EPT_MT_WB) of
                        (fr, Err e) \<Rightarrow> (fr, Err e)
                      | (fr, Ok _) \<Rightarrow> (fr, Ok ept)))))"

definition alloc_in_pool :: "frames \<Rightarrow> u32 \<Rightarrow> frames \<times> u64 hyper_result" where
  "alloc_in_pool fr revision_id =
     (case alloc_zeroed fr of
        (fr, Err e) \<Rightarrow> (fr, Err e)
      | (fr, Ok pa) \<Rightarrow> (write_entry fr pa 0 (ucast revision_id), Ok pa))"

subsection \<open>Reading back what was written\<close>

lemma le_write_other: "(\<And>i. i < n \<Longrightarrow> b \<noteq> a + of_nat i) \<Longrightarrow> le_write n a v m b = m b"
proof (induction n arbitrary: a v m)
  case (Suc n)
  have "b \<noteq> a + 1 + of_nat i" if "i < n" for i using Suc.prems [of "Suc i"] that by (simp add: add.assoc)
  with Suc.IH [of "a + 1"] Suc.prems [of 0] show ?case by simp
qed simp

lemma le_read_cong: "(\<And>i. i < n \<Longrightarrow> m (a + of_nat i) = m' (a + of_nat i)) \<Longrightarrow> le_read n m a = le_read n m' a"
proof (induction n arbitrary: a)
  case (Suc n)
  have "m (a + 1 + of_nat i) = m' (a + 1 + of_nat i)" if "i < n" for i using Suc.prems [of "Suc i"] that by (simp add: add.assoc)
  with Suc.IH [of "a + 1"] Suc.prems [of 0] show ?case by simp
qed simp

lemma le_read_zero: "(\<And>i. i < n \<Longrightarrow> m (a + of_nat i) = 0) \<Longrightarrow> le_read n m a = 0"
proof -
  have "le_read n (\<lambda>_. 0) b = 0" for b by (induction n arbitrary: b) simp_all
  moreover assume "\<And>i. i < n \<Longrightarrow> m (a + of_nat i) = 0"
  ultimately show ?thesis using le_read_cong [of n m a "\<lambda>_. 0"] by simp
qed

lemma of_nat_eq_small: "i < 2 ^ 64 \<Longrightarrow> j < 2 ^ 64 \<Longrightarrow> (of_nat i :: u64) = of_nat j \<longleftrightarrow> i = j"
  by (simp add: word_of_nat_eq_iff take_bit_nat_eq_self)

lemma le_read_write: "n \<le> 8 \<Longrightarrow> le_read n (le_write n a v m) a = take_bit (8 * n) v"
proof (induction n arbitrary: a v m)
  case (Suc n)
  have "a \<noteq> a + 1 + of_nat i" if "i < n" for i
    using of_nat_eq_small [of "Suc i" 0] that Suc.prems by (simp add: add.assoc)
  then have first: "le_write n (a + 1) (drop_bit 8 v) (m(a := ucast v)) a = ucast v"
    by (subst le_write_other) simp_all
  have "ucast (ucast v :: u8) OR push_bit 8 (take_bit (8 * n) (drop_bit 8 v)) = take_bit (8 + 8 * n) v"
    by (rule bit_word_eqI) (auto simp: bit_simps)
  with Suc first show ?case by simp
qed simp

lemma copy_bytes_other: "(\<And>i. i < length bs \<Longrightarrow> b \<noteq> a + of_nat i) \<Longrightarrow> copy_bytes a bs m b = m b"
proof (induction bs arbitrary: a m)
  case (Cons c bs)
  have "b \<noteq> a + 1 + of_nat i" if "i < length bs" for i using Cons.prems [of "Suc i"] that by (simp add: add.assoc)
  with Cons.IH [of "a + 1"] Cons.prems [of 0] show ?case by simp
qed simp

lemma copy_bytes_nth: "length bs \<le> PAGE_SIZE \<Longrightarrow> i < length bs \<Longrightarrow> copy_bytes a bs m (a + of_nat i) = bs ! i"
proof (induction bs arbitrary: a m i)
  case (Cons c bs)
  show ?case
  proof (cases i)
    case 0
    have "a \<noteq> a + 1 + of_nat j" if "j < length bs" for j
      using of_nat_eq_small [of "Suc j" 0] that Cons.prems(1) by (simp add: add.assoc PAGE_SIZE_def)
    with 0 show ?thesis by (simp add: copy_bytes_other)
  next
    case (Suc j)
    moreover have "copy_bytes (a + 1) bs (m(a := c)) (a + 1 + of_nat j) = bs ! j"
      using Cons.prems Suc by (intro Cons.IH) simp_all
    ultimately show ?thesis by (simp add: add.assoc)
  qed
qed simp

subsection \<open>Pages\<close>

definition aligned :: "u64 \<Rightarrow> bool" where "aligned pa \<longleftrightarrow> unat pa mod PAGE_SIZE = 0"
definition page_of :: "u64 \<Rightarrow> nat" where "page_of a = unat a div PAGE_SIZE"

lemma unat_in_page:
  assumes "aligned pa" "i < PAGE_SIZE"
  shows "unat (pa + of_nat i) = unat pa + i"
proof -
  have "unat pa = PAGE_SIZE * (unat pa div PAGE_SIZE)" using assms(1) by (auto simp: aligned_def)
  then obtain k where k: "unat pa = 4096 * k" by (auto simp: PAGE_SIZE_def)
  have "unat pa < 2 ^ 64" using unat_lt_size [of pa] by simp
  with k assms(2) have "unat pa + i < 2 ^ 64" by (auto simp: PAGE_SIZE_def)
  with assms(2) show ?thesis by (simp add: unat_word_ariths unat_of_nat PAGE_SIZE_def)
qed

lemma page_of_in_page: "aligned pa \<Longrightarrow> i < PAGE_SIZE \<Longrightarrow> page_of (pa + of_nat i) = page_of pa"
  by (simp add: page_of_def unat_in_page aligned_def div_add1_eq [of _ i] PAGE_SIZE_def)

lemma aligned_page_eq: "aligned pa \<Longrightarrow> aligned pb \<Longrightarrow> page_of pa = page_of pb \<longleftrightarrow> pa = pb"
  by (metis aligned_def page_of_def mod_div_decomp word_unat_eq_iff)

lemma in_page_eq:
  assumes "aligned pa" "aligned pb" "i < PAGE_SIZE" "j < PAGE_SIZE"
  shows "pa + of_nat i = pb + of_nat j \<longleftrightarrow> pa = pb \<and> i = j"
proof
  assume eq: "pa + of_nat i = pb + of_nat j"
  then have "pa = pb" using assms by (metis page_of_in_page aligned_page_eq)
  with eq assms unat_in_page [of pa i] unat_in_page [of pa j] show "pa = pb \<and> i = j" by simp
qed simp

lemma entry_byte: "pa + of_nat (8 * i) + of_nat k = pa + of_nat (8 * i + k)" for pa :: u64
  by simp

lemma read_write_entry:
  assumes "aligned pa" "aligned pb" "i < 512" "j < 512"
  shows "read_entry (write_entry fr pa i v) pb j = (if pa = pb \<and> i = j then v else read_entry fr pb j)"
proof (cases "pa = pb \<and> i = j")
  case True
  then show ?thesis by (simp add: read_entry_def write_entry_def le_read_write take_bit_word_eq_self del: le_read.simps le_write.simps)
next
  case False
  have "le_write 8 (pa + of_nat (8 * i)) v (fr_mem fr) (pb + of_nat (8 * j) + of_nat k) = fr_mem fr (pb + of_nat (8 * j) + of_nat k)"
    if "k < 8" for k
  proof (rule le_write_other)
    fix n assume n: "n < (8 :: nat)"
    have "8 * j + k < PAGE_SIZE" "8 * i + n < PAGE_SIZE" using assms that n by (simp_all add: PAGE_SIZE_def)
    with in_page_eq [OF assms(2,1) this] False that n show "pb + of_nat (8 * j) + of_nat k \<noteq> pa + of_nat (8 * i) + of_nat n"
      unfolding entry_byte by auto
  qed
  then have "le_read 8 (le_write 8 (pa + of_nat (8 * i)) v (fr_mem fr)) (pb + of_nat (8 * j)) = le_read 8 (fr_mem fr) (pb + of_nat (8 * j))"
    by (rule le_read_cong)
  with False show ?thesis by (auto simp: read_entry_def write_entry_def)
qed

lemma write_entry_other:
  assumes "aligned pa" "i < 512" "page_of b \<noteq> page_of pa"
  shows "fr_mem (write_entry fr pa i v) b = fr_mem fr b"
proof -
  have "b \<noteq> pa + of_nat (8 * i) + of_nat k" if "k < 8" for k
    using page_of_in_page [OF assms(1), of "8 * i + k"] assms(2,3) that unfolding entry_byte by (auto simp: PAGE_SIZE_def)
  then show ?thesis by (simp add: write_entry_def le_write_other del: le_write.simps)
qed

subsection \<open>The frame provider's contract\<close>

locale frame_provider =
  fixes al :: "'f allocator" and rd :: "'f reader" and wr :: "'f writer"
    and ok :: "'f \<Rightarrow> bool" and live :: "'f \<Rightarrow> u64 set"
  assumes rd_wr: "ok f \<Longrightarrow> pa \<in> live f \<Longrightarrow> pb \<in> live f \<Longrightarrow> i < 512 \<Longrightarrow> j < 512 \<Longrightarrow>
      rd (wr f pa i v) pb j = (if pa = pb \<and> i = j then v else rd f pb j)"
    and wr_ok: "ok f \<Longrightarrow> pa \<in> live f \<Longrightarrow> i < 512 \<Longrightarrow> ok (wr f pa i v) \<and> live (wr f pa i v) = live f"
    and al_ok: "ok f \<Longrightarrow> al f = (f', Ok pa) \<Longrightarrow> ok f' \<and> live f' = insert pa (live f) \<and> pa \<notin> live f \<and> pa AND ADDR_MASK = pa"
    and al_zero: "ok f \<Longrightarrow> al f = (f', Ok pa) \<Longrightarrow> j < 512 \<Longrightarrow> rd f' pa j = 0"
    and al_err: "ok f \<Longrightarrow> al f = (f', Err e) \<Longrightarrow> ok f' \<and> live f' = live f"
    and al_rd: "ok f \<Longrightarrow> al f = (f', r) \<Longrightarrow> pb \<in> live f \<Longrightarrow> j < 512 \<Longrightarrow> rd f' pb j = rd f pb j"

text \<open>
  The path to a table at level \<open>l\<close> on the way to a guest address, and the tree invariant: every
  present non-leaf entry of a table labelled \<open>p\<close> leads to a table labelled with the index added.
\<close>

definition gpath :: "u64 \<Rightarrow> nat \<Rightarrow> nat list" where
  "gpath gpa l = map (ept_index gpa) (rev [Suc l..<4])"

definition ept_tree :: "'f reader \<Rightarrow> u64 set \<Rightarrow> 'f \<Rightarrow> (u64 \<Rightarrow> nat list option) \<Rightarrow> u64 \<Rightarrow> bool" where
  "ept_tree rd lv f T root \<longleftrightarrow> T root = Some [] \<and> dom T \<subseteq> lv \<and>
     (\<forall>pa p i. T pa = Some p \<longrightarrow> length p < 3 \<longrightarrow> i < 512 \<longrightarrow> entry_is_present (rd f pa i) \<longrightarrow>
        T (rd f pa i AND ADDR_MASK) = Some (p @ [i]))"

lemma gpath_top: "gpath gpa 3 = []"
  by (simp add: gpath_def)

lemma gpath_step: "l < 3 \<Longrightarrow> gpath gpa l = gpath gpa (Suc l) @ [ept_index gpa (Suc l)]"
  by (simp add: gpath_def upt_conv_Cons)

lemma length_gpath [simp]: "length (gpath gpa l) = 3 - l"
  by (simp add: gpath_def)

lemma ept_index_bound [simp]: "ept_index gpa l < 512"
proof -
  have "drop_bit (12 + 9 * l) gpa AND 0x1FF = take_bit 9 (drop_bit (12 + 9 * l) gpa)"
    by (simp add: take_bit_eq_mask mask_eq_exp_minus_1)
  then show ?thesis using take_bit_nat_less_exp [of 9 "unat (drop_bit (12 + 9 * l) gpa)"]
    by (simp add: ept_index_def unsigned_take_bit_eq)
qed

lemma gpath_indices: "gpath g 0 = gpath h 0 \<and> ept_index g 0 = ept_index h 0 \<longleftrightarrow> ept_indices g = ept_indices h"
  by (auto simp: gpath_def ept_indices_def upt_rec numeral_3_eq_3 numeral_2_eq_2)

lemma ept_treeD:
  "ept_tree rd lv f T root \<Longrightarrow> T pa = Some p \<Longrightarrow> length p < 3 \<Longrightarrow> i < 512 \<Longrightarrow> entry_is_present (rd f pa i) \<Longrightarrow>
     T (rd f pa i AND ADDR_MASK) = Some (p @ [i])"
  "ept_tree rd lv f T root \<Longrightarrow> T pa = Some p \<Longrightarrow> pa \<in> lv"
  by (auto simp: ept_tree_def)

text \<open>The leaf entry a guest address reaches, or zero; the translation depends on nothing else.\<close>

definition norm_leaf :: "u64 \<Rightarrow> u64" where
  "norm_leaf e = (if entry_is_present e then e else 0)"

fun leaf_from :: "'f reader \<Rightarrow> 'f \<Rightarrow> u64 \<Rightarrow> nat \<Rightarrow> u64 \<Rightarrow> u64" where
  "leaf_from rd f g 0 t = norm_leaf (rd f t (ept_index g 0))"
| "leaf_from rd f g (Suc l) t =
     (let e = rd f t (ept_index g (Suc l)) in if entry_is_present e then leaf_from rd f g l (e AND ADDR_MASK) else 0)"

fun ok_value :: "('e, 'a) result \<Rightarrow> 'a option" where
  "ok_value (Ok a) = Some a"
| "ok_value (Err e) = None"

definition leaf_addr :: "u64 \<Rightarrow> u64 \<Rightarrow> u64 option" where
  "leaf_addr leaf gpa = (if entry_is_present leaf then Some ((leaf AND ADDR_MASK) OR (gpa AND 0xFFF)) else None)"

lemma absent_zero [simp]: "\<not> entry_is_present 0"
  by (simp add: entry_is_present_def)

lemma norm_leaf_present [simp]: "entry_is_present (norm_leaf e) \<longleftrightarrow> entry_is_present e"
  by (simp add: norm_leaf_def)

lemma leaf_from_walk:
  "leaf_from rd f g l t = (case walk rd g l t f of Err e \<Rightarrow> 0 | Ok pt \<Rightarrow> norm_leaf (rd f pt (ept_index g 0)))"
  by (induction l arbitrary: t) (simp_all add: Let_def)

lemma translate_leaf: "ok_value (translate rd root f g) = leaf_addr (leaf_from rd f g 3 root) g"
  by (cases "walk rd g 3 root f")
     (auto simp: translate_def leaf_from_walk leaf_addr_def norm_leaf_def Let_def entry_is_present_def)

lemma walk_same_path:
  "gpath g 0 = gpath h 0 \<Longrightarrow> l \<le> 3 \<Longrightarrow> walk rd g l t f = walk rd h l t f"
proof (induction l arbitrary: t)
  case (Suc l)
  then have "ept_index g (Suc l) = ept_index h (Suc l)"
    by (auto simp: gpath_def upt_rec numeral_3_eq_3 le_Suc_eq)
  with Suc show ?case by (simp add: Let_def)
qed simp

lemma walk_label:
  "ept_tree rd lv f T root \<Longrightarrow> T t = Some (gpath g l) \<Longrightarrow> l \<le> 3 \<Longrightarrow> walk rd g l t f = Ok pt \<Longrightarrow> T pt = Some (gpath g 0)"
proof (induction l arbitrary: t)
  case (Suc l)
  from Suc.prems(4) have p: "entry_is_present (rd f t (ept_index g (Suc l)))"
    "walk rd g l (rd f t (ept_index g (Suc l)) AND ADDR_MASK) f = Ok pt" by (auto simp: Let_def split: if_splits)
  have "T (rd f t (ept_index g (Suc l)) AND ADDR_MASK) = Some (gpath g l)"
    using ept_treeD(1) [OF Suc.prems(1,2) _ _ p(1)] Suc.prems(3) gpath_step [of l g] by simp
  with Suc.IH Suc.prems p(2) show ?case by auto
qed auto

text \<open>How far a walk may change the tables: new frames get labels, and no translation changes.\<close>

definition grown :: "'f reader \<Rightarrow> ('f \<Rightarrow> bool) \<Rightarrow> ('f \<Rightarrow> u64 set) \<Rightarrow> u64 \<Rightarrow> 'f \<Rightarrow> (u64 \<Rightarrow> nat list option) \<Rightarrow>
    'f \<Rightarrow> (u64 \<Rightarrow> nat list option) \<Rightarrow> bool" where
  "grown rd ok live root f T f' T' \<longleftrightarrow>
     ok f' \<and> ept_tree rd (live f') f' T' root \<and> T \<subseteq>\<^sub>m T' \<and> live f \<subseteq> live f' \<and> dom T' \<inter> live f \<subseteq> dom T \<and>
     (\<forall>pb \<in> live f. \<forall>j < 512. pb \<notin> dom T \<or> entry_is_present (rd f pb j) \<longrightarrow> rd f' pb j = rd f pb j) \<and>
     (\<forall>g. leaf_from rd f' g 3 root = leaf_from rd f g 3 root)"

lemma grown_trans:
  assumes "grown rd ok live root f T f' T'" "grown rd ok live root f' T' f'' T''"
  shows "grown rd ok live root f T f'' T''"
proof -
  have "rd f'' pb j = rd f pb j" if H: "pb \<in> live f" "j < 512" "pb \<notin> dom T \<or> entry_is_present (rd f pb j)" for pb j
  proof -
    have same: "rd f' pb j = rd f pb j" using assms(1) H unfolding grown_def by blast
    have "pb \<in> live f'" "pb \<notin> dom T' \<or> entry_is_present (rd f' pb j)"
      using assms(1) H same unfolding grown_def by auto
    then have "rd f'' pb j = rd f' pb j" using assms(2) H unfolding grown_def by blast
    with same show ?thesis by simp
  qed
  moreover have "dom T'' \<inter> live f \<subseteq> dom T" using assms unfolding grown_def by blast
  moreover have "T \<subseteq>\<^sub>m T''" using assms map_le_trans by (auto simp: grown_def)
  ultimately show ?thesis using assms by (auto simp: grown_def)
qed

lemma grownD:
  assumes "grown rd ok live root f T f' T'"
  shows "ok f'" "ept_tree rd (live f') f' T' root" "live f \<subseteq> live f'" "dom T' \<inter> live f \<subseteq> dom T"
    "\<And>g. leaf_from rd f' g 3 root = leaf_from rd f g 3 root"
    "\<And>pb j. pb \<in> live f \<Longrightarrow> j < 512 \<Longrightarrow> pb \<notin> dom T \<or> entry_is_present (rd f pb j) \<Longrightarrow> rd f' pb j = rd f pb j"
  using assms unfolding grown_def by blast+

lemma table_entry:
  assumes "nt AND ADDR_MASK = nt"
  shows "(nt OR NON_LEAF_RWX) AND ADDR_MASK = nt" "entry_is_present (nt OR NON_LEAF_RWX)"
proof -
  have "(7 :: u64) AND ADDR_MASK = 0" by (simp add: ADDR_MASK_def)
  then show "(nt OR NON_LEAF_RWX) AND ADDR_MASK = nt"
    using assms by (simp add: bit.conj_disj_distrib2 NON_LEAF_RWX_def)
  show "entry_is_present (nt OR NON_LEAF_RWX)"
    by (simp add: entry_is_present_def NON_LEAF_RWX_def bit.conj_disj_distrib2)
qed

lemma ept_tree_cong:
  assumes "ept_tree rd lv f T root" "\<And>pb j. pb \<in> dom T \<Longrightarrow> j < 512 \<Longrightarrow> rd f' pb j = rd f pb j" "lv \<subseteq> lv'"
  shows "ept_tree rd lv' f' T root"
  unfolding ept_tree_def
proof (intro conjI allI impI)
  show "T root = Some []" "dom T \<subseteq> lv'" using assms(1,3) by (auto simp: ept_tree_def)
  fix pa p i assume H: "T pa = Some p" "length p < 3" "i < 512" "entry_is_present (rd f' pa i)"
  have "rd f' pa i = rd f pa i" using H by (intro assms(2)) auto
  with ept_treeD(1) [OF assms(1) H(1-3)] H(4) show "T (rd f' pa i AND ADDR_MASK) = Some (p @ [i])" by simp
qed

lemma leaf_from_cong:
  assumes "ept_tree rd lv f T root" "T t = Some (gpath g l)" "l \<le> 3"
    and "\<And>pb j. pb \<in> dom T \<Longrightarrow> j < 512 \<Longrightarrow> rd' f' pb j = rd f pb j"
  shows "leaf_from rd' f' g l t = leaf_from rd f g l t"
  using assms(2,3)
proof (induction l arbitrary: t)
  case 0
  then show ?case using assms(4) [of t] by (simp add: domI)
next
  case (Suc l)
  let ?e = "rd f t (ept_index g (Suc l))"
  have "rd' f' t (ept_index g (Suc l)) = ?e" using assms(4) [of t] Suc.prems by (simp add: domI)
  moreover have "T (?e AND ADDR_MASK) = Some (gpath g l)" if "entry_is_present ?e"
    using ept_treeD(1) [OF assms(1) Suc.prems(1) _ _ that] Suc.prems(2) gpath_step [of l g] by simp
  ultimately show ?case using Suc by (auto simp: Let_def)
qed

context frame_provider
begin

lemma alloc_grown:
  assumes "ok f" "ept_tree rd (live f) f T root" "al f = (f', r)"
  shows "grown rd ok live root f T f' T"
proof -
  have same: "rd f' pb j = rd f pb j" if "pb \<in> dom T" "j < 512" for pb j
    using al_rd [OF assms(1,3)] assms(2) that by (auto simp: ept_tree_def)
  have "ok f' \<and> live f \<subseteq> live f'"
  proof (cases r)
    case (Err e)
    then show ?thesis using al_err [OF assms(1)] assms(3) by blast
  next
    case (Ok pa)
    then show ?thesis using al_ok [OF assms(1)] assms(3) by blast
  qed
  then have "live f \<subseteq> live f'" "ok f'" by simp_all
  moreover have "ept_tree rd (live f') f' T root"
    by (rule ept_tree_cong [OF assms(2) same \<open>live f \<subseteq> live f'\<close>])
  moreover have "leaf_from rd f' g 3 root = leaf_from rd f g 3 root" for g
    using assms(2) same by (intro leaf_from_cong [OF assms(2)]) (simp_all add: ept_tree_def gpath_top)
  ultimately show ?thesis using al_rd [OF assms(1,3)] by (auto simp: grown_def)
qed

lemma new_table_grown:
  assumes ok: "ok f" and tree: "ept_tree rd (live f) f T root" and t: "T table = Some (gpath gpa (Suc l))" and l: "l < 3"
    and absent: "\<not> entry_is_present (rd f table (ept_index gpa (Suc l)))" and al: "al f = (f', Ok nt)"
  shows "grown rd ok live root f T (wr f' table (ept_index gpa (Suc l)) (nt OR NON_LEAF_RWX)) (T(nt \<mapsto> gpath gpa l))"
proof -
  let ?i = "ept_index gpa (Suc l)" and ?T = "T(nt \<mapsto> gpath gpa l)"
  define f2 where "f2 = wr f' table ?i (nt OR NON_LEAF_RWX)"
  note a = al_ok [OF ok al]
  have tl: "table \<in> live f" using ept_treeD(2) [OF tree t] .
  have nt: "nt \<notin> dom T" using a tree by (auto simp: ept_tree_def)
  have live: "ok f2" "live f2 = insert nt (live f)" using wr_ok [of f' table ?i] a tl by (auto simp: f2_def)
  have old: "rd f2 pb j = (if pb = table \<and> j = ?i then nt OR NON_LEAF_RWX else rd f pb j)" if "pb \<in> live f" "j < 512" for pb j
    using rd_wr [of f' table pb ?i j] a tl that al_rd [OF ok al] by (auto simp: f2_def)
  have new: "rd f2 nt j = 0" if "j < 512" for j
    using rd_wr [of f' table nt ?i j] a tl that al_zero [OF ok al] by (auto simp: f2_def)
  have tree2: "ept_tree rd (live f2) f2 ?T root"
    unfolding ept_tree_def
  proof (intro conjI allI impI)
    show "?T root = Some []" using tree nt by (auto simp: ept_tree_def)
    show "dom ?T \<subseteq> live f2" using tree live by (auto simp: ept_tree_def)
    fix pa p j assume H: "?T pa = Some p" "length p < 3" "j < 512" "entry_is_present (rd f2 pa j)"
    have pa: "pa \<noteq> nt" using H new by auto
    then have T: "T pa = Some p" "pa \<in> live f" using H tree by (auto simp: ept_tree_def split: if_splits)
    show "?T (rd f2 pa j AND ADDR_MASK) = Some (p @ [j])"
    proof (cases "pa = table \<and> j = ?i")
      case True
      then have "rd f2 pa j = nt OR NON_LEAF_RWX" using old T H by simp
      then show ?thesis using True T t table_entry(1) a gpath_step [OF l, of gpa] by simp
    next
      case False
      then have "rd f2 pa j = rd f pa j" using old T H by auto
      then show ?thesis using ept_treeD(1) [OF tree T(1) H(2,3)] H(4) nt by auto
    qed
  qed
  have leaf: "leaf_from rd f2 g k s = leaf_from rd f g k s" if "T s = Some (gpath g k)" "k \<le> 3" for g k s
    using that
  proof (induction k arbitrary: s)
    case 0
    then have "s \<noteq> table" using t l by (metis length_gpath option.inject diff_zero less_imp_diff_less nat_neq_iff zero_less_Suc diff_less zero_less_numeral)
    then show ?case using old [of s] ept_treeD(2) [OF tree 0(1)] by simp
  next
    case (Suc k)
    let ?e = "rd f s (ept_index g (Suc k))"
    have s: "s \<in> live f" using ept_treeD(2) [OF tree Suc.prems(1)] .
    show ?case
    proof (cases "s = table \<and> ept_index g (Suc k) = ?i")
      case True
      have "leaf_from rd f2 g k nt = 0" using new by (cases k) (simp_all add: norm_leaf_def Let_def)
      moreover have "\<not> entry_is_present ?e" using True absent by simp
      ultimately show ?thesis using old [OF s] True table_entry a by (simp add: Let_def)
    next
      case False
      then have "rd f2 s (ept_index g (Suc k)) = ?e" using old [OF s] by auto
      moreover have "T (?e AND ADDR_MASK) = Some (gpath g k)" if "entry_is_present ?e"
        using ept_treeD(1) [OF tree Suc.prems(1) _ _ that] Suc.prems(2) gpath_step [of k g] by simp
      ultimately show ?thesis using Suc by (auto simp: Let_def)
    qed
  qed
  have "leaf_from rd f2 g 3 root = leaf_from rd f g 3 root" for g
    using leaf [of root g 3] tree by (simp add: ept_tree_def gpath_top)
  moreover have "T \<subseteq>\<^sub>m ?T" using nt by (auto simp: map_le_def)
  moreover have "table \<in> dom T" using t by auto
  ultimately show ?thesis using live tree2 old a absent unfolding f2_def [symmetric] grown_def by (auto simp: domIff)
qed

end

context frame_provider
begin

lemma grown_refl: "ok f \<Longrightarrow> ept_tree rd (live f) f T root \<Longrightarrow> grown rd ok live root f T f T"
  by (simp add: grown_def)

lemma walk_alloc_grown:
  assumes "ok f" "ept_tree rd (live f) f T root" "T table = Some (gpath gpa l)" "l \<le> 3"
    "walk_alloc al rd wr gpa l table f = (f', r)"
  shows "\<exists>T'. grown rd ok live root f T f' T' \<and> (\<forall>pt. r = Ok pt \<longrightarrow> T' pt = Some (gpath gpa 0))"
  using assms
proof (induction l arbitrary: table f T)
  case 0
  then show ?case using grown_refl by auto
next
  case (Suc l)
  let ?i = "ept_index gpa (Suc l)"
  show ?case
  proof (cases "entry_is_present (rd f table ?i)")
    case True
    then have "T (rd f table ?i AND ADDR_MASK) = Some (gpath gpa l)"
      using ept_treeD(1) [OF Suc.prems(2,3) _ _ True] Suc.prems(4) gpath_step [of l gpa] by simp
    with Suc.IH [OF Suc.prems(1,2)] Suc.prems(4,5) True show ?thesis by (simp add: Let_def)
  next
    case absent: False
    obtain f1 r1 where al: "al f = (f1, r1)" by (cases "al f")
    show ?thesis
    proof (cases r1)
      case (Err e)
      then have "f' = f1" "r = Err e" using Suc.prems(5) absent al by (simp_all add: Let_def)
      then show ?thesis using alloc_grown [OF Suc.prems(1,2) al] by auto
    next
      case (Ok nt)
      let ?f2 = "wr f1 table ?i (nt OR NON_LEAF_RWX)" and ?T = "T(nt \<mapsto> gpath gpa l)"
      have g: "grown rd ok live root f T ?f2 ?T"
        using new_table_grown [OF Suc.prems(1,2,3) _ absent] al Ok Suc.prems(4) by simp
      have w: "walk_alloc al rd wr gpa l nt ?f2 = (f', r)" using Suc.prems(5) absent al Ok by (simp add: Let_def)
      have "\<exists>T'. grown rd ok live root ?f2 ?T f' T' \<and> (\<forall>pt. r = Ok pt \<longrightarrow> T' pt = Some (gpath gpa 0))"
        by (rule Suc.IH [OF grownD(1,2) [OF g] _ _ w]) (use Suc.prems(4) in simp_all)
      with grown_trans [OF g] show ?thesis by blast
    qed
  qed
qed

lemma walk_alloc_walk:
  assumes "ok f" "ept_tree rd (live f) f T root" "T table = Some (gpath gpa l)" "l \<le> 3"
    "walk_alloc al rd wr gpa l table f = (f', Ok pt)"
  shows "walk rd gpa l table f' = Ok pt"
  using assms
proof (induction l arbitrary: table f T)
  case (Suc l)
  let ?i = "ept_index gpa (Suc l)"
  have table: "table \<in> live f" using ept_treeD(2) [OF Suc.prems(2,3)] .
  have keep: "rd f' table ?i = rd f2 table ?i"
    if H: "ok f2" "ept_tree rd (live f2) f2 T2 root" "T2 t2 = Some (gpath gpa l)" "table \<in> live f2"
      "walk_alloc al rd wr gpa l t2 f2 = (f', Ok pt)" "entry_is_present (rd f2 table ?i)" for f2 T2 t2
  proof -
    obtain T' where g: "grown rd ok live root f2 T2 f' T'"
      using walk_alloc_grown [OF H(1-3) _ H(5)] Suc.prems(4) by auto
    show ?thesis using H(4,6) by (intro grownD(6) [OF g]) simp_all
  qed
  show ?case
  proof (cases "entry_is_present (rd f table ?i)")
    case True
    then have T: "T (rd f table ?i AND ADDR_MASK) = Some (gpath gpa l)"
      using ept_treeD(1) [OF Suc.prems(2,3) _ _ True] Suc.prems(4) gpath_step [of l gpa] by simp
    have w: "walk_alloc al rd wr gpa l (rd f table ?i AND ADDR_MASK) f = (f', Ok pt)"
      using Suc.prems(5) True by (simp add: Let_def)
    from keep [OF Suc.prems(1,2) T table w True] Suc.IH [OF Suc.prems(1,2) T _ w] Suc.prems(4) True
    show ?thesis by (simp add: Let_def)
  next
    case absent: False
    then obtain f1 nt where al: "al f = (f1, Ok nt)"
      "walk_alloc al rd wr gpa l nt (wr f1 table ?i (nt OR NON_LEAF_RWX)) = (f', Ok pt)"
      using Suc.prems(5) by (auto simp: Let_def split: prod.splits result.splits)
    let ?f2 = "wr f1 table ?i (nt OR NON_LEAF_RWX)" and ?T = "T(nt \<mapsto> gpath gpa l)"
    have g: "grown rd ok live root f T ?f2 ?T"
      using new_table_grown [OF Suc.prems(1,2,3) _ absent al(1)] Suc.prems(4) by simp
    note a = al_ok [OF Suc.prems(1) al(1)]
    have e: "rd ?f2 table ?i = nt OR NON_LEAF_RWX" using rd_wr [of f1 table table ?i ?i] a table by auto
    have "table \<in> live ?f2" using grownD(3) [OF g] table by auto
    then have "rd f' table ?i = nt OR NON_LEAF_RWX"
      using keep [OF grownD(1,2) [OF g] _ _ al(2)] e table_entry a by simp
    moreover have "walk rd gpa l nt f' = Ok pt"
      using Suc.IH [OF grownD(1,2) [OF g] _ _ al(2)] Suc.prems(4) by simp
    ultimately show ?thesis using table_entry a by (simp add: Let_def)
  qed
qed simp

end

context frame_provider
begin

text \<open>Writing the leaf entry changes the translation of its page and of no other.\<close>

lemma leaf_write:
  assumes ok: "ok f" and tree: "ept_tree rd (live f) f T root" and pt: "T pt = Some (gpath gpa 0)"
    and w: "walk rd gpa 3 root f = Ok pt"
    and f'_def: "f' = wr f pt (ept_index gpa 0) v"
  shows "ok f' \<and> live f' = live f \<and> ept_tree rd (live f') f' T root"
    and "leaf_from rd f' g 3 root = (if ept_indices g = ept_indices gpa then norm_leaf v else leaf_from rd f g 3 root)"
    and "pb \<in> live f \<Longrightarrow> pb \<notin> dom T \<Longrightarrow> j < 512 \<Longrightarrow> rd f' pb j = rd f pb j"
proof -
  have live: "ok f'" "live f' = live f" using wr_ok [OF ok ept_treeD(2) [OF tree pt]] by (simp_all add: f'_def)
  have rd: "rd f' pb j = (if pt = pb \<and> ept_index gpa 0 = j then v else rd f pb j)" if "pb \<in> live f" "j < 512" for pb j
    using rd_wr [OF ok ept_treeD(2) [OF tree pt] that(1) _ that(2)] by (simp add: f'_def)
  have nonleaf: "rd f' pa i = rd f pa i" if "T pa = Some p" "length p < 3" "i < 512" for pa p i
    using rd [OF ept_treeD(2) [OF tree that(1)] that(3)] that(1,2) pt by auto
  show "ok f' \<and> live f' = live f \<and> ept_tree rd (live f') f' T root"
    using live tree nonleaf unfolding ept_tree_def by simp
  have walk_same: "walk rd g l s f' = walk rd g l s f" if "T s = Some (gpath g l)" "l \<le> 3" for l s
    using that
  proof (induction l arbitrary: s)
    case (Suc l)
    let ?e = "rd f s (ept_index g (Suc l))"
    have "rd f' s (ept_index g (Suc l)) = ?e" using nonleaf [OF Suc.prems(1)] Suc.prems(2) by simp
    moreover have "T (?e AND ADDR_MASK) = Some (gpath g l)" if "entry_is_present ?e"
      using ept_treeD(1) [OF tree Suc.prems(1) _ _ that] Suc.prems(2) gpath_step [of l g] by simp
    ultimately show ?case using Suc by (auto simp: Let_def)
  qed simp
  have top: "T root = Some (gpath g 3)" using tree by (simp add: ept_tree_def gpath_top)
  show "leaf_from rd f' g 3 root = (if ept_indices g = ept_indices gpa then norm_leaf v else leaf_from rd f g 3 root)"
  proof (cases "walk rd g 3 root f")
    case (Err e)
    then have "ept_indices g \<noteq> ept_indices gpa" using walk_same_path [of g gpa 3 rd root f] w gpath_indices [of g gpa] by auto
    with Err walk_same [OF top] show ?thesis by (simp add: leaf_from_walk)
  next
    case (Ok q)
    have q: "T q = Some (gpath g 0)" using walk_label [OF tree top _ Ok] by simp
    have "q = pt \<longleftrightarrow> gpath g 0 = gpath gpa 0"
      using q pt Ok w walk_same_path [of g gpa 3 rd root f] by auto
    then have "pt = q \<and> ept_index gpa 0 = ept_index g 0 \<longleftrightarrow> ept_indices g = ept_indices gpa"
      using gpath_indices [of g gpa] by auto
    with rd [OF ept_treeD(2) [OF tree q], of "ept_index g 0"] Ok walk_same [OF top] show ?thesis
      by (simp add: leaf_from_walk)
  qed
  show "pb \<in> live f \<Longrightarrow> pb \<notin> dom T \<Longrightarrow> j < 512 \<Longrightarrow> rd f' pb j = rd f pb j"
    using rd [of pb j] pt by auto
qed

text \<open>What a call of \<open>map_4k\<close> does, on every branch.\<close>

lemma map_4k_spec:
  assumes ok: "ok f" and tree: "ept_tree rd (live f) f T root" and m: "map_4k al rd wr root f gpa hpa flags = (f', r)"
  shows "\<exists>T'. ok f' \<and> live f \<subseteq> live f' \<and> ept_tree rd (live f') f' T' root \<and> dom T' \<inter> live f \<subseteq> dom T \<and>
    (\<forall>pb \<in> live f - dom T. \<forall>j < 512. rd f' pb j = rd f pb j) \<and>
    (\<forall>g. leaf_from rd f' g 3 root =
       (if r = Ok () \<and> ept_indices g = ept_indices gpa then norm_leaf ((hpa AND ADDR_MASK) OR flags)
        else leaf_from rd f g 3 root))"
proof (cases "gpa AND 0xFFF \<noteq> 0 \<or> hpa AND 0xFFF \<noteq> 0 \<or> flags AND (EPT_READ OR EPT_WRITE OR EPT_EXEC) = 0")
  case True
  then have "f' = f" "r \<noteq> Ok ()" using m by (auto simp: map_4k_def split: if_splits)
  then show ?thesis using ok tree by auto
next
  case False
  obtain f1 r1 where w: "walk_alloc al rd wr gpa 3 root f = (f1, r1)" by (cases "walk_alloc al rd wr gpa 3 root f")
  have top: "T root = Some (gpath gpa 3)" using tree by (simp add: ept_tree_def gpath_top)
  obtain T' where g: "grown rd ok live root f T f1 T'" and pt: "\<And>pt. r1 = Ok pt \<Longrightarrow> T' pt = Some (gpath gpa 0)"
    using walk_alloc_grown [OF ok tree top _ w] by auto
  have keep: "rd f1 pb j = rd f pb j" if "pb \<in> live f - dom T" "j < 512" for pb j
    using that by (intro grownD(6) [OF g]) auto
  show ?thesis
  proof (cases r1)
    case (Err e)
    then have "f' = f1" "r \<noteq> Ok ()" using m False w by (auto simp: map_4k_def)
    then show ?thesis using grownD(1-5) [OF g] keep by (intro exI [of _ T']) auto
  next
    case (Ok t)
    then have f': "f' = wr f1 t (ept_index gpa 0) ((hpa AND ADDR_MASK) OR flags)" "r = Ok ()"
      using m False w by (auto simp: map_4k_def)
    have wk: "walk rd gpa 3 root f1 = Ok t" using walk_alloc_walk [OF ok tree top] w Ok by simp
    note lw = leaf_write [OF grownD(1,2) [OF g] pt [OF Ok] wk f'(1)]
    have "rd f' pb j = rd f pb j" if "pb \<in> live f - dom T" "j < 512" for pb j
      using lw(3) [of pb j] keep [OF that] that grownD(3,4) [OF g] by auto
    then show ?thesis using lw(1,2) grownD(3-5) [OF g] f'(2) by (intro exI [of _ T']) auto
  qed
qed

end

subsection \<open>The pool keeps the contract\<close>

text \<open>
  The pool lies below \<open>2^52\<close> and is page aligned (\<^verbatim>\<open>repr(align(4096))\<close> under the identity map); what
  has not been handed out is still zero, as \<^verbatim>\<open>.bss\<close> starts.
\<close>

definition POOL_BYTES :: nat where "POOL_BYTES = POOL_PAGES * PAGE_SIZE"

definition frames_ok :: "frames \<Rightarrow> bool" where
  "frames_ok fr \<longleftrightarrow> aligned (fr_base fr) \<and> unat (fr_base fr) + POOL_BYTES \<le> 2 ^ 52 \<and> fr_next fr mod PAGE_SIZE = 0 \<and>
     (\<forall>off. fr_next fr \<le> off \<and> off < POOL_BYTES \<longrightarrow> fr_mem fr (fr_base fr + of_nat off) = 0)"

definition pool_frames :: "frames \<Rightarrow> u64 set" where
  "pool_frames fr = (\<lambda>k. fr_base fr + of_nat (PAGE_SIZE * k)) ` {k. k < POOL_PAGES \<and> PAGE_SIZE * k < fr_next fr}"

lemmas sizes = PAGE_SIZE_def POOL_PAGES_def POOL_BYTES_def

lemma frames_okD:
  assumes "frames_ok fr"
  shows "aligned (fr_base fr)" "unat (fr_base fr) + POOL_BYTES \<le> 2 ^ 52" "fr_next fr mod PAGE_SIZE = 0"
    "\<And>off. fr_next fr \<le> off \<Longrightarrow> off < POOL_BYTES \<Longrightarrow> fr_mem fr (fr_base fr + of_nat off) = 0"
  using assms unfolding frames_ok_def by blast+

lemma unat_pool:
  assumes "frames_ok fr" "off < POOL_BYTES"
  shows "unat (fr_base fr + of_nat off) = unat (fr_base fr) + off"
  using frames_okD(2) [OF assms(1)] assms(2) by (simp add: unat_word_ariths unat_of_nat sizes)

lemma page_of_pool:
  assumes "frames_ok fr" "off < POOL_BYTES"
  shows "page_of (fr_base fr + of_nat off) = page_of (fr_base fr) + off div PAGE_SIZE"
proof -
  obtain b where "unat (fr_base fr) = PAGE_SIZE * b" using frames_okD(1) [OF assms(1)] by (auto simp: aligned_def)
  then show ?thesis using unat_pool [OF assms] by (simp add: page_of_def PAGE_SIZE_def)
qed

lemma aligned_pool:
  assumes "frames_ok fr" "k < POOL_PAGES"
  shows "aligned (fr_base fr + of_nat (PAGE_SIZE * k))"
proof -
  obtain b where b: "unat (fr_base fr) = PAGE_SIZE * b" using frames_okD(1) [OF assms(1)] by (auto simp: aligned_def)
  have "unat (fr_base fr + of_nat (PAGE_SIZE * k)) = PAGE_SIZE * b + PAGE_SIZE * k"
    using unat_pool [OF assms(1), of "PAGE_SIZE * k"] assms(2) b by (simp only: POOL_BYTES_def) (simp add: sizes)
  then show ?thesis by (simp only: aligned_def mod_mult_self1_is_0 flip: distrib_left)
qed

lemma pool_frameE:
  assumes "frames_ok fr" "pa \<in> pool_frames fr"
  obtains k where "pa = fr_base fr + of_nat (PAGE_SIZE * k)" "k < POOL_PAGES" "PAGE_SIZE * k < fr_next fr" "aligned pa"
  using assms aligned_pool by (auto simp: pool_frames_def)

lemma pool_frame_aligned: "frames_ok fr \<Longrightarrow> pa \<in> pool_frames fr \<Longrightarrow> aligned pa"
  by (erule pool_frameE)

lemma bit_addr_mask: "bit ADDR_MASK n \<longleftrightarrow> 12 \<le> n \<and> n < 52"
proof -
  have "ADDR_MASK = push_bit 12 (mask 40)" by (simp add: ADDR_MASK_def mask_eq_exp_minus_1)
  then have "bit ADDR_MASK n \<longleftrightarrow> bit (push_bit 12 (mask 40) :: u64) n" by (rule arg_cong)
  also have "\<dots> \<longleftrightarrow> 12 \<le> n \<and> n < 52" by (auto simp: bit_push_bit_iff bit_mask_iff)
  finally show ?thesis .
qed

lemma addr_mask_id:
  assumes "aligned pa" "unat pa < 2 ^ 52"
  shows "pa AND ADDR_MASK = pa"
proof -
  have hi: "\<not> bit pa n" if "52 \<le> n" for n
  proof -
    have "unat pa < 2 ^ n" using assms(2) power_increasing [OF that, of "2 :: nat"] by linarith
    then have "unat pa div 2 ^ n = 0" by simp
    then have "\<not> bit (unat pa) n" by (simp add: bit_iff_odd)
    then show ?thesis by (simp add: bit_unsigned_iff)
  qed
  have lo: "\<not> bit pa n" if "n < 12" for n
  proof -
    have "take_bit 12 (unat pa) = 0" using assms(1) by (simp add: aligned_def PAGE_SIZE_def take_bit_eq_mod)
    then have "\<not> bit (take_bit 12 (unat pa)) n" by simp
    then show ?thesis using that by (simp add: bit_take_bit_iff bit_unsigned_iff)
  qed
  show ?thesis by (rule bit_word_eqI) (use hi lo in \<open>auto simp: bit_and_iff bit_addr_mask not_less [symmetric]\<close>)
qed

lemma write_entry_fields [simp]:
  "fr_base (write_entry fr pa i v) = fr_base fr" "fr_next (write_entry fr pa i v) = fr_next fr"
  "pool_frames (write_entry fr pa i v) = pool_frames fr"
  by (simp_all add: write_entry_def pool_frames_def)

lemma frames_ok_mem:
  assumes "frames_ok fr" "fr_base fr' = fr_base fr" "fr_next fr' = fr_next fr"
    and "\<And>b. (\<forall>pa \<in> pool_frames fr. page_of b \<noteq> page_of pa) \<Longrightarrow> fr_mem fr' b = fr_mem fr b"
  shows "frames_ok fr'"
proof -
  have "fr_mem fr' (fr_base fr + of_nat off) = 0" if "fr_next fr \<le> off" "off < POOL_BYTES" for off
  proof -
    have "page_of (fr_base fr + of_nat off) \<noteq> page_of pa" if "pa \<in> pool_frames fr" for pa
    proof -
      obtain k where k: "pa = fr_base fr + of_nat (PAGE_SIZE * k)" "k < POOL_PAGES" "PAGE_SIZE * k < fr_next fr"
        using pool_frameE [OF assms(1) \<open>pa \<in> pool_frames fr\<close>] .
      obtain n where n: "fr_next fr = PAGE_SIZE * n" using assms(1) by (auto simp: frames_ok_def)
      with k \<open>fr_next fr \<le> off\<close> have "k < off div PAGE_SIZE" by (auto simp: sizes less_eq_div_iff_mult_less_eq)
      moreover have "PAGE_SIZE * k < POOL_BYTES" using k(2) by (simp add: sizes)
      ultimately show ?thesis
        using page_of_pool [OF assms(1) \<open>off < POOL_BYTES\<close>] page_of_pool [OF assms(1), of "PAGE_SIZE * k"] k(1) by (simp add: PAGE_SIZE_def)
    qed
    then show ?thesis using assms(4) [of "fr_base fr + of_nat off"] frames_okD(4) [OF assms(1) that] by simp
  qed
  with assms(1-3) show ?thesis by (simp add: frames_ok_def)
qed

lemma write_entry_ok: "frames_ok fr \<Longrightarrow> pa \<in> pool_frames fr \<Longrightarrow> i < 512 \<Longrightarrow> frames_ok (write_entry fr pa i v)"
proof -
  assume fr: "frames_ok fr" and pa: "pa \<in> pool_frames fr" and i: "i < 512"
  show ?thesis by (rule frames_ok_mem [OF fr]) (simp_all add: write_entry_other pool_frame_aligned [OF fr pa] i pa)
qed

lemma alloc_mem: "alloc_zeroed fr = (fr', r) \<Longrightarrow> fr_mem fr' = fr_mem fr \<and> fr_base fr' = fr_base fr"
  by (auto simp: alloc_zeroed_def Let_def split: if_splits)

lemma alloc_next: "alloc_zeroed fr = (fr', r) \<Longrightarrow> fr_next fr' = fr_next fr + PAGE_SIZE"
  by (auto simp: alloc_zeroed_def Let_def split: if_splits)

lemma alloc_frames_ok: "frames_ok fr \<Longrightarrow> alloc_zeroed fr = (fr', r) \<Longrightarrow> frames_ok fr'"
proof -
  assume fr: "frames_ok fr" and al: "alloc_zeroed fr = (fr', r)"
  show ?thesis unfolding frames_ok_def
    using frames_okD(1,2,3) [OF fr] by (simp add: alloc_mem [OF al] alloc_next [OF al] frames_okD(4) [OF fr])
qed

lemma alloc_Ok:
  assumes "frames_ok fr" "alloc_zeroed fr = (fr', Ok pa)"
  shows "pa = fr_base fr + of_nat (fr_next fr)" "fr_next fr + PAGE_SIZE \<le> POOL_BYTES"
    "pool_frames fr' = insert pa (pool_frames fr)" "pa \<notin> pool_frames fr" "aligned pa" "pa AND ADDR_MASK = pa"
proof -
  show pa: "pa = fr_base fr + of_nat (fr_next fr)" and le: "fr_next fr + PAGE_SIZE \<le> POOL_BYTES"
    using assms(2) by (auto simp: alloc_zeroed_def Let_def POOL_BYTES_def split: if_splits)
  obtain n where n: "fr_next fr = PAGE_SIZE * n" using assms(1) by (auto simp: frames_ok_def)
  with le have nn: "n < POOL_PAGES" by (auto simp: sizes)
  have "{k. k < POOL_PAGES \<and> PAGE_SIZE * k < fr_next fr'} = insert n {k. k < POOL_PAGES \<and> PAGE_SIZE * k < fr_next fr}"
    using n nn alloc_next [OF assms(2)] by (auto simp: sizes)
  then show "pool_frames fr' = insert pa (pool_frames fr)" using pa n alloc_mem [OF assms(2)] by (simp add: pool_frames_def)
  show al: "aligned pa" using aligned_pool [OF assms(1) nn] pa n by simp
  show "pa AND ADDR_MASK = pa" using al frames_okD(2) [OF assms(1)] unat_pool [OF assms(1), of "fr_next fr"] le pa
    by (intro addr_mask_id) (auto simp: sizes)
  show "pa \<notin> pool_frames fr"
  proof
    assume "pa \<in> pool_frames fr"
    then obtain k where "pa = fr_base fr + of_nat (PAGE_SIZE * k)" "k < POOL_PAGES" "PAGE_SIZE * k < fr_next fr"
      using pool_frameE [OF assms(1)] by blast
    moreover from this have "unat pa = unat (fr_base fr) + PAGE_SIZE * k"
      using unat_pool [OF assms(1), of "PAGE_SIZE * k"] by (simp add: POOL_BYTES_def POOL_PAGES_def PAGE_SIZE_def)
    moreover have "unat pa = unat (fr_base fr) + fr_next fr"
      using unat_pool [OF assms(1), of "fr_next fr"] le pa by (simp add: PAGE_SIZE_def)
    ultimately show False by simp
  qed
qed

lemma fresh_zero:
  assumes "frames_ok fr" "alloc_zeroed fr = (fr', Ok pa)" "i < PAGE_SIZE"
  shows "fr_mem fr' (pa + of_nat i) = 0"
  using alloc_Ok(1,2) [OF assms(1,2)] alloc_mem [OF assms(2)] frames_okD(4) [OF assms(1), of "fr_next fr + i"] assms(3)
  by (simp add: add.assoc)

interpretation pool: frame_provider alloc_zeroed read_entry write_entry frames_ok pool_frames
proof
  fix f f' :: frames and pa pb i j v r and e :: hyper_error
  assume ok: "frames_ok f"
  show "read_entry (write_entry f pa i v) pb j = (if pa = pb \<and> i = j then v else read_entry f pb j)"
    if "pa \<in> pool_frames f" "pb \<in> pool_frames f" "i < 512" "j < 512"
    using that pool_frame_aligned [OF ok] by (simp add: read_write_entry)
  show "frames_ok (write_entry f pa i v) \<and> pool_frames (write_entry f pa i v) = pool_frames f" if "pa \<in> pool_frames f" "i < 512"
    using write_entry_ok [OF ok that] by simp
  show "frames_ok f' \<and> pool_frames f' = insert pa (pool_frames f) \<and> pa \<notin> pool_frames f \<and> pa AND ADDR_MASK = pa"
    if "alloc_zeroed f = (f', Ok pa)"
    using alloc_frames_ok [OF ok that] alloc_Ok [OF ok that] by simp
  show "read_entry f' pa j = 0" if "alloc_zeroed f = (f', Ok pa)" "j < 512"
    unfolding read_entry_def
  proof (rule le_read_zero)
    fix k assume "k < (8 :: nat)"
    then show "fr_mem f' (pa + of_nat (8 * j) + of_nat k) = 0"
      using fresh_zero [OF ok that(1), of "8 * j + k"] that(2) unfolding entry_byte by (simp add: PAGE_SIZE_def)
  qed
  show "frames_ok f' \<and> pool_frames f' = pool_frames f" if "alloc_zeroed f = (f', Err e)"
  proof -
    have "POOL_PAGES * PAGE_SIZE < fr_next f + PAGE_SIZE" using that by (auto simp: alloc_zeroed_def Let_def split: if_splits)
    then have "PAGE_SIZE * k < fr_next f'\<longleftrightarrow> PAGE_SIZE * k < fr_next f" if "k < POOL_PAGES" for k
      using that frames_okD(3) [OF ok] alloc_next [OF \<open>alloc_zeroed f = (f', Err e)\<close>] by (auto simp: sizes)
    then have "pool_frames f' = pool_frames f" using alloc_mem [OF that] by (auto simp: pool_frames_def)
    then show ?thesis using alloc_frames_ok [OF ok that] by simp
  qed
  show "read_entry f' pb j = read_entry f pb j" if "alloc_zeroed f = (f', r)" "pb \<in> pool_frames f" "j < 512"
    using alloc_mem [OF that(1)] by (simp add: read_entry_def)
qed

subsection \<open>Bytes of a page\<close>

lemma bit_le_read:
  "bit (le_read n m a) k \<longleftrightarrow> k < 8 * n \<and> k < 64 \<and> bit (m (a + of_nat (k div 8))) (k mod 8)"
proof (induction n arbitrary: a k)
  case (Suc n)
  show ?case
  proof (cases "k < 8")
    case True
    then show ?thesis by (auto simp: bit_simps dest: bit_imp_le_length)
  next
    case False
    then obtain j where j: "k = j + 8" by (metis add.commute le_Suc_ex not_less)
    have "\<not> bit (m a) k" using False by (auto dest: bit_imp_le_length)
    moreover have "of_nat ((j + 8) div 8) = (1 + of_nat (j div 8) :: u64)"
      using div_add_self2 [of 8 j] by (simp only: of_nat_Suc [symmetric] One_nat_def add_Suc_right add_0_right)
    ultimately show ?thesis by (auto simp: bit_simps Suc.IH j add.assoc simp del: of_nat_add)
  qed
qed simp

lemma read_entry_bytes:
  assumes "\<And>j. j < 512 \<Longrightarrow> read_entry fr' pa j = read_entry fr pa j" "i < PAGE_SIZE"
  shows "fr_mem fr' (pa + of_nat i) = fr_mem fr (pa + of_nat i)"
proof (rule bit_word_eqI)
  fix k assume k: "k < LENGTH(8)"
  let ?j = "i div 8" and ?b = "8 * (i mod 8) + k"
  have bit: "bit (read_entry f pa ?j) ?b \<longleftrightarrow> bit (fr_mem f (pa + of_nat i)) k" for f
  proof -
    have "?b div 8 = i mod 8" "?b mod 8 = k" "?b < 64" using k by auto
    moreover have "pa + of_nat (8 * ?j) + of_nat (i mod 8) = pa + of_nat i" unfolding entry_byte by simp
    ultimately show ?thesis by (simp add: read_entry_def bit_le_read add.assoc)
  qed
  have "?j < 512" using assms(2) by (simp add: PAGE_SIZE_def)
  then show "bit (fr_mem fr' (pa + of_nat i)) k = bit (fr_mem fr (pa + of_nat i)) k"
    using assms(1) bit [of fr] bit [of fr'] by simp
qed

subsection \<open>Mappings of the kernel's tables\<close>

definition ept_ok :: "frames \<Rightarrow> u64 \<Rightarrow> bool" where
  "ept_ok fr root \<longleftrightarrow> frames_ok fr \<and> (\<exists>T. ept_tree read_entry (pool_frames fr) fr T root)"

lemma leaf_addr_entry:
  assumes "flags AND ADDR_MASK = 0" "flags AND 7 \<noteq> 0"
  shows "leaf_addr (norm_leaf ((hpa AND ADDR_MASK) OR flags)) g = Some ((hpa AND ADDR_MASK) OR (g AND 0xFFF))"
proof -
  have "ADDR_MASK AND 7 = 0" by (simp add: ADDR_MASK_def)
  then have "((hpa AND ADDR_MASK) OR flags) AND 7 = flags AND 7"
    by (simp add: bit.conj_disj_distrib2 and.assoc)
  moreover have "((hpa AND ADDR_MASK) OR flags) AND ADDR_MASK = hpa AND ADDR_MASK"
    using assms(1) by (simp add: bit.conj_disj_distrib2 and.assoc)
  ultimately show ?thesis using assms(2) by (simp add: leaf_addr_def norm_leaf_def entry_is_present_def)
qed

lemma map_4k_Ok_guard:
  "map_4k al rd wr root f gpa hpa flags = (f', Ok ()) \<Longrightarrow> flags AND 7 \<noteq> 0 \<and> gpa AND 0xFFF = 0 \<and> hpa AND 0xFFF = 0"
  by (auto simp: map_4k_def EPT_READ_def EPT_WRITE_def EPT_EXEC_def split: if_splits)

text \<open>Three free frames are enough for any mapping.\<close>

lemma walk_alloc_total:
  "fr_next f + l * PAGE_SIZE \<le> POOL_BYTES \<Longrightarrow> \<exists>f' pt. walk_alloc alloc_zeroed read_entry write_entry gpa l table f = (f', Ok pt)"
proof (induction l arbitrary: table f)
  case (Suc l)
  show ?case
  proof (cases "entry_is_present (read_entry f table (ept_index gpa (Suc l)))")
    case True
    then show ?thesis using Suc.IH [of f] Suc.prems by (simp add: Let_def)
  next
    case False
    have "alloc_zeroed f = (f\<lparr>fr_next := fr_next f + PAGE_SIZE\<rparr>, Ok (fr_base f + of_nat (fr_next f)))"
      using Suc.prems by (simp add: alloc_zeroed_def Let_def POOL_BYTES_def)
    then show ?thesis using Suc.IH Suc.prems False by (simp add: Let_def)
  qed
qed simp

text \<open>
  C19. \<^verbatim>\<open>Ept::map_4k\<close> refines the update of a page map. On a well-formed table tree, a successful call
  changes the translation of exactly the addresses of the mapped guest page, to the given host frame
  with the offset kept; a refused or exhausted call changes no translation at all, although it
  may have allocated tables; and the call succeeds whenever its arguments are aligned, the flags
  grant some access and three frames are left.
\<close>

theorem map_4k_one_page:
  assumes "ept_ok fr root" "flags AND ADDR_MASK = 0"
    and "map_4k alloc_zeroed read_entry write_entry root fr gpa hpa flags = (fr', r)"
  shows "ept_ok fr' root \<and>
    (\<forall>g. ok_value (translate read_entry root fr' g) =
      (if r = Ok () \<and> ept_indices g = ept_indices gpa then Some ((hpa AND ADDR_MASK) OR (g AND 0xFFF))
       else ok_value (translate read_entry root fr g))) \<and>
    (gpa AND 0xFFF = 0 \<and> hpa AND 0xFFF = 0 \<and> flags AND (EPT_READ OR EPT_WRITE OR EPT_EXEC) \<noteq> 0 \<and>
      fr_next fr + 3 * PAGE_SIZE \<le> POOL_BYTES \<longrightarrow> r = Ok ())"
proof (intro conjI allI)
  obtain T where ok: "frames_ok fr" and T: "ept_tree read_entry (pool_frames fr) fr T root" using assms(1) by (auto simp: ept_ok_def)
  from pool.map_4k_spec [OF ok T assms(3)] obtain T' where T': "frames_ok fr'" "ept_tree read_entry (pool_frames fr') fr' T' root"
    and leaf: "\<And>g. leaf_from read_entry fr' g 3 root =
       (if r = Ok () \<and> ept_indices g = ept_indices gpa then norm_leaf ((hpa AND ADDR_MASK) OR flags)
        else leaf_from read_entry fr g 3 root)" by blast
  show "ept_ok fr' root" using T' by (auto simp: ept_ok_def)
  have flags: "flags AND 7 \<noteq> 0" if "r = Ok ()" using map_4k_Ok_guard [OF assms(3) [unfolded that]] by simp
  show "ok_value (translate read_entry root fr' g) =
      (if r = Ok () \<and> ept_indices g = ept_indices gpa then Some ((hpa AND ADDR_MASK) OR (g AND 0xFFF))
       else ok_value (translate read_entry root fr g))" for g
    using leaf [of g] leaf_addr_entry [OF assms(2) flags] by (simp add: translate_leaf)
  show "gpa AND 0xFFF = 0 \<and> hpa AND 0xFFF = 0 \<and> flags AND (EPT_READ OR EPT_WRITE OR EPT_EXEC) \<noteq> 0 \<and>
      fr_next fr + 3 * PAGE_SIZE \<le> POOL_BYTES \<longrightarrow> r = Ok ()"
    using assms(3) walk_alloc_total [of fr 3 gpa root] by (auto simp: map_4k_def)
qed

lemma ept_ok_fresh:
  assumes "frames_ok fr" "alloc_zeroed fr = (fr', Ok root)"
  shows "ept_tree read_entry (pool_frames fr') fr' [root \<mapsto> []] root" "ept_ok fr' root"
    "leaf_from read_entry fr' g 3 root = 0"
proof -
  have zero: "read_entry fr' root i = 0" if "i < 512" for i using pool.al_zero [OF assms that] .
  show tree: "ept_tree read_entry (pool_frames fr') fr' [root \<mapsto> []] root"
    using alloc_Ok(3) [OF assms] zero by (auto simp: ept_tree_def split: if_splits)
  show "ept_ok fr' root" using tree alloc_frames_ok [OF assms] by (auto simp: ept_ok_def)
  show "leaf_from read_entry fr' g 3 root = 0" using zero by (simp add: numeral_3_eq_3 Let_def)
qed

definition boot_frames :: frames where
  "boot_frames = \<lparr>fr_base = 0x100000, fr_next = 0, fr_mem = (\<lambda>_. 0)\<rparr>"

lemma boot_frames_ok: "frames_ok boot_frames"
  by (simp add: boot_frames_def frames_ok_def aligned_def sizes)

theorem map_4k_one_page_witness:
  "ok_value (translate read_entry 0x100000
     (fst (map_4k alloc_zeroed read_entry write_entry 0x100000 (fst (ept_new alloc_zeroed boot_frames)) 0x5000 0x20000 0x37)) 0x5123)
   = Some 0x20123"
proof -
  let ?fr = "fst (ept_new alloc_zeroed boot_frames)"
  let ?m = "map_4k alloc_zeroed read_entry write_entry 0x100000 ?fr 0x5000 0x20000 0x37"
  have new: "alloc_zeroed boot_frames = (?fr, Ok 0x100000)"
    by (simp add: ept_new_def alloc_zeroed_def boot_frames_def Let_def sizes)
  have "ept_ok ?fr 0x100000" using ept_ok_fresh(2) [OF boot_frames_ok new] .
  moreover have "fr_next ?fr = PAGE_SIZE" using alloc_next [OF new] by (simp add: boot_frames_def)
  ultimately show ?thesis
    using map_4k_one_page [of ?fr "0x100000" "0x37" "0x5000" "0x20000" "fst ?m" "snd ?m"]
    by (simp add: ADDR_MASK_def sizes EPT_READ_def EPT_WRITE_def EPT_EXEC_def ept_indices_def ept_index_def)
qed

subsection \<open>A new guest disturbs nothing\<close>

definition keeps :: "frames \<Rightarrow> frames \<Rightarrow> bool" where
  "keeps fr fr' \<longleftrightarrow> frames_ok fr' \<and> pool_frames fr \<subseteq> pool_frames fr' \<and>
     (\<forall>pb \<in> pool_frames fr. \<forall>j < 512. read_entry fr' pb j = read_entry fr pb j)"

lemma keeps_refl: "frames_ok fr \<Longrightarrow> keeps fr fr"
  by (simp add: keeps_def)

lemma keeps_trans: "keeps a b \<Longrightarrow> keeps b c \<Longrightarrow> keeps a c"
  unfolding keeps_def by auto

lemma keeps_bytes: "keeps fr fr' \<Longrightarrow> pa \<in> pool_frames fr \<Longrightarrow> i < PAGE_SIZE \<Longrightarrow> fr_mem fr' (pa + of_nat i) = fr_mem fr (pa + of_nat i)"
  by (rule read_entry_bytes) (auto simp: keeps_def)

lemma keeps_ept:
  assumes "keeps fr fr'" "ept_ok fr root"
  shows "ept_ok fr' root \<and> ok_value (translate read_entry root fr' g) = ok_value (translate read_entry root fr g)"
proof -
  obtain T where T: "ept_tree read_entry (pool_frames fr) fr T root" using assms(2) by (auto simp: ept_ok_def)
  have same: "read_entry fr' pb j = read_entry fr pb j" if "pb \<in> dom T" "j < 512" for pb j
    using assms(1) T that by (auto simp: keeps_def ept_tree_def)
  have "ept_tree read_entry (pool_frames fr') fr' T root"
    using assms(1) by (intro ept_tree_cong [OF T same]) (auto simp: keeps_def)
  moreover have "leaf_from read_entry fr' g 3 root = leaf_from read_entry fr g 3 root"
    using T same by (intro leaf_from_cong [OF T]) (simp_all add: ept_tree_def gpath_top)
  ultimately show ?thesis using assms(1) by (auto simp: ept_ok_def keeps_def translate_leaf)
qed

lemma alloc_keeps: "frames_ok fr \<Longrightarrow> alloc_zeroed fr = (fr', r) \<Longrightarrow> keeps fr fr'"
proof -
  assume fr: "frames_ok fr" and al: "alloc_zeroed fr = (fr', r)"
  have "pool_frames fr \<subseteq> pool_frames fr'"
  proof (cases r)
    case (Err e)
    then show ?thesis using pool.al_err [OF fr] al by blast
  next
    case (Ok pa)
    then show ?thesis using alloc_Ok(3) [OF fr] al by blast
  qed
  then show ?thesis using alloc_frames_ok [OF fr al] pool.al_rd [OF fr al] by (simp add: keeps_def)
qed

lemma alloc_in_pool_keeps:
  assumes "frames_ok fr" "alloc_in_pool fr rev_id = (fr', r)"
  shows "keeps fr fr'"
proof -
  obtain fr1 r1 where al: "alloc_zeroed fr = (fr1, r1)" by (cases "alloc_zeroed fr")
  note k = alloc_keeps [OF assms(1) al]
  show ?thesis
  proof (cases r1)
    case (Ok pa)
    note pa = alloc_Ok [OF assms(1) al [unfolded Ok]]
    have "frames_ok fr1" using k by (simp add: keeps_def)
    moreover have "fr' = write_entry fr1 pa 0 (ucast rev_id)" using assms(2) al Ok by (simp add: alloc_in_pool_def)
    ultimately have "keeps fr fr'"
      using k pa(3,4) write_entry_ok [of fr1 pa 0] pool.rd_wr [of fr1 pa _ 0] by (auto simp: keeps_def)
    then show ?thesis .
  qed (use assms(2) al k in \<open>simp add: alloc_in_pool_def\<close>)
qed

text \<open>Copying an image into a fresh frame.\<close>

lemma copy_into_frame:
  assumes "frames_ok fr" "hpa \<in> pool_frames fr" "length blob \<le> PAGE_SIZE"
  defines "fr' \<equiv> fr\<lparr>fr_mem := copy_bytes hpa blob (fr_mem fr)\<rparr>"
  shows "frames_ok fr'" "pool_frames fr' = pool_frames fr"
    "pb \<in> pool_frames fr \<Longrightarrow> pb \<noteq> hpa \<Longrightarrow> j < 512 \<Longrightarrow> read_entry fr' pb j = read_entry fr pb j"
    "i < PAGE_SIZE \<Longrightarrow> fr_mem fr' (hpa + of_nat i) = (if i < length blob then blob ! i else fr_mem fr (hpa + of_nat i))"
proof -
  have al: "aligned hpa" using pool_frame_aligned [OF assms(1,2)] .
  have far: "fr_mem fr' b = fr_mem fr b" if "page_of b \<noteq> page_of hpa" for b
    using that page_of_in_page [OF al] assms(3) by (auto simp: fr'_def intro!: copy_bytes_other)
  show "frames_ok fr'" using far assms(2) by (intro frames_ok_mem [OF assms(1)]) (auto simp: fr'_def)
  show "pool_frames fr' = pool_frames fr" by (simp add: fr'_def pool_frames_def)
  show "read_entry fr' pb j = read_entry fr pb j" if "pb \<in> pool_frames fr" "pb \<noteq> hpa" "j < 512"
    unfolding read_entry_def
  proof (rule le_read_cong)
    fix k assume "k < (8 :: nat)"
    have pb: "aligned pb" using pool_frame_aligned [OF assms(1) that(1)] .
    have "page_of (pb + of_nat (8 * j + k)) \<noteq> page_of hpa"
      using page_of_in_page [OF pb, of "8 * j + k"] aligned_page_eq [OF pb al] that \<open>k < 8\<close> by (simp add: PAGE_SIZE_def)
    then show "fr_mem fr' (pb + of_nat (8 * j) + of_nat k) = fr_mem fr (pb + of_nat (8 * j) + of_nat k)"
      unfolding entry_byte by (rule far)
  qed
  show "fr_mem fr' (hpa + of_nat i) = (if i < length blob then blob ! i else fr_mem fr (hpa + of_nat i))" if "i < PAGE_SIZE"
    using that in_page_eq [OF al al that] assms(3)
    by (auto simp: fr'_def copy_bytes_nth intro!: copy_bytes_other)
qed

lemma leaf_addr_zero [simp]: "leaf_addr 0 g = None"
  by (simp add: leaf_addr_def)

lemma keeps_step:
  assumes "keeps fr f" "frames_ok f'" "pool_frames f \<subseteq> pool_frames f'"
    "\<And>pb j. pb \<in> pool_frames fr \<Longrightarrow> pb \<in> pool_frames f \<Longrightarrow> j < 512 \<Longrightarrow> read_entry f' pb j = read_entry f pb j"
  shows "keeps fr f'"
  using assms unfolding keeps_def by (auto simp: subset_iff)

lemma install_steps:
  assumes "frames_ok fr" "install_first_guest fr blob = (fr', r)" "length blob \<le> PAGE_SIZE"
    "ept_new alloc_zeroed fr = (fr1, Ok root)" "alloc_zeroed fr1 = (fr2, Ok hpa)"
  defines "fr3 \<equiv> fr2\<lparr>fr_mem := copy_bytes hpa blob (fr_mem fr2)\<rparr>"
  shows "frames_ok fr3" "ept_tree read_entry (pool_frames fr3) fr3 [root \<mapsto> []] root"
    "leaf_from read_entry fr3 g 3 root = 0" "keeps fr fr3" "hpa \<in> pool_frames fr3 - {root} - pool_frames fr"
    "i < PAGE_SIZE \<Longrightarrow> fr_mem fr3 (hpa + of_nat i) = (if i < length blob then blob ! i else 0)"
proof -
  have a1: "alloc_zeroed fr = (fr1, Ok root)" using assms(4) by (simp add: ept_new_def)
  note f1 = alloc_Ok [OF assms(1) a1] and k1 = alloc_keeps [OF assms(1) a1]
  then have ok1: "frames_ok fr1" by (simp add: keeps_def)
  note f2 = alloc_Ok [OF ok1 assms(5)] and k2 = alloc_keeps [OF ok1 assms(5)]
  then have ok2: "frames_ok fr2" by (simp add: keeps_def)
  have hpa: "hpa \<in> pool_frames fr2" using f2(3) by simp
  note c = copy_into_frame [OF ok2 hpa assms(3), folded fr3_def]
  have ne: "hpa \<noteq> root" "hpa \<notin> pool_frames fr" using f2(4) f1(3) by auto
  show "frames_ok fr3" using c(1) .
  have root: "read_entry fr3 root j = 0" if "j < 512" for j
    using c(3) [of root j] ne pool.al_zero [OF assms(1) a1 that] f1(3) f2(3) that k2 by (auto simp: keeps_def)
  show "ept_tree read_entry (pool_frames fr3) fr3 [root \<mapsto> []] root"
    using c(2) f1(3) f2(3) root by (auto simp: ept_tree_def split: if_splits)
  show "leaf_from read_entry fr3 g 3 root = 0" using root by (simp add: numeral_3_eq_3 Let_def)
  show "keeps fr fr3" using c(1-3) ne by (intro keeps_step [OF keeps_trans [OF k1 k2]]) auto
  show "hpa \<in> pool_frames fr3 - {root} - pool_frames fr" using c(2) hpa ne by simp
  show "fr_mem fr3 (hpa + of_nat i) = (if i < length blob then blob ! i else 0)" if "i < PAGE_SIZE"
    using c(4) [OF that] fresh_zero [OF ok1 assms(5) that] by simp
qed

text \<open>The guest page of a root: one frame, holding the image and zeros after it, and nothing else mapped.\<close>

definition guest_at :: "frames \<Rightarrow> u64 \<Rightarrow> u64 \<Rightarrow> bytes \<Rightarrow> bool" where
  "guest_at fr root hpa blob \<longleftrightarrow>
     (\<forall>g. ok_value (translate read_entry root fr g) =
       (if ept_indices g = ept_indices 0x1000 then Some (hpa OR (g AND 0xFFF)) else None)) \<and>
     (\<forall>i < PAGE_SIZE. fr_mem fr (hpa + of_nat i) = (if i < length blob then blob ! i else 0))"

lemma install_map:
  assumes "frames_ok f" "ept_tree read_entry (pool_frames f) f [root \<mapsto> []] root" "\<And>g. leaf_from read_entry f g 3 root = 0"
    "keeps fr f" "root \<notin> pool_frames fr" "hpa \<in> pool_frames f - {root}" "hpa AND ADDR_MASK = hpa"
    "\<And>i. i < PAGE_SIZE \<Longrightarrow> fr_mem f (hpa + of_nat i) = (if i < length blob then blob ! i else 0)"
    and m: "map_4k alloc_zeroed read_entry write_entry root f 0x1000 hpa (EPT_READ OR EPT_WRITE OR EPT_EXEC OR EPT_MT_WB) = (fr', r)"
  shows "keeps fr fr' \<and> hpa \<in> pool_frames fr' \<and> (r = Ok () \<longrightarrow> ept_ok fr' root \<and> guest_at fr' root hpa blob)"
proof -
  let ?fl = "EPT_READ OR EPT_WRITE OR EPT_EXEC OR EPT_MT_WB"
  from pool.map_4k_spec [OF assms(1,2) m] obtain T' where T': "frames_ok fr'" "pool_frames f \<subseteq> pool_frames fr'"
    "ept_tree read_entry (pool_frames fr') fr' T' root"
    and same: "\<And>pb j. pb \<in> pool_frames f - {root} \<Longrightarrow> j < 512 \<Longrightarrow> read_entry fr' pb j = read_entry f pb j"
    and leaf: "\<And>g. leaf_from read_entry fr' g 3 root =
       (if r = Ok () \<and> ept_indices g = ept_indices 0x1000 then norm_leaf ((hpa AND ADDR_MASK) OR ?fl)
        else leaf_from read_entry f g 3 root)" by fastforce
  have "keeps fr fr'" using assms(5) T'(1,2) same by (intro keeps_step [OF assms(4)]) auto
  moreover have "guest_at fr' root hpa blob" if "r = Ok ()"
    unfolding guest_at_def
  proof (intro conjI allI impI)
    fix g
    have fl: "?fl AND ADDR_MASK = 0" "?fl AND 7 \<noteq> 0"
      by (simp_all add: ADDR_MASK_def EPT_READ_def EPT_WRITE_def EPT_EXEC_def EPT_MT_WB_def)
    show "ok_value (translate read_entry root fr' g) =
        (if ept_indices g = ept_indices 0x1000 then Some (hpa OR (g AND 0xFFF)) else None)"
      using that leaf [of g] leaf_addr_entry [OF fl, of hpa g] assms(3) [of g] assms(7) by (simp add: translate_leaf)
  next
    fix i assume "i < PAGE_SIZE"
    then show "fr_mem fr' (hpa + of_nat i) = (if i < length blob then blob ! i else 0)"
      using read_entry_bytes [of fr' hpa f i] same [of hpa] assms(6,8) by simp
  qed
  ultimately show ?thesis using T' assms(6) by (auto simp: ept_ok_def)
qed

lemma install_spec:
  assumes "frames_ok fr" "install_first_guest fr blob = (fr', r)"
  shows "keeps fr fr' \<and> (\<forall>root. r = Ok root \<longrightarrow> ept_ok fr' root \<and> root \<notin> pool_frames fr \<and>
    (\<exists>hpa \<in> pool_frames fr' - pool_frames fr - {root}. guest_at fr' root hpa blob))"
proof -
  obtain fr1 r1 fr2 r2 where a: "alloc_zeroed fr = (fr1, r1)" "alloc_zeroed fr1 = (fr2, r2)" by (metis surj_pair)
  note k1 = alloc_keeps [OF assms(1) a(1)]
  have "keeps fr1 fr2" using k1 a(2) alloc_keeps by (auto simp: keeps_def)
  note k2 = keeps_trans [OF k1 this]
  show ?thesis
  proof (cases "length blob \<le> PAGE_SIZE \<and> is_ok r1 \<and> is_ok r2")
    case False
    have "(fr' = fr \<or> fr' = fr1 \<or> fr' = fr2) \<and> \<not> is_ok r"
      using assms(2) False a by (cases r1; cases r2) (auto simp: install_first_guest_def ept_new_def split: if_splits)
    then show ?thesis using k1 k2 keeps_refl [OF assms(1)] by auto
  next
    case True
    then obtain root hpa where ok: "r1 = Ok root" "r2 = Ok hpa" "length blob \<le> PAGE_SIZE" by (auto simp: is_ok_iff)
    let ?f = "fr2\<lparr>fr_mem := copy_bytes hpa blob (fr_mem fr2)\<rparr>"
    have e: "ept_new alloc_zeroed fr = (fr1, Ok root)" using a ok by (simp add: ept_new_def)
    note st = install_steps [OF assms ok(3) e a(2) [unfolded ok(2)]]
    obtain r4 where m: "map_4k alloc_zeroed read_entry write_entry root ?f 0x1000 hpa (EPT_READ OR EPT_WRITE OR EPT_EXEC OR EPT_MT_WB) = (fr', r4)"
      "r = bind_result r4 (\<lambda>_. Ok root)"
      using assms(2) a ok by (auto simp: install_first_guest_def ept_new_def split: prod.splits result.splits)
    have root: "root \<notin> pool_frames fr" using alloc_Ok(4) [OF assms(1)] a ok by blast
    have "hpa AND ADDR_MASK = hpa" using alloc_Ok(6) [of fr1 fr2 hpa] a ok k1 by (simp add: keeps_def)
    from install_map [OF st(1,2,3,4) root _ this st(6) m(1)] st(5) m(2) root show ?thesis
      by (cases r4) auto
  qed
qed

lemma ept_ok_root: "ept_ok fr root \<Longrightarrow> root \<in> pool_frames fr"
  by (auto simp: ept_ok_def ept_tree_def)

lemma guest_at_keeps:
  "keeps fr fr' \<Longrightarrow> ept_ok fr root \<Longrightarrow> hpa \<in> pool_frames fr \<Longrightarrow> guest_at fr root hpa blob \<Longrightarrow> guest_at fr' root hpa blob"
  using keeps_ept keeps_bytes by (simp add: guest_at_def)

text \<open>Five frames, the root, the page and three tables, are enough for a guest of one page.\<close>

lemma install_total:
  assumes "length blob \<le> PAGE_SIZE" "fr_next fr + 5 * PAGE_SIZE \<le> POOL_BYTES"
    "frames_ok fr" "install_first_guest fr blob = (fr', r)"
  shows "is_ok r"
proof -
  define fr1 where "fr1 = fr\<lparr>fr_next := fr_next fr + PAGE_SIZE\<rparr>"
  define fr2 where "fr2 = fr1\<lparr>fr_next := fr_next fr1 + PAGE_SIZE\<rparr>"
  define root where "root = fr_base fr + of_nat (fr_next fr)"
  define hpa where "hpa = fr_base fr1 + of_nat (fr_next fr1)"
  define f where "f = fr2\<lparr>fr_mem := copy_bytes hpa blob (fr_mem fr2)\<rparr>"
  have a: "alloc_zeroed fr = (fr1, Ok root)" "alloc_zeroed fr1 = (fr2, Ok hpa)"
    using assms(2) by (simp_all add: alloc_zeroed_def Let_def POOL_BYTES_def fr1_def fr2_def root_def hpa_def)
  have ok1: "frames_ok fr1" using alloc_frames_ok [OF assms(3) a(1)] .
  have "hpa AND 0xFFF = (hpa AND ADDR_MASK) AND 0xFFF" by (simp only: alloc_Ok(6) [OF ok1 a(2)])
  also have "\<dots> = 0" by (simp add: and.assoc ADDR_MASK_def)
  finally have "hpa AND 0xFFF = 0" .
  moreover have "fr_next f + 3 * PAGE_SIZE \<le> POOL_BYTES" using assms(2) by (simp add: f_def fr2_def fr1_def)
  then obtain f' pt where w: "walk_alloc alloc_zeroed read_entry write_entry 0x1000 3 root f = (f', Ok pt)"
    using walk_alloc_total by blast
  ultimately have "is_ok (snd (map_4k alloc_zeroed read_entry write_entry root f 0x1000 hpa (EPT_READ OR EPT_WRITE OR EPT_EXEC OR EPT_MT_WB)))"
    by (simp add: map_4k_def EPT_READ_def EPT_WRITE_def EPT_EXEC_def EPT_MT_WB_def)
  then show ?thesis
    using assms(1,4) a unfolding install_first_guest_def ept_new_def f_def
    by (auto split: prod.splits result.splits)
qed

text \<open>
  C21. Installing a guest isolates it. Whatever the outcome, no byte of a frame handed out before
  changes and every existing guest keeps its translations; on success the new guest sees exactly one
  page, backed by a frame nobody had, which holds the image followed by zeros. With five
  free frames an image of at most one page is always installed.
\<close>

theorem install_isolates:
  assumes "frames_ok fr" "install_first_guest fr blob = (fr', r)"
  shows "frames_ok fr' \<and>
    (\<forall>pa \<in> pool_frames fr. \<forall>i < PAGE_SIZE. fr_mem fr' (pa + of_nat i) = fr_mem fr (pa + of_nat i)) \<and>
    (\<forall>other g. ept_ok fr other \<longrightarrow> ok_value (translate read_entry other fr' g) = ok_value (translate read_entry other fr g)) \<and>
    (\<forall>root. r = Ok root \<longrightarrow> ept_ok fr' root \<and> root \<notin> pool_frames fr \<and>
       (\<exists>hpa \<in> pool_frames fr' - pool_frames fr - {root}. guest_at fr' root hpa blob)) \<and>
    (length blob \<le> PAGE_SIZE \<and> fr_next fr + 5 * PAGE_SIZE \<le> POOL_BYTES \<longrightarrow> is_ok r)"
  using install_spec [OF assms] keeps_bytes keeps_ept install_total [OF _ _ assms] by (auto simp: keeps_def)

theorem install_isolates_witness:
  "\<exists>root hpa. snd (install_first_guest boot_frames [0xF4]) = Ok root \<and>
     guest_at (fst (install_first_guest boot_frames [0xF4])) root hpa [0xF4]"
  using install_isolates [OF boot_frames_ok, of "[0xF4]" "fst (install_first_guest boot_frames [0xF4])" "snd (install_first_guest boot_frames [0xF4])"]
  by (auto simp: is_ok_iff boot_frames_def sizes)

end
