(* ===== verification/Vmx.thy ===== *)
theory Vmx
  imports Hyper_Wire
begin

text \<open>
  The VMX layer of the kernel, \<^verbatim>\<open>celhyper/src/vmx\<close>: field encodings, the status check of the
  instruction wrappers, the reserved-bit arithmetic of the control fields, and the sequences of
  \<^verbatim>\<open>vmwrite\<close>s that fill a VMCS. What the processor answers is a parameter: the value of every
  model-specific register and the flags after every instruction. A VMCS is the map of the fields written to it.
\<close>

subsection \<open>Encodings\<close>

definition PIN_BASED_VM_EXEC_CTL :: u32 where "PIN_BASED_VM_EXEC_CTL = 0x4000"
definition CPU_BASED_VM_EXEC_CTL :: u32 where "CPU_BASED_VM_EXEC_CTL = 0x4002"
definition SECONDARY_VM_EXEC_CTL :: u32 where "SECONDARY_VM_EXEC_CTL = 0x401e"
definition EXCEPTION_BITMAP :: u32 where "EXCEPTION_BITMAP = 0x4004"
definition VM_EXIT_CTLS :: u32 where "VM_EXIT_CTLS = 0x400c"
definition VM_ENTRY_CTLS :: u32 where "VM_ENTRY_CTLS = 0x4012"
definition EPT_POINTER :: u32 where "EPT_POINTER = 0x201a"
definition GUEST_CR0 :: u32 where "GUEST_CR0 = 0x6800"
definition GUEST_CR3 :: u32 where "GUEST_CR3 = 0x6802"
definition GUEST_CR4 :: u32 where "GUEST_CR4 = 0x6804"
definition GUEST_ES_SELECTOR :: u32 where "GUEST_ES_SELECTOR = 0x800"
definition GUEST_ES_BASE :: u32 where "GUEST_ES_BASE = 0x6806"
definition GUEST_ES_LIMIT :: u32 where "GUEST_ES_LIMIT = 0x4800"
definition GUEST_ES_AR :: u32 where "GUEST_ES_AR = 0x4814"
definition GUEST_CS_SELECTOR :: u32 where "GUEST_CS_SELECTOR = 0x802"
definition GUEST_CS_BASE :: u32 where "GUEST_CS_BASE = 0x6808"
definition GUEST_CS_LIMIT :: u32 where "GUEST_CS_LIMIT = 0x4802"
definition GUEST_CS_AR :: u32 where "GUEST_CS_AR = 0x4816"
definition GUEST_SS_SELECTOR :: u32 where "GUEST_SS_SELECTOR = 0x804"
definition GUEST_SS_BASE :: u32 where "GUEST_SS_BASE = 0x680a"
definition GUEST_SS_LIMIT :: u32 where "GUEST_SS_LIMIT = 0x4804"
definition GUEST_SS_AR :: u32 where "GUEST_SS_AR = 0x4818"
definition GUEST_DS_SELECTOR :: u32 where "GUEST_DS_SELECTOR = 0x806"
definition GUEST_DS_BASE :: u32 where "GUEST_DS_BASE = 0x680c"
definition GUEST_DS_LIMIT :: u32 where "GUEST_DS_LIMIT = 0x4806"
definition GUEST_DS_AR :: u32 where "GUEST_DS_AR = 0x481a"
definition GUEST_FS_SELECTOR :: u32 where "GUEST_FS_SELECTOR = 0x808"
definition GUEST_FS_BASE :: u32 where "GUEST_FS_BASE = 0x680e"
definition GUEST_FS_LIMIT :: u32 where "GUEST_FS_LIMIT = 0x4808"
definition GUEST_FS_AR :: u32 where "GUEST_FS_AR = 0x481c"
definition GUEST_GS_SELECTOR :: u32 where "GUEST_GS_SELECTOR = 0x80a"
definition GUEST_GS_BASE :: u32 where "GUEST_GS_BASE = 0x6810"
definition GUEST_GS_LIMIT :: u32 where "GUEST_GS_LIMIT = 0x480a"
definition GUEST_GS_AR :: u32 where "GUEST_GS_AR = 0x481e"
definition GUEST_LDTR_SELECTOR :: u32 where "GUEST_LDTR_SELECTOR = 0x80c"
definition GUEST_LDTR_BASE :: u32 where "GUEST_LDTR_BASE = 0x6812"
definition GUEST_LDTR_LIMIT :: u32 where "GUEST_LDTR_LIMIT = 0x480c"
definition GUEST_LDTR_AR :: u32 where "GUEST_LDTR_AR = 0x4820"
definition GUEST_TR_SELECTOR :: u32 where "GUEST_TR_SELECTOR = 0x80e"
definition GUEST_TR_BASE :: u32 where "GUEST_TR_BASE = 0x6814"
definition GUEST_TR_LIMIT :: u32 where "GUEST_TR_LIMIT = 0x480e"
definition GUEST_TR_AR :: u32 where "GUEST_TR_AR = 0x4822"
definition GUEST_GDTR_BASE :: u32 where "GUEST_GDTR_BASE = 0x6816"
definition GUEST_GDTR_LIMIT :: u32 where "GUEST_GDTR_LIMIT = 0x4810"
definition GUEST_IDTR_BASE :: u32 where "GUEST_IDTR_BASE = 0x6818"
definition GUEST_IDTR_LIMIT :: u32 where "GUEST_IDTR_LIMIT = 0x4812"
definition GUEST_RIP :: u32 where "GUEST_RIP = 0x681e"
definition GUEST_RSP :: u32 where "GUEST_RSP = 0x681c"
definition GUEST_RFLAGS :: u32 where "GUEST_RFLAGS = 0x6820"
definition VMCS_LINK_POINTER :: u32 where "VMCS_LINK_POINTER = 0x2800"
definition GUEST_IA32_DEBUGCTL :: u32 where "GUEST_IA32_DEBUGCTL = 0x2802"
definition GUEST_DR7 :: u32 where "GUEST_DR7 = 0x681a"
definition GUEST_SYSENTER_CS :: u32 where "GUEST_SYSENTER_CS = 0x482a"
definition GUEST_SYSENTER_ESP :: u32 where "GUEST_SYSENTER_ESP = 0x6824"
definition GUEST_SYSENTER_EIP :: u32 where "GUEST_SYSENTER_EIP = 0x6826"
definition GUEST_INTERRUPTIBILITY :: u32 where "GUEST_INTERRUPTIBILITY = 0x4824"
definition GUEST_ACTIVITY_STATE :: u32 where "GUEST_ACTIVITY_STATE = 0x4826"
definition GUEST_PENDING_DBG_EXC :: u32 where "GUEST_PENDING_DBG_EXC = 0x6822"
definition HOST_CR0 :: u32 where "HOST_CR0 = 0x6c00"
definition HOST_CR3 :: u32 where "HOST_CR3 = 0x6c02"
definition HOST_CR4 :: u32 where "HOST_CR4 = 0x6c04"
definition HOST_CS_SELECTOR :: u32 where "HOST_CS_SELECTOR = 0xc02"
definition HOST_DS_SELECTOR :: u32 where "HOST_DS_SELECTOR = 0xc06"
definition HOST_ES_SELECTOR :: u32 where "HOST_ES_SELECTOR = 0xc00"
definition HOST_FS_SELECTOR :: u32 where "HOST_FS_SELECTOR = 0xc08"
definition HOST_GS_SELECTOR :: u32 where "HOST_GS_SELECTOR = 0xc0a"
definition HOST_SS_SELECTOR :: u32 where "HOST_SS_SELECTOR = 0xc04"
definition HOST_TR_SELECTOR :: u32 where "HOST_TR_SELECTOR = 0xc0c"
definition HOST_FS_BASE :: u32 where "HOST_FS_BASE = 0x6c06"
definition HOST_GS_BASE :: u32 where "HOST_GS_BASE = 0x6c08"
definition HOST_TR_BASE :: u32 where "HOST_TR_BASE = 0x6c0a"
definition HOST_GDTR_BASE :: u32 where "HOST_GDTR_BASE = 0x6c0c"
definition HOST_IDTR_BASE :: u32 where "HOST_IDTR_BASE = 0x6c0e"
definition HOST_RIP :: u32 where "HOST_RIP = 0x6c16"
definition HOST_RSP :: u32 where "HOST_RSP = 0x6c14"
definition EXIT_REASON :: u32 where "EXIT_REASON = 0x4402"
definition EXIT_REASON_HLT :: u32 where "EXIT_REASON_HLT = 0xc"
definition EXIT_REASON_CR_ACCESS :: u32 where "EXIT_REASON_CR_ACCESS = 0x1c"
definition EXIT_REASON_EPT_VIOLATION :: u32 where "EXIT_REASON_EPT_VIOLATION = 0x30"
definition CPUBASED_HLT_EXITING :: u32 where "CPUBASED_HLT_EXITING = 0x80"
definition CPUBASED_ACTIVATE_SECONDARY :: u32 where "CPUBASED_ACTIVATE_SECONDARY = 0x80000000"
definition SECONDARY_ENABLE_EPT :: u32 where "SECONDARY_ENABLE_EPT = 0x2"
definition SECONDARY_UNRESTRICTED_GUEST :: u32 where "SECONDARY_UNRESTRICTED_GUEST = 0x80"
definition VMEXIT_HOST_ADDR_SPACE_SIZE :: u32 where "VMEXIT_HOST_ADDR_SPACE_SIZE = 0x200"

definition IA32_FEATURE_CONTROL :: u32 where "IA32_FEATURE_CONTROL = 0x3a"
definition IA32_VMX_BASIC :: u32 where "IA32_VMX_BASIC = 0x480"
definition IA32_VMX_PINBASED_CTLS :: u32 where "IA32_VMX_PINBASED_CTLS = 0x481"
definition IA32_VMX_PROCBASED_CTLS :: u32 where "IA32_VMX_PROCBASED_CTLS = 0x482"
definition IA32_VMX_EXIT_CTLS :: u32 where "IA32_VMX_EXIT_CTLS = 0x483"
definition IA32_VMX_ENTRY_CTLS :: u32 where "IA32_VMX_ENTRY_CTLS = 0x484"
definition IA32_VMX_PROCBASED_CTLS2 :: u32 where "IA32_VMX_PROCBASED_CTLS2 = 0x48b"
definition IA32_VMX_TRUE_PINBASED_CTLS :: u32 where "IA32_VMX_TRUE_PINBASED_CTLS = 0x48d"
definition IA32_VMX_TRUE_PROCBASED_CTLS :: u32 where "IA32_VMX_TRUE_PROCBASED_CTLS = 0x48e"
definition IA32_VMX_TRUE_EXIT_CTLS :: u32 where "IA32_VMX_TRUE_EXIT_CTLS = 0x48f"
definition IA32_VMX_TRUE_ENTRY_CTLS :: u32 where "IA32_VMX_TRUE_ENTRY_CTLS = 0x490"
definition IA32_VMX_CR0_FIXED0 :: u32 where "IA32_VMX_CR0_FIXED0 = 0x486"
definition IA32_VMX_CR0_FIXED1 :: u32 where "IA32_VMX_CR0_FIXED1 = 0x487"
definition IA32_VMX_CR4_FIXED0 :: u32 where "IA32_VMX_CR4_FIXED0 = 0x488"
definition IA32_VMX_CR4_FIXED1 :: u32 where "IA32_VMX_CR4_FIXED1 = 0x489"

subsection \<open>The processor\<close>

record host_state =
  hs_cr0 :: u64
  hs_cr3 :: u64
  hs_cr4 :: u64
  hs_cs :: u16
  hs_ds :: u16
  hs_es :: u16
  hs_fs :: u16
  hs_gs :: u16
  hs_ss :: u16
  hs_tr :: u16
  hs_fs_base :: u64
  hs_gs_base :: u64
  hs_tr_base :: u64
  hs_gdtr_base :: u64
  hs_idtr_base :: u64

text \<open>\<^verbatim>\<open>vmlaunch\<close> either falls through with its flags, or the guest runs and exits, after which
  \<^verbatim>\<open>vmread(EXIT_REASON)\<close> has the given flags and value.\<close>

datatype launch = LaunchReturned u64 | GuestExit u64 u64

record cpu =
  cpu_rdmsr :: "u32 \<Rightarrow> u64"
  cpu_vmxon :: "u64 \<Rightarrow> u64"
  cpu_vmclear :: "u64 \<Rightarrow> u64"
  cpu_vmptrld :: "u64 \<Rightarrow> u64"
  cpu_vmwrite :: "u32 \<Rightarrow> u64 \<Rightarrow> u64"
  cpu_host :: host_state
  cpu_trampoline :: "u64 \<times> u64"
  cpu_launch :: launch

subsection \<open>Instruction wrappers\<close>

definition check_vmx_status :: "u64 \<Rightarrow> unit hyper_result" where
  "check_vmx_status rflags =
     (if rflags AND 1 \<noteq> 0 then Err (HHardware ''vmx: VMfailInvalid'')
      else if rflags AND 0x40 \<noteq> 0 then Err (HHardware ''vmx: VMfailValid'')
      else Ok ())"

definition vmclear :: "cpu \<Rightarrow> u64 \<Rightarrow> unit hyper_result" where
  "vmclear c pa = check_vmx_status (cpu_vmclear c pa)"

definition vmptrld :: "cpu \<Rightarrow> u64 \<Rightarrow> unit hyper_result" where
  "vmptrld c pa = check_vmx_status (cpu_vmptrld c pa)"

type_synonym vmcs = "u32 \<Rightarrow> u64 option"

text \<open>A sequence of \<^verbatim>\<open>vmwrite(..)?\<close>: the first failure ends it.\<close>

fun vmwrites :: "cpu \<Rightarrow> (u32 \<times> u64) list \<Rightarrow> vmcs \<Rightarrow> vmcs \<times> unit hyper_result" where
  "vmwrites c [] v = (v, Ok ())"
| "vmwrites c ((f, x) # ws) v =
     (case check_vmx_status (cpu_vmwrite c f x) of
        Err e \<Rightarrow> (v, Err e)
      | Ok _ \<Rightarrow> vmwrites c ws (v(f \<mapsto> x)))"

definition revision_id :: "cpu \<Rightarrow> u32 hyper_result" where
  "revision_id c =
     (let basic = cpu_rdmsr c IA32_VMX_BASIC in
      if basic AND 0x80000000 \<noteq> 0 then Err (HUnsupportedCpu ''IA32_VMX_BASIC width bit set'')
      else Ok (ucast (basic AND 0x7FFFFFFF)))"

definition ensure_vmx_available :: "cpu \<Rightarrow> unit hyper_result" where
  "ensure_vmx_available c =
     (let fc = cpu_rdmsr c IA32_FEATURE_CONTROL in
      if fc AND 1 \<noteq> 0 \<and> fc AND 4 = 0 then Err (HUnsupportedCpu ''VMX disabled by firmware (locked)'') else Ok ())"

definition vmx_enable :: "cpu \<Rightarrow> u64 \<Rightarrow> unit hyper_result" where
  "vmx_enable c vmxon_phys =
     (let rflags = cpu_vmxon c vmxon_phys in
      if rflags AND 1 \<noteq> 0 then Err (HHardware ''vmxon: VMfailInvalid (CF=1)'')
      else if rflags AND 0x40 \<noteq> 0 then Err (HHardware ''vmxon: VMfailValid (ZF=1)'')
      else Ok ())"

subsection \<open>Filling a VMCS\<close>

definition rebase_ctl :: "cpu \<Rightarrow> u32 \<Rightarrow> u32 \<Rightarrow> u32" where
  "rebase_ctl c desired msr_addr =
     (let v = cpu_rdmsr c msr_addr; allowed_0 = ucast v; allowed_1 = ucast (drop_bit 32 v) in
      (desired OR allowed_0) AND allowed_1)"

definition ctl_msr :: "cpu \<Rightarrow> u32 \<Rightarrow> u32 \<Rightarrow> u32" where
  "ctl_msr c true_msr legacy_msr =
     (if cpu_rdmsr c IA32_VMX_BASIC AND 0x80000000000000 \<noteq> 0 then true_msr else legacy_msr)"

definition rebase_cr :: "cpu \<Rightarrow> u64 \<Rightarrow> u32 \<Rightarrow> u32 \<Rightarrow> u64" where
  "rebase_cr c desired fixed0 fixed1 = (desired OR cpu_rdmsr c fixed0) AND cpu_rdmsr c fixed1"

record launch_plan =
  lp_eptp :: u64
  lp_guest_rip :: u64
  lp_guest_rsp :: u64

definition segment_writes :: "(u32 \<times> u64) list" where
  "segment_writes =
     concat (map (\<lambda>(sel, base, limit, ar, v). [(sel, 0), (base, 0), (limit, 0xFFFF), (ar, v)])
     [(GUEST_ES_SELECTOR, GUEST_ES_BASE, GUEST_ES_LIMIT, GUEST_ES_AR, 0x93),
      (GUEST_CS_SELECTOR, GUEST_CS_BASE, GUEST_CS_LIMIT, GUEST_CS_AR, 0x9B),
      (GUEST_SS_SELECTOR, GUEST_SS_BASE, GUEST_SS_LIMIT, GUEST_SS_AR, 0x93),
      (GUEST_DS_SELECTOR, GUEST_DS_BASE, GUEST_DS_LIMIT, GUEST_DS_AR, 0x93),
      (GUEST_FS_SELECTOR, GUEST_FS_BASE, GUEST_FS_LIMIT, GUEST_FS_AR, 0x93),
      (GUEST_GS_SELECTOR, GUEST_GS_BASE, GUEST_GS_LIMIT, GUEST_GS_AR, 0x93)])"

definition guest_writes :: "cpu \<Rightarrow> launch_plan \<Rightarrow> (u32 \<times> u64) list" where
  "guest_writes c plan =
     (let pin_ctl = rebase_ctl c 0 (ctl_msr c IA32_VMX_TRUE_PINBASED_CTLS IA32_VMX_PINBASED_CTLS);
          proc_ctl = rebase_ctl c (CPUBASED_HLT_EXITING OR CPUBASED_ACTIVATE_SECONDARY)
                       (ctl_msr c IA32_VMX_TRUE_PROCBASED_CTLS IA32_VMX_PROCBASED_CTLS);
          sec_ctl = rebase_ctl c (SECONDARY_ENABLE_EPT OR SECONDARY_UNRESTRICTED_GUEST) IA32_VMX_PROCBASED_CTLS2;
          exit_ctl = rebase_ctl c VMEXIT_HOST_ADDR_SPACE_SIZE (ctl_msr c IA32_VMX_TRUE_EXIT_CTLS IA32_VMX_EXIT_CTLS);
          entry_ctl = rebase_ctl c 0 (ctl_msr c IA32_VMX_TRUE_ENTRY_CTLS IA32_VMX_ENTRY_CTLS);
          guest_cr0 = rebase_cr c 0x30 IA32_VMX_CR0_FIXED0 IA32_VMX_CR0_FIXED1 AND NOT 1 AND NOT 0x80000000;
          guest_cr4 = rebase_cr c 0 IA32_VMX_CR4_FIXED0 IA32_VMX_CR4_FIXED1 in
      [(PIN_BASED_VM_EXEC_CTL, ucast pin_ctl), (CPU_BASED_VM_EXEC_CTL, ucast proc_ctl),
       (SECONDARY_VM_EXEC_CTL, ucast sec_ctl), (EXCEPTION_BITMAP, 0), (VM_EXIT_CTLS, ucast exit_ctl),
       (VM_ENTRY_CTLS, ucast entry_ctl), (EPT_POINTER, lp_eptp plan), (GUEST_CR0, guest_cr0),
       (GUEST_CR3, 0), (GUEST_CR4, guest_cr4)]
      @ segment_writes @
      [(GUEST_LDTR_SELECTOR, 0), (GUEST_LDTR_BASE, 0), (GUEST_LDTR_LIMIT, 0xFFFF), (GUEST_LDTR_AR, 0x10082),
       (GUEST_TR_SELECTOR, 0), (GUEST_TR_BASE, 0), (GUEST_TR_LIMIT, 0xFFFF), (GUEST_TR_AR, 0x8B),
       (GUEST_GDTR_BASE, 0), (GUEST_GDTR_LIMIT, 0xFFFF), (GUEST_IDTR_BASE, 0), (GUEST_IDTR_LIMIT, 0xFFFF),
       (GUEST_RIP, lp_guest_rip plan), (GUEST_RSP, lp_guest_rsp plan), (GUEST_RFLAGS, 2),
       (VMCS_LINK_POINTER, NOT 0), (GUEST_IA32_DEBUGCTL, 0), (GUEST_DR7, 0x400), (GUEST_SYSENTER_CS, 0),
       (GUEST_SYSENTER_ESP, 0), (GUEST_SYSENTER_EIP, 0), (GUEST_INTERRUPTIBILITY, 0),
       (GUEST_ACTIVITY_STATE, 0), (GUEST_PENDING_DBG_EXC, 0)])"

definition write_vmcs :: "cpu \<Rightarrow> launch_plan \<Rightarrow> vmcs \<Rightarrow> vmcs \<times> unit hyper_result" where
  "write_vmcs c plan = vmwrites c (guest_writes c plan)"

definition host_writes :: "host_state \<Rightarrow> u64 \<Rightarrow> u64 \<Rightarrow> (u32 \<times> u64) list" where
  "host_writes h host_rip host_rsp =
     [(HOST_CR0, hs_cr0 h), (HOST_CR3, hs_cr3 h), (HOST_CR4, hs_cr4 h),
      (HOST_CS_SELECTOR, ucast (hs_cs h AND 0xFFF8)), (HOST_DS_SELECTOR, ucast (hs_ds h AND 0xFFF8)),
      (HOST_ES_SELECTOR, ucast (hs_es h AND 0xFFF8)), (HOST_FS_SELECTOR, ucast (hs_fs h AND 0xFFF8)),
      (HOST_GS_SELECTOR, ucast (hs_gs h AND 0xFFF8)), (HOST_SS_SELECTOR, ucast (hs_ss h AND 0xFFF8)),
      (HOST_TR_SELECTOR, ucast (hs_tr h AND 0xFFF8)), (HOST_FS_BASE, hs_fs_base h),
      (HOST_GS_BASE, hs_gs_base h), (HOST_TR_BASE, hs_tr_base h), (HOST_GDTR_BASE, hs_gdtr_base h),
      (HOST_IDTR_BASE, hs_idtr_base h), (HOST_RIP, host_rip), (HOST_RSP, host_rsp)]"

definition write_host_state :: "cpu \<Rightarrow> host_state \<Rightarrow> u64 \<Rightarrow> u64 \<Rightarrow> vmcs \<Rightarrow> vmcs \<times> unit hyper_result" where
  "write_host_state c h host_rip host_rsp = vmwrites c (host_writes h host_rip host_rsp)"

subsection \<open>Leaving the guest\<close>

definition vmlaunch_error :: "u64 \<Rightarrow> hyper_error" where
  "vmlaunch_error rflags =
     (if rflags AND 1 \<noteq> 0 then HHardware ''vmlaunch: VMfailInvalid''
      else if rflags AND 0x40 \<noteq> 0 then HHardware ''vmlaunch: VMfailValid''
      else HInternal ''vmlaunch returned without entering guest'')"

datatype exit_kind = ExHlt | ExCrAccess | ExEptViolation | ExOther u32

definition read_exit :: "u64 \<Rightarrow> u64 \<Rightarrow> exit_kind hyper_result" where
  "read_exit rflags raw =
     (case check_vmx_status rflags of
        Err e \<Rightarrow> Err e
      | Ok _ \<Rightarrow>
          if raw AND 0x80000000 \<noteq> 0 then Err (HHardware ''vm-exit on entry failure'')
          else let basic = ucast (raw AND 0xFFFF) in
            Ok (if basic = EXIT_REASON_HLT then ExHlt
                else if basic = EXIT_REASON_CR_ACCESS then ExCrAccess
                else if basic = EXIT_REASON_EPT_VIOLATION then ExEptViolation
                else ExOther basic))"

subsection \<open>What a launch finds in its VMCS\<close>

lemma vmwrites_Ok: "vmwrites c ws v = (v', Ok ()) \<Longrightarrow> v' = fold (\<lambda>(f, x) v. v(f \<mapsto> x)) ws v"
  by (induction c ws v rule: vmwrites.induct) (auto split: result.splits)

lemma fold_writes_other: "f \<notin> fst ` set ws \<Longrightarrow> fold (\<lambda>(f, x) v. v(f \<mapsto> x)) ws v f = v f"
  by (induction ws arbitrary: v) (auto split: prod.splits)

text \<open>Bits 11:10 of an encoding tell host fields from all others, so filling the guest area keeps the host area.\<close>

definition guest_field_list :: "u32 list" where
  "guest_field_list =
     [PIN_BASED_VM_EXEC_CTL, CPU_BASED_VM_EXEC_CTL, SECONDARY_VM_EXEC_CTL, EXCEPTION_BITMAP, VM_EXIT_CTLS,
      VM_ENTRY_CTLS, EPT_POINTER, GUEST_CR0, GUEST_CR3, GUEST_CR4, GUEST_ES_SELECTOR, GUEST_ES_BASE,
      GUEST_ES_LIMIT, GUEST_ES_AR, GUEST_CS_SELECTOR, GUEST_CS_BASE, GUEST_CS_LIMIT, GUEST_CS_AR,
      GUEST_SS_SELECTOR, GUEST_SS_BASE, GUEST_SS_LIMIT, GUEST_SS_AR, GUEST_DS_SELECTOR, GUEST_DS_BASE,
      GUEST_DS_LIMIT, GUEST_DS_AR, GUEST_FS_SELECTOR, GUEST_FS_BASE, GUEST_FS_LIMIT, GUEST_FS_AR,
      GUEST_GS_SELECTOR, GUEST_GS_BASE, GUEST_GS_LIMIT, GUEST_GS_AR, GUEST_LDTR_SELECTOR, GUEST_LDTR_BASE,
      GUEST_LDTR_LIMIT, GUEST_LDTR_AR, GUEST_TR_SELECTOR, GUEST_TR_BASE, GUEST_TR_LIMIT, GUEST_TR_AR,
      GUEST_GDTR_BASE, GUEST_GDTR_LIMIT, GUEST_IDTR_BASE, GUEST_IDTR_LIMIT, GUEST_RIP, GUEST_RSP,
      GUEST_RFLAGS, VMCS_LINK_POINTER, GUEST_IA32_DEBUGCTL, GUEST_DR7, GUEST_SYSENTER_CS,
      GUEST_SYSENTER_ESP, GUEST_SYSENTER_EIP, GUEST_INTERRUPTIBILITY, GUEST_ACTIVITY_STATE,
      GUEST_PENDING_DBG_EXC]"

lemma map_fst_guest_writes: "map fst (guest_writes c plan) = guest_field_list"
  by (simp add: guest_writes_def segment_writes_def guest_field_list_def Let_def)

lemma guest_fields: "\<forall>f \<in> fst ` set (guest_writes c plan). f AND 0xC00 \<noteq> 0xC00"
proof -
  have "list_all (\<lambda>f. f AND 0xC00 \<noteq> 0xC00) guest_field_list" by code_simp
  then have "list_all (\<lambda>f. f AND 0xC00 \<noteq> 0xC00) (map fst (guest_writes c plan))" by (simp only: map_fst_guest_writes)
  then show ?thesis by (simp add: list_all_iff)
qed

lemma fold_writes_in:
  "distinct (map fst ws) \<Longrightarrow> (f, x) \<in> set ws \<Longrightarrow> fold (\<lambda>(f, x) v. v(f \<mapsto> x)) ws v f = Some x"
proof (induction ws arbitrary: v)
  case (Cons w ws)
  show ?case
  proof (cases "(f, x) \<in> set ws")
    case False
    then have w: "w = (f, x)" "f \<notin> fst ` set ws" using Cons.prems by force+
    show ?thesis using fold_writes_other [OF w(2), of "v(f \<mapsto> x)"] by (simp add: w(1) del: fun_upd_apply) simp
  qed (use Cons in simp)
qed simp

lemma distinct_guest_fields: "distinct (map fst (guest_writes c plan))"
proof -
  have "distinct guest_field_list" by code_simp
  then show ?thesis by (simp only: map_fst_guest_writes)
qed

lemma write_vmcs_writes:
  "write_vmcs c plan v = (v', Ok ()) \<Longrightarrow> (f, x) \<in> set (guest_writes c plan) \<Longrightarrow> v' f = Some x"
  unfolding write_vmcs_def by (drule vmwrites_Ok) (simp add: fold_writes_in [OF distinct_guest_fields])

lemma write_vmcs_fields:
  assumes "write_vmcs c plan v = (v', Ok ())"
  shows "v' EPT_POINTER = Some (lp_eptp plan)" "v' GUEST_RIP = Some (lp_guest_rip plan)" "v' GUEST_RSP = Some (lp_guest_rsp plan)"
  by (rule write_vmcs_writes [OF assms], simp add: guest_writes_def Let_def)+

lemma write_host_fields:
  assumes "write_host_state c h rip rsp v = (v', Ok ())"
  shows "v' HOST_RIP = Some rip" "v' HOST_RSP = Some rsp"
  using vmwrites_Ok [OF assms [unfolded write_host_state_def]]
  by (simp_all add: host_writes_def) (simp add: HOST_RIP_def HOST_RSP_def)

lemma write_vmcs_keeps_host: "write_vmcs c plan v = (v', Ok ()) \<Longrightarrow> v' HOST_RIP = v HOST_RIP \<and> v' HOST_RSP = v HOST_RSP"
proof -
  assume "write_vmcs c plan v = (v', Ok ())"
  then have v': "v' = fold (\<lambda>(f, x) v. v(f \<mapsto> x)) (guest_writes c plan) v" by (simp add: write_vmcs_def vmwrites_Ok)
  have "HOST_RIP \<notin> fst ` set (guest_writes c plan)" "HOST_RSP \<notin> fst ` set (guest_writes c plan)"
    using guest_fields [of c plan] by (auto simp: HOST_RIP_def HOST_RSP_def)
  then show ?thesis by (simp add: v' fold_writes_other)
qed

text \<open>A control field never has a bit the processor forbids, and has every bit it demands.\<close>

lemma rebase_ctl_allowed:
  fixes c :: cpu and m :: u32
  defines "must \<equiv> ucast (cpu_rdmsr c m) :: u32" and "may \<equiv> ucast (drop_bit 32 (cpu_rdmsr c m)) :: u32"
  assumes "must AND NOT may = 0"
  shows "rebase_ctl c d m AND NOT may = 0" "must AND NOT (rebase_ctl c d m) = 0"
proof -
  have r: "rebase_ctl c d m = (d OR must) AND may" by (simp add: rebase_ctl_def must_def may_def Let_def)
  show "rebase_ctl c d m AND NOT may = 0" by (simp add: r and.assoc)
  have sub: "bit may n" if "bit must n" for n
    using arg_cong [OF assms(3), of "\<lambda>w. bit w n"] that by (auto simp: bit_simps dest: bit_imp_le_length)
  show "must AND NOT (rebase_ctl c d m) = 0"
    by (rule bit_word_eqI) (auto simp: r bit_simps dest: sub)
qed

lemma guest_real_mode:
  assumes "write_vmcs c plan v = (v', Ok ())" "v' GUEST_CR0 = Some cr0"
  shows "\<not> bit cr0 0 \<and> \<not> bit cr0 31"
proof -
  have "cr0 = rebase_cr c 0x30 IA32_VMX_CR0_FIXED0 IA32_VMX_CR0_FIXED1 AND NOT 1 AND NOT 0x80000000"
    using write_vmcs_writes [OF assms(1), of GUEST_CR0] assms(2) by (simp add: guest_writes_def Let_def)
  moreover have "bit (0x80000000 :: u64) 31" "bit (1 :: u64) 0" by (simp_all add: bit_iff_odd)
  ultimately show ?thesis by (auto simp: bit_and_iff bit_not_iff)
qed

end
