(* ===== verification/Hyper_Vm.thy ===== *)
theory Hyper_Vm
  imports Ept Vmx
begin

text \<open>
  The VM manager of the kernel: the lifecycle of \<^verbatim>\<open>vm.rs\<close>, the active-VM slot of \<^verbatim>\<open>sched.rs\<close>, the
  exit dispatcher of \<^verbatim>\<open>vmx/exit.rs\<close>, the capability check of \<^verbatim>\<open>cap.rs\<close>, and the registry, paths and
  run queue of \<^verbatim>\<open>manager.rs\<close>. The statics are one record. The kernel runs on one processor, so a
  compare-and-exchange sees the value it just loaded. The answers of the processor are the
  \<^typ>\<open>cpu\<close> argument; what a running guest does to its own page is not modelled.
\<close>

subsection \<open>The lifecycle of one VM\<close>

datatype kvm_state = VmCreated | VmRunning | VmHalted | VmStopped | VmFaulted

fun state_code :: "kvm_state \<Rightarrow> u32" where
  "state_code VmCreated = 0"
| "state_code VmRunning = 1"
| "state_code VmHalted = 2"
| "state_code VmStopped = 3"
| "state_code VmFaulted = 4"

definition state_from_u32 :: "u32 \<Rightarrow> kvm_state option" where
  "state_from_u32 v =
     (if v = 0 then Some VmCreated else if v = 1 then Some VmRunning else if v = 2 then Some VmHalted
      else if v = 3 then Some VmStopped else if v = 4 then Some VmFaulted else None)"

fun is_terminal :: "kvm_state \<Rightarrow> bool" where
  "is_terminal VmHalted = True"
| "is_terminal VmStopped = True"
| "is_terminal VmFaulted = True"
| "is_terminal _ = False"

record kvm =
  kv_id :: u32
  kv_state :: u32
  kv_vmcs_pa :: u64
  kv_eptp :: u64
  kv_last_exit :: u32

definition kvm_new :: "u32 \<Rightarrow> u64 \<Rightarrow> u64 \<Rightarrow> kvm" where
  "kvm_new i vmcs_pa ep = \<lparr>kv_id = i, kv_state = state_code VmCreated, kv_vmcs_pa = vmcs_pa, kv_eptp = ep, kv_last_exit = - 1\<rparr>"

definition kvm_get_state :: "kvm \<Rightarrow> kvm_state" where
  "kvm_get_state vm = (case state_from_u32 (kv_state vm) of None \<Rightarrow> VmFaulted | Some s \<Rightarrow> s)"

definition last_exit_reason :: "kvm \<Rightarrow> u32 option" where
  "last_exit_reason vm = (if kv_last_exit vm = - 1 then None else Some (kv_last_exit vm))"

definition kvm_transition :: "kvm_state \<Rightarrow> kvm_state \<Rightarrow> kvm \<Rightarrow> kvm \<times> unit hyper_result" where
  "kvm_transition src dst vm =
     (if kv_state vm = state_code src then (vm\<lparr>kv_state := state_code dst\<rparr>, Ok ())
      else (vm, Err (HDenied ''Vm::transition: bad source state'')))"

definition mark_running :: "kvm \<Rightarrow> kvm \<times> unit hyper_result" where
  "mark_running vm = kvm_transition VmCreated VmRunning vm"

datatype exit_outcome = OutHalted | OutFaulted

definition on_exit :: "u32 \<Rightarrow> exit_outcome \<Rightarrow> kvm \<Rightarrow> kvm \<times> kvm_state hyper_result" where
  "on_exit basic_reason kind vm =
     (let vm = vm\<lparr>kv_last_exit := basic_reason\<rparr>;
          nxt = (case kind of OutHalted \<Rightarrow> VmHalted | OutFaulted \<Rightarrow> VmFaulted) in
      case kvm_transition VmRunning nxt vm of
        (vm, Err e) \<Rightarrow> (vm, Err e)
      | (vm, Ok _) \<Rightarrow> (vm, Ok nxt))"

definition kvm_stop :: "kvm \<Rightarrow> kvm \<times> unit hyper_result" where
  "kvm_stop vm =
     (if kv_state vm = state_code VmCreated then (vm\<lparr>kv_state := state_code VmStopped\<rparr>, Ok ())
      else if kv_state vm = state_code VmRunning then (vm\<lparr>kv_state := state_code VmStopped\<rparr>, Ok ())
      else (vm, Err (HDenied ''Vm::stop: not in Created/Running'')))"

subsection \<open>The kernel's statics\<close>

definition MAX_VMS :: nat where "MAX_VMS = 4"

record kernel =
  k_registry :: "kvm option list"
  k_occupied :: u32
  k_deleted :: u32
  k_ready :: bool
  k_active :: "nat option"
  k_cursor :: u32
  k_frames :: frames
  k_vmcs :: "u64 \<Rightarrow> vmcs"

definition kernel_boot :: "u64 \<Rightarrow> kernel" where
  "kernel_boot base = \<lparr>k_registry = replicate MAX_VMS None, k_occupied = 0, k_deleted = 0, k_ready = False, k_active = None,
     k_cursor = 0, k_frames = \<lparr>fr_base = base, fr_next = 0, fr_mem = (\<lambda>_. 0)\<rparr>, k_vmcs = (\<lambda>_ _. None)\<rparr>"

definition vm_lookup :: "kernel \<Rightarrow> u32 \<Rightarrow> kvm hyper_result" where
  "vm_lookup k i =
     (if MAX_VMS \<le> unat i then Err (HDenied ''manager: VmId out of range'')
      else ok_or (HDenied ''manager: VmId not allocated'') (k_registry k ! unat i))"

definition put_vm :: "nat \<Rightarrow> kvm \<Rightarrow> kernel \<Rightarrow> kernel" where
  "put_vm i vm k = k\<lparr>k_registry := (k_registry k)[i := Some vm]\<rparr>"

definition bit_at :: "nat \<Rightarrow> u32" where "bit_at i = push_bit i 1"

definition reserve_slot :: "kernel \<Rightarrow> kernel \<times> nat hyper_result" where
  "reserve_slot k =
     (let current = k_occupied k in
      case find (\<lambda>i. current AND bit_at i = 0) [0..<MAX_VMS] of
        None \<Rightarrow> (k, Err (HExhausted ''manager: VM table full''))
      | Some idx \<Rightarrow> (k\<lparr>k_occupied := current OR bit_at idx\<rparr>, Ok idx))"

subsection \<open>Initialisation, creation\<close>

definition init_runtime :: "cpu \<Rightarrow> kernel \<Rightarrow> kernel \<times> unit hyper_result" where
  "init_runtime c k =
     (if k_ready k then (k, Err (HDenied ''manager: runtime already initialised''))
      else let k = k\<lparr>k_ready := True\<rparr> in
        case ensure_vmx_available c of
          Err e \<Rightarrow> (k, Err e)
        | Ok _ \<Rightarrow>
            (case revision_id c of
               Err e \<Rightarrow> (k, Err e)
             | Ok rev_id \<Rightarrow>
                 (case alloc_in_pool (k_frames k) rev_id of
                    (fr, Err e) \<Rightarrow> (k\<lparr>k_frames := fr\<rparr>, Err e)
                  | (fr, Ok vmxon_pa) \<Rightarrow> (k\<lparr>k_frames := fr\<rparr>, vmx_enable c vmxon_pa))))"

record create_request =
  cr_blob :: bytes
  cr_guest_rip :: u64
  cr_guest_rsp :: u64

text \<open>Steps 2 to 4 of \<^verbatim>\<open>create_vm_with\<close>: the VMCS of the new VM.\<close>

definition program_vmcs :: "cpu \<Rightarrow> kernel \<Rightarrow> create_request \<Rightarrow> u64 \<Rightarrow> kernel \<times> u64 hyper_result" where
  "program_vmcs c k req ep =
     (case revision_id c of
        Err e \<Rightarrow> (k, Err e)
      | Ok rev_id \<Rightarrow>
          (case alloc_in_pool (k_frames k) rev_id of
             (fr, Err e) \<Rightarrow> (k\<lparr>k_frames := fr\<rparr>, Err e)
           | (fr, Ok pa) \<Rightarrow>
               let k = k\<lparr>k_frames := fr\<rparr> in
               case bind_result (vmclear c pa) (\<lambda>_. vmptrld c pa) of
                 Err e \<Rightarrow> (k, Err e)
               | Ok _ \<Rightarrow>
                   (case write_host_state c (cpu_host c) (fst (cpu_trampoline c)) (snd (cpu_trampoline c)) (k_vmcs k pa) of
                      (v, Err e) \<Rightarrow> (k\<lparr>k_vmcs := (k_vmcs k)(pa := v)\<rparr>, Err e)
                    | (v, Ok _) \<Rightarrow>
                        (case write_vmcs c \<lparr>lp_eptp = ep, lp_guest_rip = cr_guest_rip req, lp_guest_rsp = cr_guest_rsp req\<rparr> v of
                           (v, Err e) \<Rightarrow> (k\<lparr>k_vmcs := (k_vmcs k)(pa := v)\<rparr>, Err e)
                         | (v, Ok _) \<Rightarrow> (k\<lparr>k_vmcs := (k_vmcs k)(pa := v)\<rparr>, Ok pa)))))"

definition create_vm_with :: "cpu \<Rightarrow> kernel \<Rightarrow> create_request \<Rightarrow> kernel \<times> u32 hyper_result" where
  "create_vm_with c k req =
     (case reserve_slot k of
        (k, Err e) \<Rightarrow> (k, Err e)
      | (k, Ok slot) \<Rightarrow>
          (case install_first_guest (k_frames k) (cr_blob req) of
             (fr, Err e) \<Rightarrow> (k\<lparr>k_frames := fr\<rparr>, Err e)
           | (fr, Ok ept) \<Rightarrow>
               (case program_vmcs c (k\<lparr>k_frames := fr\<rparr>) req (eptp ept) of
                  (k, Err e) \<Rightarrow> (k, Err e)
                | (k, Ok vmcs_pa) \<Rightarrow>
                    let vm = kvm_new (of_nat slot) vmcs_pa (eptp ept) in
                    (if k_registry k ! slot = None then put_vm slot vm k else k, Ok (of_nat slot)))))"

definition create_vm :: "cpu \<Rightarrow> kernel \<Rightarrow> create_request \<Rightarrow> kernel \<times> u32 hyper_result" where
  "create_vm c k req =
     (if \<not> k_ready k then (k, Err (HDenied ''manager: runtime not initialised'')) else create_vm_with c k req)"

subsection \<open>Running and stopping\<close>

definition set_active :: "cpu \<Rightarrow> nat \<Rightarrow> kvm \<Rightarrow> kernel \<Rightarrow> kernel \<times> unit hyper_result" where
  "set_active c i vm k =
     (case vmptrld c (kv_vmcs_pa vm) of Err e \<Rightarrow> (k, Err e) | Ok _ \<Rightarrow> (k\<lparr>k_active := Some i\<rparr>, Ok ()))"

definition sched_dispatch_exit :: "u32 \<Rightarrow> exit_outcome \<Rightarrow> kernel \<Rightarrow> kernel \<times> kvm_state hyper_result" where
  "sched_dispatch_exit basic_reason outcome k =
     (case Option.bind (k_active k) (\<lambda>i. map_option (Pair i) (k_registry k ! i)) of
        None \<Rightarrow> (k, Err (HDenied ''scheduler: no active VM''))
      | Some (i, vm) \<Rightarrow> (case on_exit basic_reason outcome vm of (vm', r) \<Rightarrow> (put_vm i vm' k, r)))"

definition vm_exit_dispatch :: "u64 \<Rightarrow> u64 \<Rightarrow> kernel \<Rightarrow> kernel" where
  "vm_exit_dispatch rflags raw k =
     (case read_exit rflags raw of
        Ok ExHlt \<Rightarrow> fst (sched_dispatch_exit EXIT_REASON_HLT OutHalted k)
      | Ok ExCrAccess \<Rightarrow> fst (sched_dispatch_exit EXIT_REASON_CR_ACCESS OutFaulted k)
      | Ok ExEptViolation \<Rightarrow> fst (sched_dispatch_exit EXIT_REASON_EPT_VIOLATION OutFaulted k)
      | Ok (ExOther r) \<Rightarrow> fst (sched_dispatch_exit r OutFaulted k)
      | Err _ \<Rightarrow> k)"

definition start_vm :: "cpu \<Rightarrow> kernel \<Rightarrow> u32 \<Rightarrow> kernel \<times> unit hyper_result" where
  "start_vm c k i =
     (case vm_lookup k i of
        Err e \<Rightarrow> (k, Err e)
      | Ok vm \<Rightarrow>
          (case set_active c (unat i) vm k of
             (k, Err e) \<Rightarrow> (k, Err e)
           | (k, Ok _) \<Rightarrow>
               (case mark_running vm of
                  (vm, Err e) \<Rightarrow> (k, Err e)
                | (vm, Ok _) \<Rightarrow>
                    let k = put_vm (unat i) vm k in
                    case cpu_launch c of
                      GuestExit rflags raw \<Rightarrow> (vm_exit_dispatch rflags raw k, Ok ())
                    | LaunchReturned rflags \<Rightarrow>
                        (case vmlaunch_error rflags of
                           HInternal _ \<Rightarrow> (put_vm (unat i) (fst (kvm_stop vm)) k, Ok ())
                         | HHardware _ \<Rightarrow> (put_vm (unat i) (fst (kvm_stop vm)) k, Ok ())
                         | other \<Rightarrow> (k, Err other)))))"

definition stop_vm :: "kernel \<Rightarrow> u32 \<Rightarrow> kernel \<times> unit hyper_result" where
  "stop_vm k i =
     (case vm_lookup k i of
        Err e \<Rightarrow> (k, Err e)
      | Ok vm \<Rightarrow>
          if is_terminal (kvm_get_state vm) then (k, Ok ())
          else (case kvm_stop vm of (vm', r) \<Rightarrow> (put_vm (unat i) vm' k, r)))"

definition delete_vm :: "kernel \<Rightarrow> u32 \<Rightarrow> kernel \<times> unit hyper_result" where
  "delete_vm k i =
     (case vm_lookup k i of
        Err e \<Rightarrow> (k, Err e)
      | Ok vm \<Rightarrow>
          if \<not> is_terminal (kvm_get_state vm) then (k, Err (HInvalid ''manager: vm not terminal''))
          else
            let b = bit_at (unat i); k' = k\<lparr>k_deleted := k_deleted k OR b\<rparr> in
            if k_deleted k AND b \<noteq> 0 then (k', Err (HDenied ''manager: vm already deleted'')) else (k', Ok ()))"

subsection \<open>Queries\<close>

definition vm_state_of :: "kernel \<Rightarrow> u32 \<Rightarrow> kvm_state hyper_result" where
  "vm_state_of k i = bind_result (vm_lookup k i) (\<lambda>vm. Ok (kvm_get_state vm))"

definition vm_last_exit :: "kernel \<Rightarrow> u32 \<Rightarrow> u32 option hyper_result" where
  "vm_last_exit k i = bind_result (vm_lookup k i) (\<lambda>vm. Ok (last_exit_reason vm))"

definition count_ones :: "u32 \<Rightarrow> nat" where
  "count_ones w = length (filter (\<lambda>i. w AND bit_at i \<noteq> 0) [0..<32])"

definition vm_count :: "kernel \<Rightarrow> nat" where
  "vm_count k = count_ones (k_occupied k)"

record vm_list_entry =
  le_id :: u32
  le_state :: kvm_state
  le_last_exit :: "u32 option"

definition list_entry :: "kernel \<Rightarrow> nat \<Rightarrow> vm_list_entry option" where
  "list_entry k i =
     (if k_deleted k AND bit_at i \<noteq> 0 then None
      else map_option (\<lambda>vm. \<lparr>le_id = of_nat i, le_state = kvm_get_state vm, le_last_exit = last_exit_reason vm\<rparr>) (k_registry k ! i))"

definition kernel_list_vms :: "kernel \<Rightarrow> vm_list_entry option list \<times> nat" where
  "kernel_list_vms k =
     (let out = map (list_entry k) [0..<length (k_registry k)] in (out, length (filter (\<lambda>e. e \<noteq> None) out)))"

definition next_runnable :: "kernel \<Rightarrow> kernel \<times> u32 option" where
  "next_runnable k =
     (let start = unat (k_cursor k) in
      case find (\<lambda>i. (case k_registry k ! i of None \<Rightarrow> False | Some vm \<Rightarrow> kvm_get_state vm = VmCreated))
             (map (\<lambda>offset. (start + offset) mod MAX_VMS) [0..<MAX_VMS]) of
        None \<Rightarrow> (k, None)
      | Some i \<Rightarrow> (k\<lparr>k_cursor := of_nat ((i + 1) mod MAX_VMS)\<rparr>, Some (of_nat i)))"

definition reset_runqueue_cursor :: "kernel \<Rightarrow> kernel" where
  "reset_runqueue_cursor k = k\<lparr>k_cursor := 0\<rparr>"

subsection \<open>Paths\<close>

definition VM_NAMESPACE_ROOT :: string where "VM_NAMESPACE_ROOT = ''/vms''"

definition kernel_parse_u32 :: "string \<Rightarrow> u32 option" where
  "kernel_parse_u32 s = (if s = [] then None else map_option of_nat (parse_digits (2 ^ 32 - 1) 0 s))"

fun low_digits :: "nat \<Rightarrow> string" where
  "low_digits n = (if n = 0 then [] else digit_char (n mod 10) # low_digits (n div 10))"

declare low_digits.simps [simp del]

definition format_u32 :: "u32 \<Rightarrow> string" where
  "format_u32 n = (if n = 0 then ''0'' else rev (low_digits (unat n)))"

definition kernel_resolve_path :: "kernel \<Rightarrow> string \<Rightarrow> u32 hyper_result" where
  "kernel_resolve_path k path =
     bind_result (ok_or (HInvalid ''path: missing /vms root'') (strip_prefix VM_NAMESPACE_ROOT path)) (\<lambda>stripped.
     bind_result (ok_or (HInvalid ''path: expected /vms/<n>'') (strip_prefix ''/'' stripped)) (\<lambda>suffix.
     if suffix = [] \<or> CHR ''/'' \<in> set suffix then Err (HInvalid ''path: expected exactly one segment'')
     else bind_result (ok_or (HInvalid ''path: VM id is not a u32'') (kernel_parse_u32 suffix)) (\<lambda>i.
       bind_result (vm_lookup k i) (\<lambda>_. Ok i))))"

definition kernel_path_for :: "u32 \<Rightarrow> nat \<Rightarrow> string hyper_result" where
  "kernel_path_for i buf_len =
     (if buf_len < length VM_NAMESPACE_ROOT + 1 + 10 then Err (HExhausted ''path_for: buffer too small'')
      else Ok (VM_NAMESPACE_ROOT @ ''/'' @ format_u32 i))"

subsection \<open>Capabilities\<close>

datatype cap_object = ObjVm u32 | ObjVcpu u32 u32 | ObjEptRange u32 | ObjIommuDomain u32

record capability =
  cap_object :: cap_object
  cap_rights :: u32

definition RIGHT_READ :: u32 where "RIGHT_READ = 1"
definition RIGHT_WRITE :: u32 where "RIGHT_WRITE = 2"
definition RIGHT_INVOKE :: u32 where "RIGHT_INVOKE = 4"
definition RIGHT_GRANT :: u32 where "RIGHT_GRANT = 8"

definition cap_check :: "capability \<Rightarrow> u32 \<Rightarrow> unit hyper_result" where
  "cap_check cap needed = (if cap_rights cap AND needed = needed then Ok () else Err (HDenied ''rights mask''))"

definition namespace_new :: "capability \<Rightarrow> capability hyper_result" where
  "namespace_new cap =
     (case cap_object cap of
        ObjVm _ \<Rightarrow> bind_result (cap_check cap RIGHT_INVOKE) (\<lambda>_. Ok cap)
      | _ \<Rightarrow> Err (HDenied ''VmNamespace: cap is not a Vm object''))"

text \<open>The methods of \<^verbatim>\<open>VmNamespace\<close>: a rights check in front of the free function.\<close>

definition guarded :: "capability \<Rightarrow> u32 \<Rightarrow> (kernel \<Rightarrow> kernel \<times> 'a hyper_result) \<Rightarrow> kernel \<Rightarrow> kernel \<times> 'a hyper_result" where
  "guarded cap needed f k = (case cap_check cap needed of Err e \<Rightarrow> (k, Err e) | Ok _ \<Rightarrow> f k)"

definition ns_create_vm :: "capability \<Rightarrow> cpu \<Rightarrow> create_request \<Rightarrow> kernel \<Rightarrow> kernel \<times> u32 hyper_result" where
  "ns_create_vm cap c req = guarded cap (RIGHT_INVOKE OR RIGHT_WRITE) (\<lambda>k. create_vm c k req)"

definition ns_start_vm :: "capability \<Rightarrow> cpu \<Rightarrow> u32 \<Rightarrow> kernel \<Rightarrow> kernel \<times> unit hyper_result" where
  "ns_start_vm cap c i = guarded cap RIGHT_INVOKE (\<lambda>k. start_vm c k i)"

definition ns_stop_vm :: "capability \<Rightarrow> u32 \<Rightarrow> kernel \<Rightarrow> kernel \<times> unit hyper_result" where
  "ns_stop_vm cap i = guarded cap (RIGHT_INVOKE OR RIGHT_WRITE) (\<lambda>k. stop_vm k i)"

definition ns_query :: "capability \<Rightarrow> (kernel \<Rightarrow> 'a hyper_result) \<Rightarrow> kernel \<Rightarrow> 'a hyper_result" where
  "ns_query cap f k = bind_result (cap_check cap RIGHT_READ) (\<lambda>_. f k)"

subsection \<open>The invariant of the registry\<close>

definition sees_only :: "frames \<Rightarrow> u64 \<Rightarrow> u64 \<Rightarrow> bool" where
  "sees_only fr root hpa \<longleftrightarrow>
     (\<forall>g. ok_value (translate read_entry root fr g) =
       (if ept_indices g = ept_indices 0x1000 then Some (hpa OR (g AND 0xFFF)) else None))"

text \<open>
  A registered VM has a decodable state, its table root and VMCS in the pool, a VMCS that points
  at its own tables, and tables that map its guest page to one pool frame and nothing else.
\<close>

definition vm_ok :: "kernel \<Rightarrow> nat \<Rightarrow> kvm \<Rightarrow> u64 \<Rightarrow> u64 \<Rightarrow> bool" where
  "vm_ok k i vm root hpa \<longleftrightarrow>
     kv_id vm = of_nat i \<and> state_from_u32 (kv_state vm) \<noteq> None \<and> bit (k_occupied k) i \<and>
     kv_eptp vm = eptp root \<and> ept_ok (k_frames k) root \<and> sees_only (k_frames k) root hpa \<and>
     root \<in> pool_frames (k_frames k) \<and> hpa \<in> pool_frames (k_frames k) \<and> kv_vmcs_pa vm \<in> pool_frames (k_frames k) \<and>
     k_vmcs k (kv_vmcs_pa vm) EPT_POINTER = Some (kv_eptp vm)"

text \<open>Frames of different VMs, and the three frames of one VM, are all different.\<close>

definition apart :: "kernel \<Rightarrow> (nat \<Rightarrow> u64) \<Rightarrow> (nat \<Rightarrow> u64) \<Rightarrow> bool" where
  "apart k root hpa \<longleftrightarrow>
     (\<forall>i < MAX_VMS. \<forall>j < MAX_VMS. \<forall>vm vm'. k_registry k ! i = Some vm \<and> k_registry k ! j = Some vm' \<longrightarrow>
        hpa i \<noteq> root j \<and> hpa i \<noteq> kv_vmcs_pa vm' \<and> root i \<noteq> kv_vmcs_pa vm' \<and>
        (i \<noteq> j \<longrightarrow> hpa i \<noteq> hpa j \<and> root i \<noteq> root j \<and> kv_vmcs_pa vm \<noteq> kv_vmcs_pa vm'))"

definition kernel_inv :: "kernel \<Rightarrow> (nat \<Rightarrow> u64) \<Rightarrow> (nat \<Rightarrow> u64) \<Rightarrow> bool" where
  "kernel_inv k root hpa \<longleftrightarrow>
     length (k_registry k) = MAX_VMS \<and> frames_ok (k_frames k) \<and>
     (\<forall>i < MAX_VMS. \<forall>vm. k_registry k ! i = Some vm \<longrightarrow> vm_ok k i vm (root i) (hpa i)) \<and> apart k root hpa \<and>
     (\<forall>i < MAX_VMS. bit (k_deleted k) i \<longrightarrow> (\<exists>vm. k_registry k ! i = Some vm \<and> is_terminal (kvm_get_state vm))) \<and>
     (\<forall>i. k_active k = Some i \<longrightarrow> i < MAX_VMS \<and> k_registry k ! i \<noteq> None) \<and> unat (k_cursor k) < MAX_VMS"

definition kernel_ok :: "kernel \<Rightarrow> bool" where
  "kernel_ok k \<longleftrightarrow> (\<exists>root hpa. kernel_inv k root hpa)"

lemma kernel_invD:
  assumes "kernel_inv k root hpa"
  shows "length (k_registry k) = MAX_VMS" "frames_ok (k_frames k)" "apart k root hpa"
    "\<And>i vm. i < MAX_VMS \<Longrightarrow> k_registry k ! i = Some vm \<Longrightarrow> vm_ok k i vm (root i) (hpa i)"
    "\<And>i. i < MAX_VMS \<Longrightarrow> bit (k_deleted k) i \<Longrightarrow> \<exists>vm. k_registry k ! i = Some vm \<and> is_terminal (kvm_get_state vm)"
    "\<And>i. k_active k = Some i \<Longrightarrow> i < MAX_VMS \<and> k_registry k ! i \<noteq> None" "unat (k_cursor k) < MAX_VMS"
  using assms unfolding kernel_inv_def by blast+

lemma sees_only_keeps: "keeps fr fr' \<Longrightarrow> ept_ok fr root \<Longrightarrow> sees_only fr root hpa \<Longrightarrow> sees_only fr' root hpa"
  using keeps_ept by (simp add: sees_only_def)

lemma vm_ok_mono:
  assumes "vm_ok k i vm root hpa" "keeps (k_frames k) (k_frames k')" "\<And>n. bit (k_occupied k) n \<Longrightarrow> bit (k_occupied k') n"
    "\<And>a. a \<in> pool_frames (k_frames k) \<Longrightarrow> k_vmcs k' a = k_vmcs k a"
  shows "vm_ok k' i vm root hpa"
  using assms keeps_ept [OF assms(2)] sees_only_keeps [OF assms(2)] unfolding vm_ok_def keeps_def by auto

text \<open>The memory side may grow under the registry.\<close>

lemma kernel_inv_mono:
  assumes "kernel_inv k root hpa" "k_registry k' = k_registry k" "k_deleted k' = k_deleted k" "k_active k' = k_active k"
    "k_cursor k' = k_cursor k" "keeps (k_frames k) (k_frames k')" "\<And>n. bit (k_occupied k) n \<Longrightarrow> bit (k_occupied k') n"
    "\<And>a. a \<in> pool_frames (k_frames k) \<Longrightarrow> k_vmcs k' a = k_vmcs k a"
  shows "kernel_inv k' root hpa"
proof -
  have "vm_ok k' i vm (root i) (hpa i)" if "i < MAX_VMS" "k_registry k ! i = Some vm" for i vm
    by (rule vm_ok_mono [OF kernel_invD(4) [OF assms(1) that] assms(6-8)])
  moreover have "apart k' root hpa" using kernel_invD(3) [OF assms(1)] by (simp add: apart_def assms(2))
  moreover have "frames_ok (k_frames k')" using assms(6) by (simp add: keeps_def)
  ultimately show ?thesis
    using kernel_invD(1,5-7) [OF assms(1)] unfolding kernel_inv_def by (simp add: assms(2-5))
qed

text \<open>A VM may change its state and exit reason; a deleted VM stays terminal.\<close>

lemma kernel_inv_put:
  assumes inv: "kernel_inv k root hpa" and i: "i < MAX_VMS" "k_registry k ! i = Some vm"
    and vm': "kv_id vm' = kv_id vm" "kv_vmcs_pa vm' = kv_vmcs_pa vm" "kv_eptp vm' = kv_eptp vm" "state_from_u32 (kv_state vm') \<noteq> None"
    and t: "is_terminal (kvm_get_state vm) \<Longrightarrow> is_terminal (kvm_get_state vm')"
  shows "kernel_inv (put_vm i vm' k) root hpa"
proof -
  have reg: "k_registry (put_vm i vm' k) ! j = (if j = i then Some vm' else k_registry k ! j)" if "j < MAX_VMS" for j
    using that i kernel_invD(1) [OF inv] by (simp add: put_vm_def nth_list_update)
  have same: "k_frames (put_vm i vm' k) = k_frames k" "k_vmcs (put_vm i vm' k) = k_vmcs k" "k_occupied (put_vm i vm' k) = k_occupied k"
    "k_deleted (put_vm i vm' k) = k_deleted k" "k_active (put_vm i vm' k) = k_active k" "k_cursor (put_vm i vm' k) = k_cursor k"
    "length (k_registry (put_vm i vm' k)) = length (k_registry k)" by (simp_all add: put_vm_def)
  have "vm_ok (put_vm i vm' k) j w (root j) (hpa j)" if "j < MAX_VMS" "k_registry (put_vm i vm' k) ! j = Some w" for j w
    using that reg kernel_invD(4) [OF inv that(1)] i vm' by (auto simp: vm_ok_def same split: if_splits)
  moreover have "apart (put_vm i vm' k) root hpa"
    using kernel_invD(3) [OF inv] i vm'(2) unfolding apart_def by (simp add: reg)
  moreover have "is_terminal (kvm_get_state vm')" if "bit (k_deleted k) i"
    using kernel_invD(5) [OF inv i(1) that] i(2) t by auto
  ultimately show ?thesis
    using kernel_invD(1,2,7) [OF inv] kernel_invD(5,6) [OF inv] i unfolding kernel_inv_def by (auto simp: same reg)
qed

subsection \<open>The lifecycle as a step relation\<close>

inductive vm_step :: "kvm_state \<Rightarrow> kvm_state \<Rightarrow> bool" where
  launch: "vm_step VmCreated VmRunning"
| halt: "vm_step VmRunning VmHalted"
| fault: "vm_step VmRunning VmFaulted"
| stop_created: "vm_step VmCreated VmStopped"
| stop_running: "vm_step VmRunning VmStopped"

inductive_cases vm_stepE: "vm_step s t"

lemma terminal_final: "vm_step\<^sup>*\<^sup>* s t \<Longrightarrow> is_terminal s \<Longrightarrow> t = s"
  by (induction rule: converse_rtranclp_induct) (auto elim: vm_stepE)

text \<open>A move of one VM: its identity stays, its state follows the lifecycle.\<close>

definition kvm_move :: "kvm \<Rightarrow> kvm \<Rightarrow> bool" where
  "kvm_move vm vm' \<longleftrightarrow> kv_id vm' = kv_id vm \<and> kv_vmcs_pa vm' = kv_vmcs_pa vm \<and> kv_eptp vm' = kv_eptp vm \<and>
     (state_from_u32 (kv_state vm) \<noteq> None \<longrightarrow> state_from_u32 (kv_state vm') \<noteq> None \<and> vm_step\<^sup>*\<^sup>* (kvm_get_state vm) (kvm_get_state vm'))"

lemma kvm_move_refl [simp]: "kvm_move vm vm"
  by (simp add: kvm_move_def)

lemma kvm_move_trans: "kvm_move a b \<Longrightarrow> kvm_move b c \<Longrightarrow> kvm_move a c"
  by (auto simp: kvm_move_def intro: rtranclp_trans)

lemma decode_code [simp]: "state_from_u32 (state_code s) = Some s"
  by (cases s) (simp_all add: state_from_u32_def)

lemma transition_move: "vm_step s t \<Longrightarrow> kvm_transition s t vm = (vm', r) \<Longrightarrow> kvm_move vm vm'"
  by (auto simp: kvm_transition_def kvm_move_def kvm_get_state_def split: if_splits)

lemma mark_running_move: "mark_running vm = (vm', r) \<Longrightarrow> kvm_move vm vm'"
  using transition_move [OF vm_step.launch] by (simp add: mark_running_def)

lemma kvm_stop_move: "kvm_stop vm = (vm', r) \<Longrightarrow> kvm_move vm vm'"
  by (auto simp: kvm_stop_def kvm_move_def kvm_get_state_def simp del: state_code.simps
      intro!: r_into_rtranclp vm_step.intros split: if_splits)

lemma on_exit_move:
  assumes "on_exit reason kind vm = (vm', r)"
  shows "kvm_move vm vm'"
proof -
  let ?vm = "vm\<lparr>kv_last_exit := reason\<rparr>" and ?n = "case kind of OutHalted \<Rightarrow> VmHalted | OutFaulted \<Rightarrow> VmFaulted"
  have "vm_step VmRunning ?n" by (cases kind) (simp_all add: vm_step.intros)
  moreover have "kvm_transition VmRunning ?n ?vm = (vm', snd (kvm_transition VmRunning ?n ?vm))"
    using assms by (auto simp: on_exit_def Let_def split: prod.splits result.splits)
  ultimately have "kvm_move ?vm vm'" by (rule transition_move)
  then show ?thesis by (simp add: kvm_move_def kvm_get_state_def)
qed

definition kernel_evolves :: "kernel \<Rightarrow> kernel \<Rightarrow> bool" where
  "kernel_evolves k k' \<longleftrightarrow> (\<forall>i < MAX_VMS. \<forall>vm. k_registry k ! i = Some vm \<longrightarrow> (\<exists>vm'. k_registry k' ! i = Some vm' \<and> kvm_move vm vm'))"

lemma kernel_evolves_refl [simp]: "kernel_evolves k k"
  by (simp add: kernel_evolves_def)

lemma kernel_evolves_trans: "kernel_evolves a b \<Longrightarrow> kernel_evolves b c \<Longrightarrow> kernel_evolves a c"
  unfolding kernel_evolves_def by (meson kvm_move_trans)

lemma kernel_evolves_registry: "k_registry k' = k_registry k \<Longrightarrow> kernel_evolves k k'"
  by (simp add: kernel_evolves_def)

text \<open>What every operation of the manager keeps.\<close>

definition good_step :: "kernel \<Rightarrow> kernel \<Rightarrow> bool" where
  "good_step k k' \<longleftrightarrow> (kernel_ok k \<longrightarrow> kernel_ok k' \<and> kernel_evolves k k')"

lemma good_step_refl [simp]: "good_step k k"
  by (simp add: good_step_def)

lemma good_step_trans: "good_step a b \<Longrightarrow> good_step b c \<Longrightarrow> good_step a c"
  by (auto simp: good_step_def intro: kernel_evolves_trans)

lemma put_good:
  assumes "i < MAX_VMS" "k_registry k ! i = Some vm" "kvm_move vm vm'"
  shows "good_step k (put_vm i vm' k)"
  unfolding good_step_def
proof
  assume "kernel_ok k"
  then obtain root hpa where inv: "kernel_inv k root hpa" by (auto simp: kernel_ok_def)
  have valid: "state_from_u32 (kv_state vm) \<noteq> None" using kernel_invD(4) [OF inv assms(1,2)] by (simp add: vm_ok_def)
  have "kernel_inv (put_vm i vm' k) root hpa"
    using assms(3) valid by (intro kernel_inv_put [OF inv assms(1,2)]) (auto simp: kvm_move_def dest: terminal_final)
  moreover have "kernel_evolves k (put_vm i vm' k)"
    using assms kernel_invD(1) [OF inv] by (auto simp: kernel_evolves_def put_vm_def nth_list_update)
  ultimately show "kernel_ok (put_vm i vm' k) \<and> kernel_evolves k (put_vm i vm' k)" by (auto simp: kernel_ok_def)
qed

lemma vm_lookup_Ok: "vm_lookup k i = Ok vm \<longleftrightarrow> unat i < MAX_VMS \<and> k_registry k ! unat i = Some vm"
  by (auto simp: vm_lookup_def split: if_splits)

lemma mono_good:
  assumes "k_registry k' = k_registry k" "k_deleted k' = k_deleted k" "k_active k' = k_active k" "k_cursor k' = k_cursor k"
    "frames_ok (k_frames k) \<Longrightarrow> keeps (k_frames k) (k_frames k')" "\<And>n. bit (k_occupied k) n \<Longrightarrow> bit (k_occupied k') n"
    "\<And>a. frames_ok (k_frames k) \<Longrightarrow> a \<in> pool_frames (k_frames k) \<Longrightarrow> k_vmcs k' a = k_vmcs k a"
  shows "good_step k k'"
  unfolding good_step_def
proof
  assume "kernel_ok k"
  then obtain root hpa where inv: "kernel_inv k root hpa" by (auto simp: kernel_ok_def)
  then have "frames_ok (k_frames k)" by (rule kernel_invD(2))
  with kernel_inv_mono [OF inv assms(1-4)] assms(5-7) show "kernel_ok k' \<and> kernel_evolves k k'"
    using kernel_evolves_registry [OF assms(1)] unfolding kernel_ok_def by blast
qed

subsection \<open>Stopping, deleting, starting\<close>

lemma stop_vm_good: "stop_vm k i = (k', r) \<Longrightarrow> good_step k k'"
  by (auto simp: stop_vm_def vm_lookup_Ok intro: put_good kvm_stop_move split: result.splits if_splits prod.splits)

lemma set_active_good:
  assumes "set_active c (unat i) vm k = (k', r)" "vm_lookup k i = Ok vm"
  shows "good_step k k' \<and> k_registry k' = k_registry k \<and> (r = Ok () \<longrightarrow> k_active k' = Some (unat i))"
proof -
  have "kernel_inv (k\<lparr>k_active := Some (unat i)\<rparr>) root hpa" if "kernel_inv k root hpa" for root hpa
    using that assms(2) by (auto simp: kernel_inv_def vm_ok_def apart_def vm_lookup_Ok)
  then have "good_step k (k\<lparr>k_active := Some (unat i)\<rparr>)"
    by (auto simp: good_step_def kernel_ok_def intro: kernel_evolves_registry)
  then show ?thesis using assms(1) by (auto simp: set_active_def split: result.splits)
qed

lemma sched_dispatch_good: "good_step k (fst (sched_dispatch_exit reason kind k))"
proof (cases "\<exists>i vm. k_active k = Some i \<and> k_registry k ! i = Some vm")
  case True
  then obtain i vm where a: "k_active k = Some i" "k_registry k ! i = Some vm" by auto
  obtain vm' r where e: "on_exit reason kind vm = (vm', r)" by (cases "on_exit reason kind vm")
  have "good_step k (put_vm i vm' k)" if "kernel_ok k"
    using that a on_exit_move [OF e] by (intro put_good) (auto simp: kernel_ok_def dest: kernel_invD(6))
  then show ?thesis using a e by (auto simp: sched_dispatch_exit_def good_step_def)
qed (auto simp: sched_dispatch_exit_def split: option.splits bind_splits)

lemma exit_dispatch_good: "good_step k (vm_exit_dispatch rflags raw k)"
  by (auto simp: vm_exit_dispatch_def sched_dispatch_good split: result.splits exit_kind.splits)

lemma start_vm_good:
  assumes "start_vm c k i = (k', r)"
  shows "good_step k k'"
proof (cases "vm_lookup k i")
  case (Ok vm)
  obtain k1 r1 where s: "set_active c (unat i) vm k = (k1, r1)" by (cases "set_active c (unat i) vm k")
  note g1 = set_active_good [OF s Ok]
  obtain vm2 r2 where m: "mark_running vm = (vm2, r2)" by (cases "mark_running vm")
  show ?thesis
  proof (cases "is_ok r1 \<and> is_ok r2")
    case False
    then have "k' = k1" using assms Ok s m by (cases r1; cases r2) (auto simp: start_vm_def)
    then show ?thesis using g1 by simp
  next
    case True
    let ?k2 = "put_vm (unat i) vm2 k1" and ?k3 = "put_vm (unat i) (fst (kvm_stop vm2)) (put_vm (unat i) vm2 k1)"
    have i: "unat i < MAX_VMS" "k_registry k1 ! unat i = Some vm" using Ok g1 by (auto simp: vm_lookup_Ok)
    have g2: "good_step k ?k2" using g1 put_good [OF i mark_running_move [OF m]] good_step_trans by blast
    have g3: "good_step k ?k3"
    proof -
      have "kvm_move vm (fst (kvm_stop vm2))"
        using kvm_move_trans [OF mark_running_move [OF m]] kvm_stop_move by (metis prod.collapse)
      then have "good_step k1 (put_vm (unat i) (fst (kvm_stop vm2)) k1)" using put_good [OF i] by blast
      then show ?thesis using g1 good_step_trans by (auto simp: put_vm_def)
    qed
    have "k' = ?k3 \<or> (\<exists>fl raw. k' = vm_exit_dispatch fl raw ?k2)"
      using assms Ok s m True
      by (cases r1; cases r2) (auto simp: start_vm_def Let_def vmlaunch_error_def split: launch.splits if_splits)
    then show ?thesis using g2 g3 exit_dispatch_good good_step_trans by blast
  qed
qed (use assms in \<open>simp add: start_vm_def\<close>)

lemma bit_bit_at [simp]: "bit (bit_at i) n \<longleftrightarrow> n = i \<and> i < 32"
  by (auto simp: bit_at_def bit_simps)

lemma and_bit_at: "i < 32 \<Longrightarrow> w AND bit_at i = 0 \<longleftrightarrow> \<not> bit w i"
proof
  assume "w AND bit_at i = 0" and i: "i < 32"
  then have "\<not> bit (w AND bit_at i) i" by simp
  with i show "\<not> bit w i" by (simp add: bit_and_iff)
next
  show "\<not> bit w i \<Longrightarrow> w AND bit_at i = 0" by (rule bit_word_eqI) (auto simp: bit_and_iff)
qed

lemma delete_vm_good:
  assumes "delete_vm k i = (k', r)"
  shows "good_step k k'"
proof -
  have "kernel_inv (k\<lparr>k_deleted := k_deleted k OR bit_at (unat i)\<rparr>) root hpa"
    if "kernel_inv k root hpa" "vm_lookup k i = Ok vm" "is_terminal (kvm_get_state vm)" for root hpa vm
    using that by (auto simp: kernel_inv_def vm_ok_def apart_def vm_lookup_Ok bit_or_iff)
  then have "good_step k (k\<lparr>k_deleted := k_deleted k OR bit_at (unat i)\<rparr>)"
    if "vm_lookup k i = Ok vm" "is_terminal (kvm_get_state vm)" for vm
    using that by (fastforce simp: good_step_def kernel_ok_def intro: kernel_evolves_registry)
  then show ?thesis using assms by (auto simp: delete_vm_def Let_def split: result.splits if_splits)
qed

lemma next_runnable_good: "next_runnable k = (k', r) \<Longrightarrow> good_step k k'"
proof -
  assume n: "next_runnable k = (k', r)"
  have "kernel_inv (k\<lparr>k_cursor := of_nat (j mod MAX_VMS)\<rparr>) root hpa" if "kernel_inv k root hpa" for root hpa j
  proof -
    have "unat (of_nat (j mod MAX_VMS) :: u32) = j mod MAX_VMS" by (simp add: unat_of_nat MAX_VMS_def)
    then show ?thesis using that by (simp add: kernel_inv_def vm_ok_def apart_def MAX_VMS_def)
  qed
  then have "good_step k (k\<lparr>k_cursor := of_nat (j mod MAX_VMS)\<rparr>)" for j
    by (fastforce simp: good_step_def kernel_ok_def intro: kernel_evolves_registry)
  then show ?thesis using n by (auto simp: next_runnable_def Let_def split: option.splits)
qed

subsection \<open>Creation\<close>

lemma alloc_in_pool_Ok:
  assumes "frames_ok fr" "alloc_in_pool fr rev_id = (fr', Ok pa)"
  shows "pa \<in> pool_frames fr' - pool_frames fr"
proof -
  obtain fr1 where a: "alloc_zeroed fr = (fr1, Ok pa)" "fr' = write_entry fr1 pa 0 (ucast rev_id)"
    using assms(2) by (auto simp: alloc_in_pool_def split: prod.splits result.splits)
  then show ?thesis using alloc_Ok(3,4) [OF assms(1) a(1)] by simp
qed

lemma program_vmcs_fields:
  assumes "program_vmcs c k req ep = (k', r)"
  shows "k_registry k' = k_registry k" "k_deleted k' = k_deleted k" "k_active k' = k_active k" "k_cursor k' = k_cursor k"
    "k_occupied k' = k_occupied k"
  using assms by (auto simp: program_vmcs_def Let_def split: result.splits prod.splits)

lemma program_vmcs_spec:
  assumes "frames_ok (k_frames k)" "program_vmcs c k req ep = (k', r)"
  shows "keeps (k_frames k) (k_frames k')"
    "a \<in> pool_frames (k_frames k) \<Longrightarrow> k_vmcs k' a = k_vmcs k a"
    "r = Ok pa \<Longrightarrow> pa \<in> pool_frames (k_frames k') - pool_frames (k_frames k) \<and> k_vmcs k' pa EPT_POINTER = Some ep \<and>
       k_vmcs k' pa GUEST_RIP = Some (cr_guest_rip req) \<and> k_vmcs k' pa HOST_RIP = Some (fst (cpu_trampoline c))"
proof -
  note refl = keeps_refl [OF assms(1)]
  show "keeps (k_frames k) (k_frames k')"
    using assms(2) refl alloc_in_pool_keeps [OF assms(1)]
    by (auto simp: program_vmcs_def Let_def split: result.splits prod.splits)
  show "a \<in> pool_frames (k_frames k) \<Longrightarrow> k_vmcs k' a = k_vmcs k a"
    using assms(2) alloc_in_pool_Ok [OF assms(1)]
    by (auto simp: program_vmcs_def Let_def split: result.splits prod.splits)
  assume "r = Ok pa"
  then obtain rid fr v v' where s: "alloc_in_pool (k_frames k) rid = (fr, Ok pa)"
    "write_host_state c (cpu_host c) (fst (cpu_trampoline c)) (snd (cpu_trampoline c)) (k_vmcs k pa) = (v, Ok ())"
    "write_vmcs c \<lparr>lp_eptp = ep, lp_guest_rip = cr_guest_rip req, lp_guest_rsp = cr_guest_rsp req\<rparr> v = (v', Ok ())"
    "k' = k\<lparr>k_frames := fr, k_vmcs := (k_vmcs k)(pa := v')\<rparr>"
    using assms(2) by (auto simp: program_vmcs_def Let_def split: result.splits prod.splits)
  then show "pa \<in> pool_frames (k_frames k') - pool_frames (k_frames k) \<and> k_vmcs k' pa EPT_POINTER = Some ep \<and>
       k_vmcs k' pa GUEST_RIP = Some (cr_guest_rip req) \<and> k_vmcs k' pa HOST_RIP = Some (fst (cpu_trampoline c))"
    using alloc_in_pool_Ok [OF assms(1) s(1)] write_vmcs_fields [OF s(3)] write_vmcs_keeps_host [OF s(3)] write_host_fields [OF s(2)]
    by simp
qed

lemma reserve_slot_spec:
  assumes "reserve_slot k = (k', r)"
  shows "\<exists>occ. k' = k\<lparr>k_occupied := occ\<rparr> \<and> (\<forall>n. bit (k_occupied k) n \<longrightarrow> bit occ n) \<and>
    (\<forall>s. r = Ok s \<longrightarrow> s < MAX_VMS \<and> \<not> bit (k_occupied k) s \<and> bit occ s) \<and>
    (\<not> is_ok r \<longleftrightarrow> (\<forall>i < MAX_VMS. bit (k_occupied k) i))"
proof (cases "find (\<lambda>i. k_occupied k AND bit_at i = 0) [0..<MAX_VMS]")
  case None
  then have "\<forall>i < MAX_VMS. bit (k_occupied k) i" using and_bit_at [of _ "k_occupied k"]
    by (auto simp: find_None_iff MAX_VMS_def)
  then show ?thesis using assms None by (intro exI [of _ "k_occupied k"]) (auto simp: reserve_slot_def)
next
  case (Some s)
  then have "s < MAX_VMS" "k_occupied k AND bit_at s = 0" by (auto simp: find_Some_iff)
  then have s: "s < MAX_VMS" "s < 32" "\<not> bit (k_occupied k) s" using and_bit_at [of s "k_occupied k"] by (auto simp: MAX_VMS_def)
  then show ?thesis using assms Some
    by (intro exI [of _ "k_occupied k OR bit_at s"]) (auto simp: reserve_slot_def bit_or_iff)
qed

text \<open>Registering a VM whose frames are all new.\<close>

lemma register_inv:
  assumes inv: "kernel_inv k root hpa" and s: "s < MAX_VMS" "k_registry k ! s = None"
    and vm: "vm_ok k s vm rt hp" "kvm_get_state vm = VmCreated"
    and fresh: "rt \<notin> F" "hp \<notin> F" "kv_vmcs_pa vm \<notin> F" "distinct [rt, hp, kv_vmcs_pa vm]"
    and F: "\<And>i w. i < MAX_VMS \<Longrightarrow> k_registry k ! i = Some w \<Longrightarrow> root i \<in> F \<and> hpa i \<in> F \<and> kv_vmcs_pa w \<in> F"
  shows "kernel_inv (put_vm s vm k) (root(s := rt)) (hpa(s := hp))"
proof -
  let ?k = "put_vm s vm k"
  have reg: "k_registry ?k ! j = (if j = s then Some vm else k_registry k ! j)" if "j < MAX_VMS" for j
    using that s kernel_invD(1) [OF inv] by (simp add: put_vm_def nth_list_update)
  have same: "k_frames ?k = k_frames k" "k_vmcs ?k = k_vmcs k" "k_occupied ?k = k_occupied k"
    "k_deleted ?k = k_deleted k" "k_active ?k = k_active k" "k_cursor ?k = k_cursor k"
    "length (k_registry ?k) = length (k_registry k)" by (simp_all add: put_vm_def)
  have "vm_ok ?k j w ((root(s := rt)) j) ((hpa(s := hp)) j)" if "j < MAX_VMS" "k_registry ?k ! j = Some w" for j w
    using that reg [OF that(1)] kernel_invD(4) [OF inv that(1), of w] vm(1) by (auto simp: vm_ok_def same split: if_splits)
  moreover have "apart ?k (root(s := rt)) (hpa(s := hp))"
    unfolding apart_def
  proof (intro allI impI)
    fix i j w w' assume H: "i < MAX_VMS" "j < MAX_VMS" "k_registry ?k ! i = Some w \<and> k_registry ?k ! j = Some w'"
    have ap: "hpa i \<noteq> root j \<and> hpa i \<noteq> kv_vmcs_pa w' \<and> root i \<noteq> kv_vmcs_pa w' \<and>
        (i \<noteq> j \<longrightarrow> hpa i \<noteq> hpa j \<and> root i \<noteq> root j \<and> kv_vmcs_pa w \<noteq> kv_vmcs_pa w')" if "i \<noteq> s" "j \<noteq> s"
      using kernel_invD(3) [OF inv] H that reg unfolding apart_def by simp
    show "(hpa(s := hp)) i \<noteq> (root(s := rt)) j \<and> (hpa(s := hp)) i \<noteq> kv_vmcs_pa w' \<and> (root(s := rt)) i \<noteq> kv_vmcs_pa w' \<and>
        (i \<noteq> j \<longrightarrow> (hpa(s := hp)) i \<noteq> (hpa(s := hp)) j \<and> (root(s := rt)) i \<noteq> (root(s := rt)) j \<and> kv_vmcs_pa w \<noteq> kv_vmcs_pa w')"
      using ap fresh F [OF H(1), of w] F [OF H(2), of w'] H(3) reg [OF H(1)] reg [OF H(2)]
      by (cases "i = s"; cases "j = s") (simp_all, metis+)
  qed
  moreover have "\<exists>w. k_registry ?k ! j = Some w \<and> is_terminal (kvm_get_state w)" if "j < MAX_VMS" "bit (k_deleted k) j" for j
    using kernel_invD(5) [OF inv that] reg [OF that(1)] s by auto
  moreover have "j < MAX_VMS \<and> k_registry ?k ! j \<noteq> None" if "k_active k = Some j" for j
    using kernel_invD(6) [OF inv that] reg [of j] by auto
  ultimately show ?thesis
    using kernel_invD(1,2,7) [OF inv] unfolding kernel_inv_def by (simp add: same)
qed

text \<open>A successful creation, step by step.\<close>

lemma create_vm_OkE:
  assumes "create_vm_with c k req = (k', Ok i)" "kernel_inv k root hpa"
  obtains s fr ept pa k2 hp where "s < MAX_VMS" "i = of_nat s" "k_registry k ! s = None" "k_registry k2 = k_registry k"
    "k' = put_vm s (kvm_new i pa (eptp ept)) k2" "kernel_inv k2 root hpa" "vm_ok k2 s (kvm_new i pa (eptp ept)) ept hp"
    "guest_at (k_frames k2) ept hp (cr_blob req)" "k_vmcs k2 pa GUEST_RIP = Some (cr_guest_rip req)"
    "ept \<notin> pool_frames (k_frames k)" "hp \<notin> pool_frames (k_frames k)" "pa \<notin> pool_frames (k_frames k)" "distinct [ept, hp, pa]"
proof -
  obtain k1 s fr ept where c1: "reserve_slot k = (k1, Ok s)" "install_first_guest (k_frames k1) (cr_blob req) = (fr, Ok ept)"
    using assms(1) by (auto simp: create_vm_with_def split: prod.splits result.splits)
  let ?k1 = "k1\<lparr>k_frames := fr\<rparr>"
  obtain k2 pa where c2: "program_vmcs c ?k1 req (eptp ept) = (k2, Ok pa)" "i = of_nat s"
    "k' = (if k_registry k2 ! s = None then put_vm s (kvm_new i pa (eptp ept)) k2 else k2)"
    using assms(1) c1 by (auto simp: create_vm_with_def Let_def split: prod.splits result.splits)
  obtain occ where r: "k1 = k\<lparr>k_occupied := occ\<rparr>" "\<And>n. bit (k_occupied k) n \<Longrightarrow> bit occ n" "s < MAX_VMS" "\<not> bit (k_occupied k) s" "bit occ s"
    using reserve_slot_spec [OF c1(1)] by auto
  note fr = kernel_invD(2) [OF assms(2)]
  have i1: "install_first_guest (k_frames k) (cr_blob req) = (fr, Ok ept)" using c1(2) r(1) by simp
  from install_spec [OF fr i1] obtain hp where ins: "keeps (k_frames k) fr" "ept_ok fr ept" "ept \<notin> pool_frames (k_frames k)"
    "hp \<in> pool_frames fr" "hp \<notin> pool_frames (k_frames k)" "hp \<noteq> ept" "guest_at fr ept hp (cr_blob req)" by auto
  have "frames_ok (k_frames ?k1)" using ins(1) by (simp add: keeps_def)
  note p = program_vmcs_fields [OF c2(1)] program_vmcs_spec [OF this c2(1)]
  have k2: "keeps fr (k_frames k2)" using p(6) by simp
  have ept: "ept \<in> pool_frames fr" using ept_ok_root [OF ins(2)] .
  have pa: "pa \<in> pool_frames (k_frames k2)" "pa \<notin> pool_frames fr" "k_vmcs k2 pa EPT_POINTER = Some (eptp ept)"
    "k_vmcs k2 pa GUEST_RIP = Some (cr_guest_rip req)" using p(8) [OF refl] by auto
  have none: "k_registry k ! s = None"
    using kernel_invD(4) [OF assms(2) r(3)] r(4) by (cases "k_registry k ! s") (auto simp: vm_ok_def)
  have reg: "k_registry k2 = k_registry k" using p(1) r(1) by simp
  have inv2: "kernel_inv k2 root hpa"
    using p r ins(1) keeps_trans [OF ins(1) k2] by (intro kernel_inv_mono [OF assms(2)]) (auto simp: keeps_def)
  have ga: "guest_at (k_frames k2) ept hp (cr_blob req)" using guest_at_keeps [OF k2 ins(2,4,7)] .
  have "vm_ok k2 s (kvm_new i pa (eptp ept)) ept hp"
    using keeps_ept [OF k2 ins(2)] ga ept ins(4) k2 pa p(5) r c2(2)
    by (auto simp: vm_ok_def kvm_new_def sees_only_def guest_at_def keeps_def simp del: state_code.simps)
  moreover have "pa \<notin> pool_frames (k_frames k)" "distinct [ept, hp, pa]" using pa ept ins by (auto simp: keeps_def)
  ultimately show ?thesis
    using that [of s k2 pa ept hp] r(3) c2(2,3) none reg inv2 ga pa(4) ins(3,5) by simp
qed

lemma create_vm_Err:
  assumes "create_vm_with c k req = (k', Err e)"
  shows "good_step k k'"
proof -
  obtain k1 r1 where c1: "reserve_slot k = (k1, r1)" by (cases "reserve_slot k")
  obtain occ where occ: "k1 = k\<lparr>k_occupied := occ\<rparr>" "\<And>n. bit (k_occupied k) n \<Longrightarrow> bit occ n"
    using reserve_slot_spec [OF c1] by auto
  have g1: "good_step k k1" using occ by (intro mono_good) (simp_all add: keeps_refl)
  show ?thesis
  proof (cases r1)
    case (Ok s)
    obtain fr r2 where c2: "install_first_guest (k_frames k1) (cr_blob req) = (fr, r2)" by (cases "install_first_guest (k_frames k1) (cr_blob req)")
    have g2: "good_step k1 (k1\<lparr>k_frames := fr\<rparr>)" using install_spec [OF _ c2] by (intro mono_good) simp_all
    show ?thesis
    proof (cases r2)
      case (Ok ept)
      obtain k2 r3 where c3: "program_vmcs c (k1\<lparr>k_frames := fr\<rparr>) req (eptp ept) = (k2, r3)"
        by (cases "program_vmcs c (k1\<lparr>k_frames := fr\<rparr>) req (eptp ept)")
      have "good_step (k1\<lparr>k_frames := fr\<rparr>) k2"
        using program_vmcs_spec [OF _ c3] program_vmcs_fields [OF c3] by (intro mono_good) simp_all
      moreover have "k' = k2" using assms c1 \<open>r1 = Ok s\<close> c2 Ok c3 by (auto simp: create_vm_with_def Let_def split: result.splits)
      ultimately show ?thesis using g1 g2 good_step_trans by blast
    qed (use assms c1 Ok c2 g1 g2 in \<open>auto simp: create_vm_with_def intro: good_step_trans\<close>)
  qed (use assms c1 g1 in \<open>simp add: create_vm_with_def\<close>)
qed

lemma create_vm_good:
  assumes "create_vm c k req = (k', r)"
  shows "good_step k k'"
  unfolding good_step_def
proof
  assume "kernel_ok k"
  then obtain root hpa where inv: "kernel_inv k root hpa" by (auto simp: kernel_ok_def)
  note fr = kernel_invD(2) [OF inv]
  show "kernel_ok k' \<and> kernel_evolves k k'"
  proof (cases "k_ready k")
    case True
    then have cr: "create_vm_with c k req = (k', r)" using assms by (simp add: create_vm_def)
    show ?thesis
    proof (cases r)
      case (Ok i)
      from create_vm_OkE [OF cr [unfolded Ok] inv] obtain s ept pa k2 hp where
        c: "s < MAX_VMS" "i = of_nat s" "k_registry k ! s = None" "k_registry k2 = k_registry k"
        "k' = put_vm s (kvm_new i pa (eptp ept)) k2" "kernel_inv k2 root hpa" "vm_ok k2 s (kvm_new i pa (eptp ept)) ept hp"
        "ept \<notin> pool_frames (k_frames k)" "hp \<notin> pool_frames (k_frames k)" "pa \<notin> pool_frames (k_frames k)" "distinct [ept, hp, pa]" .
      have "kernel_inv k' (root(s := ept)) (hpa(s := hp))"
        unfolding c(5)
      proof (rule register_inv [OF c(6,1) _ c(7), where F = "pool_frames (k_frames k)"])
        show "root j \<in> pool_frames (k_frames k) \<and> hpa j \<in> pool_frames (k_frames k) \<and> kv_vmcs_pa w \<in> pool_frames (k_frames k)"
          if "j < MAX_VMS" "k_registry k2 ! j = Some w" for j w
          using kernel_invD(4) [OF inv that(1), of w] that(2) c(4) by (simp add: vm_ok_def)
      qed (use c in \<open>auto simp: kvm_new_def kvm_get_state_def simp del: state_code.simps\<close>)
      moreover have "kernel_evolves k k'"
        using c(1,3,4,5) kernel_invD(1) [OF c(6)] by (auto simp: kernel_evolves_def put_vm_def nth_list_update)
      ultimately show ?thesis by (auto simp: kernel_ok_def)
    next
      case (Err e)
      have "good_step k k'"
        using create_vm_Err [OF cr [unfolded Err]] .
      then show ?thesis using \<open>kernel_ok k\<close> by (simp add: good_step_def)
    qed
  next
    case False
    then show ?thesis using assms \<open>kernel_ok k\<close> by (simp add: create_vm_def)
  qed
qed

lemma init_runtime_good: "init_runtime c k = (k', r) \<Longrightarrow> good_step k k'"
  by (rule mono_good)
     (auto simp: init_runtime_def Let_def split: if_splits result.splits prod.splits
       dest: alloc_in_pool_keeps intro: keeps_refl)

subsection \<open>Runs of the manager\<close>

datatype kernel_op = KInit cpu | KCreate cpu create_request | KStart cpu u32 | KStop u32 | KDelete u32 | KNext

fun kernel_step :: "kernel_op \<Rightarrow> kernel \<Rightarrow> kernel" where
  "kernel_step (KInit c) k = fst (init_runtime c k)"
| "kernel_step (KCreate c req) k = fst (create_vm c k req)"
| "kernel_step (KStart c i) k = fst (start_vm c k i)"
| "kernel_step (KStop i) k = fst (stop_vm k i)"
| "kernel_step (KDelete i) k = fst (delete_vm k i)"
| "kernel_step KNext k = fst (next_runnable k)"

definition kernel_run :: "kernel_op list \<Rightarrow> kernel \<Rightarrow> kernel" where
  "kernel_run ops k = fold kernel_step ops k"

lemma kernel_step_good: "good_step k (kernel_step op k)"
  by (cases op) (auto intro: init_runtime_good create_vm_good start_vm_good stop_vm_good delete_vm_good next_runnable_good
      simp: prod.collapse simp del: prod.collapse intro!: prod.collapse [symmetric])

lemma kernel_run_good: "good_step k (kernel_run ops k)"
  by (induction ops arbitrary: k) (auto simp: kernel_run_def intro: good_step_trans kernel_step_good)

lemma kernel_boot_ok:
  assumes "aligned base" "unat base + POOL_BYTES \<le> 2 ^ 52"
  shows "kernel_ok (kernel_boot base)"
proof -
  have "frames_ok \<lparr>fr_base = base, fr_next = 0, fr_mem = (\<lambda>_. 0)\<rparr>" using assms by (simp add: frames_ok_def)
  then have "kernel_inv (kernel_boot base) root hpa" for root hpa
    by (simp add: kernel_inv_def kernel_boot_def apart_def MAX_VMS_def)
  then show ?thesis by (auto simp: kernel_ok_def)
qed

text \<open>
  C3. Guests of the kernel are isolated and follow the lifecycle. After any sequence of manager
  calls, with any answers of the processor, every registered VM has a VMCS that points at its own
  page tables, these tables map its guest page to one frame of the pool and map nothing else, the
  frames, table roots and VMCS regions of all VMs are different, only VMs in a terminal
  state are deleted; and as the run goes on a VM keeps its slot, tables and VMCS while its state only moves along
  created, running, and then halted, faulted or stopped for good.
\<close>

theorem kernel_vms_isolated:
  assumes "aligned base" "unat base + POOL_BYTES \<le> 2 ^ 52"
  shows "kernel_ok (kernel_run (ops @ later) (kernel_boot base)) \<and>
    kernel_evolves (kernel_run ops (kernel_boot base)) (kernel_run (ops @ later) (kernel_boot base))"
proof -
  have "kernel_ok (kernel_run ops (kernel_boot base))"
    using kernel_run_good [of "kernel_boot base" ops] kernel_boot_ok [OF assms] by (simp add: good_step_def)
  then show ?thesis using kernel_run_good [of "kernel_run ops (kernel_boot base)" later]
    by (simp add: good_step_def kernel_run_def)
qed

text \<open>A processor on which every instruction succeeds and the guest halts.\<close>

definition halting_cpu :: cpu where
  "halting_cpu = \<lparr>cpu_rdmsr = (\<lambda>_. 0), cpu_vmxon = (\<lambda>_. 2), cpu_vmclear = (\<lambda>_. 2), cpu_vmptrld = (\<lambda>_. 2),
     cpu_vmwrite = (\<lambda>_ _. 2),
     cpu_host = \<lparr>hs_cr0 = 0, hs_cr3 = 0, hs_cr4 = 0, hs_cs = 8, hs_ds = 16, hs_es = 16, hs_fs = 16, hs_gs = 16, hs_ss = 16,
       hs_tr = 24, hs_fs_base = 0, hs_gs_base = 0, hs_tr_base = 0, hs_gdtr_base = 0, hs_idtr_base = 0\<rparr>,
     cpu_trampoline = (0x2000, 0x8000), cpu_launch = GuestExit 2 12\<rparr>"

definition hlt_request :: create_request where
  "hlt_request = \<lparr>cr_blob = [0xF4], cr_guest_rip = 0x1000, cr_guest_rsp = 0\<rparr>"

theorem kernel_vms_isolated_witness:
  "kernel_ok (kernel_run ([KInit halting_cpu, KCreate halting_cpu hlt_request] @ [KStart halting_cpu 0]) (kernel_boot 0x100000))"
  using kernel_vms_isolated [of "0x100000" "[KInit halting_cpu, KCreate halting_cpu hlt_request]" "[KStart halting_cpu 0]"]
  by (simp add: aligned_def sizes)

subsection \<open>The run queue\<close>

lemma next_runnable_Some:
  assumes "next_runnable k = (k', Some i)"
  shows "k_registry k' = k_registry k" "unat i < MAX_VMS" "\<exists>vm. k_registry k ! unat i = Some vm \<and> kvm_get_state vm = VmCreated"
proof -
  let ?P = "\<lambda>i. case k_registry k ! i of None \<Rightarrow> False | Some vm \<Rightarrow> kvm_get_state vm = VmCreated"
  obtain j where j: "find ?P (map (\<lambda>offset. (unat (k_cursor k) + offset) mod MAX_VMS) [0..<MAX_VMS]) = Some j"
    "i = of_nat j" "k_registry k' = k_registry k"
    using assms by (auto simp: next_runnable_def Let_def split: option.splits)
  then have "?P j" "j < MAX_VMS" by (auto simp: find_Some_iff MAX_VMS_def)
  then show "k_registry k' = k_registry k" "unat i < MAX_VMS" "\<exists>vm. k_registry k ! unat i = Some vm \<and> kvm_get_state vm = VmCreated"
    using j(2,3) by (auto simp: unat_of_nat MAX_VMS_def split: option.splits)
qed

lemma next_runnable_None:
  assumes "next_runnable k = (k', None)" "j < MAX_VMS" "k_registry k ! j = Some vm" "unat (k_cursor k) < MAX_VMS"
  shows "kvm_get_state vm \<noteq> VmCreated"
proof -
  let ?s = "unat (k_cursor k)"
  let ?P = "\<lambda>i. case k_registry k ! i of None \<Rightarrow> False | Some vm \<Rightarrow> kvm_get_state vm = VmCreated"
  have "find ?P (map (\<lambda>offset. (?s + offset) mod MAX_VMS) [0..<MAX_VMS]) = None"
    using assms(1) by (auto simp: next_runnable_def Let_def split: option.splits)
  moreover have "\<exists>off < MAX_VMS. (?s + off) mod MAX_VMS = j"
    using assms(2,4) by (intro exI [of _ "(j + (MAX_VMS - ?s)) mod MAX_VMS"]) (simp add: MAX_VMS_def mod_add_right_eq)
  then obtain off where off: "off < MAX_VMS" "(?s + off) mod MAX_VMS = j" by auto
  ultimately have "\<not> ?P ((?s + off) mod MAX_VMS)" unfolding find_None_iff by auto
  then show ?thesis using off assms(3) by auto
qed

lemma started_vm_left_created:
  assumes "start_vm c k i = (k', Ok ())" "k_registry k ! unat i = Some vm" "length (k_registry k) = MAX_VMS"
  shows "unat i < MAX_VMS \<and> (\<exists>vm'. k_registry k' = (k_registry k)[unat i := Some vm'] \<and> kvm_get_state vm' \<noteq> VmCreated)"
proof -
  have i: "unat i < MAX_VMS" "vm_lookup k i = Ok vm"
    using assms(1,2) by (auto simp: start_vm_def vm_lookup_def split: if_splits result.splits)
  obtain k1 where s: "set_active c (unat i) vm k = (k1, Ok ())" "k_registry k1 = k_registry k" "k_active k1 = Some (unat i)"
    using assms(1) i(2) by (auto simp: start_vm_def set_active_def split: result.splits)
  obtain vm2 where m: "mark_running vm = (vm2, Ok ())"
    using assms(1) i(2) s(1) by (auto simp: start_vm_def split: result.splits prod.splits)
  then have run: "kv_state vm2 = state_code VmRunning" by (auto simp: mark_running_def kvm_transition_def split: if_splits)
  let ?k2 = "put_vm (unat i) vm2 k1"
  have reg2: "k_registry ?k2 = (k_registry k)[unat i := Some vm2]" "k_active ?k2 = Some (unat i)"
    using s(2,3) by (simp_all add: put_vm_def)
  have d: "\<exists>vm'. k_registry (fst (sched_dispatch_exit reason kind ?k2)) = (k_registry k)[unat i := Some vm'] \<and> kvm_get_state vm' \<noteq> VmCreated" for reason kind
  proof -
    have "sched_dispatch_exit reason kind ?k2 = (put_vm (unat i) (fst (on_exit reason kind vm2)) ?k2, snd (on_exit reason kind vm2))"
      using reg2 i(1) assms(3) by (simp add: sched_dispatch_exit_def split: prod.splits)
    moreover have "kvm_get_state (fst (on_exit reason kind vm2)) \<noteq> VmCreated"
      using run by (cases kind) (simp_all add: on_exit_def kvm_transition_def kvm_get_state_def del: state_code.simps)
    ultimately show ?thesis using s(2) by (auto simp: put_vm_def)
  qed
  have st: "kvm_get_state vm2 \<noteq> VmCreated" "kvm_get_state (fst (kvm_stop vm2)) \<noteq> VmCreated"
    using run by (simp_all add: kvm_get_state_def kvm_stop_def del: state_code.simps)
  have "k' = put_vm (unat i) (fst (kvm_stop vm2)) ?k2 \<or> (\<exists>fl raw. k' = vm_exit_dispatch fl raw ?k2)"
    using assms(1) i(2) s(1) m by (auto simp: start_vm_def Let_def vmlaunch_error_def split: launch.splits if_splits)
  then show ?thesis
  proof
    assume "k' = put_vm (unat i) (fst (kvm_stop vm2)) ?k2"
    then show ?thesis using i(1) st(2) s(2) by (auto simp: put_vm_def)
  next
    assume "\<exists>fl raw. k' = vm_exit_dispatch fl raw ?k2"
    then obtain fl raw where "k' = vm_exit_dispatch fl raw ?k2" by auto
    then have "k' = ?k2 \<or> (\<exists>reason kind. k' = fst (sched_dispatch_exit reason kind ?k2))"
      by (cases "read_exit fl raw") (auto simp: vm_exit_dispatch_def split: exit_kind.splits)
    then show ?thesis using i(1) st(1) d reg2(1) by auto
  qed
qed

end
