(* ===== verification/Hyper_Bridge.thy ===== *)
theory Hyper_Bridge
  imports Hyper_Vm
begin

text \<open>
  The kernel from boot to the bridge loop: the embedded guest of \<^verbatim>\<open>guest.rs\<close>, boot images and the
  staging slot of \<^verbatim>\<open>image_loader.rs\<close>, the handoff check of \<^verbatim>\<open>handoff.rs\<close>, \<^verbatim>\<open>bringup.rs\<close>, the line reader of
  \<^verbatim>\<open>serial_io.rs\<close> and the request loop of \<^verbatim>\<open>bridge.rs\<close>. The serial port is the string of bytes that
  arrive and the list of lines sent; log lines are left out. The processor may answer
  every request differently.
\<close>

subsection \<open>The embedded guest\<close>

definition GUEST_MARKER :: bytes where
  "GUEST_MARKER = [67, 101, 108, 105, 117, 109, 32, 71, 117, 101, 115, 116, 32, 65, 108, 105, 118, 101, 33, 10]"

definition BLOB_LEN :: nat where "BLOB_LEN = length GUEST_MARKER * 4 + 1"

definition build_blob :: bytes where
  "build_blob =
     (foldl (\<lambda>out i. out[i * 4 := 0xB0, i * 4 + 1 := GUEST_MARKER ! i, i * 4 + 2 := 0xE6, i * 4 + 3 := 0xE9])
        (replicate BLOB_LEN 0) [0..<length GUEST_MARKER]) [length GUEST_MARKER * 4 := 0xF4]"

definition HELLO_BLOB :: bytes where "HELLO_BLOB = build_blob"

subsection \<open>Boot images\<close>

definition MAX_IMAGE_BYTES :: nat where "MAX_IMAGE_BYTES = PAGE_SIZE"
definition GUEST_LOAD_GPA :: u64 where "GUEST_LOAD_GPA = 0x1000"

record boot_image =
  bi_blob :: bytes
  bi_entry_rip :: u64
  bi_entry_rsp :: u64
  bi_crc32c :: "u32 option"

definition from_raw_bytes :: "bytes \<Rightarrow> u64 \<Rightarrow> u64 \<Rightarrow> u32 option \<Rightarrow> boot_image hyper_result" where
  "from_raw_bytes blob entry_rip entry_rsp crc =
     (if blob = [] then Err (HInvalid ''image_loader: empty blob'')
      else if MAX_IMAGE_BYTES < length blob then Err (HInvalid ''image_loader: blob > MAX_IMAGE_BYTES (4 KiB W23-D cap)'')
      else
        let lo = GUEST_LOAD_GPA; hi = GUEST_LOAD_GPA + of_nat (length blob) in
        if entry_rip < lo \<or> hi \<le> entry_rip then Err (HInvalid ''image_loader: entry_rip outside loaded blob region'')
        else Ok \<lparr>bi_blob = blob, bi_entry_rip = entry_rip, bi_entry_rsp = entry_rsp, bi_crc32c = crc\<rparr>)"

definition HLT_FALLBACK :: bytes where "HLT_FALLBACK = [0xF4]"

definition embedded :: boot_image where
  "embedded =
     (case from_raw_bytes HELLO_BLOB GUEST_LOAD_GPA 0 None of
        Ok img \<Rightarrow> img
      | Err _ \<Rightarrow> \<lparr>bi_blob = HLT_FALLBACK, bi_entry_rip = GUEST_LOAD_GPA, bi_entry_rsp = 0, bi_crc32c = None\<rparr>)"

record handoff =
  ho_magic :: u64
  ho_version :: u32
  ho_vmx :: bool
  ho_svm :: bool
  ho_boot_image_phys :: u64
  ho_boot_image_len :: u64
  ho_boot_image_crc32c :: u32

definition HANDOFF_MAGIC :: u64 where "HANDOFF_MAGIC = 0x00004D55494C4543"
definition HANDOFF_VERSION :: u32 where "HANDOFF_VERSION = 3"

definition handoff_from_raw :: "u64 \<Rightarrow> (u64 \<Rightarrow> handoff) \<Rightarrow> handoff hyper_result" where
  "handoff_from_raw ptr rd =
     (if ptr = 0 then Err (HInvalidHandoff ''null pointer'')
      else if unat ptr mod 8 \<noteq> 0 then Err (HInvalidHandoff ''misaligned'')
      else
        let h = rd ptr in
        if ho_magic h \<noteq> HANDOFF_MAGIC then Err (HInvalidHandoff ''bad magic'')
        else if ho_version h \<noteq> HANDOFF_VERSION then Err (HInvalidHandoff ''version mismatch'')
        else Ok h)"

definition from_handoff :: "mem \<Rightarrow> handoff \<Rightarrow> boot_image option hyper_result" where
  "from_handoff m h =
     (let phys = ho_boot_image_phys h; len = ho_boot_image_len h; crc = ho_boot_image_crc32c h in
      if phys = 0 \<and> len = 0 then Ok None
      else if phys = 0 \<or> len = 0 then Err (HInvalidHandoff ''image_loader: boot_image_phys/len half-set'')
      else if MAX_IMAGE_BYTES < unat len then Err (HInvalidHandoff ''image_loader: handoff boot image > MAX_IMAGE_BYTES'')
      else
        bind_result (from_raw_bytes (map (\<lambda>i. m (phys + of_nat i)) [0..<unat len]) GUEST_LOAD_GPA 0
            (if crc = 0 then None else Some crc))
          (\<lambda>img. Ok (Some img)))"

definition from_handoff_or_embedded :: "mem \<Rightarrow> handoff \<Rightarrow> boot_image" where
  "from_handoff_or_embedded m h =
     (case from_handoff m h of Ok (Some img) \<Rightarrow> img | Ok None \<Rightarrow> embedded | Err _ \<Rightarrow> embedded)"

definition from_boot_image :: "boot_image \<Rightarrow> create_request" where
  "from_boot_image img = \<lparr>cr_blob = bi_blob img, cr_guest_rip = bi_entry_rip img, cr_guest_rsp = bi_entry_rsp img\<rparr>"

subsection \<open>The staging slot\<close>

text \<open>\<open>sg_bytes\<close> is the buffer's first \<^verbatim>\<open>len\<close> bytes; a failed decode leaves bytes behind that no one reads.\<close>

record staged_image =
  sg_bytes :: bytes
  sg_len :: nat
  sg_crc32c :: u32
  sg_present :: bool

definition staged_empty :: staged_image where
  "staged_empty = \<lparr>sg_bytes = [], sg_len = 0, sg_crc32c = 0, sg_present = False\<rparr>"

definition stage_from_hex :: "staged_image \<Rightarrow> string \<Rightarrow> u32 \<Rightarrow> u32 \<Rightarrow> staged_image \<times> unit hyper_result" where
  "stage_from_hex slot hex expected_len expected_crc =
     (let n = unat expected_len in
      if n = 0 then (slot, Err (HInvalid ''image_loader: stage len == 0''))
      else if MAX_IMAGE_BYTES < n then (slot, Err (HInvalid ''image_loader: stage len > MAX_IMAGE_BYTES''))
      else if length hex \<noteq> n * 2 then (slot, Err (HInvalid ''image_loader: stage hex len mismatch''))
      else
        let slot = slot\<lparr>sg_present := False, sg_len := 0, sg_crc32c := 0\<rparr> in
        case hex_decode hex n of
          Err e \<Rightarrow> (slot, Err e)
        | Ok bs \<Rightarrow>
            let actual_crc = crc32c bs in
            if actual_crc \<noteq> expected_crc
            then (slot\<lparr>sg_bytes := replicate n 0\<rparr>, Err (HInvalid ''image_loader: stage CRC mismatch''))
            else (slot\<lparr>sg_bytes := bs, sg_len := n, sg_crc32c := actual_crc, sg_present := True\<rparr>, Ok ()))"

definition staged_meta :: "staged_image \<Rightarrow> (u32 \<times> u32) option" where
  "staged_meta slot = (if sg_present slot then Some (of_nat (sg_len slot), sg_crc32c slot) else None)"

definition discard_staged :: "staged_image \<Rightarrow> staged_image" where
  "discard_staged slot = slot\<lparr>sg_present := False, sg_len := 0, sg_crc32c := 0\<rparr>"

definition from_staged_or_embedded :: "staged_image \<Rightarrow> u32 option \<Rightarrow> boot_image" where
  "from_staged_or_embedded slot expected_crc =
     (case expected_crc of
        None \<Rightarrow> embedded
      | Some want \<Rightarrow>
          if sg_present slot \<and> sg_crc32c slot = want then
            (case from_raw_bytes (take (sg_len slot) (sg_bytes slot)) GUEST_LOAD_GPA 0 (Some want) of
               Ok img \<Rightarrow> img
             | Err _ \<Rightarrow> embedded)
          else embedded)"

subsection \<open>The bridge\<close>

definition MAX_FRAME_BYTES :: nat where "MAX_FRAME_BYTES = 12 * 1024"
definition TX_CAP :: nat where "TX_CAP = 2048"

record extras =
  ex_image_path :: string
  ex_cpu_count :: "u32 option"
  ex_memory_mib :: "u64 option"
  ex_boot_blob_crc32c :: "u32 option"

definition extras_empty :: extras where
  "extras_empty = \<lparr>ex_image_path = [], ex_cpu_count = None, ex_memory_mib = None, ex_boot_blob_crc32c = None\<rparr>"

record bridge =
  br_kernel :: kernel
  br_labels :: "string list"
  br_extras :: "extras list"
  br_staged :: staged_image

definition bridge_new :: "kernel \<Rightarrow> bridge" where
  "bridge_new k = \<lparr>br_kernel = k, br_labels = replicate ROWS_MAX [], br_extras = replicate ROWS_MAX extras_empty, br_staged = staged_empty\<rparr>"

fun kernel_state_tag :: "kvm_state \<Rightarrow> state_tag" where
  "kernel_state_tag VmCreated = TagCreated"
| "kernel_state_tag VmRunning = TagRunning"
| "kernel_state_tag VmHalted = TagHalted"
| "kernel_state_tag VmStopped = TagStopped"
| "kernel_state_tag VmFaulted = TagFaulted"

definition remember_label :: "u32 \<Rightarrow> string \<Rightarrow> bridge \<Rightarrow> bridge \<times> unit hyper_result" where
  "remember_label i label b =
     (if ROWS_MAX \<le> unat i then (b, Err (HDenied ''bridge: VmId out of range''))
      else (case label_from_slice label of
              None \<Rightarrow> (b, Err (HInvalid ''bridge: label > 32 chars''))
            | Some buf \<Rightarrow> (b\<lparr>br_labels := (br_labels b)[unat i := buf]\<rparr>, Ok ())))"

definition forget_label :: "u32 \<Rightarrow> bridge \<Rightarrow> bridge" where
  "forget_label i b = (if unat i < ROWS_MAX then b\<lparr>br_labels := (br_labels b)[unat i := []]\<rparr> else b)"

definition remember_extras ::
  "u32 \<Rightarrow> string option \<Rightarrow> u32 option \<Rightarrow> u64 option \<Rightarrow> u32 option \<Rightarrow> bridge \<Rightarrow> bridge \<times> unit hyper_result" where
  "remember_extras i image_path cpu_count memory_mib crc b =
     (if ROWS_MAX \<le> unat i then (b, Err (HDenied ''bridge: VmId out of range''))
      else (case (case image_path of None \<Rightarrow> Some [] | Some p \<Rightarrow> image_path_from_slice p) of
              None \<Rightarrow> (b, Err (HInvalid ''bridge: image_path > 128 chars''))
            | Some p \<Rightarrow>
                (b\<lparr>br_extras := (br_extras b)[unat i := \<lparr>ex_image_path = p, ex_cpu_count = cpu_count, ex_memory_mib = memory_mib,
                    ex_boot_blob_crc32c = crc\<rparr>]\<rparr>, Ok ())))"

definition forget_extras :: "u32 \<Rightarrow> bridge \<Rightarrow> bridge" where
  "forget_extras i b = (if unat i < ROWS_MAX then b\<lparr>br_extras := (br_extras b)[unat i := extras_empty]\<rparr> else b)"

definition build_rows :: "bridge \<Rightarrow> wire_row option list" where
  "build_rows b =
     map (\<lambda>(i, entry). map_option (\<lambda>e.
        \<lparr>wr_vm_id = le_id e, wr_label = br_labels b ! i, wr_state = kernel_state_tag (le_state e), wr_last_exit = le_last_exit e,
         wr_image_path = ex_image_path (br_extras b ! i), wr_cpu_count = ex_cpu_count (br_extras b ! i),
         wr_memory_mib = ex_memory_mib (br_extras b ! i), wr_boot_blob_crc32c = ex_boot_blob_crc32c (br_extras b ! i)\<rparr>) entry)
       (enumerate 0 (fst (kernel_list_vms (br_kernel b))))"

fun error_message :: "hyper_error \<Rightarrow> string" where
  "error_message (HInvalidHandoff m) = m"
| "error_message (HUnsupportedCpu m) = m"
| "error_message (HHardware m) = m"
| "error_message (HExhausted m) = m"
| "error_message (HDenied m) = m"
| "error_message (HInvalid m) = m"
| "error_message (HUnimplemented m) = m"
| "error_message (HInternal m) = m"

text \<open>The tail of the \<^verbatim>\<open>Start\<close> and \<^verbatim>\<open>Stop\<close> arms.\<close>

definition state_reply :: "u32 \<Rightarrow> kernel \<Rightarrow> reply hyper_result" where
  "state_reply vm_id k =
     bind_result (vm_state_of k vm_id) (\<lambda>s. bind_result (vm_last_exit k vm_id) (\<lambda>x. Ok (RpState vm_id (kernel_state_tag s) x)))"

definition dispatch_create ::
  "cpu \<Rightarrow> bridge \<Rightarrow> string \<Rightarrow> string option \<Rightarrow> u32 option \<Rightarrow> u64 option \<Rightarrow> u32 option \<Rightarrow> bridge \<times> reply hyper_result" where
  "dispatch_create c b label image_path cpu_count memory_mib crc =
     (if LABEL_MAX < length label then (b, Err (HInvalid ''bridge: label > 32 chars''))
      else if (case image_path of None \<Rightarrow> False | Some p \<Rightarrow> IMAGE_PATH_MAX < length p)
        then (b, Err (HInvalid ''bridge: image_path > 128 chars''))
      else
        case create_vm c (br_kernel b) (from_boot_image (from_staged_or_embedded (br_staged b) crc)) of
          (k, Err e) \<Rightarrow> (b\<lparr>br_kernel := k\<rparr>, Err e)
        | (k, Ok i) \<Rightarrow>
            (case remember_label i label (b\<lparr>br_kernel := k\<rparr>) of
               (b, Err e) \<Rightarrow> (b, Err e)
             | (b, Ok _) \<Rightarrow>
                 (case remember_extras i image_path cpu_count memory_mib crc b of
                    (b, Err e) \<Rightarrow> (b, Err e)
                  | (b, Ok _) \<Rightarrow> (b, Ok (RpCreated i)))))"

fun dispatch :: "cpu \<Rightarrow> bridge \<Rightarrow> request \<Rightarrow> bridge \<times> reply hyper_result" where
  "dispatch c b (RqCreate label image_path cpu_count memory_mib crc) =
     dispatch_create c b label image_path cpu_count memory_mib crc"
| "dispatch c b (RqStart vm_id) =
     (case start_vm c (br_kernel b) vm_id of (k, r) \<Rightarrow> (b\<lparr>br_kernel := k\<rparr>, bind_result r (\<lambda>_. state_reply vm_id k)))"
| "dispatch c b (RqStop vm_id) =
     (case stop_vm (br_kernel b) vm_id of (k, r) \<Rightarrow> (b\<lparr>br_kernel := k\<rparr>, bind_result r (\<lambda>_. state_reply vm_id k)))"
| "dispatch c b (RqDelete vm_id) =
     (case delete_vm (br_kernel b) vm_id of
        (k, Err e) \<Rightarrow> (b\<lparr>br_kernel := k\<rparr>, Err e)
      | (k, Ok _) \<Rightarrow> (forget_extras vm_id (forget_label vm_id (b\<lparr>br_kernel := k\<rparr>)), Ok (RpDeleted vm_id)))"
| "dispatch c b RqList = (b, Ok (RpListed (build_rows b)))"
| "dispatch c b (RqImageLoad len crc hex) =
     (case stage_from_hex (br_staged b) hex len crc of
        (s, Err e) \<Rightarrow> (b\<lparr>br_staged := s\<rparr>, Err e)
      | (s, Ok _) \<Rightarrow> (b\<lparr>br_staged := s\<rparr>, Ok (RpImageLoaded len crc)))"

definition error_reply :: "hyper_error \<Rightarrow> reply" where
  "error_reply e = RpError (error_from_slice_truncating (error_message e))"

definition send_reply :: "reply \<Rightarrow> string list" where
  "send_reply r = (case encode_reply TX_CAP r of Ok line \<Rightarrow> [line] | Err _ \<Rightarrow> [])"

text \<open>One turn of the loop on a frame that fitted the buffer.\<close>

definition bridge_turn :: "cpu \<Rightarrow> bridge \<Rightarrow> string \<Rightarrow> bridge \<times> string list" where
  "bridge_turn c b frm =
     (if list_all (\<lambda>x. x = CHR '' '' \<or> x = CHR 0x09) frm then (b, [])
      else (case decode_request frm of
              Err e \<Rightarrow> (b, send_reply (error_reply e))
            | Ok req \<Rightarrow>
                (case dispatch c b req of
                   (b, Ok r) \<Rightarrow> (b, send_reply r)
                 | (b, Err e) \<Rightarrow> (b, send_reply (error_reply e)))))"

text \<open>
  \<^verbatim>\<open>read_line\<close> on the bytes that have arrived: \<^term>\<open>None\<close> while it still waits for the newline.
\<close>

fun read_line :: "nat \<Rightarrow> string \<Rightarrow> bool \<Rightarrow> string \<Rightarrow> (string hyper_result \<times> string) option" where
  "read_line cap out overflow [] = None"
| "read_line cap out overflow (x # xs) =
     (if x = CHR 0x0A then
        Some (if overflow then Err (HExhausted ''serial_io: line exceeded buffer'') else Ok out, xs)
      else if x = CHR 0x0D then read_line cap out overflow xs
      else if length out < cap then read_line cap (out @ [x]) overflow xs
      else read_line cap out True xs)"

lemma read_line_shorter: "read_line cap out ov xs = Some (r, rest) \<Longrightarrow> length rest < length xs"
  by (induction cap out ov xs rule: read_line.induct) (auto split: if_splits)

text \<open>The loop until the input is used up: the state, the lines sent and what was read of the next frame.\<close>

function bridge_run :: "(nat \<Rightarrow> cpu) \<Rightarrow> nat \<Rightarrow> bridge \<Rightarrow> string \<Rightarrow> bridge \<times> string list" where
  "bridge_run cpus n b input =
     (case read_line MAX_FRAME_BYTES [] False input of
        None \<Rightarrow> (b, [])
      | Some (Err _, rest) \<Rightarrow> bridge_run cpus (Suc n) b rest
      | Some (Ok frm, rest) \<Rightarrow>
          (case bridge_turn (cpus n) b frm of
             (b', out) \<Rightarrow> (case bridge_run cpus (Suc n) b' rest of (b'', out') \<Rightarrow> (b'', out @ out'))))"
  by pat_completeness auto
termination
  by (relation "measure (\<lambda>(_, _, _, s). length s)") (auto dest: read_line_shorter)

declare bridge_run.simps [simp del]

subsection \<open>Characters of a decoded request\<close>

text \<open>Whatever holds of every byte of a frame holds of the strings decoded from it.\<close>

definition fields_all :: "(char \<Rightarrow> bool) \<Rightarrow> wire_fields \<Rightarrow> bool" where
  "fields_all Q f \<longleftrightarrow> pred_option (list_all Q) (wf_label f) \<and> pred_option (list_all Q) (wf_image_path f)"

lemma list_all_dropWhile: "list_all Q s \<Longrightarrow> list_all Q (dropWhile P s)"
  by (induction s) auto

lemma list_all_skip_ws: "list_all Q s \<Longrightarrow> list_all Q (skip_ws s)"
  by (simp add: skip_ws_def list_all_dropWhile)

lemma list_all_expect: "expect c s = Ok r \<Longrightarrow> list_all Q s \<Longrightarrow> list_all Q r"
  by (auto simp: expect_def split: list.splits if_splits)

lemma list_all_string_body: "string_body s = Ok (v, r) \<Longrightarrow> list_all Q s \<Longrightarrow> list_all Q v \<and> list_all Q r"
  by (induction s arbitrary: v r) (auto simp: bind_result_eq_Ok split: if_splits)

lemma list_all_sc_string: "sc_string s = Ok (v, r) \<Longrightarrow> list_all Q s \<Longrightarrow> list_all Q v \<and> list_all Q r"
  using list_all_expect list_all_string_body by (fastforce simp: sc_string_def bind_result_eq_Ok)

lemma list_all_number:
  "u32_value s = Ok (n, r) \<Longrightarrow> list_all Q s \<Longrightarrow> list_all Q r" "u64_value s = Ok (m, r) \<Longrightarrow> list_all Q s \<Longrightarrow> list_all Q r"
  by (auto simp: u32_value_def u64_value_def sc_number_def Let_def bind_result_eq_Ok list_all_dropWhile split: if_splits option.splits)

lemma list_all_null: "list_all Q s \<Longrightarrow> try_consume_null s = (x, r) \<Longrightarrow> list_all Q r"
  by (auto simp: try_consume_null_def list_all_iff dest: in_set_dropD split: if_splits)

lemma list_all_nullable:
  "nullable sc_string s = Ok (v, r) \<Longrightarrow> list_all Q s \<Longrightarrow> pred_option (list_all Q) v \<and> list_all Q r"
  "nullable u32_value s = Ok (n, r) \<Longrightarrow> list_all Q s \<Longrightarrow> list_all Q r"
  "nullable u64_value s = Ok (m, r) \<Longrightarrow> list_all Q s \<Longrightarrow> list_all Q r"
  by (auto simp: nullable_def bind_result_eq_Ok split: prod.splits bool.splits
      dest: list_all_null list_all_sc_string list_all_number)

lemma list_all_skip_nested: "skip_nested op cl d s = Ok r \<Longrightarrow> list_all Q s \<Longrightarrow> list_all Q r"
proof (induction op cl d s rule: skip_nested.induct)
  case (1 op cl depth s)
  show ?case
  proof (cases "depth = 0")
    case True
    then show ?thesis using 1(5,6) by (simp add: skip_nested.simps [of op cl 0 s])
  next
    case False
    with 1(5) obtain b u where b: "skip_ws s = b # u" by (auto simp: skip_nested.simps [of op cl depth s] split: list.splits)
    have bu: "list_all Q (b # u)" using list_all_skip_ws [OF 1(6)] b by simp
    show ?thesis
    proof (cases "b = dquote")
      case True
      with 1(5) False b obtain v t where t: "sc_string (b # u) = Ok (v, t)" "skip_nested op cl depth t = Ok r"
        by (auto simp: skip_nested.simps [of op cl depth s] split: result.splits)
      from 1(1) [OF False b True t(1) refl t(2)] list_all_sc_string [OF t(1) bu] show ?thesis by simp
    next
      case nq: False
      from 1(5) False b nq have rec: "skip_nested op cl (if b = op then depth + 1 else if b = cl then depth - 1 else depth) u = Ok r"
        by (auto simp: skip_nested.simps [of op cl depth s])
      then show ?thesis using 1(2) [OF False b nq] 1(3) [OF False b nq] 1(4) [OF False b nq] bu by (auto split: if_splits)
    qed
  qed
qed

lemma list_all_skip_value:
  assumes "skip_value s = Ok r" "list_all Q s"
  shows "list_all Q r"
proof -
  obtain b u where b: "skip_ws s = b # u" using assms by (auto simp: skip_value_def split: list.splits)
  have bu: "list_all Q (b # u)" using list_all_skip_ws [OF assms(2)] b by simp
  then show ?thesis using assms(1) list_all_dropWhile [OF bu, of "\<lambda>b. \<not> value_end b"]
    by (auto simp: skip_value_def b bind_result_eq_Ok simp del: dropWhile.simps
        dest: list_all_sc_string list_all_skip_nested split: if_splits)
qed

lemma list_all_field_value:
  assumes "field_value key f s = Ok (f', r)" "list_all Q s" "fields_all Q f"
  shows "fields_all Q f' \<and> list_all Q r"
proof -
  have s: "list_all Q (skip_ws s)" using list_all_skip_ws [OF assms(2)] .
  show ?thesis
    using assms(1,3)
    by (auto simp: field_value_def fields_all_def bind_result_eq_Ok split: if_splits
        dest!: list_all_sc_string [OF _ s] list_all_number [OF _ s] list_all_nullable [OF _ s] list_all_skip_value [OF _ assms(2)])
qed

lemma list_all_one_field:
  assumes "one_field f s = Ok (f', r)" "list_all Q s" "fields_all Q f"
  shows "fields_all Q f' \<and> list_all Q r"
proof -
  obtain key t u where "sc_string s = Ok (key, t)" "expect (CHR '':'') (skip_ws t) = Ok u" "field_value key f u = Ok (f', r)"
    using assms(1) by (auto simp: one_field_def bind_result_eq_Ok)
  then show ?thesis
    using list_all_sc_string assms(2,3) list_all_expect list_all_skip_ws list_all_field_value by metis
qed

lemma list_all_fields_loop:
  "fields_loop f s = Ok (f', r) \<Longrightarrow> list_all Q s \<Longrightarrow> fields_all Q f \<Longrightarrow> fields_all Q f'"
proof (induction f s rule: fields_loop.induct)
  case (1 f s)
  show ?case
  proof (cases "take 1 (skip_ws s) = ''}'' \<or> \<not> is_ok (one_field f (skip_ws s))")
    case True
    with 1(2,4) show ?thesis by (cases "one_field f (skip_ws s)") (auto simp: fields_loop.simps [of f s] Let_def split: if_splits)
  next
    case False
    then obtain g t where g: "one_field f (skip_ws s) = Ok (g, t)" "take 1 (skip_ws s) \<noteq> ''}''" by (auto simp: is_ok_iff)
    with 1(2) have "f' = g \<or> fields_loop g (drop 1 (skip_ws t)) = Ok (f', r) \<and> take 1 (skip_ws t) = '',''"
      by (auto simp: fields_loop.simps [of f s] Let_def bind_result_eq_Ok split: if_splits)
    moreover have gt: "fields_all Q g" "list_all Q (drop 1 (skip_ws t))"
      using list_all_one_field [OF g(1) list_all_skip_ws [OF 1(3)] 1(4)]
      by (auto simp: list_all_iff dest: in_set_dropD) (metis in_set_dropD list_all_iff list_all_skip_ws)
    ultimately show ?thesis using 1(1) [OF refl g(2,1) refl refl] by auto
  qed
qed

lemma decode_request_chars:
  assumes "decode_request frm = Ok (RqCreate l p c m b)" "list_all Q frm"
  shows "list_all Q l \<and> pred_option (list_all Q) p"
proof -
  from assms(1) obtain s f t where f: "expect (CHR ''{'') frm = Ok s" "fields_loop no_fields s = Ok (f, t)" "build_request f = Ok (RqCreate l p c m b)"
    by (auto simp: decode_request_def bind_result_eq_Ok split: if_splits)
  then have "fields_all Q f"
    using list_all_expect [OF f(1) assms(2)] by (intro list_all_fields_loop [OF f(2)]) (simp_all add: fields_all_def no_fields_def)
  then show ?thesis using f(3)
    by (auto simp: build_request_def need_def bind_result_eq_Ok fields_all_def split: if_splits)
qed

subsection \<open>One line in, one line out\<close>

abbreviation nl :: char where "nl \<equiv> CHR 0x0A"

lemma read_line_line:
  assumes "nl \<notin> set line" "length out \<le> cap"
  shows "read_line cap out ov (line @ nl # rest) =
    Some (let body = out @ filter (\<lambda>x. x \<noteq> CHR 0x0D) line in
      if ov \<or> cap < length body then Err (HExhausted ''serial_io: line exceeded buffer'') else Ok body, rest)"
  using assms
proof (induction line arbitrary: out ov)
  case (Cons x line)
  consider "x = CHR 0x0D" | "x \<noteq> CHR 0x0D" "length out < cap" | "x \<noteq> CHR 0x0D" "length out = cap"
    using Cons.prems(2) by linarith
  then show ?case
  proof cases
    case 3
    with Cons.IH [of out True] Cons.prems show ?thesis by (auto simp: Let_def)
  qed (use Cons in \<open>auto simp: Let_def\<close>)
qed (simp add: Let_def)

fun reply_line_ok :: "reply \<Rightarrow> bool" where
  "reply_line_ok (RpListed rows) \<longleftrightarrow> length rows \<le> ROWS_MAX \<and>
     (\<forall>r. Some r \<in> set rows \<longrightarrow> wire_row_ok r \<and> nl \<notin> set (wr_label r) \<and> nl \<notin> set (wr_image_path r))"
| "reply_line_ok (RpError m) \<longleftrightarrow> length m \<le> ERROR_MSG_MAX"
| "reply_line_ok _ \<longleftrightarrow> True"

lemma reply_line_fits: "reply_line_ok r \<Longrightarrow> reply_ok r"
  by (cases r) auto

lemma nl_digits [simp]: "nl \<notin> set (dec_digits n)"
  by (simp add: dec_digits_show show_nat_notin is_digit_char_def)

lemma nl_tag [simp]: "nl \<notin> set (tag_str t)"
  by (cases t) simp_all

lemma nl_opt [simp]: "nl \<notin> set k \<Longrightarrow> nl \<notin> set (concat (opt_part k v))"
  by (cases v) (auto simp: opt_part_def jkey_def jstr_def)

lemma nl_row:
  assumes "nl \<notin> set (wr_label r)" "nl \<notin> set (wr_image_path r)"
  shows "nl \<notin> set (concat (row_parts r))"
proof -
  have "nl \<notin> set (concat (opt_part ''last_exit'' v))" "nl \<notin> set (concat (opt_part ''cpu_count'' v))"
    "nl \<notin> set (concat (opt_part ''memory_mib'' v))" "nl \<notin> set (concat (opt_part ''boot_blob_crc32c'' v))" for v
    by (rule nl_opt; simp)+
  with assms show ?thesis by (simp add: row_parts_def jkey_def jstr_def)
qed

lemma nl_rows:
  "(\<And>r. r \<in> set rs \<Longrightarrow> nl \<notin> set (wr_label r) \<and> nl \<notin> set (wr_image_path r)) \<Longrightarrow> nl \<notin> set (concat (rows_parts b rs))"
proof (induction b rs rule: rows_parts.induct)
  case (2 b r rs)
  then have "nl \<notin> set (concat (row_parts r))" "nl \<notin> set (concat (rows_parts False rs))" using nl_row [of r] by auto
  then show ?case by simp
qed simp

lemma nl_escape: "nl \<notin> set (concat (concat (map escape_byte m)))"
  by (induction m) (auto simp: escape_byte_def)

lemma nl_reply:
  assumes "reply_line_ok r"
  shows "nl \<notin> set (concat (reply_parts r))"
proof (cases r)
  case (RpListed rows)
  have "nl \<notin> set (concat (rows_parts True (List.map_filter id rows)))"
    using assms RpListed by (intro nl_rows) (simp add: map_filter_id)
  then show ?thesis by (simp add: RpListed jkey_def jstr_def)
next
  case (RpError m)
  then show ?thesis using nl_escape [of m] by (simp add: jkey_def jstr_def)
next
  case (RpState v t x)
  have "nl \<notin> set (concat (opt_part ''last_exit'' (map_option unat x)))" by (rule nl_opt) simp
  then show ?thesis by (simp add: RpState jkey_def jstr_def)
qed (simp_all add: jkey_def jstr_def)

definition is_reply_line :: "string \<Rightarrow> bool" where
  "is_reply_line x \<longleftrightarrow> (\<exists>l. x = l @ [nl] \<and> nl \<notin> set l) \<and> length x \<le> 1438"

lemma send_reply_line:
  assumes "reply_line_ok r"
  shows "\<exists>x. send_reply r = [x] \<and> is_reply_line x"
  using reply_fits [OF reply_line_fits [OF assms]] nl_reply [OF assms]
  by (simp add: send_reply_def encode_reply_eq TX_CAP_def is_reply_line_def)

lemma error_reply_line: "reply_line_ok (error_reply e)"
  by (simp add: error_reply_def error_from_slice_truncating_def Let_def ERROR_MSG_MAX_def)

subsection \<open>The invariant of the bridge\<close>

definition staged_ok :: "staged_image \<Rightarrow> bool" where
  "staged_ok s \<longleftrightarrow> (sg_present s \<longrightarrow> sg_bytes s \<noteq> [] \<and> length (sg_bytes s) = sg_len s \<and> sg_len s \<le> MAX_IMAGE_BYTES \<and>
     crc32c (sg_bytes s) = sg_crc32c s)"

definition label_line :: "string \<Rightarrow> bool" where
  "label_line l \<longleftrightarrow> length l \<le> LABEL_MAX \<and> nl \<notin> set l"

definition path_line :: "string \<Rightarrow> bool" where
  "path_line p \<longleftrightarrow> length p \<le> IMAGE_PATH_MAX \<and> nl \<notin> set p"

definition bridge_ok :: "bridge \<Rightarrow> bool" where
  "bridge_ok b \<longleftrightarrow> kernel_ok (br_kernel b) \<and> length (br_labels b) = ROWS_MAX \<and> length (br_extras b) = ROWS_MAX \<and>
     list_all label_line (br_labels b) \<and> list_all (\<lambda>e. path_line (ex_image_path e)) (br_extras b) \<and> staged_ok (br_staged b)"

lemma bridge_kernel_step: "bridge_ok b \<Longrightarrow> good_step (br_kernel b) k \<Longrightarrow> bridge_ok (b\<lparr>br_kernel := k\<rparr>)"
  by (simp add: bridge_ok_def good_step_def)

lemma list_all_update: "list_all P xs \<Longrightarrow> P x \<Longrightarrow> list_all P (xs[i := x])"
  by (auto simp: list_all_iff dest: set_update_subset_insert [THEN subsetD])

lemma hex_loop_length: "hex_loop s = Ok bs \<Longrightarrow> length bs = length s div 2"
  by (induction s arbitrary: bs rule: hex_loop.induct) (auto simp: bind_result_eq_Ok)

lemma stage_ok:
  assumes "staged_ok s" "stage_from_hex s hex len crc = (s', r)"
  shows "staged_ok s'"
    and "r = Ok () \<Longrightarrow> sg_present s' \<and> sg_crc32c s' = crc \<and> hex_decode hex (unat len) = Ok (sg_bytes s')"
    and "r = Err (HInvalid ''image_loader: stage CRC mismatch'') \<Longrightarrow> \<not> sg_present s'"
  using assms hex_loop_length [of hex]
  by (auto simp: stage_from_hex_def Let_def hex_decode_def staged_ok_def split: if_splits result.splits)

lemma remember_label_ok:
  "bridge_ok b \<Longrightarrow> nl \<notin> set l \<Longrightarrow> remember_label i l b = (b', r) \<Longrightarrow> bridge_ok b' \<and> br_kernel b' = br_kernel b"
  by (auto simp: remember_label_def label_from_slice_def bridge_ok_def label_line_def intro!: list_all_update split: if_splits)

lemma remember_extras_ok:
  "bridge_ok b \<Longrightarrow> pred_option (\<lambda>p. nl \<notin> set p) p \<Longrightarrow> remember_extras i p cc mm crc b = (b', r) \<Longrightarrow> bridge_ok b' \<and> br_kernel b' = br_kernel b"
  by (auto simp: remember_extras_def image_path_from_slice_def bridge_ok_def path_line_def intro!: list_all_update
      split: if_splits option.splits)

lemma forget_ok: "bridge_ok b \<Longrightarrow> bridge_ok (forget_extras i (forget_label i b))"
  by (auto simp: forget_extras_def forget_label_def bridge_ok_def label_line_def path_line_def extras_empty_def intro!: list_all_update)

lemma kernel_registry_length: "kernel_ok k \<Longrightarrow> length (k_registry k) = MAX_VMS"
  by (auto simp: kernel_ok_def dest: kernel_invD(1))

lemma build_rows_line:
  assumes "bridge_ok b"
  shows "reply_line_ok (RpListed (build_rows b))"
proof -
  have len: "length (fst (kernel_list_vms (br_kernel b))) = ROWS_MAX"
    using kernel_registry_length assms by (simp add: kernel_list_vms_def bridge_ok_def Let_def MAX_VMS_def ROWS_MAX_def)
  have "wire_row_ok r \<and> nl \<notin> set (wr_label r) \<and> nl \<notin> set (wr_image_path r)" if H: "Some r \<in> set (build_rows b)" for r
  proof -
    obtain i where i: "i < ROWS_MAX" "wr_label r = br_labels b ! i" "wr_image_path r = ex_image_path (br_extras b ! i)"
      using H len by (auto simp: build_rows_def in_set_enumerate_eq map_option_eq_Some eq_commute [of "Some r"])
    then have "label_line (wr_label r)" "path_line (wr_image_path r)"
      using assms by (auto simp: bridge_ok_def list_all_length)
    then show ?thesis by (simp add: wire_row_ok_def label_line_def path_line_def)
  qed
  then show ?thesis using len by (simp add: build_rows_def)
qed

lemma state_reply_line: "state_reply i k = Ok r \<Longrightarrow> reply_line_ok r"
  by (auto simp: state_reply_def bind_result_eq_Ok)

lemma dispatch_create_ok:
  assumes b: "bridge_ok b" and l: "nl \<notin> set l" and p: "pred_option (\<lambda>p. nl \<notin> set p) p"
    and d: "dispatch_create c b l p cc mm crc = (b', r)"
  shows "bridge_ok b' \<and> (\<forall>x. r = Ok x \<longrightarrow> reply_line_ok x)"
proof -
  let ?req = "from_boot_image (from_staged_or_embedded (br_staged b) crc)"
  obtain k r1 where c: "create_vm c (br_kernel b) ?req = (k, r1)" by (cases "create_vm c (br_kernel b) ?req")
  have ok1: "bridge_ok (b\<lparr>br_kernel := k\<rparr>)" using bridge_kernel_step [OF b create_vm_good [OF c]] .
  show ?thesis
  proof (cases r1)
    case (Ok i)
    obtain b2 r2 where r2: "remember_label i l (b\<lparr>br_kernel := k\<rparr>) = (b2, r2)" by (cases "remember_label i l (b\<lparr>br_kernel := k\<rparr>)")
    obtain b3 r3 where r3: "remember_extras i p cc mm crc b2 = (b3, r3)" by (cases "remember_extras i p cc mm crc b2")
    have "bridge_ok b2" "bridge_ok b3"
      using remember_label_ok [OF ok1 l r2] remember_extras_ok [OF _ p r3] by auto
    then show ?thesis using d b c Ok r2 r3 by (auto simp: dispatch_create_def split: if_splits result.splits)
  qed (use d b c ok1 in \<open>auto simp: dispatch_create_def split: if_splits\<close>)
qed

lemma dispatch_ok:
  assumes "bridge_ok b" "dispatch c b req = (b', r)"
    and "\<And>l p cc mm crc. req = RqCreate l p cc mm crc \<Longrightarrow> nl \<notin> set l \<and> pred_option (\<lambda>p. nl \<notin> set p) p"
  shows "bridge_ok b' \<and> (\<forall>x. r = Ok x \<longrightarrow> reply_line_ok x)"
proof (cases req)
  case (RqCreate l p cc mm crc)
  then show ?thesis using dispatch_create_ok [OF assms(1), of l p] assms(2,3) by (metis dispatch.simps(1))
next
  case (RqStart i)
  then show ?thesis using assms(1,2)
    by (auto simp: bind_result_eq_Ok intro!: bridge_kernel_step start_vm_good dest: state_reply_line split: prod.splits)
next
  case (RqStop i)
  then show ?thesis using assms(1,2)
    by (auto simp: bind_result_eq_Ok intro!: bridge_kernel_step stop_vm_good dest: state_reply_line split: prod.splits)
next
  case (RqDelete i)
  then show ?thesis using assms(1,2)
    by (auto intro!: forget_ok bridge_kernel_step delete_vm_good split: prod.splits result.splits)
next
  case RqList
  then show ?thesis using assms(1,2) build_rows_line by auto
next
  case (RqImageLoad len crc hex)
  obtain s r1 where s: "stage_from_hex (br_staged b) hex len crc = (s, r1)" by (cases "stage_from_hex (br_staged b) hex len crc")
  have "staged_ok s" using stage_ok(1) [OF _ s] assms(1) by (simp add: bridge_ok_def)
  then show ?thesis using assms(1,2) RqImageLoad s by (cases r1) (auto simp: bridge_ok_def)
qed

definition blank :: "string \<Rightarrow> bool" where
  "blank frm \<longleftrightarrow> list_all (\<lambda>x. x = CHR '' '' \<or> x = CHR 0x09) frm"

lemma bridge_turn_ok:
  assumes "bridge_ok b" "nl \<notin> set frm" "bridge_turn c b frm = (b', out)"
  shows "bridge_ok b' \<and> (if blank frm then b' = b \<and> out = [] else \<exists>x. out = [x] \<and> is_reply_line x)"
proof (cases "blank frm")
  case False
  show ?thesis
  proof (cases "decode_request frm")
    case (Err e)
    then show ?thesis using assms False send_reply_line [OF error_reply_line] by (auto simp: bridge_turn_def blank_def)
  next
    case (Ok req)
    obtain b1 r where d: "dispatch c b req = (b1, r)" by (cases "dispatch c b req")
    have "nl \<notin> set l \<and> pred_option (\<lambda>p. nl \<notin> set p) p" if "req = RqCreate l p cc mm crc" for l p cc mm crc
      using decode_request_chars [of frm l p cc mm crc "\<lambda>x. x \<noteq> nl"] Ok that assms(2)
      by (auto simp: list_all_iff pred_option_def)
    then have "bridge_ok b1 \<and> (\<forall>x. r = Ok x \<longrightarrow> reply_line_ok x)" using dispatch_ok [OF assms(1) d] by blast
    then show ?thesis using assms(3) False Ok d send_reply_line [OF error_reply_line] send_reply_line
      by (cases r) (fastforce simp: bridge_turn_def blank_def)+
  qed
qed (use assms in \<open>auto simp: bridge_turn_def blank_def\<close>)

subsection \<open>The loop\<close>

definition frame_of_line :: "string \<Rightarrow> string" where
  "frame_of_line l = filter (\<lambda>x. x \<noteq> CHR 0x0D) l"

definition answered :: "string \<Rightarrow> bool" where
  "answered l \<longleftrightarrow> length (frame_of_line l) \<le> MAX_FRAME_BYTES \<and> \<not> blank (frame_of_line l)"

lemma bridge_run_line:
  assumes "bridge_ok b" "nl \<notin> set l"
  shows "\<exists>b' out. bridge_run cpus n b (l @ nl # rest) =
      (fst (bridge_run cpus (Suc n) b' rest), out @ snd (bridge_run cpus (Suc n) b' rest)) \<and>
    bridge_ok b' \<and> (if answered l then \<exists>x. out = [x] \<and> is_reply_line x else b' = b \<and> out = [])"
proof (cases "length (frame_of_line l) \<le> MAX_FRAME_BYTES")
  case True
  obtain b' out where t: "bridge_turn (cpus n) b (frame_of_line l) = (b', out)" by (cases "bridge_turn (cpus n) b (frame_of_line l)")
  have "nl \<notin> set (frame_of_line l)" using assms(2) by (simp add: frame_of_line_def)
  from bridge_turn_ok [OF assms(1) this t] True show ?thesis
    using t read_line_line [OF assms(2), of "[]" MAX_FRAME_BYTES False rest]
    by (intro exI [of _ b'] exI [of _ out])
       (auto simp: bridge_run.simps [of cpus n b] frame_of_line_def [symmetric] answered_def split: prod.splits if_splits)
next
  case False
  then show ?thesis using assms read_line_line [OF assms(2), of "[]" MAX_FRAME_BYTES False rest]
    by (intro exI [of _ b] exI [of _ "[]"])
       (auto simp: bridge_run.simps [of cpus n b] frame_of_line_def [symmetric] answered_def)
qed


lemma bridge_new_ok: "kernel_ok k \<Longrightarrow> bridge_ok (bridge_new k)"
  by (simp add: bridge_ok_def bridge_new_def list_all_length label_line_def path_line_def extras_empty_def staged_ok_def staged_empty_def)


subsection \<open>Which image a guest runs\<close>

lemma length_build_blob: "length build_blob = BLOB_LEN"
proof -
  have "length (foldl (\<lambda>out i. out[i * 4 := 0xB0, i * 4 + 1 := GUEST_MARKER ! i, i * 4 + 2 := 0xE6, i * 4 + 3 := 0xE9]) xs is) = length xs" for xs "is"
    by (induction "is" arbitrary: xs) simp_all
  then show ?thesis by (simp add: build_blob_def)
qed

lemma embedded_eq: "embedded = \<lparr>bi_blob = HELLO_BLOB, bi_entry_rip = 0x1000, bi_entry_rsp = 0, bi_crc32c = None\<rparr>"
proof -
  have len: "length HELLO_BLOB = 81" by (simp add: HELLO_BLOB_def length_build_blob BLOB_LEN_def GUEST_MARKER_def)
  then have "HELLO_BLOB \<noteq> []" by auto
  with len show ?thesis
    by (simp add: embedded_def from_raw_bytes_def MAX_IMAGE_BYTES_def PAGE_SIZE_def GUEST_LOAD_GPA_def Let_def word_less_nat_alt word_le_nat_alt)
qed

lemma raw_image_Ok:
  assumes "blob \<noteq> []" "length blob \<le> MAX_IMAGE_BYTES"
  shows "from_raw_bytes blob GUEST_LOAD_GPA 0 crc = Ok \<lparr>bi_blob = blob, bi_entry_rip = GUEST_LOAD_GPA, bi_entry_rsp = 0, bi_crc32c = crc\<rparr>"
proof -
  have "unat (0x1000 + of_nat (length blob) :: u64) = 0x1000 + length blob"
    using assms(2) by (simp add: unat_word_ariths unat_of_nat MAX_IMAGE_BYTES_def PAGE_SIZE_def)
  then show ?thesis using assms
    by (simp add: from_raw_bytes_def GUEST_LOAD_GPA_def Let_def word_le_nat_alt not_less)
qed

lemma staged_choice:
  assumes "staged_ok s"
  shows "bi_blob (from_staged_or_embedded s crc) =
      (if sg_present s \<and> crc = Some (sg_crc32c s) then sg_bytes s else HELLO_BLOB)"
    and "bi_entry_rip (from_staged_or_embedded s crc) = 0x1000"
  using assms raw_image_Ok [of "sg_bytes s"]
  by (auto simp: from_staged_or_embedded_def embedded_eq staged_ok_def GUEST_LOAD_GPA_def split: option.splits)

text \<open>The VM a successful create registers.\<close>

definition runs_image :: "kernel \<Rightarrow> u32 \<Rightarrow> bytes \<Rightarrow> bool" where
  "runs_image k i blob \<longleftrightarrow> unat i < MAX_VMS \<and> (\<exists>vm root hpa. k_registry k ! unat i = Some vm \<and> kvm_get_state vm = VmCreated \<and>
     kv_eptp vm = eptp root \<and> guest_at (k_frames k) root hpa blob \<and>
     k_vmcs k (kv_vmcs_pa vm) EPT_POINTER = Some (eptp root) \<and> k_vmcs k (kv_vmcs_pa vm) GUEST_RIP = Some 0x1000)"

lemma create_vm_runs:
  assumes "kernel_ok k" "create_vm c k req = (k', Ok i)" "cr_guest_rip req = 0x1000"
  shows "runs_image k' i (cr_blob req)"
proof -
  obtain root hpa where inv: "kernel_inv k root hpa" using assms(1) by (auto simp: kernel_ok_def)
  have "create_vm_with c k req = (k', Ok i)" using assms(2) by (auto simp: create_vm_def split: if_splits)
  from create_vm_OkE [OF this inv] obtain s ept pa k2 hp where c: "s < MAX_VMS" "i = of_nat s"
    "k' = put_vm s (kvm_new i pa (eptp ept)) k2" "kernel_inv k2 root hpa" "vm_ok k2 s (kvm_new i pa (eptp ept)) ept hp"
    "guest_at (k_frames k2) ept hp (cr_blob req)" "k_vmcs k2 pa GUEST_RIP = Some (cr_guest_rip req)" .
  have i: "unat i = s" using c(1,2) by (simp add: unat_of_nat MAX_VMS_def)
  have "k_registry k' ! s = Some (kvm_new i pa (eptp ept))" "k_frames k' = k_frames k2" "k_vmcs k' = k_vmcs k2"
    using c(1,3) kernel_invD(1) [OF c(4)] by (simp_all add: put_vm_def)
  moreover have "kvm_get_state (kvm_new i pa (eptp ept)) = VmCreated"
    by (simp add: kvm_new_def kvm_get_state_def del: state_code.simps)
  ultimately show ?thesis
    using c(1,5-7) i assms(3) unfolding runs_image_def by (auto simp: vm_ok_def kvm_new_def)
qed

lemma dispatch_create_runs:
  assumes "bridge_ok b" "dispatch c b (RqCreate l p cc mm crc) = (b', Ok (RpCreated i))"
  shows "runs_image (br_kernel b') i
      (if sg_present (br_staged b) \<and> crc = Some (sg_crc32c (br_staged b)) then sg_bytes (br_staged b) else HELLO_BLOB) \<and>
    br_labels b' ! unat i = l"
proof -
  let ?req = "from_boot_image (from_staged_or_embedded (br_staged b) crc)"
  obtain k b2 where s: "create_vm c (br_kernel b) ?req = (k, Ok i)" "remember_label i l (b\<lparr>br_kernel := k\<rparr>) = (b2, Ok ())"
    "remember_extras i p cc mm crc b2 = (b', Ok ())"
    using assms(2) by (auto simp: dispatch_create_def split: if_splits prod.splits result.splits)
  have st: "staged_ok (br_staged b)" and len: "length (br_labels b) = ROWS_MAX" using assms(1) by (simp_all add: bridge_ok_def)
  have "br_kernel b' = k" "br_labels b' ! unat i = l"
    using s(2,3) len
    by (auto simp: remember_label_def remember_extras_def label_from_slice_def split: if_splits option.splits)
  moreover have "runs_image k i (cr_blob ?req)"
    using assms(1) staged_choice(2) [OF st] by (intro create_vm_runs [OF _ s(1)]) (simp_all add: bridge_ok_def from_boot_image_def)
  ultimately show ?thesis using staged_choice(1) [OF st] by (simp add: from_boot_image_def)
qed

text \<open>Creation succeeds when a slot and six frames are free and the processor does not object.\<close>

definition willing_cpu :: "cpu \<Rightarrow> bool" where
  "willing_cpu c \<longleftrightarrow> is_ok (revision_id c) \<and> (\<forall>a. is_ok (vmclear c a) \<and> is_ok (vmptrld c a)) \<and>
     (\<forall>f x. is_ok (check_vmx_status (cpu_vmwrite c f x)))"

lemma vmwrites_willing: "(\<And>f x. is_ok (check_vmx_status (cpu_vmwrite c f x))) \<Longrightarrow> \<exists>v'. vmwrites c ws v = (v', Ok ())"
proof (induction ws arbitrary: v)
  case (Cons w ws)
  obtain f x where w: "w = (f, x)" by (cases w)
  have "check_vmx_status (cpu_vmwrite c f x) = Ok ()" using Cons.prems [of f x] by (simp add: is_ok_iff)
  then show ?case using Cons w by simp
qed simp

lemma alloc_in_pool_total: "fr_next fr + PAGE_SIZE \<le> POOL_BYTES \<Longrightarrow> \<exists>fr' pa. alloc_in_pool fr n = (fr', Ok pa)"
  by (simp add: alloc_in_pool_def alloc_zeroed_def Let_def POOL_BYTES_def)

lemma program_vmcs_total:
  assumes "willing_cpu c" "fr_next (k_frames k) + PAGE_SIZE \<le> POOL_BYTES"
  shows "\<exists>k' pa. program_vmcs c k req ep = (k', Ok pa)"
proof -
  obtain n where n: "revision_id c = Ok n" using assms(1) by (auto simp: willing_cpu_def is_ok_iff)
  obtain fr pa where fr: "alloc_in_pool (k_frames k) n = (fr, Ok pa)" using alloc_in_pool_total [OF assms(2)] by blast
  have cl: "vmclear c pa = Ok ()" "vmptrld c pa = Ok ()" using assms(1) by (auto simp: willing_cpu_def is_ok_iff)
  have w: "\<exists>v'. vmwrites c ws v = (v', Ok ())" for ws v using assms(1) by (intro vmwrites_willing) (simp add: willing_cpu_def)
  obtain v where v: "write_host_state c (cpu_host c) (fst (cpu_trampoline c)) (snd (cpu_trampoline c)) (k_vmcs k pa) = (v, Ok ())"
    using w unfolding write_host_state_def by blast
  obtain v' where "write_vmcs c \<lparr>lp_eptp = ep, lp_guest_rip = cr_guest_rip req, lp_guest_rsp = cr_guest_rsp req\<rparr> v = (v', Ok ())"
    using w unfolding write_vmcs_def by blast
  with n fr cl v show ?thesis by (simp add: program_vmcs_def Let_def)
qed

lemma walk_alloc_next:
  "walk_alloc alloc_zeroed read_entry write_entry gpa l table f = (f', r) \<Longrightarrow> fr_next f' \<le> fr_next f + l * PAGE_SIZE"
proof (induction l arbitrary: table f)
  case (Suc l)
  show ?case
  proof (cases "entry_is_present (read_entry f table (ept_index gpa (Suc l)))")
    case True
    then have "fr_next f' \<le> fr_next f + l * PAGE_SIZE" using Suc.prems by (intro Suc.IH) (simp add: Let_def)
    then show ?thesis by simp
  next
    case False
    obtain f1 r1 where a: "alloc_zeroed f = (f1, r1)" by (cases "alloc_zeroed f")
    then show ?thesis using Suc.prems False alloc_next [OF a]
      by (cases r1) (auto simp: Let_def dest!: Suc.IH)
  qed
qed simp

lemma map_4k_next:
  "map_4k alloc_zeroed read_entry write_entry pml4 f gpa hpa fl = (f', r) \<Longrightarrow> fr_next f' \<le> fr_next f + 3 * PAGE_SIZE"
  by (auto simp: map_4k_def split: if_splits prod.splits result.splits dest: walk_alloc_next)

lemma install_next:
  assumes "install_first_guest fr blob = (fr', Ok root)"
  shows "fr_next fr' \<le> fr_next fr + 5 * PAGE_SIZE"
proof -
  obtain fr1 r1 fr2 r2 where a: "alloc_zeroed fr = (fr1, r1)" "alloc_zeroed fr1 = (fr2, r2)" by (metis surj_pair)
  then obtain hpa r3 where "map_4k alloc_zeroed read_entry write_entry root (fr2\<lparr>fr_mem := copy_bytes hpa blob (fr_mem fr2)\<rparr>) 0x1000 hpa
      (EPT_READ OR EPT_WRITE OR EPT_EXEC OR EPT_MT_WB) = (fr', r3)"
    using assms by (auto simp: install_first_guest_def ept_new_def split: if_splits prod.splits result.splits)
  from map_4k_next [OF this] a show ?thesis by (auto dest!: alloc_next)
qed

lemma alloc_in_pool_next: "alloc_in_pool fr n = (fr', r) \<Longrightarrow> fr_next fr' = fr_next fr + PAGE_SIZE"
  by (auto simp: alloc_in_pool_def split: prod.splits result.splits dest: alloc_next)

lemma program_vmcs_next:
  "program_vmcs c k req ep = (k', Ok pa) \<Longrightarrow> fr_next (k_frames k') = fr_next (k_frames k) + PAGE_SIZE"
  by (auto simp: program_vmcs_def Let_def split: prod.splits result.splits dest: alloc_in_pool_next)

lemma reserve_slot_occupied: "reserve_slot k = (k', Ok s) \<Longrightarrow> k_occupied k' = k_occupied k OR bit_at s"
  by (auto simp: reserve_slot_def Let_def split: option.splits)

lemma create_vm_occupied:
  assumes "create_vm c k req = (k', Ok i)"
  shows "k_occupied k' = k_occupied k OR bit_at (unat i) \<and> unat i < MAX_VMS \<and> k_ready k'"
proof -
  obtain k1 s fr ept k2 pa where c: "reserve_slot k = (k1, Ok s)" "program_vmcs c (k1\<lparr>k_frames := fr\<rparr>) req (eptp ept) = (k2, Ok pa)" "i = of_nat s"
    "k' = (if k_registry k2 ! s = None then put_vm s (kvm_new (of_nat s) pa (eptp ept)) k2 else k2)" "k_ready k"
    using assms by (auto simp: create_vm_def create_vm_with_def Let_def split: prod.splits result.splits if_splits)
  note p = program_vmcs_fields [OF c(2)]
  have "s < MAX_VMS" using reserve_slot_spec [OF c(1)] by auto
  moreover have "k_ready k1 = k_ready k" using reserve_slot_spec [OF c(1)] by auto
  moreover have "k_ready k2 = k_ready k1" using c(2) by (auto simp: program_vmcs_def Let_def split: prod.splits result.splits)
  ultimately show ?thesis using c reserve_slot_occupied [OF c(1)] p by (auto simp: put_vm_def unat_of_nat MAX_VMS_def)
qed

text \<open>A create uses at most six frames, and succeeds when it has them, a slot, and the processor's consent.\<close>

lemma create_vm_total:
  assumes "frames_ok (k_frames k)" "willing_cpu c" "k_ready k" "length (cr_blob req) \<le> PAGE_SIZE"
    "fr_next (k_frames k) + 6 * PAGE_SIZE \<le> POOL_BYTES" "\<not> bit (k_occupied k) i" "i < MAX_VMS"
  shows "\<exists>k' j. create_vm c k req = (k', Ok j) \<and> fr_next (k_frames k') \<le> fr_next (k_frames k) + 6 * PAGE_SIZE"
proof -
  obtain k1 r1 where c1: "reserve_slot k = (k1, r1)" by (cases "reserve_slot k")
  obtain s occ where s: "r1 = Ok s" "k1 = k\<lparr>k_occupied := occ\<rparr>"
    using reserve_slot_spec [OF c1] assms(6,7) by (auto simp: is_ok_iff)
  obtain fr r2 where c2: "install_first_guest (k_frames k) (cr_blob req) = (fr, r2)" by (cases "install_first_guest (k_frames k) (cr_blob req)")
  have "is_ok r2" using install_total [OF assms(4) _ assms(1) c2] assms(5) by simp
  then obtain ept where ept: "r2 = Ok ept" by (auto simp: is_ok_iff)
  note n1 = install_next [OF c2 [unfolded ept]]
  obtain k2 pa where c3: "program_vmcs c (k1\<lparr>k_frames := fr\<rparr>) req (eptp ept) = (k2, Ok pa)"
    using program_vmcs_total [OF assms(2), of "k1\<lparr>k_frames := fr\<rparr>" req "eptp ept"] n1 assms(5) by auto
  have "fr_next (k_frames k2) \<le> fr_next (k_frames k) + 6 * PAGE_SIZE" using program_vmcs_next [OF c3] n1 by simp
  then show ?thesis using c1 s c2 ept c3 assms(3) by (simp add: create_vm_def create_vm_with_def Let_def put_vm_def)
qed

lemma halting_cpu_willing: "willing_cpu halting_cpu"
  by (simp add: willing_cpu_def halting_cpu_def revision_id_def vmclear_def vmptrld_def check_vmx_status_def)

definition ready_kernel :: kernel where
  "ready_kernel = (kernel_boot 0x100000)\<lparr>k_ready := True\<rparr>"

lemma ready_kernel_ok: "bridge_ok (bridge_new ready_kernel)"
proof -
  have "kernel_ok (kernel_boot 0x100000)" by (intro kernel_boot_ok) (simp_all add: aligned_def sizes)
  then have "kernel_ok ready_kernel"
    by (auto simp: kernel_ok_def kernel_inv_def vm_ok_def apart_def ready_kernel_def)
  then show ?thesis by (rule bridge_new_ok)
qed


text \<open>
  C36. An upload damaged on the serial line is refused. If the bytes that arrive differ from the image whose checksum was
  declared in a burst of at most four bytes, staging fails, and a slot that was
  touched is left empty, so no later create can run the damaged bytes.
\<close>

theorem damaged_upload_refused:
  assumes "hex_decode hex (unat len) = Ok (xs @ v @ ys)" "length u = length v" "length v \<le> 4" "u \<noteq> v"
  shows "\<not> is_ok (snd (stage_from_hex slot hex len (crc32c (xs @ u @ ys)))) \<and>
    (0 < unat len \<and> unat len \<le> MAX_IMAGE_BYTES \<and> length hex = unat len * 2 \<longrightarrow>
      snd (stage_from_hex slot hex len (crc32c (xs @ u @ ys))) = Err (HInvalid ''image_loader: stage CRC mismatch'') \<and>
      staged_meta (fst (stage_from_hex slot hex len (crc32c (xs @ u @ ys)))) = None \<and>
      (\<forall>want. from_staged_or_embedded (fst (stage_from_hex slot hex len (crc32c (xs @ u @ ys)))) want = embedded))"
  using assms crc32c_burst [of u v xs ys]
  by (auto simp: stage_from_hex_def Let_def staged_meta_def from_staged_or_embedded_def split: option.splits)

theorem damaged_upload_refused_witness:
  "snd (stage_from_hex staged_empty ''f5'' 1 (crc32c [0xF4])) = Err (HInvalid ''image_loader: stage CRC mismatch'')"
  using damaged_upload_refused [of "''f5''" 1 "[]" "[0xF5]" "[]" "[0xF4]" staged_empty]
  by (simp add: hex_decode_def hex_nibble_def MAX_IMAGE_BYTES_def PAGE_SIZE_def)

end
