(* ===== verification/Hyper_Boot.thy ===== *)
theory Hyper_Boot
  imports Hyper_Bridge
begin

text \<open>
  The boot of the kernel (\<^verbatim>\<open>src/crates/celhyper/src/bringup.rs\<close>, \<^verbatim>\<open>main.rs\<close>): the handoff is
  validated, the VMX runtime initialised, two VMs are created and run to their first exit in
  round-robin order, and then the serial bridge takes over. The \<^verbatim>\<open>while let\<close> loop over the run
  queue has no bound in the code; it is a partial function here and its termination is a theorem.
  \<open>cpus n\<close> is the processor at the n-th call that uses it. Logging, the host GDT, the local APIC and
  the second-processor bring-up, whose results the code discards, are left out.
\<close>

section \<open>The model\<close>

definition root_cap :: capability where
  "root_cap = \<lparr>cap_object = ObjVm 0, cap_rights = RIGHT_READ OR RIGHT_WRITE OR RIGHT_INVOKE OR RIGHT_GRANT\<rparr>"

text \<open>The run queue: start every runnable VM until none is left, counting the launches.\<close>

partial_function (option) run_queue ::
  "(nat \<Rightarrow> cpu) \<Rightarrow> capability \<Rightarrow> nat \<Rightarrow> u32 \<Rightarrow> kernel \<Rightarrow> (kernel \<times> u32 hyper_result) option" where
  "run_queue cpus cap n launched k =
     (case next_runnable k of
        (k, None) \<Rightarrow> Some (k, Ok launched)
      | (k, Some i) \<Rightarrow>
          (case ns_start_vm cap (cpus n) i k of
             (k, Err e) \<Rightarrow> Some (k, Err e)
           | (k, Ok _) \<Rightarrow>
               (case ns_query cap (\<lambda>k. vm_state_of k i) k of
                  Err e \<Rightarrow> Some (k, Err e)
                | Ok _ \<Rightarrow> run_queue cpus cap (Suc n) (launched + 1) k)))"

text \<open>Steps 3: two VMs from the boot image, and the check that the first one's path resolves back to it.\<close>

definition create_two :: "(nat \<Rightarrow> cpu) \<Rightarrow> capability \<Rightarrow> create_request \<Rightarrow> kernel \<Rightarrow> kernel \<times> unit hyper_result" where
  "create_two cpus cap req k =
     (case ns_create_vm cap (cpus 1) req k of
        (k, Err e) \<Rightarrow> (k, Err e)
      | (k, Ok id_a) \<Rightarrow>
          (case ns_create_vm cap (cpus 2) req k of
             (k, Err e) \<Rightarrow> (k, Err e)
           | (k, Ok id_b) \<Rightarrow>
               (k, bind_result (ns_query cap (\<lambda>k. Ok (vm_count k)) k) (\<lambda>_.
                   bind_result (ns_query cap (\<lambda>_. kernel_path_for id_a 32) k) (\<lambda>path_a.
                   bind_result (ns_query cap (\<lambda>k. kernel_resolve_path k path_a) k) (\<lambda>resolved.
                   if resolved \<noteq> id_a then Err (HInternal ''path round-trip mismatch'') else Ok ()))))))"

text \<open>Steps 5 and 6: every listed VM is stopped, errors ignored, and a faulted one is reported.\<close>

definition stop_listed :: "capability \<Rightarrow> vm_list_entry option list \<Rightarrow> kernel \<Rightarrow> kernel" where
  "stop_listed cap snapshot k = fold (\<lambda>e k. fst (ns_stop_vm cap (le_id e) k)) (List.map_filter (\<lambda>e. e) snapshot) k"

definition wind_down :: "capability \<Rightarrow> kernel \<Rightarrow> kernel \<times> unit hyper_result" where
  "wind_down cap k =
     (case ns_query cap (\<lambda>k. Ok (kernel_list_vms k)) k of
        Err e \<Rightarrow> (k, Err e)
      | Ok (snapshot, n) \<Rightarrow>
          (stop_listed cap snapshot k,
           if \<exists>e \<in> set (List.map_filter (\<lambda>e. e) snapshot). le_state e = VmFaulted
           then Err (HHardware ''one or more guest VMs faulted'') else Ok ()))"

definition bring_up :: "(nat \<Rightarrow> cpu) \<Rightarrow> mem \<Rightarrow> handoff \<Rightarrow> kernel \<Rightarrow> (kernel \<times> unit hyper_result) option" where
  "bring_up cpus m h k =
     (if \<not> (ho_vmx h \<or> ho_svm h) then Some (k, Err (HUnsupportedCpu ''no VMX and no SVM''))
      else if \<not> ho_vmx h then Some (k, Err (HUnimplemented ''AMD-V bring-up (Week-8)''))
      else (case namespace_new root_cap of
              Err e \<Rightarrow> Some (k, Err e)
            | Ok ns \<Rightarrow>
                (case init_runtime (cpus 0) k of
                   (k, Err e) \<Rightarrow> Some (k, Err e)
                 | (k, Ok _) \<Rightarrow>
                     (case create_two cpus ns (from_boot_image (from_handoff_or_embedded m h)) k of
                        (k, Err e) \<Rightarrow> Some (k, Err e)
                      | (k, Ok _) \<Rightarrow>
                          Option.bind (run_queue cpus ns 3 0 (reset_runqueue_cursor k)) (\<lambda>(k, r).
                            case r of Err e \<Rightarrow> Some (k, Err e) | Ok launched \<Rightarrow> Some (wind_down ns k))))))"

text \<open>
  \<^verbatim>\<open>_start\<close>: \<open>Err\<close> is the kernel halting the machine, \<open>Ok\<close> the bridge after it consumed
  the given input; the bridge's own processor calls are counted from zero again.
\<close>

definition kernel_start ::
  "(nat \<Rightarrow> cpu) \<Rightarrow> (nat \<Rightarrow> cpu) \<Rightarrow> mem \<Rightarrow> u64 \<Rightarrow> (u64 \<Rightarrow> handoff) \<Rightarrow> string \<Rightarrow> kernel \<Rightarrow> (bridge \<times> string list) hyper_result option" where
  "kernel_start cpus cpus' m ptr rd input k =
     (case handoff_from_raw ptr rd of
        Err e \<Rightarrow> Some (Err e)
      | Ok h \<Rightarrow>
          (case bring_up cpus m h k of
             None \<Rightarrow> None
           | Some (k, Err e) \<Rightarrow> Some (Err e)
           | Some (k, Ok _) \<Rightarrow> Some (Ok (bridge_run cpus' 0 (bridge_new k) input))))"

section \<open>The theorems\<close>

subsection \<open>The root capability\<close>

lemma root_cap_rights [simp]:
  "ns_start_vm root_cap c i k = start_vm c k i" "ns_stop_vm root_cap i k = stop_vm k i"
  "ns_create_vm root_cap c req k = create_vm c k req" "ns_query root_cap f k = f k" "namespace_new root_cap = Ok root_cap"
  by (simp_all add: ns_start_vm_def ns_stop_vm_def ns_create_vm_def ns_query_def namespace_new_def guarded_def cap_check_def root_cap_def
      RIGHT_READ_def RIGHT_WRITE_def RIGHT_INVOKE_def RIGHT_GRANT_def)

subsection \<open>The run queue is drained\<close>

definition runnable :: "kernel \<Rightarrow> nat set" where
  "runnable k = {i. i < MAX_VMS \<and> (\<exists>vm. k_registry k ! i = Some vm \<and> kvm_get_state vm = VmCreated)}"

lemma finite_runnable [simp]: "finite (runnable k)"
  by (rule finite_subset [of _ "{..<MAX_VMS}"]) (auto simp: runnable_def)

lemma runnable_start:
  assumes "next_runnable k = (k1, Some i)" "start_vm c k1 i = (k2, Ok ())" "length (k_registry k) = MAX_VMS"
  shows "runnable k2 \<subset> runnable k"
proof -
  note n = next_runnable_Some [OF assms(1)]
  then obtain vm where vm: "k_registry k1 ! unat i = Some vm" "k_registry k ! unat i = Some vm" "kvm_get_state vm = VmCreated" by auto
  obtain vm' where vm': "k_registry k2 = (k_registry k)[unat i := Some vm']" "kvm_get_state vm' \<noteq> VmCreated"
    using started_vm_left_created [OF assms(2) vm(1)] n(1) assms(3) by auto
  then have "runnable k2 \<subseteq> runnable k - {unat i}"
    using n(2) assms(3) by (auto simp: runnable_def nth_list_update split: if_splits)
  moreover have "unat i \<in> runnable k" using vm n(2) by (simp add: runnable_def)
  ultimately show ?thesis by blast
qed

lemma runnable_empty:
  assumes "kernel_ok k" "next_runnable k = (k', None)"
  shows "runnable k = {}" "k' = k"
proof -
  have "unat (k_cursor k) < MAX_VMS" using assms(1) by (auto simp: kernel_ok_def dest: kernel_invD(7))
  then show "runnable k = {}" using next_runnable_None [OF assms(2)] by (auto simp: runnable_def)
  show "k' = k" using assms(2) by (auto simp: next_runnable_def Let_def split: option.splits)
qed

text \<open>
  A property of the registry that every start keeps holds when the queue is drained; the queue is
  drained or a start fails.
\<close>

lemma run_queue_total:
  assumes "kernel_ok k" "P k" "\<And>k k' i. P k \<Longrightarrow> next_runnable k = (k', Some i) \<Longrightarrow> P k'"
    "\<And>k k' r n i. P k \<Longrightarrow> kernel_ok k \<Longrightarrow> unat i \<in> runnable k \<Longrightarrow> start_vm (cpus n) k i = (k', r) \<Longrightarrow> P k'"
  shows "\<exists>k' r. run_queue cpus root_cap n x k = Some (k', r) \<and> good_step k k' \<and> P k' \<and>
    (if is_ok r then runnable k' = {} else (\<exists>n k1 i e. r = Err e \<and> kernel_ok k1 \<and> unat i \<in> runnable k1 \<and> snd (start_vm (cpus n) k1 i) = Err e))"
  using assms(1,2)
proof (induction "card (runnable k)" arbitrary: k n x rule: less_induct)
  case less
  obtain k1 o1 where n: "next_runnable k = (k1, o1)" by (cases "next_runnable k")
  have g1: "good_step k k1" using next_runnable_good [OF n] .
  then have ok1: "kernel_ok k1" using less.prems by (simp add: good_step_def)
  show ?case
  proof (cases o1)
    case None
    then show ?thesis using n runnable_empty [OF less.prems(1), of k1] g1 less.prems(2) by (subst run_queue.simps) auto
  next
    case (Some i)
    note nx = next_runnable_Some [OF n [unfolded Some]]
    have r1: "unat i \<in> runnable k1" using nx by (auto simp: runnable_def)
    have P1: "P k1" using assms(3) less.prems(2) n Some by blast
    obtain k2 r2 where s: "start_vm (cpus n) k1 i = (k2, r2)" by (cases "start_vm (cpus n) k1 i")
    have g2: "good_step k k2" using good_step_trans [OF g1 start_vm_good [OF s]] .
    have P2: "P k2" using assms(4) [OF P1 ok1 r1 s] .
    show ?thesis
    proof (cases r2)
      case (Err e)
      then show ?thesis using n Some s g2 P2 ok1 r1
        by (subst run_queue.simps) (auto intro!: exI [of _ n] exI [of _ k1] exI [of _ i])
    next
      case (Ok u)
      have ok2: "kernel_ok k2" using g2 less.prems by (simp add: good_step_def)
      have "card (runnable k2) < card (runnable k)"
        using runnable_start [OF n [unfolded Some], of "cpus n" k2] s Ok kernel_registry_length [OF less.prems(1)]
        by (intro psubset_card_mono) auto
      from less.hyps [OF this ok2 P2, of "Suc n" "x + 1"] obtain k' r where rec:
        "run_queue cpus root_cap (Suc n) (x + 1) k2 = Some (k', r)" "good_step k2 k'" "P k'"
        "if is_ok r then runnable k' = {} else (\<exists>n k1 i e. r = Err e \<and> kernel_ok k1 \<and> unat i \<in> runnable k1 \<and> snd (start_vm (cpus n) k1 i) = Err e)"
        by blast
      have "\<exists>vm. vm_lookup k2 i = Ok vm"
        using start_vm_good [OF s] ok1 r1 by (auto simp: good_step_def kernel_evolves_def runnable_def vm_lookup_Ok)
      then have "run_queue cpus root_cap n x k = Some (k', r)"
        using n Some s Ok rec(1) by (subst run_queue.simps) (auto simp: vm_state_of_def)
      then show ?thesis using rec good_step_trans [OF g2 rec(2)] by blast
    qed
  qed
qed

subsection \<open>Winding down\<close>

lemma stop_vm_states:
  assumes "stop_vm k i = (k', r)" "kernel_ok k" "j < MAX_VMS" "k_registry k ! j = Some vm"
  shows "\<exists>vm'. k_registry k' ! j = Some vm' \<and>
    kvm_get_state vm' = (if j = unat i \<and> \<not> is_terminal (kvm_get_state vm) then VmStopped else kvm_get_state vm)"
proof -
  have st: "state_from_u32 (kv_state vm) \<noteq> None"
    using assms(2-4) by (auto simp: kernel_ok_def vm_ok_def dest: kernel_invD(4))
  have "kvm_get_state (fst (kvm_stop vm)) = VmStopped" if "\<not> is_terminal (kvm_get_state vm)"
    using st that by (cases "kvm_get_state vm") (auto simp: kvm_stop_def kvm_get_state_def state_from_u32_def split: if_splits option.splits)
  then show ?thesis
    using assms kernel_registry_length [OF assms(2)]
    by (auto simp: stop_vm_def vm_lookup_def put_vm_def nth_list_update split: if_splits result.splits prod.splits option.splits)
qed

lemma stop_fold_states:
  "kernel_ok k \<Longrightarrow> j < MAX_VMS \<Longrightarrow> k_registry k ! j = Some vm \<Longrightarrow>
   \<exists>vm'. k_registry (fold (\<lambda>e k. fst (stop_vm k (le_id e))) es k) ! j = Some vm' \<and>
     kvm_get_state vm' = (if (\<exists>e \<in> set es. unat (le_id e) = j) \<and> \<not> is_terminal (kvm_get_state vm) then VmStopped else kvm_get_state vm)"
proof (induction es arbitrary: k vm)
  case (Cons e es)
  obtain k1 r where s: "stop_vm k (le_id e) = (k1, r)" by (cases "stop_vm k (le_id e)")
  from stop_vm_states [OF s Cons.prems] obtain vm1 where vm1: "k_registry k1 ! j = Some vm1"
    "kvm_get_state vm1 = (if j = unat (le_id e) \<and> \<not> is_terminal (kvm_get_state vm) then VmStopped else kvm_get_state vm)" by auto
  have "kernel_ok k1" using stop_vm_good [OF s] Cons.prems(1) by (simp add: good_step_def)
  from Cons.IH [OF this Cons.prems(2) vm1(1)] vm1(2) s show ?case by (auto split: if_splits)
qed simp

lemma stop_fold_good: "good_step k (fold (\<lambda>e k. fst (stop_vm k (le_id e))) es k)"
proof (induction es arbitrary: k)
  case (Cons e es)
  have "good_step k (fst (stop_vm k (le_id e)))" by (rule stop_vm_good [of _ _ _ "snd (stop_vm k (le_id e))"]) simp
  then show ?case using Cons good_step_trans by fastforce
qed simp
lemma stop_fold_none: "k_registry k ! j = None \<Longrightarrow> k_registry (fold (\<lambda>e k. fst (stop_vm k (le_id e))) es k) ! j = None"
proof (induction es arbitrary: k)
  case (Cons e es)
  have "k_registry (fst (stop_vm k (le_id e))) ! j = None"
    using Cons.prems by (cases "j = unat (le_id e)")
      (auto simp: stop_vm_def vm_lookup_def put_vm_def split: result.splits prod.splits option.splits if_splits)
  then show ?case using Cons.IH by simp
qed simp

lemma wind_down_clean:
  assumes "kernel_ok k" "runnable k = {}" "k_deleted k = 0" "wind_down root_cap k = (k', r)"
  shows "good_step k k'" "r = (if \<exists>i < MAX_VMS. \<exists>vm. k_registry k ! i = Some vm \<and> kvm_get_state vm = VmFaulted
      then Err (HHardware ''one or more guest VMs faulted'') else Ok ())"
    "\<And>i vm. r = Ok () \<Longrightarrow> i < MAX_VMS \<Longrightarrow> k_registry k ! i = Some vm \<Longrightarrow>
      \<exists>vm'. k_registry k' ! i = Some vm' \<and> kvm_get_state vm' \<in> {VmHalted, VmStopped}"
    "\<And>i. k_registry k ! i = None \<Longrightarrow> k_registry k' ! i = None"
proof -
  let ?es = "List.map_filter (\<lambda>e. e) (map (list_entry k) [0..<MAX_VMS])"
  have reg: "length (k_registry k) = MAX_VMS" by (rule kernel_registry_length [OF assms(1)])
  have entry: "list_entry k i = map_option (\<lambda>vm. \<lparr>le_id = of_nat i, le_state = kvm_get_state vm, le_last_exit = last_exit_reason vm\<rparr>) (k_registry k ! i)" for i
    by (simp add: list_entry_def assms(3))
  have es: "e \<in> set ?es \<longleftrightarrow> (\<exists>i < MAX_VMS. list_entry k i = Some e)" for e
    by (force simp: List.map_filter_def)
  have w: "k' = fold (\<lambda>e k. fst (stop_vm k (le_id e))) ?es k"
    "r = (if \<exists>e \<in> set ?es. le_state e = VmFaulted then Err (HHardware ''one or more guest VMs faulted'') else Ok ())"
    using assms(4) reg by (auto simp: wind_down_def stop_listed_def kernel_list_vms_def Let_def)
  show "good_step k k'" unfolding w(1) by (rule stop_fold_good)
  show "k_registry k' ! i = None" if "k_registry k ! i = None" for i unfolding w(1) by (rule stop_fold_none [OF that])
  have "(\<exists>e \<in> set ?es. le_state e = VmFaulted) \<longleftrightarrow> (\<exists>i < MAX_VMS. \<exists>vm. k_registry k ! i = Some vm \<and> kvm_get_state vm = VmFaulted)"
    unfolding Bex_def es entry by fastforce
  then show r: "r = (if \<exists>i < MAX_VMS. \<exists>vm. k_registry k ! i = Some vm \<and> kvm_get_state vm = VmFaulted
      then Err (HHardware ''one or more guest VMs faulted'') else Ok ())" unfolding w(2) by simp
  fix i vm assume vm: "r = Ok ()" "i < MAX_VMS" "k_registry k ! i = Some vm"
  have "\<exists>e \<in> set ?es. unat (le_id e) = i" unfolding Bex_def es entry using vm(2,3) by (force simp: unat_of_nat MAX_VMS_def)
  with stop_fold_states [OF assms(1) vm(2,3), of ?es] obtain vm' where vm': "k_registry k' ! i = Some vm'"
    "kvm_get_state vm' = (if is_terminal (kvm_get_state vm) then kvm_get_state vm else VmStopped)" unfolding w(1) by auto
  have "kvm_get_state vm \<noteq> VmFaulted" using vm r by (auto split: if_splits)
  then show "\<exists>vm'. k_registry k' ! i = Some vm' \<and> kvm_get_state vm' \<in> {VmHalted, VmStopped}"
    using vm' by (cases "kvm_get_state vm") auto
qed

subsection \<open>Bring-up\<close>

lemma start_keeps_deleted: "start_vm c k i = (k', r) \<Longrightarrow> k_deleted k' = k_deleted k"
proof -
  have e: "k_deleted (vm_exit_dispatch fl raw k) = k_deleted k" for fl raw k
    by (auto simp: vm_exit_dispatch_def sched_dispatch_exit_def put_vm_def split: result.splits exit_kind.splits option.splits prod.splits)
  show "start_vm c k i = (k', r) \<Longrightarrow> k_deleted k' = k_deleted k"
    by (auto simp: start_vm_def set_active_def Let_def e put_vm_def split: result.splits prod.splits launch.splits hyper_error.splits)
qed

lemma next_keeps_deleted: "next_runnable k = (k', i) \<Longrightarrow> k_deleted k' = k_deleted k"
  by (auto simp: next_runnable_def Let_def split: option.splits)

lemma create_keeps_deleted: "create_vm c k req = (k', r) \<Longrightarrow> k_deleted k' = k_deleted k"
proof -
  have p: "program_vmcs c k req ep = (k', r) \<Longrightarrow> k_deleted k' = k_deleted k" for k k' ep and r :: "u64 hyper_result"
    using program_vmcs_fields by blast
  have s: "reserve_slot k = (k', r) \<Longrightarrow> k_deleted k' = k_deleted k" for k' r
    by (auto simp: reserve_slot_def Let_def split: option.splits)
  show "create_vm c k req = (k', r) \<Longrightarrow> k_deleted k' = k_deleted k"
    by (auto simp: create_vm_def create_vm_with_def Let_def put_vm_def split: if_splits result.splits prod.splits dest!: p s)
qed

lemma create_two_good: "create_two cpus root_cap req k = (k', r) \<Longrightarrow> good_step k k' \<and> k_deleted k' = k_deleted k"
  by (auto simp: create_two_def split: prod.splits result.splits dest: create_vm_good intro: good_step_trans)
     (simp_all add: create_keeps_deleted)

lemma init_keeps_deleted: "init_runtime c k = (k', r) \<Longrightarrow> k_deleted k' = k_deleted k"
  by (auto simp: init_runtime_def Let_def split: if_splits prod.splits result.splits)

lemma reset_cursor_ok: "kernel_ok k \<Longrightarrow> kernel_ok (reset_runqueue_cursor k)"
  by (auto simp: kernel_ok_def kernel_inv_def reset_runqueue_cursor_def vm_ok_def apart_def MAX_VMS_def)
text \<open>Without any assumption on the processor: bring-up ends, and its success means that every VM ended cleanly.\<close>

lemma bring_up_ends:
  assumes "kernel_ok k" "k_deleted k = 0"
  shows "\<exists>k' r. bring_up cpus m h k = Some (k', r) \<and> kernel_ok k' \<and>
    (r = Ok () \<longrightarrow> (\<forall>i < MAX_VMS. \<forall>vm. k_registry k' ! i = Some vm \<longrightarrow> kvm_get_state vm \<in> {VmHalted, VmStopped}))"
proof (cases "ho_vmx h")
  case vmx: True
  let ?req = "from_boot_image (from_handoff_or_embedded m h)"
  obtain k1 r1 where i: "init_runtime (cpus 0) k = (k1, r1)" by (cases "init_runtime (cpus 0) k")
  have k1: "kernel_ok k1" "k_deleted k1 = 0"
    using init_runtime_good [OF i] init_keeps_deleted [OF i] assms by (simp_all add: good_step_def)
  obtain k2 r2 where c: "create_two cpus root_cap ?req k1 = (k2, r2)" by (cases "create_two cpus root_cap ?req k1")
  have k2: "kernel_ok (reset_runqueue_cursor k2)" "k_deleted (reset_runqueue_cursor k2) = 0"
    using create_two_good [OF c] k1 reset_cursor_ok by (simp_all add: good_step_def reset_runqueue_cursor_def)
  have "\<exists>k3 r3. run_queue cpus root_cap 3 0 (reset_runqueue_cursor k2) = Some (k3, r3) \<and>
      good_step (reset_runqueue_cursor k2) k3 \<and> k_deleted k3 = 0 \<and> (is_ok r3 \<longrightarrow> runnable k3 = {})"
    using run_queue_total [where P = "\<lambda>k. k_deleted k = 0" and cpus = cpus and n = 3 and x = 0, OF k2]
    by (fastforce dest: start_keeps_deleted next_keeps_deleted split: if_splits)
  then obtain k3 r3 where q: "run_queue cpus root_cap 3 0 (reset_runqueue_cursor k2) = Some (k3, r3)"
    "good_step (reset_runqueue_cursor k2) k3" "k_deleted k3 = 0" "is_ok r3 \<longrightarrow> runnable k3 = {}" by blast
  have k3: "kernel_ok k3" using q(2) k2(1) by (simp add: good_step_def)
  obtain k4 r4 where w: "wind_down root_cap k3 = (k4, r4)" by (cases "wind_down root_cap k3")
  have out: "bring_up cpus m h k =
      (if \<not> is_ok r1 then Some (k1, bind_result r1 (\<lambda>_. Ok ())) else if \<not> is_ok r2 then Some (k2, r2)
       else if \<not> is_ok r3 then Some (k3, bind_result r3 (\<lambda>_. Ok ())) else Some (k4, r4))"
    using vmx i c q(1) w by (cases r1; cases r2; cases r3) (simp_all add: bring_up_def)
  show ?thesis
  proof (cases "is_ok r1 \<and> is_ok r2 \<and> is_ok r3")
    case True
    then have e: "runnable k3 = {}" using q(4) by simp
    note wd = wind_down_clean [OF k3 e q(3) w]
    have k4: "kernel_ok k4" using wd(1) k3 by (simp add: good_step_def)
    have "kvm_get_state vm \<in> {VmHalted, VmStopped}" if a: "r4 = Ok ()" "i < MAX_VMS" "k_registry k4 ! i = Some vm" for i vm
    proof (cases "k_registry k3 ! i")
      case None
      then show ?thesis using wd(4) a(3) by fastforce
    next
      case (Some vm3)
      then show ?thesis using wd(3) [OF a(1,2) Some] a(3) by simp
    qed
    then show ?thesis using out True k4 by auto
  next
    case False
    then show ?thesis using out k1(1) k2(1) k3 create_two_good [OF c]
      by (cases r1; cases r2; cases r3) (auto simp: good_step_def)
  qed
qed (use assms in \<open>auto simp: bring_up_def\<close>)
subsection \<open>Bring-up on a processor that halts its guests\<close>

lemma rev_low_digits: "0 < n \<Longrightarrow> rev (low_digits n) = show_nat n"
proof (induction n rule: low_digits.induct)
  case (1 n)
  show ?case
  proof (cases "n < 10")
    case True
    then show ?thesis using 1 by (subst low_digits.simps, subst show_nat.simps) (simp add: low_digits.simps)
  next
    case False
    then show ?thesis using 1 by (subst low_digits.simps, subst show_nat.simps) simp
  qed
qed

lemma format_u32_show: "format_u32 i = show_nat (unat i)"
proof -
  have "show_nat 0 = ''0''" by code_simp
  then show ?thesis by (simp add: format_u32_def rev_low_digits unat_gt_0)
qed

lemma kernel_path_roundtrip:
  assumes "15 \<le> n" "vm_lookup k i = Ok vm"
  shows "\<exists>p. kernel_path_for i n = Ok p \<and> kernel_resolve_path k p = Ok i"
proof -
  have "parse_digits (2 ^ 32 - 1) 0 (show_nat (unat i)) = Some (unat i)"
    using unsigned_less [of i, where ?'a = nat] by (intro parse_digits_show) simp
  then show ?thesis
    using assms show_nat_notin [of "CHR ''/''" "unat i"] show_nat_digits [of "unat i"]
    by (auto simp: kernel_path_for_def kernel_resolve_path_def VM_NAMESPACE_ROOT_def strip_prefix_def kernel_parse_u32_def format_u32_show)
qed

definition clean_cpu :: "cpu \<Rightarrow> bool" where
  "clean_cpu c \<longleftrightarrow> willing_cpu c \<and> is_ok (ensure_vmx_available c) \<and> (\<forall>a. is_ok (vmx_enable c a)) \<and>
     (case cpu_launch c of GuestExit rflags raw \<Rightarrow> read_exit rflags raw = Ok ExHlt | LaunchReturned _ \<Rightarrow> False)"

lemma start_vm_halts:
  assumes "clean_cpu c" "kernel_ok k" "unat i \<in> runnable k" "start_vm c k i = (k', r)"
  shows "r = Ok () \<and> (\<exists>vm. k_registry k' = (k_registry k)[unat i := Some vm] \<and> kvm_get_state vm = VmHalted)"
proof -
  obtain vm where vm: "unat i < MAX_VMS" "k_registry k ! unat i = Some vm" "kvm_get_state vm = VmCreated"
    using assms(3) by (auto simp: runnable_def)
  have "state_from_u32 (kv_state vm) \<noteq> None"
    using assms(2) vm(1,2) by (auto simp: kernel_ok_def vm_ok_def dest: kernel_invD(4))
  then have st: "kv_state vm = state_code VmCreated"
    using vm(3) by (auto simp: kvm_get_state_def state_from_u32_def split: if_splits)
  obtain fl raw where l: "cpu_launch c = GuestExit fl raw" "read_exit fl raw = Ok ExHlt"
    using assms(1) by (auto simp: clean_cpu_def split: launch.splits)
  have p: "vmptrld c (kv_vmcs_pa vm) = Ok ()" using assms(1) by (auto simp: clean_cpu_def willing_cpu_def is_ok_iff)
  show ?thesis
    using assms(4) vm(1,2) st l p kernel_registry_length [OF assms(2)]
    by (auto simp: start_vm_def vm_lookup_def set_active_def mark_running_def kvm_transition_def vm_exit_dispatch_def sched_dispatch_exit_def
        put_vm_def on_exit_def kvm_get_state_def Let_def simp del: state_code.simps)
qed

lemma create_vm_registry:
  assumes "kernel_ok k" "create_vm c k req = (k', Ok i)"
  shows "unat i < MAX_VMS \<and> k_registry k ! unat i = None \<and>
    (\<exists>vm. k_registry k' = (k_registry k)[unat i := Some vm] \<and> kvm_get_state vm = VmCreated)"
proof -
  obtain root hpa where inv: "kernel_inv k root hpa" using assms(1) by (auto simp: kernel_ok_def)
  have "create_vm_with c k req = (k', Ok i)" using assms(2) by (auto simp: create_vm_def split: if_splits)
  from create_vm_OkE [OF this inv] obtain s ept pa k2 where c: "s < MAX_VMS" "i = of_nat s" "k_registry k ! s = None"
    "k_registry k2 = k_registry k" "k' = put_vm s (kvm_new i pa (eptp ept)) k2" by metis
  then show ?thesis by (auto simp: put_vm_def unat_of_nat MAX_VMS_def kvm_new_def kvm_get_state_def simp del: state_code.simps)
qed

definition registered :: "kernel \<Rightarrow> nat set" where
  "registered k = {i. i < MAX_VMS \<and> k_registry k ! i \<noteq> None}"

lemma handoff_image:
  shows "length (cr_blob (from_boot_image (from_handoff_or_embedded m h))) \<le> PAGE_SIZE"
proof -
  have "length (bi_blob img) \<le> MAX_IMAGE_BYTES" if "from_raw_bytes b g s c = Ok img" for b g s c img
    using that by (auto simp: from_raw_bytes_def Let_def split: if_splits)
  moreover have "length HELLO_BLOB \<le> MAX_IMAGE_BYTES"
    by (simp add: HELLO_BLOB_def length_build_blob BLOB_LEN_def GUEST_MARKER_def MAX_IMAGE_BYTES_def PAGE_SIZE_def)
  ultimately show ?thesis
    by (auto simp: from_boot_image_def from_handoff_or_embedded_def from_handoff_def Let_def embedded_eq bind_result_eq_Ok MAX_IMAGE_BYTES_def [symmetric]
        split: result.splits option.splits if_splits)
qed

lemma create_two_total:
  assumes "kernel_ok k" "\<And>n. willing_cpu (cpus n)" "k_ready k" "length (cr_blob req) \<le> PAGE_SIZE" "k_occupied k = 0"
    "fr_next (k_frames k) \<le> PAGE_SIZE" "k_registry k = replicate MAX_VMS None"
  shows "\<exists>k'. create_two cpus root_cap req k = (k', Ok ()) \<and> card (registered k') = 2 \<and> runnable k' = registered k'"
proof -
  have fr: "frames_ok (k_frames k)" if "kernel_ok k" for k using that by (auto simp: kernel_ok_def dest: kernel_invD(2))
  obtain k1 a where c1: "create_vm (cpus 1) k req = (k1, Ok a)" "fr_next (k_frames k1) \<le> fr_next (k_frames k) + 6 * PAGE_SIZE"
    using create_vm_total [OF fr [OF assms(1)] assms(2) assms(3,4), of 0 1] assms(5,6) by (auto simp: sizes MAX_VMS_def)
  have k1: "kernel_ok k1" using create_vm_good [OF c1(1)] assms(1) by (simp add: good_step_def)
  note o1 = create_vm_occupied [OF c1(1)] and g1 = create_vm_registry [OF assms(1) c1(1)]
  define j :: nat where "j = (if unat a = 0 then 1 else 0)"
  have j: "\<not> bit (k_occupied k1) j" "j < MAX_VMS"
    using o1 assms(5) by (auto simp: j_def bit_at_def MAX_VMS_def push_bit_of_1 bit_exp_iff [where 'a = "32 word"])
  obtain k2 b where c2: "create_vm (cpus 2) k1 req = (k2, Ok b)"
    using create_vm_total [OF fr [OF k1] assms(2) _ assms(4) _ j, of 2] o1 c1(2) assms(6) by (auto simp: sizes)
  note g2 = create_vm_registry [OF k1 c2]
  obtain va vb where v: "k_registry k1 = (k_registry k)[unat a := Some va]" "k_registry k2 = (k_registry k1)[unat b := Some vb]"
    "kvm_get_state va = VmCreated" "kvm_get_state vb = VmCreated" using g1 g2 by blast
  have reg: "k_registry k2 = ((k_registry k)[unat a := Some va])[unat b := Some vb]"
    "kvm_get_state va = VmCreated" "kvm_get_state vb = VmCreated" "unat a < MAX_VMS" "unat b < MAX_VMS" "unat a \<noteq> unat b"
    using v g1 g2 assms(7) by auto
  then have "registered k2 = {unat a, unat b}" "runnable k2 = {unat a, unat b}"
    using assms(7) by (auto simp: registered_def runnable_def nth_list_update split: if_splits)
  moreover have "vm_lookup k2 a = Ok va" using reg assms(7) by (simp add: vm_lookup_def)
  from kernel_path_roundtrip [OF _ this, of 32] obtain p where "kernel_path_for a 32 = Ok p" "kernel_resolve_path k2 p = Ok a" by auto
  then have "create_two cpus root_cap req k = (k2, Ok ())" using c1(1) c2 by (simp add: create_two_def)
  ultimately show ?thesis using reg(6) by auto
qed
lemma init_runtime_boot:
  assumes "clean_cpu c" "init_runtime c (kernel_boot base) = (k, r)"
  shows "r = Ok ()" "k_ready k" "k_occupied k = 0" "fr_next (k_frames k) \<le> PAGE_SIZE" "k_registry k = replicate MAX_VMS None"
proof -
  obtain n where n: "revision_id c = Ok n" "ensure_vmx_available c = Ok ()" "\<And>a. vmx_enable c a = Ok ()"
    using assms(1) by (auto simp: clean_cpu_def willing_cpu_def is_ok_iff)
  have "fr_next (k_frames (kernel_boot base)) = 0" by (simp add: kernel_boot_def)
  then obtain fr pa where a: "alloc_in_pool (k_frames (kernel_boot base)) n = (fr, Ok pa)" "fr_next fr = PAGE_SIZE"
    using alloc_in_pool_total [of "k_frames (kernel_boot base)" n] alloc_in_pool_next by (fastforce simp: sizes)
  then have "k = (kernel_boot base)\<lparr>k_ready := True, k_frames := fr\<rparr>" "r = Ok ()"
    using assms(2) n by (auto simp: init_runtime_def kernel_boot_def Let_def)
  then show "r = Ok ()" "k_ready k" "k_occupied k = 0" "fr_next (k_frames k) \<le> PAGE_SIZE" "k_registry k = replicate MAX_VMS None"
    using a(2) by (simp_all add: kernel_boot_def)
qed

text \<open>The VMs that bring-up created wait or have halted.\<close>

definition waiting_or_halted :: "nat set \<Rightarrow> kernel \<Rightarrow> bool" where
  "waiting_or_halted S k \<longleftrightarrow> registered k = S \<and> k_deleted k = 0 \<and> length (k_registry k) = MAX_VMS \<and>
     (\<forall>i < MAX_VMS. \<forall>vm. k_registry k ! i = Some vm \<longrightarrow> kvm_get_state vm \<in> {VmCreated, VmHalted})"

lemma waiting_start:
  assumes "clean_cpu c" "waiting_or_halted S k" "kernel_ok k" "unat i \<in> runnable k" "start_vm c k i = (k', r)"
  shows "waiting_or_halted S k'"
proof -
  obtain vm where "k_registry k' = (k_registry k)[unat i := Some vm]" "kvm_get_state vm = VmHalted"
    using start_vm_halts [OF assms(1,3-5)] by auto
  moreover have "unat i \<in> registered k" using assms(4) by (auto simp: runnable_def registered_def)
  ultimately show ?thesis using assms(2) start_keeps_deleted [OF assms(5)]
    by (auto simp: waiting_or_halted_def registered_def nth_list_update)
qed

lemma waiting_next: "waiting_or_halted S k \<Longrightarrow> next_runnable k = (k', Some i) \<Longrightarrow> waiting_or_halted S k'"
  using next_runnable_Some(1) [of k k' i] next_keeps_deleted [of k k' "Some i"] by (auto simp: waiting_or_halted_def registered_def)

lemma bring_up_succeeds:
  assumes "\<forall>n. clean_cpu (cpus n)" "kernel_ok (kernel_boot base)" "ho_vmx h"
  shows "\<exists>k. bring_up cpus m h (kernel_boot base) = Some (k, Ok ()) \<and> card (registered k) = 2 \<and>
    (\<forall>i \<in> registered k. \<forall>vm. k_registry k ! i = Some vm \<longrightarrow> kvm_get_state vm = VmHalted)"
proof -
  let ?req = "from_boot_image (from_handoff_or_embedded m h)"
  obtain k1 r1 where i: "init_runtime (cpus 0) (kernel_boot base) = (k1, r1)" by (cases "init_runtime (cpus 0) (kernel_boot base)")
  note i' = init_runtime_boot [OF assms(1) [rule_format] i]
  have k1: "kernel_ok k1" "k_deleted k1 = 0"
    using init_runtime_good [OF i] init_keeps_deleted [OF i] assms(2) by (simp_all add: good_step_def kernel_boot_def)
  obtain k2 where c: "create_two cpus root_cap ?req k1 = (k2, Ok ())" "card (registered k2) = 2" "runnable k2 = registered k2"
    using create_two_total [OF k1(1) _ i'(2) handoff_image i'(3-5), of cpus m h] assms(1) by (auto simp: clean_cpu_def)
  let ?k2 = "reset_runqueue_cursor k2" and ?S = "registered k2"
  have k2: "kernel_ok ?k2" "k_deleted ?k2 = 0"
    using create_two_good [OF c(1)] k1 reset_cursor_ok by (simp_all add: good_step_def reset_runqueue_cursor_def)
  have rs: "registered ?k2 = ?S" "runnable ?k2 = ?S" using c(3) by (simp_all add: registered_def runnable_def reset_runqueue_cursor_def)
  have "kvm_get_state vm = VmCreated" if "i < MAX_VMS" "k_registry ?k2 ! i = Some vm" for i vm
  proof -
    have "i \<in> runnable ?k2" using that unfolding rs(2) rs(1) [symmetric] by (simp add: registered_def)
    then show ?thesis using that by (simp add: runnable_def)
  qed
  then have "waiting_or_halted ?S ?k2" using k2 rs(1) kernel_registry_length [OF k2(1)] by (simp add: waiting_or_halted_def)
  then have "\<exists>k' r. run_queue cpus root_cap 3 0 ?k2 = Some (k', r) \<and> good_step ?k2 k' \<and> waiting_or_halted ?S k' \<and>
    (if is_ok r then runnable k' = {} else (\<exists>n k1 i e. r = Err e \<and> kernel_ok k1 \<and> unat i \<in> runnable k1 \<and> snd (start_vm (cpus n) k1 i) = Err e))"
    by (intro run_queue_total) (use k2(1) waiting_next waiting_start [OF assms(1) [rule_format]] in blast)+
  then obtain k3 r3 where q: "run_queue cpus root_cap 3 0 ?k2 = Some (k3, r3)" "good_step ?k2 k3" "waiting_or_halted ?S k3"
    "if is_ok r3 then runnable k3 = {} else (\<exists>n k1 i e. r3 = Err e \<and> kernel_ok k1 \<and> unat i \<in> runnable k1 \<and> snd (start_vm (cpus n) k1 i) = Err e)"
    by blast
  have ok3: "is_ok r3" using q(4) start_vm_halts [OF assms(1) [rule_format]] by (metis prod.collapse result.distinct(1))
  have k3: "kernel_ok k3" "runnable k3 = {}" "k_deleted k3 = 0" using q ok3 k2(1) by (auto simp: good_step_def waiting_or_halted_def)
  have halted: "kvm_get_state vm = VmHalted" if "i < MAX_VMS" "k_registry k3 ! i = Some vm" for i vm
    using that q(3) k3(2) by (auto simp: waiting_or_halted_def runnable_def)
  obtain k4 r4 where w: "wind_down root_cap k3 = (k4, r4)" by (cases "wind_down root_cap k3")
  note wd = wind_down_clean [OF k3 w]
  have r4: "r4 = Ok ()" using wd(2) halted by fastforce
  have ev: "\<exists>vm'. k_registry k4 ! i = Some vm' \<and> kvm_get_state vm' = VmHalted" if i3: "i < MAX_VMS" "k_registry k3 ! i = Some vm" for i vm
  proof -
    have "state_from_u32 (kv_state vm) \<noteq> None" using k3(1) i3 by (auto simp: kernel_ok_def vm_ok_def dest: kernel_invD(4))
    moreover obtain vm' where vm': "k_registry k4 ! i = Some vm'" "kvm_move vm vm'"
      using wd(1) k3(1) i3 by (auto simp: good_step_def kernel_evolves_def)
    ultimately have "vm_step\<^sup>*\<^sup>* VmHalted (kvm_get_state vm')" using halted [OF i3] by (simp add: kvm_move_def)
    then have "kvm_get_state vm' = VmHalted" by (rule terminal_final) simp
    with vm'(1) show ?thesis by simp
  qed
  have reg4: "k_registry k4 ! i \<noteq> None \<longleftrightarrow> k_registry k3 ! i \<noteq> None" if "i < MAX_VMS" for i
    using ev [OF that] wd(4) [of i] by (cases "k_registry k3 ! i") auto
  then have "registered k4 = registered k3" by (auto simp: registered_def)
  then have "registered k4 = ?S" using q(3) by (simp add: waiting_or_halted_def)
  moreover have "bring_up cpus m h (kernel_boot base) = Some (k4, Ok ())"
    using assms(3) i i'(1) c(1) q(1) ok3 w r4 by (cases r3) (simp_all add: bring_up_def)
  moreover have "kvm_get_state vm = VmHalted" if "i \<in> registered k4" "k_registry k4 ! i = Some vm" for i vm
    using that reg4 [of i] ev [of i] by (auto simp: registered_def)
  ultimately show ?thesis using c(2) by auto
qed

lemma halting_cpu_clean: "clean_cpu halting_cpu"
  using halting_cpu_willing
  by (simp add: clean_cpu_def halting_cpu_def ensure_vmx_available_def vmx_enable_def read_exit_def check_vmx_status_def EXIT_REASON_HLT_def Let_def)


text \<open>So the entry point either halts the machine or serves the bridge on a well-formed kernel.\<close>

lemma kernel_start_serves:
  assumes "aligned base" "unat base + POOL_BYTES \<le> 2 ^ 52" "handoff_from_raw ptr rd = Ok h" "ho_vmx h" "\<forall>n. clean_cpu (cpus n)"
  shows "\<exists>k. kernel_ok k \<and> bridge_ok (bridge_new k) \<and>
    kernel_start cpus cpus' m ptr rd input (kernel_boot base) = Some (Ok (bridge_run cpus' 0 (bridge_new k) input))"
proof -
  note ok = kernel_boot_ok [OF assms(1,2)]
  have "k_deleted (kernel_boot base) = 0" by (simp add: kernel_boot_def)
  from bring_up_ends [OF ok this, of cpus m h] bring_up_succeeds [OF assms(5) ok assms(4), where m = m]
  obtain k where "bring_up cpus m h (kernel_boot base) = Some (k, Ok ())" "kernel_ok k" by auto
  then show ?thesis using assms(3) bridge_new_ok by (auto simp: kernel_start_def)
qed

end
