(* ===== verification/Hyper_Host.thy ===== *)
theory Hyper_Host
  imports Mesh Hyper_Boot
begin

text \<open>
  The host's side of the kernel bridge, \<^verbatim>\<open>src/crates/celmesh/src/hyper_host.rs\<close>: the in-process
  simulation of the kernel (\<^verbatim>\<open>LoopbackHyperLink\<close>) and the VM host that sends lifecycle operations over a
  link and everything else to a contained in-memory host (\<^verbatim>\<open>CelhyperVmHost\<close>). A link is a state and
  a call; the simulation's JSON round trip is a parameter. The simulation is compared
  with the kernel it stands for, and the host with the in-memory host of a mesh node.
\<close>

section \<open>The model\<close>

subsection \<open>Wire types\<close>

text \<open>The requests have the shape of the kernel's; the replies carry owned strings and a list of rows.\<close>

type_synonym hyper_request = request

record hyper_vm_row =
  hr_vm_id :: u32
  hr_label :: string
  hr_state :: string
  hr_last_exit :: "u32 option"
  hr_image_path :: "string option"
  hr_cpu_count :: "u32 option"
  hr_memory_mib :: "u64 option"
  hr_boot_blob_crc32c :: "u32 option"

datatype hyper_reply =
    HrCreated u32
  | HrState u32 string "u32 option"
  | HrDeleted u32
  | HrListed "hyper_vm_row list"
  | HrError string
  | HrImageLoaded u32 u32

definition HYPER_MAX_VMS :: nat where "HYPER_MAX_VMS = 4"
definition HYPER_HLT_EXIT_CODE :: u32 where "HYPER_HLT_EXIT_CODE = 12"
definition MAX_STAGED_IMAGE_BYTES :: nat where "MAX_STAGED_IMAGE_BYTES = 4096"

subsection \<open>The simulated kernel\<close>

record loop_slot =
  lo_label :: string
  lo_state :: string
  lo_last_exit :: "u32 option"
  lo_image_path :: "string option"
  lo_cpu_count :: "u32 option"
  lo_memory_mib :: "u64 option"
  lo_boot_blob_crc32c :: "u32 option"

type_synonym loopback = "loop_slot option list"

definition loopback_new :: loopback where
  "loopback_new = replicate HYPER_MAX_VMS None"

definition loop_slot_mut :: "loopback \<Rightarrow> u32 \<Rightarrow> loop_slot cel_result" where
  "loop_slot_mut slots vm_id =
     (if HYPER_MAX_VMS \<le> unat vm_id then Err (Invalid ''hyper: vm id out of range'')
      else ok_or (Invalid ''hyper: vm not allocated'') (slots ! unat vm_id))"

fun loop_alloc :: "loop_slot \<Rightarrow> loopback \<Rightarrow> (loopback \<times> nat) option" where
  "loop_alloc s [] = None"
| "loop_alloc s (None # rest) = Some (Some s # rest, 0)"
| "loop_alloc s (Some t # rest) = map_option (\<lambda>(ss, i). (Some t # ss, Suc i)) (loop_alloc s rest)"

definition lut_char :: "u8 \<Rightarrow> char" where
  "lut_char n = ''0123456789abcdef'' ! unat n"

definition hex_encode :: "bytes \<Rightarrow> string" where
  "hex_encode bs = concat (map (\<lambda>b. [lut_char (drop_bit 4 b), lut_char (b AND 0x0F)]) bs)"

definition host_hex_nibble :: "char \<Rightarrow> u8 cel_result" where
  "host_hex_nibble b =
     (let n = (of_char b :: nat) in
      if 48 \<le> n \<and> n \<le> 57 then Ok (of_nat (n - 48))
      else if 97 \<le> n \<and> n \<le> 102 then Ok (10 + of_nat (n - 97))
      else Err (Invalid ''hyper: image_load: non-hex byte (lowercase required)''))"

fun host_hex_loop :: "string \<Rightarrow> bytes cel_result" where
  "host_hex_loop (a # b # s) =
     bind_result (host_hex_nibble a) (\<lambda>hi. bind_result (host_hex_nibble b) (\<lambda>lo.
     bind_result (host_hex_loop s) (\<lambda>rest. Ok ((push_bit 4 hi OR lo) # rest))))"
| "host_hex_loop _ = Ok []"

fun crc_state :: "u32 \<Rightarrow> bytes \<Rightarrow> u32" where
  "crc_state st [] = st"
| "crc_state st (b # bs) =
     crc_state (((\<lambda>st. if st AND 1 \<noteq> 0 then drop_bit 1 st XOR 0x82F63B78 else drop_bit 1 st) ^^ 8) (st XOR ucast b)) bs"

definition crc32c_bytes :: "bytes \<Rightarrow> u32" where
  "crc32c_bytes bs = crc_state 0xFFFFFFFF bs XOR 0xFFFFFFFF"

definition loop_row :: "nat \<times> loop_slot option \<Rightarrow> hyper_vm_row list" where
  "loop_row is =
     (case snd is of
        None \<Rightarrow> []
      | Some s \<Rightarrow>
          [\<lparr>hr_vm_id = of_nat (fst is), hr_label = lo_label s, hr_state = lo_state s, hr_last_exit = lo_last_exit s,
            hr_image_path = lo_image_path s, hr_cpu_count = lo_cpu_count s, hr_memory_mib = lo_memory_mib s,
            hr_boot_blob_crc32c = lo_boot_blob_crc32c s\<rparr>])"

definition loop_create ::
  "loopback \<Rightarrow> string \<Rightarrow> string option \<Rightarrow> u32 option \<Rightarrow> u64 option \<Rightarrow> u32 option \<Rightarrow> loopback \<times> hyper_reply cel_result" where
  "loop_create slots label image_path cpu_count memory_mib crc =
     (if 32 < length label then (slots, Err (Invalid ''hyper: label > 32 chars''))
      else if (case image_path of None \<Rightarrow> False | Some p \<Rightarrow> 128 < length p)
        then (slots, Err (Invalid ''hyper: image_path > 128 chars''))
      else (case loop_alloc \<lparr>lo_label = label, lo_state = ''created'', lo_last_exit = None, lo_image_path = image_path,
                   lo_cpu_count = cpu_count, lo_memory_mib = memory_mib, lo_boot_blob_crc32c = crc\<rparr> slots of
              None \<Rightarrow> (slots, Err (Invalid ''hyper: vm registry full''))
            | Some (slots', i) \<Rightarrow> (slots', Ok (HrCreated (of_nat i)))))"

definition loop_image_load :: "u32 \<Rightarrow> u32 \<Rightarrow> string \<Rightarrow> hyper_reply cel_result" where
  "loop_image_load len crc hex =
     (if length hex \<noteq> unat len * 2 then Err (Invalid ''hyper: image_load: bytes_hex.len() != 2*len'')
      else if len = 0 then Err (Invalid ''hyper: image_load: len == 0'')
      else if 4096 < len then Err (Invalid ''hyper: image_load: len > MAX_IMAGE_BYTES'')
      else bind_result (host_hex_loop hex) (\<lambda>decoded.
        if crc32c_bytes decoded \<noteq> crc then Err (Invalid ''hyper: image_load: crc32c mismatch'')
        else Ok (HrImageLoaded len crc)))"

fun loopback_apply :: "loopback \<Rightarrow> hyper_request \<Rightarrow> loopback \<times> hyper_reply cel_result" where
  "loopback_apply slots (RqCreate label image_path cpu_count memory_mib crc) =
     loop_create slots label image_path cpu_count memory_mib crc"
| "loopback_apply slots (RqStart vm_id) =
     (case loop_slot_mut slots vm_id of
        Err e \<Rightarrow> (slots, Err e)
      | Ok s \<Rightarrow>
          if terminal (lo_state s) then (slots, Err (Invalid ''hyper: vm already terminal''))
          else if lo_state s = ''running'' then (slots, Err (Invalid ''hyper: vm already running''))
          else
            let s' = s\<lparr>lo_state := ''halted'', lo_last_exit := Some HYPER_HLT_EXIT_CODE\<rparr> in
            (slots[unat vm_id := Some s'], Ok (HrState vm_id (lo_state s') (lo_last_exit s'))))"
| "loopback_apply slots (RqStop vm_id) =
     (case loop_slot_mut slots vm_id of
        Err e \<Rightarrow> (slots, Err e)
      | Ok s \<Rightarrow>
          let s' = (if \<not> terminal (lo_state s) then s\<lparr>lo_state := ''stopped''\<rparr> else s) in
          (slots[unat vm_id := Some s'], Ok (HrState vm_id (lo_state s') (lo_last_exit s'))))"
| "loopback_apply slots (RqDelete vm_id) =
     (case loop_slot_mut slots vm_id of
        Err e \<Rightarrow> (slots, Err e)
      | Ok s \<Rightarrow>
          if \<not> terminal (lo_state s) then (slots, Err (Invalid ''hyper: vm not terminal''))
          else (slots[unat vm_id := None], Ok (HrDeleted vm_id)))"
| "loopback_apply slots RqList = (slots, Ok (HrListed (concat (map loop_row (enumerate 0 slots)))))"
| "loopback_apply slots (RqImageLoad len crc hex) = (slots, loop_image_load len crc hex)"

subsection \<open>Links\<close>

text \<open>
  A link's call turns a request into a reply and may change the link. The JSON codec is a parameter that may
  fail with a message; the type of its texts is a parameter as well.
\<close>

type_synonym 'l hyper_link = "'l \<Rightarrow> hyper_request \<Rightarrow> 'l \<times> hyper_reply cel_result"

record 's json_codec =
  jc_request_to_string :: "hyper_request \<Rightarrow> (string, 's) result"
  jc_request_from_str :: "'s \<Rightarrow> (string, hyper_request) result"
  jc_reply_to_string :: "hyper_reply \<Rightarrow> (string, 's) result"
  jc_reply_from_str :: "'s \<Rightarrow> (string, hyper_reply) result"

definition io_err :: "string \<Rightarrow> (string, 'a) result \<Rightarrow> 'a cel_result" where
  "io_err what r = (case r of Ok a \<Rightarrow> Ok a | Err e \<Rightarrow> Err (Io (what @ e)))"

definition loopback_call :: "'s json_codec \<Rightarrow> loopback hyper_link" where
  "loopback_call j slots req =
     (case bind_result (io_err ''hyper encode: '' (jc_request_to_string j req))
             (\<lambda>s. io_err ''hyper decode: '' (jc_request_from_str j s)) of
        Err e \<Rightarrow> (slots, Err e)
      | Ok decoded \<Rightarrow>
          (case loopback_apply slots decoded of
             (slots, Err e) \<Rightarrow> (slots, Err e)
           | (slots, Ok reply) \<Rightarrow>
               (slots, bind_result (io_err ''hyper reply encode: '' (jc_reply_to_string j reply))
                         (\<lambda>s. io_err ''hyper reply decode: '' (jc_reply_from_str j s)))))"

subsection \<open>The host over a link\<close>

record 'l celhyper_host =
  ch_link :: 'l
  ch_fallback :: mem_vm_host
  ch_labels :: "(u32 \<times> string) list"
  ch_policies :: "(u32 \<times> restart_policy) list"
  ch_strict :: bool

definition celhyper_new :: "'l \<Rightarrow> 'l celhyper_host" where
  "celhyper_new l = \<lparr>ch_link = l, ch_fallback = mem_vm_host_new, ch_labels = [], ch_policies = [], ch_strict = False\<rparr>"

definition with_strict :: "bool \<Rightarrow> 'l celhyper_host \<Rightarrow> 'l celhyper_host" where
  "with_strict b h = h\<lparr>ch_strict := b\<rparr>"

definition celhyper_with_caps :: "capabilities \<Rightarrow> 'l celhyper_host \<Rightarrow> 'l celhyper_host" where
  "celhyper_with_caps caps h = h\<lparr>ch_fallback := host_with_caps caps mem_vm_host_new\<rparr>"

definition ch_remember :: "u32 \<Rightarrow> string \<Rightarrow> restart_policy \<Rightarrow> 'l celhyper_host \<Rightarrow> 'l celhyper_host" where
  "ch_remember vm_id label policy h =
     h\<lparr>ch_labels := bt_insert vm_id label (ch_labels h), ch_policies := bt_insert vm_id policy (ch_policies h)\<rparr>"

definition ch_forget :: "u32 \<Rightarrow> 'l celhyper_host \<Rightarrow> 'l celhyper_host" where
  "ch_forget vm_id h =
     h\<lparr>ch_labels := bt_remove vm_id (ch_labels h), ch_policies := bt_remove vm_id (ch_policies h)\<rparr>"

definition label_of :: "'l celhyper_host \<Rightarrow> u32 \<Rightarrow> string" where
  "label_of h vm_id = (case map_of (ch_labels h) vm_id of None \<Rightarrow> [] | Some l \<Rightarrow> l)"

definition policy_of :: "'l celhyper_host \<Rightarrow> u32 \<Rightarrow> restart_policy" where
  "policy_of h vm_id = (case map_of (ch_policies h) vm_id of None \<Rightarrow> RestartNever | Some p \<Rightarrow> p)"

fun op_kind :: "vm_op \<Rightarrow> string" where
  "op_kind (VmCreate _ _ _ _ _ _) = ''Create''"
| "op_kind (VmStart _) = ''Start''"
| "op_kind (VmStop _) = ''Stop''"
| "op_kind (VmDelete _) = ''Delete''"
| "op_kind VmList = ''List''"
| "op_kind (CreateVolume _ _) = ''CreateVolume''"
| "op_kind (DeleteVolume _) = ''DeleteVolume''"
| "op_kind ListVolumes = ''ListVolumes''"
| "op_kind (AttachVolume _ _ _) = ''AttachVolume''"
| "op_kind (DetachVolume _ _) = ''DetachVolume''"
| "op_kind (ReadVolume _ _ _) = ''ReadVolume''"
| "op_kind (WriteVolume _ _ _) = ''WriteVolume''"
| "op_kind (CreateSnapshot _ _) = ''CreateSnapshot''"
| "op_kind (ListSnapshots _) = ''ListSnapshots''"
| "op_kind (DeleteSnapshot _) = ''DeleteSnapshot''"
| "op_kind (RestoreSnapshot _) = ''RestoreSnapshot''"
| "op_kind (CreateNetwork _ _) = ''CreateNetwork''"
| "op_kind (DeleteNetwork _) = ''DeleteNetwork''"
| "op_kind ListNetworks = ''ListNetworks''"
| "op_kind (AttachNic _ _ _) = ''AttachNic''"
| "op_kind (DetachNic _) = ''DetachNic''"
| "op_kind ListNics = ''ListNics''"
| "op_kind (CreateSecurityGroup _ _) = ''CreateSecurityGroup''"
| "op_kind (DeleteSecurityGroup _) = ''DeleteSecurityGroup''"
| "op_kind ListSecurityGroups = ''ListSecurityGroups''"
| "op_kind (CreateLoadBalancer _ _ _ _ _ _) = ''CreateLoadBalancer''"
| "op_kind (DeleteLoadBalancer _) = ''DeleteLoadBalancer''"
| "op_kind ListLoadBalancers = ''ListLoadBalancers''"

text \<open>
  The derived \<^verbatim>\<open>Debug\<close> form of a reply, which goes into error texts; strings are quoted as in
  \<open>debug_str\<close>, so this is the exact text for strings without characters that \<^verbatim>\<open>Debug\<close> escapes.
\<close>

definition debug_opt :: "('a \<Rightarrow> string) \<Rightarrow> 'a option \<Rightarrow> string" where
  "debug_opt f v = (case v of None \<Rightarrow> ''None'' | Some x \<Rightarrow> ''Some('' @ f x @ '')'')"

fun debug_list :: "string list \<Rightarrow> string" where
  "debug_list [] = []"
| "debug_list [x] = x"
| "debug_list (x # y # ys) = x @ '', '' @ debug_list (y # ys)"

definition debug_row :: "hyper_vm_row \<Rightarrow> string" where
  "debug_row r =
     ''HyperVmRow { vm_id: '' @ show_word (hr_vm_id r) @ '', label: '' @ debug_str (hr_label r) @ '', state: '' @ debug_str (hr_state r) @
     '', last_exit: '' @ debug_opt show_word (hr_last_exit r) @ '', image_path: '' @ debug_opt debug_str (hr_image_path r) @
     '', cpu_count: '' @ debug_opt show_word (hr_cpu_count r) @ '', memory_mib: '' @ debug_opt show_word (hr_memory_mib r) @
     '', boot_blob_crc32c: '' @ debug_opt show_word (hr_boot_blob_crc32c r) @ '' }''"

fun debug_reply :: "hyper_reply \<Rightarrow> string" where
  "debug_reply (HrCreated i) = ''Created { vm_id: '' @ show_word i @ '' }''"
| "debug_reply (HrState i s x) =
     ''State { vm_id: '' @ show_word i @ '', state: '' @ debug_str s @ '', last_exit: '' @ debug_opt show_word x @ '' }''"
| "debug_reply (HrDeleted i) = ''Deleted { vm_id: '' @ show_word i @ '' }''"
| "debug_reply (HrListed rows) = ''Listed { rows: ['' @ debug_list (map debug_row rows) @ ''] }''"
| "debug_reply (HrError m) = ''Error { message: '' @ debug_str m @ '' }''"
| "debug_reply (HrImageLoaded l c) = ''ImageLoaded { len: '' @ show_word l @ '', crc32c: '' @ show_word c @ '' }''"

definition hex8 :: "u32 \<Rightarrow> string" where
  "hex8 w = map (\<lambda>i. lut_char (ucast (drop_bit (4 * i) w AND 0xF))) (rev [0..<8])"

text \<open>One call with the error conversions all operations share.\<close>

definition ch_call ::
  "'l hyper_link \<Rightarrow> 'l celhyper_host \<Rightarrow> hyper_request \<Rightarrow>
   (hyper_reply \<Rightarrow> 'a option) \<Rightarrow> 'l celhyper_host \<times> (string, 'a) result" where
  "ch_call call h req accept =
     (case call (ch_link h) req of
        (l, Err e) \<Rightarrow> (h\<lparr>ch_link := l\<rparr>, Err (''hyper: '' @ debug_error e))
      | (l, Ok reply) \<Rightarrow>
          (h\<lparr>ch_link := l\<rparr>,
           case reply of
             HrError message \<Rightarrow> Err (''hyper: kernel: '' @ message)
           | _ \<Rightarrow> (case accept reply of None \<Rightarrow> Err (''hyper: unexpected reply '' @ debug_reply reply) | Some a \<Rightarrow> Ok a)))"

fun as_created :: "hyper_reply \<Rightarrow> u32 option" where
  "as_created (HrCreated i) = Some i"
| "as_created _ = None"

fun as_state :: "hyper_reply \<Rightarrow> (u32 \<times> string) option" where
  "as_state (HrState i s x) = Some (i, s)"
| "as_state _ = None"

fun as_deleted :: "hyper_reply \<Rightarrow> u32 option" where
  "as_deleted (HrDeleted i) = Some i"
| "as_deleted _ = None"

fun as_image_loaded :: "hyper_reply \<Rightarrow> (u32 \<times> u32) option" where
  "as_image_loaded (HrImageLoaded l c) = Some (l, c)"
| "as_image_loaded _ = None"

definition ch_state_reply :: "'h \<times> (string, u32 \<times> string) result \<Rightarrow> 'h \<times> host_result" where
  "ch_state_reply hr = (fst hr, bind_result (snd hr) (\<lambda>(i, s). Ok (StateIs i s)))"

definition ch_other :: "'l celhyper_host \<Rightarrow> vm_op \<Rightarrow> 'l celhyper_host \<times> host_result" where
  "ch_other h op =
     (if ch_strict h then (h, Err (''hyper: bridge does not implement '' @ op_kind op @ '' (strict mode)''))
      else (case host_apply (ch_fallback h) op of (f, r) \<Rightarrow> (h\<lparr>ch_fallback := f\<rparr>, r)))"

fun celhyper_handle ::
  "'l hyper_link \<Rightarrow> 'l celhyper_host \<Rightarrow> vm_op \<Rightarrow> 'l celhyper_host \<times> host_result" where
  "celhyper_handle call h (VmCreate label policy image_path cpu_count memory_mib crc) =
     (case ch_call call h (RqCreate label image_path cpu_count memory_mib crc) as_created of
        (h, Err e) \<Rightarrow> (h, Err e)
      | (h, Ok vm_id) \<Rightarrow> (ch_remember vm_id label policy h, Ok (Created vm_id)))"
| "celhyper_handle call h (VmStart vm_id) = ch_state_reply (ch_call call h (RqStart vm_id) as_state)"
| "celhyper_handle call h (VmStop vm_id) = ch_state_reply (ch_call call h (RqStop vm_id) as_state)"
| "celhyper_handle call h (VmDelete vm_id) =
     (case ch_call call h (RqDelete vm_id) as_deleted of
        (h, Err e) \<Rightarrow> (h, Err e)
      | (h, Ok vm_id) \<Rightarrow> (ch_forget vm_id h, Ok (Deleted vm_id)))"
| "celhyper_handle call h VmList = (h, Ok (Listed []))"
| "celhyper_handle call h op = ch_other h op"

definition celhyper_row :: "'l celhyper_host \<Rightarrow> node_id \<Rightarrow> hyper_vm_row \<Rightarrow> remote_vm" where
  "celhyper_row h owner r =
     \<lparr>rv_owner = owner, rv_vm_id = hr_vm_id r,
      rv_label = (if hr_label r = [] then label_of h (hr_vm_id r) else hr_label r),
      rv_state = hr_state r, rv_last_exit = hr_last_exit r, rv_epoch = 0, rv_hlc = 0, rv_owner_alive = True,
      rv_restart_policy = policy_of h (hr_vm_id r), rv_volumes = [], rv_image_path = hr_image_path r,
      rv_cpu_count = hr_cpu_count r, rv_memory_mib = hr_memory_mib r, rv_boot_blob_crc32c = hr_boot_blob_crc32c r\<rparr>"

definition celhyper_snapshot :: "'l hyper_link \<Rightarrow> 'l celhyper_host \<Rightarrow> node_id \<Rightarrow> 'l celhyper_host \<times> remote_vm list" where
  "celhyper_snapshot call h owner =
     (case call (ch_link h) RqList of
        (l, Ok (HrListed rows)) \<Rightarrow> (h\<lparr>ch_link := l\<rparr>, map (celhyper_row h owner) rows)
      | (l, _) \<Rightarrow> (h\<lparr>ch_link := l\<rparr>, []))"

definition celhyper_attach_preserved ::
  "'l celhyper_host \<Rightarrow> u32 \<Rightarrow> volume_attachment list \<Rightarrow> 'l celhyper_host \<times> (string, unit) result" where
  "celhyper_attach_preserved h vm_id attachments =
     (case host_attach_preserved (ch_fallback h) vm_id attachments of (f, r) \<Rightarrow> (h\<lparr>ch_fallback := f\<rparr>, r))"

definition celhyper_dyn :: "'l hyper_link \<Rightarrow> 'l celhyper_host vm_host" where
  "celhyper_dyn call =
     \<lparr>vh_handle = celhyper_handle call, vh_snapshot = celhyper_snapshot call, vh_attach_preserved = celhyper_attach_preserved\<rparr>"

text \<open>An image is shipped to the kernel and its echo compared.\<close>

definition stage_image ::
  "'l hyper_link \<Rightarrow> 'l celhyper_host \<Rightarrow> bytes \<Rightarrow> 'l celhyper_host \<times> (string, u32) result" where
  "stage_image call h bs =
     (if bs = [] then (h, Err ''hyper: stage_image: bytes is empty'')
      else if MAX_STAGED_IMAGE_BYTES < length bs
        then (h, Err (''hyper: stage_image: '' @ show_nat (length bs) @ '' bytes exceeds MAX_STAGED_IMAGE_BYTES ('' @
                show_nat MAX_STAGED_IMAGE_BYTES @ '')''))
      else
        let crc = crc32c_bytes bs; len = of_nat (length bs) in
        case ch_call call h (RqImageLoad len crc (hex_encode bs)) as_image_loaded of
          (h, Err e) \<Rightarrow> (h, Err e)
        | (h, Ok (rlen, rcrc)) \<Rightarrow>
            if rlen \<noteq> len \<or> rcrc \<noteq> crc
            then (h, Err (''hyper: stage_image: kernel echoed (len='' @ show_word rlen @ '', crc=0x'' @ hex8 rcrc @ ''); expected (len='' @
                    show_word len @ '', crc=0x'' @ hex8 crc @ '')''))
            else (h, Ok crc))"

section \<open>The theorems\<close>

subsection \<open>Runs of a host, and the codec\<close>

fun run_ops :: "('h \<Rightarrow> 'o \<Rightarrow> 'h \<times> 'r) \<Rightarrow> 'h \<Rightarrow> 'o list \<Rightarrow> 'h \<times> 'r list" where
  "run_ops f h [] = (h, [])"
| "run_ops f h (x # xs) = (case f h x of (h1, r) \<Rightarrow> (case run_ops f h1 xs of (h2, rs) \<Rightarrow> (h2, r # rs)))"

text \<open>Two machines whose steps keep a relation and agree on their answers agree on every run.\<close>

locale lockstep =
  fixes f :: "'a \<Rightarrow> 'x \<Rightarrow> 'a \<times> 'p" and g :: "'b \<Rightarrow> 'x \<Rightarrow> 'b \<times> 'q"
    and R :: "'a \<Rightarrow> 'b \<Rightarrow> bool" and Q :: "'p \<Rightarrow> 'q \<Rightarrow> bool" and ok :: "'x \<Rightarrow> bool"
  assumes step: "R a b \<Longrightarrow> ok x \<Longrightarrow> R (fst (f a x)) (fst (g b x)) \<and> Q (snd (f a x)) (snd (g b x))"
begin

lemma run: "R a b \<Longrightarrow> list_all ok xs \<Longrightarrow>
  R (fst (run_ops f a xs)) (fst (run_ops g b xs)) \<and> list_all2 Q (snd (run_ops f a xs)) (snd (run_ops g b xs))"
proof (induction xs arbitrary: a b)
  case (Cons x xs)
  from step [OF Cons.prems(1), of x] Cons.prems(2)
  have s: "R (fst (f a x)) (fst (g b x))" "Q (snd (f a x)) (snd (g b x))" "list_all ok xs" by simp_all
  from Cons.IH [OF s(1,3)] s(2) show ?case by (simp add: split_beta)
qed simp

end

text \<open>What serialisation guarantees: a value is encoded and decodes to itself.\<close>

definition codec_ok :: "'s json_codec \<Rightarrow> bool" where
  "codec_ok j \<longleftrightarrow> (\<forall>r. \<exists>s. jc_request_to_string j r = Ok s \<and> jc_request_from_str j s = Ok r) \<and>
     (\<forall>r. \<exists>s. jc_reply_to_string j r = Ok s \<and> jc_reply_from_str j s = Ok r)"

lemma loopback_call_apply:
  assumes "codec_ok j"
  shows "loopback_call j = loopback_apply"
proof (intro ext)
  fix slots req
  obtain s where s: "jc_request_to_string j req = Ok s" "jc_request_from_str j s = Ok req" using assms by (auto simp: codec_ok_def)
  obtain slots' r where a: "loopback_apply slots req = (slots', r)" by (cases "loopback_apply slots req")
  show "loopback_call j slots req = loopback_apply slots req"
  proof (cases r)
    case (Ok reply)
    obtain t where "jc_reply_to_string j reply = Ok t" "jc_reply_from_str j t = Ok reply" using assms by (auto simp: codec_ok_def)
    then show ?thesis using s a Ok by (simp add: loopback_call_def io_err_def)
  qed (use s a in \<open>simp add: loopback_call_def io_err_def\<close>)
qed

subsection \<open>Against the in-memory host\<close>

fun lifecycle_op :: "vm_op \<Rightarrow> bool" where
  "lifecycle_op (VmCreate l p image_path c m b) \<longleftrightarrow> (case image_path of None \<Rightarrow> True | Some s \<Rightarrow> length s \<le> 128)"
| "lifecycle_op (VmStart _) \<longleftrightarrow> True"
| "lifecycle_op (VmStop _) \<longleftrightarrow> True"
| "lifecycle_op (VmDelete _) \<longleftrightarrow> True"
| "lifecycle_op VmList \<longleftrightarrow> True"
| "lifecycle_op _ \<longleftrightarrow> False"

definition loop_of :: "slot \<Rightarrow> loop_slot" where
  "loop_of s = \<lparr>lo_label = sl_label s, lo_state = sl_state s, lo_last_exit = sl_last_exit s, lo_image_path = sl_image_path s,
     lo_cpu_count = sl_cpu_count s, lo_memory_mib = sl_memory_mib s, lo_boot_blob_crc32c = sl_boot_blob_crc32c s\<rparr>"

lemma loop_of_simps [simp]:
  "lo_label (loop_of s) = sl_label s" "lo_state (loop_of s) = sl_state s" "lo_last_exit (loop_of s) = sl_last_exit s"
  "lo_image_path (loop_of s) = sl_image_path s" "lo_cpu_count (loop_of s) = sl_cpu_count s"
  "lo_memory_mib (loop_of s) = sl_memory_mib s" "lo_boot_blob_crc32c (loop_of s) = sl_boot_blob_crc32c s"
  "(loop_of s)\<lparr>lo_last_exit := b\<rparr> = loop_of (s\<lparr>sl_last_exit := b\<rparr>)"
  "(loop_of s)\<lparr>lo_state := a\<rparr> = loop_of (s\<lparr>sl_state := a\<rparr>)"
  by (simp_all add: loop_of_def)

definition mirrored :: "loopback celhyper_host \<Rightarrow> mem_vm_host \<Rightarrow> bool" where
  "mirrored h m \<longleftrightarrow> length (mh_slots m) = MAX_SLOTS \<and> mh_caps m = CAP_ALL \<and> ch_link h = map (map_option loop_of) (mh_slots m) \<and>
     (\<forall>i < MAX_SLOTS. \<forall>s. mh_slots m ! i = Some s \<longrightarrow> sl_volumes s = [] \<and>
        map_of (ch_labels h) (of_nat i) = Some (sl_label s) \<and> map_of (ch_policies h) (of_nat i) = Some (sl_restart_policy s))"

lemma mirroredD:
  assumes "mirrored h m"
  shows "length (mh_slots m) = MAX_SLOTS" "mh_caps m = CAP_ALL" "ch_link h = map (map_option loop_of) (mh_slots m)"
    "\<And>i s. i < MAX_SLOTS \<Longrightarrow> mh_slots m ! i = Some s \<Longrightarrow> sl_volumes s = [] \<and>
        map_of (ch_labels h) (of_nat i) = Some (sl_label s) \<and> map_of (ch_policies h) (of_nat i) = Some (sl_restart_policy s)"
  using assms unfolding mirrored_def by blast+

lemma loop_alloc_mirror:
  "loop_alloc (loop_of s) (map (map_option loop_of) xs) = map_option (\<lambda>(ys, i). (map (map_option loop_of) ys, i)) (alloc_slot s xs)"
  by (induction s xs rule: alloc_slot.induct) (auto simp: option.map_comp o_def split_beta intro!: option.map_cong)

lemma alloc_slot_at:
  "alloc_slot s xs = Some (ys, i) \<Longrightarrow> i < length xs \<and> ys = xs[i := Some s]"
  by (induction s xs arbitrary: ys i rule: alloc_slot.induct) auto

lemma loop_slot_mirror:
  assumes "mirrored h m"
  shows "loop_slot_mut (ch_link h) i = (case slot_mut (mh_slots m) i of
      Ok s \<Rightarrow> Ok (loop_of s) | Err e \<Rightarrow> Err (Invalid (''hyper: '' @ e)))"
  using mirroredD [OF assms]
  by (cases "mh_slots m ! unat i") (auto simp: loop_slot_mut_def slot_mut_def HYPER_MAX_VMS_def MAX_SLOTS_def)

lemma all_caps [simp]: "cap_contains CAP_ALL (cap_required op)"
  by (cases op) (simp_all add: cap_contains_def CAP_ALL_def cap_bit_defs CAP_NONE_def)
lemma mirrored_set:
  assumes "mirrored h m" "unat i < MAX_SLOTS" "mh_slots m ! unat i = Some s" "sl_volumes s' = sl_volumes s" "sl_label s' = sl_label s"
    "sl_restart_policy s' = sl_restart_policy s"
  shows "mirrored (h\<lparr>ch_link := (ch_link h)[unat i := Some (loop_of s')]\<rparr>) (set_slot i (Some s') m)"
proof -
  have "map_of (ch_labels h) i = Some (sl_label s)" "map_of (ch_policies h) i = Some (sl_restart_policy s)" "sl_volumes s = []"
    using mirroredD(4) [OF assms(1-3)] by simp_all
  then show ?thesis
    using assms mirroredD(4) [OF assms(1)] mirroredD(1-3) [OF assms(1)]
    by (auto simp: mirrored_def set_slot_def map_update nth_list_update)
qed

lemma ch_call_err: "call (ch_link h) req = (l, Err e) \<Longrightarrow> ch_call call h req acc = (h\<lparr>ch_link := l\<rparr>, Err (''hyper: '' @ debug_error e))"
  by (simp add: ch_call_def)

lemma same_link [simp]: "h\<lparr>ch_link := ch_link h\<rparr> = h"
  by simp

abbreviation same_answer :: "host_result \<Rightarrow> host_result \<Rightarrow> bool" where
  "same_answer \<equiv> rel_result (\<lambda>_ _. True) (=)"

lemma mirrored_create:
  assumes "mirrored h m" "case p of None \<Rightarrow> True | Some s \<Rightarrow> length s \<le> 128"
  shows "mirrored (fst (celhyper_handle loopback_apply h (VmCreate l pol p c mm b))) (fst (host_create m l pol p c mm b)) \<and>
    same_answer (snd (celhyper_handle loopback_apply h (VmCreate l pol p c mm b))) (snd (host_create m l pol p c mm b))"
proof -
  let ?s = "\<lparr>sl_label = l, sl_state = ''created'', sl_last_exit = None, sl_restart_policy = pol, sl_volumes = [], sl_image_path = p,
    sl_cpu_count = c, sl_memory_mib = mm, sl_boot_blob_crc32c = b\<rparr>"
  have lo: "loop_create (ch_link h) l p c mm b =
      (if 32 < length l then (ch_link h, Err (Invalid ''hyper: label > 32 chars''))
       else (case loop_alloc (loop_of ?s) (ch_link h) of None \<Rightarrow> (ch_link h, Err (Invalid ''hyper: vm registry full''))
         | Some (slots', i) \<Rightarrow> (slots', Ok (HrCreated (of_nat i)))))"
    using assms(2) by (auto simp: loop_create_def loop_of_def split: option.splits)
  note d = mirroredD [OF assms(1)]
  show ?thesis
  proof (cases "32 < length l \<or> alloc_slot ?s (mh_slots m) = None")
    case True
    then have "\<exists>e. loop_create (ch_link h) l p c mm b = (ch_link h, Err e)" "\<exists>e. host_create m l pol p c mm b = (m, Err e)"
      unfolding lo by (auto simp: host_create_def loop_alloc_mirror d(3))
    then show ?thesis using assms(1) by (auto simp: ch_call_err)
  next
    case False
    then obtain ys i where a: "alloc_slot ?s (mh_slots m) = Some (ys, i)" "\<not> 32 < length l" by auto
    note ai = alloc_slot_at [OF a(1)]
    then have i: "i < MAX_SLOTS" using d(1) by simp
    have ne: "(of_nat j :: u32) = of_nat i \<longleftrightarrow> j = i" if "j < MAX_SLOTS" for j
      using that i by (simp add: MAX_SLOTS_def word_unat_eq_iff unat_of_nat)
    have "mirrored (ch_remember (of_nat i) l pol (h\<lparr>ch_link := map (map_option loop_of) ys\<rparr>)) (m\<lparr>mh_slots := ys\<rparr>)"
      using d ai ne by (auto simp: mirrored_def ch_remember_def bt.get_ins nth_list_update)
    moreover have "loop_create (ch_link h) l p c mm b = (map (map_option loop_of) ys, Ok (HrCreated (of_nat i)))"
      "host_create m l pol p c mm b = (m\<lparr>mh_slots := ys\<rparr>, Ok (Created (of_nat i)))"
      unfolding lo using a by (simp_all add: host_create_def loop_alloc_mirror d(3))
    ultimately show ?thesis by (simp add: ch_call_def)
  qed
qed
lemma mirrored_start_stop:
  assumes "mirrored h m" "op = VmStart i \<or> op = VmStop i"
  shows "mirrored (fst (celhyper_handle loopback_apply h op)) (fst (host_op m op)) \<and>
    same_answer (snd (celhyper_handle loopback_apply h op)) (snd (host_op m op))"
proof (cases "slot_mut (mh_slots m) i")
  case (Err e)
  then show ?thesis using assms
    by (auto simp: ch_call_err loop_slot_mirror [OF assms(1)] host_start_def host_stop_def ch_state_reply_def)
next
  case (Ok s)
  then have i: "unat i < MAX_SLOTS" "mh_slots m ! unat i = Some s" by (auto simp: slot_mut_Ok)
  have set: "mirrored (h\<lparr>ch_link := (ch_link h)[unat i := Some (loop_of s')]\<rparr>) (set_slot i (Some s') m)"
    if "sl_volumes s' = sl_volumes s" "sl_label s' = sl_label s" "sl_restart_policy s' = sl_restart_policy s" for s'
    using mirrored_set [OF assms(1) i that] .
  show ?thesis using assms(2)
  proof
    assume op: "op = VmStart i"
    show ?thesis using op Ok assms(1) set
      by (auto simp: ch_call_def loop_slot_mirror [OF assms(1)] host_start_def ch_state_reply_def Let_def HYPER_HLT_EXIT_CODE_def)
  next
    assume op: "op = VmStop i"
    show ?thesis using op Ok set
      by (auto simp: ch_call_def loop_slot_mirror [OF assms(1)] host_stop_def ch_state_reply_def Let_def)
  qed
qed

lemma mirrored_delete:
  assumes "mirrored h m"
  shows "mirrored (fst (celhyper_handle loopback_apply h (VmDelete i))) (fst (host_delete m i)) \<and>
    same_answer (snd (celhyper_handle loopback_apply h (VmDelete i))) (snd (host_delete m i))"
proof (cases "slot_mut (mh_slots m) i")
  case (Err e)
  then show ?thesis using assms by (simp add: ch_call_err loop_slot_mirror [OF assms] host_delete_def)
next
  case (Ok s)
  then have i: "unat i < MAX_SLOTS" "mh_slots m ! unat i = Some s" by (auto simp: slot_mut_Ok)
  have ne: "(of_nat j :: u32) = i \<longleftrightarrow> j = unat i" if "j < MAX_SLOTS" for j
    using that by (auto simp: MAX_SLOTS_def word_unat_eq_iff unat_of_nat)
  have "mirrored (ch_forget i (h\<lparr>ch_link := (ch_link h)[unat i := None]\<rparr>)) (set_slot i None m)"
    using mirroredD [OF assms] i ne
    by (auto simp: mirrored_def ch_forget_def set_slot_def bt.get_del map_update nth_list_update split: if_splits)
  then show ?thesis using Ok assms
    by (cases "terminal (sl_state s)") (simp_all add: ch_call_def loop_slot_mirror [OF assms] host_delete_def)
qed

lemma mirrored_step:
  assumes "mirrored h m" "lifecycle_op op"
  shows "mirrored (fst (celhyper_handle loopback_apply h op)) (fst (host_apply m op)) \<and>
    same_answer (snd (celhyper_handle loopback_apply h op)) (snd (host_apply m op))"
proof -
  have "host_apply m op = host_op m op" using mirroredD(2) [OF assms(1)] by (simp add: host_apply_def)
  moreover have "mirrored (fst (celhyper_handle loopback_apply h op)) (fst (host_op m op)) \<and>
    same_answer (snd (celhyper_handle loopback_apply h op)) (snd (host_op m op))"
  proof (cases op)
    case (VmCreate l pol p c mm b)
    then show ?thesis using mirrored_create [OF assms(1), of p] assms(2) by (simp del: celhyper_handle.simps)
  next
    case (VmStart i)
    then show ?thesis by (intro mirrored_start_stop [OF assms(1)]) simp
  next
    case (VmStop i)
    then show ?thesis by (intro mirrored_start_stop [OF assms(1)]) simp
  next
    case (VmDelete i)
    then show ?thesis using mirrored_delete [OF assms(1), of i] by (simp del: celhyper_handle.simps)
  qed (use assms in simp_all)
  ultimately show ?thesis by simp
qed

interpretation mem_sim: lockstep "celhyper_handle loopback_apply" host_apply mirrored same_answer lifecycle_op
  by unfold_locales (rule mirrored_step)

lemma mirrored_snapshot:
  assumes "mirrored h m"
  shows "snd (celhyper_snapshot loopback_apply h owner) = snd (host_snapshot m owner)"
proof -
  note d = mirroredD [OF assms]
  have "map (celhyper_row h owner) (loop_row (i, map_option loop_of x)) = host_row owner (i, x)"
    if "i < MAX_SLOTS" "mh_slots m ! i = x" for i x
    using d(4) [OF that(1)] that by (auto simp: loop_row_def host_row_def celhyper_row_def label_of_def policy_of_def split: option.splits)
  then have row: "map (celhyper_row h owner) (loop_row (i, map_option loop_of x)) = host_row owner (i, x)"
    if "(i, x) \<in> set (enumerate 0 (mh_slots m))" for i x
    using that d(1) by (auto simp: in_set_enumerate_eq)
  have "enumerate 0 (ch_link h) = map (\<lambda>(i, x). (i, map_option loop_of x)) (enumerate 0 (mh_slots m))"
    by (simp add: d(3) enumerate_eq_zip zip_map2)
  then have "map (celhyper_row h owner) (concat (map loop_row (enumerate 0 (ch_link h)))) = concat (map (host_row owner) (enumerate 0 (mh_slots m)))"
    using row by (auto simp: map_concat o_def intro!: arg_cong [where f = concat] map_cong)
  then show ?thesis by (simp add: celhyper_snapshot_def host_snapshot_def remember_owner_def Let_def split: option.splits)
qed

lemma mirrored_new: "mirrored (celhyper_new loopback_new) mem_vm_host_new"
  by (simp add: mirrored_def celhyper_new_def loopback_new_def mem_vm_host_new_def HYPER_MAX_VMS_def MAX_SLOTS_def map_replicate)

definition plain_codec :: "(hyper_request + hyper_reply) json_codec" where
  "plain_codec = \<lparr>jc_request_to_string = (\<lambda>r. Ok (Inl r)),
     jc_request_from_str = (\<lambda>s. case s of Inl r \<Rightarrow> Ok r | Inr _ \<Rightarrow> Err ''not a request''),
     jc_reply_to_string = (\<lambda>r. Ok (Inr r)),
     jc_reply_from_str = (\<lambda>s. case s of Inr r \<Rightarrow> Ok r | Inl _ \<Rightarrow> Err ''not a reply'')\<rparr>"

lemma plain_codec_ok: "codec_ok plain_codec"
  by (simp add: codec_ok_def plain_codec_def)


subsection \<open>The contained host never learns its owner\<close>

text \<open>What a node does with its host: operations, snapshots and restored attachments.\<close>

datatype node_call = NcHandle vm_op | NcSnapshot node_id | NcAttach u32 "volume_attachment list"

fun node_call_step :: "'l hyper_link \<Rightarrow> 'l celhyper_host \<Rightarrow> node_call \<Rightarrow> 'l celhyper_host" where
  "node_call_step call h (NcHandle op) = fst (celhyper_handle call h op)"
| "node_call_step call h (NcSnapshot owner) = fst (celhyper_snapshot call h owner)"
| "node_call_step call h (NcAttach i as) = fst (celhyper_attach_preserved h i as)"

definition unclaimed :: "'l celhyper_host \<Rightarrow> bool" where
  "unclaimed h \<longleftrightarrow> mh_owner (ch_fallback h) = None \<and> mh_slots (ch_fallback h) = replicate MAX_SLOTS None"

lemma no_slot: "slot_mut (replicate MAX_SLOTS None) i = Err (if MAX_SLOTS \<le> unat i then ''vm id out of range'' else ''vm not allocated'')"
  by (simp add: slot_mut_def)

fun is_vm_op :: "vm_op \<Rightarrow> bool" where
  "is_vm_op (VmCreate _ _ _ _ _ _) \<longleftrightarrow> True"
| "is_vm_op (VmStart _) \<longleftrightarrow> True"
| "is_vm_op (VmStop _) \<longleftrightarrow> True"
| "is_vm_op (VmDelete _) \<longleftrightarrow> True"
| "is_vm_op VmList \<longleftrightarrow> True"
| "is_vm_op _ \<longleftrightarrow> False"

lemma celhyper_other: "\<not> is_vm_op op \<Longrightarrow> celhyper_handle call h op = ch_other h op"
  by (cases op) simp_all

lemma vm_op_fallback: "is_vm_op op \<Longrightarrow> ch_fallback (fst (celhyper_handle call h op)) = ch_fallback h"
  by (cases op) (auto simp: ch_call_def ch_remember_def ch_forget_def ch_state_reply_def split: prod.splits result.splits)

lemma fallback_slots:
  assumes "mh_slots m = replicate MAX_SLOTS None" "\<not> is_vm_op op"
  shows "mh_slots (fst (host_op m op)) = replicate MAX_SLOTS None"
  using assms
  by (cases op) (auto simp: host_vault_def host_nets_def delete_volume_commit_def attach_volume_commit_def host_detach_volume_def
      host_read_volume_def host_write_volume_def host_create_network_def host_attach_nic_def no_slot split: option.splits result.splits)

lemma unclaimed_handle: "unclaimed h \<Longrightarrow> unclaimed (fst (celhyper_handle call h op))"
  using fallback_slots [of "ch_fallback h" op]
  by (cases "is_vm_op op")
     (auto simp: unclaimed_def vm_op_fallback celhyper_other ch_other_def host_apply_def split_beta)

lemma unclaimed_step: "unclaimed h \<Longrightarrow> unclaimed (node_call_step call h c)"
proof (cases c)
  case (NcHandle op)
  then show "unclaimed h \<Longrightarrow> ?thesis" by (simp add: unclaimed_handle)
qed (auto simp: unclaimed_def celhyper_snapshot_def celhyper_attach_preserved_def host_attach_preserved_def no_slot
      split: prod.splits result.splits hyper_reply.splits)

fun needs_owner :: "vm_op \<Rightarrow> bool" where
  "needs_owner (CreateVolume _ _) \<longleftrightarrow> True"
| "needs_owner (CreateNetwork _ _) \<longleftrightarrow> True"
| "needs_owner (CreateSecurityGroup _ _) \<longleftrightarrow> True"
| "needs_owner (CreateLoadBalancer _ _ _ _ _ _) \<longleftrightarrow> True"
| "needs_owner (AttachVolume _ _ _) \<longleftrightarrow> True"
| "needs_owner (AttachNic _ _ _) \<longleftrightarrow> True"
| "needs_owner _ \<longleftrightarrow> False"

text \<open>
  C40. The bridge-backed host can never create or attach a volume, a network, a NIC, a security group or a
  load balancer. These operations go to the contained in-memory host, which learns its owner only from its own
  snapshot and knows only its own VMs; the adapter never forwards a snapshot or a create to it. So after
  any calls a node can make, over any link and with any capabilities, each such operation is
  refused, and so are the attachments a supervisor wants to restore.
\<close>

theorem bridge_host_has_no_storage:
  assumes "needs_owner op" "h = fold (\<lambda>c h. node_call_step call h c) calls (celhyper_with_caps caps (celhyper_new l))"
  shows "\<not> is_ok (snd (celhyper_handle call h op)) \<and> \<not> is_ok (snd (celhyper_attach_preserved h i as))"
proof -
  have "unclaimed (celhyper_with_caps caps (celhyper_new l))"
    by (simp add: unclaimed_def celhyper_with_caps_def celhyper_new_def host_with_caps_def mem_vm_host_new_def)
  then have "unclaimed (fold (\<lambda>c h. node_call_step call h c) calls (celhyper_with_caps caps (celhyper_new l)))"
    by (induction calls arbitrary: caps l rule: rev_induct) (simp_all add: unclaimed_step)
  then have u: "unclaimed h" using assms(2) by simp
  have "\<not> is_ok (snd (host_op (ch_fallback h) op))"
    using assms(1) u by (cases op) (auto simp: unclaimed_def host_create_network_def host_attach_nic_def attach_volume_commit_def no_slot split: option.splits)
  then have "\<not> is_ok (snd (ch_other h op))" by (auto simp: ch_other_def host_apply_def split: prod.splits dest: arg_cong [where f = snd])
  moreover have "\<not> is_vm_op op" using assms(1) by (cases op) simp_all
  ultimately show ?thesis using u
    by (auto simp: celhyper_other unclaimed_def celhyper_attach_preserved_def host_attach_preserved_def no_slot)
qed

theorem bridge_host_has_no_storage_witness:
  "\<not> is_ok (snd (celhyper_handle (loopback_call plain_codec)
     (fold (\<lambda>c h. node_call_step (loopback_call plain_codec) h c) [NcSnapshot ''n1'', NcHandle (VmCreate ''a'' RestartNever None None None None)]
        (celhyper_with_caps CAP_ALL (celhyper_new loopback_new)))
     (CreateVolume ''v'' 4096)))"
  by (rule bridge_host_has_no_storage [OF _ refl, THEN conjunct1]) simp

end
