(* ===== verification/Hyper_Sim.thy ===== *)
theory Hyper_Sim
  imports Hyper_Host
begin

text \<open>
  The simulated kernel against the kernel. \<^verbatim>\<open>LoopbackHyperLink\<close> is documented as the reference that every
  transport must match; here it is related to the model of the kernel's bridge (\<open>dispatch\<close> of
  \<^verbatim>\<open>bridge.rs\<close> on top of \<^verbatim>\<open>manager.rs\<close>), running on a processor that accepts every instruction and
  whose guests halt. They agree on every request until the first delete; a delete frees the slot in the
  simulation only.
\<close>

subsection \<open>Answers\<close>

definition path_text :: "string option \<Rightarrow> string" where
  "path_text p = (case p of None \<Rightarrow> [] | Some q \<Rightarrow> q)"

definition row_matches :: "wire_row \<Rightarrow> hyper_vm_row \<Rightarrow> bool" where
  "row_matches w r \<longleftrightarrow> wr_vm_id w = hr_vm_id r \<and> wr_label w = hr_label r \<and> tag_str (wr_state w) = hr_state r \<and>
     wr_last_exit w = hr_last_exit r \<and> wr_image_path w = path_text (hr_image_path r) \<and> wr_cpu_count w = hr_cpu_count r \<and>
     wr_memory_mib w = hr_memory_mib r \<and> wr_boot_blob_crc32c w = hr_boot_blob_crc32c r"

fun reply_matches :: "reply \<Rightarrow> hyper_reply \<Rightarrow> bool" where
  "reply_matches (RpCreated i) (HrCreated j) \<longleftrightarrow> i = j"
| "reply_matches (RpState i t x) (HrState j s y) \<longleftrightarrow> i = j \<and> tag_str t = s \<and> x = y"
| "reply_matches (RpDeleted i) (HrDeleted j) \<longleftrightarrow> i = j"
| "reply_matches (RpListed ws) (HrListed rs) \<longleftrightarrow> list_all2 row_matches (List.map_filter (\<lambda>w. w) ws) rs"
| "reply_matches (RpImageLoaded l c) (HrImageLoaded l' c') \<longleftrightarrow> l = l' \<and> c = c'"
| "reply_matches _ _ \<longleftrightarrow> False"

abbreviation answers_match :: "reply hyper_result \<Rightarrow> hyper_reply cel_result \<Rightarrow> bool" where
  "answers_match \<equiv> rel_result (\<lambda>_ _. True) reply_matches"

subsection \<open>States\<close>

definition slot_matches :: "string \<Rightarrow> extras \<Rightarrow> kvm option \<Rightarrow> loop_slot option \<Rightarrow> bool" where
  "slot_matches l e x y \<longleftrightarrow>
     (case x of
        None \<Rightarrow> y = None
      | Some vm \<Rightarrow>
          (\<exists>s. y = Some s \<and> kvm_get_state vm \<in> {VmCreated, VmHalted, VmStopped} \<and>
             lo_state s = tag_str (kernel_state_tag (kvm_get_state vm)) \<and> lo_last_exit s = last_exit_reason vm \<and>
             l = lo_label s \<and>
             e = \<lparr>ex_image_path = path_text (lo_image_path s), ex_cpu_count = lo_cpu_count s,
               ex_memory_mib = lo_memory_mib s, ex_boot_blob_crc32c = lo_boot_blob_crc32c s\<rparr>))"

text \<open>Six frames are left for every slot that is still free.\<close>

definition room :: "kernel \<Rightarrow> bool" where
  "room k \<longleftrightarrow> fr_next (k_frames k) + card ({..<MAX_VMS} - registered k) * (6 * PAGE_SIZE) \<le> POOL_BYTES"

definition stands_for :: "bridge \<Rightarrow> loopback \<Rightarrow> bool" where
  "stands_for b slots \<longleftrightarrow> kernel_ok (br_kernel b) \<and> k_ready (br_kernel b) \<and> k_deleted (br_kernel b) = 0 \<and> room (br_kernel b) \<and>
     length slots = MAX_VMS \<and> length (br_labels b) = MAX_VMS \<and> length (br_extras b) = MAX_VMS \<and> staged_ok (br_staged b) \<and>
     (\<forall>i < MAX_VMS. bit (k_occupied (br_kernel b)) i \<longleftrightarrow> k_registry (br_kernel b) ! i \<noteq> None) \<and>
     (\<forall>i < MAX_VMS. slot_matches (br_labels b ! i) (br_extras b ! i) (k_registry (br_kernel b) ! i) (slots ! i))"

lemma stands_forD:
  assumes "stands_for b slots"
  shows "kernel_ok (br_kernel b)" "k_ready (br_kernel b)" "k_deleted (br_kernel b) = 0" "room (br_kernel b)"
    "length slots = MAX_VMS" "length (br_labels b) = MAX_VMS" "length (br_extras b) = MAX_VMS" "staged_ok (br_staged b)"
    "\<And>i. i < MAX_VMS \<Longrightarrow> bit (k_occupied (br_kernel b)) i \<longleftrightarrow> k_registry (br_kernel b) ! i \<noteq> None"
    "\<And>i. i < MAX_VMS \<Longrightarrow> slot_matches (br_labels b ! i) (br_extras b ! i) (k_registry (br_kernel b) ! i) (slots ! i)"
    "length (k_registry (br_kernel b)) = MAX_VMS"
  using assms kernel_registry_length [of "br_kernel b"] unfolding stands_for_def by blast+

text \<open>One VM changes its state.\<close>

lemma stands_for_put:
  assumes "stands_for b slots" "i < MAX_VMS" "k_registry (br_kernel b) ! i \<noteq> None"
    "kernel_ok k'" "k_registry k' = (k_registry (br_kernel b))[i := Some vm']" "k_ready k'" "k_deleted k' = 0"
    "k_occupied k' = k_occupied (br_kernel b)" "k_frames k' = k_frames (br_kernel b)" "slot_matches (br_labels b ! i) (br_extras b ! i) (Some vm') (Some s')"
  shows "stands_for (b\<lparr>br_kernel := k'\<rparr>) (slots[i := Some s'])"
proof -
  note d = stands_forD [OF assms(1)]
  have "registered k' = registered (br_kernel b)"
    using assms(2,3,5) d(11) by (auto simp: registered_def nth_list_update split: if_splits)
  then have "room k'" using d(4) assms(9) by (simp add: room_def)
  then show ?thesis using assms d by (auto simp: stands_for_def nth_list_update)
qed

lemma stands_for_same:
  assumes "stands_for b slots" "kernel_ok k'" "k_registry k' = k_registry (br_kernel b)" "k_ready k'" "k_deleted k' = 0"
    "k_occupied k' = k_occupied (br_kernel b)" "k_frames k' = k_frames (br_kernel b)"
  shows "stands_for (b\<lparr>br_kernel := k'\<rparr>) slots"
proof -
  have "room k'" using stands_forD(4) [OF assms(1)] assms(3,7) by (simp add: room_def registered_def)
  then show ?thesis using assms(2-6) stands_forD [OF assms(1)] by (simp add: stands_for_def)
qed

lemma lookup_match:
  assumes "stands_for b slots"
  shows "(\<exists>e e'. vm_lookup (br_kernel b) i = Err e \<and> loop_slot_mut slots i = Err e') \<or>
    (\<exists>vm s. vm_lookup (br_kernel b) i = Ok vm \<and> loop_slot_mut slots i = Ok s \<and> unat i < MAX_VMS \<and>
       k_registry (br_kernel b) ! unat i = Some vm \<and> slots ! unat i = Some s \<and> slot_matches (br_labels b ! unat i) (br_extras b ! unat i) (Some vm) (Some s))"
  using stands_forD(10) [OF assms, of "unat i"]
  by (cases "k_registry (br_kernel b) ! unat i")
     (auto simp: vm_lookup_def loop_slot_mut_def MAX_VMS_def HYPER_MAX_VMS_def slot_matches_def)

subsection \<open>Starting and stopping\<close>

lemma valid_state:
  assumes "kernel_ok k" "i < MAX_VMS" "k_registry k ! i = Some vm"
  shows "kv_state vm = state_code (kvm_get_state vm)"
proof -
  have "state_from_u32 (kv_state vm) \<noteq> None"
    using assms by (auto simp: kernel_ok_def vm_ok_def dest: kernel_invD(4))
  then show ?thesis by (auto simp: kvm_get_state_def state_from_u32_def split: if_splits)
qed

lemma start_vm_clean:
  assumes "clean_cpu c" "kernel_ok k" "unat i < MAX_VMS" "k_registry k ! unat i = Some vm"
  shows "start_vm c k i =
    (if kvm_get_state vm = VmCreated
     then (put_vm (unat i) (vm\<lparr>kv_last_exit := 12, kv_state := state_code VmHalted\<rparr>) (k\<lparr>k_active := Some (unat i)\<rparr>), Ok ())
     else (k\<lparr>k_active := Some (unat i)\<rparr>, Err (HDenied ''Vm::transition: bad source state'')))"
proof -
  obtain fl raw where l: "cpu_launch c = GuestExit fl raw" "read_exit fl raw = Ok ExHlt"
    using assms(1) by (auto simp: clean_cpu_def split: launch.splits)
  have p: "vmptrld c (kv_vmcs_pa vm) = Ok ()" using assms(1) by (auto simp: clean_cpu_def willing_cpu_def is_ok_iff)
  have len: "length (k_registry k) = MAX_VMS" by (rule kernel_registry_length [OF assms(2)])
  have lk: "vm_lookup k i = Ok vm" using assms(3,4) by (simp add: vm_lookup_def)
  have st: "kv_state vm = state_code VmCreated \<longleftrightarrow> kvm_get_state vm = VmCreated"
    using valid_state [OF assms(2-4)] by (cases "kvm_get_state vm") simp_all
  show ?thesis
  proof (cases "kvm_get_state vm = VmCreated")
    case True
    then have "mark_running vm = (vm\<lparr>kv_state := state_code VmRunning\<rparr>, Ok ())"
      using st by (simp add: mark_running_def kvm_transition_def del: state_code.simps)
    then show ?thesis using True lk p l assms(3) len
      by (simp add: start_vm_def set_active_def vm_exit_dispatch_def sched_dispatch_exit_def put_vm_def on_exit_def kvm_transition_def
          EXIT_REASON_HLT_def Let_def del: state_code.simps)
  next
    case False
    then have "mark_running vm = (vm, Err (HDenied ''Vm::transition: bad source state''))"
      using st by (simp add: mark_running_def kvm_transition_def del: state_code.simps)
    then show ?thesis using False lk p by (simp add: start_vm_def set_active_def)
  qed
qed

lemma state_reply_put:
  "i < 4 \<Longrightarrow> i < length (k_registry k) \<Longrightarrow> unat vm_id = i \<Longrightarrow>
   state_reply vm_id (put_vm i vm k) = Ok (RpState vm_id (kernel_state_tag (kvm_get_state vm)) (last_exit_reason vm))"
  by (simp add: state_reply_def vm_state_of_def vm_last_exit_def vm_lookup_def put_vm_def MAX_VMS_def)

lemma halted_vm [simp]:
  "kvm_get_state (vm\<lparr>kv_last_exit := x, kv_state := state_code st\<rparr>) = st" "kvm_get_state (vm\<lparr>kv_state := state_code st\<rparr>) = st"
  "last_exit_reason (vm\<lparr>kv_last_exit := 12\<rparr>) = Some 12" "last_exit_reason (vm\<lparr>kv_state := y\<rparr>) = last_exit_reason vm"
  by (simp_all add: kvm_get_state_def last_exit_reason_def)

lemma start_match:
  assumes "clean_cpu c" "stands_for b slots"
  shows "stands_for (fst (dispatch c b (RqStart i))) (fst (loopback_apply slots (RqStart i))) \<and>
    answers_match (snd (dispatch c b (RqStart i))) (snd (loopback_apply slots (RqStart i)))"
proof -
  note d = stands_forD [OF assms(2)]
  obtain k' r where st: "start_vm c (br_kernel b) i = (k', r)" by (cases "start_vm c (br_kernel b) i")
  have ok: "kernel_ok k'" using start_vm_good [OF st] d(1) by (simp add: good_step_def)
  from lookup_match [OF assms(2), of i] show ?thesis
  proof (elim disjE exE conjE)
    fix e e' assume "vm_lookup (br_kernel b) i = Err e" "loop_slot_mut slots i = Err e'"
    then show ?thesis using assms(2) by (simp add: start_vm_def)
  next
    fix vm s assume vm: "vm_lookup (br_kernel b) i = Ok vm" "loop_slot_mut slots i = Ok s" "unat i < MAX_VMS"
      "k_registry (br_kernel b) ! unat i = Some vm" "slots ! unat i = Some s"
      "slot_matches (br_labels b ! unat i) (br_extras b ! unat i) (Some vm) (Some s)"
    note c = start_vm_clean [OF assms(1) d(1) vm(3,4)]
    show ?thesis
    proof (cases "kvm_get_state vm = VmCreated")
      case True
      let ?vm = "vm\<lparr>kv_last_exit := 12, kv_state := state_code VmHalted\<rparr>"
      have k': "k' = put_vm (unat i) ?vm (br_kernel b\<lparr>k_active := Some (unat i)\<rparr>)" "r = Ok ()"
        using st c True by (simp_all del: state_code.simps)
      have m: "slot_matches (br_labels b ! unat i) (br_extras b ! unat i) (Some ?vm) (Some (s\<lparr>lo_state := ''halted'', lo_last_exit := Some 12\<rparr>))"
        using vm(6) by (simp add: slot_matches_def del: state_code.simps)
      have "stands_for (b\<lparr>br_kernel := k'\<rparr>) (slots[unat i := Some (s\<lparr>lo_state := ''halted'', lo_last_exit := Some 12\<rparr>)])"
        by (rule stands_for_put [OF assms(2) vm(3) _ ok _ _ _ _ _ m]) (use vm d in \<open>simp_all add: k'(1) put_vm_def\<close>)
      moreover have "state_reply i k' = Ok (RpState i TagHalted (Some 12))"
        unfolding k'(1) using vm(3) d(11) by (subst state_reply_put) (simp_all add: MAX_VMS_def del: state_code.simps)
      moreover have "lo_state s = ''created''" using vm(6) True by (simp add: slot_matches_def)
      ultimately show ?thesis
        using st k'(2) vm(2) by (simp add: Let_def HYPER_HLT_EXIT_CODE_def terminal_def)
    next
      case False
      have "terminal (lo_state s)" using vm(6) False by (auto simp: slot_matches_def terminal_def)
      moreover have k': "k' = br_kernel b\<lparr>k_active := Some (unat i)\<rparr>" "\<not> is_ok r" using st c False by auto
      have "stands_for (b\<lparr>br_kernel := k'\<rparr>) slots"
        by (rule stands_for_same [OF assms(2) ok]) (use d in \<open>simp_all add: k'(1)\<close>)
      ultimately show ?thesis using st k'(2) vm(2) by (cases r) simp_all
    qed
  qed
qed

lemma stop_match:
  assumes "stands_for b slots"
  shows "stands_for (fst (dispatch c b (RqStop i))) (fst (loopback_apply slots (RqStop i))) \<and>
    answers_match (snd (dispatch c b (RqStop i))) (snd (loopback_apply slots (RqStop i)))"
proof -
  note d = stands_forD [OF assms]
  obtain k' r where st: "stop_vm (br_kernel b) i = (k', r)" by (cases "stop_vm (br_kernel b) i")
  have ok: "kernel_ok k'" using stop_vm_good [OF st] d(1) by (simp add: good_step_def)
  from lookup_match [OF assms, of i] show ?thesis
  proof (elim disjE exE conjE)
    fix e e' assume "vm_lookup (br_kernel b) i = Err e" "loop_slot_mut slots i = Err e'"
    then show ?thesis using assms by (simp add: stop_vm_def)
  next
    fix vm s assume vm: "vm_lookup (br_kernel b) i = Ok vm" "loop_slot_mut slots i = Ok s" "unat i < MAX_VMS"
      "k_registry (br_kernel b) ! unat i = Some vm" "slots ! unat i = Some s"
      "slot_matches (br_labels b ! unat i) (br_extras b ! unat i) (Some vm) (Some s)"
    show ?thesis
    proof (cases "kvm_get_state vm = VmCreated")
      case True
      let ?vm = "vm\<lparr>kv_state := state_code VmStopped\<rparr>"
      have "kv_state vm = state_code VmCreated" using valid_state [OF d(1) vm(3,4)] True by simp
      then have k': "k' = put_vm (unat i) ?vm (br_kernel b)" "r = Ok ()"
        using st True vm(1) by (simp_all add: stop_vm_def kvm_stop_def)
      have m: "slot_matches (br_labels b ! unat i) (br_extras b ! unat i) (Some ?vm) (Some (s\<lparr>lo_state := ''stopped''\<rparr>))"
        using vm(6) by (simp add: slot_matches_def del: state_code.simps)
      have "stands_for (b\<lparr>br_kernel := k'\<rparr>) (slots[unat i := Some (s\<lparr>lo_state := ''stopped''\<rparr>)])"
        by (rule stands_for_put [OF assms vm(3) _ ok _ _ _ _ _ m]) (use vm d in \<open>simp_all add: k'(1) put_vm_def\<close>)
      moreover have "state_reply i k' = Ok (RpState i TagStopped (last_exit_reason vm))"
        unfolding k'(1) using vm(3) d(11) by (subst state_reply_put) (simp_all add: MAX_VMS_def del: state_code.simps)
      moreover have "lo_state s = ''created''" "lo_last_exit s = last_exit_reason vm" using vm(6) True by (simp_all add: slot_matches_def)
      ultimately show ?thesis using st k'(2) vm(2) by (simp add: Let_def terminal_def)
    next
      case False
      then have t: "is_terminal (kvm_get_state vm)" "terminal (lo_state s)" using vm(6) by (auto simp: slot_matches_def terminal_def)
      then have k': "k' = br_kernel b" "r = Ok ()" using st vm(1) by (simp_all add: stop_vm_def)
      moreover have "slots[unat i := Some s] = slots" using vm(5) by (metis list_update_id)
      moreover have "state_reply i (br_kernel b) = Ok (RpState i (kernel_state_tag (kvm_get_state vm)) (last_exit_reason vm))"
        using vm(1) by (simp add: state_reply_def vm_state_of_def vm_last_exit_def)
      ultimately show ?thesis using assms st vm(2,6) t by (simp add: Let_def slot_matches_def)
    qed
  qed
qed
subsection \<open>Creating\<close>

lemma loop_alloc_first:
  "loop_alloc s xs = (if None \<in> set xs then Some (xs[length (takeWhile (\<lambda>x. x \<noteq> None) xs) := Some s], length (takeWhile (\<lambda>x. x \<noteq> None) xs)) else None)"
  by (induction s xs rule: loop_alloc.induct) auto

lemma first_free:
  assumes "s < length xs" "xs ! s = None" "\<And>j. j < s \<Longrightarrow> xs ! j \<noteq> None"
  shows "length (takeWhile (\<lambda>x. x \<noteq> None) xs) = s"
proof (rule order_antisym)
  show "s \<le> length (takeWhile (\<lambda>x. x \<noteq> None) xs)" using assms by (intro length_takeWhile_less_P_nth) auto
  show "length (takeWhile (\<lambda>x. x \<noteq> None) xs) \<le> s"
  proof (rule ccontr)
    assume "\<not> ?thesis"
    then have "takeWhile (\<lambda>x. x \<noteq> None) xs ! s \<noteq> None" by (metis (mono_tags, lifting) not_le nth_mem set_takeWhileD)
    with \<open>\<not> ?thesis\<close> show False using assms(2) by (simp add: takeWhile_nth)
  qed
qed

lemma create_vm_fresh:
  assumes "kernel_ok k" "create_vm c k req = (k', Ok i)"
  shows "unat i < MAX_VMS \<and> k_registry k ! unat i = None \<and> kernel_ok k' \<and> k_deleted k' = k_deleted k \<and>
    (\<exists>pa ep. k_registry k' = (k_registry k)[unat i := Some (kvm_new i pa ep)])"
proof -
  obtain root hpa where inv: "kernel_inv k root hpa" using assms(1) by (auto simp: kernel_ok_def)
  have "create_vm_with c k req = (k', Ok i)" using assms(2) by (auto simp: create_vm_def split: if_splits)
  from create_vm_OkE [OF this inv] obtain s ept pa k2 where c: "s < MAX_VMS" "i = of_nat s" "k_registry k ! s = None"
    "k_registry k2 = k_registry k" "k' = put_vm s (kvm_new i pa (eptp ept)) k2" by metis
  moreover have "kernel_ok k'" using create_vm_good [OF assms(2)] assms(1) by (simp add: good_step_def)
  ultimately show ?thesis using create_keeps_deleted [OF assms(2)] by (auto simp: put_vm_def unat_of_nat MAX_VMS_def)
qed

lemma new_vm [simp]: "kvm_get_state (kvm_new i pa ep) = VmCreated" "last_exit_reason (kvm_new i pa ep) = None"
  by (simp_all add: kvm_new_def kvm_get_state_def last_exit_reason_def del: state_code.simps)

lemma create_vm_first:
  assumes "create_vm c k req = (k', Ok i)" "j < unat i"
  shows "bit (k_occupied k) j"
proof -
  obtain k1 s where r: "reserve_slot k = (k1, Ok s)" "i = of_nat s"
    using assms(1) by (auto simp: create_vm_def create_vm_with_def Let_def split: prod.splits result.splits if_splits)
  then have f: "find (\<lambda>i. k_occupied k AND bit_at i = 0) [0..<MAX_VMS] = Some s" by (auto simp: reserve_slot_def Let_def split: option.splits)
  then have s: "s < MAX_VMS" "\<And>j. j < s \<Longrightarrow> k_occupied k AND bit_at j \<noteq> 0"
    by (auto simp: find_Some_iff)
  have "unat i = s" using r(2) s(1) by (simp add: unat_of_nat MAX_VMS_def)
  then show ?thesis using s assms(2) and_bit_at [of j "k_occupied k"] by (simp add: MAX_VMS_def)
qed

lemma bit_or_at: "j < 32 \<Longrightarrow> bit (w OR bit_at i) j \<longleftrightarrow> bit w j \<or> j = i" for w :: u32
  by (auto simp: bit_or_iff bit_at_def push_bit_of_1 bit_exp_iff)

lemma room_create:
  assumes "room k" "registered k' = insert i (registered k)" "i \<notin> registered k" "i < MAX_VMS"
    "fr_next (k_frames k') \<le> fr_next (k_frames k) + 6 * PAGE_SIZE"
  shows "room k'"
proof -
  have "{..<MAX_VMS} - registered k = insert i ({..<MAX_VMS} - registered k')" "i \<notin> {..<MAX_VMS} - registered k'" using assms(2-4) by auto
  then have "card ({..<MAX_VMS} - registered k) = Suc (card ({..<MAX_VMS} - registered k'))" by simp
  then show ?thesis using assms(1,5) by (simp add: room_def)
qed

lemma image_fits:
  assumes "staged_ok s"
  shows "length (cr_blob (from_boot_image (from_staged_or_embedded s crc))) \<le> PAGE_SIZE"
proof -
  have "length HELLO_BLOB \<le> PAGE_SIZE"
    by (simp add: HELLO_BLOB_def length_build_blob BLOB_LEN_def GUEST_MARKER_def PAGE_SIZE_def)
  then show ?thesis using assms staged_choice(1) [OF assms, of crc]
    by (auto simp: from_boot_image_def staged_ok_def MAX_IMAGE_BYTES_def)
qed

lemma create_match:
  assumes "clean_cpu c" "stands_for b slots"
  shows "stands_for (fst (dispatch c b (RqCreate l p cc mm crc))) (fst (loopback_apply slots (RqCreate l p cc mm crc))) \<and>
    answers_match (snd (dispatch c b (RqCreate l p cc mm crc))) (snd (loopback_apply slots (RqCreate l p cc mm crc)))"
proof (cases "32 < length l \<or> (case p of None \<Rightarrow> False | Some q \<Rightarrow> 128 < length q)")
  case True
  then show ?thesis using assms(2)
    by (auto simp: dispatch_create_def loop_create_def LABEL_MAX_def IMAGE_PATH_MAX_def split: option.splits)
next
  case fits: False
  note d = stands_forD [OF assms(2)]
  let ?k = "br_kernel b" and ?req = "from_boot_image (from_staged_or_embedded (br_staged b) crc)"
  have none: "slots ! i = None \<longleftrightarrow> k_registry ?k ! i = None" if "i < MAX_VMS" for i
    using d(10) [OF that] by (auto simp: slot_matches_def split: option.splits)
  show ?thesis
  proof (cases "None \<in> set slots")
    case False
    then have "\<forall>i < MAX_VMS. bit (k_occupied ?k) i" using d(5,9) none by (metis in_set_conv_nth)
    then have "find (\<lambda>i. k_occupied ?k AND bit_at i = 0) [0..<MAX_VMS] = None"
      using and_bit_at [of _ "k_occupied ?k"] by (auto simp: find_None_iff MAX_VMS_def)
    then have "\<exists>k1 e. reserve_slot ?k = (k1, Err e) \<and> k1 = ?k" by (simp add: reserve_slot_def)
    then obtain e where "create_vm c ?k ?req = (?k, Err e)" using d(2) by (auto simp: create_vm_def create_vm_with_def)
    then show ?thesis using fits False assms(2)
      by (auto simp: dispatch_create_def loop_create_def loop_alloc_first LABEL_MAX_def IMAGE_PATH_MAX_def split: option.splits)
  next
    case True
    then obtain j where j: "j < MAX_VMS" "k_registry ?k ! j = None" using d(5) none by (auto simp: in_set_conv_nth)
    then have "j \<in> {..<MAX_VMS} - registered ?k" by (simp add: registered_def)
    then have "card ({..<MAX_VMS} - registered ?k) \<noteq> 0" by auto
    then have six: "fr_next (k_frames ?k) + 6 * PAGE_SIZE \<le> POOL_BYTES" using d(4) by (cases "card ({..<MAX_VMS} - registered ?k)") (auto simp: room_def)
    have fr: "frames_ok (k_frames ?k)" using d(1) by (auto simp: kernel_ok_def dest: kernel_invD(2))
    have wc: "willing_cpu c" using assms(1) by (simp add: clean_cpu_def)
    have nb: "\<not> bit (k_occupied ?k) j" using d(9) [OF j(1)] j(2) by simp
    from create_vm_total [OF fr wc d(2) image_fits [OF d(8)] six nb j(1)]
    obtain k' i where c: "create_vm c ?k ?req = (k', Ok i)" "fr_next (k_frames k') \<le> fr_next (k_frames ?k) + 6 * PAGE_SIZE" by blast
    note o = create_vm_occupied [OF c(1)] and g = create_vm_fresh [OF d(1) c(1)]
    from g obtain pa ep where vm: "k_registry k' = (k_registry ?k)[unat i := Some (kvm_new i pa ep)]" by auto
    have i: "unat i < MAX_VMS" "k_registry ?k ! unat i = None" using g by auto
    let ?s = "\<lparr>lo_label = l, lo_state = ''created'', lo_last_exit = None, lo_image_path = p, lo_cpu_count = cc, lo_memory_mib = mm, lo_boot_blob_crc32c = crc\<rparr>"
    have first: "length (takeWhile (\<lambda>x. x \<noteq> None) slots) = unat i"
    proof (rule first_free)
      show "slots ! j \<noteq> None" if "j < unat i" for j
        using that create_vm_first [OF c(1) that] d(9) [of j] none [of j] i(1) by auto
    qed (use i none d(5) in auto)
    have lo: "loop_create slots l p cc mm crc = (slots[unat i := Some ?s], Ok (HrCreated i))"
      using fits True first by (auto simp: loop_create_def loop_alloc_first split: option.splits)
    define b' where "b' = b\<lparr>br_kernel := k', br_labels := (br_labels b)[unat i := l],
      br_extras := (br_extras b)[unat i := \<lparr>ex_image_path = path_text p, ex_cpu_count = cc, ex_memory_mib = mm, ex_boot_blob_crc32c = crc\<rparr>]\<rparr>"
    have di: "dispatch c b (RqCreate l p cc mm crc) = (b', Ok (RpCreated i))"
      using fits c(1) i(1) by (auto simp: dispatch_create_def remember_label_def remember_extras_def label_from_slice_def image_path_from_slice_def
          LABEL_MAX_def IMAGE_PATH_MAX_def ROWS_MAX_def MAX_VMS_def path_text_def b'_def split: option.splits)
    have "registered k' = insert (unat i) (registered ?k)" "unat i \<notin> registered ?k"
      using vm i d(11) by (auto simp: registered_def nth_list_update split: if_splits)
    then have rm: "room k'" using room_create [OF d(4) _ _ i(1) c(2)] by simp
    have oc: "bit (k_occupied k') x \<longleftrightarrow> k_registry k' ! x \<noteq> None" if "x < MAX_VMS" for x
      using o d(9) [OF that] vm i d(11) that bit_or_at [of x "k_occupied ?k" "unat i"] by (auto simp: nth_list_update MAX_VMS_def split: if_splits)
    have "stands_for b' (slots[unat i := Some ?s])"
      unfolding stands_for_def
    proof (intro conjI allI impI)
      fix x assume x: "x < MAX_VMS"
      show "slot_matches (br_labels b' ! x) (br_extras b' ! x) (k_registry (br_kernel b') ! x) (slots[unat i := Some ?s] ! x)"
        using x d(5-7,10,11) vm by (cases "x = unat i") (simp_all add: b'_def slot_matches_def)
      show "bit (k_occupied (br_kernel b')) x \<longleftrightarrow> k_registry (br_kernel b') ! x \<noteq> None" using oc [OF x] by (simp add: b'_def)
    qed (use d g o rm in \<open>simp_all add: b'_def\<close>)
    then show ?thesis unfolding di by (simp add: lo)
  qed
qed
subsection \<open>Listing and uploading\<close>

lemma map_filter_matches:
  assumes "length xs = length ys" "\<And>i. i < length xs \<Longrightarrow> (case xs ! i of None \<Rightarrow> ys ! i = [] | Some w \<Rightarrow> \<exists>r. ys ! i = [r] \<and> P w r)"
  shows "list_all2 P (List.map_filter (\<lambda>w. w) xs) (concat ys)"
  using assms
proof (induction xs ys rule: list_induct2)
  case (Cons x xs y ys)
  have hd: "case x of None \<Rightarrow> y = [] | Some w \<Rightarrow> \<exists>r. y = [r] \<and> P w r" using Cons.prems [of 0] by (cases x) simp_all
  have "list_all2 P (List.map_filter (\<lambda>w. w) xs) (concat ys)" 
  proof (rule Cons.IH)
    fix i assume "i < length xs"
    then show "case xs ! i of None \<Rightarrow> ys ! i = [] | Some w \<Rightarrow> \<exists>r. ys ! i = [r] \<and> P w r"
      using Cons.prems [of "Suc i"] by (cases "xs ! i") simp_all
  qed
  with hd show ?case by (cases x) (auto simp: List.map_filter_def)
qed (simp add: List.map_filter_def)

lemma list_match:
  assumes "stands_for b slots"
  shows "answers_match (snd (dispatch c b RqList)) (snd (loopback_apply slots RqList))"
proof -
  note d = stands_forD [OF assms]
  have "list_all2 row_matches (List.map_filter (\<lambda>w. w) (build_rows b)) (concat (map loop_row (enumerate 0 slots)))"
  proof (rule map_filter_matches)
    show "length (build_rows b) = length (map loop_row (enumerate 0 slots))"
      using d(5,11) by (simp add: build_rows_def kernel_list_vms_def Let_def)
    fix i assume "i < length (build_rows b)"
    then have i: "i < MAX_VMS" using d(11) by (simp add: build_rows_def kernel_list_vms_def Let_def)
    then have "enumerate 0 slots ! i = (i, slots ! i)" "enumerate 0 (map (list_entry (br_kernel b)) [0..<MAX_VMS]) ! i = (i, list_entry (br_kernel b) i)"
      using d(5) by (simp_all add: nth_enumerate_eq)
    then show "case build_rows b ! i of None \<Rightarrow> map loop_row (enumerate 0 slots) ! i = []
        | Some w \<Rightarrow> \<exists>r. map loop_row (enumerate 0 slots) ! i = [r] \<and> row_matches w r"
      using i d(3,5,11) d(10) [OF i]
      by (auto simp: build_rows_def kernel_list_vms_def Let_def list_entry_def loop_row_def row_matches_def slot_matches_def split: option.splits)
  qed
  then show ?thesis by simp
qed

lemma crc_state_eq: "crc_state st bs = crc32c_continue st bs"
proof (induction bs arbitrary: st)
  case (Cons b bs)
  have "(\<lambda>st. if st AND 1 \<noteq> 0 then drop_bit 1 st XOR 0x82F63B78 else drop_bit 1 st) = crc_bit" by (simp add: fun_eq_iff crc_bit_def)
  then show ?case using Cons by simp
qed simp

lemma crc32c_bytes_eq [simp]: "crc32c_bytes = crc32c"
  by (simp add: fun_eq_iff crc32c_bytes_def crc32c_def crc_state_eq)

lemma host_nibble_eq: "(\<exists>n. hex_nibble x = Ok n \<and> host_hex_nibble x = Ok n) \<or> (\<exists>e e'. hex_nibble x = Err e \<and> host_hex_nibble x = Err e')"
  by (simp add: hex_nibble_def host_hex_nibble_def Let_def)

lemma host_hex_eq: "(\<exists>bs. hex_loop s = Ok bs \<and> host_hex_loop s = Ok bs) \<or> (\<exists>e e'. hex_loop s = Err e \<and> host_hex_loop s = Err e')"
proof (induction s rule: hex_loop.induct)
  case (1 a b s)
  then show ?case using host_nibble_eq [of a] host_nibble_eq [of b] by (elim disjE exE conjE) simp_all
qed simp_all

lemma upload_match:
  assumes "stands_for b slots"
  shows "stands_for (fst (dispatch c b (RqImageLoad len crc hex))) slots \<and>
    answers_match (snd (dispatch c b (RqImageLoad len crc hex))) (loop_image_load len crc hex)"
proof -
  obtain s r where s: "stage_from_hex (br_staged b) hex len crc = (s, r)" by (cases "stage_from_hex (br_staged b) hex len crc")
  have "staged_ok s" using stage_ok(1) [OF stands_forD(8) [OF assms] s] .
  then have "stands_for (b\<lparr>br_staged := s\<rparr>) slots" using assms by (simp add: stands_for_def)
  moreover have "is_ok r \<longleftrightarrow> (\<exists>bs. hex_loop hex = Ok bs \<and> crc32c bs = crc) \<and> length hex = unat len * 2 \<and> 0 < unat len \<and> unat len \<le> 4096"
    using s by (auto simp: stage_from_hex_def Let_def hex_decode_def MAX_IMAGE_BYTES_def PAGE_SIZE_def split: if_splits result.splits)
  moreover have "is_ok (loop_image_load len crc hex) \<longleftrightarrow>
      (\<exists>bs. hex_loop hex = Ok bs \<and> crc32c bs = crc) \<and> length hex = unat len * 2 \<and> 0 < unat len \<and> unat len \<le> 4096"
    using host_hex_eq [of hex] unat_gt_0 [of len]
    by (elim disjE exE conjE) (auto simp: loop_image_load_def word_less_nat_alt)
  moreover have "loop_image_load len crc hex = Ok x \<Longrightarrow> x = HrImageLoaded len crc" for x
    by (auto simp: loop_image_load_def bind_result_eq_Ok split: if_splits)
  ultimately show ?thesis using s
    by (cases r; cases "loop_image_load len crc hex") (auto simp: is_ok_iff)
qed

subsection \<open>The simulation\<close>

fun no_delete :: "hyper_request \<Rightarrow> bool" where
  "no_delete (RqDelete _) \<longleftrightarrow> False"
| "no_delete _ \<longleftrightarrow> True"

lemma request_match:
  assumes "clean_cpu c" "stands_for b slots" "no_delete r"
  shows "stands_for (fst (dispatch c b r)) (fst (loopback_apply slots r)) \<and>
    answers_match (snd (dispatch c b r)) (snd (loopback_apply slots r))"
proof (cases r)
  case (RqCreate l p cc mm crc)
  then show ?thesis using create_match [OF assms(1,2)] by blast
next
  case (RqStart i)
  then show ?thesis using start_match [OF assms(1,2)] by blast
next
  case (RqStop i)
  then show ?thesis using stop_match [OF assms(2)] by blast
next
  case RqList
  then show ?thesis using list_match [OF assms(2), of c] assms(2) by simp
next
  case (RqImageLoad len crc hex)
  then show ?thesis using upload_match [OF assms(2), of c len crc hex] by simp
qed (use assms(3) in simp)

text \<open>The kernel's side of the simulation: the processor does not change.\<close>

definition kernel_call :: "cpu \<times> bridge \<Rightarrow> hyper_request \<Rightarrow> (cpu \<times> bridge) \<times> reply hyper_result" where
  "kernel_call cb r = (case dispatch (fst cb) (snd cb) r of (b, a) \<Rightarrow> ((fst cb, b), a))"

interpretation kernel_sim: lockstep kernel_call loopback_apply "\<lambda>(c, b) slots. clean_cpu c \<and> stands_for b slots" answers_match no_delete
  by unfold_locales (auto simp: kernel_call_def split_beta dest: request_match)
lemma stands_for_boot:
  assumes "clean_cpu c" "kernel_ok (kernel_boot base)" "init_runtime c (kernel_boot base) = (k, r)"
  shows "stands_for (bridge_new k) loopback_new"
proof -
  note i = init_runtime_boot [OF assms(1,3)]
  have k: "kernel_ok k" "k_deleted k = 0"
    using init_runtime_good [OF assms(3)] init_keeps_deleted [OF assms(3)] assms(2) by (simp_all add: good_step_def kernel_boot_def)
  have "registered k = {}" using i(5) by (auto simp: registered_def)
  then have "room k" using i(4) by (simp add: room_def sizes MAX_VMS_def)
  then show ?thesis using i k
    by (simp add: stands_for_def bridge_new_def loopback_new_def slot_matches_def HYPER_MAX_VMS_def MAX_VMS_def ROWS_MAX_def staged_ok_def staged_empty_def)
qed

lemma kernel_call_run:
  "fst (fst (run_ops kernel_call (c, b) rs)) = c \<and> run_ops (dispatch c) b rs = (snd (fst (run_ops kernel_call (c, b) rs)), snd (run_ops kernel_call (c, b) rs))"
  by (induction rs arbitrary: b) (simp_all add: kernel_call_def split_beta)

lemma stands_for_run:
  assumes "clean_cpu c" "stands_for b slots" "list_all no_delete reqs"
    "run_ops (dispatch c) b reqs = (b', as)" "run_ops loopback_apply slots reqs = (slots', as')"
  shows "stands_for b' slots' \<and> list_all2 answers_match as as'"
  using kernel_sim.run [of "(c, b)" slots reqs] kernel_call_run [of c b reqs] assms by (auto simp: split_beta)


definition booted :: bridge where
  "booted = bridge_new (fst (init_runtime halting_cpu (kernel_boot 0x100000)))"

lemma sample_base: "aligned 0x100000" "unat (0x100000 :: u64) + POOL_BYTES \<le> 2 ^ 52"
  by (simp_all add: aligned_def sizes)


subsection \<open>After a delete\<close>

lemma full_refused:
  assumes "\<forall>i < MAX_VMS. bit (k_occupied (br_kernel b)) i"
  shows "\<not> is_ok (snd (dispatch c b (RqCreate l p cc mm crc)))"
proof -
  have "find (\<lambda>i. k_occupied (br_kernel b) AND bit_at i = 0) [0..<MAX_VMS] = None"
    using assms and_bit_at [of _ "k_occupied (br_kernel b)"] by (auto simp: find_None_iff MAX_VMS_def)
  then have "\<exists>k e. create_vm c (br_kernel b) req = (k, Err e)" for req
    by (cases "k_ready (br_kernel b)") (simp_all add: create_vm_def create_vm_with_def reserve_slot_def)
  from this [of "from_boot_image (from_staged_or_embedded (br_staged b) crc)"] show ?thesis
    by (auto simp: dispatch_create_def split: result.splits)
qed

text \<open>
  A delete gives the slot back in the simulation only. When the kernel and the simulation agree and every slot is
  taken, both delete a halted or stopped VM; then the simulation accepts a further VM in the freed slot, and the kernel refuses
  it, because its registry never gives a slot back.
\<close>

lemma deleted_slot_diverges:
  assumes "stands_for b slots" "None \<notin> set slots" "slots ! unat i = Some s" "unat i < MAX_VMS" "terminal (lo_state s)" "length l \<le> 32"
    "dispatch c b (RqDelete i) = (b1, a1)" "loopback_apply slots (RqDelete i) = (slots1, a1')"
  shows "a1 = Ok (RpDeleted i) \<and> a1' = Ok (HrDeleted i) \<and>
    snd (loopback_apply slots1 (RqCreate l None None None None)) = Ok (HrCreated i) \<and>
    \<not> is_ok (snd (dispatch c b1 (RqCreate l None None None None)))"
proof -
  note d = stands_forD [OF assms(1)]
  obtain vm where vm: "k_registry (br_kernel b) ! unat i = Some vm" "is_terminal (kvm_get_state vm)"
    using d(10) [OF assms(4)] assms(3,5) by (auto simp: slot_matches_def terminal_def split: option.splits)
  then have "delete_vm (br_kernel b) i = ((br_kernel b)\<lparr>k_deleted := bit_at (unat i)\<rparr>, Ok ())"
    using assms(4) d(3) by (simp add: delete_vm_def vm_lookup_def Let_def)
  then have k: "a1 = Ok (RpDeleted i)" "k_occupied (br_kernel b1) = k_occupied (br_kernel b)"
    using assms(7) by (auto simp: forget_extras_def forget_label_def)
  have lo: "a1' = Ok (HrDeleted i)" "slots1 = slots[unat i := None]"
    using assms(3-5,8) by (auto simp: loop_slot_mut_def HYPER_MAX_VMS_def MAX_VMS_def)
  have some: "slots ! j \<noteq> None" if "j < MAX_VMS" for j using assms(2) d(5) that by (metis nth_mem)
  have "length (takeWhile (\<lambda>x. x \<noteq> None) slots1) = unat i"
    by (rule first_free) (use lo(2) d(5) assms(4) some in auto)
  moreover have "None \<in> set slots1" using lo(2) d(5) assms(4) by (simp add: set_update_memI)
  ultimately have "snd (loopback_apply slots1 (RqCreate l None None None None)) = Ok (HrCreated i)"
    using assms(6) by (simp add: loop_create_def loop_alloc_first)
  moreover have "\<forall>j < MAX_VMS. bit (k_occupied (br_kernel b1)) j"
    using some d(9,10) k(2) by (fastforce simp: slot_matches_def split: option.splits)
  ultimately show ?thesis using k(1) lo(1) full_refused by blast
qed

end
