(* ===== verification/Disk_Image.thy ===== *)
theory Disk_Image
  imports Common Hyper_Wire
begin

text \<open>
  The parts every disk-image reader of celimage shares: \<^verbatim>\<open>util.rs\<close>, \<^verbatim>\<open>disk.rs\<close>, \<^verbatim>\<open>format.rs\<close>, \<^verbatim>\<open>raw.rs\<close>
  and the digest of \<^verbatim>\<open>lib.rs\<close>. An open file is what the operating system answers to its calls:
  a size, an answer to each seek, and the bytes of each read call, which may be fewer than asked for.
  \<open>file_holds\<close> says that a file behaves like a byte string. Arithmetic that the release profile
  checks for overflow, and divisions, end in \<open>Panic\<close>.
\<close>

section \<open>The model\<close>

subsection \<open>Outcomes\<close>

datatype img_fault = Fail cel_error | Panic string

type_synonym 'a img_result = "(img_fault, 'a) result"

abbreviation img_invalid :: "string \<Rightarrow> 'a img_result" where
  "img_invalid m \<equiv> Err (Fail (Invalid m))"

definition lift_err :: "'a cel_result \<Rightarrow> 'a img_result" where
  "lift_err r = map_err Fail r"

definition add_u64 :: "u64 \<Rightarrow> u64 \<Rightarrow> u64 img_result" where
  "add_u64 a b = ok_or (Panic ''attempt to add with overflow'') (checked_add a b)"

definition mul_u64 :: "u64 \<Rightarrow> u64 \<Rightarrow> u64 img_result" where
  "mul_u64 a b = (if unat a * unat b < 2 ^ 64 then Ok (a * b) else Err (Panic ''attempt to multiply with overflow''))"

definition checked_mul :: "u64 \<Rightarrow> u64 \<Rightarrow> u64 option" where
  "checked_mul a b = (if unat a * unat b < 2 ^ 64 then Some (a * b) else None)"

definition div_u64 :: "u64 \<Rightarrow> u64 \<Rightarrow> u64 img_result" where
  "div_u64 a b = (if b = 0 then Err (Panic ''attempt to divide by zero'') else Ok (a div b))"

definition rem_u64 :: "u64 \<Rightarrow> u64 \<Rightarrow> u64 img_result" where
  "rem_u64 a b = (if b = 0 then Err (Panic ''attempt to calculate the remainder with a divisor of zero'') else Ok (a mod b))"

text \<open>\<^verbatim>\<open>vec![0u8; n]\<close> panics when the layout exceeds \<^verbatim>\<open>isize::MAX\<close>; running out of memory is not modelled.\<close>

definition vec_zeroed :: "u64 \<Rightarrow> nat img_result" where
  "vec_zeroed n = (if unat n < 2 ^ 63 then Ok (unat n) else Err (Panic ''capacity overflow''))"

subsection \<open>Files\<close>

record os_file =
  f_stat :: "(string, u64) result"
  f_seek :: "u64 \<Rightarrow> string option"
  f_read :: "u64 \<Rightarrow> nat \<Rightarrow> (string, bytes) result"

type_synonym file_system = "string \<Rightarrow> (string, os_file) result"

text \<open>The standard library's \<^verbatim>\<open>read_exact\<close>, and the loop of the readers that stops at the end of the file.\<close>

function read_exact :: "os_file \<Rightarrow> u64 \<Rightarrow> nat \<Rightarrow> (string, bytes) result" where
  "read_exact f off n =
     (if n = 0 then Ok []
      else (case f_read f off n of
              Err e \<Rightarrow> Err e
            | Ok bs \<Rightarrow>
                if bs = [] then Err ''failed to fill whole buffer''
                else bind_result (read_exact f (off + of_nat (length bs)) (n - length bs)) (\<lambda>rest. Ok (bs @ rest))))"
  by pat_completeness auto
termination by (relation "measure (\<lambda>(f, off, n). n)") auto

function read_upto :: "os_file \<Rightarrow> u64 \<Rightarrow> nat \<Rightarrow> (string, bytes) result" where
  "read_upto f off n =
     (if n = 0 then Ok []
      else (case f_read f off n of
              Err e \<Rightarrow> Err e
            | Ok bs \<Rightarrow>
                if bs = [] then Ok []
                else bind_result (read_upto f (off + of_nat (length bs)) (n - length bs)) (\<lambda>rest. Ok (bs @ rest))))"
  by pat_completeness auto
termination by (relation "measure (\<lambda>(f, off, n). n)") auto

declare read_exact.simps [simp del] read_upto.simps [simp del]

definition f_open :: "file_system \<Rightarrow> string \<Rightarrow> os_file cel_result" where
  "f_open fs path = map_err (\<lambda>e. Io (''open '' @ path @ '': '' @ e)) (fs path)"

definition seek_to :: "os_file \<Rightarrow> string \<Rightarrow> u64 \<Rightarrow> unit cel_result" where
  "seek_to f what off = (case f_seek f off of None \<Rightarrow> Ok () | Some e \<Rightarrow> Err (Io (what @ '': '' @ e)))"

subsection \<open>Words in a buffer\<close>

fun le_val :: "bytes \<Rightarrow> nat" where
  "le_val [] = 0"
| "le_val (b # bs) = unat b + 256 * le_val bs"

definition from_le_bytes :: "bytes \<Rightarrow> 'a::len word" where
  "from_le_bytes bs = of_nat (le_val bs)"

definition from_be_bytes :: "bytes \<Rightarrow> 'a::len word" where
  "from_be_bytes bs = of_nat (le_val (rev bs))"

definition buf_get :: "string \<Rightarrow> bytes \<Rightarrow> nat \<Rightarrow> nat \<Rightarrow> bytes cel_result" where
  "buf_get what buf off n =
     (if 2 ^ 64 \<le> off + n then Err (Invalid (''util: '' @ what @ '' overflow''))
      else if length buf < off + n then Err (Invalid (''util: '' @ what @ '' short read''))
      else Ok (take n (drop off buf)))"

definition be_u32 :: "bytes \<Rightarrow> nat \<Rightarrow> u32 cel_result" where
  "be_u32 buf off = bind_result (buf_get ''be_u32'' buf off 4) (\<lambda>b. Ok (from_be_bytes b))"

definition le_u16 :: "bytes \<Rightarrow> nat \<Rightarrow> u16 cel_result" where
  "le_u16 buf off = bind_result (buf_get ''le_u16'' buf off 2) (\<lambda>b. Ok (from_le_bytes b))"

definition le_u32 :: "bytes \<Rightarrow> nat \<Rightarrow> u32 cel_result" where
  "le_u32 buf off = bind_result (buf_get ''le_u32'' buf off 4) (\<lambda>b. Ok (from_le_bytes b))"

definition le_u64 :: "bytes \<Rightarrow> nat \<Rightarrow> u64 cel_result" where
  "le_u64 buf off = bind_result (buf_get ''le_u64'' buf off 8) (\<lambda>b. Ok (from_le_bytes b))"

text \<open>\<^verbatim>\<open>chunks_exact\<close>: the full chunks of a buffer.\<close>

function chunks_exact :: "nat \<Rightarrow> bytes \<Rightarrow> bytes list" where
  "chunks_exact n bs = (if n = 0 \<or> length bs < n then [] else take n bs # chunks_exact n (drop n bs))"
  by pat_completeness auto
termination by (relation "measure (\<lambda>(n, bs). length bs)") auto

declare chunks_exact.simps [simp del]

subsection \<open>Checksums\<close>

fun util_crc32c_continue :: "u32 \<Rightarrow> bytes \<Rightarrow> u32" where
  "util_crc32c_continue state [] = state"
| "util_crc32c_continue state (b # bs) =
     util_crc32c_continue
       (fold (\<lambda>_ st. if st AND 1 \<noteq> 0 then drop_bit 1 st XOR 0x82F63B78 else drop_bit 1 st) [0..<8] (state XOR ucast b)) bs"

definition util_crc32c :: "bytes \<Rightarrow> u32" where
  "util_crc32c bs = util_crc32c_continue 0xFFFFFFFF bs XOR 0xFFFFFFFF"

subsection \<open>Formats\<close>

datatype format_kind = FkRaw | FkQcow2 | FkVmdk | FkVhdx

fun format_tag :: "format_kind \<Rightarrow> string" where
  "format_tag FkRaw = ''raw''"
| "format_tag FkQcow2 = ''qcow2''"
| "format_tag FkVmdk = ''vmdk''"
| "format_tag FkVhdx = ''vhdx''"

definition ascii_bytes :: "string \<Rightarrow> bytes" where
  "ascii_bytes s = map of_char s"

definition detect_from_bytes :: "bytes \<Rightarrow> format_kind cel_result" where
  "detect_from_bytes header =
     (if header = [] then Err (Invalid ''image is empty'')
      else if 4 \<le> length header \<and> take 4 header = [0x51, 0x46, 0x49, 0xFB] then Ok FkQcow2
      else if 4 \<le> length header \<and> take 4 header = ascii_bytes ''KDMV'' then Ok FkVmdk
      else if 8 \<le> length header \<and> take 8 header = ascii_bytes ''vhdxfile'' then Ok FkVhdx
      else Ok FkRaw)"

definition detect_format :: "file_system \<Rightarrow> string \<Rightarrow> format_kind cel_result" where
  "detect_format fs path =
     bind_result (f_open fs path) (\<lambda>f.
     bind_result (map_err (\<lambda>e. Io (''read '' @ path @ '': '' @ e)) (f_read f 0 16)) (\<lambda>header.
       if header = [] then Err (Invalid ''image is empty'') else detect_from_bytes header))"

subsection \<open>The image interface\<close>

record image_info =
  ii_format :: format_kind
  ii_virtual_size :: u64
  ii_cluster_size :: "u64 option"
  ii_backend :: string

text \<open>
  A reader's \<^verbatim>\<open>read_at\<close> takes the offset and the length of the buffer and answers the bytes it wrote to the
  front of it.
\<close>

type_synonym read_fn = "u64 \<Rightarrow> nat \<Rightarrow> bytes img_result"

function read_exact_at :: "read_fn \<Rightarrow> u64 \<Rightarrow> nat \<Rightarrow> bytes img_result" where
  "read_exact_at rd off n =
     (if n = 0 then Ok []
      else (case rd off n of
              Err e \<Rightarrow> Err e
            | Ok bs \<Rightarrow>
                if bs = [] then img_invalid ''disk: short read''
                else if n < length bs then Err (Panic ''range start index out of range for slice'')
                else bind_result (add_u64 off (of_nat (length bs))) (\<lambda>off.
                     bind_result (read_exact_at rd off (n - length bs)) (\<lambda>rest. Ok (bs @ rest)))))"
  by pat_completeness auto
termination by (relation "measure (\<lambda>(rd, off, n). n)") auto

declare read_exact_at.simps [simp del]

definition CRC_CHUNK :: u64 where "CRC_CHUNK = 65536"

function crc_loop :: "read_fn \<Rightarrow> u64 \<Rightarrow> u32 \<Rightarrow> u64 \<Rightarrow> u32 img_result" where
  "crc_loop rd tot crc off =
     (if tot \<le> off then Ok crc
      else (case rd off (unat (min CRC_CHUNK (tot - off))) of
              Err e \<Rightarrow> Err e
            | Ok bs \<Rightarrow>
                if bs = [] then img_invalid ''full_image_crc32c: short read before virtual_size''
                else if unat CRC_CHUNK < length bs then Err (Panic ''range end index out of range for slice'')
                else (case checked_add off (of_nat (length bs)) of
                        None \<Rightarrow> Err (Panic ''attempt to add with overflow'')
                      | Some off' \<Rightarrow> crc_loop rd tot (util_crc32c_continue crc bs) off')))"
  by pat_completeness auto
termination
  by (relation "measure (\<lambda>(rd, tot, crc, off). unat tot - unat off)")
     (auto simp: word_le_nat_alt not_le not_less CRC_CHUNK_def checked_add_Some unat_of_nat unat_add_small take_bit_nat_eq_self intro!: diff_less_mono2)

declare crc_loop.simps [simp del]

definition full_image_crc32c :: "read_fn \<Rightarrow> u64 \<Rightarrow> u32 img_result" where
  "full_image_crc32c rd tot =
     (if tot = 0 then img_invalid ''full_image_crc32c: virtual size is zero''
      else bind_result (crc_loop rd tot 0xFFFFFFFF 0) (\<lambda>crc. Ok (crc XOR 0xFFFFFFFF)))"

text \<open>
  The loop over the blocks of a read, common to the VMDK and VHDX readers: \<open>serve\<close> gets the index of the block,
  the offset in it and the length of the piece.
\<close>

function fill_loop :: "(u64 \<Rightarrow> u64 \<Rightarrow> nat \<Rightarrow> bytes img_result) \<Rightarrow> u64 \<Rightarrow> u64 \<Rightarrow> nat \<Rightarrow> bytes img_result" where
  "fill_loop serve unit_bytes cur want =
     (if want = 0 then Ok []
      else if unit_bytes = 0 then Err (Panic ''attempt to calculate the remainder with a divisor of zero'')
      else
        let intra = cur mod unit_bytes; chunk = min want (unat (unit_bytes - intra)) in
        bind_result (serve (cur div unit_bytes) intra chunk) (\<lambda>dest.
        bind_result (add_u64 cur (of_nat chunk)) (\<lambda>next_off.
        bind_result (fill_loop serve unit_bytes next_off (want - chunk)) (\<lambda>rest. Ok (dest @ rest)))))"
  by pat_completeness auto
termination
proof (relation "measure (\<lambda>(serve, unit_bytes, cur, want). want)")
  fix serve and unit_bytes cur next_off :: u64 and want intra chunk
  assume a: "\<not> want = 0" "unit_bytes \<noteq> 0" "intra = cur mod unit_bytes" "chunk = min want (unat (unit_bytes - intra))"
  have "unat cur mod unat unit_bytes < unat unit_bytes" using a(2) by (simp add: unat_gt_0)
  then have "intra < unit_bytes" by (simp add: a(3) word_less_nat_alt unat_mod)
  then have "unat (unit_bytes - intra) \<noteq> 0" by (auto simp: unat_eq_zero)
  then show "((serve, unit_bytes, next_off, want - chunk), serve, unit_bytes, cur, want) \<in> measure (\<lambda>(serve, unit_bytes, cur, want). want)"
    using a(1,4) by simp
qed simp

declare fill_loop.simps [simp del]

definition div_ceil :: "u64 \<Rightarrow> u64 \<Rightarrow> u64" where
  "div_ceil a b = a div b + (if a mod b = 0 then 0 else 1)"

text \<open>A zeroed buffer after one read call.\<close>

definition fill_buf :: "nat \<Rightarrow> bytes \<Rightarrow> bytes" where
  "fill_buf n bs = take n (bs @ replicate n 0)"

subsection \<open>Raw images\<close>

record raw_image =
  rw_path :: string
  rw_size :: u64
  rw_file :: os_file

definition raw_open :: "file_system \<Rightarrow> string \<Rightarrow> raw_image cel_result" where
  "raw_open fs path =
     bind_result (f_open fs path) (\<lambda>f.
     bind_result (map_err (\<lambda>e. Io (''stat '' @ path @ '': '' @ e)) (f_stat f)) (\<lambda>len.
       Ok \<lparr>rw_path = path, rw_size = len, rw_file = f\<rparr>))"

definition raw_info :: "raw_image \<Rightarrow> image_info" where
  "raw_info r = \<lparr>ii_format = FkRaw, ii_virtual_size = rw_size r, ii_cluster_size = None, ii_backend = ''raw''\<rparr>"

definition raw_read_at :: "raw_image \<Rightarrow> read_fn" where
  "raw_read_at r off n =
     (if n = 0 then Ok []
      else if rw_size r \<le> off then Ok []
      else
        let remaining = rw_size r - off; tk = min n (unat remaining) in
        bind_result (lift_err (seek_to (rw_file r) (''seek '' @ rw_path r) off)) (\<lambda>_.
          lift_err (map_err (\<lambda>e. Io (''read '' @ rw_path r @ '': '' @ e)) (read_upto (rw_file r) off tk))))"

section \<open>The theorems\<close>

subsection \<open>Panics\<close>

definition panics :: "'a img_result \<Rightarrow> bool" where
  "panics r \<longleftrightarrow> (\<exists>m. r = Err (Panic m))"

lemma panics_simps [simp]: "\<not> panics (Ok a)" "\<not> panics (Err (Fail e))" "panics (Err (Panic m))"
  by (simp_all add: panics_def)

lemma panics_lift [simp]: "\<not> panics (lift_err r)"
  by (cases r) (simp_all add: lift_err_def)

lemma panics_bind_lift [simp]: "panics (bind_result (lift_err r) g) \<longleftrightarrow> (\<exists>a. r = Ok a \<and> panics (g a))"
  by (cases r) (simp_all add: lift_err_def)

lemma panics_bind: "\<not> panics r \<Longrightarrow> (\<And>a. r = Ok a \<Longrightarrow> \<not> panics (g a)) \<Longrightarrow> \<not> panics (bind_result r g)"
  by (cases r) (auto simp: panics_def)

lemma unat_two_power: "k < 64 \<Longrightarrow> unat (2 ^ k :: u64) = 2 ^ k"
  using unat_of_nat [of "2 ^ k", where 'a = 64] power_strict_increasing [of k 64 "2 :: nat"] by (simp add: take_bit_nat_eq_self)

lemma panic_free_arith:
  "b \<noteq> 0 \<Longrightarrow> \<not> panics (div_u64 a b)" "b \<noteq> 0 \<Longrightarrow> \<not> panics (rem_u64 a b)"
  "unat a + unat b < 2 ^ 64 \<Longrightarrow> \<not> panics (add_u64 a b)" "unat a * unat b < 2 ^ 64 \<Longrightarrow> \<not> panics (mul_u64 a b)"
  by (simp_all add: div_u64_def rem_u64_def add_u64_def mul_u64_def checked_add_def)

lemma add_u64_Ok: "add_u64 a b = Ok s \<longleftrightarrow> unat a + unat b < 2 ^ 64 \<and> s = a + b"
  by (auto simp: add_u64_def checked_add_def)

lemma mul_u64_Ok: "mul_u64 a b = Ok s \<longleftrightarrow> unat a * unat b < 2 ^ 64 \<and> s = a * b"
  by (auto simp: mul_u64_def)

lemma unat_mul_small: "unat a * unat b < 2 ^ 64 \<Longrightarrow> unat (a * b :: u64) = unat a * unat b"
  by (simp add: unat_word_ariths)

text \<open>A window of a list given by a function.\<close>

lemma window_map: "a + n \<le> m \<Longrightarrow> take n (drop a (map g [0..<m])) = map g [a..<a + n]"
  by (simp add: take_map drop_map)

lemma window_eq:
  assumes "a + n \<le> m" "b + n \<le> length c" "\<And>j. j < n \<Longrightarrow> g (a + j) = c ! (b + j)"
  shows "take n (drop b c) = take n (drop a (map g [0..<m]))"
  using assms by (auto simp: window_map intro!: nth_equalityI)

lemma window_zero:
  assumes "a + n \<le> m" "\<And>j. j < n \<Longrightarrow> g (a + j) = 0"
  shows "replicate n 0 = take n (drop a (map g [0..<m]))"
  using assms by (auto simp: window_map intro!: nth_equalityI)

text \<open>Offsets inside one block.\<close>

lemma block_index:
  assumes "j < b - a mod b" "0 < b"
  shows "(a + j) div b = a div b" "(a + j) mod b = a mod b + (j :: nat)"
proof -
  have "a mod b + j < b" using assms(1) mod_less_divisor [OF assms(2), of a] by linarith
  moreover have "a + j = b * (a div b) + (a mod b + j)" by simp
  ultimately show "(a + j) div b = a div b" "(a + j) mod b = a mod b + j" by (metis div_mult_self4 add.commute assms(2) div_less add_0 less_not_refl, metis mod_mult_self2 add.commute mod_less)
qed

subsection \<open>Files that hold bytes\<close>

text \<open>
  The file has these contents: its size is theirs, seeks to representable offsets succeed, and a read call
  returns a prefix of what is there, empty only at the end.
\<close>

definition file_holds :: "os_file \<Rightarrow> bytes \<Rightarrow> bool" where
  "file_holds f c \<longleftrightarrow> length c < 2 ^ 63 \<and> f_stat f = Ok (of_nat (length c)) \<and> (\<forall>off. unat off < 2 ^ 63 \<longrightarrow> f_seek f off = None) \<and>
     (\<forall>off n. \<exists>k \<le> n. f_read f off n = Ok (take k (drop (unat off) c)) \<and> (0 < n \<and> unat off < length c \<longrightarrow> 0 < k))"

text \<open>The file that returns all it can in each call.\<close>

definition plain_file :: "bytes \<Rightarrow> os_file" where
  "plain_file c = \<lparr>f_stat = Ok (of_nat (length c)), f_seek = (\<lambda>off. if unat off < 2 ^ 63 then None else Some ''invalid argument''),
     f_read = (\<lambda>off n. Ok (take n (drop (unat off) c)))\<rparr>"

lemma plain_file_holds: "length c < 2 ^ 63 \<Longrightarrow> file_holds (plain_file c) c"
  by (auto simp: file_holds_def plain_file_def)

lemma take_cap: "take (min k (length c - a)) (drop a c) = take k (drop a c)"
  by (metis length_drop take_all_iff min.commute take_take order_refl)

lemma file_read:
  assumes "file_holds f c"
  shows "\<exists>k. f_read f off n = Ok (take k (drop (unat off) c)) \<and> k \<le> n \<and> k \<le> length c - unat off \<and> (0 < n \<and> unat off < length c \<longrightarrow> 0 < k)"
proof -
  obtain k where k: "f_read f off n = Ok (take k (drop (unat off) c))" "k \<le> n" "0 < n \<and> unat off < length c \<longrightarrow> 0 < k"
    using assms unfolding file_holds_def by blast
  then show ?thesis by (intro exI [of _ "min k (length c - unat off)"]) (simp add: take_cap)
qed

lemma file_off:
  assumes "file_holds f c" "k \<le> length c - unat off" "unat off < length c"
  shows "unat (off + of_nat k :: u64) = unat off + k"
proof -
  have "unat off + k < 2 ^ 63" using assms by (auto simp: file_holds_def)
  then show ?thesis using unat_add_small [of off "of_nat k"] by (simp add: unat_of_nat take_bit_nat_eq_self)
qed

lemma take_split: "k \<le> n \<Longrightarrow> take n (drop a c) = take k (drop a c) @ take (n - k) (drop (a + k) c)"
  by (metis add.commute drop_drop le_add_diff_inverse take_add)

lemma read_exact_holds:
  assumes "file_holds f c"
  shows "read_exact f off n =
    (if n = 0 then Ok [] else if unat off + n \<le> length c then Ok (take n (drop (unat off) c)) else Err ''failed to fill whole buffer'')"
proof (induction n arbitrary: off rule: less_induct)
  case (less n)
  show ?case
  proof (cases "n = 0")
    case False
    obtain k where k: "f_read f off n = Ok (take k (drop (unat off) c))" "k \<le> n" "k \<le> length c - unat off" "0 < n \<and> unat off < length c \<longrightarrow> 0 < k"
      using file_read [OF assms, of off n] by blast
    show ?thesis
    proof (cases "unat off < length c")
      case True
      then have kk: "0 < k" "length (take k (drop (unat off) c)) = k" "k \<le> length c" using k False by auto
      have "read_exact f (off + of_nat k) (n - k) = (if n - k = 0 then Ok [] else if unat off + n \<le> length c then Ok (take (n - k) (drop (unat off + k) c))
          else Err ''failed to fill whole buffer'')"
        using less.IH [of "n - k" "off + of_nat k"] kk k(2) False file_off [OF assms k(3) True] by simp
      then show ?thesis using kk k False True take_split [of k n "unat off" c]
        by (subst read_exact.simps) auto
    qed (use k False in \<open>subst read_exact.simps, simp\<close>)
  qed (simp add: read_exact.simps)
qed

lemma read_upto_holds:
  assumes "file_holds f c"
  shows "read_upto f off n = Ok (take n (drop (unat off) c))"
proof (induction n arbitrary: off rule: less_induct)
  case (less n)
  show ?case
  proof (cases "n = 0")
    case False
    obtain k where k: "f_read f off n = Ok (take k (drop (unat off) c))" "k \<le> n" "k \<le> length c - unat off" "0 < n \<and> unat off < length c \<longrightarrow> 0 < k"
      using file_read [OF assms, of off n] by blast
    show ?thesis
    proof (cases "unat off < length c")
      case True
      then have kk: "0 < k" "length (take k (drop (unat off) c)) = k" "k \<le> length c" using k False by auto
      have "read_upto f (off + of_nat k) (n - k) = Ok (take (n - k) (drop (unat off + k) c))"
        using less.IH [of "n - k" "off + of_nat k"] kk k(2) False file_off [OF assms k(3) True] by simp
      then show ?thesis using kk k False True take_split [of k n "unat off" c]
        by (subst read_upto.simps) auto
    qed (use k False in \<open>subst read_upto.simps, simp\<close>)
  qed (simp add: read_upto.simps)
qed

lemma seek_holds [simp]: "file_holds f c \<Longrightarrow> unat off < 2 ^ 63 \<Longrightarrow> seek_to f what off = Ok ()"
  by (simp add: file_holds_def seek_to_def)

lemma seek_inside: "file_holds f c \<Longrightarrow> unat off \<le> length c \<Longrightarrow> seek_to f what off = Ok ()"
  by (auto simp: file_holds_def seek_to_def)

lemma read_exact_inside: "file_holds f c \<Longrightarrow> unat off + n \<le> length c \<Longrightarrow> read_exact f off n = Ok (take n (drop (unat off) c))"
  by (simp add: read_exact_holds)

lemma util_crc_eq: "util_crc32c_continue = crc32c_continue"
proof -
  have "(\<lambda>st. if st AND 1 \<noteq> 0 then drop_bit 1 st XOR 0x82F63B78 else drop_bit 1 st) = crc_bit" by (simp add: fun_eq_iff crc_bit_def)
  then have "fold (\<lambda>_ st. if st AND 1 \<noteq> 0 then drop_bit 1 st XOR 0x82F63B78 else drop_bit 1 st) [0..<8] = crc_bit ^^ 8"
    by (simp add: numeral_eq_Suc fun_eq_iff upt_rec)
  then have "util_crc32c_continue st bs = crc32c_continue st bs" for st bs by (induction bs arbitrary: st) simp_all
  then show ?thesis by (simp add: fun_eq_iff)
qed

subsection \<open>Backends\<close>

text \<open>
  A backend reads some prefix of the logical disk, not empty unless at its end. The reader's loops then return exactly
  the bytes of the disk, and the digest is the checksum of the disk.
\<close>

locale disk_backend =
  fixes ok :: "'i \<Rightarrow> bool" and vsize :: "'i \<Rightarrow> u64" and rd :: "'i \<Rightarrow> read_fn" and disk :: "'i \<Rightarrow> bytes"
  assumes disk_length: "ok i \<Longrightarrow> length (disk i) = unat (vsize i)"
    and read_some: "ok i \<Longrightarrow> \<exists>k \<le> n. rd i off n = Ok (take k (drop (unat off) (disk i))) \<and> (0 < n \<and> off < vsize i \<longrightarrow> 0 < k)"
begin

lemma read_obtain:
  assumes "ok i"
  shows "\<exists>k. rd i off n = Ok (take k (drop (unat off) (disk i))) \<and> k \<le> n \<and> k \<le> length (disk i) - unat off \<and> (0 < n \<and> unat off < length (disk i) \<longrightarrow> 0 < k)"
proof -
  obtain k where "rd i off n = Ok (take k (drop (unat off) (disk i)))" "k \<le> n" "0 < n \<and> off < vsize i \<longrightarrow> 0 < k"
    using read_some [OF assms] by blast
  then show ?thesis using take_cap [of k "disk i" "unat off"]
    by (intro exI [of _ "min k (length (disk i) - unat off)"]) (auto simp: disk_length [OF assms] word_less_nat_alt)
qed

lemma add_off:
  assumes "ok i" "k \<le> length (disk i) - unat off" "unat off < length (disk i)"
  shows "unat off + k < 2 ^ 64" "unat (off + of_nat k :: u64) = unat off + k" "checked_add off (of_nat k) = Some (off + of_nat k)"
proof -
  show "unat off + k < 2 ^ 64" using assms disk_length [OF assms(1)] unat_lt_size [of "vsize i"] by auto
  then show "unat (off + of_nat k) = unat off + k" "checked_add off (of_nat k) = Some (off + of_nat k)"
    using unat_add_small [of off "of_nat k"] by (simp_all add: checked_add_def unat_of_nat take_bit_nat_eq_self)
qed

lemma exact:
  assumes "ok i"
  shows "read_exact_at (rd i) off n =
    (if n = 0 then Ok [] else if unat off + n \<le> length (disk i) then Ok (take n (drop (unat off) (disk i))) else img_invalid ''disk: short read'')"
proof (induction n arbitrary: off rule: less_induct)
  case (less n)
  show ?case
  proof (cases "n = 0")
    case False
    obtain k where k: "rd i off n = Ok (take k (drop (unat off) (disk i)))" "k \<le> n" "k \<le> length (disk i) - unat off" "0 < n \<and> unat off < length (disk i) \<longrightarrow> 0 < k"
      using read_obtain [OF assms, of off n] by blast
    show ?thesis
    proof (cases "unat off < length (disk i)")
      case True
      then have kk: "0 < k" "length (take k (drop (unat off) (disk i))) = k" using k False by auto
      have "read_exact_at (rd i) (off + of_nat k) (n - k) = (if n - k = 0 then Ok [] else if unat off + n \<le> length (disk i) then Ok (take (n - k) (drop (unat off + k) (disk i)))
          else img_invalid ''disk: short read'')"
        using less.IH [of "n - k" "off + of_nat k"] kk k(2) False add_off(2) [OF assms k(3) True] by simp
      then show ?thesis using kk k False True take_split [of k n "unat off" "disk i"] add_off(3) [OF assms k(3) True]
        by (subst read_exact_at.simps) (auto simp: add_u64_def)
    qed (use k False in \<open>subst read_exact_at.simps, simp\<close>)
  qed (simp add: read_exact_at.simps)
qed

lemma crc_from:
  assumes "ok i"
  shows "crc_loop (rd i) (vsize i) st off = Ok (crc32c_continue st (drop (unat off) (disk i)))"
proof (induction "unat (vsize i) - unat off" arbitrary: st off rule: less_induct)
  case less
  note len = disk_length [OF assms]
  show ?case
  proof (cases "vsize i \<le> off")
    case True
    then show ?thesis using len by (subst crc_loop.simps) (simp add: word_le_nat_alt)
  next
    case False
    then have off: "unat off < length (disk i)" using len by (simp add: word_le_nat_alt)
    let ?n = "unat (min CRC_CHUNK (vsize i - off))"
    have n: "0 < ?n" "?n \<le> unat CRC_CHUNK" using False by (auto simp: min_def CRC_CHUNK_def word_le_nat_alt unat_gt_0)
    obtain k where k: "rd i off ?n = Ok (take k (drop (unat off) (disk i)))" "k \<le> ?n" "k \<le> length (disk i) - unat off" "0 < ?n \<and> unat off < length (disk i) \<longrightarrow> 0 < k"
      using read_obtain [OF assms, of off ?n] by blast
    have kk: "0 < k" "length (take k (drop (unat off) (disk i))) = k" "\<not> unat CRC_CHUNK < k" using k n off by auto
    have "crc_loop (rd i) (vsize i) (crc32c_continue st (take k (drop (unat off) (disk i)))) (off + of_nat k) =
        Ok (crc32c_continue (crc32c_continue st (take k (drop (unat off) (disk i)))) (drop (unat off + k) (disk i)))"
      using less [of "off + of_nat k"] add_off(2) [OF assms k(3) off] kk off len by simp
    moreover have "drop (unat off) (disk i) = take k (drop (unat off) (disk i)) @ drop (unat off + k) (disk i)"
      by (metis add.commute append_take_drop_id drop_drop)
    then have "crc32c_continue st (drop (unat off) (disk i)) =
        crc32c_continue (crc32c_continue st (take k (drop (unat off) (disk i)))) (drop (unat off + k) (disk i))"
      by (metis crc32c_continue_append)
    ultimately show ?thesis using False k(1) kk add_off(3) [OF assms k(3) off]
      by (subst crc_loop.simps) (auto simp: util_crc_eq)
  qed
qed

lemma digest: "ok i \<Longrightarrow> vsize i \<noteq> 0 \<Longrightarrow> full_image_crc32c (rd i) (vsize i) = Ok (crc32c (disk i))"
  using crc_from [of i _ 0] by (simp add: full_image_crc32c_def crc32c_def)

end

text \<open>A raw image is the file's contents.\<close>

definition raw_ok :: "raw_image \<times> bytes \<Rightarrow> bool" where
  "raw_ok rc \<longleftrightarrow> file_holds (rw_file (fst rc)) (snd rc) \<and> rw_size (fst rc) = of_nat (length (snd rc))"

lemma raw_disk: "raw_ok rc \<Longrightarrow> unat (rw_size (fst rc)) = length (snd rc)"
  by (simp add: raw_ok_def file_holds_def unat_of_nat take_bit_nat_eq_self)

interpretation raw: disk_backend raw_ok "\<lambda>rc. rw_size (fst rc)" "\<lambda>rc. raw_read_at (fst rc)" snd
proof
  fix rc :: "raw_image \<times> bytes" and off :: u64 and n
  assume ok: "raw_ok rc"
  note len = raw_disk [OF ok]
  show "length (snd rc) = unat (rw_size (fst rc))" using len by simp
  show "\<exists>k\<le>n. raw_read_at (fst rc) off n = Ok (take k (drop (unat off) (snd rc))) \<and> (0 < n \<and> off < rw_size (fst rc) \<longrightarrow> 0 < k)"
  proof (cases "n = 0 \<or> rw_size (fst rc) \<le> off")
    case True
    then show ?thesis using len by (intro exI [of _ 0]) (auto simp: raw_read_at_def)
  next
    case False
    then have off: "unat off < length (snd rc)" "unat (rw_size (fst rc) - off) = length (snd rc) - unat off"
      using len by (simp_all add: word_le_nat_alt unat_sub_small)
    have f: "file_holds (rw_file (fst rc)) (snd rc)" "length (snd rc) < 2 ^ 63" using ok by (simp_all add: raw_ok_def file_holds_def)
    show ?thesis using False off f
      by (intro exI [of _ "min n (length (snd rc) - unat off)"])
         (simp add: raw_read_at_def lift_err_def Let_def read_upto_holds [OF f(1)])
  qed
qed

lemma raw_open_ok: "fs path = Ok f \<Longrightarrow> file_holds f c \<Longrightarrow> raw_open fs path = Ok r \<Longrightarrow> raw_ok (r, c)"
  by (auto simp: raw_open_def f_open_def raw_ok_def bind_result_eq_Ok file_holds_def)

subsection \<open>Loops over blocks, and tables\<close>

lemma unat_widen [simp]: "unat (ucast (x :: u32) :: u64) = unat x"
  by transfer (simp add: take_bit_nat_eq_self_iff nat_take_bit_eq min_def)

lemma unat_block_rest: "unit_bytes \<noteq> 0 \<Longrightarrow> unat (unit_bytes - cur mod unit_bytes) = unat unit_bytes - unat cur mod unat (unit_bytes :: u64)"
  by (simp add: unat_sub_small unat_mod word_le_nat_alt less_imp_le unat_gt_0)

lemma unat_step: "unat cur + n < 2 ^ 64 \<Longrightarrow> unat (cur + of_nat n :: u64) = unat cur + n \<and> add_u64 cur (of_nat n) = Ok (cur + of_nat n)"
  using unat_add_small [of cur "of_nat n"] by (simp add: add_u64_Ok unat_of_nat take_bit_nat_eq_self)

lemma fill_loop_step:
  assumes "want \<noteq> 0" "unit_bytes \<noteq> 0" "unat cur + want < 2 ^ 64"
  defines "chunk \<equiv> min want (unat unit_bytes - unat cur mod unat unit_bytes)"
  shows "0 < chunk" "fill_loop serve unit_bytes cur want =
      bind_result (serve (cur div unit_bytes) (cur mod unit_bytes) chunk) (\<lambda>dest.
      bind_result (fill_loop serve unit_bytes (cur + of_nat chunk) (want - chunk)) (\<lambda>rest. Ok (dest @ rest)))"
    "unat (cur + of_nat chunk) = unat cur + chunk"
proof -
  have "unat cur mod unat unit_bytes < unat unit_bytes" using assms(2) by (simp add: unat_gt_0)
  then show "0 < chunk" using assms(1) by (simp add: chunk_def)
  have st: "unat cur + chunk < 2 ^ 64" using assms(3) by (simp add: chunk_def)
  show "unat (cur + of_nat chunk) = unat cur + chunk" using unat_step [OF st] by simp
  show "fill_loop serve unit_bytes cur want =
      bind_result (serve (cur div unit_bytes) (cur mod unit_bytes) chunk) (\<lambda>dest.
      bind_result (fill_loop serve unit_bytes (cur + of_nat chunk) (want - chunk)) (\<lambda>rest. Ok (dest @ rest)))"
    using assms(1,2) unat_step [OF st] by (subst fill_loop.simps) (simp add: Let_def unat_block_rest flip: chunk_def)
qed

lemma fill_loop_reads:
  assumes "unit_bytes \<noteq> 0" "unat cur + want \<le> length d" "length d < 2 ^ 64"
    and serve: "\<And>a n. 0 < n \<Longrightarrow> unat a + n \<le> length d \<Longrightarrow> n \<le> unat unit_bytes - unat a mod unat unit_bytes \<Longrightarrow>
      serve (a div unit_bytes) (a mod unit_bytes) n = Ok (take n (drop (unat a) d))"
  shows "fill_loop serve unit_bytes cur want = Ok (take want (drop (unat cur) d))"
  using assms(2)
proof (induction want arbitrary: cur rule: less_induct)
  case (less want)
  show ?case
  proof (cases "want = 0")
    case False
    define chunk where "chunk = min want (unat unit_bytes - unat cur mod unat unit_bytes)"
    have b: "unat cur + want < 2 ^ 64" using less.prems assms(3) by simp
    note s = fill_loop_step [OF False assms(1) b, folded chunk_def]
    have "serve (cur div unit_bytes) (cur mod unit_bytes) chunk = Ok (take chunk (drop (unat cur) d))"
      using s(1) less.prems by (intro serve) (auto simp: chunk_def)
    moreover have "fill_loop serve unit_bytes (cur + of_nat chunk) (want - chunk) = Ok (take (want - chunk) (drop (unat cur + chunk) d))"
      using less.IH [of "want - chunk" "cur + of_nat chunk"] False s(1,3) less.prems by (simp add: chunk_def)
    moreover have "chunk \<le> want" by (simp add: chunk_def)
    ultimately show ?thesis using s(2) take_split [of chunk want "unat cur" d] by simp
  qed (simp add: fill_loop.simps)
qed

lemma fill_loop_no_panic:
  assumes "unit_bytes \<noteq> 0" "unat cur + want < 2 ^ 64" "\<And>a n. \<not> panics (serve (a div unit_bytes) (a mod unit_bytes) n)"
  shows "\<not> panics (fill_loop serve unit_bytes cur want)"
  using assms(2)
proof (induction want arbitrary: cur rule: less_induct)
  case (less want)
  show ?case
  proof (cases "want = 0")
    case False
    note s = fill_loop_step [OF False assms(1) less.prems]
    define chunk where "chunk = min want (unat unit_bytes - unat cur mod unat unit_bytes)"
    have "\<not> panics (fill_loop serve unit_bytes (cur + of_nat chunk) (want - chunk))"
      using less.IH [of "want - chunk" "cur + of_nat chunk"] s(1,3) less.prems False by (simp add: chunk_def)
    then show ?thesis unfolding s(2) using assms(3) by (intro panics_bind) (simp_all add: chunk_def)
  qed (simp add: fill_loop.simps)
qed

lemma chunks_exact_map: "0 < n \<Longrightarrow> chunks_exact n bs = map (\<lambda>i. take n (drop (n * i) bs)) [0..<length bs div n]"
proof (induction n bs rule: chunks_exact.induct)
  case (1 n bs)
  show ?case
  proof (cases "length bs < n")
    case False
    then have "length bs div n = Suc (length (drop n bs) div n)" using 1(2) by (simp add: le_div_geq)
    moreover have "chunks_exact n bs = take n bs # chunks_exact n (drop n bs)" using False 1(2) by (subst chunks_exact.simps) simp
    moreover have "[0..<Suc m] = 0 # map Suc [0..<m]" for m by (simp add: map_Suc_upt upt_conv_Cons del: upt_Suc)
    moreover have "chunks_exact n (drop n bs) = map (\<lambda>i. take n (drop (n * i) (drop n bs))) [0..<length (drop n bs) div n]"
      using 1 False by simp
    ultimately show ?thesis by (simp add: o_def add.commute del: upt_Suc length_drop)
  qed (simp add: chunks_exact.simps)
qed

end
