(* ===== verification/Qcow2.thy ===== *)
theory Qcow2
  imports Disk_Image
begin

text \<open>
  The qcow2 reader, \<^verbatim>\<open>src/crates/celimage/src/qcow2.rs\<close>: header, L1 table at open time, and reads that
  follow L1 and L2 to one cluster. The reader is compared with the two-level mapping of the format, and its
  arithmetic is shown not to panic on any file.
\<close>

section \<open>The model\<close>

definition QCOW2_MAGIC :: bytes where "QCOW2_MAGIC = [0x51, 0x46, 0x49, 0xFB]"
definition L2_ENTRY_COMPRESSED :: u64 where "L2_ENTRY_COMPRESSED = push_bit 62 1"
definition L2_ENTRY_ZERO_CLUSTER :: u64 where "L2_ENTRY_ZERO_CLUSTER = 1"
definition L2_ENTRY_OFFSET_MASK :: u64 where "L2_ENTRY_OFFSET_MASK = 0x00FFFFFFFFFFFE00"

record qcow2_header =
  qh_version :: u32
  qh_cluster_bits :: u32
  qh_cluster_size :: u64
  qh_size :: u64
  qh_crypt_method :: u32
  qh_backing_file_offset :: u64
  qh_l1_size :: u32
  qh_l1_table_offset :: u64
  qh_incompatible_features :: u64

record qcow2_image =
  qi_path :: string
  qi_file :: os_file
  qi_header :: qcow2_header
  qi_l1 :: "u64 list"

definition buf_be :: "bytes \<Rightarrow> nat \<Rightarrow> nat \<Rightarrow> 'a::len word" where
  "buf_be buf a b = from_be_bytes (take (b - a) (drop a buf))"

definition checked_shl1 :: "u32 \<Rightarrow> u64 option" where
  "checked_shl1 n = (if n < 64 then Some (push_bit (unat n) 1) else None)"

definition qcow2_parse_header :: "os_file \<Rightarrow> qcow2_header cel_result" where
  "qcow2_parse_header f =
     bind_result (seek_to f ''seek 0'' 0) (\<lambda>_.
     bind_result (map_err (\<lambda>e. Io (''read header: '' @ e)) (f_read f 0 104)) (\<lambda>got.
       let n = length got; buf = fill_buf 104 got in
       if n < 72 then Err (Invalid ''qcow2: header truncated'')
       else if take 4 buf \<noteq> QCOW2_MAGIC then Err (Invalid ''qcow2: bad magic'')
       else
         let version = buf_be buf 4 8 in
         if version \<noteq> 2 \<and> version \<noteq> 3 then Err (Invalid ''qcow2: only v2/v3 supported'')
         else
           let cluster_bits = buf_be buf 20 24;
               incompatible_features = (if 3 \<le> version \<and> 80 \<le> n then buf_be buf 72 80 else 0) in
           bind_result (ok_or (Invalid ''qcow2: cluster_bits out of range'') (checked_shl1 cluster_bits)) (\<lambda>cluster_size.
             Ok \<lparr>qh_version = version, qh_cluster_bits = cluster_bits, qh_cluster_size = cluster_size, qh_size = buf_be buf 24 32,
               qh_crypt_method = buf_be buf 32 36, qh_backing_file_offset = buf_be buf 8 16, qh_l1_size = buf_be buf 36 40,
               qh_l1_table_offset = buf_be buf 40 48, qh_incompatible_features = incompatible_features\<rparr>)))"

definition qcow2_validate_header :: "qcow2_header \<Rightarrow> unit cel_result" where
  "qcow2_validate_header h =
     (if \<not> (9 \<le> qh_cluster_bits h \<and> qh_cluster_bits h \<le> 21) then Err (Invalid ''qcow2: cluster_bits outside spec range 9..=21'')
      else if qh_crypt_method h \<noteq> 0 then Err (Invalid ''qcow2: encrypted images not supported'')
      else if qh_backing_file_offset h \<noteq> 0 then Err (Invalid ''qcow2: backing-file chains not supported'')
      else if qh_l1_table_offset h = 0 \<or> qh_l1_table_offset h AND 0x1FF \<noteq> 0 then Err (Invalid ''qcow2: invalid l1_table_offset'')
      else if 3 \<le> qh_version h \<and> qh_incompatible_features h AND (push_bit 3 1 OR push_bit 4 1) \<noteq> 0
        then Err (Invalid ''qcow2: incompatible_features bit not supported (compress/extended-l2)'')
      else Ok ())"

definition qcow2_open :: "file_system \<Rightarrow> string \<Rightarrow> qcow2_image img_result" where
  "qcow2_open fs path =
     bind_result (lift_err (f_open fs path)) (\<lambda>f.
     bind_result (lift_err (qcow2_parse_header f)) (\<lambda>header.
     bind_result (lift_err (qcow2_validate_header header)) (\<lambda>_.
     bind_result (vec_zeroed (ucast (qh_l1_size header) * 8)) (\<lambda>l1_bytes.
     bind_result (lift_err (seek_to f (''seek l1 '' @ path) (qh_l1_table_offset header))) (\<lambda>_.
     bind_result (lift_err (map_err (\<lambda>e. Storage (''read l1 '' @ path @ '': '' @ e)) (read_exact f (qh_l1_table_offset header) l1_bytes))) (\<lambda>raw.
       Ok \<lparr>qi_path = path, qi_file = f, qi_header = header, qi_l1 = map from_be_bytes (chunks_exact 8 raw)\<rparr>))))))"

definition qcow2_info :: "qcow2_image \<Rightarrow> image_info" where
  "qcow2_info q =
     \<lparr>ii_format = FkQcow2, ii_virtual_size = qh_size (qi_header q), ii_cluster_size = Some (qh_cluster_size (qi_header q)),
      ii_backend = (if qh_version (qi_header q) = 3 then ''qcow2-v3'' else ''qcow2-v2'')\<rparr>"

definition qcow2_read_data :: "qcow2_image \<Rightarrow> u64 \<Rightarrow> u64 \<Rightarrow> nat \<Rightarrow> bytes img_result" where
  "qcow2_read_data q data_offset intra tk =
     bind_result (add_u64 data_offset intra) (\<lambda>at.
     bind_result (lift_err (seek_to (qi_file q) (''seek data '' @ qi_path q) at)) (\<lambda>_.
       lift_err (map_err (\<lambda>e. Storage (''read data '' @ qi_path q @ '': '' @ e)) (read_upto (qi_file q) at tk))))"

definition qcow2_read_l2 :: "qcow2_image \<Rightarrow> u64 \<Rightarrow> u64 \<Rightarrow> u64 img_result" where
  "qcow2_read_l2 q l2_offset l2_index =
     bind_result (mul_u64 l2_index 8) (\<lambda>o'.
     bind_result (add_u64 l2_offset o') (\<lambda>at.
     bind_result (lift_err (seek_to (qi_file q) (''seek l2 '' @ qi_path q) at)) (\<lambda>_.
     bind_result (lift_err (map_err (\<lambda>e. Storage (''read l2 '' @ qi_path q @ '': '' @ e)) (read_exact (qi_file q) at 8))) (\<lambda>b.
       Ok (from_be_bytes b)))))"

definition qcow2_serve :: "qcow2_image \<Rightarrow> u64 \<Rightarrow> u64 \<Rightarrow> nat \<Rightarrow> bytes img_result" where
  "qcow2_serve q l2_entry intra tk =
     (if l2_entry AND L2_ENTRY_COMPRESSED \<noteq> 0 then img_invalid ''qcow2: compressed cluster not supported''
      else if 3 \<le> qh_version (qi_header q) \<and> l2_entry AND L2_ENTRY_ZERO_CLUSTER \<noteq> 0 then Ok (replicate tk 0)
      else
        let data_offset = l2_entry AND L2_ENTRY_OFFSET_MASK in
        if data_offset = 0 then Ok (replicate tk 0)
        else qcow2_read_data q data_offset intra tk)"

definition qcow2_read_at :: "qcow2_image \<Rightarrow> read_fn" where
  "qcow2_read_at q off n =
     (let h = qi_header q; cs = qh_cluster_size h in
      if n = 0 then Ok []
      else if qh_size h \<le> off then Ok []
      else
        let mx = min n (unat (qh_size h - off)) in
        bind_result (div_u64 off cs) (\<lambda>cluster_idx.
        bind_result (rem_u64 off cs) (\<lambda>intra.
        let tk = min mx (unat cs - unat intra) in
        bind_result (div_u64 cluster_idx (cs div 8)) (\<lambda>l1_index.
        bind_result (rem_u64 cluster_idx (cs div 8)) (\<lambda>l2_index.
          if length (qi_l1 q) \<le> unat l1_index then img_invalid ''qcow2: l1 index past l1 table''
          else
            let l2_offset = (qi_l1 q ! unat l1_index) AND L2_ENTRY_OFFSET_MASK in
            if l2_offset = 0 then Ok (replicate tk 0)
            else bind_result (qcow2_read_l2 q l2_offset l2_index) (\<lambda>l2_entry. qcow2_serve q l2_entry intra tk))))))"

section \<open>The theorems\<close>

subsection \<open>No panic\<close>

definition qcow2_geometry :: "qcow2_image \<Rightarrow> bool" where
  "qcow2_geometry q \<longleftrightarrow> (\<exists>b. 9 \<le> b \<and> b \<le> 21 \<and> unat (qh_cluster_size (qi_header q)) = 2 ^ b)"

lemma parse_cluster_size:
  assumes "qcow2_parse_header f = Ok h" "qcow2_validate_header h = Ok ()"
  shows "\<exists>b. 9 \<le> b \<and> b \<le> 21 \<and> unat (qh_cluster_size h) = 2 ^ b"
proof -
  have c: "checked_shl1 (qh_cluster_bits h) = Some (qh_cluster_size h)"
    using assms(1) by (auto simp: qcow2_parse_header_def bind_result_eq_Ok Let_def split: if_splits)
  have b: "9 \<le> unat (qh_cluster_bits h)" "unat (qh_cluster_bits h) \<le> 21"
    using assms(2) by (auto simp: qcow2_validate_header_def word_le_nat_alt split: if_splits)
  have "unat (push_bit k 1 :: u64) = 2 ^ k" if "k \<le> 21" for k
    using that by (simp add: push_bit_of_1 unat_two_power)
  moreover have "qh_cluster_size h = push_bit (unat (qh_cluster_bits h)) 1" using c by (simp add: checked_shl1_def split: if_splits)
  ultimately show ?thesis using b by (intro exI [of _ "unat (qh_cluster_bits h)"]) simp
qed

lemma qcow2_open_geometry: "qcow2_open fs path = Ok q \<Longrightarrow> qcow2_geometry q"
  by (auto simp: qcow2_open_def qcow2_geometry_def bind_result_eq_Ok lift_err_def dest!: parse_cluster_size)

lemma masked_bound: "unat (x AND L2_ENTRY_OFFSET_MASK) < 2 ^ 56"
  using word_and_le1 [of x L2_ENTRY_OFFSET_MASK] by (simp add: L2_ENTRY_OFFSET_MASK_def word_le_nat_alt)

lemma geometryD:
  assumes "qcow2_geometry q"
  defines "cs \<equiv> qh_cluster_size (qi_header q)"
  shows "512 \<le> unat cs" "unat cs \<le> 2 ^ 21" "cs \<noteq> 0" "cs div 8 \<noteq> 0" "unat (cs div 8) = unat cs div 8" "unat cs div 8 * 8 = unat cs"
proof -
  obtain b where b: "9 \<le> b" "b \<le> 21" "unat cs = 2 ^ b" using assms by (auto simp: qcow2_geometry_def)
  show c: "512 \<le> unat cs" "unat cs \<le> 2 ^ 21"
    using b power_increasing [of 9 b "2 :: nat"] power_increasing [of b 21 "2 :: nat"] by simp_all
  show d: "unat (cs div 8) = unat cs div 8" by (simp add: unat_div)
  then show "cs \<noteq> 0" "cs div 8 \<noteq> 0" using c by (auto simp flip: unat_eq_zero)
  have "(8 :: nat) dvd 2 ^ b" using le_imp_power_dvd [of 3 b "2 :: nat"] b by simp
  then show "unat cs div 8 * 8 = unat cs" by (simp add: b(3))
qed

lemma l2_index_small:
  assumes "qcow2_geometry q"
  shows "unat (x mod (qh_cluster_size (qi_header q) div 8)) * 8 < 2 ^ 21"
proof -
  note g = geometryD [OF assms]
  have "0 < unat (qh_cluster_size (qi_header q)) div 8" using g(1) by simp
  then have "unat x mod (unat (qh_cluster_size (qi_header q)) div 8) < unat (qh_cluster_size (qi_header q)) div 8" by simp
  then show ?thesis using g(2,5,6) by (simp add: unat_mod)
qed

lemma intra_small:
  assumes "qcow2_geometry q"
  shows "unat (x mod qh_cluster_size (qi_header q)) < unat (qh_cluster_size (qi_header q))"
  using geometryD(1) [OF assms] by (simp add: unat_mod)

lemma qcow2_l2_no_panic:
  assumes "qcow2_geometry q"
  shows "\<not> panics (qcow2_read_l2 q (x AND L2_ENTRY_OFFSET_MASK) (y mod (qh_cluster_size (qi_header q) div 8)))"
proof -
  have s: "unat (y mod (qh_cluster_size (qi_header q) div 8)) * unat (8 :: u64) < 2 ^ 64" using l2_index_small [OF assms, of y] by simp
  have a: "unat (x AND L2_ENTRY_OFFSET_MASK) + unat (y mod (qh_cluster_size (qi_header q) div 8) * 8) < 2 ^ 64"
    using masked_bound [of x] l2_index_small [OF assms, of y] unat_mul_small [OF s] by simp
  show ?thesis unfolding qcow2_read_l2_def
    by (intro panics_bind) (use s a in \<open>auto simp: mul_u64_Ok intro!: panic_free_arith\<close>)
qed

lemma qcow2_read_no_panic:
  assumes "qcow2_geometry q"
  shows "\<not> panics (qcow2_read_at q off n)"
proof -
  note g = geometryD [OF assms]
  have "unat (x AND L2_ENTRY_OFFSET_MASK) + unat (off mod qh_cluster_size (qi_header q)) < 2 ^ 64" for x
    using masked_bound [of x] intra_small [OF assms, of off] g(2) by simp
  then have d: "\<not> panics (qcow2_read_data q (x AND L2_ENTRY_OFFSET_MASK) (off mod qh_cluster_size (qi_header q)) tk)" for x tk
    unfolding qcow2_read_data_def by (intro panics_bind) (auto intro!: panic_free_arith)
  then have "\<not> panics (qcow2_serve q e (off mod qh_cluster_size (qi_header q)) tk)" for e tk
    by (simp add: qcow2_serve_def Let_def)
  then have "\<not> panics (bind_result (qcow2_read_l2 q (x AND L2_ENTRY_OFFSET_MASK) (y mod (qh_cluster_size (qi_header q) div 8)))
      (\<lambda>e. qcow2_serve q e (off mod qh_cluster_size (qi_header q)) tk))" for x y tk
    using qcow2_l2_no_panic [OF assms] by (intro panics_bind)
  then show ?thesis using g(3,4) by (simp add: qcow2_read_at_def Let_def div_u64_def rem_u64_def)
qed

subsection \<open>The mapping of the format\<close>

text \<open>Where guest cluster \<open>k\<close> lies in the file, \<^term>\<open>None\<close> for a hole.\<close>

definition l1_target :: "qcow2_image \<Rightarrow> nat \<Rightarrow> nat" where
  "l1_target q k = unat ((qi_l1 q ! (k div (unat (qh_cluster_size (qi_header q)) div 8))) AND L2_ENTRY_OFFSET_MASK)"

definition l2_at :: "qcow2_image \<Rightarrow> nat \<Rightarrow> nat" where
  "l2_at q k = l1_target q k + 8 * (k mod (unat (qh_cluster_size (qi_header q)) div 8))"

definition l2_entry_of :: "qcow2_image \<Rightarrow> bytes \<Rightarrow> nat \<Rightarrow> u64" where
  "l2_entry_of q c k = from_be_bytes (take 8 (drop (l2_at q k) c))"

definition qcow2_host :: "qcow2_image \<Rightarrow> bytes \<Rightarrow> nat \<Rightarrow> nat option" where
  "qcow2_host q c k =
     (let e = l2_entry_of q c k in
      if l1_target q k = 0 \<or> (3 \<le> qh_version (qi_header q) \<and> e AND L2_ENTRY_ZERO_CLUSTER \<noteq> 0) \<or> e AND L2_ENTRY_OFFSET_MASK = 0 then None
      else Some (unat (e AND L2_ENTRY_OFFSET_MASK)))"

definition qcow2_byte :: "qcow2_image \<Rightarrow> bytes \<Rightarrow> nat \<Rightarrow> u8" where
  "qcow2_byte q c a =
     (let cs = unat (qh_cluster_size (qi_header q)) in
      case qcow2_host q c (a div cs) of None \<Rightarrow> 0 | Some h \<Rightarrow> c ! (h + a mod cs))"

definition qcow2_disk :: "qcow2_image \<times> bytes \<Rightarrow> bytes" where
  "qcow2_disk qc = map (qcow2_byte (fst qc) (snd qc)) [0..<unat (qh_size (qi_header (fst qc)))]"

text \<open>The tables cover the disk and point into the file, and no cluster is compressed.\<close>

definition qcow2_cluster_ok :: "qcow2_image \<Rightarrow> bytes \<Rightarrow> nat \<Rightarrow> bool" where
  "qcow2_cluster_ok q c k \<longleftrightarrow>
     (let cs = unat (qh_cluster_size (qi_header q)) in
      k div (cs div 8) < length (qi_l1 q) \<and>
      (l1_target q k \<noteq> 0 \<longrightarrow> l2_at q k + 8 \<le> length c \<and> l2_entry_of q c k AND L2_ENTRY_COMPRESSED = 0) \<and>
      (case qcow2_host q c k of None \<Rightarrow> True | Some h \<Rightarrow> h + min cs (unat (qh_size (qi_header q)) - k * cs) \<le> length c))"

definition qcow2_ok :: "qcow2_image \<times> bytes \<Rightarrow> bool" where
  "qcow2_ok qc \<longleftrightarrow> (case qc of (q, c) \<Rightarrow> file_holds (qi_file q) c \<and> qcow2_geometry q \<and>
     (\<forall>k. k * unat (qh_cluster_size (qi_header q)) < unat (qh_size (qi_header q)) \<longrightarrow> qcow2_cluster_ok q c k))"

lemma qcow2_l2_read:
  assumes "qcow2_geometry q" "file_holds (qi_file q) c" "l2_at q (unat ci) + 8 \<le> length c"
  shows "qcow2_read_l2 q (qi_l1 q ! unat (ci div (qh_cluster_size (qi_header q) div 8)) AND L2_ENTRY_OFFSET_MASK) (ci mod (qh_cluster_size (qi_header q) div 8)) =
    Ok (l2_entry_of q c (unat ci))"
proof -
  let ?x = "qi_l1 q ! unat (ci div (qh_cluster_size (qi_header q) div 8)) AND L2_ENTRY_OFFSET_MASK" and ?i = "ci mod (qh_cluster_size (qi_header q) div 8)"
  have s: "unat ?i * unat (8 :: u64) < 2 ^ 64" using l2_index_small [OF assms(1), of ci] by simp
  then have m: "unat (?i * 8) = unat ?i * 8" using unat_mul_small [OF s] by simp
  have "unat ?x < 2 ^ 56" by (rule masked_bound)
  moreover have "unat (?i * 8) < 2 ^ 21" using l2_index_small [OF assms(1), of ci] by (simp only: m)
  ultimately have b: "unat ?x + unat (?i * 8) < 2 ^ 57" by simp
  then have "unat (?x + ?i * 8) = l2_at q (unat ci)"
    using unat_add_small [of ?x "?i * 8"] m geometryD(5) [OF assms(1)]
    by (simp add: l2_at_def l1_target_def unat_div unat_mod)
  then show ?thesis using s b assms(3)
    by (simp add: qcow2_read_l2_def mul_u64_def add_u64_def checked_add_def lift_err_def seek_inside [OF assms(2)] read_exact_inside [OF assms(2)] l2_entry_of_def)
qed

lemma qcow2_data_read:
  assumes "file_holds (qi_file q) c" "unat h + unat intra + n \<le> length c"
  shows "qcow2_read_data q h intra n = Ok (take n (drop (unat h + unat intra) c))"
proof -
  have "length c < 2 ^ 63" using assms(1) by (simp add: file_holds_def)
  then have "unat h + unat intra < 2 ^ 63" using assms(2) by simp
  moreover from this have "unat (h + intra) = unat h + unat intra" using unat_add_small [of h intra] by simp
  ultimately show ?thesis using assms
    by (simp add: qcow2_read_data_def add_u64_def checked_add_def lift_err_def seek_inside [OF assms(1)] read_upto_holds [OF assms(1)])
qed

lemma qcow2_read_ok:
  assumes "qcow2_ok (q, c)" "0 < n" "off < qh_size (qi_header q)"
  defines "cs \<equiv> unat (qh_cluster_size (qi_header q))"
  defines "tk \<equiv> min (min n (unat (qh_size (qi_header q)) - unat off)) (cs - unat off mod cs)"
  shows "qcow2_read_at q off n = Ok (take tk (drop (unat off) (qcow2_disk (q, c))))"
proof -
  let ?h = "qi_header q" and ?k = "unat off div cs"
  have f: "file_holds (qi_file q) c" and geo: "qcow2_geometry q" using assms(1) by (auto simp: qcow2_ok_def)
  note g = geometryD [OF geo, folded cs_def]
  have off: "unat off < unat (qh_size ?h)" using assms(3) by (simp add: word_less_nat_alt)
  have "?k * cs < unat (qh_size ?h)" using off div_times_less_eq_dividend [of "unat off" cs] by linarith
  then have "qcow2_cluster_ok q c ?k" using assms(1) unfolding qcow2_ok_def cs_def by blast
  note ck = this [unfolded qcow2_cluster_ok_def Let_def, folded cs_def]
  have pos: "0 < cs" using g(1) by simp
  have tk: "tk \<le> cs - unat off mod cs" "unat off + tk \<le> unat (qh_size ?h)" using off by (auto simp: tk_def)
  have byte: "qcow2_byte q c (unat off + j) = (case qcow2_host q c ?k of None \<Rightarrow> 0 | Some a \<Rightarrow> c ! (a + unat off mod cs + j))" if "j < tk" for j
    using block_index [of j cs "unat off"] that tk(1) pos by (simp add: qcow2_byte_def Let_def cs_def add.assoc split: option.splits)
  have zero: "Ok (replicate tk 0) = Ok (take tk (drop (unat off) (qcow2_disk (q, c))))" if "qcow2_host q c ?k = None"
    using window_zero [OF tk(2), of "qcow2_byte q c"] byte that by (simp add: qcow2_disk_def)
  have data: "qcow2_read_data q e (off mod qh_cluster_size ?h) tk = Ok (take tk (drop (unat off) (qcow2_disk (q, c))))"
    if "qcow2_host q c ?k = Some (unat e)" for e
  proof -
    have "unat off mod cs + tk \<le> min cs (unat (qh_size ?h) - ?k * cs)"
      using off tk mod_less_divisor [OF pos, of "unat off"] div_mult_mod_eq [of "unat off" cs] by linarith
    moreover have "unat e + min cs (unat (qh_size ?h) - ?k * cs) \<le> length c" using ck that by simp
    ultimately have l: "unat e + unat off mod cs + tk \<le> length c" by linarith
    then have "take tk (drop (unat e + unat off mod cs) c) = take tk (drop (unat off) (qcow2_disk (q, c)))"
      using window_eq [OF tk(2) l, of "qcow2_byte q c"] byte that by (simp add: qcow2_disk_def)
    then show ?thesis using qcow2_data_read [OF f, of e "off mod qh_cluster_size ?h" tk] l by (simp add: unat_mod cs_def)
  qed
  define ci where "ci = off div qh_cluster_size ?h"
  have ci: "unat ci = ?k" by (simp add: ci_def unat_div cs_def)
  have l1: "unat (ci div (qh_cluster_size ?h div 8)) = ?k div (cs div 8)" using g(5) by (simp add: unat_div ci)
  define x where "x = qi_l1 q ! unat (ci div (qh_cluster_size ?h div 8)) AND L2_ENTRY_OFFSET_MASK"
  have target: "l1_target q ?k = unat x" by (simp add: l1_target_def x_def l1 cs_def)
  have tk': "min (min n (unat (qh_size ?h - off))) (unat (qh_cluster_size ?h) - unat (off mod qh_cluster_size ?h)) = tk"
    using assms(3) by (simp add: tk_def cs_def unat_mod unat_sub_small)
  define e where "e = l2_entry_of q c ?k"
  have below: "(qh_size ?h \<le> off) = False" using assms(3) by (simp add: not_le)
  have "qcow2_read_at q off n =
      (if x = 0 then Ok (replicate tk 0)
       else bind_result (qcow2_read_l2 q x (ci mod (qh_cluster_size ?h div 8))) (\<lambda>e.
         qcow2_serve q e (off mod qh_cluster_size ?h) tk))"
    using assms(2) g(3,4) ck l1 tk'
    by (simp add: qcow2_read_at_def Let_def div_u64_def rem_u64_def x_def ci_def below)
  moreover have "qcow2_host q c ?k = None" if "x = 0" using that by (simp add: qcow2_host_def target Let_def)
  moreover have "qcow2_read_l2 q x (ci mod (qh_cluster_size ?h div 8)) = Ok e" "e AND L2_ENTRY_COMPRESSED = 0" if "x \<noteq> 0"
    using qcow2_l2_read [OF geo f, of ci] that ck target by (simp_all add: x_def e_def ci unat_eq_zero)
  moreover have "qcow2_host q c ?k = (if 3 \<le> qh_version ?h \<and> e AND L2_ENTRY_ZERO_CLUSTER \<noteq> 0 \<or> e AND L2_ENTRY_OFFSET_MASK = 0 then None
      else Some (unat (e AND L2_ENTRY_OFFSET_MASK)))" if "x \<noteq> 0"
    using that target by (auto simp: qcow2_host_def Let_def e_def unat_eq_zero)
  ultimately show ?thesis using zero data by (cases "x = 0") (auto simp: qcow2_serve_def Let_def)
qed

interpretation qcow2: disk_backend qcow2_ok "\<lambda>qc. qh_size (qi_header (fst qc))" "\<lambda>qc. qcow2_read_at (fst qc)" qcow2_disk
proof
  fix qc :: "qcow2_image \<times> bytes" and off :: u64 and n
  assume ok: "qcow2_ok qc"
  obtain q c where qc: "qc = (q, c)" by (cases qc)
  show "length (qcow2_disk qc) = unat (qh_size (qi_header (fst qc)))" by (simp add: qcow2_disk_def)
  show "\<exists>k\<le>n. qcow2_read_at (fst qc) off n = Ok (take k (drop (unat off) (qcow2_disk qc))) \<and> (0 < n \<and> off < qh_size (qi_header (fst qc)) \<longrightarrow> 0 < k)"
  proof (cases "0 < n \<and> off < qh_size (qi_header q)")
    case True
    let ?cs = "unat (qh_cluster_size (qi_header q))"
    have "0 < ?cs" using geometryD(1) [of q] ok by (auto simp: qcow2_ok_def qc)
    then have "0 < ?cs - unat off mod ?cs" by simp
    then show ?thesis using True qcow2_read_ok [of q c n off] ok
      by (intro exI [of _ "min (min n (unat (qh_size (qi_header q)) - unat off)) (?cs - unat off mod ?cs)"])
         (auto simp: qc word_less_nat_alt)
  next
    case False
    then show ?thesis by (intro exI [of _ 0]) (auto simp: qc qcow2_read_at_def Let_def not_less)
  qed
qed

end
