(* ===== verification/Vmdk.thy ===== *)
theory Vmdk
  imports Disk_Image
begin

text \<open>
  The VMDK reader, \<^verbatim>\<open>src/crates/celimage/src/vmdk.rs\<close>: sparse extent header, grain directory at open
  time, and reads that walk grain by grain through directory and table.
\<close>

section \<open>The model\<close>

definition SECTOR :: u64 where "SECTOR = 512"
definition VMDK_MAGIC_LE :: u32 where "VMDK_MAGIC_LE = 0x564D444B"

record vmdk_header =
  vh_capacity_sectors :: u64
  vh_grain_size_sectors :: u64
  vh_descriptor_offset_sectors :: u64
  vh_descriptor_size_sectors :: u64
  vh_num_gtes_per_gt :: u32
  vh_gd_offset_sectors :: u64
  vh_overhead_sectors :: u64
  vh_compress_algorithm :: u16
  vh_flags :: u32

record vmdk_image =
  vi_path :: string
  vi_file :: os_file
  vi_virtual_size :: u64
  vi_grain_size_sectors :: u64
  vi_num_gtes_per_gt :: u32
  vi_gd :: "u32 list"

definition is_power_of_two :: "nat \<Rightarrow> bool" where
  "is_power_of_two n \<longleftrightarrow> n \<noteq> 0 \<and> n AND (n - 1) = 0"

definition vmdk_parse_header :: "os_file \<Rightarrow> vmdk_header cel_result" where
  "vmdk_parse_header f =
     bind_result (seek_to f ''seek 0'' 0) (\<lambda>_.
     bind_result (map_err (\<lambda>e. Io (''read header: '' @ e)) (f_read f 0 512)) (\<lambda>got.
       let buf = fill_buf 512 got in
       if length got < 80 then Err (Invalid ''vmdk: header truncated'')
       else bind_result (le_u32 buf 0) (\<lambda>magic.
         if magic \<noteq> VMDK_MAGIC_LE then Err (Invalid ''vmdk: bad magic (not KDMV)'')
         else bind_result (le_u32 buf 4) (\<lambda>version.
           if \<not> (1 \<le> version \<and> version \<le> 3) then Err (Invalid ''vmdk: unsupported sparse extent version'')
           else
             bind_result (le_u32 buf 8) (\<lambda>flags.
             bind_result (le_u64 buf 12) (\<lambda>capacity_sectors.
             bind_result (le_u64 buf 20) (\<lambda>grain_size_sectors.
             bind_result (le_u64 buf 28) (\<lambda>descriptor_offset_sectors.
             bind_result (le_u64 buf 36) (\<lambda>descriptor_size_sectors.
             bind_result (le_u32 buf 44) (\<lambda>num_gtes_per_gt.
             bind_result (le_u64 buf 48) (\<lambda>_.
             bind_result (le_u64 buf 56) (\<lambda>gd_offset_sectors.
             bind_result (le_u64 buf 64) (\<lambda>overhead_sectors.
               Ok \<lparr>vh_capacity_sectors = capacity_sectors, vh_grain_size_sectors = grain_size_sectors,
                 vh_descriptor_offset_sectors = descriptor_offset_sectors, vh_descriptor_size_sectors = descriptor_size_sectors,
                 vh_num_gtes_per_gt = num_gtes_per_gt, vh_gd_offset_sectors = gd_offset_sectors, vh_overhead_sectors = overhead_sectors,
                 vh_compress_algorithm = from_le_bytes (take 2 (drop 77 buf)), vh_flags = flags\<rparr>)))))))))))))"

definition vmdk_validate_header :: "vmdk_header \<Rightarrow> unit cel_result" where
  "vmdk_validate_header h =
     (if vh_compress_algorithm h \<noteq> 0 then Err (Invalid ''vmdk: compressed (streamOptimized) extents not supported'')
      else if vh_grain_size_sectors h < 8 \<or> push_bit 20 1 < vh_grain_size_sectors h \<or> \<not> is_power_of_two (unat (vh_grain_size_sectors h))
        then Err (Invalid ''vmdk: grain_size_sectors out of spec'')
      else if vh_num_gtes_per_gt h = 0 \<or> \<not> is_power_of_two (unat (vh_num_gtes_per_gt h))
        then Err (Invalid ''vmdk: num_gtes_per_gt must be a power of two'')
      else if vh_gd_offset_sectors h = 0
        then Err (Invalid ''vmdk: gd_offset == 0 (descriptor-only / multi-extent images not supported)'')
      else if vh_overhead_sectors h = 0 then Err (Invalid ''vmdk: overhead == 0 (malformed)'')
      else if vh_descriptor_size_sectors h \<noteq> 0 \<and> checked_add (vh_descriptor_offset_sectors h) (vh_descriptor_size_sectors h) = None
        then Err (Invalid ''vmdk: descriptor offset+size overflow'')
      else Ok ())"

definition vmdk_open :: "file_system \<Rightarrow> string \<Rightarrow> vmdk_image img_result" where
  "vmdk_open fs path =
     bind_result (lift_err (f_open fs path)) (\<lambda>f.
     bind_result (lift_err (vmdk_parse_header f)) (\<lambda>header.
     bind_result (lift_err (vmdk_validate_header header)) (\<lambda>_.
     bind_result (ok_or (Fail (Invalid ''vmdk: GT coverage overflow''))
       (checked_mul (ucast (vh_num_gtes_per_gt header)) (vh_grain_size_sectors header))) (\<lambda>sectors_per_gt.
       if sectors_per_gt = 0 then img_invalid ''vmdk: zero sectors per GT''
       else
         let num_gts = div_ceil (vh_capacity_sectors header) sectors_per_gt in
         bind_result (ok_or (Fail (Invalid ''vmdk: GD size overflow'')) (checked_mul num_gts 4)) (\<lambda>gd_bytes.
         bind_result (ok_or (Fail (Invalid ''vmdk: GD offset overflow'')) (checked_mul (vh_gd_offset_sectors header) SECTOR)) (\<lambda>gd_byte_offset.
         bind_result (vec_zeroed gd_bytes) (\<lambda>gd_len.
         bind_result (lift_err (seek_to f (''seek gd '' @ path) gd_byte_offset)) (\<lambda>_.
         bind_result (lift_err (map_err (\<lambda>e. Storage (''read gd '' @ path @ '': '' @ e)) (read_exact f gd_byte_offset gd_len))) (\<lambda>gd_raw.
           Ok \<lparr>vi_path = path, vi_file = f, vi_virtual_size = saturating_mul (vh_capacity_sectors header) SECTOR,
             vi_grain_size_sectors = vh_grain_size_sectors header, vi_num_gtes_per_gt = vh_num_gtes_per_gt header,
             vi_gd = map from_le_bytes (chunks_exact 4 gd_raw)\<rparr>)))))))))"

definition vmdk_load_gt :: "vmdk_image \<Rightarrow> u32 \<Rightarrow> u32 list img_result" where
  "vmdk_load_gt v gt_sector =
     bind_result (ok_or (Fail (Invalid ''vmdk: GT byte length overflow'')) (checked_mul (ucast (vi_num_gtes_per_gt v)) 4)) (\<lambda>len.
     bind_result (vec_zeroed len) (\<lambda>n.
     bind_result (ok_or (Fail (Invalid ''vmdk: GT offset overflow'')) (checked_mul (ucast gt_sector) SECTOR)) (\<lambda>off.
     bind_result (lift_err (seek_to (vi_file v) ''seek gt'' off)) (\<lambda>_.
     bind_result (lift_err (map_err (\<lambda>e. Storage (''read gt: '' @ e)) (read_exact (vi_file v) off n))) (\<lambda>raw.
       Ok (map from_le_bytes (chunks_exact 4 raw)))))))"

definition vmdk_info :: "vmdk_image \<Rightarrow> image_info" where
  "vmdk_info v =
     \<lparr>ii_format = FkVmdk, ii_virtual_size = vi_virtual_size v, ii_cluster_size = Some (vi_grain_size_sectors v * SECTOR),
      ii_backend = ''vmdk-monolithic-sparse''\<rparr>"

definition get_or_0 :: "u32 list \<Rightarrow> nat \<Rightarrow> u32" where
  "get_or_0 xs i = (if i < length xs then xs ! i else 0)"

definition vmdk_read_grain :: "vmdk_image \<Rightarrow> u32 \<Rightarrow> u64 \<Rightarrow> nat \<Rightarrow> bytes img_result" where
  "vmdk_read_grain v gte intra chunk =
     bind_result (ok_or (Fail (Invalid ''vmdk: grain offset overflow'')) (checked_mul (ucast gte) SECTOR)) (\<lambda>base.
     bind_result (add_u64 base intra) (\<lambda>grain_byte_off.
     bind_result (lift_err (seek_to (vi_file v) ''seek grain'' grain_byte_off)) (\<lambda>_.
       lift_err (map_err (\<lambda>e. Storage (''read grain: '' @ e)) (read_exact (vi_file v) grain_byte_off chunk)))))"

definition vmdk_grain :: "vmdk_image \<Rightarrow> u64 \<Rightarrow> u64 \<Rightarrow> nat \<Rightarrow> bytes img_result" where
  "vmdk_grain v grain_idx intra chunk =
     bind_result (div_u64 grain_idx (ucast (vi_num_gtes_per_gt v))) (\<lambda>gt_idx.
     bind_result (rem_u64 grain_idx (ucast (vi_num_gtes_per_gt v))) (\<lambda>gte_idx.
       let gd_entry = get_or_0 (vi_gd v) (unat gt_idx) in
       if gd_entry = 0 \<or> gd_entry = 1 then Ok (replicate chunk 0)
       else bind_result (vmdk_load_gt v gd_entry) (\<lambda>gt.
         let gte = get_or_0 gt (unat gte_idx) in
         if gte = 0 \<or> gte = 1 then Ok (replicate chunk 0)
         else vmdk_read_grain v gte intra chunk)))"

definition vmdk_read_at :: "vmdk_image \<Rightarrow> read_fn" where
  "vmdk_read_at v off n =
     (if n = 0 \<or> vi_virtual_size v \<le> off then Ok []
      else
        let want = min n (unat (vi_virtual_size v - off)) in
        bind_result (mul_u64 (vi_grain_size_sectors v) SECTOR) (\<lambda>grain_bytes. fill_loop (vmdk_grain v) grain_bytes off want))"

section \<open>The theorems\<close>

subsection \<open>No panic when reading\<close>

definition vmdk_geometry :: "vmdk_image \<Rightarrow> bool" where
  "vmdk_geometry v \<longleftrightarrow> 8 \<le> unat (vi_grain_size_sectors v) \<and> unat (vi_grain_size_sectors v) \<le> 2 ^ 20 \<and> vi_num_gtes_per_gt v \<noteq> 0"

abbreviation grain_bytes :: "vmdk_image \<Rightarrow> u64" where
  "grain_bytes v \<equiv> vi_grain_size_sectors v * SECTOR"

lemma validate_vmdk:
  assumes "vmdk_validate_header h = Ok ()"
  shows "8 \<le> unat (vh_grain_size_sectors h)" "unat (vh_grain_size_sectors h) \<le> 2 ^ 20" "vh_num_gtes_per_gt h \<noteq> 0"
  using assms by (auto simp: vmdk_validate_header_def word_less_nat_alt not_less push_bit_of_1 split: if_splits)

lemma vmdk_open_geometry: "vmdk_open fs path = Ok v \<Longrightarrow> vmdk_geometry v"
  by (auto simp: vmdk_open_def vmdk_geometry_def bind_result_eq_Ok lift_err_def Let_def split: if_splits dest: validate_vmdk)

lemma grain_size:
  assumes "vmdk_geometry v"
  shows "unat (grain_bytes v) = unat (vi_grain_size_sectors v) * 512" "4096 \<le> unat (grain_bytes v)" "unat (grain_bytes v) \<le> 2 ^ 29"
    "grain_bytes v \<noteq> 0" "mul_u64 (vi_grain_size_sectors v) SECTOR = Ok (grain_bytes v)"
proof -
  have s: "unat (vi_grain_size_sectors v) * unat SECTOR < 2 ^ 64" using assms by (simp add: vmdk_geometry_def SECTOR_def)
  show u: "unat (grain_bytes v) = unat (vi_grain_size_sectors v) * 512" using unat_mul_small [OF s] by (simp add: SECTOR_def)
  then show "4096 \<le> unat (grain_bytes v)" "unat (grain_bytes v) \<le> 2 ^ 29" using assms by (simp_all add: vmdk_geometry_def)
  then show "grain_bytes v \<noteq> 0" by (auto simp flip: unat_eq_zero)
  show "mul_u64 (vi_grain_size_sectors v) SECTOR = Ok (grain_bytes v)" using s by (simp add: mul_u64_def)
qed

lemma sector_mul: "checked_mul (ucast (x :: u32)) SECTOR = Some (ucast x * SECTOR) \<and> unat (ucast x * SECTOR :: u64) = unat x * 512"
proof -
  have "unat (ucast x :: u64) * unat SECTOR < 2 ^ 64" using unat_lt_size [of x] by (simp add: SECTOR_def)
  then show ?thesis using unat_mul_small [of "ucast x" SECTOR] by (simp add: checked_mul_def SECTOR_def)
qed

lemma entries_mul: "checked_mul (ucast (x :: u32)) 4 = Some (ucast x * 4) \<and> unat (ucast x * 4 :: u64) = unat x * 4"
proof -
  have "unat (ucast x :: u64) * unat (4 :: u64) < 2 ^ 64" using unat_lt_size [of x] by simp
  then show ?thesis using unat_mul_small [of "ucast x" 4] by (simp add: checked_mul_def)
qed

lemma load_gt_eq:
  "vmdk_load_gt v s = bind_result (lift_err (seek_to (vi_file v) ''seek gt'' (ucast s * SECTOR))) (\<lambda>_.
     bind_result (lift_err (map_err (\<lambda>e. Storage (''read gt: '' @ e)) (read_exact (vi_file v) (ucast s * SECTOR) (unat (vi_num_gtes_per_gt v) * 4)))) (\<lambda>raw.
       Ok (map from_le_bytes (chunks_exact 4 raw))))"
  using unat_lt_size [of "vi_num_gtes_per_gt v"] sector_mul [of s] entries_mul [of "vi_num_gtes_per_gt v"]
  by (simp add: vmdk_load_gt_def vec_zeroed_def)

lemma gtes_pos:
  assumes "vmdk_geometry v"
  shows "(ucast (vi_num_gtes_per_gt v) :: u64) \<noteq> 0" "0 < unat (vi_num_gtes_per_gt v)"
proof -
  show p: "0 < unat (vi_num_gtes_per_gt v)" using assms by (simp add: vmdk_geometry_def unat_gt_0)
  then have "unat (ucast (vi_num_gtes_per_gt v) :: u64) \<noteq> 0" by simp
  then show "(ucast (vi_num_gtes_per_gt v) :: u64) \<noteq> 0" by (metis unat_0)
qed

lemma grain_no_panic:
  assumes "vmdk_geometry v" "unat intra < 2 ^ 29"
  shows "\<not> panics (vmdk_grain v g intra n)"
proof -
  note ng = gtes_pos [OF assms(1)]
  have "unat (ucast x * SECTOR :: u64) + unat intra < 2 ^ 64" for x :: u32
    using sector_mul [of x] unat_lt_size [of x] assms(2) by simp
  then have "\<not> panics (add_u64 (ucast x * SECTOR) intra)" for x :: u32 by (rule panic_free_arith)
  then have "\<not> panics (vmdk_read_grain v x intra n)" for x
    unfolding vmdk_read_grain_def by (intro panics_bind) (use sector_mul [of x] in auto)
  moreover have "\<not> panics (vmdk_load_gt v x)" for x unfolding load_gt_eq by (intro panics_bind) simp_all
  ultimately have "\<not> panics (bind_result (vmdk_load_gt v x) (\<lambda>gt. let gte = get_or_0 gt i in
      if gte = 0 \<or> gte = 1 then Ok (replicate n 0) else vmdk_read_grain v gte intra n))" for x i
    by (intro panics_bind) (auto simp: Let_def)
  then show ?thesis using ng by (simp add: vmdk_grain_def Let_def div_u64_def rem_u64_def)
qed

lemma vmdk_read_no_panic:
  assumes "vmdk_geometry v"
  shows "\<not> panics (vmdk_read_at v off n)"
proof (cases "n = 0 \<or> vi_virtual_size v \<le> off")
  case False
  note g = grain_size [OF assms]
  have "unat off + min n (unat (vi_virtual_size v - off)) < 2 ^ 64"
    using False unat_lt_size [of "vi_virtual_size v"] unat_sub_small [of off "vi_virtual_size v"] by (auto simp: word_le_nat_alt)
  moreover have "unat a mod unat (grain_bytes v) < 2 ^ 29" for a :: u64
    using g(2,3) mod_less_divisor [of "unat (grain_bytes v)" "unat a"] by linarith
  then have "\<not> panics (vmdk_grain v (a div grain_bytes v) (a mod grain_bytes v) k)" for a k
    by (intro grain_no_panic [OF assms]) (simp add: unat_mod)
  ultimately show ?thesis using fill_loop_no_panic [OF g(4)] False g(5) by (simp add: vmdk_read_at_def Let_def)
qed (simp add: vmdk_read_at_def)

subsection \<open>The mapping of the format\<close>

definition gd_entry_of :: "vmdk_image \<Rightarrow> nat \<Rightarrow> u32" where
  "gd_entry_of v g = get_or_0 (vi_gd v) (g div unat (vi_num_gtes_per_gt v))"

definition gt_entry_of :: "vmdk_image \<Rightarrow> bytes \<Rightarrow> nat \<Rightarrow> u32" where
  "gt_entry_of v c g = from_le_bytes (take 4 (drop (unat (gd_entry_of v g) * 512 + 4 * (g mod unat (vi_num_gtes_per_gt v))) c))"

definition vmdk_host :: "vmdk_image \<Rightarrow> bytes \<Rightarrow> nat \<Rightarrow> nat option" where
  "vmdk_host v c g =
     (if gd_entry_of v g \<in> {0, 1} \<or> gt_entry_of v c g \<in> {0, 1} then None else Some (unat (gt_entry_of v c g) * 512))"

definition vmdk_byte :: "vmdk_image \<Rightarrow> bytes \<Rightarrow> nat \<Rightarrow> u8" where
  "vmdk_byte v c a =
     (let gb = unat (grain_bytes v) in case vmdk_host v c (a div gb) of None \<Rightarrow> 0 | Some h \<Rightarrow> c ! (h + a mod gb))"

definition vmdk_disk :: "vmdk_image \<times> bytes \<Rightarrow> bytes" where
  "vmdk_disk vc = map (vmdk_byte (fst vc) (snd vc)) [0..<unat (vi_virtual_size (fst vc))]"

text \<open>Grain tables and grains in use lie in the file.\<close>

definition vmdk_grain_ok :: "vmdk_image \<Rightarrow> bytes \<Rightarrow> nat \<Rightarrow> bool" where
  "vmdk_grain_ok v c g \<longleftrightarrow>
     (gd_entry_of v g \<notin> {0, 1} \<longrightarrow> unat (gd_entry_of v g) * 512 + 4 * unat (vi_num_gtes_per_gt v) \<le> length c) \<and>
     (case vmdk_host v c g of None \<Rightarrow> True
      | Some h \<Rightarrow> h + min (unat (grain_bytes v)) (unat (vi_virtual_size v) - g * unat (grain_bytes v)) \<le> length c)"

definition vmdk_ok :: "vmdk_image \<times> bytes \<Rightarrow> bool" where
  "vmdk_ok vc \<longleftrightarrow> (case vc of (v, c) \<Rightarrow> file_holds (vi_file v) c \<and> vmdk_geometry v \<and>
     (\<forall>g. g * unat (grain_bytes v) < unat (vi_virtual_size v) \<longrightarrow> vmdk_grain_ok v c g))"

lemma load_gt_holds:
  assumes "file_holds (vi_file v) c" "unat s * 512 + 4 * unat (vi_num_gtes_per_gt v) \<le> length c" "i < unat (vi_num_gtes_per_gt v)"
  shows "\<exists>gt. vmdk_load_gt v s = Ok gt \<and> get_or_0 gt i = from_le_bytes (take 4 (drop (unat s * 512 + 4 * i) c))"
proof -
  let ?n = "unat (vi_num_gtes_per_gt v)" and ?raw = "take (unat (vi_num_gtes_per_gt v) * 4) (drop (unat s * 512) c)"
  have a: "unat (ucast s * SECTOR :: u64) = unat s * 512" using sector_mul [of s] by simp
  have "vmdk_load_gt v s = Ok (map from_le_bytes (chunks_exact 4 ?raw))"
    using assms(2) by (simp add: load_gt_eq lift_err_def seek_inside [OF assms(1)] read_exact_inside [OF assms(1)] a)
  moreover have len: "length ?raw = ?n * 4" using assms(2) by simp
  then have "chunks_exact 4 ?raw = map (\<lambda>i. take 4 (drop (4 * i) ?raw)) [0..<?n]" by (simp add: chunks_exact_map)
  moreover have "take 4 (drop (4 * i) ?raw) = take 4 (drop (unat s * 512 + 4 * i) c)"
    using assms(3) by (simp add: drop_take add.commute min_def)
  ultimately show ?thesis using assms(3) by (simp add: get_or_0_def)
qed

lemma vmdk_grain_reads:
  assumes "vmdk_ok (v, c)" "0 < n" "unat a + n \<le> length (vmdk_disk (v, c))" "n \<le> unat (grain_bytes v) - unat a mod unat (grain_bytes v)"
  shows "vmdk_grain v (a div grain_bytes v) (a mod grain_bytes v) n = Ok (take n (drop (unat a) (vmdk_disk (v, c))))"
proof -
  have f: "file_holds (vi_file v) c" and geo: "vmdk_geometry v" using assms(1) by (auto simp: vmdk_ok_def)
  define gb where "gb = unat (grain_bytes v)"
  define g where "g = unat a div gb"
  have ln: "unat a + n \<le> unat (vi_virtual_size v)" using assms(3) by (simp add: vmdk_disk_def)
  have pos: "0 < gb" using grain_size(2) [OF geo] by (simp add: gb_def)
  have "g * gb < unat (vi_virtual_size v)" using ln assms(2) div_times_less_eq_dividend [of "unat a" gb] unfolding g_def by linarith
  then have ck: "vmdk_grain_ok v c g" using assms(1) by (simp add: vmdk_ok_def gb_def)
  let ?ng = "unat (vi_num_gtes_per_gt v)"
  note ng = gtes_pos [OF geo]
  have byte: "vmdk_byte v c (unat a + j) = (case vmdk_host v c g of None \<Rightarrow> 0 | Some h \<Rightarrow> c ! (h + unat a mod gb + j))" if "j < n" for j
    using block_index [of j gb "unat a"] that assms(4) pos by (simp add: vmdk_byte_def Let_def gb_def g_def add.assoc split: option.splits)
  have zero: "Ok (replicate n 0) = Ok (take n (drop (unat a) (vmdk_disk (v, c))))" if "vmdk_host v c g = None"
    using window_zero [OF ln, of "vmdk_byte v c"] byte that by (simp add: vmdk_disk_def)
  have idx: "unat (a div grain_bytes v) = g" by (simp add: unat_div g_def gb_def)
  have gd: "get_or_0 (vi_gd v) (unat (a div grain_bytes v div ucast (vi_num_gtes_per_gt v))) = gd_entry_of v g"
    by (simp add: gd_entry_of_def unat_div g_def gb_def)
  have gi: "unat (a div grain_bytes v mod ucast (vi_num_gtes_per_gt v)) = g mod ?ng" by (simp add: unat_mod unat_div g_def gb_def)
  show ?thesis
  proof (cases "gd_entry_of v g \<in> {0, 1}")
    case True
    then show ?thesis using zero ng gd by (auto simp: vmdk_grain_def div_u64_def rem_u64_def Let_def vmdk_host_def)
  next
    case False
    obtain gt where gt: "vmdk_load_gt v (gd_entry_of v g) = Ok gt" "get_or_0 gt (g mod ?ng) = gt_entry_of v c g"
      using load_gt_holds [OF f, of "gd_entry_of v g" "g mod ?ng"] ck False ng by (auto simp: vmdk_grain_ok_def gt_entry_of_def)
    show ?thesis
    proof (cases "gt_entry_of v c g \<in> {0, 1}")
      case True
      then show ?thesis using zero ng gd gi gt False by (auto simp: vmdk_grain_def div_u64_def rem_u64_def Let_def vmdk_host_def)
    next
      case nz: False
      define h where "h = unat (gt_entry_of v c g) * 512"
      have host: "vmdk_host v c g = Some h" using False nz by (simp add: vmdk_host_def h_def)
      have "unat a mod gb + n \<le> min gb (unat (vi_virtual_size v) - g * gb)"
        using ln assms(4) mod_less_divisor [OF pos, of "unat a"] div_mult_mod_eq [of "unat a" gb] unfolding g_def gb_def [symmetric] by linarith
      moreover have "h + min gb (unat (vi_virtual_size v) - g * gb) \<le> length c" using ck host by (simp add: vmdk_grain_ok_def gb_def)
      ultimately have l: "h + unat a mod gb + n \<le> length c" by linarith
      let ?b = "ucast (gt_entry_of v c g) * SECTOR :: u64"
      have b: "unat ?b = h" "checked_mul (ucast (gt_entry_of v c g)) SECTOR = Some ?b" using sector_mul [of "gt_entry_of v c g"] by (simp_all add: h_def)
      have "length c < 2 ^ 63" using f by (simp add: file_holds_def)
      then have s: "unat ?b + unat (a mod grain_bytes v) < 2 ^ 64" using l b(1) by (simp add: unat_mod gb_def)
      have at: "unat (?b + a mod grain_bytes v) = h + unat a mod gb" using unat_add_small [of ?b "a mod grain_bytes v"] s b(1) by (simp add: unat_mod gb_def)
      have "take n (drop (h + unat a mod gb) c) = take n (drop (unat a) (vmdk_disk (v, c)))"
        using window_eq [OF ln l, of "vmdk_byte v c"] byte host by (simp add: vmdk_disk_def)
      then show ?thesis using ng gd gi gt False nz b s l
        by (simp add: vmdk_grain_def vmdk_read_grain_def div_u64_def rem_u64_def Let_def add_u64_def checked_add_def lift_err_def seek_inside [OF f] read_exact_inside [OF f] at)
    qed
  qed
qed

interpretation vmdk: disk_backend vmdk_ok "\<lambda>vc. vi_virtual_size (fst vc)" "\<lambda>vc. vmdk_read_at (fst vc)" vmdk_disk
proof
  fix vc :: "vmdk_image \<times> bytes" and off :: u64 and n
  assume ok: "vmdk_ok vc"
  obtain v c where vc: "vc = (v, c)" by (cases vc)
  show len: "length (vmdk_disk vc) = unat (vi_virtual_size (fst vc))" by (simp add: vmdk_disk_def)
  have g: "vmdk_geometry v" using ok by (auto simp: vmdk_ok_def vc)
  show "\<exists>k\<le>n. vmdk_read_at (fst vc) off n = Ok (take k (drop (unat off) (vmdk_disk vc))) \<and> (0 < n \<and> off < vi_virtual_size (fst vc) \<longrightarrow> 0 < k)"
  proof (cases "n = 0 \<or> vi_virtual_size v \<le> off")
    case True
    then show ?thesis by (intro exI [of _ 0]) (auto simp: vc vmdk_read_at_def)
  next
    case False
    define k where "k = min n (unat (vi_virtual_size v - off))"
    have b: "unat off + k \<le> length (vmdk_disk (v, c))" "0 < k" using False len by (auto simp: k_def vc unat_sub_small word_le_nat_alt)
    have "fill_loop (vmdk_grain v) (grain_bytes v) off k = Ok (take k (drop (unat off) (vmdk_disk (v, c))))"
      using vmdk_grain_reads [of v c] ok len unat_lt_size [of "vi_virtual_size v"] b(1)
      by (intro fill_loop_reads [OF grain_size(4) [OF g]]) (auto simp: vc)
    then show ?thesis using False b grain_size(5) [OF g]
      by (intro exI [of _ k]) (simp add: vc vmdk_read_at_def Let_def k_def)
  qed
qed

end
