(* ===== verification/Vhdx.thy ===== *)
theory Vhdx
  imports Disk_Image
begin

text \<open>
  The VHDX reader, \<^verbatim>\<open>src/crates/celimage/src/vhdx.rs\<close>: file identifier, the two checksummed headers and region
  tables, the metadata items, the block allocation table, and reads that walk block by block.
\<close>

section \<open>The model\<close>

definition HEADER1_OFF :: u64 where "HEADER1_OFF = 0x10000"
definition HEADER2_OFF :: u64 where "HEADER2_OFF = 0x20000"
definition REGION_TABLE1_OFF :: u64 where "REGION_TABLE1_OFF = 0x30000"
definition REGION_TABLE2_OFF :: u64 where "REGION_TABLE2_OFF = 0x40000"
definition HEADER_LEN :: nat where "HEADER_LEN = 4096"
definition REGION_TABLE_LEN :: nat where "REGION_TABLE_LEN = 64 * 1024"
definition MEGABYTE :: u64 where "MEGABYTE = 1024 * 1024"

definition REGION_BAT :: bytes where
  "REGION_BAT = [0x66, 0x77, 0xC2, 0x2D, 0x23, 0xF6, 0x00, 0x42, 0x9D, 0x64, 0x11, 0x5E, 0x9B, 0xFD, 0x4A, 0x08]"
definition REGION_METADATA :: bytes where
  "REGION_METADATA = [0x06, 0xA2, 0x7C, 0x8B, 0x90, 0x47, 0x9A, 0x4B, 0xB8, 0xFE, 0x57, 0x5F, 0x05, 0x0F, 0x88, 0x6E]"
definition META_FILE_PARAMETERS :: bytes where
  "META_FILE_PARAMETERS = [0x37, 0x67, 0xA1, 0xCA, 0x36, 0xFA, 0x43, 0x4D, 0xB3, 0xB6, 0x33, 0xF0, 0xAA, 0x44, 0xE7, 0x6B]"
definition META_VIRTUAL_DISK_SIZE :: bytes where
  "META_VIRTUAL_DISK_SIZE = [0x24, 0x42, 0xA5, 0x2F, 0x1B, 0xCD, 0x76, 0x48, 0xB2, 0x11, 0x5D, 0xBE, 0xD8, 0x3B, 0xF4, 0xB8]"
definition META_LOGICAL_SECTOR_SIZE :: bytes where
  "META_LOGICAL_SECTOR_SIZE = [0x1D, 0xBF, 0x41, 0x81, 0x6F, 0xA9, 0x09, 0x47, 0xBA, 0x47, 0xF2, 0x33, 0xA8, 0xFA, 0xAB, 0x5F]"

definition BAT_PAYLOAD_BLOCK_NOT_PRESENT :: u64 where "BAT_PAYLOAD_BLOCK_NOT_PRESENT = 0"
definition BAT_PAYLOAD_BLOCK_UNDEFINED :: u64 where "BAT_PAYLOAD_BLOCK_UNDEFINED = 1"
definition BAT_PAYLOAD_BLOCK_ZERO :: u64 where "BAT_PAYLOAD_BLOCK_ZERO = 2"
definition BAT_PAYLOAD_BLOCK_UNMAPPED :: u64 where "BAT_PAYLOAD_BLOCK_UNMAPPED = 3"
definition BAT_PAYLOAD_BLOCK_FULLY_PRESENT :: u64 where "BAT_PAYLOAD_BLOCK_FULLY_PRESENT = 6"
definition BAT_PAYLOAD_BLOCK_PARTIALLY_PRESENT :: u64 where "BAT_PAYLOAD_BLOCK_PARTIALLY_PRESENT = 7"

record vhdx_image =
  xi_path :: string
  xi_file :: os_file
  xi_virtual_size :: u64
  xi_block_size :: u32
  xi_logical_sector_size :: u32
  xi_bat :: "u64 list"
  xi_chunk_ratio :: u64
  xi_is_fixed :: bool

record vhdx_header =
  xh_sequence_number :: u64
  xh_log_length :: u32

record region_entry =
  re_guid :: bytes
  re_file_offset :: u64
  re_length :: u32
  re_required :: bool

record vhdx_metadata =
  xm_block_size :: u32
  xm_leave_blocks_allocated :: bool
  xm_has_parent :: bool
  xm_virtual_size :: u64
  xm_logical_sector_size :: u32

text \<open>A block of the file whose checksum, at offset 4, is verified with that field zeroed.\<close>

definition checksummed_block :: "os_file \<Rightarrow> string \<Rightarrow> string \<Rightarrow> string \<Rightarrow> bytes \<Rightarrow> u64 \<Rightarrow> nat \<Rightarrow> bytes cel_result" where
  "checksummed_block f what m_sig m_crc sig off len =
     bind_result (seek_to f (''seek '' @ what) off) (\<lambda>_.
     bind_result (map_err (\<lambda>e. Io (''read '' @ what @ '': '' @ e)) (read_exact f off len)) (\<lambda>buf.
       if take 4 buf \<noteq> sig then Err (Invalid m_sig)
       else bind_result (le_u32 buf 4) (\<lambda>stored.
         let buf = take 4 buf @ [0, 0, 0, 0] @ drop 8 buf in
         if util_crc32c buf \<noteq> stored then Err (Invalid m_crc) else Ok buf)))"

definition vhdx_read_header :: "os_file \<Rightarrow> u64 \<Rightarrow> vhdx_header cel_result" where
  "vhdx_read_header f off =
     bind_result (checksummed_block f ''header'' ''vhdx: header signature mismatch'' ''vhdx: header CRC mismatch''
       (ascii_bytes ''head'') off HEADER_LEN) (\<lambda>buf.
     bind_result (le_u64 buf 8) (\<lambda>sequence_number.
     bind_result (le_u32 buf 68) (\<lambda>log_length.
       Ok \<lparr>xh_sequence_number = sequence_number, xh_log_length = log_length\<rparr>)))"

definition pick_header :: "os_file \<Rightarrow> vhdx_header cel_result" where
  "pick_header f =
     (case (vhdx_read_header f HEADER1_OFF, vhdx_read_header f HEADER2_OFF) of
        (Ok a, Ok b) \<Rightarrow> Ok (if xh_sequence_number b \<le> xh_sequence_number a then a else b)
      | (Ok a, Err _) \<Rightarrow> Ok a
      | (Err _, Ok b) \<Rightarrow> Ok b
      | (Err _, Err _) \<Rightarrow> Err (Invalid ''vhdx: no valid header (both CRCs bad)''))"

definition region_entry_at :: "bytes \<Rightarrow> nat \<Rightarrow> region_entry cel_result" where
  "region_entry_at buf i =
     (let base = 16 + i * 32 in
      if length buf < base + 16 then Err (Invalid ''vhdx: region entry truncated'')
      else
        bind_result (le_u64 buf (base + 16)) (\<lambda>file_offset.
        bind_result (le_u32 buf (base + 24)) (\<lambda>len.
        bind_result (le_u32 buf (base + 28)) (\<lambda>flags.
          Ok \<lparr>re_guid = take 16 (drop base buf), re_file_offset = file_offset, re_length = len, re_required = (flags AND 1 \<noteq> 0)\<rparr>))))"

fun region_entries :: "bytes \<Rightarrow> nat list \<Rightarrow> region_entry list cel_result" where
  "region_entries buf [] = Ok []"
| "region_entries buf (i # is) =
     bind_result (region_entry_at buf i) (\<lambda>e. bind_result (region_entries buf is) (\<lambda>es. Ok (e # es)))"

definition read_region_table :: "os_file \<Rightarrow> u64 \<Rightarrow> region_entry list cel_result" where
  "read_region_table f off =
     bind_result (checksummed_block f ''region'' ''vhdx: region signature mismatch'' ''vhdx: region CRC mismatch''
       (ascii_bytes ''regi'') off REGION_TABLE_LEN) (\<lambda>buf.
     bind_result (le_u32 buf 8) (\<lambda>entry_count.
       if 2047 < entry_count then Err (Invalid ''vhdx: region entry count > 2047'')
       else region_entries buf [0..<unat entry_count]))"

definition pick_region_table :: "os_file \<Rightarrow> region_entry list cel_result" where
  "pick_region_table f =
     (case read_region_table f REGION_TABLE1_OFF of Ok r \<Rightarrow> Ok r | Err _ \<Rightarrow> read_region_table f REGION_TABLE2_OFF)"

record meta_items =
  mt_block_size :: "u32 option"
  mt_flags :: "u32 option"
  mt_virtual_size :: "u64 option"
  mt_logical_sector_size :: "u32 option"

definition meta_item :: "bytes \<Rightarrow> bytes \<Rightarrow> meta_items \<Rightarrow> meta_items cel_result" where
  "meta_item guid item m =
     (if guid = META_FILE_PARAMETERS then
        if length item < 8 then Err (Invalid ''vhdx: file_parameters short'')
        else bind_result (le_u32 item 0) (\<lambda>b. bind_result (le_u32 item 4) (\<lambda>fl.
               Ok (m\<lparr>mt_block_size := Some b, mt_flags := Some fl\<rparr>)))
      else if guid = META_VIRTUAL_DISK_SIZE then
        if length item < 8 then Err (Invalid ''vhdx: virtual_disk_size short'')
        else bind_result (le_u64 item 0) (\<lambda>s. Ok (m\<lparr>mt_virtual_size := Some s\<rparr>))
      else if guid = META_LOGICAL_SECTOR_SIZE then
        if length item < 4 then Err (Invalid ''vhdx: logical_sector_size short'')
        else bind_result (le_u32 item 0) (\<lambda>s. Ok (m\<lparr>mt_logical_sector_size := Some s\<rparr>))
      else Ok m)"

definition meta_read :: "os_file \<Rightarrow> string \<Rightarrow> u64 \<Rightarrow> nat \<Rightarrow> bytes img_result" where
  "meta_read f what off n =
     bind_result (lift_err (seek_to f (''seek '' @ what) off)) (\<lambda>_.
       lift_err (map_err (\<lambda>e. Io (''read '' @ what @ '': '' @ e)) (read_exact f off n)))"

definition meta_entry :: "os_file \<Rightarrow> u64 \<Rightarrow> nat \<Rightarrow> meta_items \<Rightarrow> meta_items img_result" where
  "meta_entry f off i m =
     bind_result (add_u64 off 32) (\<lambda>a.
     bind_result (add_u64 a (of_nat i * 32)) (\<lambda>at.
     bind_result (meta_read f ''meta entry'' at 32) (\<lambda>entry.
     bind_result (lift_err (le_u32 entry 16)) (\<lambda>item_off.
     bind_result (lift_err (le_u32 entry 20)) (\<lambda>item_len.
       if item_len = 0 \<or> push_bit 20 1 < item_len then img_invalid ''vhdx: metadata item length out of range''
       else
         bind_result (add_u64 off (ucast item_off)) (\<lambda>item_at.
         bind_result (meta_read f ''meta item'' item_at (unat item_len)) (\<lambda>item.
           lift_err (meta_item (take 16 entry) item m))))))))"

fun meta_entries :: "os_file \<Rightarrow> u64 \<Rightarrow> nat list \<Rightarrow> meta_items \<Rightarrow> meta_items img_result" where
  "meta_entries f off [] m = Ok m"
| "meta_entries f off (i # is) m = bind_result (meta_entry f off i m) (meta_entries f off is)"

definition read_metadata_region :: "os_file \<Rightarrow> u64 \<Rightarrow> vhdx_metadata img_result" where
  "read_metadata_region f off =
     bind_result (lift_err (seek_to f ''seek metadata'' off)) (\<lambda>_.
     bind_result (lift_err (map_err (\<lambda>e. Io (''read metadata header: '' @ e)) (read_exact f off 32))) (\<lambda>hdr.
       if take 8 hdr \<noteq> ascii_bytes ''metadata'' then img_invalid ''vhdx: metadata signature mismatch''
       else bind_result (lift_err (le_u16 hdr 10)) (\<lambda>entry_count.
         if entry_count = 0 \<or> 2047 < entry_count then img_invalid ''vhdx: metadata entry count out of range''
         else
           bind_result (meta_entries f off [0..<unat entry_count]
             \<lparr>mt_block_size = None, mt_flags = None, mt_virtual_size = None, mt_logical_sector_size = None\<rparr>) (\<lambda>m.
           bind_result (ok_or (Fail (Invalid ''vhdx: FileParameters missing'')) (mt_block_size m)) (\<lambda>block_size.
           bind_result (ok_or (Fail (Invalid ''vhdx: FileParameters flags missing'')) (mt_flags m)) (\<lambda>flags.
           bind_result (ok_or (Fail (Invalid ''vhdx: VirtualDiskSize missing'')) (mt_virtual_size m)) (\<lambda>virtual_size.
           bind_result (ok_or (Fail (Invalid ''vhdx: LogicalSectorSize missing'')) (mt_logical_sector_size m)) (\<lambda>logical_sector_size.
             Ok \<lparr>xm_block_size = block_size, xm_leave_blocks_allocated = (flags AND 1 \<noteq> 0), xm_has_parent = (flags AND 2 \<noteq> 0),
               xm_virtual_size = virtual_size, xm_logical_sector_size = logical_sector_size\<rparr>))))))))"

text \<open>The allocation table: one entry per block and one per chunk.\<close>

definition bat_entry_count :: "u64 \<Rightarrow> u64 \<Rightarrow> u64 \<Rightarrow> u64 option" where
  "bat_entry_count virtual_size block_size chunk_ratio =
     (let pb_count = div_ceil virtual_size block_size in checked_add pb_count (div_ceil pb_count chunk_ratio))"

definition vhdx_load_bat :: "os_file \<Rightarrow> string \<Rightarrow> region_entry \<Rightarrow> vhdx_metadata \<Rightarrow> vhdx_image img_result" where
  "vhdx_load_bat f path bat metadata =
     (if xm_block_size metadata = 0 \<or> (ucast (xm_block_size metadata)) mod MEGABYTE \<noteq> 0
        then img_invalid ''vhdx: block_size must be a multiple of 1 MB''
      else if xm_logical_sector_size metadata \<noteq> 512 \<and> xm_logical_sector_size metadata \<noteq> 4096
        then img_invalid ''vhdx: logical_sector_size must be 512 or 4096''
      else
        bind_result (ok_or (Fail (Invalid ''vhdx: chunk_ratio overflow''))
          (checked_mul (push_bit 23 1) (ucast (xm_logical_sector_size metadata)))) (\<lambda>p.
        let chunk_ratio = p div ucast (xm_block_size metadata) in
        if chunk_ratio = 0 then img_invalid ''vhdx: chunk_ratio computed as zero''
        else
          bind_result (ok_or (Fail (Invalid ''vhdx: BAT entry count overflow''))
            (bat_entry_count (xm_virtual_size metadata) (ucast (xm_block_size metadata)) chunk_ratio)) (\<lambda>total_entries.
          bind_result (ok_or (Fail (Invalid ''vhdx: BAT byte length overflow'')) (checked_mul total_entries 8)) (\<lambda>bat_bytes.
          if ucast (re_length bat) < bat_bytes then img_invalid ''vhdx: BAT region too small for declared virtual size''
          else
            bind_result (vec_zeroed bat_bytes) (\<lambda>n.
            bind_result (lift_err (seek_to f ''seek bat'' (re_file_offset bat))) (\<lambda>_.
            bind_result (lift_err (map_err (\<lambda>e. Storage (''read bat: '' @ e)) (read_exact f (re_file_offset bat) n))) (\<lambda>raw.
              Ok \<lparr>xi_path = path, xi_file = f, xi_virtual_size = xm_virtual_size metadata, xi_block_size = xm_block_size metadata,
                xi_logical_sector_size = xm_logical_sector_size metadata, xi_bat = map from_le_bytes (chunks_exact 8 raw),
                xi_chunk_ratio = chunk_ratio, xi_is_fixed = xm_leave_blocks_allocated metadata\<rparr>)))))))"

definition vhdx_open :: "file_system \<Rightarrow> string \<Rightarrow> vhdx_image img_result" where
  "vhdx_open fs path =
     bind_result (lift_err (f_open fs path)) (\<lambda>f.
     bind_result (lift_err (seek_to f ''seek 0'' 0)) (\<lambda>_.
     bind_result (lift_err (map_err (\<lambda>e. Io (''read fileid: '' @ e)) (read_exact f 0 8))) (\<lambda>sig.
       if sig \<noteq> ascii_bytes ''vhdxfile'' then img_invalid ''vhdx: bad file identifier''
       else bind_result (lift_err (pick_header f)) (\<lambda>h.
         if xh_log_length h \<noteq> 0 then img_invalid ''vhdx: non-empty log not supported (replay journal first)''
         else
           bind_result (lift_err (pick_region_table f)) (\<lambda>regions.
           bind_result (ok_or (Fail (Invalid ''vhdx: BAT region missing'')) (find (\<lambda>r. re_guid r = REGION_BAT) regions)) (\<lambda>bat.
           bind_result (ok_or (Fail (Invalid ''vhdx: metadata region missing'')) (find (\<lambda>r. re_guid r = REGION_METADATA) regions)) (\<lambda>meta.
           bind_result (read_metadata_region f (re_file_offset meta)) (\<lambda>metadata.
             if xm_has_parent metadata then img_invalid ''vhdx: differencing images (HasParent) not supported''
             else vhdx_load_bat f path bat metadata))))))))"

definition vhdx_info :: "vhdx_image \<Rightarrow> image_info" where
  "vhdx_info x =
     \<lparr>ii_format = FkVhdx, ii_virtual_size = xi_virtual_size x, ii_cluster_size = Some (ucast (xi_block_size x)),
      ii_backend = (if xi_is_fixed x then ''vhdx-fixed'' else ''vhdx-dynamic'')\<rparr>"

definition vhdx_read_block :: "vhdx_image \<Rightarrow> u64 \<Rightarrow> u64 \<Rightarrow> nat \<Rightarrow> bytes img_result" where
  "vhdx_read_block x entry intra chunk =
     bind_result (add_u64 (entry AND 0xFFFFFFFFFFF00000) intra) (\<lambda>at.
     bind_result (lift_err (seek_to (xi_file x) ''seek vhdx block'' at)) (\<lambda>_.
       lift_err (map_err (\<lambda>e. Storage (''read vhdx block: '' @ e)) (read_exact (xi_file x) at chunk))))"

definition vhdx_block :: "vhdx_image \<Rightarrow> u64 \<Rightarrow> u64 \<Rightarrow> nat \<Rightarrow> bytes img_result" where
  "vhdx_block x block_idx intra chunk =
     bind_result (div_u64 block_idx (xi_chunk_ratio x)) (\<lambda>sb.
     bind_result (add_u64 block_idx sb) (\<lambda>bat_idx.
       if length (xi_bat x) \<le> unat bat_idx then img_invalid ''vhdx: BAT index out of range''
       else
         let entry = xi_bat x ! unat bat_idx; state = entry AND 7 in
         if state \<in> {BAT_PAYLOAD_BLOCK_NOT_PRESENT, BAT_PAYLOAD_BLOCK_UNDEFINED, BAT_PAYLOAD_BLOCK_ZERO, BAT_PAYLOAD_BLOCK_UNMAPPED}
           then Ok (replicate chunk 0)
         else if state = BAT_PAYLOAD_BLOCK_FULLY_PRESENT then vhdx_read_block x entry intra chunk
         else if state = BAT_PAYLOAD_BLOCK_PARTIALLY_PRESENT then img_invalid ''vhdx: partially-present block (differencing) not supported''
         else img_invalid ''vhdx: unknown BAT state''))"

definition vhdx_read_at :: "vhdx_image \<Rightarrow> read_fn" where
  "vhdx_read_at x off n =
     (if n = 0 \<or> xi_virtual_size x \<le> off then Ok []
      else fill_loop (vhdx_block x) (ucast (xi_block_size x)) off (min n (unat (xi_virtual_size x - off))))"

section \<open>The theorems\<close>

subsection \<open>What an opened image guarantees\<close>

definition vhdx_geometry :: "vhdx_image \<Rightarrow> bool" where
  "vhdx_geometry x \<longleftrightarrow> 2 ^ 20 \<le> unat (xi_block_size x) \<and> xi_chunk_ratio x \<noteq> 0"

lemma megabytes: "b \<noteq> 0 \<Longrightarrow> (ucast b :: u64) mod MEGABYTE = 0 \<Longrightarrow> 2 ^ 20 \<le> unat (b :: u32)"
proof -
  assume b: "b \<noteq> 0" "(ucast b :: u64) mod MEGABYTE = 0"
  then have "unat (ucast b mod MEGABYTE :: u64) = 0" by (simp only: unat_0)
  then have "(2 ^ 20 :: nat) dvd unat b" by (simp add: unat_mod MEGABYTE_def dvd_eq_mod_eq_0)
  then show ?thesis using b(1) by (simp add: dvd_imp_le unat_gt_0)
qed

lemma load_bat_geometry: "vhdx_load_bat f path bat m = Ok x \<Longrightarrow> vhdx_geometry x"
  by (auto simp: vhdx_load_bat_def vhdx_geometry_def bind_result_eq_Ok Let_def dest: megabytes del: mod_0_imp_dvd split: if_splits)

lemma vhdx_open_geometry: "vhdx_open fs path = Ok x \<Longrightarrow> vhdx_geometry x"
  by (auto simp: vhdx_open_def bind_result_eq_Ok dest: load_bat_geometry split: if_splits)

lemma block_bytes: "vhdx_geometry x \<Longrightarrow> (ucast (xi_block_size x) :: u64) \<noteq> 0 \<and> 0 < unat (xi_block_size x)"
  using unat_widen [of "xi_block_size x"] by (auto simp: vhdx_geometry_def simp del: unat_widen)

subsection \<open>The mapping of the format\<close>

definition bat_index :: "vhdx_image \<Rightarrow> nat \<Rightarrow> nat" where
  "bat_index x b = b + b div unat (xi_chunk_ratio x)"

definition bat_entry_of :: "vhdx_image \<Rightarrow> nat \<Rightarrow> u64" where
  "bat_entry_of x b = xi_bat x ! bat_index x b"

definition vhdx_host :: "vhdx_image \<Rightarrow> nat \<Rightarrow> nat option" where
  "vhdx_host x b =
     (if bat_entry_of x b AND 7 = BAT_PAYLOAD_BLOCK_FULLY_PRESENT then Some (unat (bat_entry_of x b AND 0xFFFFFFFFFFF00000)) else None)"

definition vhdx_byte :: "vhdx_image \<Rightarrow> bytes \<Rightarrow> nat \<Rightarrow> u8" where
  "vhdx_byte x c a =
     (let bb = unat (xi_block_size x) in case vhdx_host x (a div bb) of None \<Rightarrow> 0 | Some h \<Rightarrow> c ! (h + a mod bb))"

definition vhdx_disk :: "vhdx_image \<times> bytes \<Rightarrow> bytes" where
  "vhdx_disk xc = map (vhdx_byte (fst xc) (snd xc)) [0..<unat (xi_virtual_size (fst xc))]"

text \<open>The table covers the disk, its states are those of a file without a parent, and blocks in use lie in the file.\<close>

definition vhdx_block_ok :: "vhdx_image \<Rightarrow> bytes \<Rightarrow> nat \<Rightarrow> bool" where
  "vhdx_block_ok x c b \<longleftrightarrow>
     bat_index x b < length (xi_bat x) \<and> bat_entry_of x b AND 7 \<in> {0, 1, 2, 3, 6} \<and>
     (case vhdx_host x b of None \<Rightarrow> True
      | Some h \<Rightarrow> h + min (unat (xi_block_size x)) (unat (xi_virtual_size x) - b * unat (xi_block_size x)) \<le> length c)"

definition vhdx_ok :: "vhdx_image \<times> bytes \<Rightarrow> bool" where
  "vhdx_ok xc \<longleftrightarrow> (case xc of (x, c) \<Rightarrow> file_holds (xi_file x) c \<and> vhdx_geometry x \<and>
     (\<forall>b. b * unat (xi_block_size x) < unat (xi_virtual_size x) \<longrightarrow> vhdx_block_ok x c b))"

lemma bat_index_word:
  assumes "vhdx_geometry x" "unat i < 2 ^ 44"
  shows "div_u64 i (xi_chunk_ratio x) = Ok (i div xi_chunk_ratio x)"
    "add_u64 i (i div xi_chunk_ratio x) = Ok (i + i div xi_chunk_ratio x)" "unat (i + i div xi_chunk_ratio x) = bat_index x (unat i)"
proof -
  have "unat (i div xi_chunk_ratio x) \<le> unat i" by (simp add: unat_div)
  then have s: "unat i + unat (i div xi_chunk_ratio x) < 2 ^ 64" using assms(2) by simp
  show "add_u64 i (i div xi_chunk_ratio x) = Ok (i + i div xi_chunk_ratio x)" using s by (simp add: add_u64_Ok)
  show "unat (i + i div xi_chunk_ratio x) = bat_index x (unat i)" using unat_add_small [of i "i div xi_chunk_ratio x"] s by (simp add: bat_index_def unat_div)
  show "div_u64 i (xi_chunk_ratio x) = Ok (i div xi_chunk_ratio x)" using assms(1) by (simp add: div_u64_def vhdx_geometry_def)
qed

lemma block_number: "vhdx_geometry x \<Longrightarrow> unat (a div ucast (xi_block_size x) :: u64) < 2 ^ 44 \<and> unat (a div ucast (xi_block_size x) :: u64) = unat a div unat (xi_block_size x)"
proof -
  assume g: "vhdx_geometry x"
  have "unat a div unat (xi_block_size x) \<le> unat a div 2 ^ 20" using g by (intro div_le_mono2) (simp_all add: vhdx_geometry_def)
  also have "\<dots> < 2 ^ 44" using unat_lt_size [of a] by (simp add: less_mult_imp_div_less)
  finally show ?thesis by (simp add: unat_div)
qed

lemma vhdx_block_reads:
  assumes "vhdx_ok (x, c)" "0 < n" "unat a + n \<le> length (vhdx_disk (x, c))" "n \<le> unat (xi_block_size x) - unat a mod unat (xi_block_size x)"
  shows "vhdx_block x (a div ucast (xi_block_size x)) (a mod ucast (xi_block_size x)) n = Ok (take n (drop (unat a) (vhdx_disk (x, c))))"
proof -
  have f: "file_holds (xi_file x) c" and geo: "vhdx_geometry x" using assms(1) by (auto simp: vhdx_ok_def)
  define bb where "bb = unat (xi_block_size x)"
  define b where "b = unat a div bb"
  have pos: "0 < bb" using block_bytes [OF geo] by (simp add: bb_def)
  have ln: "unat a + n \<le> unat (xi_virtual_size x)" using assms(3) by (simp add: vhdx_disk_def)
  have "b * bb < unat (xi_virtual_size x)" using ln assms(2) div_times_less_eq_dividend [of "unat a" bb] unfolding b_def by linarith
  then have ck: "vhdx_block_ok x c b" using assms(1) by (simp add: vhdx_ok_def bb_def)
  have byte: "vhdx_byte x c (unat a + j) = (case vhdx_host x b of None \<Rightarrow> 0 | Some h \<Rightarrow> c ! (h + unat a mod bb + j))" if "j < n" for j
    using block_index [of j bb "unat a"] that assms(4) pos by (simp add: vhdx_byte_def Let_def bb_def b_def add.assoc split: option.splits)
  note i = block_number [OF geo, of a, folded bb_def b_def]
  note w = bat_index_word [OF geo conjunct1 [OF i]]
  have "unat (a div ucast (xi_block_size x)) = b" using i by (simp add: b_def)
  then have at: "vhdx_block x (a div ucast (xi_block_size x)) (a mod ucast (xi_block_size x)) n =
      (if bat_entry_of x b AND 7 = 6 then vhdx_read_block x (bat_entry_of x b) (a mod ucast (xi_block_size x)) n else Ok (replicate n 0))"
    using w ck by (auto simp: vhdx_block_def Let_def vhdx_block_ok_def bat_entry_of_def BAT_PAYLOAD_BLOCK_NOT_PRESENT_def BAT_PAYLOAD_BLOCK_UNDEFINED_def
        BAT_PAYLOAD_BLOCK_ZERO_def BAT_PAYLOAD_BLOCK_UNMAPPED_def BAT_PAYLOAD_BLOCK_FULLY_PRESENT_def)
  show ?thesis
  proof (cases "bat_entry_of x b AND 7 = 6")
    case False
    then have "vhdx_host x b = None" by (simp add: vhdx_host_def BAT_PAYLOAD_BLOCK_FULLY_PRESENT_def)
    then show ?thesis using window_zero [OF ln, of "vhdx_byte x c"] byte False at by (simp add: vhdx_disk_def)
  next
    case True
    define h where "h = bat_entry_of x b AND 0xFFFFFFFFFFF00000"
    have host: "vhdx_host x b = Some (unat h)" using True by (simp add: vhdx_host_def BAT_PAYLOAD_BLOCK_FULLY_PRESENT_def h_def)
    have "unat a mod bb + n \<le> min bb (unat (xi_virtual_size x) - b * bb)"
      using ln assms(4) mod_less_divisor [OF pos, of "unat a"] div_mult_mod_eq [of "unat a" bb] unfolding b_def bb_def [symmetric] by linarith
    moreover have "unat h + min bb (unat (xi_virtual_size x) - b * bb) \<le> length c" using ck host by (simp add: vhdx_block_ok_def bb_def)
    ultimately have l: "unat h + unat a mod bb + n \<le> length c" by linarith
    have m: "unat (a mod ucast (xi_block_size x)) = unat a mod bb" by (simp add: unat_mod bb_def)
    have "length c < 2 ^ 63" using f by (simp add: file_holds_def)
    then have s: "unat h + unat (a mod ucast (xi_block_size x)) < 2 ^ 64" using l m by simp
    have u: "unat (h + a mod ucast (xi_block_size x)) = unat h + unat a mod bb" using unat_add_small [of h "a mod ucast (xi_block_size x)"] s m by simp
    have "take n (drop (unat h + unat a mod bb) c) = take n (drop (unat a) (vhdx_disk (x, c)))"
      using window_eq [OF ln l, of "vhdx_byte x c"] byte host by (simp add: vhdx_disk_def)
    then show ?thesis using True at s l
      by (simp add: vhdx_read_block_def add_u64_def checked_add_def lift_err_def seek_inside [OF f] read_exact_inside [OF f] u flip: h_def)
  qed
qed

interpretation vhdx: disk_backend vhdx_ok "\<lambda>xc. xi_virtual_size (fst xc)" "\<lambda>xc. vhdx_read_at (fst xc)" vhdx_disk
proof
  fix xc :: "vhdx_image \<times> bytes" and off :: u64 and n
  assume ok: "vhdx_ok xc"
  obtain x c where xc: "xc = (x, c)" by (cases xc)
  show len: "length (vhdx_disk xc) = unat (xi_virtual_size (fst xc))" by (simp add: vhdx_disk_def)
  have g: "vhdx_geometry x" using ok by (auto simp: vhdx_ok_def xc)
  show "\<exists>k\<le>n. vhdx_read_at (fst xc) off n = Ok (take k (drop (unat off) (vhdx_disk xc))) \<and> (0 < n \<and> off < xi_virtual_size (fst xc) \<longrightarrow> 0 < k)"
  proof (cases "n = 0 \<or> xi_virtual_size x \<le> off")
    case True
    then show ?thesis by (intro exI [of _ 0]) (auto simp: xc vhdx_read_at_def)
  next
    case False
    define k where "k = min n (unat (xi_virtual_size x - off))"
    have b: "unat off + k \<le> length (vhdx_disk (x, c))" "0 < k" using False len by (auto simp: k_def xc unat_sub_small word_le_nat_alt)
    have "fill_loop (vhdx_block x) (ucast (xi_block_size x)) off k = Ok (take k (drop (unat off) (vhdx_disk (x, c))))"
      using vhdx_block_reads [of x c] ok len unat_lt_size [of "xi_virtual_size x"] b(1) block_bytes [OF g]
      by (intro fill_loop_reads) (auto simp: xc)
    then show ?thesis using False b by (intro exI [of _ k]) (simp add: xc vhdx_read_at_def k_def)
  qed
qed

subsection \<open>Panics\<close>

text \<open>No block in use lies so high that an offset in it leaves the 64-bit range.\<close>

definition vhdx_in_range :: "vhdx_image \<Rightarrow> bool" where
  "vhdx_in_range x \<longleftrightarrow> (\<forall>e \<in> set (xi_bat x). e AND 7 = BAT_PAYLOAD_BLOCK_FULLY_PRESENT \<longrightarrow>
     unat (e AND 0xFFFFFFFFFFF00000) + unat (xi_block_size x) \<le> 2 ^ 64)"

lemma vhdx_block_no_panic:
  assumes "vhdx_geometry x" "vhdx_in_range x"
  shows "\<not> panics (vhdx_block x (a div ucast (xi_block_size x)) (a mod ucast (xi_block_size x)) n)"
proof -
  note w = bat_index_word [OF assms(1) conjunct1 [OF block_number [OF assms(1), of a]]]
  have "unat (a mod ucast (xi_block_size x) :: u64) < unat (xi_block_size x)"
    using block_bytes [OF assms(1)] by (simp add: unat_mod)
  then have "unat (e AND 0xFFFFFFFFFFF00000) + unat (a mod ucast (xi_block_size x) :: u64) < 2 ^ 64"
    if "e \<in> set (xi_bat x)" "e AND 7 = BAT_PAYLOAD_BLOCK_FULLY_PRESENT" for e
    using assms(2) that by (fastforce simp: vhdx_in_range_def)
  then have "\<not> panics (vhdx_read_block x e (a mod ucast (xi_block_size x)) n)"
    if "e \<in> set (xi_bat x)" "e AND 7 = BAT_PAYLOAD_BLOCK_FULLY_PRESENT" for e
    unfolding vhdx_read_block_def using panic_free_arith(3) that by (intro panics_bind) simp_all
  then show ?thesis using w by (auto simp: vhdx_block_def Let_def)
qed

lemma vhdx_read_no_panic:
  assumes "vhdx_geometry x" "vhdx_in_range x"
  shows "\<not> panics (vhdx_read_at x off n)"
proof (cases "n = 0 \<or> xi_virtual_size x \<le> off")
  case False
  have "unat off + min n (unat (xi_virtual_size x - off)) < 2 ^ 64"
    using False unat_lt_size [of "xi_virtual_size x"] unat_sub_small [of off "xi_virtual_size x"] by (auto simp: word_le_nat_alt)
  then show ?thesis using False fill_loop_no_panic [of "ucast (xi_block_size x)" off _ "vhdx_block x"] block_bytes [OF assms(1)] vhdx_block_no_panic [OF assms]
    by (simp add: vhdx_read_at_def)
qed (simp add: vhdx_read_at_def)

end
