(* ===== verification/Image_Open.thy ===== *)
theory Image_Open
  imports Qcow2 Vmdk Vhdx
begin

text \<open>
  Opening an image of any format, \<^verbatim>\<open>src/crates/celimage/src/lib.rs\<close>, and the properties of the readers
  together: the digest depends on the contents only, reads return the logical disk, and which files
  make a reader panic.
\<close>

section \<open>The model\<close>

datatype disk_image = DiRaw raw_image | DiQcow2 qcow2_image | DiVmdk vmdk_image | DiVhdx vhdx_image

fun image_read_at :: "disk_image \<Rightarrow> read_fn" where
  "image_read_at (DiRaw r) = raw_read_at r"
| "image_read_at (DiQcow2 q) = qcow2_read_at q"
| "image_read_at (DiVmdk v) = vmdk_read_at v"
| "image_read_at (DiVhdx x) = vhdx_read_at x"

fun image_info_of :: "disk_image \<Rightarrow> image_info" where
  "image_info_of (DiRaw r) = raw_info r"
| "image_info_of (DiQcow2 q) = qcow2_info q"
| "image_info_of (DiVmdk v) = vmdk_info v"
| "image_info_of (DiVhdx x) = vhdx_info x"

text \<open>The trait's default; the VMDK and VHDX readers override it with the same field.\<close>

definition image_virtual_size :: "disk_image \<Rightarrow> u64" where
  "image_virtual_size d = ii_virtual_size (image_info_of d)"

definition image_open :: "file_system \<Rightarrow> string \<Rightarrow> disk_image img_result" where
  "image_open fs path =
     bind_result (lift_err (detect_format fs path)) (\<lambda>kind.
       case kind of
         FkRaw \<Rightarrow> bind_result (lift_err (raw_open fs path)) (\<lambda>r. Ok (DiRaw r))
       | FkQcow2 \<Rightarrow> bind_result (qcow2_open fs path) (\<lambda>q. Ok (DiQcow2 q))
       | FkVmdk \<Rightarrow> bind_result (vmdk_open fs path) (\<lambda>v. Ok (DiVmdk v))
       | FkVhdx \<Rightarrow> bind_result (vhdx_open fs path) (\<lambda>x. Ok (DiVhdx x)))"

definition inspect :: "file_system \<Rightarrow> string \<Rightarrow> image_info img_result" where
  "inspect fs path = bind_result (image_open fs path) (\<lambda>d. Ok (image_info_of d))"

section \<open>The theorems\<close>

subsection \<open>Contents\<close>

fun image_ok :: "disk_image \<times> bytes \<Rightarrow> bool" where
  "image_ok (DiRaw r, c) \<longleftrightarrow> raw_ok (r, c)"
| "image_ok (DiQcow2 q, c) \<longleftrightarrow> qcow2_ok (q, c)"
| "image_ok (DiVmdk v, c) \<longleftrightarrow> vmdk_ok (v, c)"
| "image_ok (DiVhdx x, c) \<longleftrightarrow> vhdx_ok (x, c)"

fun image_disk :: "disk_image \<times> bytes \<Rightarrow> bytes" where
  "image_disk (DiRaw r, c) = c"
| "image_disk (DiQcow2 q, c) = qcow2_disk (q, c)"
| "image_disk (DiVmdk v, c) = vmdk_disk (v, c)"
| "image_disk (DiVhdx x, c) = vhdx_disk (x, c)"

lemma image_sizes [simp]:
  "image_virtual_size (DiRaw r) = rw_size r" "image_virtual_size (DiQcow2 q) = qh_size (qi_header q)"
  "image_virtual_size (DiVmdk v) = vi_virtual_size v" "image_virtual_size (DiVhdx x) = xi_virtual_size x"
  by (simp_all add: image_virtual_size_def raw_info_def qcow2_info_def vmdk_info_def vhdx_info_def)

interpretation image: disk_backend image_ok "\<lambda>dc. image_virtual_size (fst dc)" "\<lambda>dc. image_read_at (fst dc)" image_disk
proof
  fix dc :: "disk_image \<times> bytes" and off :: u64 and n
  assume ok: "image_ok dc"
  show "length (image_disk dc) = unat (image_virtual_size (fst dc))"
    using ok raw.disk_length qcow2.disk_length vmdk.disk_length vhdx.disk_length
    by (cases dc rule: image_ok.cases) fastforce+
  show "\<exists>k\<le>n. image_read_at (fst dc) off n = Ok (take k (drop (unat off) (image_disk dc))) \<and> (0 < n \<and> off < image_virtual_size (fst dc) \<longrightarrow> 0 < k)"
    using ok raw.read_some [of _ n off] qcow2.read_some [of _ n off] vmdk.read_some [of _ n off] vhdx.read_some [of _ n off]
    by (cases dc rule: image_ok.cases) fastforce+
qed

text \<open>
  C8. The digest of an image is the CRC-32C of its logical disk, whatever the format. On any two well-formed
  images (tables cover the disk and point into the file, no compressed or partially present blocks) with the same
  guest-visible bytes, also of different formats and over files that return short reads, the streaming
  digest succeeds with the same value, which is the checksum of those bytes; and an exact read inside the disk returns exactly
  the bytes there.
\<close>

theorem digest_is_content_digest:
  assumes "image_ok (d, c)" "image_ok (d', c')" "image_disk (d, c) = image_disk (d', c')" "image_virtual_size d \<noteq> 0"
  shows "full_image_crc32c (image_read_at d) (image_virtual_size d) = Ok (crc32c (image_disk (d, c))) \<and>
    full_image_crc32c (image_read_at d') (image_virtual_size d') = full_image_crc32c (image_read_at d) (image_virtual_size d) \<and>
    (0 < n \<and> unat off + n \<le> unat (image_virtual_size d) \<longrightarrow>
       read_exact_at (image_read_at d) off n = Ok (take n (drop (unat off) (image_disk (d, c)))))"
proof -
  have "unat (image_virtual_size d') = unat (image_virtual_size d)"
    using image.disk_length [OF assms(1)] image.disk_length [OF assms(2)] assms(3) by simp
  then have "image_virtual_size d' \<noteq> 0" using assms(4) by (simp add: word_unat_eq_iff)
  then show ?thesis using image.digest [OF assms(1)] image.digest [OF assms(2)] image.exact [OF assms(1)] image.disk_length [OF assms(1)] assms(3,4)
    by simp
qed

definition sparse_qcow2 :: qcow2_image where
  "sparse_qcow2 = \<lparr>qi_path = ''a.qcow2'', qi_file = plain_file [],
     qi_header = \<lparr>qh_version = 3, qh_cluster_bits = 9, qh_cluster_size = 512, qh_size = 3, qh_crypt_method = 0, qh_backing_file_offset = 0,
       qh_l1_size = 1, qh_l1_table_offset = 512, qh_incompatible_features = 0\<rparr>,
     qi_l1 = [0]\<rparr>"

lemma sparse_qcow2_ok: "qcow2_ok (sparse_qcow2, []) \<and> qcow2_disk (sparse_qcow2, []) = [0, 0, 0]"
proof -
  have t: "l1_target sparse_qcow2 0 = 0" by (simp add: l1_target_def sparse_qcow2_def)
  then have h: "qcow2_host sparse_qcow2 c 0 = None" for c by (simp add: qcow2_host_def Let_def)
  have "qcow2_geometry sparse_qcow2" unfolding qcow2_geometry_def by (rule exI [of _ 9]) (simp add: sparse_qcow2_def)
  moreover have "file_holds (qi_file sparse_qcow2) []" by (simp add: sparse_qcow2_def plain_file_holds)
  moreover have "qcow2_cluster_ok sparse_qcow2 [] 0" using t h by (simp add: qcow2_cluster_ok_def Let_def) (simp add: sparse_qcow2_def)
  moreover have "qcow2_byte sparse_qcow2 [] a = 0" if "a < 3" for a using that h by (simp add: qcow2_byte_def Let_def) (simp add: sparse_qcow2_def)
  moreover have "qcow2_cluster_ok sparse_qcow2 [] k" if "k * unat (qh_cluster_size (qi_header sparse_qcow2)) < unat (qh_size (qi_header sparse_qcow2))" for k
    using that calculation(3) by (cases k) (simp_all add: sparse_qcow2_def)
  moreover have "unat (qh_size (qi_header sparse_qcow2)) = 3" by (simp add: sparse_qcow2_def)
  ultimately show ?thesis by (simp add: qcow2_ok_def qcow2_disk_def upt_rec)
qed

theorem digest_is_content_digest_witness:
  "let r = \<lparr>rw_path = ''a.img'', rw_size = 3, rw_file = plain_file [0, 0, 0]\<rparr> in
   full_image_crc32c (qcow2_read_at sparse_qcow2) 3 = full_image_crc32c (raw_read_at r) 3 \<and>
   read_exact_at (raw_read_at r) 1 2 = Ok [0, 0]"
proof -
  let ?r = "\<lparr>rw_path = ''a.img'', rw_size = 3, rw_file = plain_file [0, 0, 0]\<rparr>"
  have "image_ok (DiRaw ?r, [0, 0, 0])" by (simp add: raw_ok_def plain_file_holds)
  moreover have "image_ok (DiQcow2 sparse_qcow2, [])" using sparse_qcow2_ok by simp
  ultimately show ?thesis
    using digest_is_content_digest [of "DiRaw ?r" "[0, 0, 0]" "DiQcow2 sparse_qcow2" "[]" 2 1] sparse_qcow2_ok
    by (simp add: sparse_qcow2_def Let_def)
qed

subsection \<open>Panics\<close>

lemma raw_read_no_panic: "\<not> panics (raw_read_at r off n)"
  by (simp add: raw_read_at_def Let_def)

lemma image_open_cases:
  assumes "image_open fs path = Ok d"
  shows "(\<exists>r. d = DiRaw r) \<or> (\<exists>q. d = DiQcow2 q \<and> qcow2_open fs path = Ok q) \<or> (\<exists>v. d = DiVmdk v \<and> vmdk_open fs path = Ok v) \<or>
    (\<exists>x. d = DiVhdx x \<and> vhdx_open fs path = Ok x)"
proof -
  obtain k where "detect_format fs path = Ok k" using assms by (cases "detect_format fs path") (simp_all add: image_open_def lift_err_def)
  then show ?thesis using assms by (cases k) (auto simp: image_open_def lift_err_def bind_result_eq_Ok)
qed

text \<open>
  C22. Whatever bytes a file holds and whatever the operating system answers, reading from an image that was opened never
  panics: no division by zero, no offset overflow, no index outside a table. For VHDX this holds as long as no
  allocation entry in use points to the last block below the end of the 64-bit range.
\<close>

theorem opened_images_never_panic:
  assumes "image_open fs path = Ok d" "\<And>x. d = DiVhdx x \<Longrightarrow> vhdx_in_range x"
  shows "\<not> panics (image_read_at d off n)"
  using image_open_cases [OF assms(1)] assms(2)
  by (auto simp: raw_read_no_panic qcow2_read_no_panic qcow2_open_geometry vmdk_read_no_panic vmdk_open_geometry vhdx_read_no_panic vhdx_open_geometry)

text \<open>A qcow2 file with an empty L1 table.\<close>

definition empty_qcow2_file :: bytes where
  "empty_qcow2_file =
    [0x51, 0x46, 0x49, 0xFB, 0, 0, 0, 2, 0, 0, 0, 0, 0, 0, 0, 0, 0, 0, 0, 0, 0, 0, 0, 16, 0, 0, 0, 0, 0, 1, 0, 0,
     0, 0, 0, 0, 0, 0, 0, 0, 0, 0, 0, 0, 0, 0, 2, 0, 0, 0, 0, 0, 0, 0, 0, 0, 0, 0, 0, 0, 0, 0, 0, 0,
     0, 0, 0, 0, 0, 0, 0, 0]"

definition one_file :: "bytes \<Rightarrow> file_system" where
  "one_file c = (\<lambda>_. Ok (plain_file c))"

lemma empty_qcow2_header: "qcow2_parse_header (plain_file empty_qcow2_file) =
  Ok \<lparr>qh_version = 2, qh_cluster_bits = 16, qh_cluster_size = 65536, qh_size = 65536, qh_crypt_method = 0, qh_backing_file_offset = 0,
    qh_l1_size = 0, qh_l1_table_offset = 512, qh_incompatible_features = 0\<rparr>"
  by (simp add: qcow2_parse_header_def plain_file_def seek_to_def empty_qcow2_file_def fill_buf_def QCOW2_MAGIC_def buf_be_def from_be_bytes_def checked_shl1_def Let_def)

lemma empty_qcow2_opens: "\<exists>q. image_open (one_file empty_qcow2_file) ''a'' = Ok (DiQcow2 q)"
proof -
  have "detect_format (one_file empty_qcow2_file) ''a'' = Ok FkQcow2"
    by (simp add: detect_format_def f_open_def one_file_def plain_file_def empty_qcow2_file_def detect_from_bytes_def)
  moreover have "is_ok (qcow2_open (one_file empty_qcow2_file) ''a'')"
    by (simp add: qcow2_open_def f_open_def one_file_def lift_err_def empty_qcow2_header qcow2_validate_header_def vec_zeroed_def read_exact.simps)
       (simp add: plain_file_def seek_to_def)
  ultimately show ?thesis by (auto simp: image_open_def lift_err_def is_ok_iff)
qed

theorem opened_images_never_panic_witness:
  "\<exists>q. image_open (one_file empty_qcow2_file) ''a'' = Ok (DiQcow2 q) \<and> \<not> panics (qcow2_read_at q 7 100)"
proof -
  obtain q where q: "image_open (one_file empty_qcow2_file) ''a'' = Ok (DiQcow2 q)" using empty_qcow2_opens by blast
  from opened_images_never_panic [OF q, of 7 100] q show ?thesis by simp
qed

lemma vmdk_directory_too_big:
  assumes "fs path = Ok f" "vmdk_parse_header f = Ok h" "vmdk_validate_header h = Ok ()"
    "checked_mul (ucast (vh_num_gtes_per_gt h)) (vh_grain_size_sectors h) = Some s"
    "checked_mul (div_ceil (vh_capacity_sectors h) s) 4 = Some b" "2 ^ 63 \<le> unat b" "checked_mul (vh_gd_offset_sectors h) SECTOR = Some g"
  shows "panics (vmdk_open fs path)"
proof -
  have "s \<noteq> 0"
    using assms(4) validate_vmdk [OF assms(3)] unat_mul_small [of "ucast (vh_num_gtes_per_gt h)" "vh_grain_size_sectors h"] unat_gt_0 [of "vh_num_gtes_per_gt h"]
    by (auto simp: checked_mul_def split: if_splits)
  then show ?thesis using assms by (simp add: vmdk_open_def f_open_def lift_err_def vec_zeroed_def Let_def)
qed

lemma vhdx_entry_too_high:
  assumes "vhdx_geometry x" "off < xi_virtual_size x" "0 < n"
    "bat_index x (unat off div unat (xi_block_size x)) < length (xi_bat x)" "e = bat_entry_of x (unat off div unat (xi_block_size x))"
    "e AND 7 = BAT_PAYLOAD_BLOCK_FULLY_PRESENT" "2 ^ 64 \<le> unat (e AND 0xFFFFFFFFFFF00000) + unat off mod unat (xi_block_size x)"
  shows "panics (vhdx_read_at x off n)"
proof -
  let ?b = "ucast (xi_block_size x) :: u64"
  define w where "w = min n (unat (xi_virtual_size x - off))"
  have u: "unat (xi_virtual_size x - off) = unat (xi_virtual_size x) - unat off" using assms(2) by (simp add: unat_sub_small)
  have w: "w \<noteq> 0" "unat off + w < 2 ^ 64" using assms(2,3) u unat_lt_size [of "xi_virtual_size x"] by (auto simp: w_def word_less_nat_alt)
  have bb: "?b \<noteq> 0" using block_bytes [OF assms(1)] by simp
  note i = block_number [OF assms(1), of off]
  note ix = bat_index_word [OF assms(1) conjunct1 [OF i]]
  have "unat (off div ?b) = unat off div unat (xi_block_size x)" using i by simp
  then have "vhdx_block x (off div ?b) (off mod ?b) k = vhdx_read_block x e (off mod ?b) k" for k
    using ix assms(4-6) by (simp add: vhdx_block_def Let_def bat_entry_of_def BAT_PAYLOAD_BLOCK_NOT_PRESENT_def BAT_PAYLOAD_BLOCK_UNDEFINED_def
        BAT_PAYLOAD_BLOCK_ZERO_def BAT_PAYLOAD_BLOCK_UNMAPPED_def BAT_PAYLOAD_BLOCK_FULLY_PRESENT_def)
  then have "\<exists>m. vhdx_block x (off div ?b) (off mod ?b) k = Err (Panic m)" for k
    using assms(7) by (simp add: vhdx_read_block_def add_u64_def checked_add_def unat_mod)
  then obtain m where "vhdx_block x (off div ?b) (off mod ?b) (min w (unat ?b - unat off mod unat ?b)) = Err (Panic m)" by blast
  then have "fill_loop (vhdx_block x) ?b off w = Err (Panic m)" unfolding fill_loop_step(2) [OF w(1) bb w(2)] by simp
  then show ?thesis using assms(2,3) by (simp add: vhdx_read_at_def w_def not_le)
qed

text \<open>
  C39. Two kinds of hostile image files abort the process although the crate promises no panic on production paths: opening a VMDK whose
  declared capacity needs a grain directory of \<open>2 ^ 63\<close> bytes or more, which passes every check, and reading
  from a VHDX whose allocation entry points so high that adding the offset in the block overflows.
\<close>

theorem hostile_images_abort:
  "(fs path = Ok f \<and> vmdk_parse_header f = Ok h \<and> vmdk_validate_header h = Ok () \<and>
      checked_mul (ucast (vh_num_gtes_per_gt h)) (vh_grain_size_sectors h) = Some s \<and>
      checked_mul (div_ceil (vh_capacity_sectors h) s) 4 = Some b \<and> 2 ^ 63 \<le> unat b \<and> checked_mul (vh_gd_offset_sectors h) SECTOR = Some g \<longrightarrow>
      panics (vmdk_open fs path)) \<and>
   (vhdx_geometry x \<and> off < xi_virtual_size x \<and> 0 < n \<and> bat_index x (unat off div unat (xi_block_size x)) < length (xi_bat x) \<and>
      e = bat_entry_of x (unat off div unat (xi_block_size x)) \<and> e AND 7 = BAT_PAYLOAD_BLOCK_FULLY_PRESENT \<and>
      2 ^ 64 \<le> unat (e AND 0xFFFFFFFFFFF00000) + unat off mod unat (xi_block_size x) \<longrightarrow>
      panics (vhdx_read_at x off n))"
  using vmdk_directory_too_big [of fs path f h s b g] vhdx_entry_too_high [of x off n e] by blast

text \<open>A VMDK header with capacity \<open>2 ^ 64 - 1\<close> sectors, grains of eight sectors and one entry per grain table.\<close>

definition huge_vmdk_file :: bytes where
  "huge_vmdk_file =
    [0x4B, 0x44, 0x4D, 0x56, 1, 0, 0, 0, 0, 0, 0, 0, 0xFF, 0xFF, 0xFF, 0xFF, 0xFF, 0xFF, 0xFF, 0xFF, 8, 0, 0, 0, 0, 0, 0, 0,
     0, 0, 0, 0, 0, 0, 0, 0, 0, 0, 0, 0, 0, 0, 0, 0, 1, 0, 0, 0, 0, 0, 0, 0, 0, 0, 0, 0, 1, 0, 0, 0, 0, 0, 0, 0, 1, 0, 0, 0, 0, 0, 0, 0,
     0, 0, 0, 0, 0, 0, 0, 0]"

definition huge_vmdk_header :: vmdk_header where
  "huge_vmdk_header = \<lparr>vh_capacity_sectors = 0xFFFFFFFFFFFFFFFF, vh_grain_size_sectors = 8, vh_descriptor_offset_sectors = 0, vh_descriptor_size_sectors = 0,
     vh_num_gtes_per_gt = 1, vh_gd_offset_sectors = 1, vh_overhead_sectors = 1, vh_compress_algorithm = 0, vh_flags = 0\<rparr>"

lemma huge_vmdk_parses: "vmdk_parse_header (plain_file huge_vmdk_file) = Ok huge_vmdk_header"
  by (simp add: vmdk_parse_header_def plain_file_def seek_to_def huge_vmdk_file_def huge_vmdk_header_def fill_buf_def le_u32_def le_u64_def buf_get_def from_le_bytes_def VMDK_MAGIC_LE_def Let_def)

lemma huge_vmdk_facts:
  "vmdk_validate_header huge_vmdk_header = Ok ()" "checked_mul (ucast (vh_num_gtes_per_gt huge_vmdk_header)) (vh_grain_size_sectors huge_vmdk_header) = Some 8"
  "checked_mul (div_ceil (vh_capacity_sectors huge_vmdk_header) 8) 4 = Some 0x8000000000000000" "2 ^ 63 \<le> unat (0x8000000000000000 :: u64)"
  "checked_mul (vh_gd_offset_sectors huge_vmdk_header) SECTOR = Some 512"
  by (simp_all add: huge_vmdk_header_def vmdk_validate_header_def checked_mul_def div_ceil_def SECTOR_def is_power_of_two_def)

definition high_vhdx :: vhdx_image where
  "high_vhdx = \<lparr>xi_path = ''a'', xi_file = plain_file [], xi_virtual_size = 0x200000, xi_block_size = 0x200000, xi_logical_sector_size = 512,
     xi_bat = [0xFFFFFFFFFFF00006], xi_chunk_ratio = 2048, xi_is_fixed = False\<rparr>"

theorem hostile_images_abort_witness:
  "panics (vmdk_open (one_file huge_vmdk_file) ''a'') \<and> panics (vhdx_read_at high_vhdx 0x100000 1)"
proof
  show "panics (vmdk_open (one_file huge_vmdk_file) ''a'')"
    by (rule hostile_images_abort [where f = "plain_file huge_vmdk_file" and h = huge_vmdk_header and s = 8 and b = "0x8000000000000000" and g = 512, THEN conjunct1, THEN mp])
       (use huge_vmdk_parses huge_vmdk_facts in \<open>simp add: one_file_def\<close>)
  have h: "vhdx_geometry high_vhdx" "bat_entry_of high_vhdx 0 = 0xFFFFFFFFFFF00006" "bat_index high_vhdx 0 < length (xi_bat high_vhdx)"
    "unat (xi_block_size high_vhdx) = 0x200000" "xi_virtual_size high_vhdx = 0x200000"
    by (simp_all add: vhdx_geometry_def bat_entry_of_def bat_index_def high_vhdx_def)
  show "panics (vhdx_read_at high_vhdx 0x100000 1)"
    by (rule hostile_images_abort [where e = "0xFFFFFFFFFFF00006", THEN conjunct2, THEN mp]) (use h in \<open>simp add: BAT_PAYLOAD_BLOCK_FULLY_PRESENT_def\<close>)
qed

end
