(* ===== verification/File_System.thy ===== *)
theory File_System
  imports Common
begin

text \<open>
  What the file-backed stores use of \<^verbatim>\<open>std::fs\<close> and \<^verbatim>\<open>std::io\<close>. A file system maps paths to contents.
  Every call may fail: a world carries the sequence of faults the operating system will inject, one
  entry per call, so a theorem that holds for every fault list holds for every pattern of failures,
  and a process killed in the middle of an operation is the fault list in which every later call
  fails. A failing \<^verbatim>\<open>write_all\<close> leaves a prefix of its data in the file, of a length the fault
  chooses; every other failing call leaves the files alone. An exhausted list injects no more faults.
  Contents are what other processes of the machine see; a loss of power that drops unsynced
  pages is outside this model, so \<^verbatim>\<open>sync_all\<close> and \<^verbatim>\<open>sync_data\<close> are calls that can only fail.
\<close>

type_synonym fault = "(string \<times> nat) option"

record fs =
  fs_files :: "string \<Rightarrow> bytes option"
  fs_faults :: "fault list"

definition ENOENT :: string where "ENOENT = ''No such file or directory (os error 2)''"

definition EOF_MESSAGE :: string where "EOF_MESSAGE = ''failed to fill whole buffer''"

subsection \<open>Calls\<close>

definition fs_call :: "fs \<Rightarrow> fault \<times> fs" where
  "fs_call w = (case fs_faults w of [] \<Rightarrow> (None, w) | f # fs \<Rightarrow> (f, w\<lparr>fs_faults := fs\<rparr>))"

text \<open>A call that changes no file: \<^verbatim>\<open>create_dir_all\<close>, \<^verbatim>\<open>seek\<close> from the start, \<^verbatim>\<open>sync_all\<close>, \<^verbatim>\<open>sync_data\<close>.\<close>

definition fs_step :: "fs \<Rightarrow> fs \<times> (string, unit) result" where
  "fs_step w = (case fs_call w of (None, w) \<Rightarrow> (w, Ok ()) | (Some (e, _), w) \<Rightarrow> (w, Err e))"

text \<open>\<^verbatim>\<open>File::create\<close>: the file is created or truncated.\<close>

definition fs_create :: "string \<Rightarrow> fs \<Rightarrow> fs \<times> (string, unit) result" where
  "fs_create p w =
     (case fs_call w of
        (None, w) \<Rightarrow> (w\<lparr>fs_files := (fs_files w)(p \<mapsto> [])\<rparr>, Ok ())
      | (Some (e, _), w) \<Rightarrow> (w, Err e))"

text \<open>\<^verbatim>\<open>File::open\<close>, and \<^verbatim>\<open>OpenOptions\<close> without \<^verbatim>\<open>create\<close>: the file must exist.\<close>

definition fs_open :: "string \<Rightarrow> fs \<Rightarrow> fs \<times> (string, unit) result" where
  "fs_open p w =
     (case fs_call w of
        (None, w) \<Rightarrow> (w, if fs_files w p = None then Err ENOENT else Ok ())
      | (Some (e, _), w) \<Rightarrow> (w, Err e))"

text \<open>
  \<^verbatim>\<open>write_all\<close> at a position of an open file: bytes past the end extend it, a gap reads as zeros,
  and writing nothing changes nothing.
\<close>

definition write_at :: "nat \<Rightarrow> bytes \<Rightarrow> bytes \<Rightarrow> bytes" where
  "write_at off d b =
     (if d = [] then b else take off (b @ replicate (off - length b) 0) @ d @ drop (off + length d) b)"

definition fs_write_at :: "string \<Rightarrow> nat \<Rightarrow> bytes \<Rightarrow> fs \<Rightarrow> fs \<times> (string, unit) result" where
  "fs_write_at p off d w =
     (case fs_call w of
        (None, w) \<Rightarrow> (w\<lparr>fs_files := (fs_files w)(p := map_option (write_at off d) (fs_files w p))\<rparr>, Ok ())
      | (Some (e, k), w) \<Rightarrow>
          (w\<lparr>fs_files := (fs_files w)(p := map_option (write_at off (take k d)) (fs_files w p))\<rparr>, Err e))"

text \<open>\<^verbatim>\<open>read_to_end\<close> and \<^verbatim>\<open>read_exact\<close> on an open file.\<close>

definition fs_read_to_end :: "string \<Rightarrow> fs \<Rightarrow> fs \<times> (string, bytes) result" where
  "fs_read_to_end p w =
     (case fs_call w of
        (None, w) \<Rightarrow> (w, ok_or ENOENT (fs_files w p))
      | (Some (e, _), w) \<Rightarrow> (w, Err e))"

definition fs_read_exact :: "string \<Rightarrow> nat \<Rightarrow> nat \<Rightarrow> fs \<Rightarrow> fs \<times> (string, bytes) result" where
  "fs_read_exact p off len w =
     (case fs_call w of
        (None, w) \<Rightarrow>
          (w, case fs_files w p of
                None \<Rightarrow> Err ENOENT
              | Some b \<Rightarrow> if length b < off + len \<and> 0 < len then Err EOF_MESSAGE
                          else Ok (take len (drop off b)))
      | (Some (e, _), w) \<Rightarrow> (w, Err e))"

definition fs_rename :: "string \<Rightarrow> string \<Rightarrow> fs \<Rightarrow> fs \<times> (string, unit) result" where
  "fs_rename p q w =
     (case fs_call w of
        (None, w) \<Rightarrow>
          (case fs_files w p of
             None \<Rightarrow> (w, Err ENOENT)
           | Some b \<Rightarrow> (w\<lparr>fs_files := (fs_files w)(p := None, q \<mapsto> b)\<rparr>, Ok ()))
      | (Some (e, _), w) \<Rightarrow> (w, Err e))"

definition fs_remove_file :: "string \<Rightarrow> fs \<Rightarrow> fs \<times> (string, unit) result" where
  "fs_remove_file p w =
     (case fs_call w of
        (None, w) \<Rightarrow>
          (case fs_files w p of
             None \<Rightarrow> (w, Err ENOENT)
           | Some b \<Rightarrow> (w\<lparr>fs_files := (fs_files w)(p := None)\<rparr>, Ok ()))
      | (Some (e, _), w) \<Rightarrow> (w, Err e))"

text \<open>\<^verbatim>\<open>metadata(p).len()\<close>; and \<^verbatim>\<open>Path::exists\<close>, which answers no when the lookup fails.\<close>

definition fs_metadata_len :: "string \<Rightarrow> fs \<Rightarrow> fs \<times> (string, nat) result" where
  "fs_metadata_len p w =
     (case fs_call w of
        (None, w) \<Rightarrow> (w, ok_or ENOENT (map_option length (fs_files w p)))
      | (Some (e, _), w) \<Rightarrow> (w, Err e))"

definition fs_exists :: "string \<Rightarrow> fs \<Rightarrow> fs \<times> bool" where
  "fs_exists p w = (let (w, r) = fs_metadata_len p w in (w, is_ok r))"

subsection \<open>Calls without faults, and what any call leaves alone\<close>

named_theorems fs_simps \<open>the calls on a file system that injects no fault\<close>

lemmas fs_call_defs = fs_step_def fs_create_def fs_open_def fs_write_at_def fs_read_to_end_def
  fs_read_exact_def fs_rename_def fs_remove_file_def fs_metadata_len_def

lemma fs_call_files [simp]: "fs_files (snd (fs_call w)) = fs_files w"
  by (simp add: fs_call_def split: list.split)

lemma fs_call_filesD: "fs_call w = (f, w') \<Longrightarrow> fs_files w' = fs_files w"
  using fs_call_files [of w] by simp

lemma no_fault [fs_simps]:
  assumes "fs_faults w = []"
  shows "fs_call w = (None, w)" "fs_step w = (w, Ok ())"
    "fs_create p w = (w\<lparr>fs_files := (fs_files w)(p \<mapsto> [])\<rparr>, Ok ())"
    "fs_open p w = (w, if fs_files w p = None then Err ENOENT else Ok ())"
    "fs_write_at p off d w =
       (w\<lparr>fs_files := (fs_files w)(p := map_option (write_at off d) (fs_files w p))\<rparr>, Ok ())"
    "fs_read_to_end p w = (w, ok_or ENOENT (fs_files w p))"
    "fs_metadata_len p w = (w, ok_or ENOENT (map_option length (fs_files w p)))"
    "fs_exists p w = (w, fs_files w p \<noteq> None)"
  using assms by (simp_all add: fs_call_def fs_call_defs fs_exists_def is_ok_iff)

lemma no_fault_rename [fs_simps]:
  "fs_faults w = [] \<Longrightarrow> fs_files w p = Some b \<Longrightarrow>
     fs_rename p q w = (w\<lparr>fs_files := (fs_files w)(p := None, q \<mapsto> b)\<rparr>, Ok ())"
  by (simp add: fs_rename_def no_fault)

lemma no_fault_remove [fs_simps]:
  "fs_faults w = [] \<Longrightarrow> fst (fs_remove_file p w) = w\<lparr>fs_files := (fs_files w)(p := None)\<rparr>"
  by (auto simp: fs_remove_file_def no_fault fun_upd_idem split: option.split)

lemma no_fault_read_exact [fs_simps]:
  "fs_faults w = [] \<Longrightarrow> fs_files w p = Some b \<Longrightarrow> off + len \<le> length b \<Longrightarrow>
     fs_read_exact p off len w = (w, Ok (take len (drop off b)))"
  by (simp add: fs_read_exact_def no_fault)

lemma exists_missing: "fs_files w p = None \<Longrightarrow> fs_exists p w = (snd (fs_call w), False)"
  by (auto simp: fs_exists_def fs_metadata_len_def dest!: fs_call_filesD split: prod.split option.split)

lemma call_elsewhere:
  "fs_step w = (w', r) \<Longrightarrow> fs_files w' q = fs_files w q"
  "fs_create p w = (w', r) \<Longrightarrow> q \<noteq> p \<Longrightarrow> fs_files w' q = fs_files w q"
  "fs_open p w = (w', r) \<Longrightarrow> fs_files w' q = fs_files w q"
  "fs_write_at p off d w = (w', r) \<Longrightarrow> q \<noteq> p \<Longrightarrow> fs_files w' q = fs_files w q"
  "fs_read_to_end p w = (w', b) \<Longrightarrow> fs_files w' q = fs_files w q"
  "fs_read_exact p off len w = (w', b) \<Longrightarrow> fs_files w' q = fs_files w q"
  "fs_remove_file p w = (w', r) \<Longrightarrow> q \<noteq> p \<Longrightarrow> fs_files w' q = fs_files w q"
  "fs_rename p p' w = (w', Err e) \<Longrightarrow> fs_files w' q = fs_files w q"
  by (auto simp: fs_call_defs dest: fs_call_filesD split: prod.splits option.splits)

text \<open>A call that succeeds did what it does without faults.\<close>

lemma call_Ok:
  "fs_create p w = (w', Ok u) \<Longrightarrow> fs_files w' = (fs_files w)(p \<mapsto> [])"
  "fs_write_at p off d w = (w', Ok u) \<Longrightarrow> fs_files w' = (fs_files w)(p := map_option (write_at off d) (fs_files w p))"
  "fs_step w = (w', r) \<Longrightarrow> fs_files w' = fs_files w"
  "fs_rename p q w = (w', Ok u) \<Longrightarrow> \<exists>b. fs_files w p = Some b \<and> fs_files w' = (fs_files w)(p := None, q \<mapsto> b)"
  by (auto simp: fs_call_defs dest!: fs_call_filesD split: prod.splits option.splits)

lemma write_at_Nil [simp]: "write_at 0 d [] = d"
  by (simp add: write_at_def)

subsection \<open>Saving a document atomically\<close>

text \<open>
  A document is printed and parsed by \<^verbatim>\<open>serde_json\<close>, which the stores rely on to read back what it
  printed.
\<close>

type_synonym 'd encoder = "'d \<Rightarrow> (string, bytes) result"
type_synonym 'd decoder = "bytes \<Rightarrow> (string, 'd) result"

definition codec_ok :: "'d encoder \<Rightarrow> 'd decoder \<Rightarrow> bool" where
  "codec_ok enc dec \<longleftrightarrow> (\<forall>m. \<exists>b. enc m = Ok b \<and> dec b = Ok m)"

text \<open>
  The way both file-backed stores save their state: write a temporary file, sync it, rename it over
  the document. The caller names the error of each call.
\<close>

definition on_error :: "('e \<Rightarrow> 'f) \<Rightarrow> 's \<times> ('e, 'a) result \<Rightarrow> 's \<times> ('f, 'a) result" where
  "on_error f p = (fst p, map_err f (snd p))"

lemma on_error_eq [simp]:
  "on_error f p = (s, Ok a) \<longleftrightarrow> p = (s, Ok a)"
  "on_error f p = (s, Err e) \<longleftrightarrow> (\<exists>x. p = (s, Err x) \<and> e = f x)"
  "on_error f (s, Ok a) = (s, Ok a)" "on_error f (s, Err x) = (s, Err (f x))" "fst (on_error f p) = fst p"
  by (cases p; cases "snd p"; auto simp: on_error_def)+

lemma on_error_eq_iff: "on_error f p = (s, r) \<longleftrightarrow> (\<exists>x. p = (s, x) \<and> r = map_err f x)"
  by (cases p) (auto simp: on_error_def)

text \<open>
  A store whose state is saved in a document. A client step may fail anywhere, but it leaves in the
  document either what was there or the state now in memory, and a step that saves and is
  acknowledged leaves the latter. Then whatever the failures of a run, the document
  is the state after some prefix of the run, and no acknowledged save is past that prefix.
\<close>

locale saved_document =
  fixes step :: "'s \<Rightarrow> 'c \<Rightarrow> 's \<times> (cel_error, unit) result"
    and document :: "'s \<Rightarrow> 'd cel_result"
    and memory :: "'s \<Rightarrow> 'd"
    and saves :: "'c \<Rightarrow> bool"
    and run :: "'s \<Rightarrow> 'c list \<Rightarrow> 's"
    and ok :: "'s \<Rightarrow> bool"
  assumes run_Nil: "run s [] = s"
    and run_snoc: "run s (cs @ [c]) = fst (step (run s cs) c)"
    and step_keeps: "ok s \<Longrightarrow> step s c = (s', r) \<Longrightarrow> ok s'"
    and step_document: "ok s \<Longrightarrow> step s c = (s', r) \<Longrightarrow> document s' = document s \<or> document s' = Ok (memory s')"
    and step_acknowledged: "ok s \<Longrightarrow> step s c = (s', Ok ()) \<Longrightarrow> saves c \<Longrightarrow> document s' = Ok (memory s')"
begin

lemma run_keeps: "ok s \<Longrightarrow> ok (run s cs)"
proof (induction cs rule: rev_induct)
  case (snoc c cs)
  then show ?case using step_keeps [of "run s cs" c] by (cases "step (run s cs) c") (simp add: run_snoc)
qed (simp add: run_Nil)

lemma run_recovers:
  assumes "ok s" "document s = Ok (memory s)"
  shows "\<exists>k \<le> length cs. document (run s cs) = Ok (memory (run s (take k cs))) \<and>
    (\<forall>i < length cs. k \<le> i \<longrightarrow> saves (cs ! i) \<longrightarrow> \<not> is_ok (snd (step (run s (take i cs)) (cs ! i))))"
proof (induction cs rule: rev_induct)
  case Nil
  with assms show ?case by (simp add: run_Nil)
next
  case (snoc c cs)
  obtain s' r where st: "step (run s cs) c = (s', r)" by fastforce
  then have run: "run s (cs @ [c]) = s'" by (simp add: run_snoc)
  have ok: "ok (run s cs)" by (rule run_keeps [OF assms(1)])
  from step_document [OF ok st] consider "document s' = Ok (memory s')" |
    (old) "document s' = document (run s cs)" "document s' \<noteq> Ok (memory s')" by blast
  then show ?case
  proof cases
    case 1
    with run show ?thesis by (intro exI [of _ "Suc (length cs)"]) simp
  next
    case old
    from snoc obtain k where k: "k \<le> length cs" "document (run s cs) = Ok (memory (run s (take k cs)))"
      "\<And>i. i < length cs \<Longrightarrow> k \<le> i \<Longrightarrow> saves (cs ! i) \<Longrightarrow> \<not> is_ok (snd (step (run s (take i cs)) (cs ! i)))"
      by blast
    have "\<not> is_ok r" if "saves c" using step_acknowledged [OF ok, of c s'] st that old(2) by (cases r) auto
    with k old(1) run st show ?thesis
      by (intro exI [of _ k]) (auto simp: nth_append less_Suc_eq)
  qed
qed

end

end
