(* ===== verification/Plain_Codec.thy ===== *)
theory Plain_Codec
  imports Common
begin

text \<open>
  A self-delimiting binary codec. The stores that keep their state in a JSON document are modelled
  over an arbitrary encoder and decoder; this theory builds, from combinators, a concrete pair for
  which decoding gives back what was encoded, so that the theorems about those stores can be applied.
  A list is a sequence of entries each marked 1, ended by a 0; a number is its decimal digits.
\<close>

type_synonym 'a pcodec = "('a \<Rightarrow> bytes) \<times> (bytes \<Rightarrow> ('a \<times> bytes) option)"

definition pc_law :: "'a pcodec \<Rightarrow> bool" where
  "pc_law c \<longleftrightarrow> (\<forall>x r. snd c (fst c x @ r) = Some (x, r))"

definition pc_unit :: "unit pcodec" where
  "pc_unit = (\<lambda>_. [], \<lambda>bs. Some ((), bs))"

definition pc_byte :: "u8 pcodec" where
  "pc_byte = (\<lambda>b. [b], \<lambda>bs. case bs of [] \<Rightarrow> None | b # r \<Rightarrow> Some (b, r))"

definition pc_pair :: "'a pcodec \<Rightarrow> 'b pcodec \<Rightarrow> ('a \<times> 'b) pcodec" where
  "pc_pair c d =
     (\<lambda>(x, y). fst c x @ fst d y,
      \<lambda>bs. case snd c bs of
             None \<Rightarrow> None
           | Some (x, r) \<Rightarrow> map_option (\<lambda>(y, r). ((x, y), r)) (snd d r))"

definition pc_via :: "('a \<Rightarrow> 'b) \<Rightarrow> ('b \<Rightarrow> 'a) \<Rightarrow> 'b pcodec \<Rightarrow> 'a pcodec" where
  "pc_via f g c = (\<lambda>x. fst c (f x), \<lambda>bs. map_option (\<lambda>(y, r). (g y, r)) (snd c bs))"

fun pc_items :: "(bytes \<Rightarrow> ('a \<times> bytes) option) \<Rightarrow> nat \<Rightarrow> bytes \<Rightarrow> ('a list \<times> bytes) option" where
  "pc_items d 0 bs = None"
| "pc_items d (Suc n) [] = None"
| "pc_items d (Suc n) (b # bs) =
     (if b = 0 then Some ([], bs)
      else case d bs of
             None \<Rightarrow> None
           | Some (x, r) \<Rightarrow> map_option (\<lambda>(xs, r). (x # xs, r)) (pc_items d n r))"

definition pc_list :: "'a pcodec \<Rightarrow> 'a list pcodec" where
  "pc_list c = (\<lambda>xs. concat (map (\<lambda>x. 1 # fst c x) xs) @ [0], \<lambda>bs. pc_items (snd c) (length bs) bs)"

definition pc_char :: "char pcodec" where
  "pc_char = pc_via (\<lambda>c. of_nat (of_char c)) (\<lambda>b. char_of (unat b)) pc_byte"

definition pc_string :: "string pcodec" where
  "pc_string = pc_list pc_char"

definition pc_word :: "'l::len word pcodec" where
  "pc_word = pc_via (\<lambda>w. show_nat (unat w)) (\<lambda>s. of_nat (the (parse_digits (2 ^ LENGTH('l)) 0 s))) pc_string"

definition pc_bool :: "bool pcodec" where
  "pc_bool = pc_via (\<lambda>b. if b then 1 else 0) (\<lambda>b. b = 1) pc_byte"

definition pc_option :: "'a pcodec \<Rightarrow> 'a option pcodec" where
  "pc_option c = pc_via (\<lambda>x. case x of None \<Rightarrow> [] | Some a \<Rightarrow> [a]) (\<lambda>xs. case xs of [] \<Rightarrow> None | a # _ \<Rightarrow> Some a) (pc_list c)"

text \<open>A document is one encoded value and nothing after it.\<close>

definition document_enc :: "'a pcodec \<Rightarrow> 'a \<Rightarrow> (string, bytes) result" where
  "document_enc c x = Ok (fst c x)"

definition document_dec :: "'a pcodec \<Rightarrow> bytes \<Rightarrow> (string, 'a) result" where
  "document_dec c bs = (case snd c bs of Some (x, []) \<Rightarrow> Ok x | _ \<Rightarrow> Err ''trailing characters'')"

subsection \<open>The law\<close>

named_theorems pc_laws \<open>codecs that decode what they encode\<close>

lemma pc_lawD: "pc_law c \<Longrightarrow> snd c (fst c x @ r) = Some (x, r)"
  by (simp add: pc_law_def)

lemma pc_law_unit [pc_laws]: "pc_law pc_unit"
  by (simp add: pc_law_def pc_unit_def)

lemma pc_law_byte [pc_laws]: "pc_law pc_byte"
  by (simp add: pc_law_def pc_byte_def)

lemma pc_law_pair [pc_laws]: "pc_law c \<Longrightarrow> pc_law d \<Longrightarrow> pc_law (pc_pair c d)"
  by (auto simp: pc_law_def pc_pair_def)

lemma pc_law_via: "pc_law c \<Longrightarrow> (\<And>x. g (f x) = x) \<Longrightarrow> pc_law (pc_via f g c)"
  by (simp add: pc_law_def pc_via_def)

lemma pc_items_enc:
  assumes "pc_law c" "length xs < n"
  shows "pc_items (snd c) n ((concat (map (\<lambda>x. 1 # fst c x) xs) @ [0]) @ r) = Some (xs, r)"
  using assms(2)
proof (induction xs arbitrary: n)
  case Nil
  then show ?case by (cases n) simp_all
next
  case (Cons x xs)
  then show ?case using pc_lawD [OF assms(1)] by (cases n) simp_all
qed

lemma pc_law_list [pc_laws]:
  assumes "pc_law c"
  shows "pc_law (pc_list c)"
proof -
  have "length xs \<le> length (concat (map (\<lambda>x. 1 # fst c x) xs))" for xs
    by (induction xs) auto
  then show ?thesis
    using pc_items_enc [OF assms] by (simp add: pc_law_def pc_list_def le_imp_less_Suc trans_le_add1)
qed

lemma pc_law_char [pc_laws]: "pc_law pc_char"
  unfolding pc_char_def by (rule pc_law_via [OF pc_law_byte]) (simp add: unat_of_nat take_bit_eq_mod)

lemma pc_law_string [pc_laws]: "pc_law pc_string"
  by (simp add: pc_string_def pc_laws)

lemma pc_law_word [pc_laws]: "pc_law (pc_word :: 'l::len word pcodec)"
  unfolding pc_word_def
  by (rule pc_law_via [OF pc_law_string]) (simp add: parse_digits_show less_imp_le)

lemma pc_law_bool [pc_laws]: "pc_law pc_bool"
  unfolding pc_bool_def by (rule pc_law_via [OF pc_law_byte]) simp

lemma pc_law_option [pc_laws]: "pc_law c \<Longrightarrow> pc_law (pc_option c)"
  unfolding pc_option_def by (rule pc_law_via [OF pc_law_list]) (simp_all split: option.split)

lemma document_roundtrip: "pc_law c \<Longrightarrow> \<exists>b. document_enc c x = Ok b \<and> document_dec c b = Ok x"
  using pc_lawD [of c x "[]"] by (simp add: document_enc_def document_dec_def)

end
