(* ===== verification/File_Vault.thy ===== *)
theory File_Vault
  imports Volumes File_System Plain_Codec
begin

text \<open>
  The disk-backed volume store, \<^verbatim>\<open>celvault/src/file_store.rs\<close>: a manifest of volumes, snapshots and
  counters kept in memory and saved to \<^verbatim>\<open>manifest.json\<close>, and one body file per volume and per
  snapshot. The JSON codec (\<^verbatim>\<open>serde_json\<close>) is a pair of arguments; the operating system is the file
  system of \<open>File_System\<close>, with its faults. Operations are whole: the code drops its lock before the
  body I/O of a read, a write and a restore, and their interleaving is not modelled.
\<close>

subsection \<open>Records\<close>

record manifest =
  next_per_owner :: "(string \<times> u64) list"
  next_snap :: "(volume_id \<times> u64) list"
  mf_volumes :: "(volume_id \<times> volume_meta) list"
  mf_snapshots :: "(snapshot_id \<times> snapshot_meta) list"

text \<open>The store: its root directory, the locked manifest, and the file system it lives on.\<close>

record file_vault =
  fv_root :: string
  fv_manifest :: manifest
  fv_fs :: fs

definition manifest_default :: manifest where
  "manifest_default = \<lparr>next_per_owner = [], next_snap = [], mf_volumes = [], mf_snapshots = []\<rparr>"

subsection \<open>Paths, bodies, the manifest file\<close>

definition map_io :: "string \<Rightarrow> string \<Rightarrow> cel_error" where
  "map_io ctx e = Io (''file vault: '' @ ctx @ '': '' @ e)"

definition safe_id :: "string \<Rightarrow> string" where
  "safe_id s = map (\<lambda>c. if c \<in> {CHR ''/'', CHR ''@'', CHR '':'', CHR 0x5C} then CHR ''_'' else c) s"

definition manifest_path :: "string \<Rightarrow> string" where
  "manifest_path root = root @ ''/manifest.json''"

definition manifest_tmp :: "string \<Rightarrow> string" where
  "manifest_tmp root = root @ ''/manifest.json.tmp''"

definition volume_path :: "string \<Rightarrow> volume_id \<Rightarrow> string" where
  "volume_path root vid = root @ ''/volumes/'' @ safe_id vid @ ''.bin''"

definition snapshot_path :: "string \<Rightarrow> snapshot_id \<Rightarrow> string" where
  "snapshot_path root sid = root @ ''/snapshots/'' @ safe_id sid @ ''.bin''"

definition load_manifest :: "manifest decoder \<Rightarrow> string \<Rightarrow> fs \<Rightarrow> fs \<times> manifest cel_result" where
  "load_manifest dec root w =
     (let path = manifest_path root; (w, found) = fs_exists path w
      in if \<not> found then (w, Ok manifest_default)
         else and_then (on_error (map_io ''read manifest'') (fs_open path w)) (\<lambda>w _.
              and_then (on_error (map_io ''read manifest'') (fs_read_to_end path w)) (\<lambda>w bs.
              (w, map_err (map_io ''parse manifest'') (dec bs)))))"

definition save_manifest :: "manifest encoder \<Rightarrow> string \<Rightarrow> manifest \<Rightarrow> fs \<Rightarrow> fs \<times> unit cel_result" where
  "save_manifest enc root m w =
     (let path = manifest_path root; tmp = manifest_tmp root
      in and_then (w, map_err (map_io ''encode manifest'') (enc m)) (\<lambda>w bs.
         and_then (on_error (map_io ''create manifest tmp'') (fs_create tmp w)) (\<lambda>w _.
         and_then (on_error (map_io ''write manifest tmp'') (fs_write_at tmp 0 bs w)) (\<lambda>w _.
         and_then (on_error (map_io ''fsync manifest tmp'') (fs_step w)) (\<lambda>w _.
         on_error (map_io ''rename manifest'') (fs_rename tmp path w))))))"

definition read_body :: "string \<Rightarrow> fs \<Rightarrow> fs \<times> bytes cel_result" where
  "read_body path w =
     and_then (on_error (map_io ''open body'') (fs_open path w)) (\<lambda>w _.
     on_error (map_io ''read body'') (fs_read_to_end path w))"

definition write_body :: "string \<Rightarrow> bytes \<Rightarrow> fs \<Rightarrow> fs \<times> unit cel_result" where
  "write_body path bs w =
     and_then (on_error (map_io ''create body'') (fs_create path w)) (\<lambda>w _.
     and_then (on_error (map_io ''write body'') (fs_write_at path 0 bs w)) (\<lambda>w _.
     on_error (map_io ''fsync body'') (fs_step w)))"

definition open_or_create :: "manifest decoder \<Rightarrow> string \<Rightarrow> fs \<Rightarrow> fs \<times> file_vault cel_result" where
  "open_or_create dec root w =
     and_then (on_error (map_io ''create volumes/'') (fs_step w)) (\<lambda>w _.
     and_then (on_error (map_io ''create snapshots/'') (fs_step w)) (\<lambda>w _.
     and_then (load_manifest dec root w) (\<lambda>w m.
     (w, Ok \<lparr>fv_root = root, fv_manifest = m, fv_fs = w\<rparr>))))"

text \<open>A file operation run by the store.\<close>

definition on_fs :: "(fs \<Rightarrow> fs \<times> 'a cel_result) \<Rightarrow> file_vault \<Rightarrow> file_vault \<times> 'a cel_result" where
  "on_fs f s = (let (w, r) = f (fv_fs s) in (s\<lparr>fv_fs := w\<rparr>, r))"

definition fv_save :: "manifest encoder \<Rightarrow> file_vault \<Rightarrow> file_vault \<times> unit cel_result" where
  "fv_save enc s = on_fs (save_manifest enc (fv_root s) (fv_manifest s)) s"

definition bump :: "string \<Rightarrow> (string \<times> u64) list \<Rightarrow> u64" where
  "bump k m = saturating_add (case map_of m k of None \<Rightarrow> 0 | Some n \<Rightarrow> n) 1"

subsection \<open>Operations\<close>

definition fv_create :: "manifest encoder \<Rightarrow> file_vault \<Rightarrow> string \<Rightarrow> string \<Rightarrow> u64 \<Rightarrow> file_vault \<times> volume_meta cel_result" where
  "fv_create enc s owner name size_bytes =
     (case validate_volume_name name of
        Err e \<Rightarrow> (s, Err e)
      | Ok _ \<Rightarrow>
          if size_bytes = 0 then (s, Err (Invalid ''volume size: must be > 0''))
          else if MAX_VOLUME_BYTES < size_bytes
            then (s, Err (Invalid ''volume size: exceeds MAX_VOLUME_BYTES''))
          else
            (let counter = bump owner (next_per_owner (fv_manifest s));
                 s = s\<lparr>fv_manifest := (fv_manifest s)
                         \<lparr>next_per_owner := bt_insert owner counter (next_per_owner (fv_manifest s))\<rparr>\<rparr>;
                 vid = owner @ ''/v'' @ show_word counter;
                 meta = \<lparr>vol_id = vid, vol_owner = owner, vol_name = name, vol_size = size_bytes\<rparr>;
                 body = replicate (unat size_bytes) 0
             in and_then (on_fs (write_body (volume_path (fv_root s) vid) body) s) (\<lambda>s _.
                let s = s\<lparr>fv_manifest := (fv_manifest s)
                           \<lparr>mf_volumes := bt_insert vid meta (mf_volumes (fv_manifest s))\<rparr>\<rparr>
                in and_then (fv_save enc s) (\<lambda>s _. (s, Ok meta)))))"

text \<open>\<^verbatim>\<open>let _ = fs::remove_file(path)\<close>: the result is dropped.\<close>

definition fv_unlink :: "string \<Rightarrow> file_vault \<Rightarrow> file_vault" where
  "fv_unlink p s = s\<lparr>fv_fs := fst (fs_remove_file p (fv_fs s))\<rparr>"

definition drop_snapshot :: "snapshot_id \<Rightarrow> file_vault \<Rightarrow> file_vault" where
  "drop_snapshot k s =
     (let s = fv_unlink (snapshot_path (fv_root s) k) s
      in s\<lparr>fv_manifest := (fv_manifest s)
             \<lparr>mf_snapshots := bt_remove k (mf_snapshots (fv_manifest s))\<rparr>\<rparr>)"

definition fv_delete :: "manifest encoder \<Rightarrow> file_vault \<Rightarrow> volume_id \<Rightarrow> file_vault \<times> unit cel_result" where
  "fv_delete enc s vid =
     (let known = map_of (mf_volumes (fv_manifest s)) vid \<noteq> None;
          s = s\<lparr>fv_manifest := (fv_manifest s)
                  \<lparr>mf_volumes := bt_remove vid (mf_volumes (fv_manifest s))\<rparr>\<rparr>;
          s = (if known then fv_unlink (volume_path (fv_root s) vid) s else s);
          s = s\<lparr>fv_manifest := (fv_manifest s)
                  \<lparr>next_snap := bt_remove vid (next_snap (fv_manifest s))\<rparr>\<rparr>;
          to_drop = map fst (filter (\<lambda>(_, m). snap_volume m = vid) (mf_snapshots (fv_manifest s)))
      in fv_save enc (fold drop_snapshot to_drop s))"

definition fv_list :: "file_vault \<Rightarrow> volume_meta list" where
  "fv_list s = map_values (mf_volumes (fv_manifest s))"

definition fv_get :: "file_vault \<Rightarrow> volume_id \<Rightarrow> volume_meta option" where
  "fv_get s vid = map_of (mf_volumes (fv_manifest s)) vid"

definition fv_read :: "file_vault \<Rightarrow> volume_id \<Rightarrow> u64 \<Rightarrow> nat \<Rightarrow> file_vault \<times> bytes cel_result" where
  "fv_read s vid offset len =
     (case map_of (mf_volumes (fv_manifest s)) vid of
        None \<Rightarrow> (s, Err (Invalid ''volume: unknown id''))
      | Some meta \<Rightarrow>
          if 2 ^ 64 \<le> unat offset + len then (s, Err (Invalid ''volume: read range overflow''))
          else if unat (vol_size meta) < unat offset + len then (s, Err (Invalid ''volume: read past end''))
          else
            (let path = volume_path (fv_root s) vid
             in and_then (on_fs (\<lambda>w. on_error (map_io ''open volume'') (fs_open path w)) s) (\<lambda>s _.
                and_then (on_fs (\<lambda>w. on_error (map_io ''seek volume'') (fs_step w)) s) (\<lambda>s _.
                on_fs (\<lambda>w. on_error (map_io ''read volume'') (fs_read_exact path (unat offset) len w)) s))))"

definition fv_write :: "file_vault \<Rightarrow> volume_id \<Rightarrow> u64 \<Rightarrow> bytes \<Rightarrow> file_vault \<times> unit cel_result" where
  "fv_write s vid offset data =
     (case map_of (mf_volumes (fv_manifest s)) vid of
        None \<Rightarrow> (s, Err (Invalid ''volume: unknown id''))
      | Some meta \<Rightarrow>
          if 2 ^ 64 \<le> unat offset + length data then (s, Err (Invalid ''volume: write range overflow''))
          else if unat (vol_size meta) < unat offset + length data
            then (s, Err (Invalid ''volume: write past end''))
          else
            (let path = volume_path (fv_root s) vid
             in and_then (on_fs (\<lambda>w. on_error (map_io ''open volume rw'') (fs_open path w)) s) (\<lambda>s _.
                and_then (on_fs (\<lambda>w. on_error (map_io ''seek volume'') (fs_step w)) s) (\<lambda>s _.
                and_then (on_fs (\<lambda>w. on_error (map_io ''write volume'') (fs_write_at path (unat offset) data w)) s) (\<lambda>s _.
                on_fs (\<lambda>w. on_error (map_io ''fsync volume'') (fs_step w)) s)))))"

definition fv_create_snapshot :: "manifest encoder \<Rightarrow> file_vault \<Rightarrow> volume_id \<Rightarrow> string \<Rightarrow> file_vault \<times> snapshot_meta cel_result" where
  "fv_create_snapshot enc s vid name =
     (case validate_volume_name name of
        Err e \<Rightarrow> (s, Err e)
      | Ok _ \<Rightarrow>
          (case map_of (mf_volumes (fv_manifest s)) vid of
             None \<Rightarrow> (s, Err (Invalid ''snapshot: unknown volume''))
           | Some vol_meta \<Rightarrow>
               and_then (on_fs (read_body (volume_path (fv_root s) vid)) s) (\<lambda>s body.
               if length body \<noteq> unat (vol_size vol_meta)
                 then (s, Err (Io ''file vault: volume body size diverges from manifest''))
               else
                 (let counter = bump vid (next_snap (fv_manifest s));
                      s = s\<lparr>fv_manifest := (fv_manifest s)
                              \<lparr>next_snap := bt_insert vid counter (next_snap (fv_manifest s))\<rparr>\<rparr>;
                      sid = vid @ ''@s'' @ show_word counter;
                      meta = \<lparr>snap_id = sid, snap_volume = vid, snap_name = name,
                              snap_size = vol_size vol_meta\<rparr>
                  in and_then (on_fs (write_body (snapshot_path (fv_root s) sid) body) s) (\<lambda>s _.
                     let s = s\<lparr>fv_manifest := (fv_manifest s)
                                \<lparr>mf_snapshots := bt_insert sid meta (mf_snapshots (fv_manifest s))\<rparr>\<rparr>
                     in and_then (fv_save enc s) (\<lambda>s _. (s, Ok meta)))))))"

definition fv_list_snapshots :: "file_vault \<Rightarrow> volume_id option \<Rightarrow> snapshot_meta list" where
  "fv_list_snapshots s volume =
     filter (\<lambda>m. case volume of None \<Rightarrow> True | Some v \<Rightarrow> snap_volume m = v)
       (map_values (mf_snapshots (fv_manifest s)))"

definition fv_delete_snapshot :: "manifest encoder \<Rightarrow> file_vault \<Rightarrow> snapshot_id \<Rightarrow> file_vault \<times> unit cel_result" where
  "fv_delete_snapshot enc s sid =
     (let known = map_of (mf_snapshots (fv_manifest s)) sid \<noteq> None;
          s = s\<lparr>fv_manifest := (fv_manifest s)
                  \<lparr>mf_snapshots := bt_remove sid (mf_snapshots (fv_manifest s))\<rparr>\<rparr>;
          s = (if known then fv_unlink (snapshot_path (fv_root s) sid) s else s)
      in fv_save enc s)"

definition fv_restore_snapshot :: "file_vault \<Rightarrow> snapshot_id \<Rightarrow> file_vault \<times> unit cel_result" where
  "fv_restore_snapshot s sid =
     (case map_of (mf_snapshots (fv_manifest s)) sid of
        None \<Rightarrow> (s, Err (Invalid ''restore: unknown snapshot''))
      | Some sn \<Rightarrow>
          (case map_of (mf_volumes (fv_manifest s)) (snap_volume sn) of
             None \<Rightarrow> (s, Err (Invalid ''restore: volume gone''))
           | Some vol \<Rightarrow>
               if vol_size vol \<noteq> snap_size sn then (s, Err (Invalid ''restore: volume size changed''))
               else and_then (on_fs (read_body (snapshot_path (fv_root s) sid)) s) (\<lambda>s bs.
                    on_fs (write_body (volume_path (fv_root s) (snap_volume sn)) bs) s)))"

definition fv_flush :: "manifest encoder \<Rightarrow> file_vault \<Rightarrow> file_vault \<times> unit cel_result" where
  "fv_flush enc s = on_error (\<lambda>e. case e of Io m \<Rightarrow> Storage m | _ \<Rightarrow> e) (fv_save enc s)"

text \<open>
  The length check of one body file: the on-disk length against the declared size.
\<close>

definition check_body :: "string \<Rightarrow> string \<Rightarrow> string \<Rightarrow> u64 \<Rightarrow> fs \<times> string list \<Rightarrow> fs \<times> string list" where
  "check_body kind vid path declared st =
     (let (w, errs) = st
      in case fs_metadata_len path w of
           (w, Ok n) \<Rightarrow>
             (w, if n = unat declared then errs
                 else errs @ [kind @ '' '' @ vid @ '': on-disk len '' @ show_nat n @ '' != declared '' @ show_word declared])
         | (w, Err e) \<Rightarrow> (w, errs @ [kind @ '' '' @ vid @ '': stat: '' @ e]))"

definition fv_integrity_check :: "file_vault \<Rightarrow> file_vault \<times> integrity_report" where
  "fv_integrity_check s =
     (let vs = mf_volumes (fv_manifest s); ss = mf_snapshots (fv_manifest s);
          (w, errs) = fold (\<lambda>(k, m). check_body ''snapshot'' k (snapshot_path (fv_root s) k) (snap_size m)) ss
                        (fold (\<lambda>(k, m). check_body ''volume'' k (volume_path (fv_root s) k) (vol_size m)) vs
                           (fv_fs s, []))
      in (s\<lparr>fv_fs := w\<rparr>,
          \<lparr>volumes_checked = fold (\<lambda>_ n. saturating_add n 1) vs 0,
           snapshots_checked = fold (\<lambda>_ n. saturating_add n 1) ss 0, report_errors = errs\<rparr>))"

subsection \<open>Clients\<close>

text \<open>A client's command: an operation of the trait that changes the store, or a flush.\<close>

datatype fv_cmd = FvOp vault_cmd | FvFlush

fun fv_step :: "manifest encoder \<Rightarrow> file_vault \<Rightarrow> fv_cmd \<Rightarrow> file_vault \<times> unit cel_result" where
  "fv_step enc s (FvOp (VCreate owner name sz)) = map_prod id (map_result id (\<lambda>_. ())) (fv_create enc s owner name sz)"
| "fv_step enc s (FvOp (VDelete v)) = fv_delete enc s v"
| "fv_step enc s (FvOp (VWrite v off d)) = fv_write s v off d"
| "fv_step enc s (FvOp (VSnapshot v name)) = map_prod id (map_result id (\<lambda>_. ())) (fv_create_snapshot enc s v name)"
| "fv_step enc s (FvOp (VDeleteSnapshot sid)) = fv_delete_snapshot enc s sid"
| "fv_step enc s (FvOp (VRestore sid)) = fv_restore_snapshot s sid"
| "fv_step enc s FvFlush = fv_flush enc s"

text \<open>The commands that save the manifest.\<close>

fun fv_saves :: "fv_cmd \<Rightarrow> bool" where
  "fv_saves (FvOp (VWrite _ _ _)) = False"
| "fv_saves (FvOp (VRestore _)) = False"
| "fv_saves _ = True"

definition fv_run :: "manifest encoder \<Rightarrow> file_vault \<Rightarrow> fv_cmd list \<Rightarrow> file_vault" where
  "fv_run enc s cs = foldl (\<lambda>s c. fst (fv_step enc s c)) s cs"

text \<open>What a process that opens the root now, without failures, finds in the manifest.\<close>

definition fv_reload :: "manifest decoder \<Rightarrow> file_vault \<Rightarrow> manifest cel_result" where
  "fv_reload dec s = snd (load_manifest dec (fv_root s) ((fv_fs s)\<lparr>fs_faults := []\<rparr>))"

subsection \<open>What a failing operation leaves on disk\<close>

lemma path_neqs [simp]:
  "manifest_path r \<noteq> manifest_tmp r" "manifest_tmp r \<noteq> manifest_path r"
  "manifest_path r \<noteq> volume_path r v" "volume_path r v \<noteq> manifest_path r"
  "manifest_path r \<noteq> snapshot_path r k" "snapshot_path r k \<noteq> manifest_path r"
  "volume_path r v \<noteq> manifest_tmp r" "manifest_tmp r \<noteq> volume_path r v"
  "snapshot_path r k \<noteq> manifest_tmp r" "manifest_tmp r \<noteq> snapshot_path r k"
  "volume_path r v \<noteq> snapshot_path r k" "snapshot_path r k \<noteq> volume_path r v"
  by (simp_all add: manifest_path_def manifest_tmp_def volume_path_def snapshot_path_def)

lemma save_manifest_Ok:
  assumes "save_manifest enc root m w = (w', Ok ())"
  obtains b where "enc m = Ok b"
    "fs_files w' = (fs_files w)(manifest_tmp root := None, manifest_path root \<mapsto> b)"
  using assms
  by (auto simp: save_manifest_def Let_def and_then_eq_Ok dest!: call_Ok(1-3) dest: call_Ok(4))

lemma save_manifest_Err:
  assumes "save_manifest enc root m w = (w', Err e)" "p \<noteq> manifest_tmp root"
  shows "fs_files w' p = fs_files w p"
  using assms unfolding save_manifest_def Let_def and_then_eq_Err
  by (auto simp: call_elsewhere)

lemma write_body_elsewhere:
  assumes "write_body p bs w = (w', r)" "q \<noteq> p"
  shows "fs_files w' q = fs_files w q"
  using assms by (cases r) (auto simp: write_body_def and_then_eq_Err and_then_eq_Ok call_elsewhere)

lemma read_body_elsewhere:
  assumes "read_body p w = (w', r)"
  shows "fs_files w' q = fs_files w q"
  using assms by (cases r) (auto simp: read_body_def and_then_eq_Err and_then_eq_Ok call_elsewhere)

lemma on_fs_eq:
  "on_fs f s = (s', r) \<longleftrightarrow> (\<exists>w. f (fv_fs s) = (w, r) \<and> s' = s\<lparr>fv_fs := w\<rparr>)"
  by (auto simp: on_fs_def split: prod.splits)

lemma fv_reload_eq:
  "fv_reload dec s =
     (case fs_files (fv_fs s) (manifest_path (fv_root s)) of
        None \<Rightarrow> Ok manifest_default
      | Some b \<Rightarrow> map_err (map_io ''parse manifest'') (dec b))"
  by (simp add: fv_reload_def load_manifest_def Let_def fs_simps split: option.split)

lemma fv_save_reload:
  assumes "codec_ok enc dec" "fv_save enc s = (s', r)"
  shows "fv_manifest s' = fv_manifest s \<and> fv_root s' = fv_root s \<and>
    (if is_ok r then fv_reload dec s' = Ok (fv_manifest s') else fv_reload dec s' = fv_reload dec s)"
proof -
  from assms(2) obtain w where w: "save_manifest enc (fv_root s) (fv_manifest s) (fv_fs s) = (w, r)"
    "s' = s\<lparr>fv_fs := w\<rparr>" by (auto simp: fv_save_def on_fs_eq)
  show ?thesis
  proof (cases r)
    case (Err e)
    with w show ?thesis by (auto simp: fv_reload_eq save_manifest_Err)
  next
    case (Ok u)
    with w(1) obtain b where "enc (fv_manifest s) = Ok b"
      "fs_files w = (fs_files (fv_fs s))(manifest_tmp (fv_root s) := None, manifest_path (fv_root s) \<mapsto> b)"
      by (auto elim: save_manifest_Ok)
    with Ok w(2) assms(1) show ?thesis unfolding codec_ok_def by (auto simp: fv_reload_eq) (metis result.inject(2))
  qed
qed

text \<open>The two outcomes of a step as seen from the disk.\<close>

definition document_step :: "manifest decoder \<Rightarrow> file_vault \<Rightarrow> bool \<Rightarrow> file_vault \<times> 'a cel_result \<Rightarrow> bool" where
  "document_step dec s saves p \<longleftrightarrow>
     (fv_reload dec (fst p) = fv_reload dec s \<or> fv_reload dec (fst p) = Ok (fv_manifest (fst p))) \<and>
     (saves \<longrightarrow> is_ok (snd p) \<longrightarrow> fv_reload dec (fst p) = Ok (fv_manifest (fst p)))"

lemma reload_cong:
  "fs_files (fv_fs s) (manifest_path (fv_root s)) = fs_files (fv_fs t) (manifest_path (fv_root t)) \<Longrightarrow>
     fv_reload dec s = fv_reload dec t"
  by (simp add: fv_reload_eq)

lemma document_step_same: "fv_reload dec s' = fv_reload dec s \<Longrightarrow> \<not> sv \<or> \<not> is_ok r \<Longrightarrow> document_step dec s sv (s', r)"
  by (auto simp: document_step_def)

lemma document_step_save:
  assumes "codec_ok enc dec" "fv_reload dec t = fv_reload dec s"
  shows "document_step dec s sv (fv_save enc t)"
proof -
  obtain s' r where "fv_save enc t = (s', r)" by fastforce
  with fv_save_reload [OF assms(1) this] assms(2) show ?thesis by (auto simp: document_step_def split: if_splits)
qed

lemma document_step_then:
  assumes "\<And>t e. p = (t, Err e) \<Longrightarrow> fv_reload dec t = fv_reload dec s"
    and "\<And>t a. p = (t, Ok a) \<Longrightarrow> document_step dec s sv (f t a)"
  shows "document_step dec s sv (and_then p f)"
proof (cases p)
  case (Pair t r)
  with assms show ?thesis by (cases r) (auto simp: document_step_def)
qed

lemma document_step_save_then:
  assumes "codec_ok enc dec" "fv_reload dec t = fv_reload dec s"
  shows "document_step dec s sv (and_then (fv_save enc t) (\<lambda>s _. (s, Ok x)))"
proof -
  obtain s' r where "fv_save enc t = (s', r)" by fastforce
  with document_step_save [OF assms, of sv] show ?thesis by (cases r) (auto simp: document_step_def)
qed

lemma reload_on_fs:
  assumes "on_fs f t = (s', r)" "\<And>w r. f (fv_fs t) = (w, r) \<Longrightarrow>
    fs_files w (manifest_path (fv_root t)) = fs_files (fv_fs t) (manifest_path (fv_root t))"
  shows "fv_reload dec s' = fv_reload dec t" "fv_root s' = fv_root t"
  using assms by (auto simp: on_fs_eq intro!: reload_cong)

lemma reload_update_manifest [simp]: "fv_reload dec (s\<lparr>fv_manifest := m\<rparr>) = fv_reload dec s"
  by (simp add: fv_reload_eq)

lemma reload_unlink:
  assumes "p \<noteq> manifest_path (fv_root s)"
  shows "fv_reload dec (fv_unlink p s) = fv_reload dec s" "fv_root (fv_unlink p s) = fv_root s"
proof -
  have "fs_files (fst (fs_remove_file p (fv_fs s))) (manifest_path (fv_root s)) =
      fs_files (fv_fs s) (manifest_path (fv_root s))"
    using assms by (metis call_elsewhere(7) prod.collapse)
  then show "fv_reload dec (fv_unlink p s) = fv_reload dec s" "fv_root (fv_unlink p s) = fv_root s"
    by (simp_all add: fv_unlink_def fv_reload_eq)
qed

lemma reload_drop_snapshots:
  "fv_reload dec (fold drop_snapshot ks s) = fv_reload dec s \<and> fv_root (fold drop_snapshot ks s) = fv_root s"
  by (induction ks arbitrary: s) (simp_all add: drop_snapshot_def Let_def reload_unlink)

lemma document_create: "codec_ok enc dec \<Longrightarrow> document_step dec s True (fv_create enc s owner name sz)"
  unfolding fv_create_def Let_def
  by (auto split: result.split intro!: document_step_same document_step_then document_step_save_then
      dest!: reload_on_fs(1) simp: write_body_elsewhere)

lemma document_delete: "codec_ok enc dec \<Longrightarrow> document_step dec s True (fv_delete enc s v)"
  unfolding fv_delete_def Let_def
  by (rule document_step_save) (simp_all add: reload_drop_snapshots reload_unlink)

lemma document_delete_snapshot: "codec_ok enc dec \<Longrightarrow> document_step dec s True (fv_delete_snapshot enc s k)"
  unfolding fv_delete_snapshot_def Let_def
  by (rule document_step_save) (simp_all add: reload_unlink)

lemma document_step_on_fs:
  assumes "fv_reload dec t = fv_reload dec s" "\<And>w r. f (fv_fs t) = (w, r) \<Longrightarrow>
    fs_files w (manifest_path (fv_root t)) = fs_files (fv_fs t) (manifest_path (fv_root t))"
  shows "document_step dec s False (on_fs f t)"
proof -
  obtain s' r where "on_fs f t = (s', r)" by fastforce
  with reload_on_fs(1) [OF this assms(2)] assms(1) show ?thesis by (simp add: document_step_same)
qed

lemma document_create_snapshot: "codec_ok enc dec \<Longrightarrow> document_step dec s True (fv_create_snapshot enc s v name)"
  unfolding fv_create_snapshot_def Let_def
  by (auto split: result.split option.split simp: write_body_elsewhere read_body_elsewhere reload_on_fs(1)
      intro!: document_step_same document_step_then document_step_save_then)

lemma document_flush: "codec_ok enc dec \<Longrightarrow> document_step dec s True (fv_flush enc s)"
  using document_step_save [of enc dec s s True]
  by (cases "fv_save enc s"; cases "snd (fv_save enc s)") (auto simp: fv_flush_def document_step_def)

lemma document_write: "document_step dec s False (fv_write s v off d)"
  unfolding fv_write_def Let_def
  by (auto split: option.split intro!: document_step_same document_step_then document_step_on_fs reload_cong
      simp: on_fs_eq call_elsewhere on_error_eq_iff)

lemma document_restore: "document_step dec s False (fv_restore_snapshot s k)"
  unfolding fv_restore_snapshot_def Let_def
  by (auto split: option.split intro!: document_step_same document_step_then document_step_on_fs
      simp: write_body_elsewhere read_body_elsewhere reload_on_fs(1))

lemma document_fv_step: "codec_ok enc dec \<Longrightarrow> document_step dec s (fv_saves c) (fv_step enc s c)"
proof (cases c)
  case (FvOp op)
  assume ok: "codec_ok enc dec"
  have keep: "document_step dec s sv (map_prod id (map_result id f) p)" if "document_step dec s sv p"
    for sv p and f :: "'a \<Rightarrow> 'b"
    using that by (cases p; cases "snd p") (auto simp: document_step_def)
  from ok FvOp show ?thesis
    by (cases op) (simp_all add: keep document_create document_delete document_write
        document_create_snapshot document_delete_snapshot document_restore)
qed (simp add: document_flush)

lemma fv_saved_document:
  assumes "codec_ok enc dec"
  shows "saved_document (fv_step enc) (fv_reload dec) fv_manifest fv_saves (fv_run enc) (\<lambda>_. True)"
proof (unfold_locales, goal_cases)
  case (4 s c s' r)
  with document_fv_step [OF assms, of s c] show ?case by (simp add: document_step_def)
next
  case (5 s c s')
  with document_fv_step [OF assms, of s c] show ?case by (simp add: document_step_def)
qed (simp_all add: fv_run_def)

text \<open>A codec for the manifest.\<close>

definition pc_volume_meta :: "volume_meta pcodec" where
  "pc_volume_meta =
     pc_via (\<lambda>m. (vol_id m, vol_owner m, vol_name m, vol_size m))
       (\<lambda>(i, ow, n, sz). \<lparr>vol_id = i, vol_owner = ow, vol_name = n, vol_size = sz\<rparr>)
       (pc_pair pc_string (pc_pair pc_string (pc_pair pc_string pc_word)))"

definition pc_snapshot_meta :: "snapshot_meta pcodec" where
  "pc_snapshot_meta =
     pc_via (\<lambda>m. (snap_id m, snap_volume m, snap_name m, snap_size m))
       (\<lambda>(i, v, n, sz). \<lparr>snap_id = i, snap_volume = v, snap_name = n, snap_size = sz\<rparr>)
       (pc_pair pc_string (pc_pair pc_string (pc_pair pc_string pc_word)))"

definition pc_manifest :: "manifest pcodec" where
  "pc_manifest =
     pc_via (\<lambda>m. (next_per_owner m, next_snap m, mf_volumes m, mf_snapshots m))
       (\<lambda>(a, b, v, s). \<lparr>next_per_owner = a, next_snap = b, mf_volumes = v, mf_snapshots = s\<rparr>)
       (pc_pair (pc_list (pc_pair pc_string pc_word)) (pc_pair (pc_list (pc_pair pc_string pc_word))
          (pc_pair (pc_list (pc_pair pc_string pc_volume_meta)) (pc_list (pc_pair pc_string pc_snapshot_meta)))))"

lemma pc_law_manifest: "pc_law pc_manifest"
  unfolding pc_manifest_def pc_volume_meta_def pc_snapshot_meta_def
  by (intro pc_law_via pc_laws) simp_all

lemma manifest_codec_ok: "codec_ok (document_enc pc_manifest) (document_dec pc_manifest)"
  unfolding codec_ok_def using document_roundtrip [OF pc_law_manifest] by blast

interpretation plain_vault: saved_document "fv_step (document_enc pc_manifest)"
  "fv_reload (document_dec pc_manifest)" fv_manifest fv_saves "fv_run (document_enc pc_manifest)" "\<lambda>_. True"
  by (rule fv_saved_document [OF manifest_codec_ok])

subsection \<open>The in-memory store as the specification\<close>

text \<open>
  Without failures the store on disk is the in-memory store: the metadata of the manifest, the bodies
  in the files. The abstraction pairs them. Ids are the exception: the in-memory store has one
  counter, this one a counter per owner, so the abstract counter is put at its maximum and creation
  is treated apart.
\<close>

definition map_vals :: "('k \<Rightarrow> 'v \<Rightarrow> 'w) \<Rightarrow> ('k \<times> 'v) list \<Rightarrow> ('k \<times> 'w) list" where
  "map_vals f m = map (\<lambda>(k, v). (k, f k v)) m"

definition file_body :: "file_vault \<Rightarrow> string \<Rightarrow> bytes" where
  "file_body s p = (case fs_files (fv_fs s) p of None \<Rightarrow> [] | Some b \<Rightarrow> b)"

definition fv_abs :: "file_vault \<Rightarrow> mem_inner" where
  "fv_abs s =
     \<lparr>mi_next = - 1,
      mi_rows = map_vals (\<lambda>k m. \<lparr>mv_meta = m, mv_body = file_body s (volume_path (fv_root s) k)\<rparr>)
                  (mf_volumes (fv_manifest s)),
      mi_next_snap = next_snap (fv_manifest s),
      mi_snaps = map_vals (\<lambda>k m. \<lparr>ms_meta = m, ms_body = file_body s (snapshot_path (fv_root s) k)\<rparr>)
                   (mf_snapshots (fv_manifest s))\<rparr>"

text \<open>
  The body files are told apart by \<^verbatim>\<open>safe_id\<close> only when owners do not contain the characters it
  replaces.
\<close>

definition plain_owner :: "string \<Rightarrow> bool" where
  "plain_owner ow \<longleftrightarrow> list_all (\<lambda>c. c \<notin> {CHR ''/'', CHR ''@'', CHR '':'', CHR 0x5C}) ow"

definition volume_on_disk :: "file_vault \<Rightarrow> volume_id \<Rightarrow> volume_meta \<Rightarrow> bool" where
  "volume_on_disk s k m \<longleftrightarrow> plain_owner (vol_owner m) \<and> fs_files (fv_fs s) (volume_path (fv_root s) k) \<noteq> None \<and>
     (\<exists>c n. k = vol_owner m @ ''/v'' @ show_word c \<and>
        map_of (next_per_owner (fv_manifest s)) (vol_owner m) = Some n \<and> c \<le> n)"

definition bodies_on_disk :: "file_vault \<Rightarrow> bool" where
  "bodies_on_disk s \<longleftrightarrow> fs_faults (fv_fs s) = [] \<and>
     (\<forall>k m. map_of (mf_volumes (fv_manifest s)) k = Some m \<longrightarrow> volume_on_disk s k m) \<and>
     (\<forall>k m. map_of (mf_snapshots (fv_manifest s)) k = Some m \<longrightarrow>
        fs_files (fv_fs s) (snapshot_path (fv_root s) k) \<noteq> None)"

definition on_disk :: "manifest decoder \<Rightarrow> file_vault \<Rightarrow> bool" where
  "on_disk dec s \<longleftrightarrow> bodies_on_disk s \<and> fv_reload dec s = Ok (fv_manifest s)"

definition fv_inv :: "manifest decoder \<Rightarrow> file_vault \<Rightarrow> bool" where
  "fv_inv dec s \<longleftrightarrow> on_disk dec s \<and> vault_inv (fv_abs s)"

lemma map_of_map_vals [simp]: "map_of (map_vals f m) k = map_option (f k) (map_of m k)"
  by (induction m) (auto simp: map_vals_def)

lemma map_vals_wf [simp]: "bt_wf (map_vals f m) \<longleftrightarrow> bt_wf m"
  by (simp add: map_vals_def bt_wf_def case_prod_unfold comp_def)

lemma map_vals_insert: "map_vals f (bt_insert k v m) = bt_insert k (f k v) (map_vals f m)"
  by (induction m) (auto simp: map_vals_def)

lemma map_vals_remove: "map_vals f (bt_remove k m) = bt_remove k (map_vals f m)"
  by (induction m) (auto simp: map_vals_def bt_remove_def)

lemma map_vals_retain:
  "(\<And>k v. P k v = Q k (f k v)) \<Longrightarrow> map_vals f (bt_retain P m) = bt_retain Q (map_vals f m)"
  by (induction m) (auto simp: map_vals_def bt_retain_def)

lemma map_vals_cong: "(\<And>k v. (k, v) \<in> set m \<Longrightarrow> f k v = g k v) \<Longrightarrow> map_vals f m = map_vals g m"
  by (auto simp: map_vals_def)

lemma map_vals_update:
  "(\<And>k' v. (k', v) \<in> set m \<Longrightarrow> g k' v = (if k' = k then h (f k' v) else f k' v)) \<Longrightarrow>
     map_vals g m = map_update_with k h (map_vals f m)"
  by (auto simp: map_vals_def map_update_with_def)

lemma bt_insert_map_vals_cong:
  assumes "bt_wf m" "\<And>k' v. (k', v) \<in> set m \<Longrightarrow> k' \<noteq> k \<Longrightarrow> f k' v = g k' v"
  shows "bt_insert k x (map_vals f m) = bt_insert k x (map_vals g m)"
  using assms
proof (induction m)
  case (Cons e m)
  obtain a y where e: "e = (a, y)" by fastforce
  consider "k < a" | "k = a" | "a < k" by fastforce
  then show ?case
  proof cases
    case 3
    with Cons.IH Cons.prems Cons.prems(2) [of a y] e show ?thesis by (simp add: map_vals_def)
  next
    case 2
    with Cons.prems e have "map_vals f m = map_vals g m" by (intro map_vals_cong) force
    with 2 e show ?thesis by (simp add: map_vals_def)
  next
    case 1
    have "map_vals f m = map_vals g m"
    proof (rule map_vals_cong)
      fix k' v assume "(k', v) \<in> set m"
      with Cons.prems(1) e have "a < k'" by fastforce
      with 1 Cons.prems(2) [of k' v] \<open>(k', v) \<in> set m\<close> show "f k' v = g k' v" by simp
    qed
    with 1 e Cons.prems(2) [of a y] show ?thesis by (simp add: map_vals_def)
  qed
qed (simp add: map_vals_def)

lemma map_vals_values: "map f (map_values m) = map_values (map_vals (\<lambda>_. f) m)"
  by (auto simp: map_vals_def map_values_def)

text \<open>Distinct ids have distinct body files.\<close>

lemma safe_id_append [simp]: "safe_id (a @ b) = safe_id a @ safe_id b"
  by (simp add: safe_id_def)

lemma safe_id_plain: "plain_owner ow \<Longrightarrow> safe_id ow = ow"
  unfolding safe_id_def plain_owner_def list_all_iff by (rule map_idI) simp

lemma not_digit_replaced:
  "\<not> is_digit_char (CHR ''/'')" "\<not> is_digit_char (CHR ''@'')" "\<not> is_digit_char (CHR '':'')" "\<not> is_digit_char (CHR 0x5C)"
  by (simp_all add: is_digit_char_def)

lemma plain_show_word: "plain_owner (show_word c)"
  using not_digit_replaced [THEN show_word_notin, of c] by (auto simp: plain_owner_def list_all_iff)

lemma safe_id_show [simp]: "safe_id (show_word c) = show_word c"
  by (rule safe_id_plain [OF plain_show_word])

lemma safe_id_simps [simp]:
  "safe_id [] = []"
  "safe_id (c # s) = (if c \<in> {CHR ''/'', CHR ''@'', CHR '':'', CHR 0x5C} then CHR ''_'' else c) # safe_id s"
  by (simp_all add: safe_id_def)

lemma volume_path_inject:
  assumes "plain_owner ow" "plain_owner ow'"
    and "volume_path r (ow @ ''/v'' @ show_word c) = volume_path r (ow' @ ''/v'' @ show_word c')"
  shows "ow = ow' \<and> c = c'"
proof -
  from assms have "ow @ ''_'' @ CHR ''v'' # show_word c = ow' @ ''_'' @ CHR ''v'' # show_word c'"
    by (simp add: volume_path_def safe_id_plain)
  then show ?thesis by (rule counter_id_inject) simp
qed

lemma snapshot_path_inject:
  assumes "snapshot_path r (v @ ''@s'' @ show_word c) = snapshot_path r (v' @ ''@s'' @ show_word c')"
  shows "safe_id v = safe_id v' \<and> c = c'"
proof -
  from assms have "safe_id v @ ''_'' @ CHR ''s'' # show_word c = safe_id v' @ ''_'' @ CHR ''s'' # show_word c'"
    by (simp add: snapshot_path_def)
  then show ?thesis by (rule counter_id_inject) simp
qed

lemma on_diskD:
  assumes "on_disk dec s"
  shows "fs_faults (fv_fs s) = []" "fv_reload dec s = Ok (fv_manifest s)"
    "map_of (mf_volumes (fv_manifest s)) k = Some m \<Longrightarrow> volume_on_disk s k m"
    "map_of (mf_snapshots (fv_manifest s)) j = Some n \<Longrightarrow> fs_files (fv_fs s) (snapshot_path (fv_root s) j) \<noteq> None"
  using assms by (simp_all add: on_disk_def bodies_on_disk_def)

lemma live_volumes_apart:
  assumes "on_disk dec s" "map_of (mf_volumes (fv_manifest s)) k = Some m"
    "map_of (mf_volumes (fv_manifest s)) k' = Some m'"
    "volume_path (fv_root s) k = volume_path (fv_root s) k'"
  shows "k = k'"
proof -
  obtain c c' where "k = vol_owner m @ ''/v'' @ show_word (c :: u64)" "plain_owner (vol_owner m)"
    "k' = vol_owner m' @ ''/v'' @ show_word (c' :: u64)" "plain_owner (vol_owner m')"
    using on_diskD(3) [OF assms(1,2)] on_diskD(3) [OF assms(1,3)] by (auto simp: volume_on_disk_def)
  with volume_path_inject [of "vol_owner m" "vol_owner m'" "fv_root s" c c'] assms(4) show ?thesis by simp
qed

text \<open>A snapshot's id names its volume, which is live.\<close>

lemma live_snapshot:
  assumes "fv_inv dec s" "map_of (mf_snapshots (fv_manifest s)) k = Some m"
  obtains c v where "k = snap_volume m @ ''@s'' @ show_word (c :: u64)" "snap_id m = k"
    "map_of (mf_volumes (fv_manifest s)) (snap_volume m) = Some v" "vol_size v = snap_size m"
    "length (file_body s (snapshot_path (fv_root s) k)) = unat (vol_size v)"
proof -
  from assms have inv: "vault_inv (fv_abs s)" by (simp add: fv_inv_def)
  have "snap_ok (fv_abs s) k \<lparr>ms_meta = m, ms_body = file_body s (snapshot_path (fv_root s) k)\<rparr>"
    by (rule vault_invD(5) [OF inv]) (simp add: fv_abs_def assms(2))
  moreover have "length (file_body s (volume_path (fv_root s) j)) = unat (vol_size x)"
    if "map_of (mf_volumes (fv_manifest s)) j = Some x" for j x
    using vault_invD(4) [OF inv, of j] that by (simp add: row_ok_def fv_abs_def)
  ultimately show ?thesis by (auto simp: snap_ok_def fv_abs_def intro!: that)
qed

lemma safe_volume_inject:
  assumes "on_disk dec s" "map_of (mf_volumes (fv_manifest s)) k = Some m"
    "map_of (mf_volumes (fv_manifest s)) k' = Some m'" "safe_id k = safe_id k'"
  shows "k = k'"
  using live_volumes_apart [OF assms(1-3)] assms(4) by (simp add: volume_path_def)

lemma snapshots_apart:
  assumes "fv_inv dec s" "map_of (mf_snapshots (fv_manifest s)) k = Some m"
    "map_of (mf_volumes (fv_manifest s)) v = Some x"
    "snapshot_path (fv_root s) k = snapshot_path (fv_root s) (v @ ''@s'' @ show_word (c :: u64))"
  shows "k = v @ ''@s'' @ show_word c"
proof -
  obtain d y where d: "k = snap_volume m @ ''@s'' @ show_word (d :: u64)"
    "snap_id m = k" "map_of (mf_volumes (fv_manifest s)) (snap_volume m) = Some y" "vol_size y = snap_size m"
    "length (file_body s (snapshot_path (fv_root s) k)) = unat (vol_size y)"
    by (rule live_snapshot [OF assms(1,2)])
  have "safe_id (snap_volume m) = safe_id v \<and> d = c"
    by (rule snapshot_path_inject) (use d(1) assms(4) in simp)
  moreover from this have "snap_volume m = v"
    using safe_volume_inject [of dec s, OF _ d(3) assms(3)] assms(1) by (simp add: fv_inv_def)
  ultimately show ?thesis using d(1) by simp
qed

lemma live_snapshots_apart:
  assumes "fv_inv dec s" "map_of (mf_snapshots (fv_manifest s)) k = Some m"
    "map_of (mf_snapshots (fv_manifest s)) k' = Some m'"
    "snapshot_path (fv_root s) k = snapshot_path (fv_root s) k'"
  shows "k = k'"
proof -
  obtain d y where "k' = snap_volume m' @ ''@s'' @ show_word (d :: u64)" "snap_id m' = k'"
    "map_of (mf_volumes (fv_manifest s)) (snap_volume m') = Some y" "vol_size y = snap_size m'"
    "length (file_body s (snapshot_path (fv_root s) k')) = unat (vol_size y)"
    by (rule live_snapshot [OF assms(1,3)])
  with snapshots_apart [OF assms(1,2), of "snap_volume m'" y d] assms(4) show ?thesis by simp
qed

text \<open>The effect of the file operations when nothing fails.\<close>

definition fv_set :: "string \<Rightarrow> bytes option \<Rightarrow> file_vault \<Rightarrow> file_vault" where
  "fv_set p b s = s\<lparr>fv_fs := (fv_fs s)\<lparr>fs_files := (fs_files (fv_fs s))(p := b)\<rparr>\<rparr>"

lemma fv_set_sel [simp]:
  "fv_root (fv_set p b s) = fv_root s" "fv_manifest (fv_set p b s) = fv_manifest s"
  "fs_faults (fv_fs (fv_set p b s)) = fs_faults (fv_fs s)"
  "fs_files (fv_fs (fv_set p b s)) = (fs_files (fv_fs s))(p := b)"
  "file_body (fv_set p b s) q = (if q = p then (case b of None \<Rightarrow> [] | Some x \<Rightarrow> x) else file_body s q)"
  by (simp_all add: fv_set_def file_body_def)

lemma file_body_manifest [simp]: "file_body (s\<lparr>fv_manifest := m\<rparr>) p = file_body s p"
  by (simp add: file_body_def)

lemma no_fault_write_body:
  "fs_faults (fv_fs s) = [] \<Longrightarrow> on_fs (write_body p b) s = (fv_set p (Some b) s, Ok ())"
  by (simp add: on_fs_def write_body_def fs_simps fv_set_def)

lemma no_fault_read_body:
  "fs_faults (fv_fs s) = [] \<Longrightarrow> fs_files (fv_fs s) p \<noteq> None \<Longrightarrow> on_fs (read_body p) s = (s, Ok (file_body s p))"
  by (auto simp: on_fs_def read_body_def fs_simps file_body_def)

lemma no_fault_unlink: "fs_faults (fv_fs s) = [] \<Longrightarrow> fv_unlink p s = fv_set p None s"
  by (simp add: fv_unlink_def fs_simps fv_set_def)

lemma no_fault_save:
  assumes "fs_faults (fv_fs s) = []" "enc (fv_manifest s) = Ok b"
  shows "fv_save enc s = (fv_set (manifest_path (fv_root s)) (Some b) (fv_set (manifest_tmp (fv_root s)) None s), Ok ())"
  using assms by (simp add: fv_save_def on_fs_def save_manifest_def Let_def fs_simps fv_set_def fun_upd_twist)

text \<open>A save keeps the bodies and brings the document up to date.\<close>

lemma abs_set_manifest_file:
  assumes "p = manifest_path (fv_root s) \<or> p = manifest_tmp (fv_root s)"
  shows "fv_abs (fv_set p b s) = fv_abs s" "bodies_on_disk (fv_set p b s) = bodies_on_disk s"
  using assms by (auto simp: fv_abs_def bodies_on_disk_def volume_on_disk_def)

lemma no_fault_saved:
  assumes "codec_ok enc dec" "bodies_on_disk s"
  obtains s' where "fv_save enc s = (s', Ok ())" "fv_abs s' = fv_abs s" "on_disk dec s'"
    "fv_manifest s' = fv_manifest s"
proof -
  from assms(1) obtain b where "enc (fv_manifest s) = Ok b" unfolding codec_ok_def by blast
  from no_fault_save [of s enc b, OF _ this] assms(2) obtain s' where
    s': "fv_save enc s = (s', Ok ())" "fv_abs s' = fv_abs s" "bodies_on_disk s'"
    by (auto simp: abs_set_manifest_file bodies_on_disk_def [of s])
  with fv_save_reload [OF assms(1) s'(1)] that show ?thesis by (simp add: on_disk_def)
qed

lemma fv_invD:
  assumes "fv_inv dec s"
  shows "on_disk dec s" "vault_inv (fv_abs s)" "bt_wf (mf_volumes (fv_manifest s))"
    "bt_wf (mf_snapshots (fv_manifest s))" "fs_faults (fv_fs s) = []" "bodies_on_disk s"
  using assms vault_invD(1,3) [of "fv_abs s"]
  by (simp_all add: fv_inv_def fv_abs_def on_disk_def bodies_on_disk_def)

lemma volume_entry:
  assumes "fv_inv dec s" "map_of (mf_volumes (fv_manifest s)) v = Some m"
  shows "fs_files (fv_fs s) (volume_path (fv_root s) v) = Some (file_body s (volume_path (fv_root s) v))"
    "length (file_body s (volume_path (fv_root s) v)) = unat (vol_size m)" "vol_id m = v"
proof -
  have "row_ok (fv_abs s) v \<lparr>mv_meta = m, mv_body = file_body s (volume_path (fv_root s) v)\<rparr>"
    by (rule vault_invD(4) [OF fv_invD(2) [OF assms(1)]]) (simp add: fv_abs_def assms(2))
  then show "length (file_body s (volume_path (fv_root s) v)) = unat (vol_size m)" "vol_id m = v"
    by (simp_all add: row_ok_def)
  show "fs_files (fv_fs s) (volume_path (fv_root s) v) = Some (file_body s (volume_path (fv_root s) v))"
    using on_diskD(3) [OF fv_invD(1) [OF assms(1)] assms(2)] by (auto simp: volume_on_disk_def file_body_def)
qed

lemma vs_body_abs: "vs_body (fv_abs s) v =
    map_option (\<lambda>_. file_body s (volume_path (fv_root s) v)) (map_of (mf_volumes (fv_manifest s)) v)"
  by (simp add: vs_body_def fv_abs_def option.map_comp comp_def)

text \<open>Rewriting the body of a live volume.\<close>

lemma abs_set_volume:
  assumes "fv_inv dec s" "map_of (mf_volumes (fv_manifest s)) v = Some m"
    and "b = f (file_body s (volume_path (fv_root s) v))" "length b = unat (vol_size m)"
  shows "fv_abs (fv_set (volume_path (fv_root s) v) (Some b) s) =
      (fv_abs s)\<lparr>mi_rows := map_update_with v (mv_body_update f) (mi_rows (fv_abs s))\<rparr>"
    and "fv_inv dec (fv_set (volume_path (fv_root s) v) (Some b) s)"
proof -
  let ?s = "fv_set (volume_path (fv_root s) v) (Some b) s"
  have apart: "volume_path (fv_root s) k = volume_path (fv_root s) v \<longleftrightarrow> k = v"
    if "(k, x) \<in> set (mf_volumes (fv_manifest s))" for k x
    using live_volumes_apart [OF fv_invD(1) [OF assms(1)] _ assms(2), of k x] that
      bt.entry_iff [OF fv_invD(3) [OF assms(1)]] by auto
  show abs: "fv_abs ?s = (fv_abs s)\<lparr>mi_rows := map_update_with v (mv_body_update f) (mi_rows (fv_abs s))\<rparr>"
    using assms(3) apart by (simp add: fv_abs_def) (rule map_vals_update, auto)
  have "vault_inv (fv_abs ?s)" unfolding abs
    using assms(2-4) volume_entry(2) [OF assms(1,2)]
    by (intro body_update_inv fv_invD(2) [OF assms(1)]) (auto simp: fv_abs_def)
  moreover have "bodies_on_disk ?s" using fv_invD(6) [OF assms(1)] by (auto simp: bodies_on_disk_def volume_on_disk_def)
  moreover have "fv_reload dec ?s = fv_reload dec s" by (simp add: fv_reload_eq)
  ultimately show "fv_inv dec ?s" using fv_invD(1) [OF assms(1)] by (simp add: fv_inv_def on_disk_def)
qed

subsection \<open>The operations refine those of the in-memory store\<close>

lemma write_at_splice: "off + length d \<le> length b \<Longrightarrow> write_at off d b = splice off d b"
  by (simp add: write_at_def splice_def)

lemma fv_read_refines:
  assumes "fv_inv dec s"
  shows "fv_read s v off len = (s, vs_read (fv_abs s) v off len)"
proof (cases "map_of (mf_volumes (fv_manifest s)) v")
  case None
  then show ?thesis by (simp add: fv_read_def vs_read_def fv_abs_def)
next
  case (Some m)
  with volume_entry [OF assms Some] fv_invD(5) [OF assms] show ?thesis
    by (simp add: fv_read_def vs_read_def fv_abs_def on_fs_def fs_simps)
qed

lemma fv_write_eq:
  assumes "fv_inv dec s" "map_of (mf_volumes (fv_manifest s)) v = Some m"
  shows "fv_write s v off d =
    (case write_spec (vs_body (fv_abs s) v) off d of
       Err e \<Rightarrow> (s, Err e)
     | Ok b \<Rightarrow> (fv_set (volume_path (fv_root s) v) (Some b) s, Ok ()))"
  using volume_entry [OF assms] fv_invD(5) [OF assms(1)] assms(2)
  by (simp add: fv_write_def vs_body_abs on_fs_def fs_simps write_at_splice fv_set_def Let_def)

lemma fv_write_refines:
  assumes "fv_inv dec s"
  shows "map_prod fv_abs id (fv_write s v off d) = vs_write (fv_abs s) v off d \<and>
    fv_inv dec (fst (fv_write s v off d))"
proof (cases "map_of (mf_volumes (fv_manifest s)) v")
  case None
  with assms show ?thesis by (simp add: fv_write_def vs_write_def fv_abs_def)
next
  case (Some m)
  show ?thesis
  proof (cases "write_spec (vs_body (fv_abs s) v) off d")
    case (Err e)
    with fv_write_eq [OF assms Some, of off d] assms show ?thesis by (simp add: vs_write_eq)
  next
    case (Ok b)
    with Some have "b = splice (unat off) d (file_body s (volume_path (fv_root s) v))" "length b = unat (vol_size m)"
      using volume_entry(2) [OF assms Some] by (auto simp: vs_body_abs split: if_splits)
    from abs_set_volume [of dec s v m b "splice (unat off) d", OF assms Some this] fv_write_eq [OF assms Some, of off d] Ok
    show ?thesis by (simp add: vs_write_eq)
  qed
qed

lemma plain_no_at:
  assumes "fv_inv dec s" "map_of (mf_volumes (fv_manifest s)) v = Some m"
  shows "CHR ''@'' \<notin> set v"
proof -
  from on_diskD(3) [OF fv_invD(1) [OF assms(1)] assms(2)] obtain c where
    "v = vol_owner m @ ''/v'' @ show_word (c :: u64)" "plain_owner (vol_owner m)"
    by (auto simp: volume_on_disk_def)
  with show_word_notin [of "CHR ''@''" c] show ?thesis by (auto simp: plain_owner_def list_all_iff)
qed

lemma fv_restore_refines:
  assumes "fv_inv dec s"
  shows "map_prod fv_abs id (fv_restore_snapshot s k) = vs_restore_snapshot (fv_abs s) k \<and>
    fv_inv dec (fst (fv_restore_snapshot s k))"
proof (cases "map_of (mf_snapshots (fv_manifest s)) k")
  case None
  with assms show ?thesis by (simp add: fv_restore_snapshot_def vs_restore_snapshot_def fv_abs_def)
next
  case (Some m)
  obtain c x where x: "k = snap_volume m @ ''@s'' @ show_word (c :: u64)" "snap_id m = k"
    "map_of (mf_volumes (fv_manifest s)) (snap_volume m) = Some x" "vol_size x = snap_size m"
    "length (file_body s (snapshot_path (fv_root s) k)) = unat (vol_size x)"
    by (rule live_snapshot [OF assms Some])
  define b where "b = file_body s (snapshot_path (fv_root s) k)"
  have "fs_files (fv_fs s) (snapshot_path (fv_root s) k) \<noteq> None"
    by (rule on_diskD(4) [OF fv_invD(1) [OF assms] Some])
  with Some x(3,4) have op: "fv_restore_snapshot s k = (fv_set (volume_path (fv_root s) (snap_volume m)) (Some b) s, Ok ())"
    using fv_invD(5) [OF assms]
    by (simp add: fv_restore_snapshot_def no_fault_read_body no_fault_write_body b_def)
  have "vs_snap (fv_abs s) k = Some (snap_volume m, b)"
    by (simp add: vs_snap_def fv_abs_def Some b_def)
  from vs_restore_ok(1) [OF fv_invD(2) [OF assms] this plain_no_at [OF assms x(3)]]
    abs_set_volume [OF assms x(3), of b "\<lambda>_. b"] x(5) op show ?thesis by (simp add: b_def)
qed

text \<open>
  Removing entries. Dropping the snapshots of a list of ids removes their files and their rows.
\<close>

lemma fv_set_manifest: "fv_set p b (s\<lparr>fv_manifest := m\<rparr>) = (fv_set p b s)\<lparr>fv_manifest := m\<rparr>"
  by (simp add: fv_set_def)

lemma drop_snapshots_eq:
  assumes "fs_faults (fv_fs s) = []"
  shows "fv_root (fold drop_snapshot ks s) = fv_root s"
    "fs_faults (fv_fs (fold drop_snapshot ks s)) = []"
    "fs_files (fv_fs (fold drop_snapshot ks s)) p =
       (if p \<in> snapshot_path (fv_root s) ` set ks then None else fs_files (fv_fs s) p)"
    "fv_manifest (fold drop_snapshot ks s) = (fv_manifest s)
       \<lparr>mf_snapshots := filter (\<lambda>e. fst e \<notin> set ks) (mf_snapshots (fv_manifest s))\<rparr>"
  using assms
proof (induction ks arbitrary: s)
  case (Cons k ks)
  {
    case 1
    with Cons.IH(1) [of "drop_snapshot k s"] show ?case
      by (simp add: drop_snapshot_def Let_def no_fault_unlink)
  next
    case 2
    with Cons.IH(2) [of "drop_snapshot k s"] show ?case
      by (simp add: drop_snapshot_def Let_def no_fault_unlink)
  next
    case 3
    with Cons.IH(3) [of "drop_snapshot k s"] show ?case
      by (auto simp: drop_snapshot_def Let_def no_fault_unlink)
  next
    case 4
    with Cons.IH(4) [of "drop_snapshot k s"] show ?case
      by (simp add: drop_snapshot_def Let_def no_fault_unlink bt_remove_def conj_commute)
  }
qed simp_all

text \<open>
  A state with fewer entries, whose remaining bodies are where they were, is still on disk; its
  abstraction keeps the remaining rows.
\<close>

lemma abs_files_cong:
  assumes "fv_root t = fv_root s" "bt_wf (mf_volumes (fv_manifest t))" "bt_wf (mf_snapshots (fv_manifest t))"
    and "\<And>k m. map_of (mf_volumes (fv_manifest t)) k = Some m \<Longrightarrow>
      fs_files (fv_fs t) (volume_path (fv_root s) k) = fs_files (fv_fs s) (volume_path (fv_root s) k)"
    and "\<And>k m. map_of (mf_snapshots (fv_manifest t)) k = Some m \<Longrightarrow>
      fs_files (fv_fs t) (snapshot_path (fv_root s) k) = fs_files (fv_fs s) (snapshot_path (fv_root s) k)"
  shows "fv_abs t = fv_abs (s\<lparr>fv_manifest := fv_manifest t\<rparr>)"
  using assms by (auto simp: fv_abs_def file_body_def bt.entry_iff intro!: map_vals_cong split: option.split)

lemma bodies_subset:
  assumes "bodies_on_disk s" "fs_faults (fv_fs t) = []" "fv_root t = fv_root s"
    and "next_per_owner (fv_manifest t) = next_per_owner (fv_manifest s)"
    and "\<And>k m. map_of (mf_volumes (fv_manifest t)) k = Some m \<Longrightarrow> map_of (mf_volumes (fv_manifest s)) k = Some m \<and>
      fs_files (fv_fs t) (volume_path (fv_root s) k) = fs_files (fv_fs s) (volume_path (fv_root s) k)"
    and "\<And>k m. map_of (mf_snapshots (fv_manifest t)) k = Some m \<Longrightarrow> map_of (mf_snapshots (fv_manifest s)) k = Some m \<and>
      fs_files (fv_fs t) (snapshot_path (fv_root s) k) = fs_files (fv_fs s) (snapshot_path (fv_root s) k)"
  shows "bodies_on_disk t"
  using assms unfolding bodies_on_disk_def volume_on_disk_def by metis

lemma refines_by_save:
  assumes "codec_ok enc dec" "bodies_on_disk t" "fv_abs t = g" "vault_inv g"
  shows "map_prod fv_abs id (fv_save enc t) = (g, Ok ()) \<and> fv_inv dec (fst (fv_save enc t))"
proof -
  obtain s' where "fv_save enc t = (s', Ok ())" "fv_abs s' = fv_abs t" "on_disk dec s'" "fv_manifest s' = fv_manifest t"
    by (rule no_fault_saved [OF assms(1,2)])
  with assms(3,4) show ?thesis by (simp add: fv_inv_def)
qed

lemma fv_delete_snapshot_refines:
  assumes "codec_ok enc dec" "fv_inv dec s"
  shows "map_prod fv_abs id (fv_delete_snapshot enc s k) = vs_delete_snapshot (fv_abs s) k \<and>
    fv_inv dec (fst (fv_delete_snapshot enc s k))"
proof -
  define m where "m = (fv_manifest s)\<lparr>mf_snapshots := bt_remove k (mf_snapshots (fv_manifest s))\<rparr>"
  define t where "t = (if map_of (mf_snapshots (fv_manifest s)) k \<noteq> None
    then fv_set (snapshot_path (fv_root s) k) None (s\<lparr>fv_manifest := m\<rparr>) else s\<lparr>fv_manifest := m\<rparr>)"
  have t: "fv_manifest t = m" "fv_root t = fv_root s" "fs_faults (fv_fs t) = []"
    using fv_invD(5) [OF assms(2)] by (auto simp: t_def)
  have op: "fv_delete_snapshot enc s k = fv_save enc t"
    using fv_invD(5) [OF assms(2)] by (simp add: fv_delete_snapshot_def Let_def t_def m_def no_fault_unlink)
  have snaps: "map_of (mf_snapshots (fv_manifest s)) j = Some x \<and>
      fs_files (fv_fs t) (snapshot_path (fv_root s) j) = fs_files (fv_fs s) (snapshot_path (fv_root s) j)"
    if "map_of (mf_snapshots (fv_manifest t)) j = Some x" for j x
  proof -
    from that have j: "j \<noteq> k" "map_of (mf_snapshots (fv_manifest s)) j = Some x"
      by (simp_all add: t(1) m_def map_simps split: if_splits)
    show ?thesis
    proof (cases "map_of (mf_snapshots (fv_manifest s)) k")
      case (Some y)
      from live_snapshots_apart [OF assms(2) j(2) Some] j show ?thesis by (auto simp: t_def)
    qed (simp add: t_def j)
  qed
  have vols: "map_of (mf_volumes (fv_manifest s)) j = Some x \<and>
      fs_files (fv_fs t) (volume_path (fv_root s) j) = fs_files (fv_fs s) (volume_path (fv_root s) j)"
    if "map_of (mf_volumes (fv_manifest t)) j = Some x" for j x
    using that by (auto simp: t_def m_def)
  have "fv_abs t = fv_abs (s\<lparr>fv_manifest := fv_manifest t\<rparr>)"
    by (rule abs_files_cong [OF t(2) _ _ conjunct2 [OF vols] conjunct2 [OF snaps]])
      (simp_all add: t m_def fv_invD(3,4) [OF assms(2)] bt.wf_del)
  also have "\<dots> = fst (vs_delete_snapshot (fv_abs s) k)"
    by (simp add: t m_def fv_abs_def vs_delete_snapshot_def map_vals_remove)
  finally have abs: "fv_abs t = fst (vs_delete_snapshot (fv_abs s) k)" .
  have "bodies_on_disk t"
    by (rule bodies_subset [OF fv_invD(6) [OF assms(2)] t(3,2) _ vols snaps]) (simp_all add: t m_def)
  from refines_by_save [OF assms(1) this abs] vs_delete_snapshot_inv [OF fv_invD(2) [OF assms(2)]] op
  show ?thesis by (simp add: vs_delete_snapshot_def)
qed

lemma snapshots_of_volume:
  assumes "bt_wf ss" "ks = map fst (filter (\<lambda>(_, m). snap_volume m = v) ss)"
  shows "k \<in> set ks \<longleftrightarrow> (\<exists>x. map_of ss k = Some x \<and> snap_volume x = v)"
    and "filter (\<lambda>e. fst e \<notin> set ks) ss = bt_retain (\<lambda>_ x. snap_volume x \<noteq> v) ss"
proof -
  show keys: "k \<in> set ks \<longleftrightarrow> (\<exists>x. map_of ss k = Some x \<and> snap_volume x = v)" for k
    unfolding assms(2) by (force simp flip: bt.entry_iff [OF assms(1)])
  show "filter (\<lambda>e. fst e \<notin> set ks) ss = bt_retain (\<lambda>_ x. snap_volume x \<noteq> v) ss"
    unfolding bt_retain_def by (rule filter_cong) (auto simp: keys bt.entry_iff [OF assms(1)])
qed

lemma fv_delete_refines:
  assumes "codec_ok enc dec" "fv_inv dec s"
  shows "map_prod fv_abs id (fv_delete enc s v) = vs_delete (fv_abs s) v \<and>
    fv_inv dec (fst (fv_delete enc s v))"
proof -
  define ks where "ks = map fst (filter (\<lambda>(_, m). snap_volume m = v) (mf_snapshots (fv_manifest s)))"
  define m where "m = (fv_manifest s)\<lparr>mf_volumes := bt_remove v (mf_volumes (fv_manifest s)),
    next_snap := bt_remove v (next_snap (fv_manifest s))\<rparr>"
  define s1 where "s1 = (if map_of (mf_volumes (fv_manifest s)) v \<noteq> None
    then fv_set (volume_path (fv_root s) v) None (s\<lparr>fv_manifest := m\<rparr>) else s\<lparr>fv_manifest := m\<rparr>)"
  define t where "t = fold drop_snapshot ks s1"
  have s1: "fv_manifest s1 = m" "fv_root s1 = fv_root s" "fs_faults (fv_fs s1) = []"
    using fv_invD(5) [OF assms(2)] by (auto simp: s1_def)
  note dropped = drop_snapshots_eq [OF s1(3), of ks, folded t_def, unfolded s1(1,2)]
  have wf: "bt_wf (mf_snapshots (fv_manifest s))" by (rule fv_invD(4) [OF assms(2)])
  note cascade = snapshots_of_volume [OF wf ks_def]
  have retained: "mf_snapshots (fv_manifest t) = bt_retain (\<lambda>_ x. snap_volume x \<noteq> v) (mf_snapshots (fv_manifest s))"
    by (simp add: dropped m_def cascade(2))
  have op: "fv_delete enc s v = fv_save enc t"
    using fv_invD(5) [OF assms(2)]
    by (simp add: fv_delete_def Let_def t_def s1_def m_def ks_def no_fault_unlink fv_set_manifest)
  have snaps: "map_of (mf_snapshots (fv_manifest s)) j = Some x \<and>
      fs_files (fv_fs t) (snapshot_path (fv_root s) j) = fs_files (fv_fs s) (snapshot_path (fv_root s) j)"
    if "map_of (mf_snapshots (fv_manifest t)) j = Some x" for j x
  proof -
    from that have j: "map_of (mf_snapshots (fv_manifest s)) j = Some x" "snap_volume x \<noteq> v"
      by (simp_all add: retained map_of_bt_retain [OF wf] split: option.splits if_splits)
    have "snapshot_path (fv_root s) j \<notin> snapshot_path (fv_root s) ` set ks"
      using live_snapshots_apart [OF assms(2) j(1)] j by (fastforce simp: cascade(1))
    with j(1) show ?thesis by (simp add: dropped) (simp add: s1_def)
  qed
  have vols: "map_of (mf_volumes (fv_manifest s)) j = Some x \<and>
      fs_files (fv_fs t) (volume_path (fv_root s) j) = fs_files (fv_fs s) (volume_path (fv_root s) j)"
    if "map_of (mf_volumes (fv_manifest t)) j = Some x" for j x
  proof -
    from that have j: "j \<noteq> v" "map_of (mf_volumes (fv_manifest s)) j = Some x"
      by (simp_all add: dropped m_def map_simps split: if_splits)
    have "volume_path (fv_root s) j \<noteq> volume_path (fv_root s) v" if "map_of (mf_volumes (fv_manifest s)) v = Some y" for y
      using live_volumes_apart [OF fv_invD(1) [OF assms(2)] j(2) that] j(1) by blast
    with j(2) show ?thesis by (auto simp: dropped s1_def)
  qed
  have "fv_abs t = fv_abs (s\<lparr>fv_manifest := fv_manifest t\<rparr>)"
    by (rule abs_files_cong [OF dropped(1) _ _ conjunct2 [OF vols] conjunct2 [OF snaps]])
      (use fv_invD(3,4) [OF assms(2)] in \<open>simp_all add: retained bt_wf_retain\<close>, simp add: dropped m_def)
  also have "\<dots> = fst (vs_delete (fv_abs s) v)"
    by (simp add: fv_abs_def vs_delete_def retained map_vals_retain [where Q = "\<lambda>_ x. snap_volume (ms_meta x) \<noteq> v"])
      (simp add: dropped m_def map_vals_remove)
  finally have abs: "fv_abs t = fst (vs_delete (fv_abs s) v)" .
  have "bodies_on_disk t"
    by (rule bodies_subset [OF fv_invD(6) [OF assms(2)] dropped(2,1) _ vols snaps]) (simp_all add: dropped m_def)
  from refines_by_save [OF assms(1) this abs] vs_delete_inv [OF fv_invD(2) [OF assms(2)]] op
  show ?thesis by (simp add: vs_delete_def)
qed

lemma fv_create_snapshot_refines:
  assumes "codec_ok enc dec" "fv_inv dec s"
  shows "map_prod fv_abs id (fv_create_snapshot enc s v name) = vs_create_snapshot (fv_abs s) v name \<and>
    fv_inv dec (fst (fv_create_snapshot enc s v name))"
proof (cases "validate_volume_name name")
  case (Err e)
  with assms show ?thesis by (simp add: fv_create_snapshot_def vs_create_snapshot_def)
next
  case valid: (Ok u)
  show ?thesis
  proof (cases "map_of (mf_volumes (fv_manifest s)) v")
    case None
    with valid assms show ?thesis by (simp add: fv_create_snapshot_def vs_create_snapshot_def fv_abs_def)
  next
    case (Some x)
    define body where "body = file_body s (volume_path (fv_root s) v)"
    define c where "c = bump v (next_snap (fv_manifest s))"
    define k where "k = v @ ''@s'' @ show_word c"
    define meta where "meta = \<lparr>snap_id = k, snap_volume = v, snap_name = name, snap_size = vol_size x\<rparr>"
    define m where "m = (fv_manifest s)\<lparr>next_snap := bt_insert v c (next_snap (fv_manifest s)),
      mf_snapshots := bt_insert k meta (mf_snapshots (fv_manifest s))\<rparr>"
    define t where "t = (fv_set (snapshot_path (fv_root s) k) (Some body) s)\<lparr>fv_manifest := m\<rparr>"
    note entry = volume_entry [OF assms(2) Some, folded body_def]
    have op: "fv_create_snapshot enc s v name = and_then (fv_save enc t) (\<lambda>s _. (s, Ok meta))"
      using valid Some entry fv_invD(5) [OF assms(2)]
      by (simp add: fv_create_snapshot_def no_fault_read_body no_fault_write_body Let_def t_def m_def meta_def
          k_def c_def body_def fv_set_manifest)
    have apart: "snapshot_path (fv_root s) j = snapshot_path (fv_root s) k \<longleftrightarrow> j = k"
      if "(j, y) \<in> set (mf_snapshots (fv_manifest s))" for j y
      using snapshots_apart [OF assms(2) _ Some, of j y c] that bt.entry_iff [OF fv_invD(4) [OF assms(2)]]
      by (auto simp: k_def)
    have "fv_abs t = (fv_abs s)\<lparr>mi_next_snap := bt_insert v c (next_snap (fv_manifest s)),
        mi_snaps := bt_insert k \<lparr>ms_meta = meta, ms_body = body\<rparr> (mi_snaps (fv_abs s))\<rparr>"
      using apart by (simp add: fv_abs_def t_def m_def map_vals_insert)
        (rule bt_insert_map_vals_cong [OF fv_invD(4) [OF assms(2)]], auto)
    moreover have "vs_create_snapshot (fv_abs s) v name = (\<dots>, Ok meta)"
      using valid Some entry(2)
      by (simp add: vs_create_snapshot_def fv_abs_def Let_def meta_def k_def c_def bump_def body_def)
    ultimately have abs: "vs_create_snapshot (fv_abs s) v name = (fv_abs t, Ok meta)" by simp
    then have "vault_inv (fv_abs t)" using vs_create_snapshot_inv [OF fv_invD(2) [OF assms(2)], of v name] by simp
    moreover have "bodies_on_disk t" using fv_invD(6) [OF assms(2)]
      by (auto simp: bodies_on_disk_def volume_on_disk_def t_def m_def map_simps)
    ultimately have "map_prod fv_abs id (fv_save enc t) = (fv_abs t, Ok ()) \<and> fv_inv dec (fst (fv_save enc t))"
      by (intro refines_by_save [OF assms(1)]) simp_all
    with op abs show ?thesis by (cases "fv_save enc t") auto
  qed
qed

text \<open>Creation: a new row with a zeroed body, under the next id of the owner.\<close>

lemma insert_row_inv:
  assumes "vault_inv g" "map_of (mi_rows g) k = None" "row_ok g k x"
  shows "vault_inv (g\<lparr>mi_rows := bt_insert k x (mi_rows g)\<rparr>)"
proof -
  let ?g = "g\<lparr>mi_rows := bt_insert k x (mi_rows g)\<rparr>"
  have "snap_ok ?g j y" if "map_of (mi_snaps g) j = Some y" for j y
    by (rule snap_ok_mono [OF vault_invD(5) [OF assms(1) that]]) (use assms(2) in \<open>auto simp: map_simps\<close>)
  moreover have "row_ok ?g j y" if "map_of (mi_rows ?g) j = Some y" for j y
    using that assms(3) vault_invD(4) [OF assms(1), of j y] row_ok_mono [of g _ _ ?g]
    by (auto simp: map_simps split: if_splits)
  ultimately show ?thesis using assms(1) by (simp add: vault_inv_def)
qed

lemma bump_fresh:
  assumes "bodies_on_disk s" "plain_owner ow" "map_of (next_per_owner (fv_manifest s)) ow \<noteq> Some (- 1)"
    and "map_of (mf_volumes (fv_manifest s)) j = Some y"
  shows "volume_path (fv_root s) j \<noteq> volume_path (fv_root s) (ow @ ''/v'' @ show_word (bump ow (next_per_owner (fv_manifest s))))"
proof
  assume eq: "volume_path (fv_root s) j = volume_path (fv_root s) (ow @ ''/v'' @ show_word (bump ow (next_per_owner (fv_manifest s))))"
  from assms(1,4) obtain c n where c: "plain_owner (vol_owner y)" "j = vol_owner y @ ''/v'' @ show_word c"
    "map_of (next_per_owner (fv_manifest s)) (vol_owner y) = Some n" "c \<le> n"
    unfolding bodies_on_disk_def volume_on_disk_def by blast
  with volume_path_inject [OF c(1) assms(2), of "fv_root s" c] eq have "vol_owner y = ow" "bump ow (next_per_owner (fv_manifest s)) = c"
    by auto
  with c(3,4) assms(3) next_gt [of n] show False by (auto simp: bump_def)
qed

lemma fv_create_refines:
  assumes "codec_ok enc dec" "fv_inv dec s" "plain_owner ow" "map_of (next_per_owner (fv_manifest s)) ow \<noteq> Some (- 1)"
    and valid: "validate_volume_name name = Ok ()" "sz \<noteq> 0" "sz \<le> MAX_VOLUME_BYTES"
  obtains s' k where "k = ow @ ''/v'' @ show_word (bump ow (next_per_owner (fv_manifest s)))"
    "fv_create enc s ow name sz = (s', Ok \<lparr>vol_id = k, vol_owner = ow, vol_name = name, vol_size = sz\<rparr>)"
    "map_of (mf_volumes (fv_manifest s)) k = None"
    "fv_abs s' = (fv_abs s)\<lparr>mi_rows := bt_insert k
       \<lparr>mv_meta = \<lparr>vol_id = k, vol_owner = ow, vol_name = name, vol_size = sz\<rparr>, mv_body = replicate (unat sz) 0\<rparr>
       (mi_rows (fv_abs s))\<rparr>"
    "fv_inv dec s'"
    "next_per_owner (fv_manifest s') = bt_insert ow (bump ow (next_per_owner (fv_manifest s))) (next_per_owner (fv_manifest s))"
proof -
  define c where "c = bump ow (next_per_owner (fv_manifest s))"
  define k where "k = ow @ ''/v'' @ show_word c"
  define meta where "meta = \<lparr>vol_id = k, vol_owner = ow, vol_name = name, vol_size = sz\<rparr>"
  define x where "x = \<lparr>mv_meta = meta, mv_body = replicate (unat sz) 0\<rparr>"
  define m where "m = (fv_manifest s)\<lparr>next_per_owner := bt_insert ow c (next_per_owner (fv_manifest s)),
    mf_volumes := bt_insert k meta (mf_volumes (fv_manifest s))\<rparr>"
  define t where "t = (fv_set (volume_path (fv_root s) k) (Some (replicate (unat sz) 0)) s)\<lparr>fv_manifest := m\<rparr>"
  note bodies = fv_invD(6) [OF assms(2)]
  have op: "fv_create enc s ow name sz = and_then (fv_save enc t) (\<lambda>s _. (s, Ok meta))"
    using valid(1,2) leD [OF valid(3)] fv_invD(5) [OF assms(2)]
    by (simp add: fv_create_def no_fault_write_body Let_def t_def m_def meta_def k_def c_def fv_set_manifest)
  have apart: "volume_path (fv_root s) j \<noteq> volume_path (fv_root s) k"
    if "map_of (mf_volumes (fv_manifest s)) j = Some y" for j y
    unfolding k_def c_def by (rule bump_fresh [OF bodies assms(3,4) that])
  then have fresh: "map_of (mf_volumes (fv_manifest s)) k = None" by (metis option.exhaust)
  have abs: "fv_abs t = (fv_abs s)\<lparr>mi_rows := bt_insert k x (mi_rows (fv_abs s))\<rparr>"
    using apart bt.entry_iff [OF fv_invD(3) [OF assms(2)]]
    by (simp add: fv_abs_def t_def m_def map_vals_insert x_def)
      (rule bt_insert_map_vals_cong [OF fv_invD(3) [OF assms(2)]], auto)
  have "row_ok (fv_abs s) k x" using valid by (auto simp: row_ok_def x_def meta_def k_def fv_abs_def word_gt_0)
  with fresh have "vault_inv (fv_abs t)"
    unfolding abs by (intro insert_row_inv fv_invD(2) [OF assms(2)]) (simp_all add: fv_abs_def)
  moreover have "volume_on_disk t j y" if "map_of (mf_volumes (fv_manifest t)) j = Some y" for j y
  proof (cases "j = k")
    case True
    with that show ?thesis using assms(3) by (auto simp: t_def m_def volume_on_disk_def map_simps meta_def k_def)
  next
    case False
    with that bodies have "volume_on_disk s j y" by (simp add: t_def m_def map_simps bodies_on_disk_def)
    then show ?thesis
      by (auto simp: t_def m_def volume_on_disk_def map_simps c_def bump_def le_saturating_add)
  qed
  then have "bodies_on_disk t" using bodies by (auto simp: bodies_on_disk_def t_def m_def)
  ultimately have "fv_inv dec (fst (fv_save enc t))" and "map_prod fv_abs id (fv_save enc t) = (fv_abs t, Ok ())"
    using refines_by_save [OF assms(1), of t] by simp_all
  moreover have "fv_manifest (fst (fv_save enc t)) = m"
    using fv_save_reload [OF assms(1), of t] by (cases "fv_save enc t") (auto simp: t_def)
  ultimately show ?thesis
    using op fresh abs by (intro that [of k "fst (fv_save enc t)"])
      (cases "fv_save enc t"; simp add: k_def c_def meta_def x_def m_def)+
qed

subsection \<open>The store on disk keeps the contract of a volume store\<close>

lemma fv_volume_store:
  assumes "codec_ok enc dec"
  shows "volume_store (\<lambda>s v off len. snd (fv_read s v off len)) fv_write (fv_create_snapshot enc)
    fv_restore_snapshot (\<lambda>s. vs_body (fv_abs s)) (\<lambda>s. vs_snap (fv_abs s)) (fv_inv dec)"
proof (unfold_locales, goal_cases)
  case (1 s v off len)
  with mem_vault.read_law [OF fv_invD(2) [OF 1]] show ?case by (simp add: fv_read_refines)
next
  case (2 s v off d e)
  then show ?case
  proof (cases "map_of (mf_volumes (fv_manifest s)) v")
    case None
    with 2 show ?thesis by (simp add: fv_write_def vs_body_abs)
  next
    case (Some m)
    with 2 fv_write_eq [OF 2(1) Some] show ?thesis by simp
  qed
next
  case (3 s v off d b)
  from mem_vault.write_ok [OF fv_invD(2) [OF 3(1)] 3(2)] fv_write_refines [OF 3(1), of v off d]
  show ?case by (cases "fv_write s v off d") auto
next
  case (4 s v name s' m)
  from fv_create_snapshot_refines [OF assms 4(1), of v name] 4(2)
  have r: "vs_create_snapshot (fv_abs s) v name = (fv_abs s', Ok m)" "fv_inv dec s'" by simp_all
  from mem_vault.snapshot_ok [OF fv_invD(2) [OF 4(1)] r(1)] r(2) show ?case by blast
next
  case (5 s k v b)
  from mem_vault.restore_ok [OF fv_invD(2) [OF 5(1)] 5(2,3)] fv_restore_refines [OF 5(1), of k]
  show ?case by (cases "fv_restore_snapshot s k") auto
qed

interpretation file_vault: volume_store "\<lambda>s v off len. snd (fv_read s v off len)" fv_write
  "fv_create_snapshot (document_enc pc_manifest)" fv_restore_snapshot "\<lambda>s. vs_body (fv_abs s)"
  "\<lambda>s. vs_snap (fv_abs s)" "fv_inv (document_dec pc_manifest)"
  by (rule fv_volume_store [OF manifest_codec_ok])

subsection \<open>Runs\<close>

lemma and_then_keeps:
  "P (fst p) \<Longrightarrow> (\<And>s a. P s \<Longrightarrow> P (fst (f s a))) \<Longrightarrow> P (fst (and_then p f))"
  by (cases p; cases "snd p") auto

lemma on_fs_manifest [simp]: "fv_manifest (fst (on_fs f s)) = fv_manifest s"
  by (simp add: on_fs_def split: prod.split)

lemma fv_save_manifest [simp]: "fv_manifest (fst (fv_save enc s)) = fv_manifest s"
  by (simp add: fv_save_def)

lemma unlink_manifest [simp]: "fv_manifest (fv_unlink p s) = fv_manifest s"
  by (simp add: fv_unlink_def)

lemma drop_snapshots_counters: "next_per_owner (fv_manifest (fold drop_snapshot ks s)) = next_per_owner (fv_manifest s)"
  by (induction ks arbitrary: s) (simp_all add: drop_snapshot_def Let_def)

lemma counters_kept:
  "next_per_owner (fv_manifest (fst (fv_write s v off d))) = next_per_owner (fv_manifest s)"
  "next_per_owner (fv_manifest (fst (fv_delete enc s v))) = next_per_owner (fv_manifest s)"
  "next_per_owner (fv_manifest (fst (fv_delete_snapshot enc s k))) = next_per_owner (fv_manifest s)"
  "next_per_owner (fv_manifest (fst (fv_restore_snapshot s k))) = next_per_owner (fv_manifest s)"
  "next_per_owner (fv_manifest (fst (fv_create_snapshot enc s v name))) = next_per_owner (fv_manifest s)"
  "next_per_owner (fv_manifest (fst (fv_flush enc s))) = next_per_owner (fv_manifest s)"
  unfolding fv_write_def fv_delete_def fv_delete_snapshot_def fv_restore_snapshot_def fv_create_snapshot_def fv_flush_def Let_def
  by (auto split: option.split result.split simp: drop_snapshots_counters
      intro!: and_then_keeps [where P = "\<lambda>t. next_per_owner (fv_manifest t) = next_per_owner (fv_manifest s)"])

definition owners_le :: "file_vault \<Rightarrow> nat \<Rightarrow> bool" where
  "owners_le s k \<longleftrightarrow> (\<forall>ow n. map_of (next_per_owner (fv_manifest s)) ow = Some n \<longrightarrow> unat n \<le> k)"

fun plain_cmd :: "fv_cmd \<Rightarrow> bool" where
  "plain_cmd (FvOp (VCreate ow _ _)) = plain_owner ow"
| "plain_cmd _ = True"

lemma fv_flush_inv: "codec_ok enc dec \<Longrightarrow> fv_inv dec s \<Longrightarrow> fv_inv dec (fst (fv_flush enc s))"
  using refines_by_save [of enc dec s, OF _ fv_invD(6)] fv_invD(2) [of dec s] by (simp add: fv_flush_def)

lemma fv_create_inv:
  assumes "codec_ok enc dec" "fv_inv dec s" "owners_le s k" "k + 1 < 2 ^ 64" "plain_owner ow"
  shows "fv_inv dec (fst (fv_create enc s ow name sz)) \<and> owners_le (fst (fv_create enc s ow name sz)) (Suc k)"
proof (cases "validate_volume_name name = Ok () \<and> sz \<noteq> 0 \<and> sz \<le> MAX_VOLUME_BYTES")
  case False
  then have "fst (fv_create enc s ow name sz) = s"
    by (cases "validate_volume_name name") (auto simp: fv_create_def not_le)
  with assms(2,3) show ?thesis by (auto simp: owners_le_def le_SucI)
next
  case True
  have room: "map_of (next_per_owner (fv_manifest s)) ow \<noteq> Some (- 1)"
    using assms(3,4) not_max [where 'l = 64, of _ k] by (auto simp: owners_le_def)
  obtain s' where "fst (fv_create enc s ow name sz) = s'" "fv_inv dec s'"
    "next_per_owner (fv_manifest s') = bt_insert ow (bump ow (next_per_owner (fv_manifest s))) (next_per_owner (fv_manifest s))"
    by (rule fv_create_refines [OF assms(1,2,5) room, of name sz]) (use True in auto)
  with assms(3) show ?thesis
    by (auto simp: owners_le_def map_simps bump_def unat_next unat_next0 le_SucI split: option.split)
qed

lemma fv_step_inv:
  assumes "codec_ok enc dec" "fv_inv dec s" "owners_le s k" "k + 1 < 2 ^ 64" "plain_cmd c"
  shows "fv_inv dec (fst (fv_step enc s c)) \<and> owners_le (fst (fv_step enc s c)) (Suc k)"
proof -
  have le: "owners_le t (Suc k)" if "next_per_owner (fv_manifest t) = next_per_owner (fv_manifest s)" for t
    using assms(3) that by (auto simp: owners_le_def le_SucI)
  show ?thesis
  proof (cases c)
    case (FvOp op)
    then show ?thesis
      using assms(5) fv_create_inv [OF assms(1-4)] fv_write_refines [OF assms(2)] fv_restore_refines [OF assms(2)]
        fv_delete_refines [OF assms(1,2)] fv_create_snapshot_refines [OF assms(1,2)]
        fv_delete_snapshot_refines [OF assms(1,2)]
      by (cases op) (simp_all add: le counters_kept)
  qed (simp add: fv_flush_inv [OF assms(1,2)] le counters_kept)
qed

lemma fv_run_inv:
  assumes "codec_ok enc dec" "fv_inv dec s" "owners_le s k" "k + length cs < 2 ^ 64" "\<forall>c \<in> set cs. plain_cmd c"
  shows "fv_inv dec (fv_run enc s cs) \<and> owners_le (fv_run enc s cs) (k + length cs)"
  using assms(2-)
proof (induction cs arbitrary: s k)
  case (Cons c cs)
  from fv_step_inv [OF assms(1) Cons.prems(1,2), of c] Cons.prems Cons.IH [of "fst (fv_step enc s c)" "Suc k"]
  show ?case by (simp add: fv_run_def)
qed (simp add: fv_run_def)

lemma fv_root_kept: "fv_root (fst (fv_step enc s c)) = fv_root s"
proof -
  have fs: "fv_root (fst (on_fs f t)) = fv_root t" for f :: "fs \<Rightarrow> fs \<times> 'a cel_result" and t
    by (simp add: on_fs_def split: prod.split)
  have save: "fv_root (fst (fv_save enc t)) = fv_root t" for t by (simp add: fv_save_def fs)
  have unlink: "fv_root (fv_unlink p t) = fv_root t" for p t by (simp add: fv_unlink_def)
  have drops: "fv_root (fold drop_snapshot ks t) = fv_root t" for ks t
    by (induction ks arbitrary: t) (simp_all add: drop_snapshot_def Let_def unlink)
  note keep = and_then_keeps [where P = "\<lambda>t. fv_root t = fv_root s"]
  note defs = fv_create_def fv_write_def fv_delete_def fv_delete_snapshot_def fv_restore_snapshot_def
    fv_create_snapshot_def fv_flush_def Let_def
  show ?thesis
    by (cases "(enc, s, c)" rule: fv_step.cases)
      (auto simp: defs on_fs_def save unlink drops split: prod.split option.split result.split intro!: keep)
qed

lemma fv_run_root: "fv_root (fv_run enc s cs) = fv_root s"
  by (induction cs arbitrary: s) (simp_all add: fv_run_def fv_root_kept)

lemma fresh_store:
  assumes "open_or_create dec root \<lparr>fs_files = Map.empty, fs_faults = []\<rparr> = (w, Ok s)"
  shows "fv_inv dec s" "owners_le s 0" "fv_root s = root" "fv_reload dec s = Ok (fv_manifest s)"
  using assms vault_inv_new
  by (auto simp: open_or_create_def load_manifest_def Let_def fs_simps fv_inv_def on_disk_def bodies_on_disk_def
      manifest_default_def fv_reload_eq vault_inv_def fv_abs_def owners_le_def map_vals_def)

lemma reopen_inv:
  assumes "fv_inv dec s"
  shows "open_or_create dec (fv_root s) (fv_fs s) = (fv_fs s, Ok s)"
proof -
  have "(fv_fs s)\<lparr>fs_faults := []\<rparr> = fv_fs s" using fv_invD(5) [OF assms] by simp
  moreover have "fst (load_manifest dec (fv_root s) (fv_fs s)) = fv_fs s"
    using fv_invD(5) [OF assms] by (auto simp: load_manifest_def Let_def fs_simps split: result.split)
  moreover have "snd (load_manifest dec (fv_root s) ((fv_fs s)\<lparr>fs_faults := []\<rparr>)) = Ok (fv_manifest s)"
    using fv_invD(1) [OF assms] by (simp add: on_disk_def fv_reload_def)
  ultimately have "load_manifest dec (fv_root s) (fv_fs s) = (fv_fs s, Ok (fv_manifest s))"
    by (metis prod.collapse)
  with fv_invD(5) [OF assms] show ?thesis by (simp add: open_or_create_def fs_simps)
qed

lemma fold_check_body:
  assumes "fs_faults w = []" "\<And>k m. (k, m) \<in> set xs \<Longrightarrow> \<exists>b. fs_files w (path k) = Some b \<and> length b = unat (sz m)"
  shows "fold (\<lambda>(k, m). check_body kind k (path k) (sz m)) xs (w, []) = (w, [])"
  using assms
proof (induction xs)
  case (Cons x xs)
  obtain k m where x: "x = (k, m)" by fastforce
  from Cons.prems(2) [of k m] x obtain b where "fs_files w (path k) = Some b" "length b = unat (sz m)" by auto
  then have "check_body kind k (path k) (sz m) (w, []) = (w, [])"
    using Cons.prems(1) by (simp add: check_body_def fs_simps)
  with Cons x show ?case by simp
qed simp

lemma fv_inv_clean:
  assumes "fv_inv dec s"
  shows "is_clean (snd (fv_integrity_check s))"
proof -
  have "fold (\<lambda>(k, m). check_body ''volume'' k (volume_path (fv_root s) k) (vol_size m))
      (mf_volumes (fv_manifest s)) (fv_fs s, []) = (fv_fs s, [])"
    using volume_entry [OF assms]
    by (intro fold_check_body fv_invD(5) [OF assms]) (auto simp: bt.entry_iff [OF fv_invD(3) [OF assms]])
  moreover have "\<exists>b. fs_files (fv_fs s) (snapshot_path (fv_root s) k) = Some b \<and> length b = unat (snap_size m)"
    if "map_of (mf_snapshots (fv_manifest s)) k = Some m" for k m
    using on_diskD(4) [OF fv_invD(1) [OF assms] that] live_snapshot [OF assms that]
    by (metis file_body_def option.case_eq_if option.collapse)
  then have "fold (\<lambda>(k, m). check_body ''snapshot'' k (snapshot_path (fv_root s) k) (snap_size m))
      (mf_snapshots (fv_manifest s)) (fv_fs s, []) = (fv_fs s, [])"
    by (intro fold_check_body fv_invD(5) [OF assms]) (auto simp: bt.entry_iff [OF fv_invD(4) [OF assms]])
  ultimately show ?thesis by (simp add: fv_integrity_check_def Let_def is_clean_def)
qed

text \<open>A store whose disk dies in the middle of its second operation.\<close>

definition dying_store :: file_vault where
  "dying_store = \<lparr>fv_root = ''r'', fv_manifest = manifest_default,
     fv_fs = \<lparr>fs_files = Map.empty, fs_faults = replicate 8 None @ replicate 9 (Some (''EIO'', 1))\<rparr>\<rparr>"

definition dying_cmds :: "fv_cmd list" where
  "dying_cmds = [FvOp (VCreate ''n1'' ''a'' 4), FvOp (VDelete ''n1/v1'')]"

lemma dying_store_reload: "fv_reload dec dying_store = Ok (fv_manifest dying_store)"
  by (simp add: fv_reload_eq dying_store_def)

text \<open>
  C11. Crash safety of the manifest. Whatever calls of the operating system fail during a run of the
  store - and a crash is every call failing from some point on - the manifest file parses, and what
  it holds is the manifest the store had in memory after some prefix of the run; no creation, deletion, snapshot
  or flush that the store acknowledged lies past that prefix.
\<close>

theorem vault_recovers_after_crash:
  assumes "codec_ok enc dec" "fv_reload dec s = Ok (fv_manifest s)"
  shows "\<exists>k \<le> length cs. fv_reload dec (fv_run enc s cs) = Ok (fv_manifest (fv_run enc s (take k cs))) \<and>
    (\<forall>i < length cs. k \<le> i \<longrightarrow> fv_saves (cs ! i) \<longrightarrow>
       \<not> is_ok (snd (fv_step enc (fv_run enc s (take i cs)) (cs ! i))))"
  by (rule saved_document.run_recovers [OF fv_saved_document [OF assms(1)] TrueI assms(2)])

theorem vault_recovers_after_crash_witness:
  "\<exists>k \<le> length dying_cmds. fv_reload (document_dec pc_manifest) (fv_run (document_enc pc_manifest) dying_store dying_cmds) =
     Ok (fv_manifest (fv_run (document_enc pc_manifest) dying_store (take k dying_cmds)))"
  using vault_recovers_after_crash [OF manifest_codec_ok dying_store_reload, of dying_cmds] by blast

lemma abs_queries:
  "vs_list (fv_abs s) = fv_list s" "vs_get (fv_abs s) v = fv_get s v"
  "vs_list_snapshots (fv_abs s) vo = fv_list_snapshots s vo"
proof -
  show "vs_get (fv_abs s) v = fv_get s v"
    by (simp add: vs_get_def fv_get_def fv_abs_def option.map_comp comp_def option.map_ident)
  show "vs_list (fv_abs s) = fv_list s"
    by (simp add: vs_list_def fv_list_def fv_abs_def map_values_def map_vals_def case_prod_unfold comp_def)
  show "vs_list_snapshots (fv_abs s) vo = fv_list_snapshots s vo"
    by (cases vo) (simp_all add: vs_list_snapshots_def fv_list_snapshots_def fv_abs_def map_values_def map_vals_def
        case_prod_unfold comp_def filter_map)
qed

lemma run_from_empty:
  assumes "codec_ok enc dec" "open_or_create dec root \<lparr>fs_files = Map.empty, fs_faults = []\<rparr> = (w, Ok s0)"
    and "\<forall>c \<in> set cs. plain_cmd c" "length cs < 2 ^ 64"
  shows "fv_inv dec (fv_run enc s0 cs)" "owners_le (fv_run enc s0 cs) (length cs)"
  using fv_run_inv [OF assms(1) fresh_store(1,2) [OF assms(2)], of cs] assms(3,4) by simp_all


lemma open_empty_root:
  "open_or_create dec root \<lparr>fs_files = Map.empty, fs_faults = []\<rparr> =
     (\<lparr>fs_files = Map.empty, fs_faults = []\<rparr>,
      Ok \<lparr>fv_root = root, fv_manifest = manifest_default, fv_fs = \<lparr>fs_files = Map.empty, fs_faults = []\<rparr>\<rparr>)"
  by (simp add: open_or_create_def load_manifest_def Let_def fs_simps)

definition empty_vault :: file_vault where
  "empty_vault = \<lparr>fv_root = ''r'', fv_manifest = manifest_default, fv_fs = \<lparr>fs_files = Map.empty, fs_faults = []\<rparr>\<rparr>"




subsection \<open>Where the code falls short\<close>

lemma write_body_Ok: "write_body p b w = (w', Ok u) \<Longrightarrow> fs_files w' = (fs_files w)(p \<mapsto> b)"
  by (auto simp: write_body_def and_then_eq_Ok dest!: call_Ok(1-3))

text \<open>What an acknowledged creation did, whatever the file system.\<close>

lemma fv_create_Ok:
  assumes "fv_create enc s ow name sz = (s', Ok m)"
  obtains b where "vol_id m = ow @ ''/v'' @ show_word (bump ow (next_per_owner (fv_manifest s)))"
    "fv_root s' = fv_root s"
    "fv_manifest s' = (fv_manifest s)
       \<lparr>next_per_owner := bt_insert ow (bump ow (next_per_owner (fv_manifest s))) (next_per_owner (fv_manifest s)),
        mf_volumes := bt_insert (vol_id m) m (mf_volumes (fv_manifest s))\<rparr>"
    "fs_files (fv_fs s') = (fs_files (fv_fs s))(volume_path (fv_root s) (vol_id m) \<mapsto> replicate (unat sz) 0,
       manifest_tmp (fv_root s) := None, manifest_path (fv_root s) \<mapsto> b)"
  using assms
  by (auto simp: fv_create_def Let_def and_then_eq_Ok on_fs_eq fv_save_def
      split: result.splits if_splits dest!: write_body_Ok elim!: save_manifest_Ok)

lemma fv_write_keeps: "fv_root (fst (fv_write s v off d)) = fv_root s" "fv_manifest (fst (fv_write s v off d)) = fv_manifest s"
  using fv_root_kept [of undefined s "FvOp (VWrite v off d)"]
  by (auto simp: fv_write_def Let_def split: option.split
      intro!: and_then_keeps [where P = "\<lambda>t. fv_manifest t = fv_manifest s"])

text \<open>
  Two owners can share a body file. \<^verbatim>\<open>safe_id\<close> maps the characters \<^verbatim>\<open>/\<close>, \<^verbatim>\<open>@\<close>, \<^verbatim>\<open>:\<close> and the
  backslash to an underscore, so distinct owners such as \<^verbatim>\<open>n/1\<close> and \<^verbatim>\<open>n_1\<close> give their volumes the same
  file. Creating the second owner's volume succeeds and zeroes the bytes the first had
  written, while the manifest still lists the first volume.
\<close>

lemma colliding_owners_lose_data:
  assumes "ow \<noteq> ow'" "safe_id ow = safe_id ow'"
    and "map_of (next_per_owner (fv_manifest s)) ow = map_of (next_per_owner (fv_manifest s)) ow'"
    and "fv_create enc s ow name sz = (s1, Ok m)"
    and "fv_write s1 (vol_id m) off d = (s2, Ok ())"
    and "fv_create enc s2 ow' name' sz' = (s3, Ok m')"
  shows "vol_id m \<noteq> vol_id m' \<and> fv_get s3 (vol_id m) = Some m \<and>
    fs_files (fv_fs s3) (volume_path (fv_root s3) (vol_id m)) = Some (replicate (unat sz') 0)"
proof -
  define c where "c = bump ow (next_per_owner (fv_manifest s))"
  have s2: "fv_manifest s2 = fv_manifest s1" "fv_root s2 = fv_root s1"
    using fv_write_keeps [of s1 "vol_id m" off d] assms(5) by simp_all
  obtain b where m: "vol_id m = ow @ ''/v'' @ show_word c" "fv_root s1 = fv_root s"
    "fv_manifest s1 = (fv_manifest s)\<lparr>next_per_owner := bt_insert ow c (next_per_owner (fv_manifest s)),
      mf_volumes := bt_insert (vol_id m) m (mf_volumes (fv_manifest s))\<rparr>"
    using fv_create_Ok [OF assms(4)] unfolding c_def by metis
  have c': "bump ow' (next_per_owner (fv_manifest s2)) = c"
    using assms(1,3) by (simp add: s2 m(3) bump_def map_simps c_def)
  obtain b' where m': "vol_id m' = ow' @ ''/v'' @ show_word c" "fv_root s3 = fv_root s2"
    "mf_volumes (fv_manifest s3) = bt_insert (vol_id m') m' (mf_volumes (fv_manifest s2))"
    "fs_files (fv_fs s3) = (fs_files (fv_fs s2))(volume_path (fv_root s2) (vol_id m') \<mapsto> replicate (unat sz') 0,
       manifest_tmp (fv_root s2) := None, manifest_path (fv_root s2) \<mapsto> b')"
    by (rule fv_create_Ok [OF assms(6), unfolded c']) simp
  have "volume_path (fv_root s3) (vol_id m) = volume_path (fv_root s2) (vol_id m')"
    using assms(2) by (simp add: m m' volume_path_def)
  moreover have "vol_id m \<noteq> vol_id m'" using assms(1) by (simp add: m(1) m'(1))
  ultimately show ?thesis by (simp add: fv_get_def m' s2 m(3) map_simps)
qed

lemmas fv_eval = fv_create_def fv_write_def fv_save_def save_manifest_def write_body_def on_fs_def Let_def
  fs_simps validate_volume_name_def MAX_NAME_def MAX_VOLUME_BYTES_def bump_def show_word_def show_nat_1 str_simps
  saturating_add_def document_enc_def manifest_default_def

lemma colliding_owners_example:
  "\<exists>s1 m s2 s3 m'. fv_create (document_enc pc_manifest) empty_vault ''n/1'' ''a'' 2 = (s1, Ok m) \<and>
     fv_write s1 (vol_id m) 0 [7] = (s2, Ok ()) \<and>
     fv_create (document_enc pc_manifest) s2 ''n_1'' ''b'' 2 = (s3, Ok m') \<and>
     fs_files (fv_fs s3) (volume_path (fv_root s3) (vol_id m)) = Some (replicate (unat (2 :: u64)) 0)"
proof -
  obtain s1 m where 1: "fv_create (document_enc pc_manifest) empty_vault ''n/1'' ''a'' 2 = (s1, Ok m)"
    by (simp add: fv_eval empty_vault_def)
  then have "\<exists>s2. fv_write s1 (vol_id m) 0 [7] = (s2, Ok ())"
    by (auto simp: fv_eval empty_vault_def volume_path_def manifest_path_def manifest_tmp_def)
  then obtain s2 where 2: "fv_write s1 (vol_id m) 0 [7] = (s2, Ok ())" by blast
  have "\<exists>s3 m'. fv_create (document_enc pc_manifest) s2 ''n_1'' ''b'' 2 = (s3, Ok m')"
    using 1 2 by (auto simp: fv_eval empty_vault_def volume_path_def manifest_path_def manifest_tmp_def)
  then obtain s3 m' where 3: "fv_create (document_enc pc_manifest) s2 ''n_1'' ''b'' 2 = (s3, Ok m')" by blast
  from colliding_owners_lose_data [OF _ _ _ 1 2 3] 1 2 3 show ?thesis
    by (auto simp: empty_vault_def manifest_default_def)
qed

text \<open>
  A lookup of the manifest that fails counts as no manifest: the store opens empty, without an error,
  and its next save overwrites the manifest it could not see.
\<close>

lemma unreadable_manifest_opens_empty:
  assumes "fs_faults w = [None, None, Some (e, k)]"
  shows "\<exists>w'. open_or_create dec root w = (w', Ok \<lparr>fv_root = root, fv_manifest = manifest_default, fv_fs = w'\<rparr>) \<and>
    fs_files w' = fs_files w"
  using assms
  by (simp add: open_or_create_def load_manifest_def Let_def fs_step_def fs_call_def fs_exists_def fs_metadata_len_def)

end
