(* ===== verification/File_Tenants.thy ===== *)
theory File_Tenants
  imports Tenant_Runs File_System Plain_Codec
begin

text \<open>
  The persistent tenant store, \<^verbatim>\<open>FileTenantStore\<close> of \<^verbatim>\<open>celtenancy/src/store.rs\<close>: the state of the
  in-memory store behind the same operations, saved as one JSON document after each of them. The
  codec is a pair of arguments; the faults are those of \<open>File_System\<close>. A hash map read back
  from the document is the same map; the model keeps its entries in the same order, on which no
  operation relies.
\<close>

subsection \<open>The store\<close>

record file_tenant_store =
  ft_path :: string
  ft_state :: store_state
  ft_fs :: fs

text \<open>
  \<^verbatim>\<open>Path::with_extension\<close> on a path whose last component is an ordinary file name: what follows the
  last dot of the name is replaced, a leading dot not counting.
\<close>

definition file_name :: "string \<Rightarrow> string" where
  "file_name p = rev (takeWhile (\<lambda>c. c \<noteq> CHR ''/'') (rev p))"

definition file_stem :: "string \<Rightarrow> string" where
  "file_stem n =
     (let stem = rev (tl (dropWhile (\<lambda>c. c \<noteq> CHR ''.'') (rev n)))
      in if CHR ''.'' \<in> set (tl n) then stem else n)"

definition with_extension :: "string \<Rightarrow> string \<Rightarrow> string" where
  "with_extension p ext =
     (let n = file_name p in take (length p - length n) p @ file_stem n @ ''.'' @ ext)"

definition store_error :: "string \<Rightarrow> string \<Rightarrow> string \<Rightarrow> cel_error" where
  "store_error what path e = Storage (''tenant store '' @ what @ '' '' @ path @ '': '' @ e)"

definition path_parent :: "string \<Rightarrow> string" where
  "path_parent p =
     (let d = take (length p - length (file_name p)) p
      in if d = ''/'' then d else butlast d)"

definition ft_open :: "store_state decoder \<Rightarrow> string \<Rightarrow> fs \<Rightarrow> fs \<times> file_tenant_store cel_result" where
  "ft_open dec path w =
     (let (w, found) = fs_exists path w
      in and_then
           (if found then
              and_then (on_error (store_error ''read'' path) (fs_open path w)) (\<lambda>w _.
              and_then (on_error (store_error ''read'' path) (fs_read_to_end path w)) (\<lambda>w bs.
              if bs = [] then (w, Ok store_state_default)
              else (w, map_err (store_error ''parse'' path) (dec bs))))
            else (w, Ok store_state_default))
           (\<lambda>w st. (w, Ok \<lparr>ft_path = path, ft_state = st, ft_fs = w\<rparr>)))"

definition ft_persist :: "store_state encoder \<Rightarrow> string \<Rightarrow> store_state \<Rightarrow> fs \<Rightarrow> fs \<times> unit cel_result" where
  "ft_persist enc path st w =
     (let tmp = with_extension path ''tmp'';
          parent = path_parent path
      in and_then (w, map_err (\<lambda>e. Storage (''tenant store encode: '' @ e)) (enc st)) (\<lambda>w bs.
         and_then (if parent = [] then (w, Ok ())
                   else on_error (store_error ''mkdir'' parent) (fs_step w)) (\<lambda>w _.
         and_then (on_error (store_error ''tmp'' tmp) (fs_create tmp w)) (\<lambda>w _.
         and_then (on_error (store_error ''write'' tmp) (fs_write_at tmp 0 bs w)) (\<lambda>w _.
         and_then (on_error (store_error ''fsync'' tmp) (fs_step w)) (\<lambda>w _.
         on_error (store_error ''rename'' path) (fs_rename tmp path w)))))))"

text \<open>
  \<^verbatim>\<open>with_state\<close>: run the operation on the locked state; on an error return it without saving, on
  success save the whole state before answering.
\<close>

definition with_state ::
  "store_state encoder \<Rightarrow> (store_state \<Rightarrow> store_state \<times> 'a cel_result) \<Rightarrow> file_tenant_store \<Rightarrow> file_tenant_store \<times> 'a cel_result" where
  "with_state enc f s =
     (let (st, r) = f (ft_state s); s = s\<lparr>ft_state := st\<rparr>
      in case r of
           Err e \<Rightarrow> (s, Err e)
         | Ok a \<Rightarrow> (case ft_persist enc (ft_path s) st (ft_fs s) of
                     (w, Err e) \<Rightarrow> (s\<lparr>ft_fs := w\<rparr>, Err e)
                   | (w, Ok _) \<Rightarrow> (s\<lparr>ft_fs := w\<rparr>, Ok a)))"

subsection \<open>The operations of the trait\<close>

definition ft_get :: "file_tenant_store \<Rightarrow> tenant_id \<Rightarrow> tenant cel_result" where
  "ft_get s tid = ok_or (Invalid ''tenant id unknown'') (map_of (st_tenants (ft_state s)) tid)"

definition ft_get_by_name :: "file_tenant_store \<Rightarrow> string \<Rightarrow> tenant cel_result" where
  "ft_get_by_name s name =
     bind_result (ok_or (Invalid ''tenant name unknown'') (map_of (by_name (ft_state s)) name))
       (\<lambda>tid. ok_or (Internal ''tenant index out of sync'') (map_of (st_tenants (ft_state s)) tid))"

definition ft_list :: "file_tenant_store \<Rightarrow> tenant list" where
  "ft_list s = sort_key tn_id (map_values (st_tenants (ft_state s)))"

text \<open>
  The other methods pass their closure to \<^verbatim>\<open>with_state\<close>; also the two that only read the state,
  authentication and token validation, save it before they answer.
\<close>

datatype ft_cmd =
    FtOp store_cmd
  | FtAuthenticate string string string
  | FtValidate u64 session_token

definition unit_result :: "store_state \<times> 'a cel_result \<Rightarrow> store_state \<times> unit cel_result" where
  "unit_result p = map_prod id (map_result id (\<lambda>_. ())) p"

fun ft_closure ::
  "(string \<Rightarrow> password_hash option) \<Rightarrow> (string \<Rightarrow> password_hash \<Rightarrow> bool) \<Rightarrow> (session_token \<Rightarrow> token_hash) \<Rightarrow>
   ft_cmd \<Rightarrow> store_state \<Rightarrow> store_state \<times> unit cel_result" where
  "ft_closure argon argon_ok ht (FtOp (TCreate spec caps)) st = unit_result (st_create st spec caps)"
| "ft_closure argon argon_ok ht (FtOp (TDelete tid)) st = st_delete st tid"
| "ft_closure argon argon_ok ht (FtOp (TAddUser tid name caps)) st = unit_result (st_add_user st tid name caps)"
| "ft_closure argon argon_ok ht (FtOp (TRemoveUser tid uid)) st = st_remove_user st tid uid"
| "ft_closure argon argon_ok ht (FtOp (TCharge tid c)) st = unit_result (st_charge st tid c)"
| "ft_closure argon argon_ok ht (FtOp (TRelease tid c)) st = unit_result (st_release st tid c)"
| "ft_closure argon argon_ok ht (FtOp (TSetPassword tid uid plain)) st = st_set_password argon st tid uid plain"
| "ft_closure argon argon_ok ht (FtOp (TCreateSession raw now tid uid req ttl)) st =
     unit_result (st_create_session ht raw now st tid uid req ttl)"
| "ft_closure argon argon_ok ht (FtOp (TRevokeToken tok)) st = st_revoke_token ht st tok"
| "ft_closure argon argon_ok ht (FtOp (TPurge now)) st =
     (let (st, _) = st_purge_expired_sessions now st in (st, Ok ()))"
| "ft_closure argon argon_ok ht (FtOp (TRevokeUser tid uid)) st = unit_result (st_revoke_user_sessions st tid uid)"
| "ft_closure argon argon_ok ht (FtOp (TRevokeTenant tid)) st = unit_result (st_revoke_tenant_sessions st tid)"
| "ft_closure argon argon_ok ht (FtOp (TRotate tid caps)) st = unit_result (st_rotate_root_caps st tid caps)"
| "ft_closure argon argon_ok ht (FtOp (TDeleteRecursive tid)) st = unit_result (st_delete_tenant_recursive st tid)"
| "ft_closure argon argon_ok ht (FtAuthenticate tn un pw) st = unit_result (st, st_authenticate argon_ok st tn un pw)"
| "ft_closure argon argon_ok ht (FtValidate now tok) st = unit_result (st, st_validate_token ht now st tok)"

definition ft_step ::
  "store_state encoder \<Rightarrow> (string \<Rightarrow> password_hash option) \<Rightarrow> (string \<Rightarrow> password_hash \<Rightarrow> bool) \<Rightarrow>
   (session_token \<Rightarrow> token_hash) \<Rightarrow> file_tenant_store \<Rightarrow> ft_cmd \<Rightarrow> file_tenant_store \<times> unit cel_result" where
  "ft_step enc argon argon_ok ht s c = with_state enc (ft_closure argon argon_ok ht c) s"

definition ft_run ::
  "store_state encoder \<Rightarrow> (string \<Rightarrow> password_hash option) \<Rightarrow> (string \<Rightarrow> password_hash \<Rightarrow> bool) \<Rightarrow>
   (session_token \<Rightarrow> token_hash) \<Rightarrow> file_tenant_store \<Rightarrow> ft_cmd list \<Rightarrow> file_tenant_store" where
  "ft_run enc argon argon_ok ht s cs = foldl (\<lambda>s c. fst (ft_step enc argon argon_ok ht s c)) s cs"

text \<open>The commands of a run that change the state.\<close>

fun ft_ops :: "ft_cmd list \<Rightarrow> store_cmd list" where
  "ft_ops [] = []"
| "ft_ops (FtOp c # cs) = c # ft_ops cs"
| "ft_ops (_ # cs) = ft_ops cs"

text \<open>What opening the path again, without failures, finds.\<close>

definition ft_reload :: "store_state decoder \<Rightarrow> file_tenant_store \<Rightarrow> store_state cel_result" where
  "ft_reload dec s = map_result id ft_state (snd (ft_open dec (ft_path s) ((ft_fs s)\<lparr>fs_faults := []\<rparr>)))"

subsection \<open>The document\<close>

lemma ft_reload_eq:
  "ft_reload dec s =
     (case fs_files (ft_fs s) (ft_path s) of
        None \<Rightarrow> Ok store_state_default
      | Some b \<Rightarrow> if b = [] then Ok store_state_default else map_err (store_error ''parse'' (ft_path s)) (dec b))"
  by (cases "fs_files (ft_fs s) (ft_path s)"; cases "dec (the (fs_files (ft_fs s) (ft_path s)))")
    (simp_all add: ft_reload_def ft_open_def Let_def fs_simps)

lemma ft_reload_cong:
  "ft_path t = ft_path s \<Longrightarrow> fs_files (ft_fs t) (ft_path s) = fs_files (ft_fs s) (ft_path s) \<Longrightarrow>
     ft_reload dec t = ft_reload dec s"
  by (simp add: ft_reload_eq split: option.split)

lemma persist_Ok:
  assumes "ft_persist enc path st w = (w', Ok ())"
  obtains b where "enc st = Ok b" "fs_files w' path = Some b"
  using assms
  by (auto simp: ft_persist_def Let_def and_then_eq_Ok split: if_splits dest!: call_Ok(1-3) dest: call_Ok(4))

lemma persist_Err:
  assumes "ft_persist enc path st w = (w', Err e)" "with_extension path ''tmp'' \<noteq> path"
  shows "fs_files w' path = fs_files w path"
  using assms unfolding ft_persist_def Let_def and_then_eq_Err
  by (auto simp: call_elsewhere split: if_splits)

text \<open>
  What the store relies on from \<^verbatim>\<open>serde_json\<close>: a state prints to a document that is not empty and
  reads back.
\<close>

definition store_codec :: "store_state encoder \<Rightarrow> store_state decoder \<Rightarrow> bool" where
  "store_codec enc dec \<longleftrightarrow> codec_ok enc dec \<and> (\<forall>st. enc st \<noteq> Ok [])"

lemma with_state_cases:
  assumes "with_state enc f s = (s', r)" "f (ft_state s) = (st, r0)"
  obtains (refused) e where "r0 = Err e" "r = Err e" "s' = s\<lparr>ft_state := st\<rparr>"
    | (unsaved) a w e where "r0 = Ok a" "ft_persist enc (ft_path s) st (ft_fs s) = (w, Err e)" "r = Err e"
        "s' = s\<lparr>ft_state := st, ft_fs := w\<rparr>"
    | (saved) a w where "r0 = Ok a" "ft_persist enc (ft_path s) st (ft_fs s) = (w, Ok ())" "r = Ok a"
        "s' = s\<lparr>ft_state := st, ft_fs := w\<rparr>"
  using assms by (auto simp: with_state_def Let_def split: result.splits prod.splits)

lemma with_state_document:
  assumes "store_codec enc dec" "with_extension (ft_path s) ''tmp'' \<noteq> ft_path s" "with_state enc f s = (s', r)"
  shows "ft_reload dec s' = ft_reload dec s \<or> ft_reload dec s' = Ok (ft_state s')"
    and "is_ok r \<Longrightarrow> ft_reload dec s' = Ok (ft_state s')"
    and "ft_path s' = ft_path s" "ft_state s' = fst (f (ft_state s))"
proof -
  obtain st r0 where f: "f (ft_state s) = (st, r0)" by fastforce
  have "(ft_reload dec s' = ft_reload dec s \<and> \<not> is_ok r \<or> ft_reload dec s' = Ok (ft_state s')) \<and>
      ft_path s' = ft_path s \<and> ft_state s' = st"
    using assms(3) f
  proof (cases rule: with_state_cases)
    case (unsaved a w e)
    with persist_Err [OF unsaved(2) assms(2)] ft_reload_cong [of s' s dec] show ?thesis by simp
  next
    case (saved a w)
    obtain b where "enc st = Ok b" "fs_files w (ft_path s) = Some b" by (rule persist_Ok [OF saved(2)])
    with saved assms(1) show ?thesis by (auto simp: store_codec_def codec_ok_def ft_reload_eq) (metis result.inject(2))+
  qed (use ft_reload_cong [of s' s dec] in simp)
  then show "ft_reload dec s' = ft_reload dec s \<or> ft_reload dec s' = Ok (ft_state s')"
    "is_ok r \<Longrightarrow> ft_reload dec s' = Ok (ft_state s')" "ft_path s' = ft_path s" "ft_state s' = fst (f (ft_state s))"
    by (auto simp: f)
qed

text \<open>Names the proofs share: a path that is not its own temporary file.\<close>

definition separate_tmp :: "file_tenant_store \<Rightarrow> bool" where
  "separate_tmp s \<longleftrightarrow> with_extension (ft_path s) ''tmp'' \<noteq> ft_path s"

lemma ft_saved_document:
  assumes "store_codec enc dec"
  shows "saved_document (ft_step enc argon argon_ok ht) (ft_reload dec) ft_state (\<lambda>_. True)
    (ft_run enc argon argon_ok ht) separate_tmp"
proof (unfold_locales, goal_cases)
  case (3 s c s' r)
  then show ?case using with_state_document(3) [OF assms, of s _ s' r] by (simp add: separate_tmp_def ft_step_def)
next
  case (4 s c s' r)
  then show ?case using with_state_document(1) [OF assms] by (simp add: separate_tmp_def ft_step_def)
next
  case (5 s c s')
  then show ?case using with_state_document(2) [OF assms, of s _ s' "Ok ()"] by (simp add: separate_tmp_def ft_step_def)
qed (simp_all add: ft_run_def)

text \<open>In memory the file store is the in-memory store, whatever fails.\<close>

lemma with_state_state: "ft_state (fst (with_state enc f s)) = fst (f (ft_state s))"
  by (auto simp: with_state_def Let_def split: result.splits prod.splits)

lemma closure_op: "fst (ft_closure argon argon_ok ht (FtOp c) st) = store_exec argon ht st c"
  by (cases c) (simp_all add: unit_result_def split: prod.split)

lemma closure_query:
  "fst (ft_closure argon argon_ok ht (FtAuthenticate a b p) st) = st"
  "fst (ft_closure argon argon_ok ht (FtValidate now tok) st) = st"
  by (simp_all add: unit_result_def)

lemma ft_run_state: "ft_state (ft_run enc argon argon_ok ht s cs) = foldl (store_exec argon ht) (ft_state s) (ft_ops cs)"
proof (induction cs arbitrary: s)
  case (Cons c cs)
  then show ?case
    by (cases c) (simp_all add: ft_run_def ft_step_def with_state_state closure_op closure_query del: ft_closure.simps)
qed (simp add: ft_run_def)

text \<open>A codec for the state.\<close>

definition pc_user :: "user pcodec" where
  "pc_user = pc_via (\<lambda>u. (us_id u, us_name u, us_caps u, us_password_hash u))
     (\<lambda>(i, n, c, h). \<lparr>us_id = i, us_name = n, us_caps = c, us_password_hash = h\<rparr>)
     (pc_pair pc_word (pc_pair pc_string (pc_pair pc_word (pc_option pc_string))))"

definition pc_quotas :: "tenant_quotas pcodec" where
  "pc_quotas = pc_via (\<lambda>q. (max_vcpus q, max_memory_mib q, max_storage_bytes q, max_network_mbps q, max_iops q))
     (\<lambda>(a, b, c, d, e). \<lparr>max_vcpus = a, max_memory_mib = b, max_storage_bytes = c, max_network_mbps = d, max_iops = e\<rparr>)
     (pc_pair pc_word (pc_pair pc_word (pc_pair pc_word (pc_pair pc_word pc_word))))"

definition pc_usage :: "quota_usage pcodec" where
  "pc_usage = pc_via (\<lambda>q. (qu_vcpus q, qu_memory_mib q, qu_storage_bytes q, qu_network_mbps q, qu_iops q))
     (\<lambda>(a, b, c, d, e). \<lparr>qu_vcpus = a, qu_memory_mib = b, qu_storage_bytes = c, qu_network_mbps = d, qu_iops = e\<rparr>)
     (pc_pair pc_word (pc_pair pc_word (pc_pair pc_word (pc_pair pc_word pc_word))))"

definition pc_tenant :: "tenant pcodec" where
  "pc_tenant = pc_via
     (\<lambda>t. (tn_id t, tn_name t, tn_namespace t, tn_root_caps t, tn_users t, tn_quotas t, tn_usage t, tn_parent t))
     (\<lambda>(i, n, ns, rc, us, q, u, p). \<lparr>tn_id = i, tn_name = n, tn_namespace = ns, tn_root_caps = rc, tn_users = us,
        tn_quotas = q, tn_usage = u, tn_parent = p\<rparr>)
     (pc_pair pc_word (pc_pair pc_string (pc_pair pc_string (pc_pair pc_word (pc_pair (pc_list pc_user)
        (pc_pair pc_quotas (pc_pair pc_usage (pc_option pc_word))))))))"

definition pc_session :: "session pcodec" where
  "pc_session = pc_via
     (\<lambda>s. (ss_token_hash s, ss_tenant s, ss_user s, ss_user_name s, ss_caps s, ss_created_ms s, ss_expires_ms s))
     (\<lambda>(h, t, u, n, c, a, b). \<lparr>ss_token_hash = h, ss_tenant = t, ss_user = u, ss_user_name = n, ss_caps = c,
        ss_created_ms = a, ss_expires_ms = b\<rparr>)
     (pc_pair (pc_list pc_byte) (pc_pair pc_word (pc_pair pc_word (pc_pair pc_string (pc_pair pc_word
        (pc_pair pc_word pc_word))))))"

definition pc_store :: "store_state pcodec" where
  "pc_store = pc_via
     (\<lambda>s. (next_tenant_id s, next_user_id s, st_tenants s, by_name s, st_sessions s))
     (\<lambda>(a, b, t, n, ss). \<lparr>next_tenant_id = a, next_user_id = b, st_tenants = t, by_name = n, st_sessions = ss\<rparr>)
     (pc_pair pc_word (pc_pair pc_word (pc_pair (pc_list (pc_pair pc_word pc_tenant))
        (pc_pair (pc_list (pc_pair pc_string pc_word)) (pc_list pc_session)))))"

lemma pc_law_store: "pc_law pc_store"
  unfolding pc_store_def pc_session_def pc_tenant_def pc_usage_def pc_quotas_def pc_user_def
  by (intro pc_law_via pc_laws) simp_all

lemma store_codec_plain: "store_codec (document_enc pc_store) (document_dec pc_store)"
proof -
  have "codec_ok (document_enc pc_store) (document_dec pc_store)"
    unfolding codec_ok_def using document_roundtrip [OF pc_law_store] by blast
  moreover have "fst pc_store st \<noteq> []" for st
    by (simp add: pc_store_def pc_via_def pc_pair_def pc_word_def pc_string_def pc_list_def)
  ultimately show ?thesis by (simp add: store_codec_def document_enc_def)
qed

interpretation plain_tenants: saved_document "ft_step (document_enc pc_store) argon argon_ok ht"
  "ft_reload (document_dec pc_store)" ft_state "\<lambda>_. True" "ft_run (document_enc pc_store) argon argon_ok ht"
  separate_tmp for argon argon_ok ht
  by (rule ft_saved_document [OF store_codec_plain])



end
