(* ===== verification/K8s.thy ===== *)
theory K8s
  imports Mesh_Runs
begin

text \<open>
  Managed clusters, \<^verbatim>\<open>celmesh/src/k8s.rs\<close>: the orchestrator that provisions a network, a control-plane
  VM, worker VMs and a load balancer on one node through calls of the mesh, and tears them down again.
  A call is \<^verbatim>\<open>Mesh::invoke\<close>; the orchestrator is defined over any such call, and
  the interface it needs is the locale \<open>vm_service\<close>, which a node calling its own in-memory host
  provides.
\<close>

subsection \<open>Records\<close>

record k8s_cluster_spec =
  ks_name :: string
  ks_workers :: u32
  ks_cidr :: string
  ks_api_port :: u16
  ks_api_backend_port :: u16
  ks_algo :: lb_algo

definition k8s_cluster_spec_new :: "string \<Rightarrow> u32 \<Rightarrow> k8s_cluster_spec" where
  "k8s_cluster_spec_new name workers =
     \<lparr>ks_name = name, ks_workers = workers, ks_cidr = ''10.42.0.0/24'', ks_api_port = 6443,
      ks_api_backend_port = 6443, ks_algo = RoundRobin\<rparr>"

datatype k8s_node_role = ControlPlane | Worker

record k8s_node_record =
  kn_role :: k8s_node_role
  kn_vm_id :: u32
  kn_label :: string
  kn_nic :: nic

record k8s_cluster =
  kc_spec :: k8s_cluster_spec
  kc_owner :: node_id
  kc_network :: virtual_network
  kc_lb :: load_balancer
  kc_nodes :: "k8s_node_record list"

subsection \<open>Provisioning\<close>

text \<open>A call whose reply must be of one kind; another kind is the internal error of that call.\<close>

definition expect :: "string \<Rightarrow> (vm_op_reply \<Rightarrow> 'a option) \<Rightarrow> 's \<times> vm_op_reply cel_result \<Rightarrow> 's \<times> 'a cel_result" where
  "expect what pick p =
     and_then p (\<lambda>s r. (s, ok_or (Internal (''k8s: unexpected reply ('' @ what @ '')'')) (pick r)))"

fun created_id :: "vm_op_reply \<Rightarrow> u32 option" where
  "created_id (Created vm_id) = Some vm_id"
| "created_id _ = None"

fun attached_nic :: "vm_op_reply \<Rightarrow> nic option" where
  "attached_nic (NicAttached n) = Some n"
| "attached_nic _ = None"

fun created_network :: "vm_op_reply \<Rightarrow> virtual_network option" where
  "created_network (NetworkCreated n) = Some n"
| "created_network _ = None"

fun created_lb :: "vm_op_reply \<Rightarrow> load_balancer option" where
  "created_lb (LoadBalancerCreated lb) = Some lb"
| "created_lb _ = None"

text \<open>One node of the cluster: create the VM, attach it to the network, start it.\<close>

definition k8s_node ::
  "('s \<Rightarrow> vm_op \<Rightarrow> 's \<times> vm_op_reply cel_result) \<Rightarrow> network_id \<Rightarrow> k8s_node_role \<Rightarrow> string \<Rightarrow> string \<Rightarrow> 's \<Rightarrow>
   's \<times> k8s_node_record cel_result" where
  "k8s_node invoke nid role who label s =
     and_then (expect (''Create '' @ who) created_id
                 (invoke s (VmCreate label RestartAlways None None None None))) (\<lambda>s vm_id.
     and_then (expect (''AttachNic '' @ who) attached_nic (invoke s (AttachNic nid vm_id None))) (\<lambda>s n.
     and_then (invoke s (VmStart vm_id)) (\<lambda>s _.
     (s, Ok \<lparr>kn_role = role, kn_vm_id = vm_id, kn_label = label, kn_nic = n\<rparr>))))"

text \<open>The loop over the workers, from worker \<open>i\<close> on; \<open>k\<close> of them are left.\<close>

fun k8s_workers ::
  "('s \<Rightarrow> vm_op \<Rightarrow> 's \<times> vm_op_reply cel_result) \<Rightarrow> network_id \<Rightarrow> string \<Rightarrow> nat \<Rightarrow> nat \<Rightarrow> 's \<Rightarrow>
   's \<times> k8s_node_record list cel_result" where
  "k8s_workers invoke nid name 0 i s = (s, Ok [])"
| "k8s_workers invoke nid name (Suc k) i s =
     and_then (k8s_node invoke nid Worker ''worker'' (''k8s-worker-'' @ name @ ''-'' @ show_nat i) s) (\<lambda>s n.
     and_then (k8s_workers invoke nid name k (Suc i) s) (\<lambda>s ns.
     (s, Ok (n # ns))))"

definition k8s_backend :: "u16 \<Rightarrow> k8s_node_record \<Rightarrow> lb_backend" where
  "k8s_backend port n = \<lparr>be_vm_id = kn_vm_id n, be_ip = nic_ip (kn_nic n), be_port = port\<rparr>"

definition k8s_create ::
  "('s \<Rightarrow> vm_op \<Rightarrow> 's \<times> vm_op_reply cel_result) \<Rightarrow> node_id \<Rightarrow> k8s_cluster_spec \<Rightarrow> 's \<Rightarrow> 's \<times> k8s_cluster cel_result" where
  "k8s_create invoke owner spec s =
     (if ks_workers spec = 0 \<or> 16 < ks_workers spec
        then (s, Err (Invalid ''k8s: workers must be in 1..=16''))
      else
        (case cidr_parse (ks_cidr spec) of
           Err _ \<Rightarrow> (s, Err (Invalid ''k8s: bad cidr''))
         | Ok _ \<Rightarrow>
             and_then (expect ''CreateNetwork'' created_network
                         (invoke s (CreateNetwork (ks_name spec) (ks_cidr spec)))) (\<lambda>s net.
             and_then (k8s_node invoke (net_id net) ControlPlane ''cp'' (''k8s-cp-'' @ ks_name spec) s) (\<lambda>s cp.
             and_then (k8s_workers invoke (net_id net) (ks_name spec) (unat (ks_workers spec)) 0 s) (\<lambda>s ws.
             (case cidr_nth_host (net_cidr net) (cidr_capacity (net_cidr net)) of
                None \<Rightarrow> (s, Err (Invalid ''k8s: no room for VIP in CIDR''))
              | Some vip \<Rightarrow>
                  and_then (expect ''CreateLoadBalancer'' created_lb
                              (invoke s (CreateLoadBalancer (ks_name spec @ ''-api'') (net_id net) (show_ipv4 vip)
                                 (ks_api_port spec) (ks_algo spec)
                                 (map (k8s_backend (ks_api_backend_port spec)) ws)))) (\<lambda>s lb.
                  (s, Ok \<lparr>kc_spec = spec, kc_owner = owner, kc_network = net, kc_lb = lb,
                          kc_nodes = cp # ws\<rparr>))))))))"

subsection \<open>Tearing down\<close>

text \<open>\<^verbatim>\<open>first_err.get_or_insert(e)\<close>: the first error is kept.\<close>

fun note_error :: "cel_error option \<Rightarrow> 'a cel_result \<Rightarrow> cel_error option" where
  "note_error (Some e) r = Some e"
| "note_error None (Err e) = Some e"
| "note_error None (Ok a) = None"

definition destroy_node ::
  "('s \<Rightarrow> vm_op \<Rightarrow> 's \<times> vm_op_reply cel_result) \<Rightarrow> k8s_node_record \<Rightarrow> 's \<times> cel_error option \<Rightarrow> 's \<times> cel_error option" where
  "destroy_node invoke n st =
     (let (s, first_err) = st;
          (s, r) = invoke s (DetachNic (nic_ident (kn_nic n)));
          first_err = note_error first_err r;
          (s, _) = invoke s (VmStop (kn_vm_id n));
          (s, r) = invoke s (VmDelete (kn_vm_id n))
      in (s, note_error first_err r))"

definition k8s_destroy ::
  "('s \<Rightarrow> vm_op \<Rightarrow> 's \<times> vm_op_reply cel_result) \<Rightarrow> k8s_cluster \<Rightarrow> 's \<Rightarrow> 's \<times> unit cel_result" where
  "k8s_destroy invoke cl s =
     (let (s, r) = invoke s (DeleteLoadBalancer (lb_ident (kc_lb cl)));
          (s, first_err) = fold (destroy_node invoke) (kc_nodes cl) (s, note_error None r);
          (s, r) = invoke s (DeleteNetwork (net_id (kc_network cl)))
      in (s, case note_error first_err r of None \<Rightarrow> Ok () | Some e \<Rightarrow> Err e))"

definition k8s_control_plane :: "k8s_cluster \<Rightarrow> k8s_node_record list" where
  "k8s_control_plane cl = filter (\<lambda>n. kn_role n = ControlPlane) (kc_nodes cl)"

definition k8s_worker_nodes :: "k8s_cluster \<Rightarrow> k8s_node_record list" where
  "k8s_worker_nodes cl = filter (\<lambda>n. kn_role n = Worker) (kc_nodes cl)"

subsection \<open>Calls of the mesh\<close>

text \<open>
  A whole call of \<^verbatim>\<open>Mesh::invoke\<close>: on the node itself, or a request and the end of the wait for its
  answer. The state carries the times of the calls and what their waits end with.
\<close>

definition mesh_call ::
  "transport \<Rightarrow> 'h vm_host \<Rightarrow> node_id \<Rightarrow> 'h mesh \<times> (instant \<times> wait_end) list \<Rightarrow> vm_op \<Rightarrow>
   ('h mesh \<times> (instant \<times> wait_end) list) \<times> vm_op_reply cel_result" where
  "mesh_call ship ops target st op =
     (let (m, env) = st;
          (now, w) = (case env of [] \<Rightarrow> (0, Elapsed) | e # _ \<Rightarrow> e)
      in case mesh_invoke ship now ops m target op of
           (m, _, Done r) \<Rightarrow> ((m, tl env), r)
         | (m, _, Waiting req_id) \<Rightarrow> (case mesh_invoke_end m req_id w of (m, r) \<Rightarrow> ((m, tl env), r)))"

subsection \<open>What the orchestrator needs of a call\<close>

text \<open>
  A service that runs operations on the owner's in-memory host: an operation the host accepts is
  answered with the host's reply, one it refuses with an error.
\<close>

locale vm_service =
  fixes call :: "'s \<Rightarrow> vm_op \<Rightarrow> 's \<times> vm_op_reply cel_result"
    and serves :: "'s \<Rightarrow> mem_vm_host \<Rightarrow> bool"
  assumes call_ok: "serves s h \<Longrightarrow> host_apply h op = (h', Ok r) \<Longrightarrow> \<exists>s'. call s op = (s', Ok r) \<and> serves s' h'"
    and call_err: "serves s h \<Longrightarrow> host_apply h op = (h', Err e) \<Longrightarrow> \<exists>s' x. call s op = (s', Err x) \<and> serves s' h'"
begin

lemma expect_ok:
  assumes "serves s h" "host_apply h op = (h', Ok r)" "pick r = Some a"
  obtains s' where "expect what pick (call s op) = (s', Ok a)" "serves s' h'"
  using call_ok [OF assms(1,2)] assms(3) by (auto simp: expect_def)

end

text \<open>A node that calls its own host provides it.\<close>

definition serves_locally :: "node_id \<Rightarrow> mem_vm_host mesh \<times> (instant \<times> wait_end) list \<Rightarrow> mem_vm_host \<Rightarrow> bool" where
  "serves_locally owner st h \<longleftrightarrow>
     mesh_self_id (fst st) = owner \<and> me_host (fst st) = Some h \<and> mh_owner h = Some owner"

lemma publish_keeps_host:
  assumes "publish_local_vms ship now m rows = (m', outs)"
  shows "me_host m' = me_host m" "mesh_self_id m' = mesh_self_id m"
proof -
  have "me_host m' = me_host (publish_core now m rows) \<and> same_tables (publish_core now m rows) m'"
    using send_all_sync_keeps assms unfolding publish_local_vms_core by blast
  then show "me_host m' = me_host m" "mesh_self_id m' = mesh_self_id m"
    by (simp_all add: same_tables_def mesh_self_id_def publish_core_def Let_def)
qed

lemma host_apply_owner: "host_apply h op = (h', r) \<Longrightarrow> mh_owner h' = mh_owner h"
  using host_op_owner_caps(1) [of h op] by (cases "host_op h op") (auto simp: host_apply_def split: if_splits)

lemma local_call_ok:
  assumes "serves_locally owner st h" "host_apply h op = (h', Ok r)"
  shows "\<exists>st'. mesh_call ship mem_vm_host_dyn owner st op = (st', Ok r) \<and> serves_locally owner st' h'"
proof -
  obtain m env where st: "st = (m, env)" by fastforce
  define now where "now = fst (case env of [] \<Rightarrow> (0, Elapsed) | e # _ \<Rightarrow> e)"
  have own: "mh_owner h' = Some owner" using host_apply_owner [OF assms(2)] assms(1) by (simp add: serves_locally_def)
  then have snap: "fst (host_snapshot h' owner) = h'" by (simp add: host_snapshot_def remember_owner_def Let_def)
  obtain rows where rows: "host_snapshot h' owner = (h', rows)" using snap by (metis prod.collapse)
  obtain m' outs where pub: "publish_local_vms ship now (m\<lparr>me_host := Some h'\<rparr>) rows = (m', outs)" by fastforce
  have self: "mesh_self_id m = owner" "me_host m = Some h" using assms(1) by (simp_all add: serves_locally_def st)
  have "mesh_invoke ship now mem_vm_host_dyn m owner op = (m', outs, Done (Ok r))"
    using self assms(2) rows pub by (simp add: mesh_invoke_def mem_vm_host_dyn_def republish_after_op_def)
  then have "mesh_call ship mem_vm_host_dyn owner st op = ((m', tl env), Ok r)"
    by (cases env) (auto simp: mesh_call_def st now_def)
  moreover have "serves_locally owner (m', tl env) h'"
    using publish_keeps_host [OF pub] self own by (simp add: serves_locally_def mesh_self_id_def)
  ultimately show ?thesis by blast
qed

lemma local_call_err:
  assumes "serves_locally owner st h" "host_apply h op = (h', Err e)"
  shows "\<exists>st' x. mesh_call ship mem_vm_host_dyn owner st op = (st', Err x) \<and> serves_locally owner st' h'"
proof -
  obtain m env where st: "st = (m, env)" by fastforce
  have "mh_owner h' = Some owner" using host_apply_owner [OF assms(2)] assms(1) by (simp add: serves_locally_def)
  with assms show ?thesis
    by (simp add: st serves_locally_def mesh_call_def mesh_invoke_def mem_vm_host_dyn_def mesh_self_id_def
        split: prod.split list.split)
qed

interpretation local_service: vm_service "mesh_call ship mem_vm_host_dyn owner" "serves_locally owner" for ship owner
  by unfold_locales (use local_call_ok local_call_err in blast)+

subsection \<open>One node on the host\<close>

definition nth_addr :: "cidr4 \<Rightarrow> nat \<Rightarrow> u32" where
  "nth_addr c i = cidr_base c + of_nat i"

definition may_provision :: "mem_vm_host \<Rightarrow> bool" where
  "may_provision h \<longleftrightarrow> cap_contains (mh_caps h) VM_LIFECYCLE_WRITE \<and> cap_contains (mh_caps h) NETWORK_WRITE \<and>
     cap_contains (mh_caps h) LB_WRITE \<and> length (mh_slots h) = MAX_SLOTS \<and> mh_owner h \<noteq> None"

definition free_slots :: "mem_vm_host \<Rightarrow> nat" where
  "free_slots h = length (filter (\<lambda>x. x = None) (mh_slots h))"

text \<open>
  The slots in the middle of provisioning or tearing down: those of the cluster's VMs hold a VM
  that ran, the others are as they were at the start.
\<close>

definition cluster_slots :: "slot option list \<Rightarrow> u32 set \<Rightarrow> slot option list \<Rightarrow> bool" where
  "cluster_slots start vms slots \<longleftrightarrow> length start = MAX_SLOTS \<and> length slots = MAX_SLOTS \<and> (\<forall>v \<in> vms. unat v < MAX_SLOTS) \<and>
     (\<forall>i < MAX_SLOTS. if of_nat i \<in> vms then start ! i = None \<and> (\<exists>s. slots ! i = Some s \<and> terminal (sl_state s))
                      else slots ! i = start ! i)"

text \<open>The cluster's network has exactly the given NICs.\<close>

definition cluster_nics :: "network_id \<Rightarrow> nic list \<Rightarrow> mem_nets \<Rightarrow> bool" where
  "cluster_nics nid nics g \<longleftrightarrow> distinct (map nic_ip nics) \<and> distinct (map nic_ident nics) \<and>
     (\<exists>u. map_of (used_ips g) nid = Some u \<and> bt_wf u \<and> dom (map_of u) = nic_ip ` set nics) \<and>
     (\<forall>x \<in> set nics. map_of (nets_nics g) (nic_ident x) = Some x \<and> nic_network_id x = nid)"

definition nic_name :: "network_id \<Rightarrow> nat \<Rightarrow> nic_id" where
  "nic_name nid i = nid @ ''/nic'' @ show_word (of_nat i :: u32)"

text \<open>While provisioning, the NICs have the first addresses of the block and the first ids.\<close>

definition numbered :: "network_id \<Rightarrow> cidr4 \<Rightarrow> nic list \<Rightarrow> mem_nets \<Rightarrow> bool" where
  "numbered nid c nics g \<longleftrightarrow> map nic_ip nics = map (nth_addr c) [1..<Suc (length nics)] \<and>
     map nic_ident nics = map (nic_name nid) [1..<Suc (length nics)] \<and>
     map_of (next_nic g) nid = Some (of_nat (length nics)) \<and>
     (\<exists>net. map_of (nets_networks g) nid = Some net \<and> net_cidr net = c)"

lemma nth_host_addr:
  assumes "1 \<le> i" "i \<le> unat (cidr_capacity c)"
  shows "cidr_nth_host c (of_nat i) = Some (nth_addr c i)"
proof -
  have "i < 2 ^ 32" using assms(2) unat_lt_size [of "cidr_capacity c"] by simp
  then have "unat (of_nat i :: u32) = i" by (simp add: unat_of_nat)
  with assms show ?thesis
    by (auto simp: cidr_nth_host_def nth_addr_def word_less_nat_alt unat_eq_zero)
qed

lemma nth_addr_inject:
  assumes "cidr_wf c" "1 \<le> i" "i \<le> unat (cidr_capacity c)" "1 \<le> j" "j \<le> unat (cidr_capacity c)"
    "nth_addr c i = nth_addr c j"
  shows "i = j"
proof -
  have "i < 2 ^ 32" "j < 2 ^ 32" using assms(3,5) unat_lt_size [of "cidr_capacity c"] by simp_all
  with assms(6) show ?thesis by (simp add: nth_addr_def of_nat_inverse word_of_nat_eq_iff take_bit_eq_mod)
qed

lemma scan_finds_next:
  assumes "cidr_wf c" "dom (map_of u) = nth_addr c ` {1..j}" "j < unat (cidr_capacity c)"
  shows "scan_hosts c u (unat (cidr_capacity c)) 1 = Some (nth_addr c (Suc j))"
proof -
  have free: "map_of u (nth_addr c (Suc j)) = None"
  proof (rule ccontr)
    assume "\<not> ?thesis"
    then have "nth_addr c (Suc j) \<in> nth_addr c ` {1..j}" using assms(2) by blast
    then obtain i where "1 \<le> i" "i \<le> j" "nth_addr c (Suc j) = nth_addr c i" by auto
    with nth_addr_inject [OF assms(1), of "Suc j" i] assms(3) show False by simp
  qed
  have "scan_hosts c u (unat (cidr_capacity c)) 1 \<noteq> None"
    using free assms(3) nth_host_addr [of "Suc j" c] unfolding scan_hosts_None by force
  then obtain a where a: "scan_hosts c u (unat (cidr_capacity c)) 1 = Some a" by blast
  from scan_hosts_Some [OF this] obtain i where
    i: "1 \<le> i" "i < 1 + unat (cidr_capacity c)" "cidr_nth_host c (of_nat i) = Some a" "map_of u a = None"
      "scan_hosts c u (i - 1) 1 = None" by blast
  have ai: "a = nth_addr c i" using nth_host_addr [OF i(1), of c] i(2,3) by simp
  have "\<not> i \<le> j" using i(1,4) ai assms(2) by (metis atLeastAtMost_iff domIff imageI)
  moreover have "\<not> Suc j < i"
  proof
    assume "Suc j < i"
    then have "map_of u (nth_addr c (Suc j)) \<noteq> None"
      using i(5) nth_host_addr [of "Suc j" c] assms(3) unfolding scan_hosts_None by force
    with free show False by simp
  qed
  ultimately have "i = Suc j" by simp
  with a ai show ?thesis by simp
qed

lemma filter_update:
  "i < length xs \<Longrightarrow> xs ! i = None \<Longrightarrow>
     length (filter (\<lambda>x. x = None) (xs[i := Some y])) = length (filter (\<lambda>x. x = None) xs) - 1"
proof (induction xs arbitrary: i)
  case (Cons x xs)
  show ?case
  proof (cases i)
    case (Suc k)
    with Cons have "None \<in> set xs" using nth_mem [of k xs] by auto
    then have "0 < length (filter (\<lambda>x. x = None) xs)" by (auto simp: filter_empty_conv)
    with Suc Cons show ?thesis by (cases x) auto
  qed (use Cons in simp)
qed simp

lemma create_on_host:
  assumes "may_provision h" "0 < free_slots h" "length label \<le> 32"
  obtains i s where "i < MAX_SLOTS" "mh_slots h ! i = None" "sl_state s = ''created''"
    "host_apply h (VmCreate label RestartAlways None None None None) =
       (h\<lparr>mh_slots := (mh_slots h)[i := Some s]\<rparr>, Ok (Created (of_nat i)))"
proof -
  define s where "s = \<lparr>sl_label = label, sl_state = ''created'', sl_last_exit = None,
    sl_restart_policy = RestartAlways, sl_volumes = [], sl_image_path = None, sl_cpu_count = None,
    sl_memory_mib = None, sl_boot_blob_crc32c = None\<rparr>"
  have "None \<in> set (mh_slots h)" using assms(2) by (auto simp: free_slots_def filter_empty_conv)
  then obtain slots i where al: "alloc_slot s (mh_slots h) = Some (slots, i)"
    using alloc_slot_None [of s "mh_slots h"] by (cases "alloc_slot s (mh_slots h)") auto
  with alloc_slot_Some [OF al] assms show ?thesis
    by (intro that [of i s]) (simp_all add: may_provision_def host_apply_def host_create_def s_def)
qed

lemma attach_on_nets:
  assumes "cluster_nics nid nics g" "numbered nid c nics g" "cidr_wf c" "length nics < unat (cidr_capacity c)"
    "length nics < MAX_NICS_PER_NETWORK"
  obtains g' n where "ns_attach_nic g nid vm None = (g', Ok n)" "nic_vm_id n = vm"
    "cluster_nics nid (nics @ [n]) g'" "numbered nid c (nics @ [n]) g'"
proof -
  let ?j = "length nics"
  from assms(1,2) obtain net u where net: "map_of (nets_networks g) nid = Some net" "net_cidr net = c"
    and u: "map_of (used_ips g) nid = Some u" "bt_wf u" "dom (map_of u) = nic_ip ` set nics"
    by (auto simp: cluster_nics_def numbered_def)
  have ips: "nic_ip ` set nics = nth_addr c ` {1..?j}"
    using assms(2) by (metis atLeastLessThanSuc_atLeastAtMost image_set numbered_def set_upt)
  have idents: "nic_ident ` set nics = nic_name nid ` {1..?j}"
    using assms(2) by (metis atLeastLessThanSuc_atLeastAtMost image_set numbered_def set_upt)
  have len: "length u \<le> ?j" using bt.size_dom [OF u(2)] u(3) card_image_le [of "set nics" nic_ip] card_length [of nics] by simp
  have small: "?j + 1 < 2 ^ 32" using assms(5) by (simp add: MAX_NICS_PER_NETWORK_def)
  define a where "a = nth_addr c (Suc ?j)"
  have scan: "scan_hosts c u (unat (cidr_capacity c)) 1 = Some a"
    unfolding a_def by (rule scan_finds_next [OF assms(3) _ assms(4)]) (simp add: u(3) ips)
  have fresh: "a \<notin> nic_ip ` set nics" using scan_hosts_Some [OF scan] u(3) by auto
  have count: "saturating_add (of_nat ?j) 1 = (of_nat (Suc ?j) :: u32)"
    using small by (simp add: saturating_add_def unat_of_nat)
  have new_name: "nic_name nid (Suc ?j) \<notin> nic_ident ` set nics"
  proof
    assume "nic_name nid (Suc ?j) \<in> nic_ident ` set nics"
    then obtain i where "i \<le> ?j" "nic_name nid (Suc ?j) = nic_name nid i" unfolding idents by auto
    then have "(of_nat (Suc ?j) :: u32) = of_nat i" by (auto simp: nic_name_def dest: show_word_inj)
    with small \<open>i \<le> ?j\<close> show False by (simp add: word_of_nat_eq_iff take_bit_eq_mod del: of_nat_Suc)
  qed
  have new: "nic_ident x \<noteq> nic_name nid (Suc ?j)" if "x \<in> set nics" for x using new_name that by (metis imageI)
  define n where "n = \<lparr>nic_ident = nic_name nid (Suc ?j), nic_network_id = nid, nic_vm_id = vm, nic_ip = a,
    nic_mac = make_mac nid (of_nat (Suc ?j))\<rparr>"
  define g' where "g' = g\<lparr>next_nic := bt_insert nid (of_nat (Suc ?j)) (next_nic g),
    used_ips := bt_insert nid (bt_insert a (nic_ident n) u) (used_ips g),
    nets_nics := bt_insert (nic_ident n) n (nets_nics g)\<rparr>"
  have op: "ns_attach_nic g nid vm None = (g', Ok n)"
    using net u(1) len scan assms(2,5) count
    by (simp add: ns_attach_nic_def choose_ip_def Let_def g'_def n_def numbered_def nic_name_def)
  have "dom (map_of (bt_insert a (nic_ident n) u)) = nic_ip ` set (nics @ [n])"
    using u(3) by (simp add: bt.get_ins n_def)
  with assms(1) u(2) fresh new_name have "cluster_nics nid (nics @ [n]) g'"
    by (auto simp: cluster_nics_def g'_def map_simps n_def dest: new)
  moreover have "numbered nid c (nics @ [n]) g'"
    using assms(2) net by (simp add: numbered_def g'_def map_simps n_def a_def)
  ultimately show ?thesis using op by (intro that) (simp_all add: n_def)
qed

text \<open>A node of the cluster, from a free slot to a VM that ran.\<close>

lemma cluster_slots_start:
  assumes "cluster_slots start vms slots" "i < MAX_SLOTS" "slots ! i = None" "terminal (sl_state s)"
  shows "of_nat i \<notin> vms" "cluster_slots start (insert (of_nat i) vms) (slots[i := Some s])"
proof -
  have small: "unat (of_nat k :: u32) = k" if "k < MAX_SLOTS" for k using that by (simp add: unat_of_nat MAX_SLOTS_def)
  show new: "of_nat i \<notin> vms" using assms(1-3) by (fastforce simp: cluster_slots_def)
  have neq: "(of_nat k :: u32) = of_nat i \<longleftrightarrow> k = i" if "k < MAX_SLOTS" for k
    using small [OF that] small [OF assms(2)] by metis
  show "cluster_slots start (insert (of_nat i) vms) (slots[i := Some s])"
    using assms new neq small [OF assms(2)]
    by (auto simp: cluster_slots_def nth_list_update)
qed

lemma node_on_host:
  assumes "may_provision h" "cluster_slots start vms (mh_slots h)" "cluster_nics nid nics (mh_nets h)"
    "numbered nid c nics (mh_nets h)" "cidr_wf c" "length nics < unat (cidr_capacity c)"
    "length nics < MAX_NICS_PER_NETWORK" "0 < free_slots h" "length label \<le> 32"
  obtains h1 h2 h3 vm n r where
    "host_apply h (VmCreate label RestartAlways None None None None) = (h1, Ok (Created vm))"
    "host_apply h1 (AttachNic nid vm None) = (h2, Ok (NicAttached n))" "nic_vm_id n = vm"
    "host_apply h2 (VmStart vm) = (h3, Ok r)" "may_provision h3" "vm \<notin> vms" "cluster_slots start (insert vm vms) (mh_slots h3)"
    "cluster_nics nid (nics @ [n]) (mh_nets h3)" "numbered nid c (nics @ [n]) (mh_nets h3)"
    "free_slots h3 = free_slots h - 1"
proof -
  obtain i s where i: "i < MAX_SLOTS" "mh_slots h ! i = None" "sl_state s = ''created''"
    and 1: "host_apply h (VmCreate label RestartAlways None None None None) =
       (h\<lparr>mh_slots := (mh_slots h)[i := Some s]\<rparr>, Ok (Created (of_nat i)))"
    by (rule create_on_host [OF assms(1,8,9)])
  obtain g n where g: "ns_attach_nic (mh_nets h) nid (of_nat i) None = (g, Ok n)" "nic_vm_id n = of_nat i"
    "cluster_nics nid (nics @ [n]) g" "numbered nid c (nics @ [n]) g"
    by (rule attach_on_nets [OF assms(3-7)])
  let ?h1 = "h\<lparr>mh_slots := (mh_slots h)[i := Some s]\<rparr>"
  define x where "x = s\<lparr>sl_state := ''halted'', sl_last_exit := Some 12\<rparr>"
  have small: "unat (of_nat i :: u32) = i" using i(1) by (simp add: unat_of_nat MAX_SLOTS_def)
  have slot: "slot_mut (mh_slots ?h1) (of_nat i) = Ok s"
    using i assms(1) small by (simp add: slot_mut_Ok may_provision_def)
  have 2: "host_apply ?h1 (AttachNic nid (of_nat i) None) = (?h1\<lparr>mh_nets := g\<rparr>, Ok (NicAttached n))"
    using slot g(1) assms(1) by (simp add: host_apply_def host_attach_nic_def host_nets_def may_provision_def)
  have 3: "host_apply (?h1\<lparr>mh_nets := g\<rparr>) (VmStart (of_nat i)) =
      (h\<lparr>mh_slots := (mh_slots h)[i := Some x], mh_nets := g\<rparr>, Ok (StateIs (of_nat i) ''halted''))"
    using slot i(3) assms(1) small
    by (simp add: host_apply_def host_start_def may_provision_def terminal_def set_slot_def x_def)
  have "terminal (sl_state x)" by (simp add: x_def terminal_def)
  note slots = cluster_slots_start [OF assms(2) i(1,2) this]
  show ?thesis
    by (rule that [OF 1 2 g(2) 3]) (use slots g assms(1) i filter_update [of i "mh_slots h" x] in
        \<open>simp_all add: may_provision_def free_slots_def\<close>)
qed

subsection \<open>The whole cluster\<close>

text \<open>
  What holds of the owner's host when the nodes \<open>ns\<close> of a cluster are in place: slots, NICs and
  addresses are those of the nodes, in order.
\<close>

definition node_role_ok :: "k8s_node_role \<Rightarrow> k8s_node_record \<Rightarrow> bool" where
  "node_role_ok role n \<longleftrightarrow> kn_role n = role \<and> nic_vm_id (kn_nic n) = kn_vm_id n"

definition cluster_up :: "slot option list \<Rightarrow> network_id \<Rightarrow> cidr4 \<Rightarrow> k8s_node_record list \<Rightarrow> mem_vm_host \<Rightarrow> bool" where
  "cluster_up start nid c ns h \<longleftrightarrow> may_provision h \<and> distinct (map kn_vm_id ns) \<and>
     cluster_slots start (kn_vm_id ` set ns) (mh_slots h) \<and>
     cluster_nics nid (map kn_nic ns) (mh_nets h) \<and> numbered nid c (map kn_nic ns) (mh_nets h)"

context vm_service
begin

lemma k8s_node_provisions:
  assumes "serves s h" "cluster_up start nid c ns h" "cidr_wf c" "length ns < unat (cidr_capacity c)"
    "length ns < MAX_NICS_PER_NETWORK" "0 < free_slots h" "length label \<le> 32"
  obtains s' h' n where "k8s_node call nid role who label s = (s', Ok n)" "serves s' h'" "node_role_ok role n"
    "cluster_up start nid c (ns @ [n]) h'" "free_slots h' = free_slots h - 1"
proof -
  from assms(2) have up: "may_provision h" "cluster_slots start (kn_vm_id ` set ns) (mh_slots h)"
    "cluster_nics nid (map kn_nic ns) (mh_nets h)" "numbered nid c (map kn_nic ns) (mh_nets h)"
    by (simp_all add: cluster_up_def)
  obtain h1 h2 h3 vm x r where
    h: "host_apply h (VmCreate label RestartAlways None None None None) = (h1, Ok (Created vm))"
    "host_apply h1 (AttachNic nid vm None) = (h2, Ok (NicAttached x))" "nic_vm_id x = vm"
    "host_apply h2 (VmStart vm) = (h3, Ok r)" "may_provision h3" "vm \<notin> kn_vm_id ` set ns"
    "cluster_slots start (insert vm (kn_vm_id ` set ns)) (mh_slots h3)"
    "cluster_nics nid (map kn_nic ns @ [x]) (mh_nets h3)" "numbered nid c (map kn_nic ns @ [x]) (mh_nets h3)"
    "free_slots h3 = free_slots h - 1"
    by (rule node_on_host [OF up assms(3) _ _ assms(6,7)]) (use assms(4,5) in simp_all)
  obtain s1 where s1: "expect (''Create '' @ who) created_id (call s (VmCreate label RestartAlways None None None None)) = (s1, Ok vm)"
    "serves s1 h1"
    using expect_ok [where pick = created_id and a = vm and what = "''Create '' @ who", OF assms(1) h(1)] by auto
  obtain s2 where s2: "expect (''AttachNic '' @ who) attached_nic (call s1 (AttachNic nid vm None)) = (s2, Ok x)"
    "serves s2 h2"
    using expect_ok [where pick = attached_nic and a = x and what = "''AttachNic '' @ who", OF s1(2) h(2)] by auto
  obtain s3 where s3: "call s2 (VmStart vm) = (s3, Ok r)" "serves s3 h3" using call_ok [OF s2(2) h(4)] by blast
  have "k8s_node call nid role who label s = (s3, Ok \<lparr>kn_role = role, kn_vm_id = vm, kn_label = label, kn_nic = x\<rparr>)"
    using s1(1) s2(1) s3(1) by (simp add: k8s_node_def)
  then show ?thesis
    by (rule that [OF _ s3(2)]) (use h assms(2) in \<open>simp_all add: node_role_ok_def cluster_up_def\<close>)
qed

lemma k8s_workers_provision:
  assumes "serves s h" "cluster_up start nid c ns h" "cidr_wf c" "length ns + k \<le> unat (cidr_capacity c)"
    "length ns + k \<le> MAX_NICS_PER_NETWORK" "k \<le> free_slots h" "i + k \<le> 10" "length name \<le> 19"
  shows "\<exists>s' h' ws. k8s_workers call nid name k i s = (s', Ok ws) \<and> serves s' h' \<and> length ws = k \<and>
    (\<forall>n \<in> set ws. node_role_ok Worker n) \<and> cluster_up start nid c (ns @ ws) h'"
  using assms(1,2,4-7)
proof (induction k arbitrary: i ns s h)
  case 0
  then show ?case by auto
next
  case (Suc k)
  have "length (show_nat i) = 1" using Suc.prems(6) by (intro length_show_nat_1) simp
  then have label: "length (''k8s-worker-'' @ name @ ''-'' @ show_nat i) \<le> 32" using assms(8) by simp
  obtain s1 h1 n where n: "k8s_node call nid Worker ''worker'' (''k8s-worker-'' @ name @ ''-'' @ show_nat i) s = (s1, Ok n)"
    "serves s1 h1" "node_role_ok Worker n" "cluster_up start nid c (ns @ [n]) h1" "free_slots h1 = free_slots h - 1"
    by (rule k8s_node_provisions [OF Suc.prems(1,2) assms(3) _ _ _ label]) (use Suc.prems in auto)
  have pre: "length (ns @ [n]) + k \<le> unat (cidr_capacity c)" "length (ns @ [n]) + k \<le> MAX_NICS_PER_NETWORK"
    "k \<le> free_slots h1" "Suc i + k \<le> 10"
    using Suc.prems(3-6) n(5) by simp_all
  from Suc.IH [OF n(2,4) pre] obtain s' h' ws where "k8s_workers call nid name k (Suc i) s1 = (s', Ok ws)"
    "serves s' h'" "length ws = k" "\<forall>n \<in> set ws. node_role_ok Worker n" "cluster_up start nid c ((ns @ [n]) @ ws) h'"
    by blast
  then show ?case using n(1,3) by (intro exI [of _ s'] exI [of _ h'] exI [of _ "n # ws"]) auto
qed

end

text \<open>The network at the start and the load balancer at the end.\<close>

lemma network_on_host:
  assumes "may_provision h" "cidr_parse cidr = Ok c" "validate_net_name name = Ok ()"
  obtains h' net where "host_apply h (CreateNetwork name cidr) = (h', Ok (NetworkCreated net))" "net_cidr net = c"
    "cluster_up (mh_slots h) (net_id net) c [] h'" "free_slots h' = free_slots h"
proof -
  from assms(1) obtain ow where ow: "mh_owner h = Some ow" by (auto simp: may_provision_def)
  obtain g net where g: "ns_create_network (mh_nets h) ow name c = (g, Ok net)" "net_cidr net = c"
    "map_of (nets_networks g) (net_id net) = Some net" "map_of (used_ips g) (net_id net) = Some []"
    "map_of (next_nic g) (net_id net) = Some 0"
    using assms(3) by (simp add: ns_create_network_def Let_def map_simps)
  have "host_apply h (CreateNetwork name cidr) = (h\<lparr>mh_nets := g\<rparr>, Ok (NetworkCreated net))"
    using assms(1,2) ow g(1) by (simp add: host_apply_def host_create_network_def host_nets_def may_provision_def)
  from this g(2) show ?thesis
    by (rule that) (use g(2-) assms(1) in \<open>simp_all add: cluster_up_def may_provision_def cluster_slots_def cluster_nics_def numbered_def free_slots_def\<close>)
qed

lemma cluster_ips:
  assumes "cluster_up start nid c ns h"
  shows "map (\<lambda>n. nic_ip (kn_nic n)) ns = map (nth_addr c) [1..<Suc (length ns)]"
  using assms by (simp add: cluster_up_def numbered_def comp_def)

lemma cluster_ip_contained:
  assumes "cluster_up start nid c ns h" "cidr_wf c" "length ns \<le> unat (cidr_capacity c)" "n \<in> set ns"
  shows "cidr_contains c (nic_ip (kn_nic n))"
proof -
  have "nic_ip (kn_nic n) \<in> set (map (\<lambda>n. nic_ip (kn_nic n)) ns)" using assms(4) by simp
  then obtain i where "1 \<le> i" "i \<le> length ns" "nic_ip (kn_nic n) = nth_addr c i"
    unfolding cluster_ips [OF assms(1)] by auto
  with nth_host_Some [OF assms(2) nth_host_addr [of i c]] assms(3) show ?thesis by simp
qed

lemma cluster_up_balancers:
  "cluster_up start nid c ns (h\<lparr>mh_nets := (mh_nets h)\<lparr>next_lb := n, nets_lbs := lbs\<rparr>\<rparr>) = cluster_up start nid c ns h"
  by (simp add: cluster_up_def may_provision_def cluster_nics_def numbered_def)

lemma balancer_on_host:
  assumes "cluster_up start nid c ns h" "cidr_wf c" "length ns \<le> unat (cidr_capacity c)" "0 < unat (cidr_capacity c)"
    and "set ws \<subseteq> set ns" "length ws \<le> MAX_BACKENDS_PER_LB" "validate_net_name name = Ok ()"
  obtains h' lb where
    "host_apply h (CreateLoadBalancer name nid (show_ipv4 (nth_addr c (unat (cidr_capacity c)))) port algo (map (k8s_backend bp) ws)) =
       (h', Ok (LoadBalancerCreated lb))"
    "lb_vip lb = nth_addr c (unat (cidr_capacity c))" "lb_backends lb = map (k8s_backend bp) ws"
    "lb_frontend_port lb = port" "lb_network_id lb = nid" "cluster_up start nid c ns h'"
proof -
  let ?vip = "nth_addr c (unat (cidr_capacity c))"
  from assms(1) obtain ow net where ow: "mh_owner h = Some ow" and prov: "may_provision h"
    and net: "map_of (nets_networks (mh_nets h)) nid = Some net" "net_cidr net = c"
    by (auto simp: cluster_up_def may_provision_def numbered_def)
  have vip: "cidr_contains c ?vip"
    using nth_host_Some [OF assms(2) nth_host_addr [of "unat (cidr_capacity c)" c]] assms(4) by simp
  have ips: "\<not> list_ex (\<lambda>b. \<not> cidr_contains c (be_ip b)) (map (k8s_backend bp) ws)"
    using cluster_ip_contained [OF assms(1-3)] assms(5) by (auto simp: list_ex_iff k8s_backend_def)
  define n where "n = saturating_add (next_lb (mh_nets h)) 1"
  define lb where "lb = \<lparr>lb_ident = ow @ ''/lb'' @ show_word n, lb_owner = ow, lb_name = name, lb_network_id = nid,
    lb_vip = ?vip, lb_frontend_port = port, lb_algorithm = algo, lb_backends = map (k8s_backend bp) ws\<rparr>"
  let ?g = "(mh_nets h)\<lparr>next_lb := n, nets_lbs := bt_insert (lb_ident lb) lb (nets_lbs (mh_nets h))\<rparr>"
  have "ns_create_load_balancer (mh_nets h) ow name nid ?vip port algo (map (k8s_backend bp) ws) = (?g, Ok lb)"
    using assms(6,7) net vip ips by (simp add: ns_create_load_balancer_def Let_def lb_def n_def)
  then have op: "host_apply h (CreateLoadBalancer name nid (show_ipv4 ?vip) port algo (map (k8s_backend bp) ws)) =
      (h\<lparr>mh_nets := ?g\<rparr>, Ok (LoadBalancerCreated lb))"
    using prov ow by (simp add: host_apply_def host_nets_def parse_show_ipv4 may_provision_def)
  then show ?thesis by (rule that) (simp_all add: lb_def cluster_up_balancers assms(1))
qed

text \<open>Room for a cluster: slots, addresses and names are within the host's bounds.\<close>

definition cluster_fits :: "k8s_cluster_spec \<Rightarrow> cidr4 \<Rightarrow> mem_vm_host \<Rightarrow> bool" where
  "cluster_fits spec c h \<longleftrightarrow> may_provision h \<and> 0 < unat (ks_workers spec) \<and> unat (ks_workers spec) < free_slots h \<and>
     cidr_parse (ks_cidr spec) = Ok c \<and> unat (ks_workers spec) + 1 < unat (cidr_capacity c) \<and>
     ks_name spec \<noteq> [] \<and> length (ks_name spec) \<le> 19"

lemma fits_small:
  assumes "cluster_fits spec c h"
  shows "unat (ks_workers spec) \<le> 3" "ks_workers spec \<noteq> 0" "\<not> 16 < ks_workers spec"
    "validate_net_name (ks_name spec) = Ok ()" "validate_net_name (ks_name spec @ ''-api'') = Ok ()" "cidr_wf c"
proof -
  have "free_slots h \<le> length (mh_slots h)" by (simp add: free_slots_def)
  then show w: "unat (ks_workers spec) \<le> 3"
    using assms by (simp add: cluster_fits_def may_provision_def MAX_SLOTS_def)
  then show "\<not> 16 < ks_workers spec" by (simp add: word_less_nat_alt)
  show "ks_workers spec \<noteq> 0" "validate_net_name (ks_name spec) = Ok ()"
    "validate_net_name (ks_name spec @ ''-api'') = Ok ()" "cidr_wf c"
    using assms cidr_parse_wf by (auto simp: cluster_fits_def validate_net_name_def NET_MAX_NAME_def)
qed

context vm_service
begin

lemma k8s_create_provisions:
  assumes "serves s h" "cluster_fits spec c h"
  obtains s' h' cl cp ws where "k8s_create call owner spec s = (s', Ok cl)" "serves s' h'"
    "kc_nodes cl = cp # ws" "node_role_ok ControlPlane cp" "\<forall>n \<in> set ws. node_role_ok Worker n"
    "length ws = unat (ks_workers spec)" "cluster_up (mh_slots h) (net_id (kc_network cl)) c (cp # ws) h'"
    "lb_vip (kc_lb cl) = nth_addr c (unat (cidr_capacity c))"
    "lb_backends (kc_lb cl) = map (k8s_backend (ks_api_backend_port spec)) ws"
    "net_cidr (kc_network cl) = c"
proof -
  let ?w = "unat (ks_workers spec)"
  note fits = assms(2) [unfolded cluster_fits_def] and small = fits_small [OF assms(2)]
  obtain h1 net where 1: "host_apply h (CreateNetwork (ks_name spec) (ks_cidr spec)) = (h1, Ok (NetworkCreated net))"
    "net_cidr net = c" "cluster_up (mh_slots h) (net_id net) c [] h1" "free_slots h1 = free_slots h"
    by (rule network_on_host [of h "ks_cidr spec" c "ks_name spec"]) (use fits small in auto)
  obtain s1 where s1: "expect ''CreateNetwork'' created_network (call s (CreateNetwork (ks_name spec) (ks_cidr spec))) = (s1, Ok net)"
    "serves s1 h1"
    using expect_ok [where pick = created_network and a = net and what = "''CreateNetwork''", OF assms(1) 1(1)] by auto
  have label: "length (''k8s-cp-'' @ ks_name spec) \<le> 32" using fits by simp
  obtain s2 h2 cp where 2: "k8s_node call (net_id net) ControlPlane ''cp'' (''k8s-cp-'' @ ks_name spec) s1 = (s2, Ok cp)"
    "serves s2 h2" "node_role_ok ControlPlane cp" "cluster_up (mh_slots h) (net_id net) c ([] @ [cp]) h2"
    "free_slots h2 = free_slots h1 - 1"
    by (rule k8s_node_provisions [OF s1(2) 1(3) small(6) _ _ _ label])
      (use fits 1(4) in \<open>auto simp: MAX_NICS_PER_NETWORK_def\<close>)
  have up2: "cluster_up (mh_slots h) (net_id net) c [cp] h2" using 2(4) by simp
  have pre: "length [cp] + ?w \<le> unat (cidr_capacity c)" "length [cp] + ?w \<le> MAX_NICS_PER_NETWORK" "?w \<le> free_slots h2"
    "0 + ?w \<le> 10" "length (ks_name spec) \<le> 19"
    using fits small(1) 1(4) 2(5) by (auto simp: MAX_NICS_PER_NETWORK_def)
  from k8s_workers_provision [OF 2(2) up2 small(6) pre] obtain s3 h3 ws where 3: "k8s_workers call (net_id net) (ks_name spec) ?w 0 s2 = (s3, Ok ws)" "serves s3 h3"
    "length ws = ?w" "\<forall>n \<in> set ws. node_role_ok Worker n" "cluster_up (mh_slots h) (net_id net) c ([cp] @ ws) h3"
    by blast
  obtain h4 lb where 4: "host_apply h3 (CreateLoadBalancer (ks_name spec @ ''-api'') (net_id net)
      (show_ipv4 (nth_addr c (unat (cidr_capacity c)))) (ks_api_port spec) (ks_algo spec)
      (map (k8s_backend (ks_api_backend_port spec)) ws)) = (h4, Ok (LoadBalancerCreated lb))"
    "lb_vip lb = nth_addr c (unat (cidr_capacity c))" "lb_backends lb = map (k8s_backend (ks_api_backend_port spec)) ws"
    "lb_frontend_port lb = ks_api_port spec" "lb_network_id lb = net_id net"
    "cluster_up (mh_slots h) (net_id net) c ([cp] @ ws) h4"
    by (rule balancer_on_host [OF 3(5) small(6)])
      (use fits 3(3) small(1,5) in \<open>auto simp: MAX_BACKENDS_PER_LB_def\<close>)
  obtain s4 where s4: "expect ''CreateLoadBalancer'' created_lb (call s3 (CreateLoadBalancer (ks_name spec @ ''-api'') (net_id net)
      (show_ipv4 (nth_addr c (unat (cidr_capacity c)))) (ks_api_port spec) (ks_algo spec)
      (map (k8s_backend (ks_api_backend_port spec)) ws))) = (s4, Ok lb)" "serves s4 h4"
    using expect_ok [where pick = created_lb and a = lb and what = "''CreateLoadBalancer''", OF 3(2) 4(1)] by auto
  have vip: "cidr_nth_host c (cidr_capacity c) = Some (nth_addr c (unat (cidr_capacity c)))"
    using nth_host_addr [of "unat (cidr_capacity c)" c] fits by simp
  have "k8s_create call owner spec s = (s4, Ok \<lparr>kc_spec = spec, kc_owner = owner, kc_network = net, kc_lb = lb, kc_nodes = cp # ws\<rparr>)"
    using fits small(2,3) s1(1) 2(1) 3(1) vip s4(1) 1(2) by (simp add: k8s_create_def)
  then show ?thesis by (rule that [OF _ s4(2)]) (use 1(2) 2 3 4 in simp_all)
qed

end

subsection \<open>Tearing down\<close>

text \<open>What is left when the nodes \<open>ns\<close> are still to be removed.\<close>

definition cluster_left :: "slot option list \<Rightarrow> network_id \<Rightarrow> k8s_node_record list \<Rightarrow> mem_vm_host \<Rightarrow> bool" where
  "cluster_left start nid ns h \<longleftrightarrow> may_provision h \<and> distinct (map kn_vm_id ns) \<and>
     cluster_slots start (kn_vm_id ` set ns) (mh_slots h) \<and> cluster_nics nid (map kn_nic ns) (mh_nets h)"

lemma cluster_up_left: "cluster_up start nid c ns h \<Longrightarrow> cluster_left start nid ns h"
  by (simp add: cluster_up_def cluster_left_def)

lemma cluster_slots_delete:
  assumes "cluster_slots start (insert v vms) slots" "v \<notin> vms"
  shows "\<exists>s. slot_mut slots v = Ok s \<and> terminal (sl_state s)" "cluster_slots start vms (slots[unat v := None])"
proof -
  have v: "unat v < MAX_SLOTS" using assms(1) by (simp add: cluster_slots_def)
  have neq: "(of_nat k :: u32) = v \<longleftrightarrow> k = unat v" if "k < MAX_SLOTS" for k
  proof -
    have "unat (of_nat k :: u32) = k" using that by (simp add: unat_of_nat MAX_SLOTS_def)
    then show ?thesis by auto
  qed
  have slot: "if of_nat i = v \<or> of_nat i \<in> vms then start ! i = None \<and> (\<exists>s. slots ! i = Some s \<and> terminal (sl_state s))
      else slots ! i = start ! i" if "i < MAX_SLOTS" for i
    using assms(1) that by (simp add: cluster_slots_def)
  show "\<exists>s. slot_mut slots v = Ok s \<and> terminal (sl_state s)" using slot [OF v] v by (simp add: slot_mut_Ok)
  have "if of_nat i \<in> vms then start ! i = None \<and> (\<exists>s. slots[unat v := None] ! i = Some s \<and> terminal (sl_state s))
      else slots[unat v := None] ! i = start ! i" if "i < MAX_SLOTS" for i
    using slot [OF that] neq [OF that] assms v by (cases "i = unat v") (auto simp: cluster_slots_def)
  then show "cluster_slots start vms (slots[unat v := None])"
    using assms(1) by (simp add: cluster_slots_def)
qed

lemma cluster_nics_detach:
  assumes "cluster_nics nid (x # nics) g"
  obtains g' where "ns_detach_nic g (nic_ident x) = (g', Ok ())" "cluster_nics nid nics g'"
    "nets_networks g' = nets_networks g" "nets_lbs g' = nets_lbs g" "map_of (nets_nics g') (nic_ident x) = None"
    "\<forall>k. map_of (nets_nics g) k = None \<longrightarrow> map_of (nets_nics g') k = None"
proof -
  from assms obtain u where u: "map_of (used_ips g) nid = Some u" "bt_wf u" "dom (map_of u) = insert (nic_ip x) (nic_ip ` set nics)"
    and x: "map_of (nets_nics g) (nic_ident x) = Some x" "nic_network_id x = nid"
    by (auto simp: cluster_nics_def)
  define g' where "g' = g\<lparr>nets_nics := bt_remove (nic_ident x) (nets_nics g),
    used_ips := map_update_with nid (bt_remove (nic_ip x)) (used_ips g)\<rparr>"
  have fresh: "nic_ip x \<notin> nic_ip ` set nics" "nic_ident x \<notin> nic_ident ` set nics"
    and rest: "distinct (map nic_ip nics)" "distinct (map nic_ident nics)"
      "\<And>y. y \<in> set nics \<Longrightarrow> map_of (nets_nics g) (nic_ident y) = Some y \<and> nic_network_id y = nid"
    using assms by (simp_all add: cluster_nics_def)
  have "dom (map_of (bt_remove (nic_ip x) u)) = nic_ip ` set nics" using u(3) fresh(1) by (simp add: bt.get_del)
  moreover have "map_of (used_ips g') nid = Some (bt_remove (nic_ip x) u)" using u(1) by (simp add: g'_def map_simps)
  moreover have "map_of (nets_nics g') (nic_ident y) = Some y \<and> nic_network_id y = nid" if "y \<in> set nics" for y
  proof -
    have "nic_ident y \<noteq> nic_ident x" using fresh(2) that by (metis imageI)
    with rest(3) [OF that] show ?thesis by (simp add: g'_def map_simps)
  qed
  ultimately have cn: "cluster_nics nid nics g'" using rest(1,2) bt.wf_del [OF u(2)] unfolding cluster_nics_def by blast
  have "ns_detach_nic g (nic_ident x) = (g', Ok ())" using x by (simp add: ns_detach_nic_def g'_def)
  from this cn show ?thesis by (rule that) (simp_all add: g'_def map_simps)
qed

context vm_service
begin

text \<open>Removing one node: its NIC, then its VM.\<close>

lemma destroy_node_removes:
  assumes "serves s h" "cluster_left start nid (n # ns) h"
  obtains s' h' where "destroy_node call n (s, None) = (s', None)" "serves s' h'" "cluster_left start nid ns h'"
    "nets_networks (mh_nets h') = nets_networks (mh_nets h)" "nets_lbs (mh_nets h') = nets_lbs (mh_nets h)"
    "map_of (nets_nics (mh_nets h')) (nic_ident (kn_nic n)) = None"
    "\<forall>k. map_of (nets_nics (mh_nets h)) k = None \<longrightarrow> map_of (nets_nics (mh_nets h')) k = None"
proof -
  from assms(2) have prov: "may_provision h" and new: "kn_vm_id n \<notin> kn_vm_id ` set ns"
    and slots: "cluster_slots start (insert (kn_vm_id n) (kn_vm_id ` set ns)) (mh_slots h)"
    and nics: "cluster_nics nid (kn_nic n # map kn_nic ns) (mh_nets h)" and dist: "distinct (map kn_vm_id ns)"
    by (simp_all add: cluster_left_def)
  obtain g where g: "ns_detach_nic (mh_nets h) (nic_ident (kn_nic n)) = (g, Ok ())" "cluster_nics nid (map kn_nic ns) g"
    "nets_networks g = nets_networks (mh_nets h)" "nets_lbs g = nets_lbs (mh_nets h)"
    "map_of (nets_nics g) (nic_ident (kn_nic n)) = None"
    "\<forall>k. map_of (nets_nics (mh_nets h)) k = None \<longrightarrow> map_of (nets_nics g) k = None"
    by (rule cluster_nics_detach [OF nics])
  obtain x where x: "slot_mut (mh_slots h) (kn_vm_id n) = Ok x" "terminal (sl_state x)"
    using cluster_slots_delete(1) [OF slots new] by blast
  let ?h1 = "h\<lparr>mh_nets := g\<rparr>" and ?h2 = "h\<lparr>mh_nets := g, mh_slots := (mh_slots h)[unat (kn_vm_id n) := None]\<rparr>"
  have 1: "host_apply h (DetachNic (nic_ident (kn_nic n))) = (?h1, Ok (NicDetached (nic_ident (kn_nic n))))"
    using prov g(1) by (simp add: host_apply_def host_nets_def may_provision_def)
  have keep: "(mh_slots h)[unat (kn_vm_id n) := Some x] = mh_slots h"
    using x(1) by (metis list_update_id slot_mut_Ok)
  have 2: "host_apply ?h1 (VmStop (kn_vm_id n)) = (?h1, Ok (StateIs (kn_vm_id n) (sl_state x)))"
    using prov x keep by (simp add: host_apply_def host_stop_def may_provision_def set_slot_def Let_def)
  have 3: "host_apply ?h1 (VmDelete (kn_vm_id n)) = (?h2, Ok (Deleted (kn_vm_id n)))"
    using prov x by (simp add: host_apply_def host_delete_def may_provision_def set_slot_def)
  obtain s1 where s1: "call s (DetachNic (nic_ident (kn_nic n))) = (s1, Ok (NicDetached (nic_ident (kn_nic n))))" "serves s1 ?h1"
    using call_ok [OF assms(1) 1] by blast
  obtain s2 where s2: "call s1 (VmStop (kn_vm_id n)) = (s2, Ok (StateIs (kn_vm_id n) (sl_state x)))" "serves s2 ?h1"
    using call_ok [OF s1(2) 2] by blast
  obtain s3 where s3: "call s2 (VmDelete (kn_vm_id n)) = (s3, Ok (Deleted (kn_vm_id n)))" "serves s3 ?h2"
    using call_ok [OF s2(2) 3] by blast
  have "cluster_left start nid ns ?h2"
    using prov g(2) cluster_slots_delete(2) [OF slots new] dist by (simp add: cluster_left_def may_provision_def)
  from s3(2) this show ?thesis
    by (rule that [rotated]) (simp_all add: destroy_node_def Let_def s1(1) s2(1) s3(1) g)
qed

lemma destroy_nodes_removes:
  assumes "serves s h" "cluster_left start nid ns h"
  shows "\<exists>s' h'. fold (destroy_node call) ns (s, None) = (s', None) \<and> serves s' h' \<and> cluster_left start nid [] h' \<and>
    nets_networks (mh_nets h') = nets_networks (mh_nets h) \<and> nets_lbs (mh_nets h') = nets_lbs (mh_nets h) \<and>
    (\<forall>n \<in> set ns. map_of (nets_nics (mh_nets h')) (nic_ident (kn_nic n)) = None) \<and>
    (\<forall>k. map_of (nets_nics (mh_nets h)) k = None \<longrightarrow> map_of (nets_nics (mh_nets h')) k = None)"
  using assms
proof (induction ns arbitrary: s h)
  case Nil
  then show ?case by auto
next
  case (Cons n ns)
  obtain s1 h1 where 1: "destroy_node call n (s, None) = (s1, None)" "serves s1 h1" "cluster_left start nid ns h1"
    "nets_networks (mh_nets h1) = nets_networks (mh_nets h)" "nets_lbs (mh_nets h1) = nets_lbs (mh_nets h)"
    "map_of (nets_nics (mh_nets h1)) (nic_ident (kn_nic n)) = None"
    "\<forall>k. map_of (nets_nics (mh_nets h)) k = None \<longrightarrow> map_of (nets_nics (mh_nets h1)) k = None"
    by (rule destroy_node_removes [OF Cons.prems])
  from Cons.IH [OF 1(2,3)] obtain s' h' where
    2: "fold (destroy_node call) ns (s1, None) = (s', None)" "serves s' h'" "cluster_left start nid [] h'"
    "nets_networks (mh_nets h') = nets_networks (mh_nets h1)" "nets_lbs (mh_nets h') = nets_lbs (mh_nets h1)"
    "\<forall>n \<in> set ns. map_of (nets_nics (mh_nets h')) (nic_ident (kn_nic n)) = None"
    "\<forall>k. map_of (nets_nics (mh_nets h1)) k = None \<longrightarrow> map_of (nets_nics (mh_nets h')) k = None" by blast
  show ?case by (intro exI [of _ s'] exI [of _ h']) (use 1 2 in simp)
qed

lemma k8s_destroy_undoes:
  assumes "serves s h" "cluster_left start (net_id (kc_network cl)) (kc_nodes cl) h"
  shows "\<exists>s' h'. k8s_destroy call cl s = (s', Ok ()) \<and> serves s' h' \<and> mh_slots h' = start \<and>
    map_of (nets_networks (mh_nets h')) (net_id (kc_network cl)) = None \<and>
    map_of (nets_lbs (mh_nets h')) (lb_ident (kc_lb cl)) = None \<and>
    (\<forall>n \<in> set (kc_nodes cl). map_of (nets_nics (mh_nets h')) (nic_ident (kn_nic n)) = None)"
proof -
  let ?nid = "net_id (kc_network cl)" and ?lid = "lb_ident (kc_lb cl)"
  from assms(2) have prov: "may_provision h" by (simp add: cluster_left_def)
  let ?h1 = "h\<lparr>mh_nets := (mh_nets h)\<lparr>nets_lbs := bt_remove ?lid (nets_lbs (mh_nets h))\<rparr>\<rparr>"
  have "host_apply h (DeleteLoadBalancer ?lid) = (?h1, Ok (LoadBalancerDeleted ?lid))"
    using prov by (simp add: host_apply_def host_nets_def ns_delete_load_balancer_def may_provision_def)
  then obtain s1 where s1: "call s (DeleteLoadBalancer ?lid) = (s1, Ok (LoadBalancerDeleted ?lid))" "serves s1 ?h1"
    using call_ok [OF assms(1)] by blast
  have "cluster_left start ?nid (kc_nodes cl) ?h1"
    using assms(2) by (simp add: cluster_left_def may_provision_def cluster_nics_def)
  from destroy_nodes_removes [OF s1(2) this] obtain s2 h2 where
    2: "fold (destroy_node call) (kc_nodes cl) (s1, None) = (s2, None)" "serves s2 h2" "cluster_left start ?nid [] h2"
    "nets_lbs (mh_nets h2) = bt_remove ?lid (nets_lbs (mh_nets h))"
    "\<forall>n \<in> set (kc_nodes cl). map_of (nets_nics (mh_nets h2)) (nic_ident (kn_nic n)) = None" by auto
  then obtain u where u: "map_of (used_ips (mh_nets h2)) ?nid = Some u" "dom (map_of u) = {}"
    by (auto simp: cluster_left_def cluster_nics_def)
  then have "u = []" by (simp add: dom_map_of_conv_image_fst)
  let ?g = "fst (ns_delete_network (mh_nets h2) ?nid)"
  have "host_apply h2 (DeleteNetwork ?nid) = (h2\<lparr>mh_nets := ?g\<rparr>, Ok (NetworkDeleted ?nid))"
    using 2(3) u(1) \<open>u = []\<close>
    by (simp add: host_apply_def host_nets_def ns_delete_network_def cluster_left_def may_provision_def)
  then obtain s3 where s3: "call s2 (DeleteNetwork ?nid) = (s3, Ok (NetworkDeleted ?nid))" "serves s3 (h2\<lparr>mh_nets := ?g\<rparr>)"
    using call_ok [OF 2(2)] by blast
  have "k8s_destroy call cl s = (s3, Ok ())" by (simp add: k8s_destroy_def s1(1) 2(1) s3(1))
  moreover have "mh_slots h2 = start"
    using 2(3) by (auto simp: cluster_left_def cluster_slots_def intro: nth_equalityI)
  moreover have "map_of (nets_lbs ?g) ?lid = None"
  proof -
    have "map_of (bt_retain P (bt_remove ?lid lbs)) ?lid = None" for P and lbs :: "(lb_id \<times> load_balancer) list"
      by (auto simp: map_of_eq_None_iff bt_retain_def bt_remove_def)
    then show ?thesis using u(1) \<open>u = []\<close> by (simp add: ns_delete_network_def 2(4))
  qed
  moreover have "map_of (nets_networks ?g) ?nid = None" "nets_nics ?g = nets_nics (mh_nets h2)"
    using u(1) \<open>u = []\<close> by (simp_all add: ns_delete_network_def map_simps)
  ultimately show ?thesis using s3(2) 2(5) by (intro exI [of _ s3] exI [of _ "h2\<lparr>mh_nets := ?g\<rparr>"]) simp
qed

end


subsection \<open>The life of a cluster\<close>

lemma roles_list:
  assumes "node_role_ok ControlPlane cp" "\<forall>n \<in> set ws. node_role_ok Worker n"
  shows "map kn_role (cp # ws) = ControlPlane # replicate (length ws) Worker" "filter (\<lambda>n. kn_role n = Worker) (cp # ws) = ws"
    "filter (\<lambda>n. kn_role n = ControlPlane) (cp # ws) = [cp]"
proof -
  have "map kn_role ws = replicate (length ws) Worker" "filter (\<lambda>n. kn_role n = Worker) ws = ws"
    "filter (\<lambda>n. kn_role n = ControlPlane) ws = []"
    using assms(2) by (induction ws) (simp_all add: node_role_ok_def)
  then show "map kn_role (cp # ws) = ControlPlane # replicate (length ws) Worker"
    "filter (\<lambda>n. kn_role n = Worker) (cp # ws) = ws" "filter (\<lambda>n. kn_role n = ControlPlane) (cp # ws) = [cp]"
    using assms(1) by (simp_all add: node_role_ok_def)
qed

lemma vip_not_a_node:
  assumes "cluster_up start nid c ns h" "cidr_wf c" "length ns < unat (cidr_capacity c)"
  shows "nth_addr c (unat (cidr_capacity c)) \<notin> (\<lambda>n. nic_ip (kn_nic n)) ` set ns"
proof
  assume "nth_addr c (unat (cidr_capacity c)) \<in> (\<lambda>n. nic_ip (kn_nic n)) ` set ns"
  then have "nth_addr c (unat (cidr_capacity c)) \<in> set (map (nth_addr c) [1..<Suc (length ns)])"
    unfolding cluster_ips [OF assms(1), symmetric] by simp
  then obtain i where "1 \<le> i" "i \<le> length ns" "nth_addr c (unat (cidr_capacity c)) = nth_addr c i" by auto
  with nth_addr_inject [OF assms(2), of "unat (cidr_capacity c)" i] assms(3) show False by simp
qed

text \<open>
  C25. A node that may provision and has room creates a cluster and destroys it again over its own
  calls, whatever the transport does. Creation succeeds: the network has the requested block, the
  control plane gets its first host address and worker \<open>i\<close> (from 0) the one numbered \<open>i + 2\<close>,
  every node is a VM of its own with its NIC registered on the cluster's network, the load
  balancer's backends are exactly the workers, and its virtual address, the last of the block, is
  not a node's. Destruction succeeds: the VM slots are as they were before the creation, and the network, the
  balancer and every NIC of the cluster are gone.
\<close>
theorem k8s_cluster_lifecycle:
  assumes "serves_locally owner st h" "cluster_fits spec c h"
  shows "\<exists>st1 h1 cl st2 h2.
    k8s_create (mesh_call ship mem_vm_host_dyn owner) owner spec st = (st1, Ok cl) \<and> me_host (fst st1) = Some h1 \<and>
    net_cidr (kc_network cl) = c \<and>
    map kn_role (kc_nodes cl) = ControlPlane # replicate (unat (ks_workers spec)) Worker \<and>
    map (\<lambda>n. nic_ip (kn_nic n)) (kc_nodes cl) = map (\<lambda>i. cidr_base c + of_nat i) [1..<unat (ks_workers spec) + 2] \<and>
    distinct (map kn_vm_id (kc_nodes cl)) \<and>
    (\<forall>n \<in> set (kc_nodes cl). nic_vm_id (kn_nic n) = kn_vm_id n \<and> nic_network_id (kn_nic n) = net_id (kc_network cl) \<and>
       map_of (nets_nics (mh_nets h1)) (nic_ident (kn_nic n)) = Some (kn_nic n)) \<and>
    lb_backends (kc_lb cl) = map (k8s_backend (ks_api_backend_port spec)) (k8s_worker_nodes cl) \<and>
    lb_vip (kc_lb cl) = cidr_base c + cidr_capacity c \<and> lb_vip (kc_lb cl) \<notin> (\<lambda>n. nic_ip (kn_nic n)) ` set (kc_nodes cl) \<and>
    k8s_destroy (mesh_call ship mem_vm_host_dyn owner) cl st1 = (st2, Ok ()) \<and> me_host (fst st2) = Some h2 \<and>
    mh_slots h2 = mh_slots h \<and> map_of (nets_networks (mh_nets h2)) (net_id (kc_network cl)) = None \<and>
    map_of (nets_lbs (mh_nets h2)) (lb_ident (kc_lb cl)) = None \<and>
    (\<forall>n \<in> set (kc_nodes cl). map_of (nets_nics (mh_nets h2)) (nic_ident (kn_nic n)) = None)"
proof -
  obtain st1 h1 cl cp ws where 1: "k8s_create (mesh_call ship mem_vm_host_dyn owner) owner spec st = (st1, Ok cl)"
    "serves_locally owner st1 h1" "kc_nodes cl = cp # ws" "node_role_ok ControlPlane cp" "\<forall>n \<in> set ws. node_role_ok Worker n"
    "length ws = unat (ks_workers spec)" "cluster_up (mh_slots h) (net_id (kc_network cl)) c (cp # ws) h1"
    "lb_vip (kc_lb cl) = nth_addr c (unat (cidr_capacity c))"
    "lb_backends (kc_lb cl) = map (k8s_backend (ks_api_backend_port spec)) ws" "net_cidr (kc_network cl) = c"
    by (rule local_service.k8s_create_provisions [OF assms])
  note roles = roles_list [OF 1(4,5)]
  have left: "cluster_left (mh_slots h) (net_id (kc_network cl)) (kc_nodes cl) h1"
    using cluster_up_left [OF 1(7)] 1(3) by simp
  from local_service.k8s_destroy_undoes [OF 1(2) left] obtain st2 h2 where
    2: "k8s_destroy (mesh_call ship mem_vm_host_dyn owner) cl st1 = (st2, Ok ())" "serves_locally owner st2 h2"
    "mh_slots h2 = mh_slots h" "map_of (nets_networks (mh_nets h2)) (net_id (kc_network cl)) = None"
    "map_of (nets_lbs (mh_nets h2)) (lb_ident (kc_lb cl)) = None"
    "\<forall>n \<in> set (kc_nodes cl). map_of (nets_nics (mh_nets h2)) (nic_ident (kn_nic n)) = None" by blast
  have nics: "nic_vm_id (kn_nic n) = kn_vm_id n \<and> nic_network_id (kn_nic n) = net_id (kc_network cl) \<and>
      map_of (nets_nics (mh_nets h1)) (nic_ident (kn_nic n)) = Some (kn_nic n)" if "n \<in> set (kc_nodes cl)" for n
    using 1(3-5,7) that by (auto simp: node_role_ok_def cluster_up_def cluster_nics_def)
  have ips: "map (\<lambda>n. nic_ip (kn_nic n)) (kc_nodes cl) = map (\<lambda>i. cidr_base c + of_nat i) [1..<unat (ks_workers spec) + 2]"
    using cluster_ips [OF 1(7)] 1(3,6) unfolding nth_addr_def by simp
  have "length (cp # ws) < unat (cidr_capacity c)" using assms(2) 1(6) by (simp add: cluster_fits_def)
  note vip = vip_not_a_node [OF 1(7) fits_small(6) [OF assms(2)] this]
  have "distinct (map kn_vm_id (kc_nodes cl))" using left by (simp add: cluster_left_def)
  then show ?thesis
    using 1(1,2,6,8-10) 2 nics ips roles vip
    by (intro exI [of _ st1] exI [of _ h1] exI [of _ cl] exI [of _ st2] exI [of _ h2])
       (simp add: serves_locally_def 1(3) k8s_worker_nodes_def nth_addr_def)
qed


theorem k8s_cluster_lifecycle_witness:
  "\<exists>st1 h1 cl st2 h2.
    k8s_create (mesh_call demo_ship mem_vm_host_dyn ''a'') ''a'' (k8s_cluster_spec_new ''x'' 2) (demo_a, []) = (st1, Ok cl) \<and>
    me_host (fst st1) = Some h1 \<and> map kn_role (kc_nodes cl) = [ControlPlane, Worker, Worker] \<and>
    map (\<lambda>n. nic_ip (kn_nic n)) (kc_nodes cl) = [0x0A2A0001, 0x0A2A0002, 0x0A2A0003] \<and> lb_vip (kc_lb cl) = 0x0A2A00FE \<and>
    k8s_destroy (mesh_call demo_ship mem_vm_host_dyn ''a'') cl st1 = (st2, Ok ()) \<and>
    me_host (fst st2) = Some h2 \<and> mh_slots h2 = [None, None, None, None]"
proof -
  let ?h = "mem_vm_host_new\<lparr>mh_owner := Some ''a''\<rparr>" and ?c = "\<lparr>cidr_base = 0x0A2A0000, cidr_prefix_len = 24\<rparr>"
  have serves: "serves_locally ''a'' (demo_a, []) ?h" by (simp add: serves_locally_def demo_a_eval)
  have parse: "cidr_parse ''10.42.0.0/24'' = Ok ?c"
    by (simp add: net_eval)
  have cap: "cidr_capacity ?c = 254" by code_simp
  have fits: "cluster_fits (k8s_cluster_spec_new ''x'' 2) ?c ?h"
  proof -
    have "may_provision ?h" "free_slots ?h = 4" by code_simp+
    then show ?thesis by (simp add: cluster_fits_def parse k8s_cluster_spec_new_def cap)
  qed
  from k8s_cluster_lifecycle [OF serves fits, of demo_ship] obtain st1 h1 cl st2 h2 where
    1: "k8s_create (mesh_call demo_ship mem_vm_host_dyn ''a'') ''a'' (k8s_cluster_spec_new ''x'' 2) (demo_a, []) = (st1, Ok cl)"
      "me_host (fst st1) = Some h1"
    and 2: "map kn_role (kc_nodes cl) = ControlPlane # replicate (unat (ks_workers (k8s_cluster_spec_new ''x'' 2))) Worker"
    and 3: "map (\<lambda>n. nic_ip (kn_nic n)) (kc_nodes cl) =
      map (\<lambda>i. cidr_base ?c + of_nat i) [1..<unat (ks_workers (k8s_cluster_spec_new ''x'' 2)) + 2]"
    and 4: "lb_vip (kc_lb cl) = cidr_base ?c + cidr_capacity ?c"
    and 5: "k8s_destroy (mesh_call demo_ship mem_vm_host_dyn ''a'') cl st1 = (st2, Ok ())" "me_host (fst st2) = Some h2"
      "mh_slots h2 = mh_slots ?h"
    by (elim exE conjE) (rule that, assumption+)
  have w: "unat (ks_workers (k8s_cluster_spec_new ''x'' 2)) = 2" by (simp add: k8s_cluster_spec_new_def)
  have addrs: "map (\<lambda>i. cidr_base ?c + of_nat i) [1..<2 + 2] = [0x0A2A0001, 0x0A2A0002, 0x0A2A0003]"
    by (simp add: upt_rec)
  have "mh_slots ?h = [None, None, None, None]" by code_simp
  with 1 2 3 4 5 addrs show ?thesis
    by (intro exI [of _ st1] exI [of _ h1] exI [of _ cl] exI [of _ st2] exI [of _ h2])
      (simp add: w cap numeral_2_eq_2)
qed


text \<open>On a block the nodes fill, the balancer's virtual address is the address of the last node.\<close>

lemma vip_of_full_block:
  assumes "cluster_up start nid c ns h" "length ns = unat (cidr_capacity c)" "ns \<noteq> []"
  shows "nic_ip (kn_nic (last ns)) = nth_addr c (unat (cidr_capacity c))"
proof -
  have "nic_ip (kn_nic (last ns)) = last (map (\<lambda>n. nic_ip (kn_nic n)) ns)" using assms(3) by (simp add: last_map)
  also have "\<dots> = nth_addr c (length ns)" using assms(3) unfolding cluster_ips [OF assms(1)] by (simp add: Suc_le_eq)
  finally show ?thesis using assms(2) by simp
qed

end
