(* ===== verification/Spec2Isabelle.thy ===== *)
theory Spec2Isabelle
  imports Tenant_Exec Mesh_Runs Hyper_Sim Image_Open File_Vault File_Tenants K8s
begin

text \<open>
  This library verifies celium, a multi-tenant virtual-machine platform written in Rust
  (\<^verbatim>\<open>src/crates\<close>). Its parts are a vault of volumes and networks (celvault), a peer-to-peer mesh of
  nodes that run VMs (celmesh), a tenancy layer of quotas, users and sessions (celtenancy), a
  bare-metal hypervisor (celhyper), disk-image readers (celimage) and a command line (celcli). A
  mesh node owns a VM host; the host owns a vault and a network store; peers exchange node and VM
  rows by gossip, call each other's hosts, and a supervisor recreates the VMs of dead nodes. Tenants
  authenticate users, hand out sessions with attenuated capabilities and charge resources along a
  tree of nested tenants.

  \<^bold>\<open>Shared theories.\<close> \<^verbatim>\<open>Prelude\<close> has the result type (\<^verbatim>\<open>Ok\<close> and \<^verbatim>\<open>Err\<close>), machine-integer
  helpers (checked and saturating operations on words) and list lemmas. \<^verbatim>\<open>Assoc_Maps\<close> models
  \<^verbatim>\<open>BTreeMap\<close> as a sorted association list, with its laws as a locale. \<^verbatim>\<open>Text_Format\<close> models the
  parsing and printing the code uses (decimal numbers, splitting, hexadecimal). \<^verbatim>\<open>Common\<close> is
  \<^verbatim>\<open>celcommon/src/error.rs\<close>. \<^verbatim>\<open>Lww_Table\<close> states last-writer-wins tables as a locale that both
  gossip tables interpret.

  \<^bold>\<open>celvault.\<close> \<^verbatim>\<open>Volumes\<close> models \<^verbatim>\<open>MemVolumeStore\<close> (\<^verbatim>\<open>lib.rs\<close>): volumes, snapshots, reads, writes,
  restore and the integrity check; in every run the store is clean, writes are read back, and a
  snapshot restores its body. \<^verbatim>\<open>Networks\<close> models \<^verbatim>\<open>network.rs\<close>: CIDR blocks, address allocation,
  NICs, security groups and load balancers; addresses are unique, allocation is first-fit, dispatch
  stays in range.

  \<^bold>\<open>celmesh.\<close> \<^verbatim>\<open>Proto\<close> has the messages (\<^verbatim>\<open>proto.rs\<close>), \<^verbatim>\<open>Mesh_Caps\<close> the capability bits
  (\<^verbatim>\<open>capabilities.rs\<close>), \<^verbatim>\<open>Vm_Host\<close> the in-memory host (\<^verbatim>\<open>host.rs\<close>) with its lifecycle, error
  atomicity, capability gate and the interleavings of its lock sections. \<^verbatim>\<open>Membership\<close>
  (\<^verbatim>\<open>membership.rs\<close>) and \<^verbatim>\<open>Federation\<close> (\<^verbatim>\<open>federation.rs\<close>) are the two gossip tables; \<^verbatim>\<open>Mesh\<close>
  (\<^verbatim>\<open>mesh.rs\<close>, \<^verbatim>\<open>metrics.rs\<close>) has one definition per handler of a node, and \<^verbatim>\<open>Mesh_Runs\<close> composes
  nodes into a cluster over a network that loses, duplicates and reorders frames. \<^verbatim>\<open>K8s\<close> (\<^verbatim>\<open>k8s.rs\<close>) is the
  orchestrator of managed clusters over any call function; what it needs of a call is the locale \<^verbatim>\<open>vm_service\<close>,
  which a node calling its own host interprets; a cluster gets its VMs, NICs and balancer in order, and destroying it
  frees the slots and removes them.

  \<^bold>\<open>celtenancy.\<close> \<^verbatim>\<open>Tenant_Caps\<close> (\<^verbatim>\<open>caps.rs\<close>), \<^verbatim>\<open>Tenants\<close> (\<^verbatim>\<open>quota.rs\<close>, \<^verbatim>\<open>namespace.rs\<close>,
  \<^verbatim>\<open>tenant.rs\<close>, \<^verbatim>\<open>user.rs\<close>, \<^verbatim>\<open>auth.rs\<close>) and \<^verbatim>\<open>Tenant_Store\<close> (\<^verbatim>\<open>store.rs\<close>) model the tenant store;
  \<^verbatim>\<open>Tenant_Runs\<close> proves its invariant over all runs, that charges are all-or-nothing, that
  revocation is complete and that sessions never exceed their user's authority. \<^verbatim>\<open>Audit_Log\<close> is
  \<^verbatim>\<open>audit.rs\<close> (the in-memory and the file sink, with torn writes), \<^verbatim>\<open>Tenant_Runtime\<close> is
  \<^verbatim>\<open>runtime.rs\<close>, the host wrapper that meters and audits every operation of a tenant, and
  \<^verbatim>\<open>Tenant_Exec\<close> is \<^verbatim>\<open>exec.rs\<close>. They compose the store with the VM host of celmesh: usage is
  exactly the sum of the resources on the host, the audit log reconciles with it, and a refusal
  changes nothing.

  \<^bold>\<open>celhyper.\<close> \<^verbatim>\<open>Hyper_Wire\<close> is the NDJSON protocol of the kernel (\<^verbatim>\<open>wire.rs\<close>, \<^verbatim>\<open>crc.rs\<close>,
  \<^verbatim>\<open>error.rs\<close>): a hand-written scanner and writer; accepted requests are exactly the well-formed
  ones, replies fit their buffer, CRC-32C detects bursts of up to four bytes. \<^verbatim>\<open>Ept\<close> is guest memory
  (\<^verbatim>\<open>mm.rs\<close>, \<^verbatim>\<open>region.rs\<close>, \<^verbatim>\<open>install_first_guest\<close>): four-level tables over the locale
  \<^verbatim>\<open>frame_provider\<close>, interpreted by the kernel's bump allocator on a byte memory; mapping
  refines the update of a page map. \<^verbatim>\<open>Vmx\<close> has the VMCS fields, the writes that fill a VMCS and the
  classification of exits (\<^verbatim>\<open>vmx/\<close>). \<^verbatim>\<open>Hyper_Vm\<close> is the VM state machine, the manager, the
  scheduler slot and the capability-gated namespace (\<^verbatim>\<open>vm.rs\<close>, \<^verbatim>\<open>manager.rs\<close>, \<^verbatim>\<open>sched.rs\<close>,
  \<^verbatim>\<open>cap.rs\<close>); its invariant says that guests never share a frame, a table root or a VMCS.
  \<^verbatim>\<open>Hyper_Bridge\<close> has the boot images and the serial bridge (\<^verbatim>\<open>guest.rs\<close>, \<^verbatim>\<open>image_loader.rs\<close>,
  \<^verbatim>\<open>handoff.rs\<close>, \<^verbatim>\<open>bridge.rs\<close>, \<^verbatim>\<open>serial_io.rs\<close>), and \<^verbatim>\<open>Hyper_Boot\<close> the boot sequence
  (\<^verbatim>\<open>bringup.rs\<close>, \<^verbatim>\<open>main.rs\<close>).

  \<^bold>\<open>celmesh on celhyper.\<close> \<^verbatim>\<open>Hyper_Host\<close> (\<^verbatim>\<open>hyper_host.rs\<close>) is the VM host that drives the kernel over
  a link, and the simulated kernel its tests run on; over the simulation it is equivalent to the in-memory host.
  \<^verbatim>\<open>Hyper_Sim\<close> relates the simulation to the model of the kernel's bridge: they agree on
  every run without deletes, and a delete separates them.

  \<^bold>\<open>celimage.\<close> \<^verbatim>\<open>Disk_Image\<close> (\<^verbatim>\<open>util.rs\<close>, \<^verbatim>\<open>disk.rs\<close>, \<^verbatim>\<open>format.rs\<close>, \<^verbatim>\<open>raw.rs\<close>, the digest of \<^verbatim>\<open>lib.rs\<close>)
  has the files, the byte helpers and the locale \<^verbatim>\<open>disk_backend\<close>: what a reader promises about the logical disk, and
  what the read loops and the digest make of it. \<^verbatim>\<open>Qcow2\<close>, \<^verbatim>\<open>Vmdk\<close> and \<^verbatim>\<open>Vhdx\<close> model the readers and
  interpret the locale with the mapping of their format; \<^verbatim>\<open>Image_Open\<close> (\<^verbatim>\<open>lib.rs\<close>) composes them: the digest depends on
  the contents only, and reads of an opened image do not panic but for two kinds of hostile files.

  \<^bold>\<open>Persistence.\<close> \<^verbatim>\<open>File_System\<close> models the calls of \<^verbatim>\<open>std::fs\<close> with an arbitrary sequence of faults, and
  states as the locale \<^verbatim>\<open>saved_document\<close> what saving a document by temporary file and rename gives: after
  any failures the document is the state after a prefix of the calls. \<^verbatim>\<open>File_Vault\<close>
  (\<^verbatim>\<open>celvault/src/file_store.rs\<close>) and \<^verbatim>\<open>File_Tenants\<close> (\<^verbatim>\<open>FileTenantStore\<close> of \<^verbatim>\<open>celtenancy/src/store.rs\<close>) interpret
  it; without faults the volume store on disk refines \<^verbatim>\<open>MemVolumeStore\<close>, interprets the same locale
  \<^verbatim>\<open>volume_store\<close>, and reopens to itself. \<^verbatim>\<open>Plain_Codec\<close> is a concrete codec that satisfies what these
  theorems assume of \<^verbatim>\<open>serde_json\<close>.

  \<^bold>\<open>Conventions.\<close> Rust strings are character lists whose length is the length in bytes; integers
  keep their width as words, with checked, wrapping or saturating operations as in the source. Errors
  are values of \<^verbatim>\<open>result\<close>. Mutexes and atomics become state passing, except in \<^verbatim>\<open>Vm_Host\<close>, whose
  lock sections are steps of their own. Loops are structural recursion or have a
  termination proof; the run queue of the kernel is a partial function whose termination is a
  theorem. Fuel occurs only in the decoder of \<^verbatim>\<open>Plain_Codec\<close>, where the length of the input is enough.

  \<^bold>\<open>Parameters.\<close> Code outside the repository is an argument of the definitions that use it: the
  password hash, SHA-256 and random tokens of the tenant store, the JSON codecs of the audit log, of the
  file-backed stores and of the bridge's host side, the
  transport and clock of the mesh, the processor of the kernel (one function per privileged
  instruction, answering arbitrarily), the memory at the loader's addresses, and the answers of the operating
  system to file calls.

  \<^bold>\<open>Not modelled.\<close> Sockets, the admin and metrics endpoints, the demo and the command line, which print and
  call the modelled crates; in the kernel the assembly, the device drivers, the
  local APIC, the further processors, logging and counters. The
  interleavings of the volume store's body I/O and the loss of unsynced data when power fails are not modelled either.
\<close>

end
